(* ===== verification/Prelude.thy ===== *)
theory Prelude
  imports Main "HOL-Library.Word" "HOL-Library.Multiset" "HOL-Library.Monad_Syntax"
begin

text \<open>
  Shared vocabulary of the development: bytes, C strings, little-endian integers as the
  x86-64 ABI lays them out, and a checked memory buffer.  A read or a write outside a buffer
  is \<open>None\<close>; the program theories turn that into undefined behaviour.
\<close>

named_theorems wire_simps \<open>layout arithmetic of the netlink buffers\<close>
named_theorems prog_rules \<open>specification rules of program trees, used as introduction rules\<close>

type_synonym byte = "8 word"
type_synonym bytes = "byte list"

section \<open>C strings\<close>

text \<open>The bytes of a string without its terminator, and the string of some bytes.\<close>

definition bytes_of_string :: "string \<Rightarrow> bytes" where
  "bytes_of_string s = map of_char s"

definition string_of_bytes :: "bytes \<Rightarrow> string" where
  "string_of_bytes bs = map (\<lambda>b. char_of (unat b)) bs"

text \<open>What \<open>memcpy(dst, s, strlen(s) + 1)\<close> copies.\<close>

definition cstring :: "string \<Rightarrow> bytes" where
  "cstring s = bytes_of_string s @ [0]"

lemma length_bytes_of_string [simp]: "length (bytes_of_string s) = length s"
  by (simp add: bytes_of_string_def)

lemma length_cstring [simp]: "length (cstring s) = Suc (length s)"
  by (simp add: cstring_def)

lemma char_of_unat_byte [simp]: "char_of (unat (of_char c :: byte)) = c"
proof -
  have "unat (of_char c :: byte) = of_char c mod 256"
    using of_nat_of_char [of c, where 'a = byte] unat_of_nat [where 'a = 8, of "of_char c"] by simp
  then show ?thesis by (simp add: char_of_mod_256)
qed

lemma string_of_bytes_of_string [simp]: "string_of_bytes (bytes_of_string s) = s"
  by (simp add: bytes_of_string_def string_of_bytes_def comp_def)

section \<open>Little-endian integers\<close>

definition le16 :: "nat \<Rightarrow> bytes" where
  "le16 n = [word_of_nat n, word_of_nat (n div 256)]"

definition le32 :: "nat \<Rightarrow> bytes" where
  "le32 n = [word_of_nat n, word_of_nat (n div 256), word_of_nat (n div 65536),
             word_of_nat (n div 16777216)]"

definition le32_int :: "int \<Rightarrow> bytes" where
  "le32_int i = le32 (nat (i mod 2 ^ 32))"

definition of_le :: "bytes \<Rightarrow> nat" where
  "of_le bs = foldr (\<lambda>b n. unat b + 256 * n) bs 0"

definition int_of_le32 :: "bytes \<Rightarrow> int" where
  "int_of_le32 bs = (let n = int (of_le bs) in if n < 2 ^ 31 then n else n - 2 ^ 32)"

lemma length_le16 [simp]: "length (le16 n) = 2"
  by (simp add: le16_def)

lemma length_le32 [simp]: "length (le32 n) = 4"
  by (simp add: le32_def)

lemma length_le32_int [simp]: "length (le32_int i) = 4"
  by (simp add: le32_int_def)

lemma unat_byte_of_nat [simp]: "unat (word_of_nat n :: byte) = n mod 256"
  by (simp add: unat_of_nat)

lemma of_le_le16 [simp]: "n < 65536 \<Longrightarrow> of_le (le16 n) = n"
  by (simp add: of_le_def le16_def)

lemma of_le_le32 [simp]: "n < 2 ^ 32 \<Longrightarrow> of_le (le32 n) = n"
proof -
  assume "n < 2 ^ 32"
  define a b c where "a = n div 256" and "b = a div 256" and "c = b div 256"
  have "n div 65536 = b" "n div 16777216 = c"
    by (simp_all add: a_def b_def c_def div_mult2_eq [symmetric])
  moreover have "c < 256"
    using \<open>n < 2 ^ 32\<close> by (simp add: a_def b_def c_def div_mult2_eq [symmetric] less_mult_imp_div_less)
  moreover have "n = 256 * a + n mod 256" "a = 256 * b + a mod 256" "b = 256 * c + b mod 256"
    by (simp_all add: a_def b_def c_def)
  ultimately show ?thesis
    by (simp add: of_le_def le32_def a_def [symmetric])
qed

lemma of_le_bound: "of_le bs < 256 ^ length bs"
proof (induction bs)
  case Nil
  then show ?case by (simp add: of_le_def)
next
  case (Cons b bs)
  have "unat b < 2 ^ LENGTH(8)" by (rule unsigned_less)
  then have "unat b < 256" by simp
  moreover have "of_le (b # bs) = unat b + 256 * of_le bs" by (simp add: of_le_def)
  ultimately show ?case using Cons by simp
qed

lemma int_of_le32_le32_int [simp]:
  "- (2 ^ 31) \<le> i \<Longrightarrow> i < 2 ^ 31 \<Longrightarrow> int_of_le32 (le32_int i) = i"
proof -
  assume b: "- (2 ^ 31) \<le> i" "i < 2 ^ 31"
  have lt: "nat (i mod 2 ^ 32) < 2 ^ 32" by (simp add: nat_less_iff)
  have e: "int (of_le (le32_int i)) = i mod 2 ^ 32"
    using of_le_le32 [OF lt] by (simp add: le32_int_def)
  show ?thesis
  proof (cases "0 \<le> i")
    case True
    then have "i mod 2 ^ 32 = i" using b by simp
    then show ?thesis using b e by (simp add: int_of_le32_def Let_def)
  next
    case False
    then have "i mod 2 ^ 32 = i + 2 ^ 32"
      using b mod_add_self2 [of i "2 ^ 32"] mod_pos_pos_trivial [of "i + 2 ^ 32" "2 ^ 32"] by simp
    then show ?thesis using b e False by (simp add: int_of_le32_def Let_def)
  qed
qed

section \<open>Checked buffers\<close>

text \<open>
  A C array of bytes.  \<open>slice\<close> reads \<open>n\<close> bytes at an offset, \<open>splice\<close> overwrites; \<open>rd\<close> and
  \<open>wr\<close> are the same with the bound that the C object has.
\<close>

definition slice :: "nat \<Rightarrow> nat \<Rightarrow> 'a list \<Rightarrow> 'a list" where
  "slice off n buf = take n (drop off buf)"

definition splice :: "'a list \<Rightarrow> nat \<Rightarrow> 'a list \<Rightarrow> 'a list" where
  "splice buf off xs =
     (if off + length xs \<le> length buf then take off buf @ xs @ drop (off + length xs) buf else buf)"

definition rd :: "'a list \<Rightarrow> nat \<Rightarrow> nat \<Rightarrow> 'a list option" where
  "rd buf off n = (if off + n \<le> length buf then Some (slice off n buf) else None)"

definition wr :: "'a list \<Rightarrow> nat \<Rightarrow> 'a list \<Rightarrow> 'a list option" where
  "wr buf off xs = (if off + length xs \<le> length buf then Some (splice buf off xs) else None)"

abbreviation zeros :: "nat \<Rightarrow> bytes" where
  "zeros n \<equiv> replicate n 0"

lemma length_splice [simp]: "length (splice buf off xs) = length buf"
  by (simp add: splice_def)

lemma length_slice [simp]: "off + n \<le> length buf \<Longrightarrow> length (slice off n buf) = n"
  by (simp add: slice_def)

lemma wr_length: "wr buf off xs = Some buf' \<Longrightarrow> length buf' = length buf"
  by (auto simp: wr_def split: if_splits)

lemma slice_splice_same [simp]:
  "off + length xs \<le> length buf \<Longrightarrow> n = length xs \<Longrightarrow> slice off n (splice buf off xs) = xs"
  by (simp add: slice_def splice_def)

lemma slice_splice_before [simp]:
  "o' + n \<le> off \<Longrightarrow> slice o' n (splice buf off xs) = slice o' n buf"
  by (rule nth_equalityI) (auto simp: slice_def splice_def nth_append)

lemma slice_splice_after [simp]:
  assumes "off + length xs \<le> o'"
  shows "slice o' n (splice buf off xs) = slice o' n buf"
proof -
  have "drop o' (splice buf off xs) = drop o' buf"
    using assms by (simp add: splice_def)
  then show ?thesis by (simp add: slice_def)
qed

lemma slice_zeros [simp]: "slice off n (zeros m) = zeros (min n (m - off))"
  by (simp add: slice_def)

lemma slice_slice:
  "i + m \<le> n \<Longrightarrow> slice i m (slice off n buf) = slice (off + i) m buf"
  by (simp add: slice_def drop_take min_def add.commute)

lemma slice_splice_within:
  assumes "off \<le> o'" and "o' + n \<le> off + length xs" and "off + length xs \<le> length buf"
  shows "slice o' n (splice buf off xs) = slice (o' - off) n xs"
  using assms by (simp add: slice_def splice_def)

section \<open>The codec interface\<close>

text \<open>
  The contract between the code that stores an integer field in a message and the reader of
  that message: a fixed width, and decoding gives back what was encoded.
\<close>

locale codec =
  fixes enc :: "'a \<Rightarrow> bytes" and dec :: "bytes \<Rightarrow> 'a" and width :: nat and ok :: "'a \<Rightarrow> bool"
  assumes enc_width: "length (enc x) = width"
    and dec_enc: "ok x \<Longrightarrow> dec (enc x) = x"
begin

lemma field_roundtrip:
  "wr buf off (enc x) = Some buf' \<Longrightarrow> ok x \<Longrightarrow> map_option dec (rd buf' off width) = Some x"
  by (auto simp: wr_def rd_def enc_width dec_enc split: if_splits)

lemma field_frame:
  "wr buf off (enc x) = Some buf' \<Longrightarrow> o' + n \<le> off \<or> off + width \<le> o' \<Longrightarrow>
   rd buf' o' n = rd buf o' n"
  by (auto simp: wr_def rd_def enc_width split: if_splits)

end

interpretation u16: codec le16 of_le 2 "\<lambda>n. n < 65536"
  by unfold_locales simp_all

interpretation u32: codec le32 of_le 4 "\<lambda>n. n < 2 ^ 32"
  by unfold_locales (simp, rule of_le_le32)

interpretation i32: codec le32_int int_of_le32 4 "\<lambda>i. - (2 ^ 31) \<le> i \<and> i < 2 ^ 31"
  by unfold_locales (simp, rule int_of_le32_le32_int, simp_all)

end
