(* ===== verification/Cstring.thy ===== *)
theory Cstring
  imports Prelude
begin

text \<open>
  The part of the C library's string functions that the program calls: decimal output,
  \<open>strtol\<close> and \<open>atoi\<close> (glibc: clamped to \<open>long\<close>, then truncated to \<open>int\<close>), \<open>inet_pton\<close> for
  \<open>AF_INET\<close>, splitting at a slash, and the truncation of \<open>snprintf\<close>.  A C string is the list
  of its characters without the terminating NUL.
\<close>

section \<open>Decimal output\<close>

definition digit_char :: "nat \<Rightarrow> char" where
  "digit_char n = char_of (48 + n)"

fun show_nat :: "nat \<Rightarrow> string" where
  "show_nat n = (if n < 10 then [digit_char n] else show_nat (n div 10) @ [digit_char (n mod 10)])"

declare show_nat.simps [simp del]

definition show_int :: "int \<Rightarrow> string" where
  "show_int i = (if i < 0 then CHR ''-'' # show_nat (nat (- i)) else show_nat (nat i))"

text \<open>\<open>snprintf(buf, n, "%s", s)\<close>: at most \<open>n - 1\<close> characters.\<close>

definition snprintf_s :: "nat \<Rightarrow> string \<Rightarrow> string" where
  "snprintf_s n s = take (n - 1) s"

lemma length_snprintf_s: "0 < n \<Longrightarrow> length (snprintf_s n s) < n"
  by (simp add: snprintf_s_def)

lemma snprintf_s_fits: "length s < n \<Longrightarrow> snprintf_s n s = s"
  by (simp add: snprintf_s_def)

section \<open>Numbers from strings\<close>

definition is_space :: "char \<Rightarrow> bool" where
  "is_space c = (let n = of_char c :: nat in n = 32 \<or> 9 \<le> n \<and> n \<le> 13)"

text \<open>The value of a digit or letter as \<open>strtol\<close> counts it: \<open>0..9\<close>, then \<open>a..z\<close> from 10.\<close>

definition digit_val :: "char \<Rightarrow> nat option" where
  "digit_val c = (let n = of_char c :: nat in
     if 48 \<le> n \<and> n \<le> 57 then Some (n - 48)
     else if 97 \<le> n \<and> n \<le> 122 then Some (n - 87)
     else if 65 \<le> n \<and> n \<le> 90 then Some (n - 55)
     else None)"

definition base_digit :: "nat \<Rightarrow> char \<Rightarrow> nat option" where
  "base_digit b c = (case digit_val c of Some d \<Rightarrow> if d < b then Some d else None | None \<Rightarrow> None)"

fun scan_digits :: "nat \<Rightarrow> nat \<Rightarrow> string \<Rightarrow> nat \<times> string" where
  "scan_digits b acc [] = (acc, [])"
| "scan_digits b acc (c # cs) =
     (case base_digit b c of Some d \<Rightarrow> scan_digits b (acc * b + d) cs | None \<Rightarrow> (acc, c # cs))"

definition starts_digit :: "nat \<Rightarrow> string \<Rightarrow> bool" where
  "starts_digit b s = (case s of [] \<Rightarrow> False | c # _ \<Rightarrow> base_digit b c \<noteq> None)"

definition scan_sign :: "string \<Rightarrow> int \<times> string" where
  "scan_sign s = (case s of c # cs \<Rightarrow>
       if c = CHR ''-'' then (-1, cs) else if c = CHR ''+'' then (1, cs) else (1, s)
     | [] \<Rightarrow> (1, s))"

text \<open>The optional \<open>0x\<close> of base 16, skipped only when a hexadecimal digit follows.\<close>

definition skip_0x :: "nat \<Rightarrow> string \<Rightarrow> string" where
  "skip_0x b s = (case s of z # x # cs \<Rightarrow>
       if b = 16 \<and> z = CHR ''0'' \<and> (x = CHR ''x'' \<or> x = CHR ''X'') \<and> starts_digit 16 cs then cs else s
     | _ \<Rightarrow> s)"

abbreviation (input) LONG_MAX :: int where "LONG_MAX \<equiv> 2 ^ 63 - 1"
abbreviation (input) LONG_MIN :: int where "LONG_MIN \<equiv> - (2 ^ 63)"
abbreviation (input) INT_MAX :: int where "INT_MAX \<equiv> 2 ^ 31 - 1"
abbreviation (input) INT_MIN :: int where "INT_MIN \<equiv> - (2 ^ 31)"

text \<open>\<open>strtol(s, &end, b)\<close>: the value and the string at \<open>end\<close>; with no digits, \<open>end = s\<close>.\<close>

definition strtol :: "nat \<Rightarrow> string \<Rightarrow> int \<times> string" where
  "strtol b s =
     (let (sg, s1) = scan_sign (dropWhile is_space s); s2 = skip_0x b s1 in
      if starts_digit b s2 then
        (let (n, rest) = scan_digits b 0 s2 in (max LONG_MIN (min LONG_MAX (sg * int n)), rest))
      else (0, s))"

definition int_of_long :: "int \<Rightarrow> int" where
  "int_of_long v = (v + 2 ^ 31) mod 2 ^ 32 - 2 ^ 31"

definition atoi :: "string \<Rightarrow> int" where
  "atoi s = int_of_long (fst (strtol 10 s))"

text \<open>The same as a \<open>uint8_t\<close>.\<close>

definition atoi_u8 :: "string \<Rightarrow> nat" where
  "atoi_u8 s = nat (atoi s mod 256)"

lemma int_of_long_id: "INT_MIN \<le> v \<Longrightarrow> v \<le> INT_MAX \<Longrightarrow> int_of_long v = v"
  by (simp add: int_of_long_def)

lemma int_of_long_bounds: "INT_MIN \<le> int_of_long v \<and> int_of_long v \<le> INT_MAX"
proof -
  have "0 \<le> (v + 2 ^ 31) mod 2 ^ 32" "(v + 2 ^ 31) mod 2 ^ 32 < 2 ^ 32" by simp_all
  then show ?thesis by (simp add: int_of_long_def)
qed

lemma atoi_u8_bound: "atoi_u8 s < 256"
  by (simp add: atoi_u8_def nat_less_iff)

subsection \<open>Reading back what was printed\<close>

lemma digit_chars [simp]:
  "digit_char 0 = CHR ''0''" "digit_char (Suc 0) = CHR ''1''" "digit_char 1 = CHR ''1''" "digit_char 2 = CHR ''2''"
  "digit_char 3 = CHR ''3''" "digit_char 4 = CHR ''4''" "digit_char 5 = CHR ''5''" "digit_char 6 = CHR ''6''"
  "digit_char 7 = CHR ''7''" "digit_char 8 = CHR ''8''" "digit_char 9 = CHR ''9''"
  by (code_simp, code_simp, code_simp, code_simp, code_simp, code_simp, code_simp, code_simp, code_simp, code_simp, code_simp)

lemma of_char_digit_char: "n < 10 \<Longrightarrow> (of_char (digit_char n) :: nat) = 48 + n"
  by (simp add: digit_char_def of_char_of)

lemma base_digit_digit_char: "n < 10 \<Longrightarrow> base_digit 10 (digit_char n) = Some n"
  by (simp add: base_digit_def digit_val_def of_char_digit_char)

lemma show_nat_nonempty: "show_nat n \<noteq> []"
  by (subst show_nat.simps) simp

lemma show_nat_digits: "c \<in> set (show_nat n) \<Longrightarrow> \<exists>d < 10. c = digit_char d"
proof (induction n rule: show_nat.induct)
  case (1 n)
  have "n mod 10 < 10" by simp
  with 1 show ?case
    by (cases "n < 10") (auto simp: show_nat.simps [of n] simp del: mod_less_divisor)
qed

lemma scan_digits_append:
  assumes "\<forall>c \<in> set xs. \<exists>d < 10. c = digit_char d"
  shows "scan_digits 10 acc (xs @ ys) =
         scan_digits 10 (foldl (\<lambda>a c. a * 10 + the (base_digit 10 c)) acc xs) ys"
  using assms by (induction xs arbitrary: acc) (auto simp: base_digit_digit_char)

lemma foldl_show_nat:
  "foldl (\<lambda>a c. a * 10 + the (base_digit 10 c)) 0 (show_nat n) = n"
proof (induction n rule: show_nat.induct)
  case (1 n)
  then show ?case
    by (cases "n < 10") (auto simp: show_nat.simps [of n] base_digit_digit_char)
qed

lemma scan_digits_stop: "\<not> starts_digit b ys \<Longrightarrow> scan_digits b acc ys = (acc, ys)"
  by (cases ys) (auto simp: starts_digit_def)

lemma scan_digits_show_nat:
  "\<not> starts_digit 10 ys \<Longrightarrow> scan_digits 10 0 (show_nat n @ ys) = (n, ys)"
  by (simp add: scan_digits_append show_nat_digits foldl_show_nat scan_digits_stop)

lemma digit_char_not_space: "d < 10 \<Longrightarrow> \<not> is_space (digit_char d)"
  by (simp add: is_space_def of_char_digit_char)

lemma digit_char_not: "d < 10 \<Longrightarrow> (of_char c :: nat) < 48 \<or> 57 < (of_char c :: nat) \<Longrightarrow> digit_char d \<noteq> c"
  using of_char_digit_char [of d] by auto

lemma show_nat_head:
  obtains d cs where "show_nat n = digit_char d # cs" and "d < 10"
proof (cases "show_nat n")
  case Nil
  then show ?thesis using show_nat_nonempty by simp
next
  case (Cons c cs)
  then show ?thesis using show_nat_digits [of c n] that by auto
qed

lemma strtol_show_nat:
  assumes "int n \<le> LONG_MAX" and "\<not> starts_digit 10 ys"
  shows "strtol 10 (show_nat n @ ys) = (int n, ys)"
proof -
  obtain d cs where h: "show_nat n = digit_char d # cs" and d: "d < 10" by (rule show_nat_head)
  have "dropWhile is_space (show_nat n @ ys) = show_nat n @ ys"
    by (simp add: h digit_char_not_space d)
  moreover have "scan_sign (show_nat n @ ys) = (1, show_nat n @ ys)"
    using digit_char_not [OF d] by (simp add: h scan_sign_def)
  moreover have "skip_0x 10 (show_nat n @ ys) = show_nat n @ ys"
    by (simp add: skip_0x_def split: list.splits)
  moreover have "starts_digit 10 (show_nat n @ ys)"
    by (simp add: h starts_digit_def base_digit_digit_char d)
  ultimately show ?thesis
    using assms by (simp add: strtol_def scan_digits_show_nat)
qed

lemma atoi_show_nat: "int n \<le> INT_MAX \<Longrightarrow> atoi (show_nat n) = int n"
  using strtol_show_nat [of n "[]"] by (simp add: atoi_def int_of_long_id starts_digit_def)

lemma atoi_u8_show_nat: "n < 256 \<Longrightarrow> atoi_u8 (show_nat n) = n"
  by (simp add: atoi_u8_def atoi_show_nat)

section \<open>inet\_pton for IPv4\<close>

text \<open>
  The loop of \<open>inet_pton4\<close>: the octets finished so far (last first), the current octet, the
  number of octets started and whether a digit of the current one was seen.
\<close>

fun pton_loop :: "nat list \<Rightarrow> nat \<Rightarrow> nat \<Rightarrow> bool \<Rightarrow> string \<Rightarrow> nat list option" where
  "pton_loop done cur octets saw [] = (if octets < 4 then None else Some (rev (cur # done)))"
| "pton_loop done cur octets saw (c # cs) =
     (case base_digit 10 c of
        Some d \<Rightarrow>
          if saw \<and> cur = 0 then None
          else if 255 < cur * 10 + d then None
          else if saw then pton_loop done (cur * 10 + d) octets True cs
          else if 4 < octets + 1 then None
          else pton_loop done (cur * 10 + d) (octets + 1) True cs
      | None \<Rightarrow>
          if c = CHR ''.'' \<and> saw then
            (if octets = 4 then None else pton_loop (cur # done) 0 octets False cs)
          else None)"

definition inet_pton :: "string \<Rightarrow> bytes option" where
  "inet_pton s = map_option (map word_of_nat) (pton_loop [] 0 0 False s)"

definition show_ipv4 :: "nat \<Rightarrow> nat \<Rightarrow> nat \<Rightarrow> nat \<Rightarrow> string" where
  "show_ipv4 a b c d =
     show_nat a @ ''.'' @ show_nat b @ ''.'' @ show_nat c @ ''.'' @ show_nat d"

lemma pton_loop_length:
  "pton_loop done cur octets saw s = Some ns \<Longrightarrow> octets \<le> 4 \<Longrightarrow>
   octets = (if saw then Suc (length done) else length done) \<Longrightarrow> (\<not> saw \<Longrightarrow> octets < 4) \<Longrightarrow>
   length ns = 4"
  by (induction "done" cur octets saw s rule: pton_loop.induct)
    (auto split: if_splits option.splits)

lemma pton_loop_range:
  "pton_loop done cur octets saw s = Some ns \<Longrightarrow> \<forall>n \<in> set (cur # done). n < 256 \<Longrightarrow>
   \<forall>n \<in> set ns. n < 256"
  by (induction "done" cur octets saw s rule: pton_loop.induct)
    (auto split: if_splits option.splits)

lemma inet_pton_length: "inet_pton s = Some bs \<Longrightarrow> length bs = 4"
  by (auto simp: inet_pton_def dest: pton_loop_length)

lemma pton_octet:
  assumes "n < 256" and "octets < 4"
  shows "pton_loop done 0 octets False (show_nat n @ rest) = pton_loop done n (Suc octets) True rest"
proof -
  consider "n < 10" | "10 \<le> n" "n < 100" | "100 \<le> n" by linarith
  then show ?thesis
  proof cases
    case 1
    then show ?thesis using assms by (simp add: show_nat.simps base_digit_digit_char)
  next
    case 2
    then have d: "n div 10 < 10" "n mod 10 < 10" "n div 10 \<noteq> 0" by auto
    then have "show_nat n = [digit_char (n div 10), digit_char (n mod 10)]"
      using 2 by (simp add: show_nat.simps [of n] show_nat.simps [of "n div 10"])
    then show ?thesis
      using assms d by (simp add: base_digit_digit_char)
  next
    case 3
    define q where "q = n div 10"
    have d: "q div 10 < 10" "q mod 10 < 10" "n mod 10 < 10" "q div 10 \<noteq> 0" "\<not> q < 10" "\<not> n < 10"
      using 3 assms(1) by (auto simp: q_def)
    have q: "q div 10 * 10 + q mod 10 = q" "q * 10 + n mod 10 = n"
      by (simp_all add: q_def)
    have "show_nat n = [digit_char (q div 10), digit_char (q mod 10), digit_char (n mod 10)]"
      using d by (simp add: show_nat.simps [of n] show_nat.simps [of q] show_nat.simps [of "q div 10"] q_def [symmetric])
    moreover have "q \<noteq> 0" "q \<le> 255" "q div 10 \<le> 255" using d assms(1) by (auto simp: q_def)
    ultimately show ?thesis
      using assms d by (simp add: base_digit_digit_char q)
  qed
qed

lemma base_digit_dot [simp]: "base_digit 10 (CHR ''.'') = None"
  by (simp add: base_digit_def digit_val_def)

lemma inet_pton_show_ipv4:
  assumes "a < 256" "b < 256" "c < 256" "d < 256"
  shows "inet_pton (show_ipv4 a b c d) = Some [word_of_nat a, word_of_nat b, word_of_nat c, word_of_nat d]"
proof -
  have l: "pton_loop ds 0 oc False (show_nat d) = pton_loop ds d (Suc oc) True []" if "oc < 4" for ds oc
    using pton_octet [OF assms(4) that, of ds "[]"] by simp
  show ?thesis
    using assms by (simp add: inet_pton_def show_ipv4_def pton_octet l)
qed

section \<open>Splitting at a slash\<close>

text \<open>\<open>strchr(buf, '/')\<close>: what precedes the first slash, and what follows it if there is one.\<close>

definition before_slash :: "string \<Rightarrow> string" where
  "before_slash s = takeWhile (\<lambda>c. c \<noteq> CHR ''/'') s"

definition after_slash :: "string \<Rightarrow> string option" where
  "after_slash s = (case dropWhile (\<lambda>c. c \<noteq> CHR ''/'') s of [] \<Rightarrow> None | _ # cs \<Rightarrow> Some cs)"

lemma split_slash [simp]:
  assumes "CHR ''/'' \<notin> set xs"
  shows "before_slash (xs @ CHR ''/'' # ys) = xs" and "after_slash (xs @ CHR ''/'' # ys) = Some ys"
proof -
  have p: "\<forall>c \<in> set xs. c \<noteq> CHR ''/''" using assms by auto
  show "before_slash (xs @ CHR ''/'' # ys) = xs"
    using p by (simp add: before_slash_def takeWhile_append)
  show "after_slash (xs @ CHR ''/'' # ys) = Some ys"
    using p by (simp add: after_slash_def dropWhile_append)
qed

lemma no_slash [simp]:
  assumes "CHR ''/'' \<notin> set xs"
  shows "before_slash xs = xs" and "after_slash xs = None"
proof -
  have p: "\<forall>c \<in> set xs. c \<noteq> CHR ''/''" using assms by auto
  show "before_slash xs = xs" using p by (simp add: before_slash_def takeWhile_eq_all_conv)
  have "dropWhile (\<lambda>c. c \<noteq> CHR ''/'') xs = []" using p by (simp add: dropWhile_eq_Nil_conv)
  then show "after_slash xs = None" by (simp only: after_slash_def list.case)
qed

lemma slash_decomp: "after_slash s = Some r \<Longrightarrow> s = before_slash s @ CHR ''/'' # r"
proof -
  assume "after_slash s = Some r"
  then obtain c where d: "dropWhile (\<lambda>c. c \<noteq> CHR ''/'') s = c # r"
    by (auto simp: after_slash_def split: list.splits)
  then have "c = CHR ''/''" using hd_dropWhile [of "\<lambda>c. c \<noteq> CHR ''/''" s] by simp
  then show ?thesis using d takeWhile_dropWhile_id [of "\<lambda>c. c \<noteq> CHR ''/''" s]
    by (simp add: before_slash_def)
qed

lemma no_slash_show_nat: "CHR ''/'' \<notin> set (show_nat n)"
proof
  assume "CHR ''/'' \<in> set (show_nat n)"
  then obtain d where "d < 10" "CHR ''/'' = digit_char d" using show_nat_digits by blast
  then have "(of_char (CHR ''/'') :: nat) = 48 + d" by (simp only: of_char_digit_char)
  then show False by simp
qed

lemma no_slash_show_ipv4: "CHR ''/'' \<notin> set (show_ipv4 a b c d)"
  by (simp add: show_ipv4_def no_slash_show_nat)

lemma length_show_nat_255: "n < 256 \<Longrightarrow> length (show_nat n) \<le> 3"
  by (simp add: show_nat.simps [of n] show_nat.simps [of "n div 10"] show_nat.simps [of "n div 10 div 10"])


lemma length_show_nat: "n < 10 ^ k \<Longrightarrow> 0 < k \<Longrightarrow> length (show_nat n) \<le> k"
proof (induction k arbitrary: n)
  case (Suc k)
  show ?case
  proof (cases "n < 10")
    case True
    then show ?thesis by (simp add: show_nat.simps [of n])
  next
    case False
    then have "0 < k" using Suc.prems by (cases k) simp_all
    moreover have "n div 10 < 10 ^ k" using Suc.prems by (simp add: less_mult_imp_div_less mult.commute)
    ultimately show ?thesis using Suc.IH [of "n div 10"] False by (simp add: show_nat.simps [of n])
  qed
qed simp

lemma length_show_int32: "- (2 ^ 31) \<le> i \<Longrightarrow> i < 2 ^ 31 \<Longrightarrow> length (show_int i) \<le> 11"
proof -
  assume b: "- (2 ^ 31) \<le> i" "i < 2 ^ 31"
  have "nat i < 10 ^ 10" "nat (- i) < 10 ^ 10" using b by (simp_all add: nat_less_iff)
  then show ?thesis
    using length_show_nat [of "nat i" 10] length_show_nat [of "nat (- i)" 10] by (auto simp: show_int_def)
qed

lemma show_nat_inject: "show_nat m = show_nat n \<longleftrightarrow> m = n"
  using foldl_show_nat by metis

end
