(* ===== verification/Logging.thy ===== *)
theory Logging
  imports Cstring
begin

text \<open>
  The logging library \<open>lib/log/log.c\<close>: its global state \<open>L\<close>, the setters, the table of
  callbacks and \<open>log_log\<close>.  Function pointers and user data are addresses; a null function
  pointer is \<open>None\<close>.  \<open>log_log\<close> returns the actions it performs in order; printing a level
  outside the six names reads past \<open>level_strings\<close> and is \<open>None\<close>.  The broken-down time
  (\<open>localtime\<close>, \<open>strftime\<close>) depends on the time zone and is a parameter.
\<close>

section \<open>Levels\<close>

datatype log_level = LOG_TRACE | LOG_DEBUG | LOG_INFO | LOG_WARN | LOG_ERROR | LOG_FATAL

primrec level_no :: "log_level \<Rightarrow> int" where
  "level_no LOG_TRACE = 0"
| "level_no LOG_DEBUG = 1"
| "level_no LOG_INFO = 2"
| "level_no LOG_WARN = 3"
| "level_no LOG_ERROR = 4"
| "level_no LOG_FATAL = 5"

lemma level_no_inject: "level_no a = level_no b \<longleftrightarrow> a = b"
  by (cases a; cases b) simp_all

instantiation log_level :: linorder
begin

definition less_eq_log_level :: "log_level \<Rightarrow> log_level \<Rightarrow> bool" where
  "a \<le> b \<longleftrightarrow> level_no a \<le> level_no b"

definition less_log_level :: "log_level \<Rightarrow> log_level \<Rightarrow> bool" where
  "a < b \<longleftrightarrow> level_no a < level_no b"

instance
  by standard (auto simp: less_eq_log_level_def less_log_level_def level_no_inject)

end

definition level_strings :: "string list" where
  "level_strings = [''TRACE'', ''DEBUG'', ''INFO'', ''WARN'', ''ERROR'', ''FATAL'']"

definition esc :: string where
  "esc = [char_of (27 :: nat)]"

definition level_colors :: "string list" where
  "level_colors = map (\<lambda>s. esc @ s) [''[94m'', ''[36m'', ''[32m'', ''[33m'', ''[31m'', ''[35m'']"

definition log_level_string :: "int \<Rightarrow> string option" where
  "log_level_string l =
     (if 0 \<le> l \<and> nat l < length level_strings then Some (level_strings ! nat l) else None)"

lemma log_level_string_level_no: "log_level_string (level_no l) \<noteq> None"
  by (cases l) (simp_all add: log_level_string_def level_strings_def)

lemma log_level_string_range: "log_level_string l \<noteq> None \<longleftrightarrow> 0 \<le> l \<and> l \<le> 5"
  by (auto simp: log_level_string_def level_strings_def)

section \<open>State\<close>

type_synonym address = nat

record callback =
  cb_fn :: "address option"
  cb_udata :: address
  cb_level :: int

record logger =
  l_udata :: address
  l_lock :: "address option"
  l_level :: int
  l_quiet :: bool
  l_callbacks :: "callback list"

definition MAX_CALLBACKS :: nat where
  "MAX_CALLBACKS = 32"

definition empty_callback :: callback where
  "empty_callback = \<lparr>cb_fn = None, cb_udata = 0, cb_level = 0\<rparr>"

definition initial_logger :: logger where
  "initial_logger = \<lparr>l_udata = 0, l_lock = None, l_level = 0, l_quiet = False,
     l_callbacks = replicate MAX_CALLBACKS empty_callback\<rparr>"

definition log_set_lock :: "address option \<Rightarrow> address \<Rightarrow> logger \<Rightarrow> logger" where
  "log_set_lock fn ud L = L\<lparr>l_lock := fn, l_udata := ud\<rparr>"

definition log_set_level :: "int \<Rightarrow> logger \<Rightarrow> logger" where
  "log_set_level l L = L\<lparr>l_level := l\<rparr>"

definition log_set_quiet :: "bool \<Rightarrow> logger \<Rightarrow> logger" where
  "log_set_quiet q L = L\<lparr>l_quiet := q\<rparr>"

section \<open>Callbacks\<close>

fun add_callback_loop :: "callback \<Rightarrow> callback list \<Rightarrow> callback list option" where
  "add_callback_loop cb [] = None"
| "add_callback_loop cb (c # cs) =
     (if cb_fn c = None then Some (cb # cs) else map_option ((#) c) (add_callback_loop cb cs))"

definition log_add_callback ::
  "address option \<Rightarrow> address \<Rightarrow> int \<Rightarrow> logger \<Rightarrow> int \<times> logger" where
  "log_add_callback fn ud lvl L =
     (case add_callback_loop \<lparr>cb_fn = fn, cb_udata = ud, cb_level = lvl\<rparr> (l_callbacks L) of
        Some cbs \<Rightarrow> (0, L\<lparr>l_callbacks := cbs\<rparr>)
      | None \<Rightarrow> (-1, L))"

definition log_add_fp :: "address \<Rightarrow> address \<Rightarrow> int \<Rightarrow> logger \<Rightarrow> int \<times> logger" where
  "log_add_fp file_callback fp lvl L = log_add_callback (Some file_callback) fp lvl L"

text \<open>The slots in use: those before the first empty one.\<close>

definition active :: "callback \<Rightarrow> bool" where
  "active c \<longleftrightarrow> cb_fn c \<noteq> None"

definition installed :: "logger \<Rightarrow> callback list" where
  "installed L = takeWhile active (l_callbacks L)"

text \<open>Thirty-two slots with no gap: every slot after an empty one is empty.\<close>

definition wf_logger :: "logger \<Rightarrow> bool" where
  "wf_logger L \<longleftrightarrow> length (l_callbacks L) = MAX_CALLBACKS \<and>
     (\<forall>c \<in> set (dropWhile active (l_callbacks L)). \<not> active c)"

lemma add_callback_loop_spec:
  "add_callback_loop cb cs =
     (if \<forall>c \<in> set cs. active c then None
      else Some (takeWhile active cs @ cb # tl (dropWhile active cs)))"
proof (induction cs)
  case (Cons c cs)
  have "cb_fn c = None \<longleftrightarrow> \<not> active c" by (simp add: active_def)
  with Cons show ?case by auto
qed simp

lemma wf_initial_logger: "wf_logger initial_logger"
  by (simp add: wf_logger_def initial_logger_def empty_callback_def active_def MAX_CALLBACKS_def)

lemma dropWhile_inactive:
  "\<forall>c \<in> set (dropWhile active cs). \<not> active c \<Longrightarrow> takeWhile active cs = filter active cs"
proof -
  assume a: "\<forall>c \<in> set (dropWhile active cs). \<not> active c"
  have "filter active cs = filter active (takeWhile active cs @ dropWhile active cs)" by simp
  also have "\<dots> = filter active (takeWhile active cs) @ filter active (dropWhile active cs)"
    by (rule filter_append)
  also have "filter active (dropWhile active cs) = []" using a by (simp add: filter_empty_conv)
  also have "filter active (takeWhile active cs) = takeWhile active cs"
    by (simp add: filter_id_conv) (metis set_takeWhileD)
  finally show ?thesis by simp
qed

section \<open>Emitting an event\<close>

record log_event =
  ev_message :: string
  ev_file :: string
  ev_line :: nat
  ev_level :: int
  ev_time :: "nat option"
  ev_udata :: address

definition init_event :: "nat \<Rightarrow> address \<Rightarrow> log_event \<Rightarrow> log_event" where
  "init_event now ud ev =
     ev\<lparr>ev_time := (case ev_time ev of None \<Rightarrow> Some now | Some t \<Rightarrow> Some t), ev_udata := ud\<rparr>"

definition pad5 :: "string \<Rightarrow> string" where
  "pad5 s = s @ replicate (5 - length s) (CHR '' '')"

text \<open>The line \<open>stdout_callback\<close> prints; the build defines \<open>LOG_USE_COLOR\<close>.\<close>

definition stdout_callback :: "(nat \<Rightarrow> string) \<Rightarrow> log_event \<Rightarrow> string option" where
  "stdout_callback hms ev =
     (case log_level_string (ev_level ev) of
        None \<Rightarrow> None
      | Some name \<Rightarrow>
          Some (hms (the (ev_time ev)) @ '' '' @ level_colors ! nat (ev_level ev) @ pad5 name @
                esc @ ''[0m '' @ esc @ ''[90m'' @ ev_file ev @ '':'' @ show_nat (ev_line ev) @ '':'' @
                esc @ ''[0m '' @ ev_message ev @ ''\<newline>''))"

definition file_callback :: "(nat \<Rightarrow> string) \<Rightarrow> log_event \<Rightarrow> string option" where
  "file_callback ymdhms ev =
     (case log_level_string (ev_level ev) of
        None \<Rightarrow> None
      | Some name \<Rightarrow>
          Some (ymdhms (the (ev_time ev)) @ '' '' @ pad5 name @ '' '' @ ev_file ev @ '':'' @
                show_nat (ev_line ev) @ '': '' @ ev_message ev @ ''\<newline>''))"

datatype log_action =
    Lock_call address bool address
  | Stderr_line string
  | Callback_call address log_event

definition lock_actions :: "bool \<Rightarrow> logger \<Rightarrow> log_action list" where
  "lock_actions b L = (case l_lock L of None \<Rightarrow> [] | Some f \<Rightarrow> [Lock_call f b (l_udata L)])"

fun callback_loop :: "nat \<Rightarrow> log_event \<Rightarrow> callback list \<Rightarrow> log_action list" where
  "callback_loop now ev [] = []"
| "callback_loop now ev (c # cs) =
     (case cb_fn c of
        None \<Rightarrow> []
      | Some f \<Rightarrow>
          if cb_level c \<le> ev_level ev then
            (let ev' = init_event now (cb_udata c) ev in Callback_call f ev' # callback_loop now ev' cs)
          else callback_loop now ev cs)"

definition log_log ::
  "(nat \<Rightarrow> string) \<Rightarrow> address \<Rightarrow> nat \<Rightarrow> logger \<Rightarrow> int \<Rightarrow> string \<Rightarrow> nat \<Rightarrow> string \<Rightarrow> log_action list option" where
  "log_log hms stderr now L level file line msg =
     (let ev = \<lparr>ev_message = msg, ev_file = file, ev_line = line, ev_level = level,
                ev_time = None, ev_udata = 0\<rparr> in
      if \<not> l_quiet L \<and> l_level L \<le> level then
        (let ev' = init_event now stderr ev in
         case stdout_callback hms ev' of
           None \<Rightarrow> None
         | Some out \<Rightarrow> Some (lock_actions True L @ Stderr_line out #
                             callback_loop now ev' (l_callbacks L) @ lock_actions False L))
      else Some (lock_actions True L @ callback_loop now ev (l_callbacks L) @ lock_actions False L))"

section \<open>Lemmas\<close>

fun callback_target :: "log_action \<Rightarrow> (address \<times> address) option" where
  "callback_target (Callback_call f ev) = Some (f, ev_udata ev)"
| "callback_target _ = None"

lemma callback_target_lock [simp]: "map_option g (callback_target (Lock_call f b u)) = None"
  by simp

lemma callback_loop_targets:
  "List.map_filter callback_target (callback_loop now ev cs) =
   map (\<lambda>c. (the (cb_fn c), cb_udata c)) (filter (\<lambda>c. cb_level c \<le> ev_level ev) (takeWhile active cs))"
proof (induction cs arbitrary: ev)
  case Nil
  then show ?case by (simp add: List.map_filter_def)
next
  case (Cons c cs)
  have l: "ev_level (init_event now u ev) = ev_level ev" "ev_udata (init_event now u ev) = u" for u
    by (simp_all add: init_event_def)
  show ?case
    using Cons [of ev] Cons [of "init_event now (cb_udata c) ev"]
    by (auto simp: active_def List.map_filter_def Let_def l split: option.splits)
qed

lemma callback_loop_no_stderr: "Stderr_line s \<notin> set (callback_loop now ev cs)"
proof (induction cs arbitrary: ev)
  case (Cons c cs)
  then show ?case by (cases "cb_fn c") (simp_all add: Let_def)
qed simp

lemma callback_loop_no_lock: "Lock_call f b u \<notin> set (callback_loop now ev cs)"
proof (induction cs arbitrary: ev)
  case (Cons c cs)
  then show ?case by (cases "cb_fn c") (simp_all add: Let_def)
qed simp

lemma map_filter_lock_actions [simp]: "List.map_filter callback_target (lock_actions b L) = []"
  by (simp add: lock_actions_def List.map_filter_def split: option.splits)

lemma map_filter_append: "List.map_filter f (xs @ ys) = List.map_filter f xs @ List.map_filter f ys"
  by (simp add: List.map_filter_def)

lemma map_filter_Stderr [simp]:
  "List.map_filter callback_target (Stderr_line s # xs) = List.map_filter callback_target xs"
  by (simp add: List.map_filter_def)

lemma log_log_defined: "0 \<le> level \<and> level \<le> 5 \<Longrightarrow> log_log hms se now L level file line msg \<noteq> None"
  using log_level_string_range [of level]
  by (auto simp: log_log_def stdout_callback_def init_event_def Let_def split: option.splits)


lemma add_callback_result:
  assumes "wf_logger L"
  shows "log_add_callback (Some f) ud lvl L =
    (if length (installed L) < MAX_CALLBACKS
     then (0, L\<lparr>l_callbacks := installed L @ \<lparr>cb_fn = Some f, cb_udata = ud, cb_level = lvl\<rparr> #
                 tl (dropWhile active (l_callbacks L))\<rparr>)
     else (-1, L))"
proof -
  let ?cs = "l_callbacks L"
  have len: "length ?cs = MAX_CALLBACKS" using assms by (simp add: wf_logger_def)
  have "length (takeWhile active ?cs) < length ?cs \<longleftrightarrow> \<not> (\<forall>c \<in> set ?cs. active c)"
  proof -
    have "length (takeWhile active ?cs) + length (dropWhile active ?cs) = length ?cs"
      by (metis length_append takeWhile_dropWhile_id)
    moreover have "dropWhile active ?cs = [] \<longleftrightarrow> (\<forall>c \<in> set ?cs. active c)" by simp
    ultimately show ?thesis by (cases "dropWhile active ?cs") auto
  qed
  then show ?thesis
    by (simp add: log_add_callback_def add_callback_loop_spec installed_def len)
qed

lemma length_installed_split:
  "length (installed L) + length (dropWhile active (l_callbacks L)) = length (l_callbacks L)"
  unfolding installed_def by (metis length_append takeWhile_dropWhile_id)

lemma installed_active: "c \<in> set (installed L) \<Longrightarrow> active c"
  by (auto simp: installed_def dest: set_takeWhileD)

section \<open>Properties\<close>

text \<open>log_add_callback keeps the callback table gap-free with its 32 slots, appends the new callback
  behind those installed while a slot is free and returns 0, and returns -1 without a change exactly
  when 32 are installed.\<close>

theorem log_add_callback_invariant:
  assumes "wf_logger L"
  shows "case log_add_callback (Some f) ud lvl L of (res, L') \<Rightarrow>
    wf_logger L' \<and> (res = 0 \<longleftrightarrow> length (installed L) < 32) \<and> (res = -1 \<longleftrightarrow> length (installed L) = 32) \<and>
    installed L' = installed L @ (if res = 0 then [\<lparr>cb_fn = Some f, cb_udata = ud, cb_level = lvl\<rparr>] else []) \<and>
    l_level L' = l_level L \<and> l_quiet L' = l_quiet L \<and> l_lock L' = l_lock L"
proof (cases "length (installed L) < MAX_CALLBACKS")
  case False
  then show ?thesis
    using assms length_installed_split [of L]
    by (simp add: add_callback_result [OF assms] wf_logger_def) (simp add: MAX_CALLBACKS_def)
next
  case True
  let ?d = "dropWhile active (l_callbacks L)"
  let ?c = "\<lparr>cb_fn = Some f, cb_udata = ud, cb_level = lvl\<rparr>"
  have len: "length (l_callbacks L) = MAX_CALLBACKS" and inact: "\<forall>c \<in> set ?d. \<not> active c"
    using assms by (simp_all add: wf_logger_def)
  obtain x xs where d: "?d = x # xs" using True length_installed_split [of L] len by (cases ?d) auto
  have c: "active ?c" by (simp add: active_def)
  have xs: "takeWhile active xs = []" "dropWhile active xs = xs"
    using inact d by (cases xs; simp)+
  have tw: "takeWhile active (installed L @ ?c # xs) = installed L @ [?c]"
    by (subst takeWhile_append2) (simp_all add: installed_active c xs)
  have dw: "dropWhile active (installed L @ ?c # xs) = xs"
    by (subst dropWhile_append2) (simp_all add: installed_active c xs)
  show ?thesis
    using True tw dw d inact length_installed_split [of L] len
    by (simp add: add_callback_result [OF assms] wf_logger_def) (simp add: installed_def MAX_CALLBACKS_def)
qed

lemma log_add_callback_invariant_witness:
  "case log_add_callback (Some 5) 9 2 initial_logger of (res, L') \<Rightarrow>
    wf_logger L' \<and> res = 0 \<and> installed L' = [\<lparr>cb_fn = Some 5, cb_udata = 9, cb_level = 2\<rparr>]"
proof -
  have "installed initial_logger = []"
    by (simp add: installed_def initial_logger_def empty_callback_def active_def MAX_CALLBACKS_def)
  then show ?thesis
    using log_add_callback_invariant [OF wf_initial_logger, of 5 9 2] by (auto split: prod.splits)
qed

text \<open>For one of the six levels log_log prints exactly one line to standard error when the logger is
  not quiet and the level reaches the threshold, calls exactly the installed callbacks whose own
  threshold the level reaches, in installation order and each with its own user data, and takes the
  lock before and releases it after all of that.\<close>

theorem log_log_delivers:
  assumes "0 \<le> level" and "level \<le> 5"
  shows "\<exists>body. log_log hms stderr now L level file line msg = Some (lock_actions True L @ body @ lock_actions False L) \<and>
    length (filter (\<lambda>a. \<exists>s. a = Stderr_line s) body) = (if \<not> l_quiet L \<and> l_level L \<le> level then 1 else 0) \<and>
    List.map_filter callback_target body =
      map (\<lambda>c. (the (cb_fn c), cb_udata c)) (filter (\<lambda>c. cb_level c \<le> level) (installed L)) \<and>
    (\<nexists>f b u. Lock_call f b u \<in> set body)"
proof -
  define ev where "ev = \<lparr>ev_message = msg, ev_file = file, ev_line = line, ev_level = level, ev_time = None, ev_udata = 0\<rparr>"
  have lv: "ev_level ev = level" "ev_level (init_event now stderr ev) = level"
    by (simp_all add: ev_def init_event_def)
  have none: "filter (\<lambda>a. \<exists>s. a = Stderr_line s) (callback_loop now e cs) = []" for e cs
    using callback_loop_no_stderr by (auto simp: filter_empty_conv)
  show ?thesis
  proof (cases "\<not> l_quiet L \<and> l_level L \<le> level")
    case True
    obtain out where "stdout_callback hms (init_event now stderr ev) = Some out"
      using assms log_level_string_range [of level] lv(2) by (cases "log_level_string level") (auto simp: stdout_callback_def)
    then show ?thesis using True lv none callback_loop_no_lock
      by (intro exI [of _ "Stderr_line out # callback_loop now (init_event now stderr ev) (l_callbacks L)"])
        (simp add: log_log_def ev_def [symmetric] Let_def callback_loop_targets installed_def)
  next
    case False
    then show ?thesis using lv none callback_loop_no_lock
      by (intro exI [of _ "callback_loop now ev (l_callbacks L)"])
        (auto simp: log_log_def ev_def [symmetric] Let_def callback_loop_targets installed_def)
  qed
qed

lemma log_log_delivers_witness:
  "\<exists>body. log_log (\<lambda>_. ''12:00:00'') 2 0 (initial_logger\<lparr>l_level := 2\<rparr>) 4 ''barco.c'' 443 ''waitpid failed'' =
      Some (lock_actions True (initial_logger\<lparr>l_level := 2\<rparr>) @ body @ lock_actions False (initial_logger\<lparr>l_level := 2\<rparr>)) \<and>
    length (filter (\<lambda>a. \<exists>s. a = Stderr_line s) body) = 1"
  using log_log_delivers [of 4 "\<lambda>_. ''12:00:00''" 2 0 "initial_logger\<lparr>l_level := 2\<rparr>" "''barco.c''" 443 "''waitpid failed''"]
  by (auto simp: initial_logger_def)

end
