(* ===== verification/Syscalls.thy ===== *)
theory Syscalls
  imports Prelude
begin

text \<open>
  The effects of the program.  A C function that talks to the kernel or to libc is a tree of
  type \<open>prog\<close>: it returns, or it makes one call and continues with the reply, or it faults
  (undefined behaviour such as an out-of-bounds write, or a loop bound of the model that ran
  out).  The kernel is a parameter: a function from the history and the call to a reply.
  Running a tree against a kernel gives the outcome and the trace of calls with their replies.
  Of the \<open>log_*\<close> calls the trees hold the closing line of \<open>main\<close> (\<open>Log\<close>, with its level and text), which is part
  of what \<open>main\<close> prints on every path; the others are left out: they return nothing and only write to
  standard error (theory \<open>Logging\<close> models the library).
\<close>

section \<open>Calls and replies\<close>

type_synonym fd = int
type_synonym errno = nat

abbreviation (input) EPERM :: errno where "EPERM \<equiv> 1"
abbreviation (input) ENOENT :: errno where "ENOENT \<equiv> 2"
abbreviation (input) EINTR :: errno where "EINTR \<equiv> 4"
abbreviation (input) EAGAIN :: errno where "EAGAIN \<equiv> 11"
abbreviation (input) EEXIST :: errno where "EEXIST \<equiv> 17"

text \<open>One seccomp rule as \<open>seccomp_rule_add\<close> takes it: the system call, and for a rule with
  one argument comparison its argument number, mask and datum (\<open>SCMP_CMP_MASKED_EQ\<close>).\<close>

record scmp_rule =
  scmp_action :: nat
  scmp_syscall :: string
  scmp_cmp :: "(nat \<times> nat \<times> nat) option"

datatype (plugins only: code size) call =
    Socket_netlink
  | Setsockopt_rcvtimeo fd
  | Sendmsg fd bytes
  | Recvmsg fd nat
  | Close fd
  | If_nametoindex string
  | Usleep nat
  | Open string nat nat
  | Write fd bytes
  | Read fd nat
  | Mkdir string nat
  | Rmdir string
  | Unshare nat
  | Setresgid nat nat nat
  | Setresuid nat nat nat
  | Mount "string option" string "string option" nat
  | Mkdtemp string
  | Pivot_root string string
  | Chdir string
  | Umount2 string nat
  | Prctl_capbset_drop nat
  | Cap_get_proc
  | Cap_clear_inheritable "nat list"
  | Cap_set_proc
  | Cap_free
  | Seccomp_init nat
  | Seccomp_rule_add scmp_rule
  | Seccomp_attr_set_nnp nat
  | Seccomp_load
  | Seccomp_release
  | Sethostname string
  | Execve string "string option list"
  | Clone nat
  | Waitpid int
  | Kill int nat
  | System string
  | Popen string
  | Fgets nat
  | Pclose
  | Clock_gettime
  | Getpid
  | Srand nat
  | Rand
  | Calloc nat nat
  | Malloc nat
  | Strdup string
  | Asprintf string
  | Free int
  | Geteuid
  | Socketpair
  | Fcntl_cloexec fd
  | Print string
  | Log_set_level int
  | Log int string
  | Getenv string
  | Abort

text \<open>The return value, \<open>errno\<close>, the bytes a call stores through a pointer (the whole buffer,
  for \<open>recvmsg\<close>), and a pair of integers it stores (the two descriptors of \<open>socketpair\<close>, the
  time of \<open>clock_gettime\<close>, the wait status, an allocated address).\<close>

record reply =
  rv :: int
  rerrno :: errno
  rbuf :: bytes
  rpair :: "int \<times> int"

definition ret :: "int \<Rightarrow> reply" where
  "ret n = \<lparr>rv = n, rerrno = 0, rbuf = [], rpair = (0, 0)\<rparr>"

definition fail :: "errno \<Rightarrow> reply" where
  "fail e = \<lparr>rv = -1, rerrno = e, rbuf = [], rpair = (0, 0)\<rparr>"

lemma reply_sel [simp]:
  "rv (ret n) = n" "rv (fail e) = -1" "rerrno (fail e) = e" "rbuf (ret n) = []"
  by (simp_all add: ret_def fail_def)

type_synonym event = "call \<times> reply"
type_synonym trace = "event list"
type_synonym kernel = "trace \<Rightarrow> call \<Rightarrow> reply"

section \<open>Program trees\<close>

datatype fault = Undefined_behaviour | Out_of_fuel

datatype 'a prog = Ret 'a | Sys call "reply \<Rightarrow> 'a prog" | Stop fault

primrec andthen :: "'a prog \<Rightarrow> ('a \<Rightarrow> 'b prog) \<Rightarrow> 'b prog" where
  "andthen (Ret a) g = g a"
| "andthen (Sys c f) g = Sys c (\<lambda>r. andthen (f r) g)"
| "andthen (Stop x) g = Stop x"

text \<open>A call whose return value is dropped, as in \<open>close(sock);\<close>.\<close>

abbreviation perform :: "call \<Rightarrow> 'a prog \<Rightarrow> 'a prog" where
  "perform c p \<equiv> Sys c (\<lambda>_. p)"

text \<open>A checked memory access: outside the object it is undefined behaviour.\<close>

definition checked :: "'a option \<Rightarrow> ('a \<Rightarrow> 'b prog) \<Rightarrow> 'b prog" where
  "checked x f = (case x of None \<Rightarrow> Stop Undefined_behaviour | Some a \<Rightarrow> f a)"

lemma checked_simps [simp]:
  "checked None f = Stop Undefined_behaviour" "checked (Some a) f = f a"
  by (simp_all add: checked_def)

primrec run :: "kernel \<Rightarrow> 'a prog \<Rightarrow> trace \<Rightarrow> (fault + 'a) \<times> trace" where
  "run k (Ret a) = (\<lambda>t. (Inr a, t))"
| "run k (Sys c f) = (\<lambda>t. run k (f (k t c)) (t @ [(c, k t c)]))"
| "run k (Stop x) = (\<lambda>t. (Inl x, t))"

definition result :: "kernel \<Rightarrow> 'a prog \<Rightarrow> trace \<Rightarrow> fault + 'a" where
  "result k p t = fst (run k p t)"

definition final :: "kernel \<Rightarrow> 'a prog \<Rightarrow> trace \<Rightarrow> trace" where
  "final k p t = snd (run k p t)"

lemma andthen_Ret [simp]: "andthen p Ret = p"
  by (induction p) simp_all

lemma andthen_assoc: "andthen (andthen p f) g = andthen p (\<lambda>a. andthen (f a) g)"
  by (induction p) simp_all

lemma run_andthen:
  "run k (andthen p g) t =
   (case run k p t of (Inl x, t') \<Rightarrow> (Inl x, t') | (Inr a, t') \<Rightarrow> run k (g a) t')"
  by (induction p arbitrary: t) simp_all

text \<open>The trace only grows.\<close>

lemma run_extends: "\<exists>evs. snd (run k p t) = t @ evs"
proof (induction p arbitrary: t)
  case (Sys c f)
  have "\<exists>evs. snd (run k (f (k t c)) (t @ [(c, k t c)])) = (t @ [(c, k t c)]) @ evs"
    by (rule Sys.IH) simp
  then show ?case by auto
qed simp_all

section \<open>Specifications over all kernels\<close>

text \<open>
  \<open>wp ok p Q t\<close>: whatever replies the kernel gives within \<open>ok\<close>, the program does not fault
  from the history \<open>t\<close> and ends in a value and a history that satisfy \<open>Q\<close>.
\<close>

type_synonym kernel_law = "trace \<Rightarrow> call \<Rightarrow> reply \<Rightarrow> bool"

primrec wp :: "kernel_law \<Rightarrow> 'a prog \<Rightarrow> ('a \<Rightarrow> trace \<Rightarrow> bool) \<Rightarrow> trace \<Rightarrow> bool" where
  "wp ok (Ret a) = (\<lambda>Q t. Q a t)"
| "wp ok (Sys c f) = (\<lambda>Q t. \<forall>r. ok t c r \<longrightarrow> wp ok (f r) Q (t @ [(c, r)]))"
| "wp ok (Stop x) = (\<lambda>Q t. False)"

definition any_reply :: kernel_law where
  "any_reply t c r = True"

lemma any_reply [simp]: "any_reply t c r"
  by (simp add: any_reply_def)

definition obeys :: "kernel \<Rightarrow> kernel_law \<Rightarrow> bool" where
  "obeys k ok \<longleftrightarrow> (\<forall>t c. ok t c (k t c))"

lemma obeys_any [simp]: "obeys k any_reply"
  by (simp add: obeys_def)

lemma wp_run:
  "obeys k ok \<Longrightarrow> wp ok p Q t \<Longrightarrow> \<exists>a t'. run k p t = (Inr a, t') \<and> Q a t'"
proof (induction p arbitrary: t)
  case (Sys c f)
  then have "wp ok (f (k t c)) Q (t @ [(c, k t c)])" by (simp add: obeys_def)
  then show ?case using Sys.IH [of "f (k t c)"] Sys.prems(1) by simp
qed simp_all

lemma wp_mono: "wp ok p Q t \<Longrightarrow> (\<And>a t'. Q a t' \<Longrightarrow> Q' a t') \<Longrightarrow> wp ok p Q' t"
  by (induction p arbitrary: t) auto

lemma wp_law_mono: "wp ok p Q t \<Longrightarrow> (\<And>t c r. ok' t c r \<Longrightarrow> ok t c r) \<Longrightarrow> wp ok' p Q t"
  by (induction p arbitrary: t) auto

lemma wp_conj: "wp ok p Q t \<Longrightarrow> wp ok p Q' t \<Longrightarrow> wp ok p (\<lambda>a t'. Q a t' \<and> Q' a t') t"
  by (induction p arbitrary: t) auto

lemma wp_andthen [simp]:
  "wp ok (andthen p g) Q t = wp ok p (\<lambda>a t'. wp ok (g a) Q t') t"
  by (induction p arbitrary: t) simp_all

lemma wp_andthenI:
  "wp ok p R t \<Longrightarrow> (\<And>a t'. R a t' \<Longrightarrow> wp ok (g a) Q t') \<Longrightarrow> wp ok (andthen p g) Q t"
  by (simp, erule wp_mono)

lemma wp_checked:
  "x = Some a \<Longrightarrow> wp ok (f a) Q t \<Longrightarrow> wp ok (checked x f) Q t"
  by simp

section \<open>Which calls a program makes\<close>

primrec only :: "(call \<Rightarrow> bool) \<Rightarrow> 'a prog \<Rightarrow> bool" where
  "only C (Ret a) = True"
| "only C (Sys c f) = (C c \<and> (\<forall>r. only C (f r)))"
| "only C (Stop x) = True"

lemma only_andthen: "only C p \<Longrightarrow> (\<And>a. only C (g a)) \<Longrightarrow> only C (andthen p g)"
  by (induction p) simp_all

lemma only_checked: "(\<And>a. x = Some a \<Longrightarrow> only C (f a)) \<Longrightarrow> only C (checked x f)"
  by (cases x) simp_all

lemma only_mono: "only C p \<Longrightarrow> (\<And>c. C c \<Longrightarrow> D c) \<Longrightarrow> only D p"
  by (induction p) simp_all

text \<open>What a program that makes only calls of \<open>C\<close> adds to the history.\<close>

lemma wp_only:
  "only C p \<Longrightarrow> wp ok p (\<lambda>_ _. True) t \<Longrightarrow>
   wp ok p (\<lambda>_ t'. \<exists>evs. t' = t @ evs \<and> (\<forall>e \<in> set evs. C (fst e))) t"
proof (induction p arbitrary: t)
  case (Sys c f)
  show ?case
  proof (simp, intro allI impI)
    fix r assume r: "ok t c r"
    have "wp ok (f r) (\<lambda>_ t'. \<exists>evs. t' = (t @ [(c, r)]) @ evs \<and> (\<forall>e \<in> set evs. C (fst e))) (t @ [(c, r)])"
      by (rule Sys.IH [of "f r"]) (use Sys.prems r in simp_all)
    then show "wp ok (f r) (\<lambda>_ t'. \<exists>evs. t' = t @ evs \<and> (\<forall>e \<in> set evs. C (fst e))) (t @ [(c, r)])"
    proof (rule wp_mono)
      fix t' assume "\<exists>evs. t' = (t @ [(c, r)]) @ evs \<and> (\<forall>e \<in> set evs. C (fst e))"
      then obtain evs where "t' = t @ (c, r) # evs" "\<forall>e \<in> set evs. C (fst e)" by auto
      then show "\<exists>evs. t' = t @ evs \<and> (\<forall>e \<in> set evs. C (fst e))"
        using Sys.prems(1) by (intro exI [of _ "(c, r) # evs"]) simp
    qed
  qed
qed simp_all

section \<open>Monitors\<close>

text \<open>
  A monitor folds the trace into a state; it is idle on the calls it does not look at.  A
  program that makes only idle calls leaves the monitor's state as it was.
\<close>

definition observe :: "('s \<Rightarrow> event \<Rightarrow> 's) \<Rightarrow> 's \<Rightarrow> trace \<Rightarrow> 's" where
  "observe step s t = foldl step s t"

lemma observe_simps [simp]:
  "observe step s [] = s"
  "observe step s (t @ [e]) = step (observe step s t) e"
  "observe step s (e # t) = observe step (step s e) t"
  by (simp_all add: observe_def)

lemma observe_append: "observe step s (t @ t') = observe step (observe step s t) t'"
  by (simp add: observe_def)

locale monitor =
  fixes step :: "'s \<Rightarrow> event \<Rightarrow> 's" and idle :: "call \<Rightarrow> bool"
  assumes idle_step: "idle c \<Longrightarrow> step s (c, r) = s"
begin

lemma observe_idle:
  "\<forall>e \<in> set evs. idle (fst e) \<Longrightarrow> observe step s evs = s"
  by (induction evs arbitrary: s) (auto simp: idle_step)

lemma observe_unchanged:
  "only idle p \<Longrightarrow> observe step s (snd (run k p t)) = observe step s t"
proof (induction p arbitrary: t)
  case (Sys c f)
  have "observe step s (snd (run k (f (k t c)) (t @ [(c, k t c)]))) = observe step s (t @ [(c, k t c)])"
    by (rule Sys.IH) (use Sys.prems in simp_all)
  then show ?case using Sys.prems by (simp add: idle_step)
qed simp_all

lemma wp_idle:
  assumes "only idle p" and "wp ok p Q t"
  shows "wp ok p (\<lambda>a t'. Q a t' \<and> observe step s t' = observe step s t) t"
proof -
  have "wp ok p (\<lambda>_ _. True) t" using assms(2) by (rule wp_mono) simp
  from wp_only [OF assms(1) this]
  have "wp ok p (\<lambda>_ t'. observe step s t' = observe step s t) t"
    by (rule wp_mono) (auto simp: observe_append observe_idle)
  with assms(2) show ?thesis by (rule wp_conj)
qed

end

section \<open>Open file descriptors\<close>

text \<open>
  The descriptors this process holds, with multiplicity: what \<open>socket\<close>, \<open>open\<close> and
  \<open>socketpair\<close> returned and \<open>close\<close> has not released.
\<close>

definition opened :: "reply \<Rightarrow> fd multiset \<Rightarrow> fd multiset" where
  "opened r M = (if 0 \<le> rv r then add_mset (rv r) M else M)"

definition fd_step :: "fd multiset \<Rightarrow> event \<Rightarrow> fd multiset" where
  "fd_step M e = (case e of (c, r) \<Rightarrow> (case c of
      Socket_netlink \<Rightarrow> opened r M
    | Open _ _ _ \<Rightarrow> opened r M
    | Socketpair \<Rightarrow> (if 0 \<le> rv r then add_mset (fst (rpair r)) (add_mset (snd (rpair r)) M) else M)
    | Close d \<Rightarrow> M - {#d#}
    | _ \<Rightarrow> M))"

definition fd_idle :: "call \<Rightarrow> bool" where
  "fd_idle c = (case c of Socket_netlink \<Rightarrow> False | Open _ _ _ \<Rightarrow> False | Socketpair \<Rightarrow> False
     | Close _ \<Rightarrow> False | _ \<Rightarrow> True)"

definition open_fds :: "trace \<Rightarrow> fd multiset" where
  "open_fds t = observe fd_step {#} t"

lemma fd_step_simps [simp]:
  "fd_step M (Socket_netlink, r) = opened r M"
  "fd_step M (Open p f m, r) = opened r M"
  "fd_step M (Close d, r) = M - {#d#}"
  "fd_step M (Socketpair, r) =
     (if 0 \<le> rv r then add_mset (fst (rpair r)) (add_mset (snd (rpair r)) M) else M)"
  by (simp_all add: fd_step_def)

lemma opened_simps [simp]:
  "0 \<le> rv r \<Longrightarrow> opened r M = add_mset (rv r) M"
  "rv r < 0 \<Longrightarrow> opened r M = M"
  by (simp_all add: opened_def)

lemma fd_step_idle: "fd_idle c \<Longrightarrow> fd_step M (c, r) = M"
  by (cases c) (simp_all add: fd_step_def fd_idle_def)

interpretation fds: monitor fd_step fd_idle
  by unfold_locales (rule fd_step_idle)

lemma open_fds_Nil [simp]: "open_fds [] = {#}"
  by (simp add: open_fds_def)

lemma open_fds_append: "open_fds (t @ evs) = observe fd_step (open_fds t) evs"
  by (simp add: open_fds_def observe_append)

lemma open_fds_Cons [simp]:
  "open_fds (t @ e # evs) = observe fd_step (fd_step (open_fds t) e) evs"
  "open_fds (t @ u @ e # evs) = observe fd_step (fd_step (open_fds (t @ u)) e) evs"
  using open_fds_append [of t "e # evs"] open_fds_append [of "t @ u" "e # evs"] by simp_all

text \<open>A program that leaves the set of open descriptors as it found it, on every kernel.\<close>

definition fd_neutral :: "kernel_law \<Rightarrow> 'a prog \<Rightarrow> bool" where
  "fd_neutral ok p \<longleftrightarrow> (\<forall>t. wp ok p (\<lambda>_ t'. open_fds t' = open_fds t) t)"


text \<open>\<open>open\<close> and \<open>socketpair\<close> report an error as -1, and descriptors are not negative.\<close>

definition posix_law :: kernel_law where
  "posix_law t c r = (case c of
       Open p f m \<Rightarrow> -1 \<le> rv r
     | Socketpair \<Rightarrow> 0 \<le> rv r \<longrightarrow> 0 \<le> fst (rpair r) \<and> 0 \<le> snd (rpair r)
     | _ \<Rightarrow> True)"

lemma posix_open [simp]: "posix_law t (Open p f m) r \<longleftrightarrow> -1 \<le> rv r"
  by (simp add: posix_law_def)

end
