(* ===== verification/User_Namespace.thy ===== *)
theory User_Namespace
  imports Syscalls Cstring "HOL-Library.Sublist"
begin

text \<open>
  \<open>src/user.c\<close>: the two halves of the user namespace set-up.  The child unshares the namespace,
  reports to the parent, waits for its verdict and switches its ids; the parent reads the report,
  writes \<open>setgroups\<close>, \<open>uid_map\<close> and \<open>gid_map\<close> of the child and sends its verdict.  The lemmas give
  the contract of each half alone; theory \<open>Handshake\<close> runs them against each other.
\<close>

section \<open>Constants\<close>

text \<open>\<open>include/user.h\<close>.\<close>

definition USER_NAMESPACE_UID_PARENT_RANGE_START :: int where
  "USER_NAMESPACE_UID_PARENT_RANGE_START = 10000"

definition USER_NAMESPACE_UID_CHILD_RANGE_START :: int where
  "USER_NAMESPACE_UID_CHILD_RANGE_START = 0"

definition USER_NAMESPACE_UID_CHILD_RANGE_SIZE :: int where
  "USER_NAMESPACE_UID_CHILD_RANGE_SIZE = 1"

abbreviation (input) CLONE_NEWUSER :: nat where "CLONE_NEWUSER \<equiv> 268435456"
abbreviation (input) PATH_MAX :: nat where "PATH_MAX \<equiv> 4096"
abbreviation (input) O_WRONLY :: nat where "O_WRONLY \<equiv> 1"

section \<open>The child\<close>

definition user_namespace_init :: "nat \<Rightarrow> fd \<Rightarrow> int prog" where
  "user_namespace_init uid fd =
     Sys (Unshare CLONE_NEWUSER) (\<lambda>r. if rv r < 0 then Ret (-1)
     else Sys (Write fd (le32_int 0)) (\<lambda>r. if rv r \<noteq> 4 then Ret (-1)
     else Sys (Read fd 4) (\<lambda>r. if rv r \<noteq> 4 then Ret (-1)
     else if int_of_le32 (rbuf r) \<noteq> 0 then Ret (-1)
     else Sys (Setresgid uid uid uid) (\<lambda>r. if rv r \<noteq> 0 then Ret (-1)
     else Sys (Setresuid uid uid uid) (\<lambda>r. if rv r \<noteq> 0 then Ret (-1)
     else Ret 0)))))"

section \<open>The parent\<close>

definition proc_path :: "int \<Rightarrow> string \<Rightarrow> string" where
  "proc_path pid file = ''/proc/'' @ show_int pid @ ''/'' @ file"

text \<open>The label \<open>fail\<close>: tell the child, whatever comes of it.\<close>

definition mappings_fail :: "fd \<Rightarrow> int prog" where
  "mappings_fail fd = perform (Write fd (le32_int (-1))) (Ret (-1))"

definition map_line :: string where
  "map_line = show_int USER_NAMESPACE_UID_CHILD_RANGE_START @ '' '' @
     show_int USER_NAMESPACE_UID_PARENT_RANGE_START @ '' '' @
     show_int USER_NAMESPACE_UID_CHILD_RANGE_SIZE @ ''\<newline>''"

text \<open>The loop over \<open>{"uid_map", "gid_map", 0}\<close>; \<open>dprintf\<close> is one write of the formatted line.\<close>

fun map_files :: "int \<Rightarrow> fd \<Rightarrow> string list \<Rightarrow> int prog \<Rightarrow> int prog" where
  "map_files pid fd [] k = k"
| "map_files pid fd (file # files) k =
     (if PATH_MAX \<le> length (proc_path pid file) then mappings_fail fd
      else Sys (Open (proc_path pid file) O_WRONLY 0) (\<lambda>r.
        if rv r = -1 then mappings_fail fd
        else Sys (Write (rv r) (bytes_of_string map_line)) (\<lambda>w.
          if rv w = -1 then perform (Close (rv r)) (mappings_fail fd)
          else perform (Close (rv r)) (map_files pid fd files k))))"

definition user_namespace_prepare_mappings :: "int \<Rightarrow> fd \<Rightarrow> int prog" where
  "user_namespace_prepare_mappings pid fd =
     Sys (Read fd 4) (\<lambda>r. if rv r \<noteq> 4 then Ret (-1)
     else if int_of_le32 (rbuf r) = 0 then
       (if PATH_MAX \<le> length (proc_path pid ''setgroups'') then mappings_fail fd
        else Sys (Open (proc_path pid ''setgroups'') O_WRONLY 0) (\<lambda>r.
          if rv r < 0 then mappings_fail fd
          else Sys (Write (rv r) (bytes_of_string ''deny'')) (\<lambda>w.
            if rv w \<noteq> 4 then perform (Close (rv r)) (mappings_fail fd)
            else perform (Close (rv r))
              (map_files pid fd [''uid_map'', ''gid_map'']
                (Sys (Write fd (le32_int 0)) (\<lambda>r. if rv r \<noteq> 4 then Ret (-1) else Ret 0))))))
     else mappings_fail fd)"

section \<open>Lemmas\<close>

lemma map_line_value: "map_line = ''0 10000 1\<newline>''"
  by (simp add: map_line_def show_int_def show_nat.simps
      USER_NAMESPACE_UID_PARENT_RANGE_START_def USER_NAMESPACE_UID_CHILD_RANGE_START_def
      USER_NAMESPACE_UID_CHILD_RANGE_SIZE_def)


lemma proc_path_short [simp]:
  "- (2 ^ 31) \<le> pid \<Longrightarrow> pid < 2 ^ 31 \<Longrightarrow> length file \<le> 20 \<Longrightarrow> length (proc_path pid file) < 4096"
  using length_show_int32 [of pid] by (simp add: proc_path_def)

text \<open>The calls of a successful set-up before the verdict, with the descriptors \<open>open\<close> returned.\<close>

definition setup_calls :: "int \<Rightarrow> fd \<Rightarrow> int \<Rightarrow> int \<Rightarrow> int \<Rightarrow> call list" where
  "setup_calls pid fd d1 d2 d3 =
     [Read fd 4,
      Open (proc_path pid ''setgroups'') O_WRONLY 0, Write d1 (bytes_of_string ''deny''), Close d1,
      Open (proc_path pid ''uid_map'') O_WRONLY 0, Write d2 (bytes_of_string ''0 10000 1\<newline>''), Close d2,
      Open (proc_path pid ''gid_map'') O_WRONLY 0, Write d3 (bytes_of_string ''0 10000 1\<newline>''), Close d3]"

text \<open>The set-up is done: these calls were made, each file was opened and written through the descriptor
  that its \<open>open\<close> returned, and every reply was the one that the code asks for: the report 0 in four
  bytes, a descriptor from each \<open>open\<close>, four bytes written to \<open>setgroups\<close>, and no error from the two
  writes of the maps.\<close>

definition nth_reply :: "trace \<Rightarrow> nat \<Rightarrow> reply" where
  "nth_reply evs i = snd (evs ! i)"

definition setup_done :: "int \<Rightarrow> fd \<Rightarrow> trace \<Rightarrow> bool" where
  "setup_done pid fd evs \<longleftrightarrow> length evs = 10 \<and>
     map fst evs = setup_calls pid fd (rv (nth_reply evs 1)) (rv (nth_reply evs 4)) (rv (nth_reply evs 7)) \<and>
     rv (nth_reply evs 0) = 4 \<and> int_of_le32 (rbuf (nth_reply evs 0)) = 0 \<and>
     0 \<le> rv (nth_reply evs 1) \<and> 0 \<le> rv (nth_reply evs 4) \<and> 0 \<le> rv (nth_reply evs 7) \<and>
     rv (nth_reply evs 2) = 4 \<and> rv (nth_reply evs 5) \<noteq> -1 \<and> rv (nth_reply evs 8) \<noteq> -1"

lemma mappings_fail_wp:
  "wp ok (mappings_fail fd) (\<lambda>a t'. a = -1 \<and> open_fds t' = open_fds t \<and> (\<exists>r. t' = t @ [(Write fd (le32_int (-1)), r)])) t"
  by (simp add: mappings_fail_def fd_step_def)

text \<open>How the parent ends: it never saw the report, or its last call is the verdict, which is 0 exactly
  when the set-up is done; it returns 0 exactly when the verdict 0 was written in whole.\<close>

definition mappings_end :: "int \<Rightarrow> fd \<Rightarrow> int \<Rightarrow> trace \<Rightarrow> bool" where
  "mappings_end pid fd a evs \<longleftrightarrow> evs \<noteq> [] \<and> fst (hd evs) = Read fd 4 \<and>
     (if rv (snd (hd evs)) \<noteq> 4 then length evs = 1 \<and> a = -1
      else let v = (if setup_done pid fd (butlast evs) then 0 else -1) in
        fst (last evs) = Write fd (le32_int v) \<and> a = (if v = 0 \<and> rv (snd (last evs)) = 4 then 0 else -1))"

lemma mappings_fail_end:
  assumes "open_fds (t @ (Read fd 4, r0) # pre) = M" and "rv r0 = 4" and "\<not> setup_done pid fd ((Read fd 4, r0) # pre)"
  shows "wp ok (mappings_fail fd) (\<lambda>a t'. open_fds t' = M \<and> (a = 0 \<or> a = -1) \<and>
     (\<exists>evs. t' = t @ evs \<and> mappings_end pid fd a evs)) (t @ (Read fd 4, r0) # pre)"
proof (rule wp_mono [OF mappings_fail_wp], elim conjE exE)
  fix a :: int and t' :: trace and r :: reply
  assume a: "a = -1" "open_fds t' = open_fds (t @ (Read fd 4, r0) # pre)"
    and t': "t' = (t @ (Read fd 4, r0) # pre) @ [(Write fd (le32_int (-1)), r)]"
  have b: "butlast ((Read fd 4, r0) # pre @ [(Write fd (le32_int (-1)), r)]) = (Read fd 4, r0) # pre"
    using butlast_snoc [of "(Read fd 4, r0) # pre"] by simp
  have "mappings_end pid fd a ((Read fd 4, r0) # pre @ [(Write fd (le32_int (-1)), r)])"
    unfolding mappings_end_def b using assms(2,3) a(1) by simp
  then show "open_fds t' = M \<and> (a = 0 \<or> a = -1) \<and> (\<exists>evs. t' = t @ evs \<and> mappings_end pid fd a evs)"
    using a assms(1) t' by auto
qed

lemma prepare_mappings_wp:
  assumes "- (2 ^ 31) \<le> pid" "pid < 2 ^ 31"
  shows "wp posix_law (user_namespace_prepare_mappings pid fd)
    (\<lambda>a t'. open_fds t' = open_fds t \<and> (a = 0 \<or> a = -1) \<and> (\<exists>evs. t' = t @ evs \<and> mappings_end pid fd a evs)) t"
proof -
  have s: "\<not> 4096 \<le> length (proc_path pid ''setgroups'')" "\<not> 4096 \<le> length (proc_path pid ''uid_map'')"
    "\<not> 4096 \<le> length (proc_path pid ''gid_map'')"
    using assms by (simp_all add: not_le)
  show ?thesis
    unfolding user_namespace_prepare_mappings_def
    by (simp add: s map_line_value, intro allI impI conjI;
        (rule mappings_fail_end)?; simp add: fd_step_def mappings_end_def setup_done_def nth_reply_def setup_calls_def)
qed


text \<open>How the child ends: the ids are switched only after the parent's verdict 0 was read.\<close>

definition init_calls :: "nat \<Rightarrow> fd \<Rightarrow> call list" where
  "init_calls uid fd = [Unshare CLONE_NEWUSER, Write fd (le32_int 0), Read fd 4,
     Setresgid uid uid uid, Setresuid uid uid uid]"

lemma namespace_init_wp:
  "wp ok (user_namespace_init uid fd) (\<lambda>a t'. open_fds t' = open_fds t \<and> (a = 0 \<or> a = -1) \<and>
     (\<exists>evs. t' = t @ evs \<and> prefix (map fst evs) (init_calls uid fd) \<and>
       (a = 0 \<longrightarrow> map fst evs = init_calls uid fd) \<and>
       (3 < length evs \<longrightarrow> (\<exists>r. evs ! 2 = (Read fd 4, r) \<and> rv r = 4 \<and> int_of_le32 (rbuf r) = 0)))) t"
  unfolding user_namespace_init_def
  by (simp, intro allI impI conjI; simp add: fd_step_def init_calls_def)

section \<open>Properties\<close>

text \<open>C28: Whatever the kernel answers to a process id that is an int, user_namespace_prepare_mappings ends
  and leaves no descriptor open.  Unless it could not read the report of the child, its last call is a
  verdict on the socket, and the verdict is 0 exactly when the set-up is done: the report was 0,
  setgroups, uid_map and gid_map of that process were opened, written with deny and 0 10000 1 through
  the descriptor just opened, and closed, in this order, and every open and write succeeded; otherwise
  it is -1.  It returns 0 exactly when the verdict 0 was written in whole, and -1 otherwise.\<close>

theorem prepare_mappings_verdict:
  assumes "obeys k posix_law" and "- (2 ^ 31) \<le> pid" and "pid < 2 ^ 31"
  shows "\<exists>a evs. run k (user_namespace_prepare_mappings pid fd) t = (Inr a, t @ evs) \<and>
    open_fds (t @ evs) = open_fds t \<and> (a = 0 \<or> a = -1) \<and> mappings_end pid fd a evs"
  using wp_run [OF assms(1) prepare_mappings_wp [OF assms(2,3)], of fd t] by blast

definition userns_kernel :: kernel where
  "userns_kernel t c = (case c of
       Read d n \<Rightarrow> \<lparr>rv = 4, rerrno = 0, rbuf = le32_int 0, rpair = (0, 0)\<rparr>
     | Write d m \<Rightarrow> ret (int (length m))
     | Open p f m \<Rightarrow> ret 9
     | _ \<Rightarrow> ret 0)"

lemma userns_kernel_obeys: "obeys userns_kernel posix_law"
proof (unfold obeys_def, intro allI)
  fix t c show "posix_law t c (userns_kernel t c)"
    by (cases c) (simp_all add: posix_law_def userns_kernel_def ret_def)
qed

lemma prepare_mappings_verdict_witness:
  "\<exists>a evs. run userns_kernel (user_namespace_prepare_mappings 4242 3) [] = (Inr a, [] @ evs) \<and>
    open_fds ([] @ evs) = open_fds [] \<and> (a = 0 \<or> a = -1) \<and> mappings_end 4242 3 a evs"
  by (rule prepare_mappings_verdict [OF userns_kernel_obeys]) simp_all

text \<open>user_namespace_init makes its calls in a fixed order and stops at the first that fails; it
  switches to the target ids only after it read the verdict 0 from the parent, and returns 0 only
  after both switches succeeded.\<close>

theorem namespace_init_order:
  "\<exists>a evs. run k (user_namespace_init uid fd) t = (Inr a, t @ evs) \<and> (a = 0 \<or> a = -1) \<and>
    prefix (map fst evs) (init_calls uid fd) \<and>
    (a = 0 \<longrightarrow> map fst evs = init_calls uid fd) \<and>
    (3 < length evs \<longrightarrow> (\<exists>r. evs ! 2 = (Read fd 4, r) \<and> rv r = 4 \<and> int_of_le32 (rbuf r) = 0))"
  using wp_run [OF obeys_any namespace_init_wp, of k uid fd t] by blast

lemma namespace_init_order_witness:
  "\<exists>evs. run userns_kernel (user_namespace_init 0 4) [] = (Inr 0, [] @ evs) \<and> map fst evs = init_calls 0 4"
proof -
  have "fst (run userns_kernel (user_namespace_init 0 4) []) = Inr 0"
    by (simp add: user_namespace_init_def userns_kernel_def int_of_le32_def of_le_def le32_int_def le32_def)
  then show ?thesis using namespace_init_order [of userns_kernel 0 4 "[]"] by auto
qed

end
