(* ===== verification/Handshake.thy ===== *)
theory Handshake
  imports User_Namespace
begin

text \<open>
  The two halves of the user namespace set-up against each other: \<open>user_namespace_init\<close> in the
  container process and \<open>user_namespace_prepare_mappings\<close> in barco, connected by the
  \<open>SOCK_SEQPACKET\<close> pair that \<open>main\<close> creates.  A step relation interleaves them: a write puts one
  packet into the peer's queue, a read takes one and blocks while there is none (it returns 0 once
  the child has exited), and every other call gets any reply.  The invariant is shown by rule
  induction over the reachable states.  The ids that the child may take are read off the lines that
  barco wrote to the map files.
\<close>

section \<open>The system\<close>

record hs =
  child :: "int prog"
  parent :: "int prog"
  to_parent :: "bytes list"
  to_child :: "bytes list"
  clog :: trace
  plog :: trace

definition hs_init :: "nat \<Rightarrow> int \<Rightarrow> fd \<Rightarrow> fd \<Rightarrow> hs" where
  "hs_init uid pid s0 s1 = \<lparr>child = user_namespace_init uid s1, parent = user_namespace_prepare_mappings pid s0,
     to_parent = [], to_child = [], clog = [], plog = []\<rparr>"

definition packet :: "bytes \<Rightarrow> reply" where
  "packet m = \<lparr>rv = int (length m), rerrno = 0, rbuf = m, rpair = (0, 0)\<rparr>"

text \<open>Calls on the socket; all others are local to a process.\<close>

definition on_socket :: "fd \<Rightarrow> call \<Rightarrow> bool" where
  "on_socket s c = (case c of Write d m \<Rightarrow> d = s | Read d n \<Rightarrow> d = s | _ \<Rightarrow> False)"

lemma on_socket_simps [simp]: "on_socket s (Write d m) \<longleftrightarrow> d = s" "on_socket s (Read d n) \<longleftrightarrow> d = s"
  by (simp_all add: on_socket_def)

text \<open>What a local call may reply: \<open>open\<close> returns -1 or a descriptor that is not the socket.\<close>

definition local_reply :: "fd \<Rightarrow> call \<Rightarrow> reply \<Rightarrow> bool" where
  "local_reply s c r = (case c of Open p f m \<Rightarrow> -1 \<le> rv r \<and> rv r \<noteq> s | _ \<Rightarrow> True)"

inductive hs_step :: "fd \<Rightarrow> fd \<Rightarrow> hs \<Rightarrow> hs \<Rightarrow> bool" for s0 s1 where
  child_send: "child s = Sys (Write s1 m) f \<Longrightarrow>
    hs_step s0 s1 s (s\<lparr>child := f (ret (int (length m))), to_parent := to_parent s @ [m],
      clog := clog s @ [(Write s1 m, ret (int (length m)))]\<rparr>)"
| child_recv: "child s = Sys (Read s1 n) f \<Longrightarrow> to_child s = m # q \<Longrightarrow>
    hs_step s0 s1 s (s\<lparr>child := f (packet (take n m)), to_child := q,
      clog := clog s @ [(Read s1 n, packet (take n m))]\<rparr>)"
| child_local: "child s = Sys c f \<Longrightarrow> \<not> on_socket s1 c \<Longrightarrow> local_reply s1 c r \<Longrightarrow>
    hs_step s0 s1 s (s\<lparr>child := f r, clog := clog s @ [(c, r)]\<rparr>)"
| parent_send: "parent s = Sys (Write s0 m) f \<Longrightarrow>
    hs_step s0 s1 s (s\<lparr>parent := f (ret (int (length m))), to_child := to_child s @ [m],
      plog := plog s @ [(Write s0 m, ret (int (length m)))]\<rparr>)"
| parent_recv: "parent s = Sys (Read s0 n) f \<Longrightarrow> to_parent s = m # q \<Longrightarrow>
    hs_step s0 s1 s (s\<lparr>parent := f (packet (take n m)), to_parent := q,
      plog := plog s @ [(Read s0 n, packet (take n m))]\<rparr>)"
| parent_eof: "parent s = Sys (Read s0 n) f \<Longrightarrow> to_parent s = [] \<Longrightarrow> child s = Ret a \<Longrightarrow>
    hs_step s0 s1 s (s\<lparr>parent := f (ret 0), plog := plog s @ [(Read s0 n, ret 0)]\<rparr>)"
| parent_local: "parent s = Sys c f \<Longrightarrow> \<not> on_socket s0 c \<Longrightarrow> local_reply s0 c r \<Longrightarrow>
    hs_step s0 s1 s (s\<lparr>parent := f r, plog := plog s @ [(c, r)]\<rparr>)"

inductive hs_reach :: "nat \<Rightarrow> int \<Rightarrow> fd \<Rightarrow> fd \<Rightarrow> hs \<Rightarrow> bool" for uid pid s0 s1 where
  start: "hs_reach uid pid s0 s1 (hs_init uid pid s0 s1)"
| more: "hs_reach uid pid s0 s1 s \<Longrightarrow> hs_step s0 s1 s s' \<Longrightarrow> hs_reach uid pid s0 s1 s'"

inductive_cases hs_stepE: "hs_step s0 s1 s s'"

section \<open>Places in the two programs\<close>

definition child_switch :: "nat \<Rightarrow> int prog" where
  "child_switch uid = Sys (Setresgid uid uid uid) (\<lambda>r. if rv r \<noteq> 0 then Ret (-1)
     else Sys (Setresuid uid uid uid) (\<lambda>r. if rv r \<noteq> 0 then Ret (-1) else Ret 0))"

definition child_switch2 :: "nat \<Rightarrow> int prog" where
  "child_switch2 uid = Sys (Setresuid uid uid uid) (\<lambda>r. if rv r \<noteq> 0 then Ret (-1) else Ret 0)"

definition child_wait :: "nat \<Rightarrow> fd \<Rightarrow> int prog" where
  "child_wait uid s1 = Sys (Read s1 4) (\<lambda>r. if rv r \<noteq> 4 then Ret (-1)
     else if int_of_le32 (rbuf r) \<noteq> 0 then Ret (-1) else child_switch uid)"

definition child_report :: "nat \<Rightarrow> fd \<Rightarrow> int prog" where
  "child_report uid s1 = Sys (Write s1 (le32_int 0)) (\<lambda>r. if rv r \<noteq> 4 then Ret (-1) else child_wait uid s1)"

lemma init_places: "user_namespace_init uid s1 = Sys (Unshare CLONE_NEWUSER) (\<lambda>r. if rv r < 0 then Ret (-1) else child_report uid s1)"
  unfolding user_namespace_init_def child_report_def child_wait_def child_switch_def by (rule refl)

text \<open>Barco has done the set-up, with every open and write successful, and sent the verdict 0.\<close>

definition mapping_done :: "int \<Rightarrow> fd \<Rightarrow> trace \<Rightarrow> bool" where
  "mapping_done pid s0 log \<longleftrightarrow> log \<noteq> [] \<and> fst (last log) = Write s0 (le32_int 0) \<and> setup_done pid s0 (butlast log)"

text \<open>The rest of the parent's program after it read the report: local calls, then one verdict, then
  it returns that verdict; before the verdict 0 the maps are written.\<close>

primrec speaks :: "int \<Rightarrow> fd \<Rightarrow> int prog \<Rightarrow> trace \<Rightarrow> bool" where
  "speaks pid s0 (Ret a) = (\<lambda>log. False)"
| "speaks pid s0 (Sys c f) = (\<lambda>log.
     if on_socket s0 c then
       \<exists>v. c = Write s0 (le32_int v) \<and> (v = 0 \<or> v = -1) \<and> (\<forall>r. rv r = 4 \<longrightarrow> f r = Ret v) \<and>
         (v = 0 \<longrightarrow> (\<forall>r. mapping_done pid s0 (log @ [(c, r)])))
     else \<forall>r. local_reply s0 c r \<longrightarrow> speaks pid s0 (f r) (log @ [(c, r)]))"
| "speaks pid s0 (Stop x) = (\<lambda>log. False)"

definition parent_start :: "int \<Rightarrow> fd \<Rightarrow> reply \<Rightarrow> int prog" where
  "parent_start pid s0 r = (case user_namespace_prepare_mappings pid s0 of Sys c f \<Rightarrow> f r | p \<Rightarrow> p)"

lemma prepare_places: "user_namespace_prepare_mappings pid s0 = Sys (Read s0 4) (parent_start pid s0)"
proof -
  obtain f where f: "user_namespace_prepare_mappings pid s0 = Sys (Read s0 4) f"
    unfolding user_namespace_prepare_mappings_def by blast
  then have "parent_start pid s0 = f" by (intro ext) (simp add: parent_start_def)
  then show ?thesis using f by simp
qed

lemma speaks_fail: "speaks pid s0 (mappings_fail s0) log"
  by (auto simp: mappings_fail_def on_socket_def)

lemma speaks_start:
  assumes "- (2 ^ 31) \<le> pid" "pid < 2 ^ 31" and "rv r = 4" "int_of_le32 (rbuf r) = 0"
  shows "speaks pid s0 (parent_start pid s0 r) [(Read s0 4, r)]"
proof -
  have s: "length (proc_path pid ''setgroups'') < 4096" "length (proc_path pid ''uid_map'') < 4096"
    "length (proc_path pid ''gid_map'') < 4096"
    using assms(1,2) by simp_all
  show ?thesis
    using assms(3,4) s
    by (auto simp: parent_start_def user_namespace_prepare_mappings_def map_line_value not_le speaks_fail
        on_socket_def local_reply_def mapping_done_def setup_done_def nth_reply_def setup_calls_def)
qed


section \<open>The invariant\<close>

definition no_switch :: "trace \<Rightarrow> bool" where
  "no_switch log \<longleftrightarrow> (\<forall>e \<in> set log. \<forall>a b c. fst e \<noteq> Setresgid a b c \<and> fst e \<noteq> Setresuid a b c)"

lemma no_switch_simps [simp]:
  "no_switch []" "no_switch (log @ [e]) \<longleftrightarrow> no_switch log \<and> (\<forall>a b c. fst e \<noteq> Setresgid a b c \<and> fst e \<noteq> Setresuid a b c)"
  by (auto simp: no_switch_def)

text \<open>The joint states, in the order they are passed.\<close>

definition before_report :: "nat \<Rightarrow> int \<Rightarrow> fd \<Rightarrow> fd \<Rightarrow> hs \<Rightarrow> bool" where
  "before_report uid pid s0 s1 s \<longleftrightarrow> parent s = user_namespace_prepare_mappings pid s0 \<and> plog s = [] \<and>
     to_child s = [] \<and> no_switch (clog s) \<and>
     ((child s = user_namespace_init uid s1 \<or> child s = child_report uid s1 \<or> child s = Ret (-1)) \<and> to_parent s = [] \<or>
      child s = child_wait uid s1 \<and> to_parent s = [le32_int 0])"

definition mapping_in_progress :: "nat \<Rightarrow> int \<Rightarrow> fd \<Rightarrow> fd \<Rightarrow> hs \<Rightarrow> bool" where
  "mapping_in_progress uid pid s0 s1 s \<longleftrightarrow> child s = child_wait uid s1 \<and> to_parent s = [] \<and> to_child s = [] \<and>
     speaks pid s0 (parent s) (plog s) \<and> no_switch (clog s)"

definition verdict_sent :: "nat \<Rightarrow> int \<Rightarrow> fd \<Rightarrow> fd \<Rightarrow> hs \<Rightarrow> bool" where
  "verdict_sent uid pid s0 s1 s \<longleftrightarrow> child s = child_wait uid s1 \<and> to_parent s = [] \<and> no_switch (clog s) \<and>
     (\<exists>v. (v = 0 \<or> v = -1) \<and> parent s = Ret v \<and> to_child s = [le32_int v] \<and> (v = 0 \<longrightarrow> mapping_done pid s0 (plog s)))"

text \<open>The successful switches of the child so far: 0 stands for the group id, 1 for the user id.\<close>

definition switched :: "nat \<Rightarrow> nat list \<Rightarrow> trace \<Rightarrow> bool" where
  "switched uid ws log \<longleftrightarrow> (\<forall>w \<in> set ws. \<exists>e \<in> set log.
     fst e = (if w = 0 then Setresgid uid uid uid else Setresuid uid uid uid) \<and> rv (snd e) = 0)"

definition accepted :: "nat \<Rightarrow> int \<Rightarrow> fd \<Rightarrow> fd \<Rightarrow> hs \<Rightarrow> bool" where
  "accepted uid pid s0 s1 s \<longleftrightarrow> parent s = Ret 0 \<and> mapping_done pid s0 (plog s) \<and> to_parent s = [] \<and> to_child s = [] \<and>
     (child s = child_switch uid \<or> child s = child_switch2 uid \<and> switched uid [0] (clog s) \<or>
      child s = Ret 0 \<and> switched uid [0, 1] (clog s) \<or> child s = Ret (-1))"

definition rejected :: "hs \<Rightarrow> bool" where
  "rejected s \<longleftrightarrow> child s = Ret (-1) \<and> parent s = Ret (-1) \<and> to_parent s = [] \<and> to_child s = [] \<and> no_switch (clog s)"

definition hs_inv :: "nat \<Rightarrow> int \<Rightarrow> fd \<Rightarrow> fd \<Rightarrow> hs \<Rightarrow> bool" where
  "hs_inv uid pid s0 s1 s \<longleftrightarrow> before_report uid pid s0 s1 s \<or> mapping_in_progress uid pid s0 s1 s \<or>
     verdict_sent uid pid s0 s1 s \<or> accepted uid pid s0 s1 s \<or> rejected s"

lemmas phase_defs = before_report_def mapping_in_progress_def verdict_sent_def accepted_def rejected_def

lemma int_of_le32_small [simp]: "int_of_le32 (le32_int 0) = 0" "int_of_le32 (le32_int (-1)) = -1"
  by simp_all

lemma take_le32 [simp]: "take 4 (le32_int v) = le32_int v"
  by simp

lemma packet_simps [simp]: "rv (packet m) = int (length m)" "rbuf (packet m) = m"
  by (simp_all add: packet_def)

lemma hs_inv_init: "hs_inv uid pid s0 s1 (hs_init uid pid s0 s1)"
  by (simp add: hs_inv_def before_report_def hs_init_def)

text \<open>Who can move where: a process that returned does not, a reader waits for its queue, and a
  local call changes only its own process.\<close>

lemma step_both_returned: "child s = Ret a \<Longrightarrow> parent s = Ret b \<Longrightarrow> \<not> hs_step s0 s1 s s'"
  by (auto elim!: hs_stepE)

lemma step_child_local:
  assumes "hs_step s0 s1 s s'" and "child s = Sys c f" and "\<not> on_socket s1 c" and "parent s = Ret b"
  shows "\<exists>r. s' = s\<lparr>child := f r, clog := clog s @ [(c, r)]\<rparr>"
  using assms by (auto elim!: hs_stepE)

lemma step_child_reads:
  assumes "hs_step s0 s1 s s'" and "child s = Sys (Read s1 n) f" and "parent s = Ret b" and "to_child s = m # q"
  shows "s' = s\<lparr>child := f (packet (take n m)), to_child := q, clog := clog s @ [(Read s1 n, packet (take n m))]\<rparr>"
  using assms by (auto elim!: hs_stepE)

lemma step_child_blocked:
  assumes "hs_step s0 s1 s s'" and "child s = Sys (Read s1 n) f" and "to_child s = []"
    and "parent s = Sys c g" and "\<forall>k. c \<noteq> Read s0 k"
  shows "(\<exists>m. c = Write s0 m \<and> s' = s\<lparr>parent := g (ret (int (length m))), to_child := [m],
      plog := plog s @ [(c, ret (int (length m)))]\<rparr>) \<or>
    (\<exists>r. \<not> on_socket s0 c \<and> local_reply s0 c r \<and> s' = s\<lparr>parent := g r, plog := plog s @ [(c, r)]\<rparr>)"
  using assms by (auto elim!: hs_stepE)

lemma step_parent_reads:
  assumes "hs_step s0 s1 s s'" and "child s = Sys (Read s1 n) f" and "to_child s = []"
    and "parent s = Sys (Read s0 k) g" and "to_parent s = m # q"
  shows "s' = s\<lparr>parent := g (packet (take k m)), to_parent := q, plog := plog s @ [(Read s0 k, packet (take k m))]\<rparr>"
  using assms by (auto elim!: hs_stepE)

lemma step_parent_waits:
  assumes "hs_step s0 s1 s s'" and "parent s = Sys (Read s0 k) g" and "to_parent s = []"
    and "child s = Sys c f" and "\<forall>n. c \<noteq> Read s1 n"
  shows "(\<exists>m. c = Write s1 m \<and> s' = s\<lparr>child := f (ret (int (length m))), to_parent := [m],
      clog := clog s @ [(c, ret (int (length m)))]\<rparr>) \<or>
    (\<exists>r. \<not> on_socket s1 c \<and> s' = s\<lparr>child := f r, clog := clog s @ [(c, r)]\<rparr>)"
  using assms by (auto elim!: hs_stepE)

lemma step_parent_eof:
  assumes "hs_step s0 s1 s s'" and "parent s = Sys (Read s0 k) g" and "to_parent s = []" and "child s = Ret a"
  shows "s' = s\<lparr>parent := g (ret 0), plog := plog s @ [(Read s0 k, ret 0)]\<rparr>"
  using assms by (auto elim!: hs_stepE)

lemma parent_start_eof: "parent_start pid s0 (ret 0) = Ret (-1)"
  by (simp add: parent_start_def user_namespace_prepare_mappings_def)

lemma step_before_report:
  assumes inv: "before_report uid pid s0 s1 s" and step: "hs_step s0 s1 s s'"
    and pid: "- (2 ^ 31) \<le> pid" "pid < 2 ^ 31"
  shows "hs_inv uid pid s0 s1 s'"
proof -
  have p: "parent s = Sys (Read s0 4) (parent_start pid s0)" "plog s = []" "to_child s = []" "no_switch (clog s)"
    using inv prepare_places by (auto simp: before_report_def)
  consider (init) "child s = user_namespace_init uid s1" "to_parent s = []"
    | (report) "child s = child_report uid s1" "to_parent s = []"
    | (dead) "child s = Ret (-1)" "to_parent s = []"
    | (wait) "child s = child_wait uid s1" "to_parent s = [le32_int 0]"
    using inv unfolding before_report_def by blast
  then show ?thesis
  proof cases
    case init
    then obtain r where "s' = s\<lparr>child := if rv r < 0 then Ret (-1) else child_report uid s1, clog := clog s @ [(Unshare CLONE_NEWUSER, r)]\<rparr>"
      using step_parent_waits [OF step p(1) init(2) init(1) [unfolded init_places]] by auto
    then show ?thesis using p inv init(2) by (auto simp: hs_inv_def before_report_def)
  next
    case report
    then have "s' = s\<lparr>child := child_wait uid s1, to_parent := [le32_int 0], clog := clog s @ [(Write s1 (le32_int 0), ret 4)]\<rparr>"
      using step_parent_waits [OF step p(1) report(2) report(1) [unfolded child_report_def]] by auto
    then show ?thesis using p inv by (auto simp: hs_inv_def before_report_def)
  next
    case dead
    have "s' = s\<lparr>parent := Ret (-1), plog := [(Read s0 4, ret 0)]\<rparr>"
      using step_parent_eof [OF step p(1) dead(2,1)] p(2) by (simp add: parent_start_eof)
    then have "rejected s'" using p dead by (simp add: rejected_def)
    then show ?thesis by (simp add: hs_inv_def)
  next
    case wait
    let ?r = "packet (le32_int 0)"
    have "s' = s\<lparr>parent := parent_start pid s0 ?r, to_parent := [], plog := [(Read s0 4, ?r)]\<rparr>"
      using step_parent_reads [OF step wait(1) [unfolded child_wait_def] p(3) p(1) wait(2)] p(2) by simp
    then have "mapping_in_progress uid pid s0 s1 s'"
      using speaks_start [OF pid, of ?r s0] wait(1) p(3,4) by (simp add: mapping_in_progress_def)
    then show ?thesis by (simp add: hs_inv_def)
  qed
qed

lemma step_in_progress:
  assumes inv: "mapping_in_progress uid pid s0 s1 s" and step: "hs_step s0 s1 s s'"
  shows "hs_inv uid pid s0 s1 s'"
proof -
  have h: "child s = child_wait uid s1" "to_parent s = []" "to_child s = []" "no_switch (clog s)"
    using inv by (simp_all add: mapping_in_progress_def)
  have sp: "speaks pid s0 (parent s) (plog s)" using inv by (simp add: mapping_in_progress_def)
  then obtain c g where p: "parent s = Sys c g" by (cases "parent s") simp_all
  have nr: "\<forall>k. c \<noteq> Read s0 k" using sp p by (auto split: if_splits)
  from step_child_blocked [OF step h(1) [unfolded child_wait_def] h(3) p nr]
  show ?thesis
  proof (elim disjE exE conjE)
    fix m assume m: "c = Write s0 m"
      and s': "s' = s\<lparr>parent := g (ret (int (length m))), to_child := [m], plog := plog s @ [(c, ret (int (length m)))]\<rparr>"
    obtain v where v: "m = le32_int v" "v = 0 \<or> v = -1" "g (ret 4) = Ret v"
        "v = 0 \<longrightarrow> mapping_done pid s0 (plog s @ [(Write s0 m, ret 4)])"
    proof -
      have "\<exists>v. Write s0 m = Write s0 (le32_int v) \<and> (v = 0 \<or> v = -1) \<and> (\<forall>r. rv r = 4 \<longrightarrow> g r = Ret v) \<and>
          (v = 0 \<longrightarrow> (\<forall>r. mapping_done pid s0 (plog s @ [(Write s0 m, r)])))"
        using sp unfolding p m by (simp only: speaks.simps on_socket_simps if_True)
      then obtain v where v: "m = le32_int v" "v = 0 \<or> v = -1" "\<forall>r. rv r = 4 \<longrightarrow> g r = Ret v"
          "v = 0 \<longrightarrow> (\<forall>r. mapping_done pid s0 (plog s @ [(Write s0 m, r)]))"
        unfolding call.inject by blast
      show thesis by (rule that [OF v(1,2)]) (use v(3,4) in simp_all)
    qed
    then have "verdict_sent uid pid s0 s1 s'" using h s' m by (auto simp: verdict_sent_def)
    then show ?thesis by (simp add: hs_inv_def)
  next
    fix r assume "\<not> on_socket s0 c" "local_reply s0 c r" and s': "s' = s\<lparr>parent := g r, plog := plog s @ [(c, r)]\<rparr>"
    then have "speaks pid s0 (g r) (plog s @ [(c, r)])" using sp p by simp
    then have "mapping_in_progress uid pid s0 s1 s'" using h s' by (simp add: mapping_in_progress_def)
    then show ?thesis by (simp add: hs_inv_def)
  qed
qed

lemma step_verdict_sent:
  assumes inv: "verdict_sent uid pid s0 s1 s" and step: "hs_step s0 s1 s s'"
  shows "hs_inv uid pid s0 s1 s'"
proof -
  obtain v where h: "child s = child_wait uid s1" "to_parent s = []" "no_switch (clog s)" "v = 0 \<or> v = -1"
      "parent s = Ret v" "to_child s = [le32_int v]" "v = 0 \<longrightarrow> mapping_done pid s0 (plog s)"
    using inv by (auto simp: verdict_sent_def)
  have "s' = s\<lparr>child := if v = 0 then child_switch uid else Ret (-1), to_child := [],
      clog := clog s @ [(Read s1 4, packet (le32_int v))]\<rparr>"
    using step_child_reads [OF step h(1) [unfolded child_wait_def] h(5,6)] h(4) by auto
  then have "accepted uid pid s0 s1 s' \<or> rejected s'" using h by (auto simp: accepted_def rejected_def)
  then show ?thesis by (auto simp: hs_inv_def)
qed

lemma step_accepted:
  assumes inv: "accepted uid pid s0 s1 s" and step: "hs_step s0 s1 s s'"
  shows "hs_inv uid pid s0 s1 s'"
proof -
  have h: "parent s = Ret 0" using inv by (simp add: accepted_def)
  have l: "\<not> on_socket s1 (Setresgid uid uid uid)" "\<not> on_socket s1 (Setresuid uid uid uid)" by (simp_all add: on_socket_def)
  have "child s = child_switch uid \<or> child s = child_switch2 uid \<and> switched uid [0] (clog s) \<or>
      child s = Ret 0 \<or> child s = Ret (-1)"
    using inv by (auto simp: accepted_def)
  moreover have "\<not> (child s = Ret 0 \<or> child s = Ret (-1))" using step_both_returned [OF _ h] step by blast
  ultimately consider (gid) "child s = child_switch uid" | (uid) "child s = child_switch2 uid" "switched uid [0] (clog s)"
    by blast
  then have "\<exists>p log'. s' = s\<lparr>child := p, clog := log'\<rparr> \<and> (p = child_switch2 uid \<and> switched uid [0] log' \<or>
      p = Ret 0 \<and> switched uid [0, 1] log' \<or> p = Ret (-1))"
  proof cases
    case gid
    then obtain r where s': "s' = s\<lparr>child := if rv r \<noteq> 0 then Ret (-1) else child_switch2 uid, clog := clog s @ [(Setresgid uid uid uid, r)]\<rparr>"
      using step_child_local [OF step gid [unfolded child_switch_def] l(1) h] unfolding child_switch2_def by (elim exE)
    show ?thesis
      by (rule exI [of _ "if rv r \<noteq> 0 then Ret (-1) else child_switch2 uid"],
          rule exI [of _ "clog s @ [(Setresgid uid uid uid, r)]"]) (simp add: s' switched_def)
  next
    case uid
    then obtain r where s': "s' = s\<lparr>child := if rv r \<noteq> 0 then Ret (-1) else Ret 0, clog := clog s @ [(Setresuid uid uid uid, r)]\<rparr>"
      using step_child_local [OF step uid(1) [unfolded child_switch2_def] l(2) h] by (elim exE)
    show ?thesis
      by (rule exI [of _ "if rv r \<noteq> 0 then Ret (-1) else Ret 0"],
          rule exI [of _ "clog s @ [(Setresuid uid uid uid, r)]"]) (use uid(2) in \<open>auto simp: s' switched_def\<close>)
  qed
  then have "accepted uid pid s0 s1 s'" using inv by (auto simp: accepted_def)
  then show ?thesis by (simp add: hs_inv_def)
qed

lemma hs_inv_step:
  assumes "hs_inv uid pid s0 s1 s" and "hs_step s0 s1 s s'" and "- (2 ^ 31) \<le> pid" "pid < 2 ^ 31"
  shows "hs_inv uid pid s0 s1 s'"
proof -
  have "\<not> rejected s" using assms(2) by (auto simp: rejected_def elim: hs_stepE)
  then show ?thesis
    using assms(1) step_before_report [OF _ assms(2-4), of uid] step_in_progress [OF _ assms(2), of uid pid]
      step_verdict_sent [OF _ assms(2), of uid pid] step_accepted [OF _ assms(2), of uid pid]
    unfolding hs_inv_def [of uid pid s0 s1 s] by blast
qed

lemma hs_reach_inv:
  "hs_reach uid pid s0 s1 s \<Longrightarrow> - (2 ^ 31) \<le> pid \<Longrightarrow> pid < 2 ^ 31 \<Longrightarrow> hs_inv uid pid s0 s1 s"
  by (induction rule: hs_reach.induct) (auto simp: hs_inv_init hs_inv_step)


section \<open>Progress\<close>

lemma local_reply_exists: "\<exists>r. local_reply s c r"
proof -
  have "local_reply s c (ret (if s = -1 then 0 else -1))" by (cases c) (simp_all add: local_reply_def)
  then show ?thesis by blast
qed

lemma child_can_move: "child s = Sys c f \<Longrightarrow> \<not> on_socket s1 c \<Longrightarrow> \<exists>s'. hs_step s0 s1 s s'"
  using local_reply_exists [of s1 c] child_local by blast

lemma hs_inv_progress:
  assumes "hs_inv uid pid s0 s1 s"
  shows "(\<exists>s'. hs_step s0 s1 s s') \<or> (\<exists>a b. child s = Ret a \<and> parent s = Ret b)"
proof -
  consider (b) "before_report uid pid s0 s1 s" | (m) "mapping_in_progress uid pid s0 s1 s"
    | (v) "verdict_sent uid pid s0 s1 s" | (a) "accepted uid pid s0 s1 s" | (r) "rejected s"
    using assms unfolding hs_inv_def by blast
  then show ?thesis
  proof cases
    case b
    then have p: "parent s = Sys (Read s0 4) (parent_start pid s0)" using prepare_places by (simp add: before_report_def)
    consider "child s = user_namespace_init uid s1" | "child s = child_report uid s1"
      | "child s = Ret (-1)" "to_parent s = []" | "to_parent s = [le32_int 0]"
      using b unfolding before_report_def by blast
    then show ?thesis
    proof cases
      case 1
      then show ?thesis using child_can_move [of s "Unshare CLONE_NEWUSER"] init_places by (simp add: on_socket_def)
    next
      case 2
      then show ?thesis using child_send unfolding child_report_def by blast
    next
      case 3
      then show ?thesis using parent_eof [OF p 3(2,1)] by blast
    next
      case 4
      then show ?thesis using parent_recv [OF p] by blast
    qed
  next
    case m
    then have sp: "speaks pid s0 (parent s) (plog s)" by (simp add: mapping_in_progress_def)
    then obtain c g where p: "parent s = Sys c g" by (cases "parent s") simp_all
    show ?thesis
    proof (cases "on_socket s0 c")
      case True
      then obtain w where "c = Write s0 (le32_int w)" using sp p by auto
      then show ?thesis using parent_send p by blast
    next
      case False
      then show ?thesis using parent_local [OF p False] local_reply_exists by blast
    qed
  next
    case v
    then obtain w where "to_child s = [le32_int w]" "child s = child_wait uid s1" by (auto simp: verdict_sent_def)
    then show ?thesis using child_recv unfolding child_wait_def by blast
  next
    case a
    then have "parent s = Ret 0" by (simp add: accepted_def)
    moreover have "\<exists>s'. hs_step s0 s1 s s'" if "child s = child_switch uid"
      using child_can_move [of s "Setresgid uid uid uid"] that by (simp add: child_switch_def on_socket_def)
    moreover have "\<exists>s'. hs_step s0 s1 s s'" if "child s = child_switch2 uid"
      using child_can_move [of s "Setresuid uid uid uid"] that by (simp add: child_switch2_def on_socket_def)
    ultimately show ?thesis using a unfolding accepted_def by blast
  next
    case r
    then show ?thesis by (simp add: rejected_def)
  qed
qed

text \<open>Every step replaces one program by one of its subtrees, so the steps come to an end.\<close>

definition subtree :: "('a prog \<times> 'a prog) set" where
  "subtree = {(f r, Sys c f) | c f r. True}"

lemma wf_subtree: "wf subtree"
proof (rule wfUNIVI)
  fix P :: "'a prog \<Rightarrow> bool" and p assume h: "\<forall>x. (\<forall>y. (y, x) \<in> subtree \<longrightarrow> P y) \<longrightarrow> P x"
  show "P p"
  proof (induction p)
    case (Sys c f)
    have "\<forall>y. (y, Sys c f) \<in> subtree \<longrightarrow> P y" using Sys by (auto simp: subtree_def)
    then show ?case using h by blast
  qed (use h in \<open>auto simp: subtree_def\<close>)
qed

lemma step_subtree:
  "hs_step s0 s1 s s' \<Longrightarrow> ((child s', parent s'), (child s, parent s)) \<in> subtree <*lex*> subtree"
  by (auto elim!: hs_stepE simp: subtree_def)

section \<open>A scheduler\<close>

text \<open>One schedule: the child runs while it can, and calls are answered kindly.\<close>

definition kind_reply :: "fd \<Rightarrow> call \<Rightarrow> reply" where
  "kind_reply s c = (case c of Open p f m \<Rightarrow> ret (if s = 9 then 10 else 9) | Write d m \<Rightarrow> ret (int (length m)) | _ \<Rightarrow> ret 0)"

definition reads :: "fd \<Rightarrow> call \<Rightarrow> nat option" where
  "reads s c = (case c of Read d n \<Rightarrow> if d = s then Some n else None | _ \<Rightarrow> None)"

definition writes :: "fd \<Rightarrow> call \<Rightarrow> bytes option" where
  "writes s c = (case c of Write d m \<Rightarrow> if d = s then Some m else None | _ \<Rightarrow> None)"

definition move_parent :: "fd \<Rightarrow> hs \<Rightarrow> hs" where
  "move_parent s0 s = (case parent s of
       Sys c f \<Rightarrow> (case reads s0 c of
           Some n \<Rightarrow> (case to_parent s of
                m # q \<Rightarrow> s\<lparr>parent := f (packet (take n m)), to_parent := q, plog := plog s @ [(c, packet (take n m))]\<rparr>
              | [] \<Rightarrow> s)
         | None \<Rightarrow> (case writes s0 c of
             Some m \<Rightarrow> s\<lparr>parent := f (ret (int (length m))), to_child := to_child s @ [m], plog := plog s @ [(c, ret (int (length m)))]\<rparr>
           | None \<Rightarrow> s\<lparr>parent := f (kind_reply s0 c), plog := plog s @ [(c, kind_reply s0 c)]\<rparr>))
     | _ \<Rightarrow> s)"

definition sched :: "fd \<Rightarrow> fd \<Rightarrow> hs \<Rightarrow> hs" where
  "sched s0 s1 s = (case child s of
       Sys c f \<Rightarrow> (case reads s1 c of
           Some n \<Rightarrow> (case to_child s of
                m # q \<Rightarrow> s\<lparr>child := f (packet (take n m)), to_child := q, clog := clog s @ [(c, packet (take n m))]\<rparr>
              | [] \<Rightarrow> move_parent s0 s)
         | None \<Rightarrow> (case writes s1 c of
             Some m \<Rightarrow> s\<lparr>child := f (ret (int (length m))), to_parent := to_parent s @ [m], clog := clog s @ [(c, ret (int (length m)))]\<rparr>
           | None \<Rightarrow> s\<lparr>child := f (kind_reply s1 c), clog := clog s @ [(c, kind_reply s1 c)]\<rparr>))
     | _ \<Rightarrow> move_parent s0 s)"

lemma reads_writes:
  "reads s c = Some n \<longleftrightarrow> c = Read s n" "writes s c = Some m \<longleftrightarrow> c = Write s m"
  "reads s c = None \<Longrightarrow> writes s c = None \<Longrightarrow> \<not> on_socket s c"
  by (cases c; auto simp: reads_def writes_def on_socket_def split: if_splits)+

lemma kind_reply_local: "local_reply s c (kind_reply s c)"
  by (cases c) (simp_all add: local_reply_def kind_reply_def)

lemma move_parent_step: "move_parent s0 s = s \<or> hs_step s0 s1 s (move_parent s0 s)"
proof (cases "parent s")
  case (Sys c f)
  have l: "\<not> on_socket s0 c \<Longrightarrow> hs_step s0 s1 s (s\<lparr>parent := f (kind_reply s0 c), plog := plog s @ [(c, kind_reply s0 c)]\<rparr>)"
    using parent_local [OF Sys _ kind_reply_local] by blast
  show ?thesis
    using Sys l by (auto simp: move_parent_def reads_writes intro: hs_step.parent_send hs_step.parent_recv
        split: list.splits option.splits)
qed (simp_all add: move_parent_def)

lemma sched_step: "sched s0 s1 s = s \<or> hs_step s0 s1 s (sched s0 s1 s)"
proof (cases "child s")
  case (Sys c f)
  have l: "\<not> on_socket s1 c \<Longrightarrow> hs_step s0 s1 s (s\<lparr>child := f (kind_reply s1 c), clog := clog s @ [(c, kind_reply s1 c)]\<rparr>)"
    using child_local [OF Sys _ kind_reply_local] by blast
  show ?thesis
    using Sys l move_parent_step [of s0 s s1]
    by (auto simp: sched_def reads_writes intro: hs_step.child_send hs_step.child_recv split: list.splits option.splits)
qed (use move_parent_step [of s0 s s1] in \<open>simp_all add: sched_def\<close>)

lemma sched_reach: "hs_reach uid pid s0 s1 s \<Longrightarrow> hs_reach uid pid s0 s1 ((sched s0 s1 ^^ n) s)"
proof (induction n)
  case (Suc n)
  then show ?case using sched_step [of s0 s1 "(sched s0 s1 ^^ n) s"] more by (auto intro: more)
qed simp

text \<open>Barco and the container 4242 over the descriptors 3 and 4, uid 0.\<close>

definition demo_end :: hs where
  "demo_end = (sched 3 4 ^^ 16) (hs_init 0 4242 3 4)"

lemma demo_end_reach: "hs_reach 0 4242 3 4 demo_end"
  unfolding demo_end_def by (rule sched_reach [OF start])

lemma funpow_16: "(f ^^ 16) x = f (f (f (f (f (f (f (f (f (f (f (f (f (f (f (f x)))))))))))))))"
  by (simp add: numeral_eq_Suc)

lemma proc_paths_fit [simp]:
  "\<not> 4096 \<le> length (proc_path 4242 ''setgroups'')" "\<not> 4096 \<le> length (proc_path 4242 ''uid_map'')"
  "\<not> 4096 \<le> length (proc_path 4242 ''gid_map'')"
  by (simp_all add: not_le)

lemma demo_end_result:
  "(child demo_end = Ret 0 \<and> parent demo_end = Ret 0) \<and> (Setresgid 0 0 0, ret 0) \<in> set (clog demo_end)"
  by (simp add: demo_end_def funpow_16 hs_init_def sched_def move_parent_def user_namespace_init_def
      user_namespace_prepare_mappings_def reads_def writes_def kind_reply_def map_line_value mappings_fail_def)

section \<open>The ids of the container process\<close>

text \<open>
  What barco wrote to a file: the writes that did not fail, to a descriptor that \<open>open\<close> gave for
  that path and that is not closed yet.  The kernel reads a line "inside outside count" of
  \<open>uid_map\<close> as a range of ids that exist in the namespace of the process (user\_namespaces(7)).
\<close>

definition file_step :: "(fd \<Rightarrow> string option) \<times> (string \<times> bytes) list \<Rightarrow> event \<Rightarrow> (fd \<Rightarrow> string option) \<times> (string \<times> bytes) list" where
  "file_step st e = (case (e, st) of ((c, r), (names, ws)) \<Rightarrow> (case c of
       Open p f m \<Rightarrow> if 0 \<le> rv r then (names(rv r \<mapsto> p), ws) else st
     | Close d \<Rightarrow> (names(d := None), ws)
     | Write d m \<Rightarrow> (case names d of Some p \<Rightarrow> if rv r = -1 then st else (names, ws @ [(p, m)]) | None \<Rightarrow> st)
     | _ \<Rightarrow> st))"

definition written :: "trace \<Rightarrow> string \<Rightarrow> bytes list" where
  "written log path = map snd (filter (\<lambda>w. fst w = path) (snd (observe file_step (\<lambda>_. None, []) log)))"

text \<open>The first and the last number of a map line.\<close>

fun last_number :: "nat \<Rightarrow> string \<Rightarrow> nat" where
  "last_number n [] = n"
| "last_number n (c # cs) = (case base_digit 10 c of Some d \<Rightarrow> last_number (n * 10 + d) cs
     | None \<Rightarrow> (if cs = [] then n else last_number 0 cs))"

definition line_holds :: "nat \<Rightarrow> bytes \<Rightarrow> bool" where
  "line_holds u m \<longleftrightarrow> (let l = string_of_bytes m; first = fst (scan_digits 10 0 l) in
     first \<le> u \<and> u < first + last_number 0 l)"

definition id_mapped :: "trace \<Rightarrow> string \<Rightarrow> nat \<Rightarrow> bool" where
  "id_mapped log path u \<longleftrightarrow> (\<exists>m \<in> set (written log path). line_holds u m)"

text \<open>
  setresuid(2) and setresgid(2): an argument of -1 leaves the id as it is; any other id has to exist
  in the user namespace of the caller, that is, to be in a line written to the map of the process.
\<close>

definition NO_CHANGE :: nat where
  "NO_CHANGE = 2 ^ 32 - 1"

definition id_law :: "int \<Rightarrow> trace \<Rightarrow> event \<Rightarrow> bool" where
  "id_law pid log e \<longleftrightarrow> (case e of (c, r) \<Rightarrow> (case c of
       Setresgid a b d \<Rightarrow> rv r = 0 \<longrightarrow> (\<forall>u \<in> set [a, b, d]. u = NO_CHANGE \<or> id_mapped log (proc_path pid ''gid_map'') u)
     | Setresuid a b d \<Rightarrow> rv r = 0 \<longrightarrow> (\<forall>u \<in> set [a, b, d]. u = NO_CHANGE \<or> id_mapped log (proc_path pid ''uid_map'') u)
     | _ \<Rightarrow> True))"

definition ids_law :: "int \<Rightarrow> hs \<Rightarrow> bool" where
  "ids_law pid s \<longleftrightarrow> (\<forall>e \<in> set (clog s). id_law pid (plog s) e)"

lemma proc_path_eq [simp]: "proc_path pid f = proc_path pid g \<longleftrightarrow> f = g"
  by (simp add: proc_path_def)

lemma file_step_simps [simp]:
  "file_step (names, ws) (Read d n, r) = (names, ws)"
  "file_step (names, ws) (Open p f k, r) = (if 0 \<le> rv r then (names(rv r \<mapsto> p), ws) else (names, ws))"
  "file_step (names, ws) (Close d, r) = (names(d := None), ws)"
  "file_step (names, ws) (Write d m, r) = (case names d of
     Some p \<Rightarrow> if rv r = -1 then (names, ws) else (names, ws @ [(p, m)]) | None \<Rightarrow> (names, ws))"
  by (simp_all add: file_step_def split: option.split)

lemma list_of_ten:
  "length xs = 10 \<Longrightarrow> xs = [xs ! 0, xs ! 1, xs ! 2, xs ! 3, xs ! 4, xs ! 5, xs ! 6, xs ! 7, xs ! 8, xs ! 9]"
  by (rule nth_equalityI) (auto simp: less_Suc_eq numeral_eq_Suc)

text \<open>After the set-up each map file holds the one line.\<close>

lemma written_by_setup:
  assumes "mapping_done pid s0 log" and "file = ''uid_map'' \<or> file = ''gid_map''"
  shows "written log (proc_path pid file) = [bytes_of_string ''0 10000 1\<newline>'']"
proof -
  let ?e = "butlast log"
  have d: "setup_done pid s0 ?e" "log \<noteq> []" "fst (last log) = Write s0 (le32_int 0)"
    using assms(1) by (simp_all add: mapping_done_def)
  then obtain r where l: "log = ?e @ [(Write s0 (le32_int 0), r)]"
    by (metis append_butlast_last_id prod.collapse)
  obtain r0 r1 r2 r3 r4 r5 r6 r7 r8 r9 where e: "?e = [(Read s0 4, r0),
      (Open (proc_path pid ''setgroups'') O_WRONLY 0, r1), (Write (rv r1) (bytes_of_string ''deny''), r2), (Close (rv r1), r3),
      (Open (proc_path pid ''uid_map'') O_WRONLY 0, r4), (Write (rv r4) (bytes_of_string ''0 10000 1\<newline>''), r5), (Close (rv r4), r6),
      (Open (proc_path pid ''gid_map'') O_WRONLY 0, r7), (Write (rv r7) (bytes_of_string ''0 10000 1\<newline>''), r8), (Close (rv r7), r9)]"
    and ok: "0 \<le> rv r1" "0 \<le> rv r4" "0 \<le> rv r7" "rv r5 \<noteq> -1" "rv r8 \<noteq> -1"
  proof -
    have n: "length ?e = 10" and c: "map fst ?e = setup_calls pid s0 (rv (nth_reply ?e 1)) (rv (nth_reply ?e 4)) (rv (nth_reply ?e 7))"
      and k: "0 \<le> rv (nth_reply ?e 1)" "0 \<le> rv (nth_reply ?e 4)" "0 \<le> rv (nth_reply ?e 7)"
        "rv (nth_reply ?e 5) \<noteq> -1" "rv (nth_reply ?e 8) \<noteq> -1"
      using d(1) by (simp_all add: setup_done_def)
    have p: "?e ! i = (map fst ?e ! i, nth_reply ?e i)" if "i < 10" for i
      using that n by (simp add: nth_reply_def)
    show thesis
      by (rule that [OF _ k]; subst list_of_ten [OF n]; simp add: p [unfolded c] setup_calls_def)
  qed
  show ?thesis
    using assms(2) ok by (subst l, auto simp: written_def e)
qed

lemma id_mapped_by_setup:
  assumes "mapping_done pid s0 log" and "file = ''uid_map'' \<or> file = ''gid_map''"
  shows "id_mapped log (proc_path pid file) u \<longleftrightarrow> u = 0"
proof -
  have "line_holds u (bytes_of_string ''0 10000 1\<newline>'') \<longleftrightarrow> u = 0"
    by (simp add: line_holds_def base_digit_def digit_val_def Let_def)
  then show ?thesis by (simp add: id_mapped_def written_by_setup [OF assms])
qed

section \<open>Properties\<close>

text \<open>C25: In every interleaving, for a process id that is an int, when the container process switches its
  user or group id, barco has completed the maps: its calls up to then are exactly reading the report,
  opening, writing and closing setgroups (deny), uid_map and gid_map (the line 0 10000 1), and sending
  the verdict 0, and all of them had succeeded: each open returned the descriptor that was written,
  and no write failed.\<close>

theorem maps_written_before_switch:
  assumes "hs_reach uid pid s0 s1 s" and "- (2 ^ 31) \<le> pid" and "pid < 2 ^ 31"
    and "(Setresgid a b c, r) \<in> set (clog s) \<or> (Setresuid a b c, r) \<in> set (clog s)"
  shows "mapping_done pid s0 (plog s)"
proof -
  have "\<not> no_switch (clog s)" using assms(4) unfolding no_switch_def by fastforce
  then show ?thesis using hs_reach_inv [OF assms(1-3)] by (auto simp: hs_inv_def phase_defs)
qed

lemma maps_written_before_switch_witness: "mapping_done 4242 3 (plog demo_end)"
  by (rule maps_written_before_switch [OF demo_end_reach, of 0 0 0 "ret 0"]) (use demo_end_result in simp_all)

text \<open>C26: The handshake never deadlocks: in every reachable state some process can make its next call or
  both have returned; a container process that fails before reporting is seen by barco as end of
  file.\<close>

theorem handshake_progress:
  assumes "hs_reach uid pid s0 s1 s" and "- (2 ^ 31) \<le> pid" and "pid < 2 ^ 31"
  shows "(\<exists>s'. hs_step s0 s1 s s') \<or> (\<exists>a b. child s = Ret a \<and> parent s = Ret b)"
  by (rule hs_inv_progress [OF hs_reach_inv [OF assms]])

lemma handshake_progress_witness:
  "(\<exists>s'. hs_step 3 4 (hs_init 0 4242 3 4) s') \<or>
   (\<exists>a b. child (hs_init 0 4242 3 4) = Ret a \<and> parent (hs_init 0 4242 3 4) = Ret b)"
  by (rule handshake_progress [OF start]) simp_all

text \<open>The handshake always ends: there is no infinite run of steps, whatever the schedule and the
  replies.\<close>

theorem handshake_terminates: "wf {(s', s). hs_step s0 s1 s s'}"
proof (rule wf_subset)
  show "wf (inv_image (subtree <*lex*> subtree) (\<lambda>s. (child s, parent s)))"
    by (intro wf_inv_image wf_lex_prod wf_subtree)
  show "{(s', s). hs_step s0 s1 s s'} \<subseteq> inv_image (subtree <*lex*> subtree) (\<lambda>s. (child s, parent s))"
    using step_subtree by (auto simp: inv_image_def simp del: in_lex_prod)
qed

text \<open>C27: When both sides have returned they agree: the container continues (returns 0) only if barco
  returned 0, barco returns 0 only when setgroups, uid_map and gid_map were opened and written
  without an error and the verdict 0 was sent, both results are 0 or -1, and no packet is left over.\<close>

theorem handshake_agreement:
  assumes "hs_reach uid pid s0 s1 s" and "- (2 ^ 31) \<le> pid" and "pid < 2 ^ 31"
    and "child s = Ret a" and "parent s = Ret b"
  shows "(a = 0 \<or> a = -1) \<and> (b = 0 \<or> b = -1) \<and> (b = 0 \<or> a = -1) \<and>
    (b = -1 \<or> mapping_done pid s0 (plog s)) \<and> to_parent s = [] \<and> to_child s = []"
  using hs_reach_inv [OF assms(1-3)] assms(4,5)
  by (auto simp: hs_inv_def phase_defs prepare_places child_wait_def child_switch_def child_switch2_def)

lemma handshake_agreement_witness: "mapping_done 4242 3 (plog demo_end) \<and> to_parent demo_end = []"
  using handshake_agreement [OF demo_end_reach, of 0 0] demo_end_result by auto

text \<open>C29: The set-up works for the user id 0 only.  Assume that the kernel treats the ids of the container
  process as its manual says: a successful setresgid or setresuid got, for each id, either -1, which
  leaves it unchanged, or an id inside a range that barco wrote to gid_map or uid_map of that process.
  Then, in every interleaving and for a process id that is an int, user_namespace_init returns 0 only
  for the target id 0, the single id of the maps that barco writes, or for 4294967295, which is -1 as
  an unsigned number and switches nothing; every other value of the command line option makes the
  container fail to start.\<close>

theorem only_uid_zero_works:
  assumes "hs_reach uid pid s0 s1 s" and "- (2 ^ 31) \<le> pid" and "pid < 2 ^ 31"
    and "ids_law pid s" and "child s = Ret 0"
  shows "uid = 0 \<or> uid = NO_CHANGE"
proof -
  have "mapping_done pid s0 (plog s)" "switched uid [1] (clog s)"
    using hs_reach_inv [OF assms(1-3)] assms(5)
    by (auto simp: hs_inv_def phase_defs init_places child_report_def child_wait_def child_switch_def
        child_switch2_def switched_def)
  then show ?thesis
    using assms(4) id_mapped_by_setup [of pid s0 "plog s" "''uid_map''" uid]
    by (fastforce simp: switched_def ids_law_def id_law_def)
qed

lemma demo_end_ids: "ids_law 4242 demo_end"
proof -
  have "mapping_done 4242 3 (plog demo_end)"
    using hs_reach_inv [OF demo_end_reach] demo_end_result by (auto simp: hs_inv_def phase_defs prepare_places)
  moreover have "\<forall>e \<in> set (clog demo_end). fst e \<in> {Unshare CLONE_NEWUSER, Write 4 (le32_int 0), Read 4 4, Setresgid 0 0 0, Setresuid 0 0 0}"
    by (simp add: demo_end_def funpow_16 hs_init_def sched_def move_parent_def user_namespace_init_def
      user_namespace_prepare_mappings_def reads_def writes_def kind_reply_def map_line_value mappings_fail_def)
  ultimately show ?thesis
    by (fastforce simp: ids_law_def id_law_def id_mapped_by_setup)
qed

lemma only_uid_zero_works_witness: "(0 = (0 :: nat) \<or> 0 = NO_CHANGE) \<and> child demo_end = Ret 0"
  using only_uid_zero_works [OF demo_end_reach _ _ demo_end_ids] demo_end_result by simp

text \<open>The other case is real: with -1 as the user id the set-up succeeds and switches nothing, and so
  the container goes on with the ids it has, whatever the maps say.\<close>

definition demo_end_minus_one :: hs where
  "demo_end_minus_one = (sched 3 4 ^^ 16) (hs_init NO_CHANGE 4242 3 4)"

lemma minus_one_succeeds:
  "hs_reach NO_CHANGE 4242 3 4 demo_end_minus_one" "child demo_end_minus_one = Ret 0" "ids_law 4242 demo_end_minus_one"
proof -
  show "hs_reach NO_CHANGE 4242 3 4 demo_end_minus_one"
    unfolding demo_end_minus_one_def by (rule sched_reach [OF start])
  show "child demo_end_minus_one = Ret 0"
    by (simp add: demo_end_minus_one_def funpow_16 hs_init_def sched_def move_parent_def user_namespace_init_def
      user_namespace_prepare_mappings_def reads_def writes_def kind_reply_def map_line_value mappings_fail_def)
  have "\<forall>e \<in> set (clog demo_end_minus_one). fst e \<in> {Unshare CLONE_NEWUSER, Write 4 (le32_int 0), Read 4 4,
      Setresgid NO_CHANGE NO_CHANGE NO_CHANGE, Setresuid NO_CHANGE NO_CHANGE NO_CHANGE}"
    by (simp add: demo_end_minus_one_def funpow_16 hs_init_def sched_def move_parent_def user_namespace_init_def
      user_namespace_prepare_mappings_def reads_def writes_def kind_reply_def map_line_value mappings_fail_def)
  then show "ids_law 4242 demo_end_minus_one"
    by (fastforce simp: ids_law_def id_law_def)
qed

end
