(* ===== verification/Netlink_Wire.thy ===== *)
theory Netlink_Wire
  imports Syscalls Cstring
begin

text \<open>
  The rtnetlink messages of \<open>src/netlink.c\<close>, byte by byte: the request structure is a zeroed
  buffer of its C size and every assignment through a header or attribute pointer is a checked
  write at its offset, so a name that does not fit makes the builder \<open>None\<close> (the C code would
  write past the structure).  The second half is the receiving side: the walk over the response
  buffer of \<open>nl_send_recv\<close>, and a reader of attribute lists as \<open>RTA_OK\<close> and \<open>RTA_NEXT\<close> define
  it, against which the builders are proved.
\<close>

section \<open>Constants of the kernel headers\<close>

abbreviation (input) NLMSG_ERROR :: nat where "NLMSG_ERROR \<equiv> 2"
abbreviation (input) NLMSG_DONE :: nat where "NLMSG_DONE \<equiv> 3"
abbreviation (input) RTM_NEWLINK :: nat where "RTM_NEWLINK \<equiv> 16"
abbreviation (input) RTM_DELLINK :: nat where "RTM_DELLINK \<equiv> 17"
abbreviation (input) RTM_NEWADDR :: nat where "RTM_NEWADDR \<equiv> 20"
abbreviation (input) RTM_NEWROUTE :: nat where "RTM_NEWROUTE \<equiv> 24"
abbreviation (input) NLM_F_REQUEST :: nat where "NLM_F_REQUEST \<equiv> 1"
abbreviation (input) NLM_F_ACK :: nat where "NLM_F_ACK \<equiv> 4"
abbreviation (input) NLM_F_REPLACE :: nat where "NLM_F_REPLACE \<equiv> 256"
abbreviation (input) NLM_F_EXCL :: nat where "NLM_F_EXCL \<equiv> 512"
abbreviation (input) NLM_F_CREATE :: nat where "NLM_F_CREATE \<equiv> 1024"
abbreviation (input) IFLA_IFNAME :: nat where "IFLA_IFNAME \<equiv> 3"
abbreviation (input) IFLA_LINKINFO :: nat where "IFLA_LINKINFO \<equiv> 18"
abbreviation (input) IFLA_INFO_KIND :: nat where "IFLA_INFO_KIND \<equiv> 1"
abbreviation (input) IFLA_INFO_DATA :: nat where "IFLA_INFO_DATA \<equiv> 2"
abbreviation (input) VETH_INFO_PEER :: nat where "VETH_INFO_PEER \<equiv> 1"
abbreviation (input) IFLA_NET_NS_FD :: nat where "IFLA_NET_NS_FD \<equiv> 28"
abbreviation (input) IFA_ADDRESS :: nat where "IFA_ADDRESS \<equiv> 1"
abbreviation (input) IFA_LOCAL :: nat where "IFA_LOCAL \<equiv> 2"
abbreviation (input) RTA_DST :: nat where "RTA_DST \<equiv> 1"
abbreviation (input) RTA_OIF :: nat where "RTA_OIF \<equiv> 4"
abbreviation (input) RTA_GATEWAY :: nat where "RTA_GATEWAY \<equiv> 5"
abbreviation (input) AF_INET :: nat where "AF_INET \<equiv> 2"
abbreviation (input) RT_TABLE_MAIN :: nat where "RT_TABLE_MAIN \<equiv> 254"
abbreviation (input) RTPROT_STATIC :: nat where "RTPROT_STATIC \<equiv> 4"
abbreviation (input) RTN_UNICAST :: nat where "RTN_UNICAST \<equiv> 1"
abbreviation (input) RT_SCOPE_UNIVERSE :: nat where "RT_SCOPE_UNIVERSE \<equiv> 0"
abbreviation (input) RT_SCOPE_LINK :: nat where "RT_SCOPE_LINK \<equiv> 253"
abbreviation (input) IFF_UP :: nat where "IFF_UP \<equiv> 1"

text \<open>\<open>NLMSG_ALIGN\<close>, \<open>NLMSG_LENGTH\<close>, \<open>RTA_ALIGN\<close>, \<open>RTA_LENGTH\<close>.\<close>

definition nlmsg_align :: "nat \<Rightarrow> nat" where
  "nlmsg_align n = (n + 3) div 4 * 4"

definition nlmsg_length :: "nat \<Rightarrow> nat" where
  "nlmsg_length n = n + 16"

definition rta_align :: "nat \<Rightarrow> nat" where
  "rta_align n = (n + 3) div 4 * 4"

definition rta_length :: "nat \<Rightarrow> nat" where
  "rta_length n = 4 + n"

lemma align_ge: "n \<le> rta_align n" "n \<le> nlmsg_align n"
  by (simp_all add: rta_align_def nlmsg_align_def)

lemma align_lt: "rta_align n < n + 4" "nlmsg_align n < n + 4"
  by (simp_all add: rta_align_def nlmsg_align_def)

lemma align_mult [simp]: "4 dvd rta_align n" "4 dvd nlmsg_align n"
  by (simp_all add: rta_align_def nlmsg_align_def)

lemma align_id: "4 dvd n \<Longrightarrow> rta_align n = n" "4 dvd n \<Longrightarrow> nlmsg_align n = n"
  by (auto simp: rta_align_def nlmsg_align_def)

section \<open>Field access\<close>

definition put8 :: "bytes \<Rightarrow> nat \<Rightarrow> nat \<Rightarrow> bytes option" where
  "put8 buf off n = wr buf off [word_of_nat n]"

definition put16 :: "bytes \<Rightarrow> nat \<Rightarrow> nat \<Rightarrow> bytes option" where
  "put16 buf off n = wr buf off (le16 n)"

definition put32 :: "bytes \<Rightarrow> nat \<Rightarrow> nat \<Rightarrow> bytes option" where
  "put32 buf off n = wr buf off (le32 n)"

definition put32i :: "bytes \<Rightarrow> nat \<Rightarrow> int \<Rightarrow> bytes option" where
  "put32i buf off i = wr buf off (le32_int i)"

definition get16 :: "bytes \<Rightarrow> nat \<Rightarrow> nat option" where
  "get16 buf off = map_option of_le (rd buf off 2)"

definition get32 :: "bytes \<Rightarrow> nat \<Rightarrow> nat option" where
  "get32 buf off = map_option of_le (rd buf off 4)"

definition get32i :: "bytes \<Rightarrow> nat \<Rightarrow> int option" where
  "get32i buf off = map_option int_of_le32 (rd buf off 4)"

lemmas field_defs = put8_def put16_def put32_def put32i_def get16_def get32_def get32i_def wr_def rd_def

section \<open>Building messages\<close>

text \<open>The netlink header of a request: length, type, flags, sequence number at offsets 0, 4, 6
  and 8 of the zeroed structure.\<close>

definition nl_header :: "nat \<Rightarrow> nat \<Rightarrow> nat \<Rightarrow> nat \<Rightarrow> nat \<Rightarrow> bytes option" where
  "nl_header sz len ty flags seq = do {
     req \<leftarrow> put32 (zeros sz) 0 len;
     req \<leftarrow> put16 req 4 ty;
     req \<leftarrow> put16 req 6 flags;
     put32 req 8 seq
   }"

text \<open>\<open>rta->rta_type = ty; rta->rta_len = len;\<close> at offset \<open>off\<close>.\<close>

definition put_rta :: "bytes \<Rightarrow> nat \<Rightarrow> nat \<Rightarrow> nat \<Rightarrow> bytes option" where
  "put_rta req off ty len = do {
     req \<leftarrow> put16 req (off + 2) ty;
     put16 req off len
   }"

text \<open>The same with \<open>RTA_LENGTH\<close> of a payload, and \<open>memcpy(RTA_DATA(rta), payload, ...)\<close>.\<close>

definition put_attr :: "bytes \<Rightarrow> nat \<Rightarrow> nat \<Rightarrow> bytes \<Rightarrow> bytes option" where
  "put_attr req off ty payload = do {
     req \<leftarrow> put_rta req off ty (rta_length (length payload));
     wr req (off + 4) payload
   }"

text \<open>\<open>req.h.nlmsg_len += RTA_ALIGN(rta->rta_len)\<close> and \<open>outer->rta_len += RTA_ALIGN(inner->rta_len)\<close>.\<close>

definition grow_msg :: "bytes \<Rightarrow> nat \<Rightarrow> bytes option" where
  "grow_msg req rta = do {
     len \<leftarrow> get32 req 0;
     l \<leftarrow> get16 req rta;
     put32 req 0 (len + rta_align l)
   }"

definition grow_rta :: "bytes \<Rightarrow> nat \<Rightarrow> nat \<Rightarrow> bytes option" where
  "grow_rta req outer inner = do {
     len \<leftarrow> get16 req outer;
     l \<leftarrow> get16 req inner;
     put16 req outer (len + rta_align l)
   }"

text \<open>\<open>(char *)&req + NLMSG_ALIGN(req.h.nlmsg_len)\<close>.\<close>

definition msg_tail :: "bytes \<Rightarrow> nat option" where
  "msg_tail req = map_option nlmsg_align (get32 req 0)"

definition veth_request :: "string \<Rightarrow> string \<Rightarrow> bytes option" where
  "veth_request name1 name2 = do {
     req \<leftarrow> nl_header 288 (nlmsg_length 16) RTM_NEWLINK
              (NLM_F_REQUEST + NLM_F_CREATE + NLM_F_EXCL + NLM_F_ACK) 1;
     iname \<leftarrow> msg_tail req;
     req \<leftarrow> put_attr req iname IFLA_IFNAME (cstring name1);
     req \<leftarrow> grow_msg req iname;
     li \<leftarrow> msg_tail req;
     req \<leftarrow> put_rta req li IFLA_LINKINFO (rta_length 0);
     let kind = li + rta_length 0;
     req \<leftarrow> put_attr req kind IFLA_INFO_KIND (bytes_of_string ''veth'');
     li_len \<leftarrow> get16 req li;
     kind_len \<leftarrow> get16 req kind;
     req \<leftarrow> put16 req li (li_len + kind_len);
     li_len \<leftarrow> get16 req li;
     let data = li + rta_align li_len;
     req \<leftarrow> put_rta req data IFLA_INFO_DATA (rta_length 0);
     let peer = data + rta_length 0;
     req \<leftarrow> put_rta req peer VETH_INFO_PEER (rta_length 16);
     req \<leftarrow> wr req (peer + 4) (zeros 16);
     let pname = peer + 4 + 16;
     req \<leftarrow> put_attr req pname IFLA_IFNAME (cstring name2);
     req \<leftarrow> grow_rta req peer pname;
     req \<leftarrow> grow_rta req data peer;
     req \<leftarrow> grow_rta req li data;
     grow_msg req li
   }"

definition set_up_request :: "int \<Rightarrow> bytes option" where
  "set_up_request idx = do {
     req \<leftarrow> nl_header 32 (nlmsg_length 16) RTM_NEWLINK (NLM_F_REQUEST + NLM_F_ACK) 2;
     req \<leftarrow> put32i req 20 idx;
     req \<leftarrow> put32 req 28 IFF_UP;
     put32 req 24 IFF_UP
   }"

definition addr_request :: "int \<Rightarrow> bytes \<Rightarrow> nat \<Rightarrow> bytes option" where
  "addr_request idx ip plen = do {
     req \<leftarrow> nl_header 88 (nlmsg_length 8) RTM_NEWADDR
              (NLM_F_REQUEST + NLM_F_CREATE + NLM_F_REPLACE + NLM_F_ACK) 3;
     req \<leftarrow> put32i req 20 idx;
     req \<leftarrow> put8 req 16 AF_INET;
     req \<leftarrow> put8 req 17 plen;
     req \<leftarrow> put8 req 19 RT_SCOPE_UNIVERSE;
     rta \<leftarrow> msg_tail req;
     req \<leftarrow> put_attr req rta IFA_LOCAL ip;
     req \<leftarrow> grow_msg req rta;
     rta \<leftarrow> msg_tail req;
     req \<leftarrow> put_attr req rta IFA_ADDRESS ip;
     grow_msg req rta
   }"

definition del_request :: "int \<Rightarrow> bytes option" where
  "del_request idx = do {
     req \<leftarrow> nl_header 32 (nlmsg_length 16) RTM_DELLINK NLM_F_REQUEST 4;
     put32i req 20 idx
   }"

text \<open>The route message: the fixed part with destination and scope, then the attributes appended
  at a running pointer \<open>p\<close>, and the final length.\<close>

definition route_header :: "nat \<Rightarrow> nat \<Rightarrow> bytes option" where
  "route_header dst_plen scope = do {
     req \<leftarrow> nl_header 540 (nlmsg_length 12) RTM_NEWROUTE
              (NLM_F_REQUEST + NLM_F_CREATE + NLM_F_EXCL + NLM_F_ACK) 5;
     req \<leftarrow> put8 req 16 AF_INET;
     req \<leftarrow> put8 req 20 RT_TABLE_MAIN;
     req \<leftarrow> put8 req 21 RTPROT_STATIC;
     req \<leftarrow> put8 req 23 RTN_UNICAST;
     req \<leftarrow> put8 req 17 dst_plen;
     put8 req 22 scope
   }"

definition route_attr :: "nat \<Rightarrow> bytes \<Rightarrow> bytes \<times> nat \<Rightarrow> (bytes \<times> nat) option" where
  "route_attr ty payload s = (case s of (req, p) \<Rightarrow> do {
     req \<leftarrow> put_attr req p ty payload;
     l \<leftarrow> get16 req p;
     Some (req, p + rta_align l)
   })"

definition route_finish :: "bytes \<times> nat \<Rightarrow> bytes option" where
  "route_finish s = (case s of (req, p) \<Rightarrow> put32 req 0 p)"

definition move_request :: "int \<Rightarrow> int \<Rightarrow> bytes option" where
  "move_request idx ns_fd = do {
     req \<leftarrow> nl_header 96 (nlmsg_length 16) RTM_NEWLINK (NLM_F_REQUEST + NLM_F_ACK) 6;
     req \<leftarrow> put32i req 20 idx;
     rta \<leftarrow> msg_tail req;
     req \<leftarrow> put_attr req rta IFLA_NET_NS_FD (le32_int ns_fd);
     grow_msg req rta
   }"

definition rename_request :: "int \<Rightarrow> string \<Rightarrow> bytes option" where
  "rename_request idx newname = do {
     req \<leftarrow> nl_header 96 (nlmsg_length 16) RTM_NEWLINK (NLM_F_REQUEST + NLM_F_ACK) 7;
     req \<leftarrow> put32i req 20 idx;
     rta \<leftarrow> msg_tail req;
     req \<leftarrow> put_attr req rta IFLA_IFNAME (cstring newname);
     grow_msg req rta
   }"

section \<open>The receiving side of a message\<close>

record nl_msg_header =
  nh_len :: nat
  nh_type :: nat
  nh_flags :: nat
  nh_seq :: nat

definition read_header :: "bytes \<Rightarrow> nl_msg_header option" where
  "read_header buf = do {
     len \<leftarrow> get32 buf 0;
     ty \<leftarrow> get16 buf 4;
     flags \<leftarrow> get16 buf 6;
     seq \<leftarrow> get32 buf 8;
     Some \<lparr>nh_len = len, nh_type = ty, nh_flags = flags, nh_seq = seq\<rparr>
   }"

text \<open>
  The attributes between two offsets, as \<open>RTA_OK\<close> and \<open>RTA_NEXT\<close> walk them: type and payload.
  A length below the attribute header or past the end is an error.
\<close>

function read_attrs :: "bytes \<Rightarrow> nat \<Rightarrow> nat \<Rightarrow> (nat \<times> bytes) list option" where
  "read_attrs buf off stop =
     (if stop < off + 4 then Some []
      else let l = of_le (slice off 2 buf); ty = of_le (slice (off + 2) 2 buf) in
        if l < 4 \<or> stop < off + l then None
        else map_option ((#) (ty, slice (off + 4) (l - 4) buf)) (read_attrs buf (off + rta_align l) stop))"
  by pat_completeness auto
termination
proof (relation "measure (\<lambda>(buf, off, stop). stop - off)", goal_cases)
  case 1
  then show ?case by simp
next
  case (2 buf off stop l ty)
  then show ?case using align_ge(1) [of l] by auto
qed

declare read_attrs.simps [simp del]

lemma read_attrs_end: "stop < off + 4 \<Longrightarrow> read_attrs buf off stop = Some []"
  by (simp add: read_attrs.simps)

lemma read_attrs_step:
  assumes "slice off 2 buf = le16 l" and "slice (off + 2) 2 buf = le16 ty"
    and "4 \<le> l" and "l < 65536" and "ty < 65536" and "off + l \<le> stop"
  shows "read_attrs buf off stop =
    map_option ((#) (ty, slice (off + 4) (l - 4) buf)) (read_attrs buf (off + rta_align l) stop)"
  using assms by (subst read_attrs.simps) (simp add: Let_def)

text \<open>An attribute list inside a payload is a message of its own.\<close>

definition nested :: "bytes \<Rightarrow> (nat \<times> bytes) list option" where
  "nested payload = read_attrs payload 0 (length payload)"

section \<open>Layout of the built messages\<close>

lemma nl_header_Some:
  "16 \<le> sz \<Longrightarrow> nl_header sz len ty flags seq =
     Some (splice (splice (splice (splice (zeros sz) 0 (le32 len)) 4 (le16 ty)) 6 (le16 flags)) 8 (le32 seq))"
  by (simp add: nl_header_def field_defs)

text \<open>Writing an attribute, and what it leaves at each place.\<close>

lemma put_attr_Some:
  "off + 4 + length pl \<le> length req \<Longrightarrow>
   put_attr req off ty pl =
     Some (splice (splice (splice req (off + 2) (le16 ty)) off (le16 (4 + length pl))) (off + 4) pl)"
  by (simp add: put_attr_def put_rta_def field_defs rta_length_def)

lemma put_attr_None:
  "length req < off + 4 + length pl \<Longrightarrow> put_attr req off ty pl = None"
  by (auto simp: put_attr_def put_rta_def field_defs rta_length_def)

lemma put_rta_Some:
  "off + 4 \<le> length req \<Longrightarrow>
   put_rta req off ty len = Some (splice (splice req (off + 2) (le16 ty)) off (le16 len))"
  by (simp add: put_rta_def field_defs)

lemma get16_Some:
  "slice off 2 req = le16 n \<Longrightarrow> n < 65536 \<Longrightarrow> off + 2 \<le> length req \<Longrightarrow> get16 req off = Some n"
  by (simp add: field_defs)

lemma get32_Some:
  "slice off 4 req = le32 n \<Longrightarrow> n < 2 ^ 32 \<Longrightarrow> off + 4 \<le> length req \<Longrightarrow> get32 req off = Some n"
  by (simp add: field_defs del: of_le_le32) (rule of_le_le32, simp)

lemma msg_tail_Some:
  "slice 0 4 req = le32 n \<Longrightarrow> n < 2 ^ 32 \<Longrightarrow> 4 \<le> length req \<Longrightarrow> msg_tail req = Some (nlmsg_align n)"
  by (simp add: msg_tail_def get32_Some)

lemma grow_msg_Some:
  "slice 0 4 req = le32 n \<Longrightarrow> n < 2 ^ 32 \<Longrightarrow> slice off 2 req = le16 l \<Longrightarrow> l < 65536 \<Longrightarrow>
   off + 2 \<le> length req \<Longrightarrow> 4 \<le> length req \<Longrightarrow>
   grow_msg req off = Some (splice req 0 (le32 (n + rta_align l)))"
  by (simp add: grow_msg_def get32_Some get16_Some put32_def wr_def)

lemma grow_rta_Some:
  "slice o1 2 req = le16 n \<Longrightarrow> n < 65536 \<Longrightarrow> slice off 2 req = le16 l \<Longrightarrow> l < 65536 \<Longrightarrow>
   off + 2 \<le> length req \<Longrightarrow> o1 + 2 \<le> length req \<Longrightarrow>
   grow_rta req o1 off = Some (splice req o1 (le16 (n + rta_align l)))"
  by (simp add: grow_rta_def get16_Some put16_def wr_def)

lemmas build_steps = nl_header_Some put_attr_Some put_rta_Some get16_Some get32_Some
  msg_tail_Some grow_msg_Some grow_rta_Some

lemma put_rta_None: "length req < off + 4 \<Longrightarrow> put_rta req off ty len = None"
  by (auto simp: put_rta_def field_defs)

lemmas build_fails = put_attr_None put_rta_None

lemma align_values [simp]:
  "nlmsg_align 24 = 24" "nlmsg_align 28 = 28" "nlmsg_align 32 = 32" "rta_align 8 = 8" "rta_align 12 = 12"
  "nlmsg_length 8 = 24" "nlmsg_length 12 = 28" "nlmsg_length 16 = 32" "rta_length 0 = 4" "rta_length 16 = 20"
  by (simp_all add: nlmsg_align_def rta_align_def nlmsg_length_def rta_length_def)

lemma align_add:
  "4 dvd m \<Longrightarrow> 4 dvd x \<Longrightarrow> nlmsg_align (m + x) = m + x"
  "4 dvd m \<Longrightarrow> 4 dvd x \<Longrightarrow> rta_align (m + x) = m + x"
  by (simp_all add: align_id)

lemma read_header_Some:
  "12 \<le> length buf \<Longrightarrow> slice 0 4 buf = le32 len \<Longrightarrow> slice 4 2 buf = le16 ty \<Longrightarrow>
   slice 6 2 buf = le16 fl \<Longrightarrow> slice 8 4 buf = le32 seq \<Longrightarrow>
   len < 2 ^ 32 \<Longrightarrow> ty < 65536 \<Longrightarrow> fl < 65536 \<Longrightarrow> seq < 2 ^ 32 \<Longrightarrow>
   read_header buf = Some \<lparr>nh_len = len, nh_type = ty, nh_flags = fl, nh_seq = seq\<rparr>"
  by (simp add: read_header_def get32_Some get16_Some)

text \<open>The padded size of an interface name attribute.\<close>

definition name_space :: "string \<Rightarrow> nat" where
  "name_space n = rta_align (length n + 5)"

lemma name_space_facts:
  "length n + 5 \<le> name_space n" "name_space n < length n + 9" "4 dvd name_space n"
  "rta_align (5 + length n) = name_space n"
  "rta_align (Suc (Suc (Suc (Suc (Suc (length n)))))) = name_space n"
proof -
  have "Suc (Suc (Suc (Suc (Suc (length n))))) = length n + 5" by simp
  then show "rta_align (Suc (Suc (Suc (Suc (Suc (length n)))))) = name_space n"
    by (simp only: name_space_def)
  show "rta_align (5 + length n) = name_space n" by (simp add: name_space_def add.commute)
  show "length n + 5 \<le> name_space n" "name_space n < length n + 9" "4 dvd name_space n"
    using align_ge(1) [of "length n + 5"] align_lt(1) [of "length n + 5"] by (simp_all add: name_space_def)
qed

subsection \<open>The veth request\<close>

text \<open>The two names fit the 256 bytes that \<open>nl_create_veth\<close> reserves behind the headers.\<close>

definition veth_fits :: "string \<Rightarrow> string \<Rightarrow> bool" where
  "veth_fits name1 name2 \<longleftrightarrow> rta_align (length name1 + 5) + length name2 + 73 \<le> 288"

lemma veth_fits_space: "veth_fits n1 n2 \<longleftrightarrow> name_space n1 + length n2 + 73 \<le> 288"
  by (simp add: veth_fits_def name_space_def)

lemma veth_space: "veth_fits n1 n2 \<Longrightarrow> name_space n1 + name_space n2 \<le> 220"
proof -
  assume "veth_fits n1 n2"
  then have f: "name_space n1 + length n2 + 73 \<le> 288" by (simp add: veth_fits_space)
  obtain j k where "name_space n1 = 4 * j" "name_space n2 = 4 * k"
    using name_space_facts(3) unfolding dvd_def by blast
  moreover from this have "4 * (j + k) < 4 * 56" using f name_space_facts(2) [of n2] by simp
  then have "j + k \<le> 55" by simp
  ultimately show ?thesis by simp
qed

lemma veth_layout_header:
  assumes "veth_fits n1 n2" and "veth_request n1 n2 = Some buf"
  shows "length buf = 288 \<and> slice 0 4 buf = le32 (68 + (name_space n1 + name_space n2)) \<and>
    slice 4 2 buf = le16 RTM_NEWLINK \<and> slice 6 2 buf = le16 1541 \<and> slice 8 4 buf = le32 1 \<and>
    slice 16 16 buf = zeros 16 \<and> slice 32 2 buf = le16 (5 + length n1) \<and>
    slice 34 2 buf = le16 IFLA_IFNAME \<and> slice 36 (Suc (length n1)) buf = cstring n1"
  using assms(2) assms(1) [unfolded veth_fits_space] name_space_facts [of n1] name_space_facts [of n2]
  unfolding veth_request_def
  by (auto simp: build_steps Let_def align_add put16_def wr_def)

lemma veth_layout_linkinfo:
  assumes "veth_fits n1 n2" and "veth_request n1 n2 = Some buf"
  shows "slice (32 + name_space n1) 2 buf = le16 (36 + name_space n2) \<and>
    slice (34 + name_space n1) 2 buf = le16 IFLA_LINKINFO \<and>
    slice (36 + name_space n1) 2 buf = le16 8 \<and> slice (38 + name_space n1) 2 buf = le16 IFLA_INFO_KIND \<and>
    slice (40 + name_space n1) 4 buf = bytes_of_string ''veth'' \<and>
    slice (44 + name_space n1) 2 buf = le16 (24 + name_space n2) \<and>
    slice (46 + name_space n1) 2 buf = le16 IFLA_INFO_DATA"
  using assms(2) assms(1) [unfolded veth_fits_space] name_space_facts [of n1] name_space_facts [of n2]
  unfolding veth_request_def
  by (auto simp: build_steps Let_def align_add put16_def wr_def)

lemma veth_layout_peer:
  assumes "veth_fits n1 n2" and "veth_request n1 n2 = Some buf"
  shows "slice (48 + name_space n1) 2 buf = le16 (20 + name_space n2) \<and>
    slice (50 + name_space n1) 2 buf = le16 VETH_INFO_PEER \<and>
    slice (52 + name_space n1) 16 buf = zeros 16 \<and>
    slice (68 + name_space n1) 2 buf = le16 (5 + length n2) \<and>
    slice (70 + name_space n1) 2 buf = le16 IFLA_IFNAME \<and>
    slice (72 + name_space n1) (Suc (length n2)) buf = cstring n2"
  using assms(2) assms(1) [unfolded veth_fits_space] name_space_facts [of n1] name_space_facts [of n2]
  unfolding veth_request_def
  by (auto simp: build_steps Let_def align_add put16_def wr_def)

lemma veth_request_defined: "veth_request n1 n2 = None \<longleftrightarrow> \<not> veth_fits n1 n2"
proof -
  note facts = name_space_facts [of n1] name_space_facts [of n2]
  consider (ok) "name_space n1 + length n2 + 73 \<le> 288" | (n1) "251 < length n1"
    | (rest) "length n1 \<le> 251" "288 < name_space n1 + length n2 + 73"
    by linarith
  then show ?thesis
  proof cases
    case ok
    then show ?thesis using facts unfolding veth_fits_space veth_request_def
      by (simp add: build_steps Let_def align_add put16_def wr_def)
  next
    case n1
    then show ?thesis using facts unfolding veth_fits_space veth_request_def
      by (simp add: build_steps build_fails)
  next
    case rest
    consider "288 < 36 + name_space n1" | "name_space n1 + 36 \<le> 288" "288 < 44 + name_space n1"
      | "name_space n1 + 44 \<le> 288" "288 < 48 + name_space n1"
      | "name_space n1 + 48 \<le> 288" "288 < 52 + name_space n1"
      | "name_space n1 + 52 \<le> 288" "288 < 68 + name_space n1"
      | "name_space n1 + 68 \<le> 288" by linarith
    then have "veth_request n1 n2 = None"
      using facts rest unfolding veth_request_def
      by cases (simp_all add: build_steps Let_def align_add put16_def wr_def build_fails)
    then show ?thesis using rest by (simp add: veth_fits_space)
  qed
qed

text \<open>What the kernel reads out of a veth request: the name of this end, the link kind and the name
  of the peer, each from its place in the attribute tree.\<close>

definition cstring_content :: "bytes \<Rightarrow> string" where
  "cstring_content bs = string_of_bytes (takeWhile (\<lambda>b. b \<noteq> 0) bs)"

definition decode_veth :: "bytes \<Rightarrow> (string \<times> string \<times> string) option" where
  "decode_veth buf = do {
     h \<leftarrow> read_header buf;
     attrs \<leftarrow> read_attrs buf 32 (nh_len h);
     name \<leftarrow> map_of attrs IFLA_IFNAME;
     link \<leftarrow> map_of attrs IFLA_LINKINFO;
     info \<leftarrow> nested link;
     kind \<leftarrow> map_of info IFLA_INFO_KIND;
     data \<leftarrow> map_of info IFLA_INFO_DATA;
     dattrs \<leftarrow> nested data;
     peer \<leftarrow> map_of dattrs VETH_INFO_PEER;
     pattrs \<leftarrow> read_attrs peer 16 (length peer);
     pname \<leftarrow> map_of pattrs IFLA_IFNAME;
     Some (cstring_content name, cstring_content kind, cstring_content pname)
   }"

definition no_nul :: "string \<Rightarrow> bool" where
  "no_nul s \<longleftrightarrow> 0 \<notin> set (bytes_of_string s)"

lemma no_nul_bytes: "no_nul s \<Longrightarrow> b \<in> set (bytes_of_string s) \<Longrightarrow> b \<noteq> 0"
  by (auto simp: no_nul_def)

lemma cstring_content_cstring: "no_nul s \<Longrightarrow> cstring_content (cstring s) = s"
  by (simp add: cstring_content_def cstring_def takeWhile_append no_nul_bytes)

lemma cstring_content_bytes: "no_nul s \<Longrightarrow> cstring_content (bytes_of_string s) = s"
proof -
  assume n: "no_nul s"
  have "takeWhile (\<lambda>b. b \<noteq> 0) (bytes_of_string s) = bytes_of_string s"
    using no_nul_bytes [OF n] by (simp add: takeWhile_eq_all_conv)
  then show ?thesis by (simp only: cstring_content_def string_of_bytes_of_string)
qed

text \<open>Reading attributes of a slice is reading them in the buffer it was taken from.\<close>

lemma read_attrs_slice:
  "read_attrs (slice base n buf) off n = read_attrs buf (base + off) (base + n)"
proof (induction "slice base n buf" off n rule: read_attrs.induct)
  case (1 off stop)
  show ?case
  proof (cases "stop < off + 4")
    case True
    then show ?thesis by (simp add: read_attrs.simps)
  next
    case False
    have s: "slice off 2 (slice base stop buf) = slice (base + off) 2 buf"
      "slice (off + 2) 2 (slice base stop buf) = slice (base + off + 2) 2 buf"
      using False by (simp_all add: slice_slice add.assoc)
    let ?l = "of_le (slice (base + off) 2 buf)"
    show ?thesis
    proof (cases "?l < 4 \<or> stop < off + ?l")
      case True
      then show ?thesis using False
        by (subst (1 2) read_attrs.simps) (auto simp: Let_def s)
    next
      case b: False
      have "slice (off + 4) (?l - 4) (slice base stop buf) = slice (base + off + 4) (?l - 4) buf"
        using b by (subst slice_slice) (auto simp: add.assoc)
      moreover have "read_attrs (slice base stop buf) (off + rta_align ?l) stop =
          read_attrs buf (base + (off + rta_align ?l)) (base + stop)"
        using 1 False b s by (simp add: s)
      ultimately show ?thesis using False b
        by (subst (1 2) read_attrs.simps)
            (simp add: Let_def s add.assoc del: add_2_eq_Suc add_2_eq_Suc')
    qed
  qed
qed


text \<open>The walk over a nested attribute list.\<close>

lemma nested_slice: "length (slice base n buf) = n \<Longrightarrow> nested (slice base n buf) = read_attrs buf base (base + n)"
  using read_attrs_slice [of base n buf 0] by (simp add: nested_def)

lemma decode_veth_request:
  assumes req: "veth_request n1 n2 = Some buf" and nul: "no_nul n1" "no_nul n2"
  shows "decode_veth buf = Some (n1, ''veth'', n2)"
proof -
  have fits: "veth_fits n1 n2" using req veth_request_defined [of n1 n2] by auto
  note h = veth_layout_header [OF fits req] and l = veth_layout_linkinfo [OF fits req]
    and p = veth_layout_peer [OF fits req]
  let ?a = "name_space n1" and ?b = "name_space n2"
  note facts = name_space_facts [of n1] name_space_facts [of n2]
  have f: "?a + length n2 + 73 \<le> 288" using fits by (simp add: veth_fits_space)
  have ab: "?a + ?b \<le> 220" using fits by (rule veth_space)
  have hdr: "read_header buf = Some \<lparr>nh_len = 68 + (?a + ?b), nh_type = RTM_NEWLINK, nh_flags = 1541, nh_seq = 1\<rparr>"
    using h facts f by (intro read_header_Some) simp_all
  define link data peer where "link = slice (36 + ?a) (32 + ?b) buf"
    and "data = slice (48 + ?a) (20 + ?b) buf" and "peer = slice (52 + ?a) (16 + ?b) buf"
  have len: "length link = 32 + ?b" "length data = 20 + ?b" "length peer = 16 + ?b"
    using h ab by (simp_all add: link_def data_def peer_def)
  have "read_attrs buf (32 + ?a) (68 + (?a + ?b)) = Some [(IFLA_LINKINFO, link)]"
    using l facts f
    by (subst read_attrs_step [where l = "36 + ?b" and ty = IFLA_LINKINFO])
      (simp_all add: align_add read_attrs_end link_def)
  then have top: "read_attrs buf 32 (68 + (?a + ?b)) = Some [(IFLA_IFNAME, cstring n1), (IFLA_LINKINFO, link)]"
    using h facts f
    by (subst read_attrs_step [where l = "5 + length n1" and ty = IFLA_IFNAME]) simp_all
  have "read_attrs buf (44 + ?a) (68 + (?a + ?b)) = Some [(IFLA_INFO_DATA, data)]"
    using l facts f
    by (subst read_attrs_step [where l = "24 + ?b" and ty = IFLA_INFO_DATA])
      (simp_all add: align_add read_attrs_end data_def)
  then have "read_attrs buf (36 + ?a) (68 + (?a + ?b)) =
      Some [(IFLA_INFO_KIND, bytes_of_string ''veth''), (IFLA_INFO_DATA, data)]"
    using l facts f
    by (subst read_attrs_step [where l = 8 and ty = IFLA_INFO_KIND]) simp_all
  then have info: "nested link = Some [(IFLA_INFO_KIND, bytes_of_string ''veth''), (IFLA_INFO_DATA, data)]"
    using len(1) unfolding link_def by (simp add: nested_slice add.assoc add.left_commute)
  have "read_attrs buf (48 + ?a) (68 + (?a + ?b)) = Some [(VETH_INFO_PEER, peer)]"
    using p facts f
    by (subst read_attrs_step [where l = "20 + ?b" and ty = VETH_INFO_PEER])
      (simp_all add: align_add read_attrs_end peer_def)
  then have dat: "nested data = Some [(VETH_INFO_PEER, peer)]"
    using len(2) unfolding data_def by (simp add: nested_slice add.assoc add.left_commute)
  have "read_attrs buf (68 + ?a) (68 + (?a + ?b)) = Some [(IFLA_IFNAME, cstring n2)]"
    using p facts f
    by (subst read_attrs_step [where l = "5 + length n2" and ty = IFLA_IFNAME])
      (simp_all add: read_attrs_end)
  then have pat: "read_attrs peer 16 (length peer) = Some [(IFLA_IFNAME, cstring n2)]"
    using read_attrs_slice [of "52 + ?a" "16 + ?b" buf 16] len(3)
    unfolding peer_def by (simp add: add.assoc add.left_commute add.commute)
  have "no_nul ''veth''" by (simp add: no_nul_def bytes_of_string_def)
  then show ?thesis
    using hdr top info dat pat nul
    by (simp add: decode_veth_def cstring_content_cstring cstring_content_bytes)
qed


subsection \<open>The other requests\<close>

text \<open>The header of a message and its attributes behind a fixed part that ends at \<open>off\<close>.\<close>

definition decode_msg :: "nat \<Rightarrow> bytes \<Rightarrow> (nl_msg_header \<times> (nat \<times> bytes) list) option" where
  "decode_msg off buf = do {
     h \<leftarrow> read_header buf;
     attrs \<leftarrow> read_attrs buf off (nh_len h);
     Some (h, attrs)
   }"

lemma slice_add: "slice off (m + n) buf = slice off m buf @ slice (off + m) n buf"
  by (simp add: slice_def take_add add.commute)

lemma rd_four:
  assumes "off + 4 \<le> length buf" and "slice off 1 buf = [a]" and "slice (off + 1) 1 buf = [b]"
    and "slice (off + 2) 1 buf = [c]" and "slice (off + 3) 1 buf = [d]"
  shows "rd buf off 4 = Some [a, b, c, d]"
proof -
  have "slice off (1 + (1 + (1 + 1))) buf =
      slice off 1 buf @ slice (off + 1) 1 buf @ slice (off + 2) 1 buf @ slice (off + 3) 1 buf"
    unfolding slice_add by (simp add: numeral_eq_Suc)
  then show ?thesis using assms by (simp add: rd_def numeral_eq_Suc)
qed

lemma get32i_Some:
  "slice off 4 buf = le32_int i \<Longrightarrow> - (2 ^ 31) \<le> i \<Longrightarrow> i < 2 ^ 31 \<Longrightarrow> off + 4 \<le> length buf \<Longrightarrow>
   get32i buf off = Some i"
  by (simp add: get32i_def rd_def)

definition int32 :: "int \<Rightarrow> bool" where
  "int32 i \<longleftrightarrow> - (2 ^ 31) \<le> i \<and> i < 2 ^ 31"

lemma set_up_request_layout:
  assumes "int32 idx"
  shows "\<exists>buf. set_up_request idx = Some buf \<and> length buf = 32 \<and>
    decode_msg 32 buf = Some (\<lparr>nh_len = 32, nh_type = RTM_NEWLINK, nh_flags = 5, nh_seq = 2\<rparr>, []) \<and>
    get32i buf 20 = Some idx \<and> get32 buf 24 = Some IFF_UP \<and> get32 buf 28 = Some IFF_UP"
proof -
  obtain buf where b: "set_up_request idx = Some buf"
    by (simp add: set_up_request_def build_steps put32_def put32i_def wr_def)
  then have "length buf = 32 \<and> slice 0 4 buf = le32 32 \<and> slice 4 2 buf = le16 RTM_NEWLINK \<and>
      slice 6 2 buf = le16 5 \<and> slice 8 4 buf = le32 2 \<and> slice 20 4 buf = le32_int idx \<and>
      slice 24 4 buf = le32 IFF_UP \<and> slice 28 4 buf = le32 IFF_UP"
    by (auto simp: set_up_request_def build_steps put32_def put32i_def wr_def)
  then show ?thesis using b assms
    by (simp add: decode_msg_def read_header_Some read_attrs_end get32i_Some get32_Some int32_def)
qed

lemma del_request_layout:
  assumes "int32 idx"
  shows "\<exists>buf. del_request idx = Some buf \<and> length buf = 32 \<and>
    decode_msg 32 buf = Some (\<lparr>nh_len = 32, nh_type = RTM_DELLINK, nh_flags = NLM_F_REQUEST, nh_seq = 4\<rparr>, []) \<and>
    get32i buf 20 = Some idx"
proof -
  obtain buf where b: "del_request idx = Some buf"
    by (simp add: del_request_def build_steps put32i_def wr_def)
  then have "length buf = 32 \<and> slice 0 4 buf = le32 32 \<and> slice 4 2 buf = le16 RTM_DELLINK \<and>
      slice 6 2 buf = le16 1 \<and> slice 8 4 buf = le32 4 \<and> slice 20 4 buf = le32_int idx"
    by (auto simp: del_request_def build_steps put32i_def wr_def)
  then show ?thesis using b assms
    by (simp add: decode_msg_def read_header_Some read_attrs_end get32i_Some int32_def)
qed

lemma addr_request_layout:
  assumes "int32 idx" and ip: "length ip = 4"
  shows "\<exists>buf. addr_request idx ip plen = Some buf \<and> length buf = 88 \<and>
    decode_msg 24 buf = Some (\<lparr>nh_len = 40, nh_type = RTM_NEWADDR, nh_flags = 1285, nh_seq = 3\<rparr>,
      [(IFA_LOCAL, ip), (IFA_ADDRESS, ip)]) \<and>
    rd buf 16 4 = Some [2, word_of_nat plen, 0, 0] \<and> get32i buf 20 = Some idx"
proof -
  obtain buf where b: "addr_request idx ip plen = Some buf"
    using ip by (simp add: addr_request_def build_steps put8_def put32i_def wr_def)
  have l: "length buf = 88 \<and> slice 0 4 buf = le32 40 \<and> slice 4 2 buf = le16 RTM_NEWADDR \<and>
      slice 6 2 buf = le16 1285 \<and> slice 8 4 buf = le32 3 \<and> slice 20 4 buf = le32_int idx \<and>
      slice 24 2 buf = le16 8 \<and> slice 26 2 buf = le16 IFA_LOCAL \<and> slice 28 4 buf = ip \<and>
      slice 32 2 buf = le16 8 \<and> slice 34 2 buf = le16 IFA_ADDRESS \<and> slice 36 4 buf = ip"
    using b ip by (auto simp: addr_request_def build_steps put8_def put32i_def wr_def)
  moreover have "slice 16 1 buf = [2] \<and> slice 17 1 buf = [word_of_nat plen] \<and> slice 18 1 buf = [0] \<and> slice 19 1 buf = [0]"
    using b ip by (auto simp: addr_request_def build_steps put8_def put32i_def wr_def)
  moreover have "read_attrs buf 32 40 = Some [(IFA_ADDRESS, ip)]"
    using l by (subst read_attrs_step [where l = 8 and ty = IFA_ADDRESS]) (simp_all add: read_attrs_end)
  then have "read_attrs buf 24 40 = Some [(IFA_LOCAL, ip), (IFA_ADDRESS, ip)]"
    using l by (subst read_attrs_step [where l = 8 and ty = IFA_LOCAL]) simp_all
  ultimately show ?thesis using b assms
    by (simp add: decode_msg_def read_header_Some get32i_Some rd_four int32_def)
qed

lemma move_request_layout:
  assumes "int32 idx"
  shows "\<exists>buf. move_request idx ns_fd = Some buf \<and> length buf = 96 \<and>
    decode_msg 32 buf = Some (\<lparr>nh_len = 40, nh_type = RTM_NEWLINK, nh_flags = 5, nh_seq = 6\<rparr>,
      [(IFLA_NET_NS_FD, le32_int ns_fd)]) \<and> get32i buf 20 = Some idx"
proof -
  obtain buf where b: "move_request idx ns_fd = Some buf"
    by (simp add: move_request_def build_steps put32i_def wr_def)
  then have l: "length buf = 96 \<and> slice 0 4 buf = le32 40 \<and> slice 4 2 buf = le16 RTM_NEWLINK \<and>
      slice 6 2 buf = le16 5 \<and> slice 8 4 buf = le32 6 \<and> slice 20 4 buf = le32_int idx \<and>
      slice 32 2 buf = le16 8 \<and> slice 34 2 buf = le16 IFLA_NET_NS_FD \<and> slice 36 4 buf = le32_int ns_fd"
    by (auto simp: move_request_def build_steps put32i_def wr_def)
  moreover from l have "read_attrs buf 32 40 = Some [(IFLA_NET_NS_FD, le32_int ns_fd)]"
    by (subst read_attrs_step [where l = 8 and ty = IFLA_NET_NS_FD]) (simp_all add: read_attrs_end)
  ultimately show ?thesis using b assms
    by (simp add: decode_msg_def read_header_Some get32i_Some int32_def)
qed

lemma rename_request_layout:
  assumes "int32 idx" and "length newname \<le> 59"
  shows "\<exists>buf. rename_request idx newname = Some buf \<and> length buf = 96 \<and>
    decode_msg 32 buf = Some (\<lparr>nh_len = 32 + name_space newname, nh_type = RTM_NEWLINK, nh_flags = 5, nh_seq = 7\<rparr>,
      [(IFLA_IFNAME, cstring newname)]) \<and> get32i buf 20 = Some idx \<and> 32 + name_space newname \<le> 96"
proof -
  note f = name_space_facts [of newname]
  have sp: "name_space newname \<le> 64"
  proof -
    obtain k where "name_space newname = 4 * k" using f(3) unfolding dvd_def by blast
    moreover from this have "4 * k < 4 * 17" using f(2) assms(2) by linarith
    then have "k \<le> 16" by simp
    ultimately show ?thesis by simp
  qed
  obtain buf where b: "rename_request idx newname = Some buf"
    using assms(2) f by (simp add: rename_request_def build_steps put32i_def wr_def)
  then have l: "length buf = 96 \<and> slice 0 4 buf = le32 (32 + name_space newname) \<and> slice 4 2 buf = le16 RTM_NEWLINK \<and>
      slice 6 2 buf = le16 5 \<and> slice 8 4 buf = le32 7 \<and> slice 20 4 buf = le32_int idx \<and>
      slice 32 2 buf = le16 (5 + length newname) \<and> slice 34 2 buf = le16 IFLA_IFNAME \<and>
      slice 36 (Suc (length newname)) buf = cstring newname"
    using assms(2) f by (auto simp: rename_request_def build_steps put32i_def wr_def)
  moreover from l have "read_attrs buf 32 (32 + name_space newname) = Some [(IFLA_IFNAME, cstring newname)]"
    using f sp assms(2)
    by (subst read_attrs_step [where l = "5 + length newname" and ty = IFLA_IFNAME]) (simp_all add: read_attrs_end)
  ultimately show ?thesis using b assms sp
    by (simp add: decode_msg_def read_header_Some get32i_Some int32_def)
qed

lemma rename_request_None: "59 < length newname \<Longrightarrow> rename_request idx newname = None"
  by (simp add: rename_request_def build_steps build_fails put32i_def wr_def)


text \<open>
  A list of attributes laid out from an offset on, each with its header and padded to four
  bytes; reading such a place gives the list back, and appending one more keeps it.
\<close>

fun attrs_at :: "bytes \<Rightarrow> nat \<Rightarrow> (nat \<times> bytes) list \<Rightarrow> bool" where
  "attrs_at buf off [] = True"
| "attrs_at buf off ((ty, pl) # xs) =
     (slice off 2 buf = le16 (4 + length pl) \<and> slice (off + 2) 2 buf = le16 ty \<and>
      slice (off + 4) (length pl) buf = pl \<and> attrs_at buf (off + rta_align (4 + length pl)) xs)"

definition attrs_size :: "(nat \<times> bytes) list \<Rightarrow> nat" where
  "attrs_size xs = sum_list (map (\<lambda>x. rta_align (4 + length (snd x))) xs)"

lemma attrs_size_simps [simp]:
  "attrs_size [] = 0" "attrs_size ((ty, pl) # xs) = rta_align (4 + length pl) + attrs_size xs"
  "attrs_size (xs @ ys) = attrs_size xs + attrs_size ys"
  by (simp_all add: attrs_size_def)

definition small_attr :: "nat \<times> bytes \<Rightarrow> bool" where
  "small_attr x \<longleftrightarrow> fst x < 65536 \<and> length (snd x) < 65532"

lemma read_attrs_at:
  "attrs_at buf off xs \<Longrightarrow> \<forall>x \<in> set xs. small_attr x \<Longrightarrow> read_attrs buf off (off + attrs_size xs) = Some xs"
proof (induction buf off xs rule: attrs_at.induct)
  case (2 buf off ty pl xs)
  have "off + (4 + length pl) \<le> off + attrs_size ((ty, pl) # xs)"
    using align_ge(1) [of "4 + length pl"] by simp
  then show ?case using 2
    by (subst read_attrs_step [where l = "4 + length pl" and ty = ty])
      (simp_all add: small_attr_def add.assoc)
qed (simp add: read_attrs_end)

lemma attrs_at_append: "attrs_at buf off (xs @ ys) \<longleftrightarrow> attrs_at buf off xs \<and> attrs_at buf (off + attrs_size xs) ys"
  by (induction buf off xs rule: attrs_at.induct) (auto simp: add.assoc)

lemma attrs_at_splice_after:
  "off + attrs_size xs \<le> at \<Longrightarrow> attrs_at (splice buf at new) off xs = attrs_at buf off xs"
proof (induction buf off xs rule: attrs_at.induct)
  case (2 buf off ty pl xs)
  have "off + (4 + length pl) \<le> at" "off + rta_align (4 + length pl) + attrs_size xs \<le> at"
    using align_ge(1) [of "4 + length pl"] 2 by simp_all
  then show ?case using 2 by (simp del: add_2_eq_Suc add_2_eq_Suc')
qed simp

lemma attrs_at_splice_before:
  "at + length new \<le> off \<Longrightarrow> attrs_at (splice buf at new) off xs = attrs_at buf off xs"
proof (induction buf off xs rule: attrs_at.induct)
  case (2 buf off ty pl xs)
  then show ?case by (simp del: add_2_eq_Suc add_2_eq_Suc')
qed simp

text \<open>The route message under construction: the attributes so far stand behind the fixed part.\<close>

definition route_state :: "nat \<Rightarrow> nat \<Rightarrow> (nat \<times> bytes) list \<Rightarrow> bytes \<times> nat \<Rightarrow> bool" where
  "route_state dst_plen scope xs s \<longleftrightarrow> (case s of (req, p) \<Rightarrow>
     length req = 540 \<and> p = 28 + attrs_size xs \<and> slice 4 2 req = le16 RTM_NEWROUTE \<and>
     slice 6 2 req = le16 1541 \<and> slice 8 4 req = le32 5 \<and>
     slice 16 1 req = [2] \<and> slice 17 1 req = [word_of_nat dst_plen] \<and> slice 18 1 req = [0] \<and> slice 19 1 req = [0] \<and>
     slice 20 1 req = [254] \<and> slice 21 1 req = [4] \<and> slice 22 1 req = [word_of_nat scope] \<and> slice 23 1 req = [1] \<and>
     attrs_at req 28 xs)"

lemma route_header_state: "\<exists>req. route_header dst_plen scope = Some req \<and> route_state dst_plen scope [] (req, 28)"
proof -
  obtain req where b: "route_header dst_plen scope = Some req"
    by (simp add: route_header_def build_steps put8_def wr_def)
  then show ?thesis
    by (auto simp: route_state_def route_header_def build_steps put8_def wr_def)
qed

lemma route_attr_state:
  assumes "route_state dst_plen scope xs (req, p)" and "p + 4 + length pl \<le> 540" and "length pl < 65532"
  shows "\<exists>s. route_attr ty pl (req, p) = Some s \<and> route_state dst_plen scope (xs @ [(ty, pl)]) s"
proof -
  have l: "length req = 540" "p = 28 + attrs_size xs" using assms(1) by (auto simp: route_state_def)
  show ?thesis
    using assms l
    by (auto simp: route_attr_def build_steps route_state_def attrs_at_append attrs_at_splice_after
        simp del: add_2_eq_Suc add_2_eq_Suc')
qed

lemma route_finish_decode:
  assumes "route_state dst_plen scope xs (req, p)" and "\<forall>x \<in> set xs. small_attr x" and "p < 2 ^ 32"
  shows "\<exists>buf. route_finish (req, p) = Some buf \<and> length buf = 540 \<and>
    decode_msg 28 buf = Some (\<lparr>nh_len = p, nh_type = RTM_NEWROUTE, nh_flags = 1541, nh_seq = 5\<rparr>, xs) \<and>
    rd buf 16 4 = Some [2, word_of_nat dst_plen, 0, 0] \<and> rd buf 20 4 = Some [254, 4, word_of_nat scope, 1]"
proof -
  define buf where "buf = splice req 0 (le32 p)"
  have b: "length buf = 540" "slice 0 4 buf = le32 p" "slice 4 2 buf = le16 RTM_NEWROUTE"
    "slice 6 2 buf = le16 1541" "slice 8 4 buf = le32 5"
    "rd buf 16 4 = Some [2, word_of_nat dst_plen, 0, 0]" "rd buf 20 4 = Some [254, 4, word_of_nat scope, 1]"
    "attrs_at buf 28 xs" "p = 28 + attrs_size xs"
    using assms(1) unfolding buf_def
    by (auto simp: route_state_def attrs_at_splice_before intro!: rd_four)
  moreover have "route_finish (req, p) = Some buf"
    using assms(1) by (simp add: route_finish_def put32_def wr_def buf_def route_state_def)
  ultimately show ?thesis using assms(2,3) read_attrs_at [OF b(8)]
    by (simp add: decode_msg_def read_header_Some)
qed


section \<open>Properties of the messages\<close>

text \<open>C37: The request that nl_create_veth builds is well nested: for any two interface names that fit
  the 256 spare bytes, what a netlink receiver reads out of the message by walking the attribute
  tree (IFLA_IFNAME, IFLA_LINKINFO, IFLA_INFO_DATA, VETH_INFO_PEER) is the first name, the link kind
  veth and the second name.\<close>

theorem veth_request_roundtrip:
  assumes "veth_fits name1 name2" and "no_nul name1" and "no_nul name2"
  shows "\<exists>buf. veth_request name1 name2 = Some buf \<and> decode_veth buf = Some (name1, ''veth'', name2)"
  using assms veth_request_defined [of name1 name2] decode_veth_request by (cases "veth_request name1 name2") auto

lemma veth_request_roundtrip_witness:
  "\<exists>buf. veth_request ''veth-tmp-k3x9ab'' ''veth-eth0-k3x9a'' = Some buf \<and>
     decode_veth buf = Some (''veth-tmp-k3x9ab'', ''veth'', ''veth-eth0-k3x9a'')"
  by (rule veth_request_roundtrip)
    (simp_all add: veth_fits_def rta_align_def no_nul_def bytes_of_string_def)

text \<open>Nothing in nl_create_veth and nl_rename_link checks the names against the buffers, so the
  builders stay inside the request structure exactly when the names are short enough: the padded
  first name attribute and the second name within 288 bytes, and a new name of at most 59
  characters; a longer name is a write past the structure.\<close>

theorem request_overflow_iff:
  "(veth_request name1 name2 = None \<longleftrightarrow> 288 < rta_align (length name1 + 5) + length name2 + 73) \<and>
   (rename_request idx newname = None \<longleftrightarrow> 59 < length newname)"
proof
  show "veth_request name1 name2 = None \<longleftrightarrow> 288 < rta_align (length name1 + 5) + length name2 + 73"
    by (simp only: veth_request_defined veth_fits_def not_le)
  have "rename_request idx newname \<noteq> None" if "length newname \<le> 59"
    using that name_space_facts [of newname] by (simp add: rename_request_def build_steps put32i_def wr_def)
  then show "rename_request idx newname = None \<longleftrightarrow> 59 < length newname"
    using rename_request_None [of newname idx] by (cases "59 < length newname") auto
qed

text \<open>The address, move and rename requests say what they are for: decoding the built message
  gives the message type, the flags that ask for an acknowledgement, the sequence number, the
  interface index, and exactly the attributes (local and peer address, namespace descriptor, new
  name) with their values.\<close>

theorem request_contents:
  assumes "int32 idx" and "length ip = 4" and "length newname \<le> 59"
  shows "\<exists>b1 b2 b3.
    addr_request idx ip plen = Some b1 \<and> get32i b1 20 = Some idx \<and> rd b1 16 4 = Some [2, word_of_nat plen, 0, 0] \<and>
    decode_msg 24 b1 = Some (\<lparr>nh_len = 40, nh_type = 20, nh_flags = 1285, nh_seq = 3\<rparr>, [(2, ip), (1, ip)]) \<and>
    move_request idx ns_fd = Some b2 \<and> get32i b2 20 = Some idx \<and>
    decode_msg 32 b2 = Some (\<lparr>nh_len = 40, nh_type = 16, nh_flags = 5, nh_seq = 6\<rparr>, [(28, le32_int ns_fd)]) \<and>
    rename_request idx newname = Some b3 \<and> get32i b3 20 = Some idx \<and>
    decode_msg 32 b3 = Some (\<lparr>nh_len = 32 + rta_align (length newname + 5), nh_type = 16, nh_flags = 5, nh_seq = 7\<rparr>,
      [(3, cstring newname)])"
proof -
  obtain b1 where b1: "addr_request idx ip plen = Some b1" "get32i b1 20 = Some idx" "rd b1 16 4 = Some [2, word_of_nat plen, 0, 0]"
      "decode_msg 24 b1 = Some (\<lparr>nh_len = 40, nh_type = 20, nh_flags = 1285, nh_seq = 3\<rparr>, [(2, ip), (1, ip)])"
    using addr_request_layout [OF assms(1,2)] by blast
  obtain b2 where b2: "move_request idx ns_fd = Some b2" "get32i b2 20 = Some idx"
      "decode_msg 32 b2 = Some (\<lparr>nh_len = 40, nh_type = 16, nh_flags = 5, nh_seq = 6\<rparr>, [(28, le32_int ns_fd)])"
    using move_request_layout [OF assms(1)] by blast
  obtain b3 where "rename_request idx newname = Some b3" "get32i b3 20 = Some idx"
      "decode_msg 32 b3 = Some (\<lparr>nh_len = 32 + rta_align (length newname + 5), nh_type = 16, nh_flags = 5, nh_seq = 7\<rparr>,
        [(3, cstring newname)])"
    using rename_request_layout [OF assms(1,3)] unfolding name_space_def by blast
  with b1 b2 show ?thesis by blast
qed

lemma request_contents_witness:
  "\<exists>b. rename_request 7 ''eth0'' = Some b \<and> get32i b 20 = Some 7 \<and>
    decode_msg 32 b = Some (\<lparr>nh_len = 44, nh_type = 16, nh_flags = 5, nh_seq = 7\<rparr>, [(3, cstring ''eth0'')])"
  using request_contents [of 7 "[10, 0, 0, 2]" "''eth0''" 24 5] by (simp add: int32_def rta_align_def) blast

end
