(* ===== verification/Netlink_Ops.thy ===== *)
theory Netlink_Ops
  imports Netlink_Wire
begin

text \<open>
  The operations of \<open>src/netlink.c\<close> as program trees over the socket calls, with the messages
  of \<open>Netlink_Wire\<close>: \<open>nl_socket\<close>, the response walk of \<open>nl_send_recv\<close>, the polling loop, the
  CIDR parser and the seven exported operations.  The lemmas show the response walk as a search
  for the first message that decides, the exact polling behaviour, and the contract
  \<open>nl_op\<close> that every operation meets: no fault, a result of 0 or -1, no descriptor left open.
\<close>

section \<open>The socket\<close>

definition nl_socket :: "int prog" where
  "nl_socket = Sys Socket_netlink (\<lambda>r.
     if rv r < 0 then Ret (-1) else perform (Setsockopt_rcvtimeo (rv r)) (Ret (rv r)))"

section \<open>The response\<close>

text \<open>
  The loop \<open>while (NLMSG_OK(resp, len))\<close> over the 4096-byte buffer: \<open>off\<close> is the position of
  \<open>resp\<close>, \<open>len\<close> the bytes left.  Messages of another sequence number are skipped, an error
  message decides by its code, a message of the expected type or \<open>NLMSG_DONE\<close> is success.
\<close>

function scan_resp :: "bytes \<Rightarrow> nat \<Rightarrow> nat \<Rightarrow> nat \<Rightarrow> int \<Rightarrow> int option" where
  "scan_resp buf seq ty off len =
     (if len < 16 then Some (-1)
      else (case get32 buf off of None \<Rightarrow> None | Some l \<Rightarrow>
        if l < 16 \<or> len < int l then Some (-1)
        else (case get32 buf (off + 8) of None \<Rightarrow> None | Some s \<Rightarrow>
          if s \<noteq> seq then scan_resp buf seq ty (off + nlmsg_align l) (len - int (nlmsg_align l))
          else (case get16 buf (off + 4) of None \<Rightarrow> None | Some m \<Rightarrow>
            if m = NLMSG_ERROR then map_option (\<lambda>e. if e \<noteq> 0 then -1 else 0) (get32i buf (off + 16))
            else if m = ty \<or> m = NLMSG_DONE then Some 0
            else scan_resp buf seq ty (off + nlmsg_align l) (len - int (nlmsg_align l))))))"
  by pat_completeness auto
termination
proof (relation "measure (\<lambda>(buf, seq, ty, off, len). nat len)", goal_cases)
  case 1
  then show ?case by simp
next
  case (2 buf seq ty off len l s)
  then show ?case using align_ge(2) [of l] by auto
next
  case (3 buf seq ty off len l s m)
  then show ?case using align_ge(2) [of l] by auto
qed

declare scan_resp.simps [simp del]

definition nl_send_recv :: "fd \<Rightarrow> bytes \<Rightarrow> nat \<Rightarrow> nat \<Rightarrow> int prog" where
  "nl_send_recv sock req seq ty =
     checked (Option.bind (get32 req 0) (rd req 0)) (\<lambda>msg.
     Sys (Sendmsg sock msg) (\<lambda>r.
       if rv r < 0 then Ret (-1)
       else Sys (Recvmsg sock 4096) (\<lambda>r.
         if rv r < 0 then Ret (-1)
         else checked (scan_resp (rbuf r) seq ty 0 (rv r)) Ret)))"

section \<open>Waiting for an interface\<close>

function wait_loop :: "string \<Rightarrow> nat \<Rightarrow> nat \<Rightarrow> int prog" where
  "wait_loop ifname timeout_ms waited =
     (if waited < timeout_ms then
        Sys (If_nametoindex ifname) (\<lambda>r.
          if rv r \<noteq> 0 then Ret (rv r)
          else perform (Usleep 100000) (wait_loop ifname timeout_ms (waited + 100)))
      else Ret 0)"
  by pat_completeness auto
termination
  by (relation "measure (\<lambda>(ifname, timeout_ms, waited). timeout_ms - waited)") auto

declare wait_loop.simps [simp del]

definition wait_for_interface :: "string \<Rightarrow> nat \<Rightarrow> int prog" where
  "wait_for_interface ifname timeout_ms = wait_loop ifname timeout_ms 0"

section \<open>CIDR strings\<close>

definition parse_cidr :: "string \<Rightarrow> (bytes \<times> nat) option" where
  "parse_cidr s =
     (if 64 \<le> length s then None
      else let plen = (case after_slash s of Some r \<Rightarrow> atoi_u8 r | None \<Rightarrow> 24) in
        map_option (\<lambda>ip. (ip, plen)) (inet_pton (before_slash s)))"

section \<open>The operations\<close>

text \<open>\<open>int ret = nl_send_recv(...); close(sock); return ret;\<close>\<close>

definition finish :: "fd \<Rightarrow> bytes \<Rightarrow> nat \<Rightarrow> nat \<Rightarrow> int prog" where
  "finish sock req seq ty =
     andthen (nl_send_recv sock req seq ty) (\<lambda>ret. perform (Close sock) (Ret ret))"

definition nl_del_link :: "string \<Rightarrow> int prog" where
  "nl_del_link ifname = andthen nl_socket (\<lambda>sock.
     if sock < 0 then Ret (-1)
     else Sys (If_nametoindex ifname) (\<lambda>r.
       if rv r = 0 then perform (Close sock) (Ret 0)
       else checked (del_request (rv r)) (\<lambda>req. finish sock req 4 RTM_DELLINK)))"

definition nl_create_veth :: "string \<Rightarrow> string \<Rightarrow> int prog" where
  "nl_create_veth name1 name2 = andthen nl_socket (\<lambda>sock.
     if sock < 0 then Ret (-1)
     else checked (veth_request name1 name2) (\<lambda>req.
       andthen (finish sock req 1 RTM_NEWLINK) (\<lambda>ret.
         if ret < 0 then Ret (-1)
         else andthen (wait_for_interface name1 5000) (\<lambda>idx1.
           andthen (wait_for_interface name2 5000) (\<lambda>idx2.
             if idx1 = 0 \<or> idx2 = 0 then andthen (nl_del_link name1) (\<lambda>_. Ret (-1))
             else Ret 0)))))"

definition nl_set_up :: "string \<Rightarrow> int prog" where
  "nl_set_up ifname = andthen nl_socket (\<lambda>sock.
     if sock < 0 then Ret (-1)
     else andthen (wait_for_interface ifname 5000) (\<lambda>idx.
       if idx = 0 then perform (Close sock) (Ret (-1))
       else checked (set_up_request idx) (\<lambda>req. finish sock req 2 RTM_NEWLINK)))"

definition nl_add_addr :: "string \<Rightarrow> string \<Rightarrow> int prog" where
  "nl_add_addr ifname ip_cidr = andthen nl_socket (\<lambda>sock.
     if sock < 0 then Ret (-1)
     else andthen (wait_for_interface ifname 5000) (\<lambda>idx.
       if idx = 0 then perform (Close sock) (Ret (-1))
       else (case parse_cidr ip_cidr of
           None \<Rightarrow> perform (Close sock) (Ret (-1))
         | Some (ip, plen) \<Rightarrow>
             checked (addr_request idx ip plen) (\<lambda>req. finish sock req 3 RTM_NEWADDR))))"

text \<open>
  The destination of a route: \<open>NULL\<close> and \<open>"default"\<close> are 0.0.0.0/0, a copy truncated to 63
  characters is parsed otherwise, and without a slash the prefix is 32.
\<close>

definition route_dest :: "string option \<Rightarrow> (bytes \<times> nat) option" where
  "route_dest dest = (case dest of
       None \<Rightarrow> Some (zeros 4, 0)
     | Some d \<Rightarrow>
         if d = ''default'' then Some (zeros 4, 0)
         else let buf = take 63 d;
             dst_plen = (case after_slash buf of Some r \<Rightarrow> atoi_u8 r | None \<Rightarrow> 32) in
           map_option (\<lambda>ip. (ip, dst_plen)) (inet_pton (before_slash buf)))"

text \<open>The attributes behind \<open>RTA_DST\<close>: gateway, then the index of the device.\<close>

definition route_gateway :: "fd \<Rightarrow> string option \<Rightarrow> bytes \<times> nat \<Rightarrow> (bytes \<times> nat \<Rightarrow> int prog) \<Rightarrow> int prog" where
  "route_gateway sock gateway s k = (case gateway of
       None \<Rightarrow> k s
     | Some g \<Rightarrow> (case inet_pton g of
           None \<Rightarrow> perform (Close sock) (Ret (-1))
         | Some ip \<Rightarrow> checked (route_attr RTA_GATEWAY ip s) k))"

definition route_dev :: "fd \<Rightarrow> string option \<Rightarrow> bytes \<times> nat \<Rightarrow> (bytes \<times> nat \<Rightarrow> int prog) \<Rightarrow> int prog" where
  "route_dev sock dev s k = (case dev of
       None \<Rightarrow> k s
     | Some d \<Rightarrow> Sys (If_nametoindex d) (\<lambda>r.
         if rv r = 0 then perform (Close sock) (Ret (-1))
         else checked (route_attr RTA_OIF (le32_int (rv r)) s) k))"

definition nl_add_route :: "string option \<Rightarrow> string option \<Rightarrow> string option \<Rightarrow> int prog" where
  "nl_add_route dest gateway dev = andthen nl_socket (\<lambda>sock.
     if sock < 0 then Ret (-1)
     else (case route_dest dest of
         None \<Rightarrow> perform (Close sock) (Ret (-1))
       | Some (dst_addr, dst_plen) \<Rightarrow>
           let scope = (if gateway = None then RT_SCOPE_LINK else RT_SCOPE_UNIVERSE) in
           checked (route_header dst_plen scope) (\<lambda>req.
           checked (route_attr RTA_DST dst_addr (req, nlmsg_align (nlmsg_length 12))) (\<lambda>s.
           route_gateway sock gateway s (\<lambda>s.
           route_dev sock dev s (\<lambda>s.
           checked (route_finish s) (\<lambda>req. finish sock req 5 RTM_NEWROUTE)))))))"

definition nl_move_to_ns :: "string \<Rightarrow> int \<Rightarrow> int prog" where
  "nl_move_to_ns ifname ns_fd = andthen nl_socket (\<lambda>sock.
     if sock < 0 then Ret (-1)
     else Sys (If_nametoindex ifname) (\<lambda>r.
       if rv r = 0 then perform (Close sock) (Ret (-1))
       else checked (move_request (rv r) ns_fd) (\<lambda>req. finish sock req 6 RTM_NEWLINK)))"

definition nl_rename_link :: "string \<Rightarrow> string \<Rightarrow> int prog" where
  "nl_rename_link oldname newname = andthen nl_socket (\<lambda>sock.
     if sock < 0 then Ret (-1)
     else Sys (If_nametoindex oldname) (\<lambda>r.
       if rv r = 0 then perform (Close sock) (Ret (-1))
       else checked (rename_request (rv r) newname) (\<lambda>req. finish sock req 7 RTM_NEWLINK)))"

section \<open>The response walk\<close>

text \<open>The messages that \<open>NLMSG_OK\<close> and \<open>NLMSG_NEXT\<close> enumerate: offset, length, type, sequence.\<close>

record resp_msg =
  rm_off :: nat
  rm_len :: nat
  rm_type :: nat
  rm_seq :: nat

function messages :: "bytes \<Rightarrow> nat \<Rightarrow> int \<Rightarrow> resp_msg list" where
  "messages buf off len =
     (let l = of_le (slice off 4 buf) in
      if len < 16 \<or> l < 16 \<or> len < int l then []
      else \<lparr>rm_off = off, rm_len = l, rm_type = of_le (slice (off + 4) 2 buf), rm_seq = of_le (slice (off + 8) 4 buf)\<rparr>
           # messages buf (off + nlmsg_align l) (len - int (nlmsg_align l)))"
  by pat_completeness auto
termination
proof (relation "measure (\<lambda>(buf, off, len). nat len)", goal_cases)
  case 1
  then show ?case by simp
next
  case (2 buf off len l)
  then show ?case using align_ge(2) [of l] by auto
qed

declare messages.simps [simp del]

definition decides :: "nat \<Rightarrow> nat \<Rightarrow> resp_msg \<Rightarrow> bool" where
  "decides seq ty m \<longleftrightarrow> rm_seq m = seq \<and> (rm_type m = NLMSG_ERROR \<or> rm_type m = ty \<or> rm_type m = NLMSG_DONE)"

lemma decides_msg [simp]:
  "decides seq ty \<lparr>rm_off = x, rm_len = l, rm_type = m, rm_seq = s\<rparr> \<longleftrightarrow>
   s = seq \<and> (m = NLMSG_ERROR \<or> m = ty \<or> m = NLMSG_DONE)"
  by (simp add: decides_def)

definition verdict :: "bytes \<Rightarrow> resp_msg option \<Rightarrow> int option" where
  "verdict buf m = (case m of None \<Rightarrow> Some (-1)
     | Some m \<Rightarrow> if rm_type m = NLMSG_ERROR
         then map_option (\<lambda>e. if e \<noteq> 0 then -1 else 0) (get32i buf (rm_off m + 16)) else Some 0)"

lemma scan_resp_messages:
  "int off + len \<le> int (length buf) \<Longrightarrow>
   scan_resp buf seq ty off len = verdict buf (find (decides seq ty) (messages buf off len))"
proof (induction buf seq ty off len rule: scan_resp.induct)
  case (1 buf seq ty off len)
  define l where "l = of_le (slice off 4 buf)"
  show ?case
  proof (cases "len < 16 \<or> l < 16 \<or> len < int l")
    case True
    then have "messages buf off len = []" by (simp add: messages.simps [of buf off len] l_def Let_def)
    moreover have "scan_resp buf seq ty off len = Some (-1)"
      using True 1(3) by (auto simp: scan_resp.simps [of buf seq ty off len] get32_def rd_def l_def)
    ultimately show ?thesis by (simp add: verdict_def)
  next
    case False
    let ?s = "of_le (slice (off + 8) 4 buf)" and ?m = "of_le (slice (off + 4) 2 buf)"
    have g: "get32 buf off = Some l" "get32 buf (off + 8) = Some ?s" "get16 buf (off + 4) = Some ?m"
      using False 1(3) by (auto simp: get32_def get16_def rd_def l_def)
    have ih: "s \<noteq> seq \<or> (?m \<noteq> NLMSG_ERROR \<and> ?m \<noteq> ty \<and> ?m \<noteq> NLMSG_DONE) \<Longrightarrow> s = ?s \<Longrightarrow>
        scan_resp buf seq ty (off + nlmsg_align l) (len - int (nlmsg_align l)) =
        verdict buf (find (decides seq ty) (messages buf (off + nlmsg_align l) (len - int (nlmsg_align l))))" for s
      using 1(1) [OF _ g(1) _ g(2)] 1(2) [OF _ g(1) _ g(2) _ g(3)] 1(3) False by auto
    show ?thesis
      using False g ih
      by (auto simp: scan_resp.simps [of buf seq ty off len] messages.simps [of buf off len]
          l_def [symmetric] Let_def verdict_def)
  qed
qed


text \<open>A message as the kernel sends it, padded to four bytes, and the acknowledgement of a request:
  an \<open>nlmsgerr\<close> with the error code and the header it answers.\<close>

definition kernel_msg :: "nat \<Rightarrow> nat \<Rightarrow> bytes \<Rightarrow> bytes" where
  "kernel_msg ty seq payload =
     le32 (16 + length payload) @ le16 ty @ le16 0 @ le32 seq @ le32 0 @ payload @
     zeros (nlmsg_align (16 + length payload) - (16 + length payload))"

definition ack_payload :: "int \<Rightarrow> bytes \<Rightarrow> bytes" where
  "ack_payload e hdr = le32_int e @ hdr"

definition msg_ok :: "nat \<times> nat \<times> bytes \<Rightarrow> bool" where
  "msg_ok m \<longleftrightarrow> (case m of (ty, seq, payload) \<Rightarrow> ty < 65536 \<and> seq < 2 ^ 32 \<and> length payload < 2 ^ 31)"

definition kernel_msgs :: "(nat \<times> nat \<times> bytes) list \<Rightarrow> bytes" where
  "kernel_msgs ms = concat (map (\<lambda>(ty, seq, payload). kernel_msg ty seq payload) ms)"

lemma kernel_msgs_simps [simp]:
  "kernel_msgs [] = []" "kernel_msgs ((ty, seq, pl) # ms) = kernel_msg ty seq pl @ kernel_msgs ms"
  by (simp_all add: kernel_msgs_def)

lemma length_kernel_msg [simp]: "length (kernel_msg ty seq pl) = nlmsg_align (16 + length pl)"
  using align_ge(2) [of "16 + length pl"] by (simp add: kernel_msg_def)

lemma slice_append_off [simp]: "slice (length xs + i) n (xs @ ys) = slice i n ys"
  by (simp add: slice_def)

lemma kernel_msg_fields:
  "slice 0 4 (kernel_msg ty seq pl @ rest) = le32 (16 + length pl)"
  "slice 4 2 (kernel_msg ty seq pl @ rest) = le16 ty"
  "slice 8 4 (kernel_msg ty seq pl @ rest) = le32 seq"
  "slice 16 (length pl) (kernel_msg ty seq pl @ rest) = pl"
  by (simp_all add: kernel_msg_def slice_def)

lemma messages_step:
  assumes "msg_ok (ty, seq, pl)" and "int (nlmsg_align (16 + length pl)) \<le> len"
  shows "messages (pre @ kernel_msg ty seq pl @ rest) (length pre) len =
    \<lparr>rm_off = length pre, rm_len = 16 + length pl, rm_type = ty, rm_seq = seq\<rparr>
    # messages (pre @ kernel_msg ty seq pl @ rest) (length pre + nlmsg_align (16 + length pl))
        (len - int (nlmsg_align (16 + length pl)))"
proof -
  let ?b = "pre @ kernel_msg ty seq pl @ rest"
  have f: "slice (length pre) 4 ?b = le32 (16 + length pl)"
    "slice (length pre + 4) 2 ?b = le16 ty" "slice (length pre + 8) 4 ?b = le32 seq"
    using slice_append_off [of pre 0 4 "kernel_msg ty seq pl @ rest"]
    by (simp_all add: kernel_msg_fields)
  have "int (16 + length pl) \<le> len" using assms(2) align_ge(2) [of "16 + length pl"] by linarith
  then show ?thesis using assms f
    by (subst messages.simps) (simp add: Let_def msg_ok_def)
qed

text \<open>
  What the walk finds among messages that the kernel queued: those with another sequence number
  (late answers to earlier requests) are passed over, whatever they are.
\<close>

lemma find_kernel_msgs:
  assumes "\<forall>m \<in> set ms. msg_ok m \<and> fst (snd m) \<noteq> seq" and "int (length (kernel_msgs ms)) \<le> len"
  shows "find (decides seq ty) (messages (pre @ kernel_msgs ms @ rest) (length pre) len) =
    find (decides seq ty) (messages (pre @ kernel_msgs ms @ rest) (length pre + length (kernel_msgs ms))
      (len - int (length (kernel_msgs ms))))"
  using assms
proof (induction ms arbitrary: pre len)
  case (Cons m ms)
  obtain t s pl where m: "m = (t, s, pl)" by (cases m)
  let ?a = "nlmsg_align (16 + length pl)"
  have "find (decides seq ty) (messages (pre @ kernel_msg t s pl @ kernel_msgs ms @ rest) (length pre) len) =
      find (decides seq ty) (messages ((pre @ kernel_msg t s pl) @ kernel_msgs ms @ rest)
        (length (pre @ kernel_msg t s pl)) (len - int ?a))"
    using Cons.prems messages_step [of t s pl len pre "kernel_msgs ms @ rest"] by (simp add: m)
  also have "\<dots> = find (decides seq ty) (messages ((pre @ kernel_msg t s pl) @ kernel_msgs ms @ rest)
        (length (pre @ kernel_msg t s pl) + length (kernel_msgs ms)) (len - int ?a - int (length (kernel_msgs ms))))"
    using Cons.prems Cons.IH [of "len - int ?a" "pre @ kernel_msg t s pl"] by (simp add: m)
  finally show ?case by (simp add: m algebra_simps)
qed simp

lemma scan_resp_ack:
  assumes stale: "\<forall>m \<in> set ms. msg_ok m \<and> fst (snd m) \<noteq> seq" and seq: "seq < 2 ^ 32" "int32 e"
    and hdr: "length hdr = 16" and buf: "buf = kernel_msgs ms @ kernel_msg NLMSG_ERROR seq (ack_payload e hdr) @ rest"
    and len: "len = int (length (kernel_msgs ms)) + 36"
  shows "scan_resp buf seq ty 0 len = Some (if e = 0 then 0 else -1)"
proof -
  let ?k = "length (kernel_msgs ms)" and ?pl = "ack_payload e hdr"
  have pl: "length ?pl = 20" using hdr by (simp add: ack_payload_def)
  have a36: "nlmsg_align 36 = 36" by (simp add: nlmsg_align_def)
  have "find (decides seq ty) (messages buf 0 len) = find (decides seq ty) (messages buf ?k 36)"
    using find_kernel_msgs [OF stale, of len ty "[]"] len by (simp add: buf)
  also have "\<dots> = Some \<lparr>rm_off = ?k, rm_len = 36, rm_type = NLMSG_ERROR, rm_seq = seq\<rparr>"
    using messages_step [of NLMSG_ERROR seq ?pl 36 "kernel_msgs ms" rest] seq pl
    by (simp add: buf msg_ok_def a36)
  finally have f: "find (decides seq ty) (messages buf 0 len) = Some \<lparr>rm_off = ?k, rm_len = 36, rm_type = NLMSG_ERROR, rm_seq = seq\<rparr>" .
  have "slice (?k + 16) 4 buf = slice 16 4 (kernel_msg NLMSG_ERROR seq ?pl @ rest)"
    using slice_append_off [of "kernel_msgs ms" 16] by (simp add: buf)
  also have "\<dots> = le32_int e" by (simp add: kernel_msg_def slice_def ack_payload_def)
  finally have "get32i buf (?k + 16) = Some e"
    using seq(2) pl by (intro get32i_Some) (simp_all add: int32_def buf a36)
  moreover have "int 0 + len \<le> int (length buf)" using pl by (simp add: len buf a36)
  ultimately show ?thesis using scan_resp_messages [of 0 len buf seq ty] f by (simp add: verdict_def)
qed


section \<open>The kernel's side\<close>

text \<open>
  What rtnetlink(7) and netlink(7) promise: \<open>recvmsg\<close> stores at most the buffer, an error message
  carries an \<open>nlmsgerr\<close>, and an interface index is a non-negative \<open>int\<close>.
\<close>

definition nl_law :: kernel_law where
  "nl_law t c r = (case c of
       Recvmsg d n \<Rightarrow> 0 \<le> rv r \<longrightarrow> length (rbuf r) = n \<and> rv r \<le> int n \<and>
         (\<forall>m \<in> set (messages (rbuf r) 0 (rv r)). rm_type m = NLMSG_ERROR \<longrightarrow> 20 \<le> rm_len m)
     | If_nametoindex n \<Rightarrow> 0 \<le> rv r \<and> int32 (rv r)
     | _ \<Rightarrow> True)"

lemma nl_law_simps [simp]:
  "nl_law t (If_nametoindex n) r \<longleftrightarrow> 0 \<le> rv r \<and> int32 (rv r)"
  "nl_law t (Close d) r" "nl_law t (Usleep k) r" "nl_law t Socket_netlink r"
  "nl_law t (Setsockopt_rcvtimeo d) r" "nl_law t (Sendmsg d m) r"
  by (simp_all add: nl_law_def)

lemma int32_0 [simp]: "int32 0"
  by (simp add: int32_def)

lemma messages_bound:
  "m \<in> set (messages buf off len) \<Longrightarrow> int (rm_off m + rm_len m) \<le> int off + len"
proof (induction buf off len rule: messages.induct)
  case (1 buf off len)
  let ?l = "of_le (slice off 4 buf)"
  show ?case
  proof (cases "len < 16 \<or> ?l < 16 \<or> len < int ?l")
    case True
    then show ?thesis using 1(2) by (simp add: messages.simps [of buf off len] Let_def)
  next
    case False
    then have "m = \<lparr>rm_off = off, rm_len = ?l, rm_type = of_le (slice (off + 4) 2 buf), rm_seq = of_le (slice (off + 8) 4 buf)\<rparr>
      \<or> m \<in> set (messages buf (off + nlmsg_align ?l) (len - int (nlmsg_align ?l)))"
      using 1(2) by (simp add: messages.simps [of buf off len] Let_def)
    then show ?thesis using 1(1) [OF refl False] False by auto
  qed
qed

lemma scan_resp_defined:
  assumes "nl_law t (Recvmsg d n) r" and "0 \<le> rv r"
  shows "scan_resp (rbuf r) seq ty 0 (rv r) = Some 0 \<or> scan_resp (rbuf r) seq ty 0 (rv r) = Some (-1)"
proof -
  have len: "length (rbuf r) = n" "rv r \<le> int n" using assms by (simp_all add: nl_law_def)
  then have s: "scan_resp (rbuf r) seq ty 0 (rv r) =
      verdict (rbuf r) (find (decides seq ty) (messages (rbuf r) 0 (rv r)))"
    by (simp add: scan_resp_messages)
  show ?thesis
  proof (cases "find (decides seq ty) (messages (rbuf r) 0 (rv r))")
    case None
    then show ?thesis by (simp add: s verdict_def)
  next
    case (Some m)
    then have m: "m \<in> set (messages (rbuf r) 0 (rv r))" by (auto simp: find_Some_iff)
    have "\<exists>e. get32i (rbuf r) (rm_off m + 16) = Some e" if "rm_type m = NLMSG_ERROR"
      using messages_bound [OF m] assms m that len by (force simp: nl_law_def get32i_def rd_def)
    then show ?thesis by (auto simp: s Some verdict_def)
  qed
qed

section \<open>Contracts\<close>

text \<open>The events of a request that the kernel accepted.\<close>

definition request_acked :: "fd \<Rightarrow> bytes \<Rightarrow> nat \<Rightarrow> nat \<Rightarrow> trace \<Rightarrow> bool" where
  "request_acked sock msg seq ty evs \<longleftrightarrow> (\<exists>r r' r''.
     evs = [(Sendmsg sock msg, r), (Recvmsg sock 4096, r'), (Close sock, r'')] \<and> 0 \<le> rv r \<and> 0 \<le> rv r' \<and>
     verdict (rbuf r') (find (decides seq ty) (messages (rbuf r') 0 (rv r'))) = Some 0)"

lemma nl_socket_wp:
  "wp ok nl_socket (\<lambda>a t'. if a < 0 then a = -1 \<and> open_fds t' = open_fds t
     else open_fds t' = add_mset a (open_fds t) \<and> (\<exists>r r'. t' = t @ [(Socket_netlink, r), (Setsockopt_rcvtimeo a, r')])) t"
  by (auto simp: nl_socket_def fd_step_def)

lemma finish_wp:
  assumes "get32 req 0 = Some n" and "n \<le> length req"
  shows "wp nl_law (finish sock req seq ty) (\<lambda>a t'. (a = 0 \<or> a = -1) \<and> open_fds t' = open_fds t - {#sock#} \<and>
      (a = 0 \<longrightarrow> (\<exists>evs. t' = t @ evs \<and> request_acked sock (slice 0 n req) seq ty evs))) t"
proof -
  have s: "\<exists>a. scan_resp (rbuf r) seq ty 0 (rv r) = Some a \<and> (a = 0 \<or> a = -1) \<and>
      (a = 0 \<longrightarrow> verdict (rbuf r) (find (decides seq ty) (messages (rbuf r) 0 (rv r))) = Some 0)"
    if "nl_law t1 (Recvmsg sock 4096) r" "0 \<le> rv r" for t1 r
    using scan_resp_defined [OF that, of seq ty] that
      scan_resp_messages [of 0 "rv r" "rbuf r" seq ty] by (auto simp: nl_law_def)
  show ?thesis
    using assms unfolding finish_def nl_send_recv_def
    apply (simp add: rd_def fd_step_def)
    apply (intro allI impI conjI)
    subgoal for r r'
      using s [of "t @ [(Sendmsg sock (slice 0 n req), r)]" r'] by (auto simp: fd_step_def request_acked_def)
    done
qed

lemma wait_loop_wp:
  "wp ok (wait_loop n T w) (\<lambda>a t'. \<exists>rs. (\<forall>x \<in> set rs. rv (fst x) = 0) \<and>
     (let polls = concat (map (\<lambda>(r, r'). [(If_nametoindex n, r), (Usleep 100000, r')]) rs) in
      if a = 0 then t' = t @ polls \<and> length rs = (T - w + 99) div 100
      else length rs < (T - w + 99) div 100 \<and> (\<exists>r. rv r = a \<and> t' = t @ polls @ [(If_nametoindex n, r)]))) t"
proof (induction n T w arbitrary: t rule: wait_loop.induct)
  case (1 n T w)
  show ?case
  proof (cases "w < T")
    case False
    then show ?thesis by (subst wait_loop.simps) simp
  next
    case True
    then have k: "(T - w + 99) div 100 = Suc ((T - (w + 100) + 99) div 100)"
      by (cases "T \<le> w + 100") (auto simp: div_add_self2 [symmetric])
    show ?thesis
      apply (subst wait_loop.simps)
      apply (simp add: True)
      apply (intro allI impI conjI)
      subgoal by (rule exI [of _ "[]"]) (simp add: k)
      subgoal for r r'
        apply (rule wp_mono [OF 1 [OF True, of r]], simp)
        apply (elim exE conjE)
        subgoal for a t' rs
          by (rule exI [of _ "(r, r') # rs"]) (auto simp: Let_def k split: if_splits)
        done
      done
  qed
qed


lemma wait_wp:
  "wp ok (wait_for_interface n T) (\<lambda>a t'. open_fds t' = open_fds t \<and>
     (\<exists>evs. t' = t @ evs \<and> (a \<noteq> 0 \<longrightarrow> (\<exists>r. rv r = a \<and> (If_nametoindex n, r) \<in> set evs)))) t"
proof -
  have idle: "observe fd_step M (concat (map (\<lambda>(r, r'). [(If_nametoindex n, r), (Usleep 100000, r')]) rs)) = M" for M rs
    by (induction rs arbitrary: M) (auto simp: fd_step_def)
  show ?thesis unfolding wait_for_interface_def
    by (rule wp_mono [OF wait_loop_wp])
      (auto simp: Let_def idle open_fds_append observe_append fd_step_def split: if_splits)
qed

lemma wait_int32: "wp nl_law (wait_for_interface n T) (\<lambda>a _. 0 \<le> a \<and> int32 a) t"
proof -
  have "wp nl_law (wait_loop n T w) (\<lambda>a _. 0 \<le> a \<and> int32 a) t" for w
  proof (induction n T w arbitrary: t rule: wait_loop.induct)
    case (1 n T w)
    then show ?case
      by (subst wait_loop.simps) auto
  qed
  then show ?thesis by (simp add: wait_for_interface_def)
qed

text \<open>The part of the structure that is sent decodes as the structure does.\<close>

lemma decode_msg_len: "decode_msg off buf = Some (h, xs) \<Longrightarrow> get32 buf 0 = Some (nh_len h)"
  by (auto simp: decode_msg_def read_header_def bind_eq_Some_conv)

lemma rd_slice: "i + m \<le> n \<Longrightarrow> n \<le> length buf \<Longrightarrow> rd (slice 0 n buf) i m = rd buf i m"
  by (simp add: rd_def slice_slice)

lemma decode_msg_slice:
  assumes "decode_msg off buf = Some (h, xs)" and "12 \<le> nh_len h" and "nh_len h \<le> length buf"
  shows "decode_msg off (slice 0 (nh_len h) buf) = Some (h, xs)"
proof -
  let ?m = "slice 0 (nh_len h) buf"
  have "read_header ?m = read_header buf"
    using assms(2,3) by (simp add: read_header_def get32_def get16_def rd_slice)
  moreover have "read_attrs ?m off (nh_len h) = read_attrs buf off (nh_len h)"
    using read_attrs_slice [of 0 "nh_len h" buf off] by simp
  ultimately show ?thesis using assms(1) by (auto simp: decode_msg_def bind_eq_Some_conv)
qed

text \<open>What each request says, read from the bytes that are sent; \<open>idx\<close> is the interface.\<close>

definition header_only :: "nat \<Rightarrow> nat \<Rightarrow> nat \<Rightarrow> nl_msg_header" where
  "header_only ty flags seq = \<lparr>nh_len = 32, nh_type = ty, nh_flags = flags, nh_seq = seq\<rparr>"

definition set_up_msg :: "int \<Rightarrow> bytes \<Rightarrow> bool" where
  "set_up_msg idx msg \<longleftrightarrow> decode_msg 32 msg = Some (header_only RTM_NEWLINK 5 2, []) \<and>
     get32i msg 20 = Some idx \<and> get32 msg 24 = Some IFF_UP \<and> get32 msg 28 = Some IFF_UP"

definition del_msg :: "int \<Rightarrow> bytes \<Rightarrow> bool" where
  "del_msg idx msg \<longleftrightarrow> decode_msg 32 msg = Some (header_only RTM_DELLINK NLM_F_REQUEST 4, []) \<and>
     get32i msg 20 = Some idx"

definition addr_msg :: "bytes \<Rightarrow> nat \<Rightarrow> int \<Rightarrow> bytes \<Rightarrow> bool" where
  "addr_msg ip plen idx msg \<longleftrightarrow>
     decode_msg 24 msg = Some (\<lparr>nh_len = 40, nh_type = RTM_NEWADDR, nh_flags = 1285, nh_seq = 3\<rparr>,
       [(IFA_LOCAL, ip), (IFA_ADDRESS, ip)]) \<and>
     rd msg 16 4 = Some [2, word_of_nat plen, 0, 0] \<and> get32i msg 20 = Some idx"

definition move_msg :: "int \<Rightarrow> int \<Rightarrow> bytes \<Rightarrow> bool" where
  "move_msg ns_fd idx msg \<longleftrightarrow>
     decode_msg 32 msg = Some (\<lparr>nh_len = 40, nh_type = RTM_NEWLINK, nh_flags = 5, nh_seq = 6\<rparr>,
       [(IFLA_NET_NS_FD, le32_int ns_fd)]) \<and> get32i msg 20 = Some idx"

definition rename_msg :: "string \<Rightarrow> int \<Rightarrow> bytes \<Rightarrow> bool" where
  "rename_msg newname idx msg \<longleftrightarrow>
     decode_msg 32 msg = Some (\<lparr>nh_len = 32 + name_space newname, nh_type = RTM_NEWLINK, nh_flags = 5, nh_seq = 7\<rparr>,
       [(IFLA_IFNAME, cstring newname)]) \<and> get32i msg 20 = Some idx"

definition request_made :: "trace \<Rightarrow> string \<Rightarrow> (int \<Rightarrow> bytes \<Rightarrow> bool) \<Rightarrow> nat \<Rightarrow> nat \<Rightarrow> trace \<Rightarrow> bool" where
  "request_made t ifname says seq ty t' \<longleftrightarrow> (\<exists>evs0 evs sock msg r.
     t' = t @ evs0 @ evs \<and> (If_nametoindex ifname, r) \<in> set evs0 \<and> rv r \<noteq> 0 \<and> says (rv r) msg \<and>
     request_acked sock msg seq ty evs)"

lemma get32i_slice: "i + 4 \<le> n \<Longrightarrow> n \<le> length buf \<Longrightarrow> get32i (slice 0 n buf) i = get32i buf i"
  by (simp add: get32i_def rd_slice)

lemma get32_slice: "i + 4 \<le> n \<Longrightarrow> n \<le> length buf \<Longrightarrow> get32 (slice 0 n buf) i = get32 buf i"
  by (simp add: get32_def rd_slice)

text \<open>A builder makes a buffer whose announced length is inside it, and what is sent says \<open>says idx\<close>.\<close>

definition builds :: "(int \<Rightarrow> bytes option) \<Rightarrow> (int \<Rightarrow> bytes \<Rightarrow> bool) \<Rightarrow> bool" where
  "builds build says \<longleftrightarrow> (\<forall>idx. int32 idx \<longrightarrow> (\<exists>buf n. build idx = Some buf \<and> get32 buf 0 = Some n \<and>
     n \<le> length buf \<and> says idx (slice 0 n buf)))"

lemma builds_intro:
  "(\<And>idx. int32 idx \<Longrightarrow> \<exists>buf h xs. build idx = Some buf \<and> decode_msg off buf = Some (h, xs) \<and>
     12 \<le> nh_len h \<and> nh_len h \<le> length buf \<and> says idx (slice 0 (nh_len h) buf)) \<Longrightarrow> builds build says"
  unfolding builds_def by (meson decode_msg_len)

lemma builds_set_up: "builds set_up_request set_up_msg"
proof (rule builds_intro)
  fix idx assume "int32 idx"
  from set_up_request_layout [OF this] show "\<exists>buf h xs. set_up_request idx = Some buf \<and> decode_msg 32 buf = Some (h, xs) \<and>
     12 \<le> nh_len h \<and> nh_len h \<le> length buf \<and> set_up_msg idx (slice 0 (nh_len h) buf)"
    using decode_msg_slice
    by (fastforce simp: set_up_msg_def header_only_def get32i_slice get32_slice)
qed

lemma builds_del: "builds del_request del_msg"
proof (rule builds_intro)
  fix idx assume "int32 idx"
  from del_request_layout [OF this] show "\<exists>buf h xs. del_request idx = Some buf \<and> decode_msg 32 buf = Some (h, xs) \<and>
     12 \<le> nh_len h \<and> nh_len h \<le> length buf \<and> del_msg idx (slice 0 (nh_len h) buf)"
    using decode_msg_slice by (fastforce simp: del_msg_def header_only_def get32i_slice)
qed

lemma builds_addr: "length ip = 4 \<Longrightarrow> builds (\<lambda>idx. addr_request idx ip plen) (addr_msg ip plen)"
proof (rule builds_intro)
  fix idx assume "length ip = 4" "int32 idx"
  from addr_request_layout [OF this(2,1), of plen]
  show "\<exists>buf h xs. addr_request idx ip plen = Some buf \<and> decode_msg 24 buf = Some (h, xs) \<and>
     12 \<le> nh_len h \<and> nh_len h \<le> length buf \<and> addr_msg ip plen idx (slice 0 (nh_len h) buf)"
    using decode_msg_slice by (fastforce simp: addr_msg_def get32i_slice rd_slice)
qed

lemma builds_move: "builds (\<lambda>idx. move_request idx ns_fd) (move_msg ns_fd)"
proof (rule builds_intro)
  fix idx assume "int32 idx"
  from move_request_layout [OF this, of ns_fd]
  show "\<exists>buf h xs. move_request idx ns_fd = Some buf \<and> decode_msg 32 buf = Some (h, xs) \<and>
     12 \<le> nh_len h \<and> nh_len h \<le> length buf \<and> move_msg ns_fd idx (slice 0 (nh_len h) buf)"
    using decode_msg_slice by (fastforce simp: move_msg_def get32i_slice)
qed

lemma builds_rename: "length newname \<le> 59 \<Longrightarrow> builds (\<lambda>idx. rename_request idx newname) (rename_msg newname)"
proof (rule builds_intro)
  fix idx assume "length newname \<le> 59" "int32 idx"
  from rename_request_layout [OF this(2,1)]
  show "\<exists>buf h xs. rename_request idx newname = Some buf \<and> decode_msg 32 buf = Some (h, xs) \<and>
     12 \<le> nh_len h \<and> nh_len h \<le> length buf \<and> rename_msg newname idx (slice 0 (nh_len h) buf)"
    using decode_msg_slice by (fastforce simp: rename_msg_def get32i_slice)
qed

lemma with_socket_wp:
  fixes body :: "int \<Rightarrow> int prog"
  assumes "\<And>sock t1 evs. 0 \<le> sock \<Longrightarrow> open_fds t1 = add_mset sock (open_fds t) \<Longrightarrow> t1 = t @ evs \<Longrightarrow>
    wp ok (body sock) (\<lambda>a t'. (a = 0 \<or> a = -1) \<and> open_fds t' = open_fds t \<and> (a = 0 \<longrightarrow> R t')) t1"
  shows "wp ok (andthen nl_socket (\<lambda>sock. if sock < 0 then Ret (-1) else body sock))
    (\<lambda>a t'. (a = 0 \<or> a = -1) \<and> open_fds t' = open_fds t \<and> (a = 0 \<longrightarrow> R t')) t"
proof (rule wp_andthenI [OF nl_socket_wp])
  fix sock t1
  assume h: "if sock < 0 then sock = -1 \<and> open_fds t1 = open_fds t
     else open_fds t1 = add_mset sock (open_fds t) \<and> (\<exists>r r'. t1 = t @ [(Socket_netlink, r), (Setsockopt_rcvtimeo sock, r')])"
  show "wp ok (if sock < 0 then Ret (-1) else body sock)
    (\<lambda>a t'. (a = 0 \<or> a = -1) \<and> open_fds t' = open_fds t \<and> (a = 0 \<longrightarrow> R t')) t1"
  proof (cases "sock < 0")
    case True
    then show ?thesis using h by simp
  next
    case False
    then obtain evs where t1: "t1 = t @ evs" "open_fds t1 = add_mset sock (open_fds t)" using h by auto
    then show ?thesis using False assms [of sock t1 evs] by simp
  qed
qed

lemma build_finish_wp:
  assumes "builds build says" and "int32 (rv r)" and "rv r \<noteq> 0"
    and "(If_nametoindex ifname, r) \<in> set evs0" and M: "open_fds (t @ evs0) = add_mset sock M"
  shows "wp nl_law (checked (build (rv r)) (\<lambda>req. finish sock req seq ty))
    (\<lambda>a t'. (a = 0 \<or> a = -1) \<and> open_fds t' = M \<and>
       (a = 0 \<longrightarrow> request_made t ifname says seq ty t')) (t @ evs0)"
proof -
  obtain buf n where b: "build (rv r) = Some buf" "get32 buf 0 = Some n" "n \<le> length buf"
      "says (rv r) (slice 0 n buf)"
    using assms(1,2) by (auto simp: builds_def)
  have "request_made t ifname says seq ty ((t @ evs0) @ evs)"
    if "request_acked sock (slice 0 n buf) seq ty evs" for evs
    using assms(3,4) b(4) that unfolding request_made_def by (simp only: append_assoc) blast
  then show ?thesis
    by (simp only: b(1) checked_simps, intro wp_mono [OF finish_wp [OF b(2,3)]])
      (use M in auto)
qed

lemma waited_wp:
  assumes "t1 = t @ evs" and "open_fds t1 = M"
    and "\<And>t2. open_fds t2 = M \<Longrightarrow> wp nl_law (k 0) Q t2"
    and "\<And>t2 evs' r. rv r \<noteq> 0 \<Longrightarrow> int32 (rv r) \<Longrightarrow> t2 = t @ evs' \<Longrightarrow> (If_nametoindex ifname, r) \<in> set evs' \<Longrightarrow>
      open_fds t2 = M \<Longrightarrow> wp nl_law (k (rv r)) Q t2"
  shows "wp nl_law (andthen (wait_for_interface ifname T) k) Q t1"
proof (rule wp_andthenI [OF wp_conj [OF wait_wp wait_int32]])
  fix idx t2
  assume "(open_fds t2 = open_fds t1 \<and>
     (\<exists>evs. t2 = t1 @ evs \<and> (idx \<noteq> 0 \<longrightarrow> (\<exists>r. rv r = idx \<and> (If_nametoindex ifname, r) \<in> set evs)))) \<and>
     0 \<le> idx \<and> int32 idx"
  then obtain evs' where h: "open_fds t2 = M" "t2 = t @ (evs @ evs')" "int32 idx"
      "idx \<noteq> 0 \<longrightarrow> (\<exists>r. rv r = idx \<and> (If_nametoindex ifname, r) \<in> set evs')"
    using assms(1,2) by auto
  show "wp nl_law (k idx) Q t2"
  proof (cases "idx = 0")
    case True
    then show ?thesis using assms(3) h(1) by simp
  next
    case False
    then obtain r where "rv r = idx" "(If_nametoindex ifname, r) \<in> set (evs @ evs')" using h(4) by auto
    then show ?thesis using assms(4) [of r t2 "evs @ evs'"] False h by blast
  qed
qed

lemma close_wp:
  "open_fds t = M \<Longrightarrow> wp nl_law (perform (Close sock) (Ret a))
     (\<lambda>a' t'. a' = a \<and> open_fds t' = M - {#sock#}) t"
  by simp

lemmas op_rules = with_socket_wp waited_wp build_finish_wp

subsection \<open>One operation at a time\<close>

lemma nl_set_up_wp:
  "wp nl_law (nl_set_up ifname) (\<lambda>a t'. (a = 0 \<or> a = -1) \<and> open_fds t' = open_fds t \<and>
     (a = 0 \<longrightarrow> request_made t ifname set_up_msg 2 RTM_NEWLINK t')) t"
  unfolding nl_set_up_def
  by (rule with_socket_wp, rule waited_wp, assumption, rule refl)
    (simp_all add: build_finish_wp [OF builds_set_up])

lemma nl_add_addr_wp:
  "wp nl_law (nl_add_addr ifname ip_cidr) (\<lambda>a t'. (a = 0 \<or> a = -1) \<and> open_fds t' = open_fds t \<and>
     (a = 0 \<longrightarrow> (\<exists>ip plen. parse_cidr ip_cidr = Some (ip, plen) \<and>
        request_made t ifname (addr_msg ip plen) 3 RTM_NEWADDR t'))) t"
proof (cases "parse_cidr ip_cidr")
  case None
  show ?thesis unfolding nl_add_addr_def
    by (rule with_socket_wp, rule waited_wp, assumption, rule refl) (simp_all add: None)
next
  case (Some x)
  obtain ip plen where x: "x = (ip, plen)" by (cases x)
  then have "length ip = 4" using Some by (auto simp: parse_cidr_def Let_def inet_pton_length split: if_splits)
  then have b: "builds (\<lambda>idx. addr_request idx ip plen) (addr_msg ip plen)" by (rule builds_addr)
  show ?thesis unfolding nl_add_addr_def
    by (rule with_socket_wp, rule waited_wp, assumption, rule refl)
      (simp_all add: Some x build_finish_wp [OF b])
qed

text \<open>The same for an index that is looked up once.\<close>

lemma indexed_wp:
  assumes "builds build says" and "0 \<le> sock" and "open_fds (t @ evs) = add_mset sock (open_fds t)"
    and "z = 0 \<or> z = -1"
  shows "wp nl_law (Sys (If_nametoindex n) (\<lambda>r. if rv r = 0 then perform (Close sock) (Ret z)
       else checked (build (rv r)) (\<lambda>req. finish sock req seq ty)))
    (\<lambda>a t'. (a = 0 \<or> a = -1) \<and> open_fds t' = open_fds t \<and>
       (a = 0 \<longrightarrow> (z = 0 \<and> (\<exists>r r'. rv r = 0 \<and> t' = t @ evs @ [(If_nametoindex n, r), (Close sock, r')])) \<or>
          request_made t n says seq ty t')) (t @ evs)"
proof (simp, intro allI impI conjI)
  fix r :: reply assume "0 \<le> rv r \<and> int32 (rv r)" and nz: "rv r \<noteq> 0"
  then have i: "int32 (rv r)" by simp
  have M: "open_fds (t @ evs @ [(If_nametoindex n, r)]) = add_mset sock (open_fds t)"
    using assms(3) by (simp add: fd_step_def)
  show "wp nl_law (checked (build (rv r)) (\<lambda>req. finish sock req seq ty))
    (\<lambda>a t'. (a = 0 \<or> a = -1) \<and> open_fds t' = open_fds t \<and>
       (a = 0 \<longrightarrow> (z = 0 \<and> (\<exists>r. rv r = 0 \<and> (\<exists>r'. t' = t @ evs @ [(If_nametoindex n, r), (Close sock, r')]))) \<or>
          request_made t n says seq ty t')) (t @ evs @ [(If_nametoindex n, r)])"
    by (rule wp_mono [OF build_finish_wp [OF assms(1) i nz _ M]]) auto
qed (use assms in \<open>auto simp: fd_step_def\<close>)

lemma nl_del_link_wp:
  "wp nl_law (nl_del_link ifname) (\<lambda>a t'. (a = 0 \<or> a = -1) \<and> open_fds t' = open_fds t \<and>
     (a = 0 \<longrightarrow> (\<exists>evs r. t' = t @ evs \<and> (If_nametoindex ifname, r) \<in> set evs \<and> rv r = 0) \<or>
        request_made t ifname del_msg 4 RTM_DELLINK t')) t"
  unfolding nl_del_link_def
  by (rule with_socket_wp, simp only:, rule wp_mono [OF indexed_wp [OF builds_del]]) auto

lemma nl_move_to_ns_wp:
  "wp nl_law (nl_move_to_ns ifname ns_fd) (\<lambda>a t'. (a = 0 \<or> a = -1) \<and> open_fds t' = open_fds t \<and>
     (a = 0 \<longrightarrow> request_made t ifname (move_msg ns_fd) 6 RTM_NEWLINK t')) t"
  unfolding nl_move_to_ns_def
  by (rule with_socket_wp, simp only:, rule wp_mono [OF indexed_wp [OF builds_move]]) auto

lemma nl_rename_link_wp:
  assumes "length newname \<le> 59"
  shows "wp nl_law (nl_rename_link oldname newname) (\<lambda>a t'. (a = 0 \<or> a = -1) \<and> open_fds t' = open_fds t \<and>
     (a = 0 \<longrightarrow> request_made t oldname (rename_msg newname) 7 RTM_NEWLINK t')) t"
  unfolding nl_rename_link_def
  by (rule with_socket_wp, simp only:,
      rule wp_mono [OF indexed_wp [OF builds_rename [OF assms]]]) auto


lemma veth_request_len:
  assumes "veth_fits n1 n2"
  shows "\<exists>buf n. veth_request n1 n2 = Some buf \<and> get32 buf 0 = Some n \<and> n \<le> length buf"
proof -
  obtain buf where b: "veth_request n1 n2 = Some buf" using veth_request_defined [of n1 n2] assms by auto
  show ?thesis using veth_space [OF assms] b veth_layout_header [OF assms b] by (auto simp: get32_Some)
qed

lemma nl_create_veth_wp:
  assumes fits: "veth_fits name1 name2"
  shows "wp nl_law (nl_create_veth name1 name2) (\<lambda>a t'. (a = 0 \<or> a = -1) \<and> open_fds t' = open_fds t \<and>
     (a = 0 \<longrightarrow> (\<exists>evs r1 r2. t' = t @ evs \<and> (If_nametoindex name1, r1) \<in> set evs \<and> rv r1 \<noteq> 0 \<and>
        (If_nametoindex name2, r2) \<in> set evs \<and> rv r2 \<noteq> 0))) t"
proof -
  obtain buf n where b: "veth_request name1 name2 = Some buf" "get32 buf 0 = Some n" "n \<le> length buf"
    using veth_request_len [OF fits] by blast
  define R where "R t' \<longleftrightarrow> (\<exists>evs r1 r2. t' = t @ evs \<and> (If_nametoindex name1, r1) \<in> set evs \<and> rv r1 \<noteq> 0 \<and>
        (If_nametoindex name2, r2) \<in> set evs \<and> rv r2 \<noteq> 0)" for t'
  have tail: "wp nl_law (if idx1 = 0 \<or> idx2 = 0 then andthen (nl_del_link name1) (\<lambda>_. Ret (-1)) else Ret (0 :: int))
      (\<lambda>a t'. (a = 0 \<or> a = -1) \<and> open_fds t' = open_fds t \<and> (a = 0 \<longrightarrow> R t')) t3"
    if "open_fds t3 = open_fds t" "idx1 \<noteq> 0 \<and> idx2 \<noteq> 0 \<Longrightarrow> R t3" for idx1 idx2 :: int and t3
    using that by (auto intro: wp_mono [OF nl_del_link_wp])
  show ?thesis unfolding nl_create_veth_def R_def [symmetric]
  proof (rule with_socket_wp, unfold b(1) checked_simps, rule wp_andthenI [OF finish_wp [OF b(2,3)]])
    fix sock :: int and t1 evs and ret :: int and t2
    assume M: "open_fds t1 = add_mset sock (open_fds t)" and t1: "t1 = t @ evs"
      and f: "(ret = 0 \<or> ret = - 1) \<and> open_fds t2 = open_fds t1 - {#sock#} \<and>
        (ret = 0 \<longrightarrow> (\<exists>evs. t2 = t1 @ evs \<and> request_acked sock (slice 0 n buf) 1 RTM_NEWLINK evs))"
    show "wp nl_law (if ret < 0 then Ret (- 1) else
        andthen (wait_for_interface name1 5000) (\<lambda>idx1. andthen (wait_for_interface name2 5000) (\<lambda>idx2.
        if idx1 = 0 \<or> idx2 = 0 then andthen (nl_del_link name1) (\<lambda>_. Ret (- 1 :: int)) else Ret 0)))
      (\<lambda>a t'. (a = 0 \<or> a = -1) \<and> open_fds t' = open_fds t \<and> (a = 0 \<longrightarrow> R t')) t2"
    proof (cases "ret < 0")
      case True
      then show ?thesis using f M by simp
    next
      case False
      then obtain evs' where t2: "t2 = t @ evs'" "open_fds t2 = open_fds t" using f M t1 by auto
      show ?thesis using False
        apply simp
        apply (rule wp_mono [OF wait_wp])
        apply (elim conjE exE)
        apply (rule wp_mono [OF wait_wp])
        apply (elim conjE exE)
        apply (rule tail)
        subgoal using t2 by simp
        subgoal unfolding R_def using t2 by (elim conjE impE exE) (assumption, assumption, auto)
        done
    qed
  qed
qed


text \<open>A route message: destination first, then the gateway and the device if given.\<close>

definition opt_attr :: "nat \<Rightarrow> bytes option \<Rightarrow> (nat \<times> bytes) list" where
  "opt_attr ty x = (case x of None \<Rightarrow> [] | Some pl \<Rightarrow> [(ty, pl)])"

definition route_attrs :: "bytes \<Rightarrow> bytes option \<Rightarrow> bytes option \<Rightarrow> (nat \<times> bytes) list" where
  "route_attrs dst gw oif = (RTA_DST, dst) # opt_attr RTA_GATEWAY gw @ opt_attr RTA_OIF oif"

definition route_msg :: "bytes \<Rightarrow> nat \<Rightarrow> bytes option \<Rightarrow> bytes option \<Rightarrow> bytes \<Rightarrow> bool" where
  "route_msg dst plen gw oif msg \<longleftrightarrow>
     decode_msg 28 msg = Some (\<lparr>nh_len = 28 + attrs_size (route_attrs dst gw oif), nh_type = RTM_NEWROUTE,
       nh_flags = 1541, nh_seq = 5\<rparr>, route_attrs dst gw oif) \<and>
     rd msg 16 4 = Some [2, word_of_nat plen, 0, 0] \<and>
     rd msg 20 4 = Some [254, 4, (if gw = None then 253 else 0), 1]"

definition route_requested :: "trace \<Rightarrow> string option \<Rightarrow> string option \<Rightarrow> string option \<Rightarrow> trace \<Rightarrow> bool" where
  "route_requested t dest gateway dev t' \<longleftrightarrow> (\<exists>dst plen gw oif msg evs0 evs sock.
     t' = t @ evs0 @ evs \<and> route_dest dest = Some (dst, plen) \<and>
     (case gateway of None \<Rightarrow> gw = None | Some g \<Rightarrow> gw = inet_pton g \<and> gw \<noteq> None) \<and>
     (case dev of None \<Rightarrow> oif = None
      | Some d \<Rightarrow> \<exists>r. (If_nametoindex d, r) \<in> set evs0 \<and> rv r \<noteq> 0 \<and> oif = Some (le32_int (rv r))) \<and>
     route_msg dst plen gw oif msg \<and> request_acked sock msg 5 RTM_NEWROUTE evs)"

lemma route_attr_next:
  assumes "route_state plen scope xs s" and "attrs_size xs \<le> 100" and "length pl = 4"
  shows "\<exists>s'. route_attr ty pl s = Some s' \<and> route_state plen scope (xs @ [(ty, pl)]) s'"
proof -
  obtain req p where s: "s = (req, p)" by (cases s)
  show ?thesis unfolding s
    by (rule route_attr_state) (use assms s in \<open>auto simp: route_state_def\<close>)
qed

text \<open>The whole message once its parts are known, as one builder.\<close>

definition route_build :: "bytes \<Rightarrow> nat \<Rightarrow> bytes option \<Rightarrow> bytes option \<Rightarrow> bytes option" where
  "route_build dst plen gw oif = do {
     req \<leftarrow> route_header plen (if gw = None then RT_SCOPE_LINK else RT_SCOPE_UNIVERSE);
     s \<leftarrow> route_attr RTA_DST dst (req, 28);
     s \<leftarrow> (case gw of None \<Rightarrow> Some s | Some ip \<Rightarrow> route_attr RTA_GATEWAY ip s);
     s \<leftarrow> (case oif of None \<Rightarrow> Some s | Some i \<Rightarrow> route_attr RTA_OIF i s);
     route_finish s
   }"

definition four :: "bytes option \<Rightarrow> bool" where
  "four x = (case x of None \<Rightarrow> True | Some pl \<Rightarrow> length pl = 4)"

lemma route_opt_next:
  assumes "route_state plen scope xs s" and "attrs_size xs \<le> 100" and "four x"
  shows "\<exists>s'. (case x of None \<Rightarrow> Some s | Some pl \<Rightarrow> route_attr ty pl s) = Some s' \<and>
    route_state plen scope (xs @ opt_attr ty x) s'"
  using assms route_attr_next [OF assms(1,2)] by (cases x) (auto simp: opt_attr_def four_def)

lemma attrs_size_opt: "four x \<Longrightarrow> attrs_size (opt_attr ty x) \<le> 8"
  by (cases x) (simp_all add: opt_attr_def four_def)

lemma route_build_steps:
  assumes "length dst = 4" and "four gw"
  obtains req s1 s2 where "route_header plen (if gw = None then RT_SCOPE_LINK else RT_SCOPE_UNIVERSE) = Some req"
    "route_attr RTA_DST dst (req, 28) = Some s1"
    "(case gw of None \<Rightarrow> Some s1 | Some ip \<Rightarrow> route_attr RTA_GATEWAY ip s1) = Some s2"
    "route_state plen (if gw = None then RT_SCOPE_LINK else RT_SCOPE_UNIVERSE) ((RTA_DST, dst) # opt_attr RTA_GATEWAY gw) s2"
proof -
  define scope :: nat where "scope = (if gw = None then RT_SCOPE_LINK else RT_SCOPE_UNIVERSE)"
  obtain req where h: "route_header plen scope = Some req" "route_state plen scope [] (req, 28)"
    using route_header_state by blast
  obtain s1 where s1: "route_attr RTA_DST dst (req, 28) = Some s1" "route_state plen scope [(RTA_DST, dst)] s1"
    using route_attr_next [OF h(2) _ assms(1), of RTA_DST] by auto
  obtain s2 where s2: "(case gw of None \<Rightarrow> Some s1 | Some ip \<Rightarrow> route_attr RTA_GATEWAY ip s1) = Some s2"
      "route_state plen scope ([(RTA_DST, dst)] @ opt_attr RTA_GATEWAY gw) s2"
    using route_opt_next [OF s1(2) _ assms(2), of RTA_GATEWAY] assms(1) by auto
  have "route_state plen scope ((RTA_DST, dst) # opt_attr RTA_GATEWAY gw) s2" using s2(2) by simp
  then show ?thesis using that h(1) s1(1) s2(1) unfolding scope_def by blast
qed

lemma route_build_says:
  assumes "length dst = 4" and "four gw" and "four oif"
  shows "\<exists>buf n. route_build dst plen gw oif = Some buf \<and> get32 buf 0 = Some n \<and> n \<le> length buf \<and>
    16 \<le> n \<and> route_msg dst plen gw oif (slice 0 n buf)"
proof -
  define scope :: nat where "scope = (if gw = None then RT_SCOPE_LINK else RT_SCOPE_UNIVERSE)"
  obtain req s1 s2 where h: "route_header plen scope = Some req" "route_attr RTA_DST dst (req, 28) = Some s1"
      "(case gw of None \<Rightarrow> Some s1 | Some ip \<Rightarrow> route_attr RTA_GATEWAY ip s1) = Some s2"
      "route_state plen scope ((RTA_DST, dst) # opt_attr RTA_GATEWAY gw) s2"
    using route_build_steps [OF assms(1,2), of plen] unfolding scope_def by blast
  let ?xs = "route_attrs dst gw oif"
  have sz: "attrs_size ((RTA_DST, dst) # opt_attr RTA_GATEWAY gw) \<le> 16"
    using attrs_size_opt [OF assms(2), of RTA_GATEWAY] assms(1) by simp
  obtain s3 where s3: "(case oif of None \<Rightarrow> Some s2 | Some i \<Rightarrow> route_attr RTA_OIF i s2) = Some s3"
      "route_state plen scope ?xs s3"
    using route_opt_next [OF h(4) _ assms(3), of RTA_OIF] sz by (auto simp: route_attrs_def)
  obtain req3 p where p: "s3 = (req3, p)" by (cases s3)
  have pl: "p = 28 + attrs_size ?xs" "attrs_size ?xs \<le> 24"
    using s3(2) sz attrs_size_opt [OF assms(3), of RTA_OIF] by (simp_all add: p route_state_def route_attrs_def)
  have small: "\<forall>x \<in> set ?xs. small_attr x"
    using assms by (auto simp: route_attrs_def opt_attr_def small_attr_def four_def split: option.splits)
  obtain buf where b: "route_finish (req3, p) = Some buf" "length buf = 540"
      "decode_msg 28 buf = Some (\<lparr>nh_len = p, nh_type = RTM_NEWROUTE, nh_flags = 1541, nh_seq = 5\<rparr>, ?xs)"
      "rd buf 16 4 = Some [2, word_of_nat plen, 0, 0]" "rd buf 20 4 = Some [254, 4, word_of_nat scope, 1]"
    using route_finish_decode [OF s3(2) [unfolded p] small] pl by auto
  have d: "decode_msg 28 (slice 0 p buf) = Some (\<lparr>nh_len = p, nh_type = RTM_NEWROUTE, nh_flags = 1541, nh_seq = 5\<rparr>, ?xs)"
    using decode_msg_slice [OF b(3)] pl b(2) by simp
  have "route_msg dst plen gw oif (slice 0 p buf)"
    using d b pl unfolding route_msg_def by (simp add: rd_slice scope_def split: if_splits)
  moreover have "route_build dst plen gw oif = Some buf"
    using h s3 p b(1) unfolding route_build_def scope_def by simp
  ultimately show ?thesis using decode_msg_len [OF b(3)] pl b(2) by auto
qed

lemma route_dest_length: "route_dest d = Some (dst, plen) \<Longrightarrow> length dst = 4"
  by (auto simp: route_dest_def Let_def inet_pton_length split: option.splits if_splits)

text \<open>The gateway argument when it is absent or an address.\<close>

definition gateway_addr :: "string option \<Rightarrow> bytes option \<Rightarrow> bool" where
  "gateway_addr gateway gw = (case gateway of None \<Rightarrow> gw = None | Some g \<Rightarrow> gw = inet_pton g \<and> gw \<noteq> None)"

lemma gateway_four: "gateway_addr gateway gw \<Longrightarrow> four gw"
  by (auto simp: gateway_addr_def four_def inet_pton_length split: option.splits)

text \<open>With a valid destination and gateway the operation looks up the device, builds and sends.\<close>

definition route_send :: "fd \<Rightarrow> bytes \<Rightarrow> nat \<Rightarrow> bytes option \<Rightarrow> string option \<Rightarrow> int prog" where
  "route_send sock dst plen gw dev = (case dev of
       None \<Rightarrow> checked (route_build dst plen gw None) (\<lambda>req. finish sock req 5 RTM_NEWROUTE)
     | Some d \<Rightarrow> Sys (If_nametoindex d) (\<lambda>r. if rv r = 0 then perform (Close sock) (Ret (-1))
         else checked (route_build dst plen gw (Some (le32_int (rv r)))) (\<lambda>req. finish sock req 5 RTM_NEWROUTE)))"

lemma checked_bind: "checked (Option.bind x f) g = checked x (\<lambda>a. checked (f a) g)"
  by (cases x) simp_all

lemma nl_add_route_valid:
  assumes rd: "route_dest dest = Some (dst, plen)" and gw: "gateway_addr gateway gw"
  shows "nl_add_route dest gateway dev = andthen nl_socket (\<lambda>sock.
    if sock < 0 then Ret (-1) else route_send sock dst plen gw dev)"
proof -
  obtain req s1 s2 where h: "route_header plen (if gw = None then RT_SCOPE_LINK else RT_SCOPE_UNIVERSE) = Some req"
      "route_attr RTA_DST dst (req, 28) = Some s1"
      "(case gw of None \<Rightarrow> Some s1 | Some ip \<Rightarrow> route_attr RTA_GATEWAY ip s1) = Some s2"
    using route_build_steps [OF route_dest_length [OF rd] gateway_four [OF gw], of plen] by blast
  have n: "(gateway = None) = (gw = None)" using gw by (auto simp: gateway_addr_def split: option.splits)
  have al: "nlmsg_align (nlmsg_length 12) = 28" by simp
  have g: "route_gateway sock gateway s1 k = k s2" for sock k
    using gw h(3) by (auto simp: gateway_addr_def route_gateway_def split: option.splits)
  have b: "route_build dst plen gw oif = Option.bind (case oif of None \<Rightarrow> Some s2 | Some i \<Rightarrow> route_attr RTA_OIF i s2) route_finish" for oif
    unfolding route_build_def using h by simp
  have d: "route_dev sock dev s2 (\<lambda>s. checked (route_finish s) (\<lambda>req. finish sock req 5 RTM_NEWROUTE)) =
      route_send sock dst plen gw dev" for sock
    by (cases dev) (simp_all add: route_dev_def route_send_def b checked_bind cong: if_cong)
  show ?thesis
    unfolding nl_add_route_def rd option.case prod.case Let_def n al h(1,2) checked_simps g d
    by (rule refl)
qed

lemma nl_add_route_invalid:
  assumes "route_dest dest = None \<or> (\<exists>g. gateway = Some g \<and> inet_pton g = None)"
  shows "nl_add_route dest gateway dev = andthen nl_socket (\<lambda>sock.
    if sock < 0 then Ret (-1) else perform (Close sock) (Ret (-1)))"
proof (cases "route_dest dest")
  case None
  show ?thesis unfolding nl_add_route_def None option.case by (rule refl)
next
  case (Some x)
  obtain dst plen where x: "x = (dst, plen)" by (cases x)
  then have rd: "route_dest dest = Some (dst, plen)" using Some by simp
  obtain g where g: "gateway = Some g" "inet_pton g = None" using assms Some by auto
  obtain req s1 where h: "route_header plen RT_SCOPE_UNIVERSE = Some req" "route_attr RTA_DST dst (req, 28) = Some s1"
    by (rule route_build_steps [OF route_dest_length [OF rd], of "Some (zeros 4)" plen]) (auto simp: four_def)
  have al: "nlmsg_align (nlmsg_length 12) = 28" by simp
  have e: "(if gateway = None then RT_SCOPE_LINK else RT_SCOPE_UNIVERSE) = RT_SCOPE_UNIVERSE" using g by simp
  show ?thesis
    unfolding nl_add_route_def rd option.case prod.case Let_def e al h checked_simps
    by (simp add: route_gateway_def g cong: if_cong)
qed

lemma route_send_wp:
  assumes "length dst = 4" and rd: "route_dest dest = Some (dst, plen)" and gw: "gateway_addr gateway gw"
    and M: "open_fds (t @ evs) = add_mset sock (open_fds t)"
  shows "wp nl_law (route_send sock dst plen gw dev) (\<lambda>a t'. (a = 0 \<or> a = -1) \<and> open_fds t' = open_fds t \<and>
     (a = 0 \<longrightarrow> route_requested t dest gateway dev t')) (t @ evs)"
proof -
  have send: "wp nl_law (checked (route_build dst plen gw oif) (\<lambda>req. finish sock req 5 RTM_NEWROUTE))
      (\<lambda>a t'. (a = 0 \<or> a = -1) \<and> open_fds t' = open_fds t \<and> (a = 0 \<longrightarrow> route_requested t dest gateway dev t')) (t @ evs')"
    if fo: "four oif" and M': "open_fds (t @ evs') = add_mset sock (open_fds t)"
      and dev: "case dev of None \<Rightarrow> oif = None
        | Some d \<Rightarrow> \<exists>r. (If_nametoindex d, r) \<in> set evs' \<and> rv r \<noteq> 0 \<and> oif = Some (le32_int (rv r))" for oif evs'
  proof -
    obtain buf n where b: "route_build dst plen gw oif = Some buf" "get32 buf 0 = Some n" "n \<le> length buf"
        "route_msg dst plen gw oif (slice 0 n buf)"
      using route_build_says [OF assms(1) gateway_four [OF gw] fo] by blast
    have "route_requested t dest gateway dev ((t @ evs') @ evs'')" if "request_acked sock (slice 0 n buf) 5 RTM_NEWROUTE evs''" for evs''
      unfolding route_requested_def append_assoc
      using that rd gw dev b(4) unfolding gateway_addr_def
      by (intro exI [of _ dst] exI [of _ plen] exI [of _ gw] exI [of _ oif] exI [of _ "slice 0 n buf"]
          exI [of _ evs'] exI [of _ evs''] exI [of _ sock]) simp
    then show ?thesis unfolding b(1) checked_simps
      by (intro wp_mono [OF finish_wp [OF b(2,3)]]) (use M' in auto)
  qed
  show ?thesis
  proof (cases dev)
    case None
    then show ?thesis using send [of None evs] M by (simp add: route_send_def four_def)
  next
    case (Some d)
    have "wp nl_law (checked (route_build dst plen gw (Some (le32_int (rv r)))) (\<lambda>req. finish sock req 5 RTM_NEWROUTE))
      (\<lambda>a t'. (a = 0 \<or> a = -1) \<and> open_fds t' = open_fds t \<and> (a = 0 \<longrightarrow> route_requested t dest gateway dev t'))
      (t @ evs @ [(If_nametoindex d, r)])" if "rv r \<noteq> 0" for r
      using send [of "Some (le32_int (rv r))" "evs @ [(If_nametoindex d, r)]"] M that Some
      by (force simp: four_def fd_step_def)
    then show ?thesis using M by (simp add: route_send_def Some fd_step_def)
  qed
qed

lemma nl_add_route_wp:
  "wp nl_law (nl_add_route dest gateway dev) (\<lambda>a t'. (a = 0 \<or> a = -1) \<and> open_fds t' = open_fds t \<and>
     (a = 0 \<longrightarrow> route_requested t dest gateway dev t')) t"
proof (cases "route_dest dest = None \<or> (\<exists>g. gateway = Some g \<and> inet_pton g = None)")
  case True
  show ?thesis unfolding nl_add_route_invalid [OF True] by (rule with_socket_wp) simp
next
  case False
  then obtain dst plen where rd: "route_dest dest = Some (dst, plen)" by auto
  obtain gw where gw: "gateway_addr gateway gw"
    using False by (cases gateway) (auto simp: gateway_addr_def)
  show ?thesis unfolding nl_add_route_valid [OF rd gw]
    by (rule with_socket_wp, simp only:, rule route_send_wp [OF route_dest_length [OF rd] rd gw]) simp
qed

section \<open>The contract of an operation\<close>

text \<open>
  What the callers rely on: under the precondition the operation returns 0 or -1 without a fault,
  leaves the open descriptors as they were, and returns 0 only when its effect was requested.
  The callers run under a law \<open>ok\<close> at least as strong as the netlink one.
\<close>

locale nl_op =
  fixes op :: "'a \<Rightarrow> int prog" and pre :: "'a \<Rightarrow> bool" and effect :: "'a \<Rightarrow> trace \<Rightarrow> trace \<Rightarrow> bool"
  assumes contract: "pre x \<Longrightarrow> wp nl_law (op x) (\<lambda>a t'. (a = 0 \<or> a = -1) \<and> open_fds t' = open_fds t \<and>
    (a = 0 \<longrightarrow> effect x t t')) t"
begin

lemma neutral: "pre x \<Longrightarrow> fd_neutral nl_law (op x)"
  unfolding fd_neutral_def by (auto intro: wp_mono [OF contract])

lemma runs: "pre x \<Longrightarrow> obeys k nl_law \<Longrightarrow> \<exists>a t'. run k (op x) t = (Inr a, t') \<and> (a = 0 \<or> a = -1) \<and>
    open_fds t' = open_fds t \<and> (a = 0 \<longrightarrow> effect x t t')"
  using wp_run [OF _ contract] by blast

lemma checked_call:
  assumes "pre x" and "\<And>t c r. ok t c r \<Longrightarrow> nl_law t c r"
    and "\<And>t'. open_fds t' = open_fds t \<Longrightarrow> wp ok (g (-1)) Q t'"
    and "\<And>t'. open_fds t' = open_fds t \<Longrightarrow> effect x t t' \<Longrightarrow> wp ok (g 0) Q t'"
  shows "wp ok (andthen (op x) g) Q t"
  by (rule wp_andthenI [OF wp_law_mono [OF contract [OF assms(1)] assms(2)]]) (use assms(3,4) in auto)

lemma dropped_call:
  assumes "pre x" and "\<And>t c r. ok t c r \<Longrightarrow> nl_law t c r"
    and "\<And>a t'. open_fds t' = open_fds t \<Longrightarrow> wp ok (g a) Q t'"
  shows "wp ok (andthen (op x) g) Q t"
  by (rule checked_call [OF assms(1,2)]) (use assms(3) in auto)

end

text \<open>What each operation has achieved when it returns 0.\<close>

definition set_up_effect :: "string \<Rightarrow> trace \<Rightarrow> trace \<Rightarrow> bool" where
  "set_up_effect n t t' = request_made t n set_up_msg 2 RTM_NEWLINK t'"

definition addr_effect :: "string \<times> string \<Rightarrow> trace \<Rightarrow> trace \<Rightarrow> bool" where
  "addr_effect x t t' = (\<exists>ip plen. parse_cidr (snd x) = Some (ip, plen) \<and>
     request_made t (fst x) (addr_msg ip plen) 3 RTM_NEWADDR t')"

definition del_effect :: "string \<Rightarrow> trace \<Rightarrow> trace \<Rightarrow> bool" where
  "del_effect n t t' = ((\<exists>evs r. t' = t @ evs \<and> (If_nametoindex n, r) \<in> set evs \<and> rv r = 0) \<or>
     request_made t n del_msg 4 RTM_DELLINK t')"

definition move_effect :: "string \<times> int \<Rightarrow> trace \<Rightarrow> trace \<Rightarrow> bool" where
  "move_effect x t t' = request_made t (fst x) (move_msg (snd x)) 6 RTM_NEWLINK t'"

definition rename_effect :: "string \<times> string \<Rightarrow> trace \<Rightarrow> trace \<Rightarrow> bool" where
  "rename_effect x t t' = request_made t (fst x) (rename_msg (snd x)) 7 RTM_NEWLINK t'"

definition veth_effect :: "string \<times> string \<Rightarrow> trace \<Rightarrow> trace \<Rightarrow> bool" where
  "veth_effect x t t' = (\<exists>evs r1 r2. t' = t @ evs \<and> (If_nametoindex (fst x), r1) \<in> set evs \<and> rv r1 \<noteq> 0 \<and>
        (If_nametoindex (snd x), r2) \<in> set evs \<and> rv r2 \<noteq> 0)"

definition route_effect :: "string option \<times> string option \<times> string option \<Rightarrow> trace \<Rightarrow> trace \<Rightarrow> bool" where
  "route_effect x t t' = route_requested t (fst x) (fst (snd x)) (snd (snd x)) t'"

lemmas effect_defs = set_up_effect_def addr_effect_def del_effect_def move_effect_def
  rename_effect_def veth_effect_def route_effect_def

interpretation set_up: nl_op nl_set_up "\<lambda>_. True" set_up_effect
  by unfold_locales (unfold effect_defs, rule nl_set_up_wp)

interpretation add_addr: nl_op "\<lambda>(n, c). nl_add_addr n c" "\<lambda>_. True" addr_effect
  by unfold_locales (unfold effect_defs case_prod_unfold, rule nl_add_addr_wp)

interpretation del_link: nl_op nl_del_link "\<lambda>_. True" del_effect
  by unfold_locales (unfold effect_defs, rule nl_del_link_wp)

interpretation move_to_ns: nl_op "\<lambda>(n, fd). nl_move_to_ns n fd" "\<lambda>_. True" move_effect
  by unfold_locales (unfold effect_defs case_prod_unfold, rule nl_move_to_ns_wp)

interpretation rename_link: nl_op "\<lambda>(o', n). nl_rename_link o' n" "\<lambda>x. length (snd x) \<le> 59" rename_effect
  by unfold_locales (unfold effect_defs case_prod_unfold, rule nl_rename_link_wp)

interpretation create_veth: nl_op "\<lambda>(n1, n2). nl_create_veth n1 n2" "\<lambda>x. veth_fits (fst x) (snd x)" veth_effect
  by unfold_locales (unfold effect_defs case_prod_unfold, rule nl_create_veth_wp)

interpretation add_route: nl_op "\<lambda>(d, g, i). nl_add_route d g i" "\<lambda>_. True" route_effect
  by unfold_locales (unfold effect_defs case_prod_unfold, rule nl_add_route_wp)

section \<open>CIDR strings\<close>

lemma parse_cidr_slash:
  assumes "a < 256" "b < 256" "c < 256" "d < 256" "n < 256"
  shows "parse_cidr (show_ipv4 a b c d @ CHR ''/'' # show_nat n) =
    Some ([word_of_nat a, word_of_nat b, word_of_nat c, word_of_nat d], n)"
proof -
  have "length (show_ipv4 a b c d @ CHR ''/'' # show_nat n) < 64"
    using length_show_nat_255 [OF assms(1)] length_show_nat_255 [OF assms(2)] length_show_nat_255 [OF assms(3)]
      length_show_nat_255 [OF assms(4)] length_show_nat_255 [OF assms(5)] by (simp add: show_ipv4_def)
  then show ?thesis using assms
    by (simp add: parse_cidr_def no_slash_show_ipv4 inet_pton_show_ipv4 atoi_u8_show_nat)
qed

lemma parse_cidr_plain:
  assumes "a < 256" "b < 256" "c < 256" "d < 256"
  shows "parse_cidr (show_ipv4 a b c d) = Some ([word_of_nat a, word_of_nat b, word_of_nat c, word_of_nat d], 24)"
proof -
  have "length (show_ipv4 a b c d) < 64"
    using length_show_nat_255 [OF assms(1)] length_show_nat_255 [OF assms(2)] length_show_nat_255 [OF assms(3)]
      length_show_nat_255 [OF assms(4)] by (simp add: show_ipv4_def)
  then show ?thesis using assms
    by (simp add: parse_cidr_def no_slash_show_ipv4 inet_pton_show_ipv4)
qed

lemma parse_cidr_range: "parse_cidr s = Some (ip, plen) \<Longrightarrow> length ip = 4 \<and> plen < 256 \<and> length s < 64"
  by (auto simp: parse_cidr_def Let_def inet_pton_length atoi_u8_bound split: if_splits option.splits)

section \<open>Against a kernel that acknowledges\<close>

text \<open>
  A cooperative kernel: sockets open, interfaces exist, and a request is answered by an
  acknowledgement exactly when its flags ask for one (\<open>NLM_F_ACK\<close>, bit 2); a request without it
  gets no answer on success, so \<open>recvmsg\<close> runs into its timeout.
\<close>

definition last_sent :: "trace \<Rightarrow> bytes option" where
  "last_sent t = observe (\<lambda>s e. case fst e of Sendmsg d m \<Rightarrow> Some m | _ \<Rightarrow> s) None t"

definition wants_ack :: "bytes \<Rightarrow> bool" where
  "wants_ack m = (16 \<le> length m \<and> (case get16 m 6 of Some fl \<Rightarrow> odd (fl div 4) | None \<Rightarrow> False))"

definition is_ack :: "bytes \<Rightarrow> reply \<Rightarrow> bool" where
  "is_ack m r \<longleftrightarrow> rv r = 36 \<and> (\<exists>seq hdr. get32 m 8 = Some seq \<and> length hdr = 16 \<and>
     rbuf r = kernel_msg NLMSG_ERROR seq (ack_payload 0 hdr) @ zeros 4060)"

definition acking_law :: kernel_law where
  "acking_law t c r = (case c of
       Socket_netlink \<Rightarrow> 0 \<le> rv r
     | Sendmsg d m \<Rightarrow> 0 \<le> rv r
     | If_nametoindex n \<Rightarrow> 0 < rv r \<and> int32 (rv r)
     | Recvmsg d n \<Rightarrow> (case last_sent t of
           Some m \<Rightarrow> if wants_ack m \<and> n = 4096 then is_ack m r else rv r = -1 \<and> rerrno r = EAGAIN
         | None \<Rightarrow> rv r = -1)
     | _ \<Rightarrow> True)"

lemma last_sent_snoc [simp]: "last_sent (t @ [(Sendmsg d m, r)]) = Some m"
  by (simp add: last_sent_def)

lemma acking_simps [simp]:
  "acking_law t Socket_netlink r = (0 \<le> rv r)" "acking_law t (Sendmsg d m) r = (0 \<le> rv r)"
  "acking_law t (If_nametoindex n) r = (0 < rv r \<and> int32 (rv r))"
  "acking_law t (Close d) r" "acking_law t (Setsockopt_rcvtimeo d) r"
  "last_sent t = Some m \<Longrightarrow> acking_law t (Recvmsg d k) r = (if wants_ack m \<and> k = 4096 then is_ack m r else rv r = -1 \<and> rerrno r = EAGAIN)"
  by (simp_all add: acking_law_def)

definition asks :: "nat \<Rightarrow> bytes \<Rightarrow> bool" where
  "asks seq m \<longleftrightarrow> wants_ack m \<and> get32 m 8 = Some seq \<and> seq < 2 ^ 32"

lemma finish_acked:
  assumes "get32 req 0 = Some n" and "n \<le> length req" and "asks seq (slice 0 n req)"
  shows "wp acking_law (finish sock req seq ty) (\<lambda>a _. a = 0) t"
proof -
  have "scan_resp (rbuf r) seq ty 0 (rv r) = Some 0" if "is_ack (slice 0 n req) r" for r
    using that assms(3) scan_resp_ack [of "[]" seq 0 _ "rbuf r" "zeros 4060" "rv r" ty]
    by (auto simp: is_ack_def asks_def)
  moreover have "rv r = 36" if "is_ack (slice 0 n req) r" for r using that by (simp add: is_ack_def)
  ultimately show ?thesis using assms unfolding finish_def nl_send_recv_def
    by (auto simp: rd_def asks_def)
qed

lemma finish_unanswered:
  assumes "get32 req 0 = Some n" and "n \<le> length req" and "\<not> wants_ack (slice 0 n req)"
  shows "wp acking_law (finish sock req seq ty) (\<lambda>a t'. a = -1 \<and>
    (\<exists>r1 r2 r3. 0 \<le> rv r1 \<and> t' = t @ [(Sendmsg sock (slice 0 n req), r1), (Recvmsg sock 4096, r2), (Close sock, r3)])) t"
  using assms unfolding finish_def nl_send_recv_def
  by (auto simp: rd_def)


definition acked_build :: "(int \<Rightarrow> bytes option) \<Rightarrow> nat \<Rightarrow> bool" where
  "acked_build build seq \<longleftrightarrow> (\<forall>idx. int32 idx \<longrightarrow> (\<exists>buf n. build idx = Some buf \<and> get32 buf 0 = Some n \<and>
     n \<le> length buf \<and> asks seq (slice 0 n buf)))"

lemma read_header_fields:
  "read_header m = Some h \<Longrightarrow> get16 m 6 = Some (nh_flags h) \<and> get32 m 8 = Some (nh_seq h)"
  by (auto simp: read_header_def bind_eq_Some_conv)

lemma asks_decoded:
  "decode_msg off m = Some (h, xs) \<Longrightarrow> 16 \<le> length m \<Longrightarrow> odd (nh_flags h div 4) \<Longrightarrow> nh_seq h < 2 ^ 32 \<Longrightarrow>
   asks (nh_seq h) m"
  using read_header_fields [of m h] by (auto simp: decode_msg_def bind_eq_Some_conv asks_def wants_ack_def)

lemma acked_build_intro:
  assumes "\<And>idx. int32 idx \<Longrightarrow> \<exists>buf h xs. build idx = Some buf \<and> decode_msg off buf = Some (h, xs) \<and>
     16 \<le> nh_len h \<and> nh_len h \<le> length buf \<and> odd (nh_flags h div 4) \<and> nh_seq h = seq \<and> seq < 2 ^ 32"
  shows "acked_build build seq"
  unfolding acked_build_def
proof (intro allI impI)
  fix idx assume "int32 idx"
  from assms [OF this] obtain buf h xs where b: "build idx = Some buf" "decode_msg off buf = Some (h, xs)"
      "16 \<le> nh_len h" "nh_len h \<le> length buf" "odd (nh_flags h div 4)" "nh_seq h = seq" "seq < 2 ^ 32"
    by blast
  have "asks seq (slice 0 (nh_len h) buf)"
    using asks_decoded [OF decode_msg_slice [OF b(2)]] b by simp
  then show "\<exists>buf n. build idx = Some buf \<and> get32 buf 0 = Some n \<and> n \<le> length buf \<and> asks seq (slice 0 n buf)"
    using b decode_msg_len [OF b(2)] by blast
qed

lemma acked_builds:
  "acked_build set_up_request 2" "length ip = 4 \<Longrightarrow> acked_build (\<lambda>idx. addr_request idx ip plen) 3"
  "acked_build (\<lambda>idx. move_request idx fd) 6"
  "length newname \<le> 59 \<Longrightarrow> acked_build (\<lambda>idx. rename_request idx newname) 7"
proof -
  show "acked_build set_up_request 2"
    by (rule acked_build_intro) (use set_up_request_layout in fastforce)
  show "acked_build (\<lambda>idx. addr_request idx ip plen) 3" if "length ip = 4"
    by (rule acked_build_intro) (use addr_request_layout [OF _ that, of _ plen] in fastforce)
  show "acked_build (\<lambda>idx. move_request idx fd) 6"
    by (rule acked_build_intro) (use move_request_layout [of _ fd] in fastforce)
  show "acked_build (\<lambda>idx. rename_request idx newname) 7" if "length newname \<le> 59"
    by (rule acked_build_intro) (use rename_request_layout [OF _ that] in fastforce)
qed

lemma socket_acked: "wp acking_law nl_socket (\<lambda>a _. 0 \<le> a) t"
  by (simp add: nl_socket_def)

lemma wait_acked: "wp acking_law (wait_for_interface n 5000) (\<lambda>a _. 0 < a \<and> int32 a) t"
  unfolding wait_for_interface_def by (subst wait_loop.simps) auto

lemma build_acked:
  "acked_build build seq \<Longrightarrow> int32 idx \<Longrightarrow>
   wp acking_law (checked (build idx) (\<lambda>req. finish sock req seq ty)) (\<lambda>a _. a = 0) t"
  unfolding acked_build_def using finish_acked by fastforce

lemma indexed_acked:
  "acked_build build seq \<Longrightarrow>
   wp acking_law (Sys (If_nametoindex n) (\<lambda>r. if rv r = 0 then p else checked (build (rv r)) (\<lambda>req. finish sock req seq ty)))
     (\<lambda>a _. a = 0) t"
  using build_acked by auto

lemma waited_acked:
  assumes "acked_build build seq"
  shows "wp acking_law (andthen (wait_for_interface n 5000) (\<lambda>idx. if idx = 0 then p
     else checked (build idx) (\<lambda>req. finish sock req seq ty))) (\<lambda>a _. a = 0) t"
  by (rule wp_andthenI [OF wait_acked]) (use build_acked [OF assms] in auto)

lemma socket_then_acked:
  "(\<And>sock t'. 0 \<le> sock \<Longrightarrow> wp acking_law (body sock) Q t') \<Longrightarrow>
   wp acking_law (andthen nl_socket (\<lambda>sock. if sock < 0 then p else body sock)) Q t"
  by (rule wp_andthenI [OF socket_acked]) auto

lemma set_up_acked: "wp acking_law (nl_set_up n) (\<lambda>a _. a = 0) t"
  unfolding nl_set_up_def by (rule socket_then_acked, rule waited_acked, rule acked_builds)

lemma add_addr_acked:
  assumes "parse_cidr c = Some (ip, plen)"
  shows "wp acking_law (nl_add_addr n c) (\<lambda>a _. a = 0) t"
  unfolding nl_add_addr_def assms option.case prod.case
  by (rule socket_then_acked, rule waited_acked, rule acked_builds)
    (use parse_cidr_range [OF assms] in simp)

lemma move_acked: "wp acking_law (nl_move_to_ns n fd) (\<lambda>a _. a = 0) t"
  unfolding nl_move_to_ns_def by (rule socket_then_acked, rule indexed_acked, rule acked_builds)

lemma rename_acked: "length n' \<le> 59 \<Longrightarrow> wp acking_law (nl_rename_link n n') (\<lambda>a _. a = 0) t"
  unfolding nl_rename_link_def by (rule socket_then_acked, rule indexed_acked, rule acked_builds)

lemma del_request_silent:
  assumes "int32 idx"
  shows "\<exists>buf. del_request idx = Some buf \<and> get32 buf 0 = Some 32 \<and> length buf = 32 \<and> slice 0 32 buf = buf \<and>
    \<not> wants_ack buf \<and> del_msg idx buf"
proof -
  obtain buf where b: "del_request idx = Some buf" "length buf = 32" "get32i buf 20 = Some idx"
      "decode_msg 32 buf = Some (\<lparr>nh_len = 32, nh_type = RTM_DELLINK, nh_flags = NLM_F_REQUEST, nh_seq = 4\<rparr>, [])"
    using del_request_layout [OF assms] by blast
  have "\<not> wants_ack buf"
    using b(4) read_header_fields [of buf] by (auto simp: decode_msg_def bind_eq_Some_conv wants_ack_def)
  then show ?thesis using b decode_msg_len [OF b(4)]
    by (simp add: slice_def del_msg_def header_only_def)
qed

lemma del_unanswered:
  "wp acking_law (nl_del_link n) (\<lambda>a t'. a = -1 \<and> (\<exists>evs sock idx msg r. t' = t @ evs \<and>
     (Sendmsg sock msg, r) \<in> set evs \<and> 0 \<le> rv r \<and> 0 < idx \<and> del_msg idx msg)) t"
  unfolding nl_del_link_def
proof (rule wp_andthenI [OF wp_conj [OF nl_socket_wp socket_acked]])
  fix sock :: int and t1
  assume h: "(if sock < 0 then sock = -1 \<and> open_fds t1 = open_fds t
     else open_fds t1 = add_mset sock (open_fds t) \<and> (\<exists>r r'. t1 = t @ [(Socket_netlink, r), (Setsockopt_rcvtimeo sock, r')])) \<and> 0 \<le> sock"
  then obtain evs where t1: "t1 = t @ evs" by auto
  have "wp acking_law (checked (del_request (rv r)) (\<lambda>req. finish sock req 4 RTM_DELLINK))
     (\<lambda>a t'. a = -1 \<and> (\<exists>evs sock idx msg r. t' = t @ evs \<and> (Sendmsg sock msg, r) \<in> set evs \<and> 0 \<le> rv r \<and> 0 < idx \<and> del_msg idx msg))
     (t1 @ [(If_nametoindex n, r)])" if r: "0 < rv r" "int32 (rv r)" for r
  proof -
    obtain buf where b: "del_request (rv r) = Some buf" "get32 buf 0 = Some 32" "length buf = 32"
        "slice 0 32 buf = buf" "\<not> wants_ack buf" "del_msg (rv r) buf"
      using del_request_silent [OF r(2)] by blast
    have "\<exists>evs' sock' idx msg r'. (t1 @ [(If_nametoindex n, r)]) @ [(Sendmsg sock buf, r1), (Recvmsg sock 4096, r2), (Close sock, r3)] = t @ evs' \<and>
        (Sendmsg sock' msg, r') \<in> set evs' \<and> 0 \<le> rv r' \<and> 0 < idx \<and> del_msg idx msg" if "0 \<le> rv r1" for r1 r2 r3
      by (rule exI [of _ "evs @ [(If_nametoindex n, r), (Sendmsg sock buf, r1), (Recvmsg sock 4096, r2), (Close sock, r3)]"],
          rule exI [of _ sock], rule exI [of _ "rv r"], rule exI [of _ buf], rule exI [of _ r1])
        (use that t1 r b in simp)
    then show ?thesis unfolding b(1) checked_simps
      by (intro wp_mono [OF finish_unanswered [OF b(2)]]) (use b in auto)
  qed
  then show "wp acking_law (if sock < 0 then Ret (-1) else Sys (If_nametoindex n) (\<lambda>r. if rv r = 0 then perform (Close sock) (Ret 0)
       else checked (del_request (rv r)) (\<lambda>req. finish sock req 4 RTM_DELLINK)))
     (\<lambda>a t'. a = -1 \<and> (\<exists>evs sock idx msg r. t' = t @ evs \<and> (Sendmsg sock msg, r) \<in> set evs \<and> 0 \<le> rv r \<and> 0 < idx \<and> del_msg idx msg)) t1"
    using h by simp
qed


lemma add_route_acked:
  assumes rd: "route_dest dest = Some (dst, plen)" and gw: "gateway_addr gateway gw"
  shows "wp acking_law (nl_add_route dest gateway (Some d)) (\<lambda>a _. a = 0) t"
proof -
  have "acked_build (\<lambda>idx. route_build dst plen gw (Some (le32_int idx))) 5"
    unfolding acked_build_def
  proof (intro allI impI)
    fix idx
    obtain buf n where b: "route_build dst plen gw (Some (le32_int idx)) = Some buf" "get32 buf 0 = Some n"
        "n \<le> length buf" "16 \<le> n" "route_msg dst plen gw (Some (le32_int idx)) (slice 0 n buf)"
      using route_build_says [OF route_dest_length [OF rd] gateway_four [OF gw], of "Some (le32_int idx)" plen]
      by (auto simp: four_def)
    then have "asks 5 (slice 0 n buf)"
      unfolding route_msg_def using asks_decoded [of 28 "slice 0 n buf"] by fastforce
    then show "\<exists>buf n. route_build dst plen gw (Some (le32_int idx)) = Some buf \<and> get32 buf 0 = Some n \<and> n \<le> length buf \<and>
        asks 5 (slice 0 n buf)" using b by blast
  qed
  then show ?thesis unfolding nl_add_route_valid [OF rd gw] route_send_def option.case
    by (intro socket_then_acked indexed_acked)
qed

lemma create_veth_acked:
  assumes fits: "veth_fits n1 n2"
  shows "wp acking_law (nl_create_veth n1 n2) (\<lambda>a _. a = 0) t"
proof -
  obtain buf n where b: "veth_request n1 n2 = Some buf" "get32 buf 0 = Some n" "n \<le> length buf"
    using veth_request_len [OF fits] by blast
  note h = veth_layout_header [OF fits b(1)]
  have n: "n = 68 + (name_space n1 + name_space n2)"
    using h b(2) veth_space [OF fits] by (auto simp: get32_Some)
  have "slice 6 2 (slice 0 n buf) = le16 1541" "slice 8 4 (slice 0 n buf) = le32 1"
    using h b(3) n by (simp_all add: slice_slice)
  then have "asks 1 (slice 0 n buf)"
    using n b(3) by (simp add: asks_def wants_ack_def get16_Some get32_Some)
  note f = finish_acked [OF b(2,3) this]
  show ?thesis unfolding nl_create_veth_def b(1) checked_simps
    by (rule socket_then_acked, rule wp_andthenI [OF f], simp del: wp_andthen, rule wp_andthenI [OF wait_acked],
        rule wp_andthenI [OF wait_acked]) auto
qed

section \<open>An instance of the kernel\<close>

text \<open>One kernel that meets both laws, on which the theorems are evaluated.\<close>

definition demo_ack :: "bytes \<Rightarrow> reply" where
  "demo_ack m = (case get32 m 8 of
       Some seq \<Rightarrow> \<lparr>rv = 36, rerrno = 0, rbuf = kernel_msg NLMSG_ERROR seq (ack_payload 0 (zeros 16)) @ zeros 4060, rpair = (0, 0)\<rparr>
     | None \<Rightarrow> fail EAGAIN)"

definition demo_kernel :: kernel where
  "demo_kernel t c = (case c of
       Socket_netlink \<Rightarrow> ret 3
     | Sendmsg d m \<Rightarrow> ret (int (length m))
     | If_nametoindex n \<Rightarrow> ret 7
     | Recvmsg d n \<Rightarrow> (case last_sent t of
           Some m \<Rightarrow> if wants_ack m \<and> n = 4096 then demo_ack m else fail EAGAIN
         | None \<Rightarrow> fail EAGAIN)
     | _ \<Rightarrow> ret 0)"


lemma demo_ack_law:
  assumes "wants_ack m"
  shows "is_ack m (demo_ack m) \<and> nl_law t (Recvmsg d 4096) (demo_ack m)"
proof -
  obtain seq where seq: "get32 m 8 = Some seq" "seq < 2 ^ 32"
  proof
    show "get32 m 8 = Some (of_le (slice 8 4 m))" using assms by (simp add: get32_def rd_def wants_ack_def)
    show "of_le (slice 8 4 m) < 2 ^ 32"
      using of_le_bound [of "slice 8 4 m"] assms by (simp add: wants_ack_def)
  qed
  let ?pl = "ack_payload 0 (zeros 16)"
  have pl: "length ?pl = 20" by (simp add: ack_payload_def)
  have a36: "nlmsg_align 36 = 36" by (simp add: nlmsg_align_def)
  let ?buf = "kernel_msg NLMSG_ERROR seq ?pl @ zeros 4060"
  have "messages ?buf 0 36 = [\<lparr>rm_off = 0, rm_len = 36, rm_type = NLMSG_ERROR, rm_seq = seq\<rparr>]"
    using messages_step [of NLMSG_ERROR seq ?pl 36 "[]" "zeros 4060"] seq(2) pl
    by (simp add: msg_ok_def a36 messages.simps [of _ 36 0])
  moreover have "\<exists>hdr. length hdr = 16 \<and> kernel_msg NLMSG_ERROR seq ?pl = kernel_msg NLMSG_ERROR seq (ack_payload 0 hdr)"
    by (rule exI [of _ "zeros 16"]) simp
  ultimately show ?thesis using seq(1) pl
    by (simp add: demo_ack_def is_ack_def nl_law_def a36)
qed

lemma demo_obeys: "obeys demo_kernel nl_law"
proof (unfold obeys_def, intro allI)
  fix t c show "nl_law t c (demo_kernel t c)"
  proof (cases c)
    case (Recvmsg d n)
    then show ?thesis using demo_ack_law [of _ t d]
      by (auto simp: demo_kernel_def nl_law_def split: option.splits)
  qed (simp_all add: demo_kernel_def nl_law_def int32_def)
qed


lemma demo_acks: "obeys demo_kernel acking_law"
proof (unfold obeys_def, intro allI)
  fix t c show "acking_law t c (demo_kernel t c)"
  proof (cases c)
    case (Recvmsg d n)
    then show ?thesis using demo_ack_law
      by (auto simp: demo_kernel_def acking_law_def split: option.splits)
  qed (simp_all add: demo_kernel_def acking_law_def int32_def)
qed

text \<open>Running on it combines a contract with success.\<close>

lemma demo_run:
  assumes "wp nl_law p Q t" and "wp acking_law p Q' t"
  shows "\<exists>a t'. run demo_kernel p t = (Inr a, t') \<and> Q a t' \<and> Q' a t'"
  using wp_run [OF demo_obeys assms(1)] wp_run [OF demo_acks assms(2)] by auto


section \<open>Which calls the operations make\<close>

definition nl_call :: "call \<Rightarrow> bool" where
  "nl_call c = (case c of Socket_netlink \<Rightarrow> True | Setsockopt_rcvtimeo d \<Rightarrow> True | Sendmsg d m \<Rightarrow> True
     | Recvmsg d n \<Rightarrow> True | Close d \<Rightarrow> True | If_nametoindex s \<Rightarrow> True | Usleep n \<Rightarrow> True | _ \<Rightarrow> False)"

lemma nl_call_simps [simp]:
  "nl_call Socket_netlink" "nl_call (Setsockopt_rcvtimeo d)" "nl_call (Sendmsg d m)" "nl_call (Recvmsg d n)"
  "nl_call (Close d)" "nl_call (If_nametoindex s)" "nl_call (Usleep n)"
  by (simp_all add: nl_call_def)

lemma only_nl_socket: "only nl_call nl_socket"
  by (simp add: nl_socket_def)

lemma only_finish: "only nl_call (finish sock req seq ty)"
  unfolding finish_def nl_send_recv_def by (intro only_andthen only_checked) (simp_all add: checked_def split: option.split)

lemma only_wait_for_interface: "only nl_call (wait_for_interface n T)"
proof -
  have "only nl_call (wait_loop n T w)" for w
    by (induction n T w rule: wait_loop.induct) (subst wait_loop.simps, simp)
  then show ?thesis by (simp add: wait_for_interface_def)
qed

lemma only_nl_del_link: "only nl_call (nl_del_link n)"
  unfolding nl_del_link_def
  by (rule only_andthen, rule only_nl_socket) (auto intro!: only_andthen only_checked only_finish)

lemma only_nl_ops:
  "only nl_call (nl_set_up n)" "only nl_call (nl_add_addr n ip)" "only nl_call (nl_rename_link n n')"
  "only nl_call (nl_add_route dest gateway dev)" "only nl_call (nl_move_to_ns n fd)" "only nl_call (nl_create_veth n n')"
  unfolding nl_set_up_def nl_add_addr_def nl_rename_link_def nl_add_route_def route_gateway_def route_dev_def
    nl_move_to_ns_def nl_create_veth_def
  by ((rule only_andthen, rule only_nl_socket)?;
      auto intro!: only_andthen only_checked only_wait_for_interface only_finish only_nl_del_link
        simp: Let_def split: option.splits)+

section \<open>Properties of the operations\<close>

text \<open>C38: The response loop of nl_send_recv is a search: over the messages that NLMSG_OK and NLMSG_NEXT
  enumerate in the received bytes, the first one that carries the expected sequence number and is
  an error message, of the expected type or NLMSG_DONE decides; an error message succeeds only with
  code 0, and with no such message the result is -1.\<close>

theorem response_loop_is_search:
  assumes "len \<le> int (length buf)"
  shows "scan_resp buf seq ty 0 len = verdict buf (find (decides seq ty) (messages buf 0 len))"
  using scan_resp_messages [of 0 len buf seq ty] assms by simp

lemma response_loop_is_search_witness:
  "scan_resp (kernel_msg 2 9 (ack_payload 0 (zeros 16)) @ kernel_msg 2 5 (ack_payload (-17) (zeros 16))) 5 24 0 72 =
   verdict (kernel_msg 2 9 (ack_payload 0 (zeros 16)) @ kernel_msg 2 5 (ack_payload (-17) (zeros 16)))
     (find (decides 5 24) (messages (kernel_msg 2 9 (ack_payload 0 (zeros 16)) @ kernel_msg 2 5 (ack_payload (-17) (zeros 16))) 0 72))"
  by (rule response_loop_is_search) (simp add: ack_payload_def nlmsg_align_def)

text \<open>Answers to earlier requests do not confuse a request: whatever messages with other sequence
  numbers are queued in front, the acknowledgement of this request decides, with result 0 exactly
  when its error code is 0.\<close>

theorem stale_answers_skipped:
  assumes "\<forall>m \<in> set ms. msg_ok m \<and> fst (snd m) \<noteq> seq" and "seq < 2 ^ 32" and "int32 e" and "length hdr = 16"
  shows "scan_resp (kernel_msgs ms @ kernel_msg NLMSG_ERROR seq (ack_payload e hdr) @ rest) seq ty 0
     (int (length (kernel_msgs ms)) + 36) = Some (if e = 0 then 0 else -1)"
  by (rule scan_resp_ack [OF assms refl refl])

lemma stale_answers_skipped_witness:
  "scan_resp (kernel_msgs [(2, 4, ack_payload (-19) (zeros 16)), (16, 0, [1, 2, 3])] @
      kernel_msg NLMSG_ERROR 5 (ack_payload 0 (zeros 16)) @ []) 5 24 0
     (int (length (kernel_msgs [(2, 4, ack_payload (-19) (zeros 16)), (16, 0, [1, 2, 3])])) + 36) = Some 0"
  using stale_answers_skipped [of "[(2, 4, ack_payload (-19) (zeros 16)), (16, 0, [1, 2, 3])]" 5 0 "zeros 16" "[]" 24]
  by (simp add: msg_ok_def ack_payload_def)

text \<open>wait_for_interface polls every 100 ms: it returns the first non-zero index that
  if_nametoindex gives, after fewer than timeout/100 (rounded up) failed polls each followed by one
  sleep, and 0 only after exactly that many failed polls; it makes no other call and always returns.\<close>

theorem wait_for_interface_polls:
  "\<exists>a t' rs. run k (wait_for_interface ifname timeout_ms) t = (Inr a, t') \<and>
     list_all (\<lambda>x. rv (fst x) = 0) rs \<and>
     (let polls = concat (map (\<lambda>(r, r'). [(If_nametoindex ifname, r), (Usleep 100000, r')]) rs) in
      if a = 0 then t' = t @ polls \<and> length rs = (timeout_ms + 99) div 100
      else length rs < (timeout_ms + 99) div 100 \<and> (\<exists>r. rv r = a \<and> t' = t @ polls @ [(If_nametoindex ifname, r)]))"
  unfolding wait_for_interface_def list_all_iff
  using wp_run [OF obeys_any wait_loop_wp, of k ifname timeout_ms 0 t, unfolded diff_zero] by blast

text \<open>C39: parse_cidr reads back what is printed: a dotted address with a prefix gives the four bytes in
  network order and the prefix, a bare address gets the prefix 24.\<close>

theorem parse_cidr_roundtrip:
  assumes "a < 256" "b < 256" "c < 256" "d < 256" "n < 256"
  shows "parse_cidr (show_ipv4 a b c d @ CHR ''/'' # show_nat n) =
      Some ([word_of_nat a, word_of_nat b, word_of_nat c, word_of_nat d], n) \<and>
    parse_cidr (show_ipv4 a b c d) = Some ([word_of_nat a, word_of_nat b, word_of_nat c, word_of_nat d], 24)"
  using parse_cidr_slash [OF assms] parse_cidr_plain [OF assms(1-4)] by simp

lemma parse_cidr_roundtrip_witness:
  "parse_cidr (show_ipv4 10 0 0 2 @ CHR ''/'' # show_nat 24) = Some ([10, 0, 0, 2], 24)"
  using parse_cidr_roundtrip [of 10 0 0 2 24] by simp

text \<open>The prefix length is not validated: parse_cidr stores atoi of the text behind the slash in a
  byte, so 33 to 255 are accepted as they are and 256 becomes 0.\<close>

theorem parse_cidr_prefix_wraps:
  "parse_cidr ''10.0.0.1/256'' = Some ([10, 0, 0, 1], 0) \<and> parse_cidr ''10.0.0.1/200'' = Some ([10, 0, 0, 1], 200) \<and>
   parse_cidr ''10.0.0.1/-1'' = Some ([10, 0, 0, 1], 255)"
  by code_simp

text \<open>C40: On every kernel that keeps the netlink protocol, nl_create_veth with names that fit returns 0 or
  -1 without a fault and without leaving a descriptor open; it returns 0 only after the kernel has
  reported an index for both ends.\<close>

theorem nl_create_veth_correct:
  assumes "obeys k nl_law" and "veth_fits name1 name2"
  shows "\<exists>a t'. run k (nl_create_veth name1 name2) t = (Inr a, t') \<and> (a = 0 \<or> a = -1) \<and>
    open_fds t' = open_fds t \<and> (a = 0 \<longrightarrow> veth_effect (name1, name2) t t')"
  using create_veth.runs [of "(name1, name2)" k t] assms by simp

lemma nl_create_veth_correct_witness:
  "\<exists>t'. run demo_kernel (nl_create_veth ''veth-tmp-k3x9ab'' ''veth-eth0-k3x9a'') [] = (Inr 0, t') \<and>
     open_fds t' = {#} \<and> veth_effect (''veth-tmp-k3x9ab'', ''veth-eth0-k3x9a'') [] t'"
proof -
  have f: "veth_fits ''veth-tmp-k3x9ab'' ''veth-eth0-k3x9a''" by (simp add: veth_fits_def rta_align_def)
  show ?thesis
    using nl_create_veth_correct [OF demo_obeys f, of "[]"] wp_run [OF demo_acks create_veth_acked [OF f], of "[]"] by auto
qed

text \<open>nl_add_addr returns 0 only after the kernel acknowledged one message: a new IPv4 address for the
  index that the kernel gives for the interface name, with the parsed address as local and peer
  address and the parsed prefix; the socket is closed on every path.\<close>

theorem nl_add_addr_correct:
  assumes "obeys k nl_law"
  shows "\<exists>a t'. run k (nl_add_addr ifname ip_cidr) t = (Inr a, t') \<and> (a = 0 \<or> a = -1) \<and>
    open_fds t' = open_fds t \<and> (a = 0 \<longrightarrow> addr_effect (ifname, ip_cidr) t t')"
  using add_addr.runs [OF TrueI assms, of "(ifname, ip_cidr)" t] by simp

lemma nl_add_addr_correct_witness:
  "\<exists>t'. run demo_kernel (nl_add_addr ''eth0'' ''10.0.0.2/24'') [] = (Inr 0, t') \<and>
     open_fds t' = {#} \<and> addr_effect (''eth0'', ''10.0.0.2/24'') [] t'"
proof -
  have p: "parse_cidr ''10.0.0.2/24'' = Some ([10, 0, 0, 2], 24)" by code_simp
  show ?thesis
    using nl_add_addr_correct [OF demo_obeys, of "''eth0''" "''10.0.0.2/24''" "[]"]
      wp_run [OF demo_acks add_addr_acked [OF p], of "''eth0''" "[]"] by auto
qed

text \<open>nl_add_route, for any destination (or none), gateway and device, never faults and closes its
  socket; it returns 0 only after the kernel acknowledged a route message whose destination, prefix,
  gateway and output device are the parsed arguments, with link scope exactly when there is no
  gateway.\<close>

theorem nl_add_route_correct:
  assumes "obeys k nl_law"
  shows "\<exists>a t'. run k (nl_add_route dest gateway dev) t = (Inr a, t') \<and> (a = 0 \<or> a = -1) \<and>
    open_fds t' = open_fds t \<and> (a = 0 \<longrightarrow> route_effect (dest, gateway, dev) t t')"
  using add_route.runs [OF TrueI assms, of "(dest, gateway, dev)" t] by simp

lemma nl_add_route_correct_witness:
  "\<exists>t'. run demo_kernel (nl_add_route (Some ''default'') (Some ''10.0.0.1'') (Some ''eth0'')) [] = (Inr 0, t') \<and>
     open_fds t' = {#} \<and> route_effect (Some ''default'', Some ''10.0.0.1'', Some ''eth0'') [] t'"
proof -
  have d: "route_dest (Some ''default'') = Some (zeros 4, 0)" by (simp add: route_dest_def)
  have g: "gateway_addr (Some ''10.0.0.1'') (Some [10, 0, 0, 1])" by code_simp
  show ?thesis
    using nl_add_route_correct [OF demo_obeys, of "Some ''default''" "Some ''10.0.0.1''" "Some ''eth0''" "[]"]
      wp_run [OF demo_acks add_route_acked [OF d g], of "''eth0''" "[]"] by auto
qed

text \<open>nl_rename_link and nl_move_to_ns return 0 only after the kernel acknowledged the request for the
  index of the named interface, with exactly the new name or namespace descriptor; no path faults
  (for a new name of at most 59 characters) or leaves the socket open.\<close>

theorem nl_rename_move_correct:
  assumes "obeys k nl_law" and "length newname \<le> 59"
  shows "(\<exists>a t'. run k (nl_rename_link oldname newname) t = (Inr a, t') \<and> (a = 0 \<or> a = -1) \<and>
      open_fds t' = open_fds t \<and> (a = 0 \<longrightarrow> rename_effect (oldname, newname) t t')) \<and>
    (\<exists>a t'. run k (nl_move_to_ns ifname ns_fd) t = (Inr a, t') \<and> (a = 0 \<or> a = -1) \<and>
      open_fds t' = open_fds t \<and> (a = 0 \<longrightarrow> move_effect (ifname, ns_fd) t t'))"
  using rename_link.runs [of "(oldname, newname)" k t] move_to_ns.runs [OF TrueI assms(1), of "(ifname, ns_fd)" t] assms by simp

lemma nl_rename_move_correct_witness:
  "\<exists>t' t''. run demo_kernel (nl_rename_link ''veth-tmp-k3x9ab'' ''eth0'') [] = (Inr 0, t') \<and>
     rename_effect (''veth-tmp-k3x9ab'', ''eth0'') [] t' \<and>
     run demo_kernel (nl_move_to_ns ''veth-tmp-k3x9ab'' 5) [] = (Inr 0, t'') \<and> move_effect (''veth-tmp-k3x9ab'', 5) [] t''"
proof -
  have l: "length ''eth0'' \<le> 59" by simp
  show ?thesis
    using nl_rename_move_correct [OF demo_obeys l, of "''veth-tmp-k3x9ab''" "[]" "''veth-tmp-k3x9ab''" 5]
      wp_run [OF demo_acks rename_acked [OF l], of "''veth-tmp-k3x9ab''" "[]"]
      wp_run [OF demo_acks move_acked, of "''veth-tmp-k3x9ab''" 5 "[]"] by auto
qed

text \<open>A new name longer than 59 characters makes nl_rename_link write past its request structure as
  soon as the socket opens and the interface exists: undefined behaviour on such a kernel.\<close>

theorem nl_rename_link_overflow:
  assumes "59 < length newname" and "0 \<le> rv (k t Socket_netlink)"
    and "\<And>t'. rv (k t' (If_nametoindex oldname)) \<noteq> 0"
  shows "result k (nl_rename_link oldname newname) t = Inl Undefined_behaviour"
proof -
  have "result k (checked (rename_request i newname) g) t' = Inl Undefined_behaviour" for i g t'
    using rename_request_None [OF assms(1)] by (simp add: result_def)
  then show ?thesis using assms(2,3)
    by (simp add: nl_rename_link_def nl_socket_def result_def)
qed

lemma nl_rename_link_overflow_witness:
  "result demo_kernel (nl_rename_link ''veth-tmp-k3x9ab'' (replicate 60 (CHR ''x''))) [] = Inl Undefined_behaviour"
  by (rule nl_rename_link_overflow) (simp_all add: demo_kernel_def)

text \<open>nl_del_link asks for no acknowledgement (its flags are NLM_F_REQUEST alone) but still waits for
  one: on a kernel that answers only requests with NLM_F_ACK, a deletion that the kernel accepted
  is reported as -1, although the comment of the function promises 0 for success.\<close>

theorem nl_del_link_reports_failure:
  assumes "obeys k acking_law"
  shows "\<exists>t' sock idx msg r. run k (nl_del_link ifname) t = (Inr (-1), t @ t') \<and>
    (Sendmsg sock msg, r) \<in> set t' \<and> 0 \<le> rv r \<and> 0 < idx \<and> del_msg idx msg"
  using wp_run [OF assms del_unanswered, of ifname t] by blast

lemma nl_del_link_reports_failure_witness:
  "\<exists>t' sock idx msg r. run demo_kernel (nl_del_link ''veth-eth0-k3x9a'') [] = (Inr (-1), [] @ t') \<and>
    (Sendmsg sock msg, r) \<in> set t' \<and> 0 \<le> rv r \<and> 0 < idx \<and> del_msg idx msg"
  by (rule nl_del_link_reports_failure [OF demo_acks])

text \<open>The operations are not vacuously safe: on a kernel where the interface exists and every request
  that asks for it is acknowledged, nl_set_up, nl_add_addr with a valid address, nl_move_to_ns,
  nl_rename_link and nl_create_veth with names that fit all return 0.\<close>

theorem nl_operations_succeed:
  assumes "obeys k acking_law" and "parse_cidr c = Some (ip, plen)" and "length newname \<le> 59" and "veth_fits n1 n2"
  shows "result k (nl_set_up n) t = Inr 0 \<and> result k (nl_add_addr n c) t = Inr 0 \<and>
    result k (nl_move_to_ns n fd) t = Inr 0 \<and> result k (nl_rename_link n newname) t = Inr 0 \<and>
    result k (nl_create_veth n1 n2) t = Inr 0"
  using wp_run [OF assms(1) set_up_acked, of n t] wp_run [OF assms(1) add_addr_acked [OF assms(2)], of n t]
    wp_run [OF assms(1) move_acked, of n fd t] wp_run [OF assms(1) rename_acked [OF assms(3)], of n t]
    wp_run [OF assms(1) create_veth_acked [OF assms(4)], of t]
  by (auto simp: result_def)

lemma nl_operations_succeed_witness:
  "result demo_kernel (nl_set_up ''lo'') [] = Inr 0 \<and> result demo_kernel (nl_add_addr ''lo'' ''10.0.0.2/24'') [] = Inr 0 \<and>
    result demo_kernel (nl_move_to_ns ''lo'' 5) [] = Inr 0 \<and> result demo_kernel (nl_rename_link ''lo'' ''eth0'') [] = Inr 0 \<and>
    result demo_kernel (nl_create_veth ''a'' ''b'') [] = Inr 0"
proof (rule nl_operations_succeed [OF demo_acks])
  show "parse_cidr ''10.0.0.2/24'' = Some ([10, 0, 0, 2], 24)" by code_simp
qed (simp_all add: veth_fits_def rta_align_def)

end
