(* ===== verification/Mounts.thy ===== *)
theory Mounts
  imports User_Namespace
begin

text \<open>
  \<open>src/mount.c\<close>: \<open>mount_set\<close> gives the container its root file system.  \<open>mkdtemp\<close> overwrites its
  template with a name of the same length, which the reply carries; the second template is a buffer
  of its own into which the first name is copied.  The lemmas show that the calls come in one fixed
  order, stop at the first failure, the last call included, and use the names that \<open>mkdtemp\<close> replied.
\<close>

abbreviation (input) MS_BIND :: nat where "MS_BIND \<equiv> 4096"
abbreviation (input) MS_REC :: nat where "MS_REC \<equiv> 16384"
abbreviation (input) MS_PRIVATE :: nat where "MS_PRIVATE \<equiv> 262144"
abbreviation (input) MS_NOSUID :: nat where "MS_NOSUID \<equiv> 2"
abbreviation (input) MS_NODEV :: nat where "MS_NODEV \<equiv> 4"
abbreviation (input) MS_NOEXEC :: nat where "MS_NOEXEC \<equiv> 8"
abbreviation (input) MNT_DETACH :: nat where "MNT_DETACH \<equiv> 2"

text \<open>\<open>if (call) return -1;\<close> with what follows.\<close>

definition or_fail :: "call \<Rightarrow> int prog \<Rightarrow> int prog" where
  "or_fail c k = Sys c (\<lambda>r. if rv r \<noteq> 0 then Ret (-1) else k)"

definition pivot_root :: "string \<Rightarrow> string \<Rightarrow> (int \<Rightarrow> int prog) \<Rightarrow> int prog" where
  "pivot_root new_root put_old k = Sys (Pivot_root new_root put_old) (\<lambda>r. k (rv r))"

text \<open>\<open>mkdtemp(template)\<close>: a null pointer is failure, otherwise the template holds the name.\<close>

definition with_mkdtemp :: "string \<Rightarrow> (string \<Rightarrow> int prog) \<Rightarrow> int prog" where
  "with_mkdtemp template k = Sys (Mkdtemp template) (\<lambda>r. if rv r = 0 then Ret (-1) else k (string_of_bytes (rbuf r)))"

definition mount_template :: string where
  "mount_template = ''/tmp/barco.XXXXXX''"

definition inner_template :: string where
  "inner_template = ''/tmp/barco.XXXXXX/oldroot.XXXXXX''"

definition basename :: "string \<Rightarrow> string" where
  "basename s = rev (takeWhile (\<lambda>c. c \<noteq> CHR ''/'') (rev s))"

text \<open>From \<open>pivot_root\<close> on: change to the new root, detach and remove the old one, mount \<open>/proc\<close>.\<close>

definition enter_root :: "string \<Rightarrow> string \<Rightarrow> int prog" where
  "enter_root mount_dir inner_mount_dir =
     pivot_root mount_dir inner_mount_dir (\<lambda>res. if res \<noteq> 0 then Ret (-1) else
     (let old_root = ''/'' @ basename inner_mount_dir in
     or_fail (Chdir ''/'') (
     or_fail (Umount2 old_root MNT_DETACH) (
     or_fail (Rmdir old_root) (
     or_fail (Mount (Some ''proc'') ''/proc'' (Some ''proc'') (MS_NOSUID + MS_NOEXEC + MS_NODEV))
     (Ret 0))))))"

definition mount_set :: "string \<Rightarrow> int prog" where
  "mount_set mnt =
     or_fail (Mount None ''/'' None (MS_REC + MS_PRIVATE)) (
     with_mkdtemp mount_template (\<lambda>mount_dir.
     or_fail (Mount (Some mnt) mount_dir None (MS_BIND + MS_PRIVATE)) (
     checked (wr inner_template 0 (take (length mount_template) mount_dir)) (\<lambda>inner.
     with_mkdtemp inner (\<lambda>inner_mount_dir.
     enter_root mount_dir inner_mount_dir)))))"

section \<open>Lemmas\<close>

text \<open>mkdtemp(3): the name has the length of the template and replaces only the six X.\<close>

definition made_from :: "string \<Rightarrow> string \<Rightarrow> bool" where
  "made_from template name \<longleftrightarrow> length name = length template \<and>
     take (length template - 6) name = take (length template - 6) template \<and> CHR ''/'' \<notin> set (drop (length template - 6) name)"

definition mkdtemp_law :: kernel_law where
  "mkdtemp_law t c r = (case c of
       Mkdtemp template \<Rightarrow> rv r \<noteq> 0 \<and> 6 \<le> length template \<longrightarrow> made_from template (string_of_bytes (rbuf r))
     | _ \<Rightarrow> True)"

text \<open>The calls of a complete run for the directory names \<open>d\<close> and \<open>d/oldroot.x\<close>.\<close>

definition mount_calls :: "string \<Rightarrow> string \<Rightarrow> string \<Rightarrow> call list" where
  "mount_calls mnt d x =
     [Mount None ''/'' None (MS_REC + MS_PRIVATE), Mkdtemp mount_template,
      Mount (Some mnt) d None (MS_BIND + MS_PRIVATE), Mkdtemp (d @ ''/oldroot.XXXXXX''),
      Pivot_root d (d @ ''/oldroot.'' @ x), Chdir ''/'', Umount2 (''/oldroot.'' @ x) MNT_DETACH,
      Rmdir (''/oldroot.'' @ x), Mount (Some ''proc'') ''/proc'' (Some ''proc'') (MS_NOSUID + MS_NOEXEC + MS_NODEV)]"

lemma template_long: "6 \<le> length mount_template"
  by (simp add: mount_template_def)

lemma made_inner:
  assumes "made_from mount_template d"
  shows "wr inner_template 0 (take (length mount_template) d) = Some (d @ ''/oldroot.XXXXXX'')"
  using assms by (simp add: made_from_def mount_template_def inner_template_def wr_def splice_def)

lemma basename_snoc: "CHR ''/'' \<notin> set x \<Longrightarrow> basename (d @ CHR ''/'' # x) = x"
proof -
  assume x: "CHR ''/'' \<notin> set x"
  have "takeWhile (\<lambda>c. c \<noteq> CHR ''/'') (rev x @ CHR ''/'' # rev d) = rev x"
    using x by (simp add: takeWhile_append takeWhile_eq_all_conv)
  then show ?thesis by (simp add: basename_def)
qed

lemma made_inner_name:
  assumes "made_from (d @ ''/oldroot.XXXXXX'') n" and "length d = 17"
  obtains x where "n = d @ ''/oldroot.'' @ x" and "length x = 6" and "CHR ''/'' \<notin> set x"
proof
  let ?k = "length (d @ ''/oldroot.XXXXXX'') - 6"
  have k: "?k = 26" using assms(2) by simp
  have "n = take 26 n @ drop 26 n" by simp
  also have "take 26 n = d @ ''/oldroot.''" using assms k by (simp add: made_from_def)
  finally show "n = d @ ''/oldroot.'' @ drop 26 n" by simp
  show "length (drop 26 n) = 6" using assms k by (simp add: made_from_def)
  show "CHR ''/'' \<notin> set (drop 26 n)" using assms(1) k by (simp add: made_from_def)
qed

text \<open>A call succeeded: \<open>mkdtemp\<close> returned its pointer, and any other call returned 0.\<close>

definition succeeded :: "event \<Rightarrow> bool" where
  "succeeded e \<longleftrightarrow> (case fst e of Mkdtemp x \<Rightarrow> rv (snd e) \<noteq> 0 | _ \<Rightarrow> rv (snd e) = 0)"

lemma succeeded_simps [simp]:
  "succeeded (Mkdtemp x, r) \<longleftrightarrow> rv r \<noteq> 0" "succeeded (Mount a b c d, r) \<longleftrightarrow> rv r = 0"
  "succeeded (Pivot_root x y, r) \<longleftrightarrow> rv r = 0" "succeeded (Chdir x, r) \<longleftrightarrow> rv r = 0"
  "succeeded (Umount2 x n, r) \<longleftrightarrow> rv r = 0" "succeeded (Rmdir x, r) \<longleftrightarrow> rv r = 0"
  by (simp_all add: succeeded_def)

text \<open>The name that the reply to the call number \<open>i\<close> holds.\<close>

definition made_name :: "trace \<Rightarrow> nat \<Rightarrow> string" where
  "made_name evs i = (if i < length evs then string_of_bytes (rbuf (snd (evs ! i))) else [])"

text \<open>
  How \<open>mount_set\<close> ends: its calls are the first ones of the complete run for the two names that
  \<open>mkdtemp\<close> replied, all of them succeeded but perhaps the last, and the result is 0 if the last one
  succeeded as well, which then is the ninth, and -1 if it failed.
\<close>

definition mount_end :: "string \<Rightarrow> int \<Rightarrow> trace \<Rightarrow> bool" where
  "mount_end mnt a evs \<longleftrightarrow> (let d = made_name evs 1; n = made_name evs 3; x = drop 26 n in
     evs \<noteq> [] \<and> prefix (map fst evs) (mount_calls mnt d x) \<and>
     (2 < length evs \<longrightarrow> made_from mount_template d) \<and>
     (4 < length evs \<longrightarrow> n = d @ ''/oldroot.'' @ x \<and> length x = 6 \<and> CHR ''/'' \<notin> set x) \<and>
     (\<forall>e \<in> set (butlast evs). succeeded e) \<and>
     (if succeeded (last evs) then a = 0 \<and> length evs = 9 else a = -1))"

lemmas mount_end_simps = mount_end_def made_name_def mount_calls_def Let_def

text \<open>The part after both directories are made.\<close>

lemma mount_tail_wp:
  assumes d: "made_from mount_template (string_of_bytes (rbuf r1))"
    and n: "string_of_bytes (rbuf r3) = string_of_bytes (rbuf r1) @ ''/oldroot.'' @ x" "length x = 6" "CHR ''/'' \<notin> set x"
    and ok: "rv r0 = 0" "rv r1 \<noteq> 0" "rv r2 = 0" "rv r3 \<noteq> 0"
  shows "wp ok (enter_root (string_of_bytes (rbuf r1)) (string_of_bytes (rbuf r3)))
    (\<lambda>a t'. \<exists>evs. t' = t @ evs \<and> mount_end mnt a evs)
    (t @ [(Mount None ''/'' None (MS_REC + MS_PRIVATE), r0), (Mkdtemp mount_template, r1),
      (Mount (Some mnt) (string_of_bytes (rbuf r1)) None (MS_BIND + MS_PRIVATE), r2),
      (Mkdtemp (string_of_bytes (rbuf r1) @ ''/oldroot.XXXXXX''), r3)])"
proof -
  have b: "basename (string_of_bytes (rbuf r1) @ ''/oldroot.'' @ x) = ''oldroot.'' @ x"
    using basename_snoc [of "''oldroot.'' @ x" "string_of_bytes (rbuf r1)"] n(3) by simp
  have l: "length (string_of_bytes (rbuf r1)) = 17" using d by (simp add: made_from_def mount_template_def)
  show ?thesis unfolding enter_root_def n(1) b pivot_root_def or_fail_def Let_def
    by (simp, intro allI impI conjI; simp add: mount_end_simps ok n d l)
qed

lemma mount_set_wp:
  "wp mkdtemp_law (mount_set mnt) (\<lambda>a t'. \<exists>evs. t' = t @ evs \<and> mount_end mnt a evs) t"
proof -
  have inner: "wp mkdtemp_law (with_mkdtemp (string_of_bytes (rbuf r1) @ ''/oldroot.XXXXXX'')
      (enter_root (string_of_bytes (rbuf r1))))
    (\<lambda>a t'. \<exists>evs. t' = t @ evs \<and> mount_end mnt a evs)
    (t @ [(Mount None ''/'' None (MS_REC + MS_PRIVATE), r0), (Mkdtemp mount_template, r1),
      (Mount (Some mnt) (string_of_bytes (rbuf r1)) None (MS_BIND + MS_PRIVATE), r2)])"
    if d: "made_from mount_template (string_of_bytes (rbuf r1))" and ok: "rv r0 = 0" "rv r1 \<noteq> 0" "rv r2 = 0" for r0 r1 r2
  proof -
    let ?d = "string_of_bytes (rbuf r1)"
    have tail: "wp mkdtemp_law (enter_root ?d (string_of_bytes (rbuf r3))) (\<lambda>a t'. \<exists>evs. t' = t @ evs \<and> mount_end mnt a evs)
        (t @ [(Mount None ''/'' None (MS_REC + MS_PRIVATE), r0), (Mkdtemp mount_template, r1),
          (Mount (Some mnt) ?d None (MS_BIND + MS_PRIVATE), r2), (Mkdtemp (?d @ ''/oldroot.XXXXXX''), r3)])"
      if made: "made_from (?d @ ''/oldroot.XXXXXX'') (string_of_bytes (rbuf r3))" and r3: "rv r3 \<noteq> 0" for r3
    proof -
      have "length ?d = 17" using d by (simp add: made_from_def mount_template_def)
      then obtain x where "string_of_bytes (rbuf r3) = ?d @ ''/oldroot.'' @ x" "length x = 6" "CHR ''/'' \<notin> set x"
        using made_inner_name [OF made] by blast
      then show ?thesis by (rule mount_tail_wp [OF d _ _ _ ok r3])
    qed
    show ?thesis
      unfolding with_mkdtemp_def
      apply (simp, intro allI impI conjI)
      subgoal by (simp add: mount_end_simps ok d)
      subgoal for r3 using tail [of r3] by (simp add: mkdtemp_law_def)
      done
  qed
  show ?thesis
    unfolding mount_set_def or_fail_def [of "Mount None _ _ _"] with_mkdtemp_def [of mount_template] or_fail_def [of "Mount (Some mnt) _ _ _"]
    apply (simp, intro allI impI conjI)
    subgoal by (simp add: mount_end_simps)
    subgoal by (simp add: mount_end_simps)
    subgoal by (simp add: mount_end_simps mkdtemp_law_def template_long)
    subgoal for r0 r1 r2
      using inner [of r1 r0 r2] by (simp add: mkdtemp_law_def made_inner template_long)
    done
qed


section \<open>Properties\<close>

text \<open>C33: Whatever the kernel answers, as long as mkdtemp keeps its documented form of the names, mount_set
  ends and makes the container's root in one fixed order: private propagation, a fresh directory,
  the bind mount of the root file system on the directory that mkdtemp replied, a directory for the
  old root inside it, pivot_root to the two directories replied, chdir to the new root, detaching and
  removing the old root under its last name, mounting /proc.  It stops at the first call that fails,
  whichever of the nine it is, and then returns -1; it returns 0 exactly when all nine calls succeeded.
  The copies of the names stay inside their buffers.\<close>

theorem mount_set_order:
  assumes "obeys k mkdtemp_law"
  shows "\<exists>a evs. run k (mount_set mnt) t = (Inr a, t @ evs) \<and> mount_end mnt a evs"
  using wp_run [OF assms mount_set_wp, of mnt t] by blast

definition mount_kernel :: kernel where
  "mount_kernel t c = (case c of
       Mkdtemp x \<Rightarrow> (ret 1)\<lparr>rbuf := bytes_of_string (take (length x - 6) x @ ''a1b2c3'')\<rparr>
     | _ \<Rightarrow> ret 0)"

text \<open>It answers every template of the program.\<close>

lemma mount_kernel_run:
  "run mount_kernel (mount_set ''/srv/rootfs'') [] = (Inr 0, map (\<lambda>c. (c, mount_kernel [] c))
     (mount_calls ''/srv/rootfs'' ''/tmp/barco.a1b2c3'' ''a1b2c3''))"
  by (simp add: mount_set_def enter_root_def pivot_root_def or_fail_def with_mkdtemp_def mount_kernel_def
      mount_template_def inner_template_def wr_def splice_def mount_calls_def basename_def ret_def Let_def)


lemma mount_kernel_obeys: "obeys mount_kernel mkdtemp_law"
proof (unfold obeys_def, intro allI)
  fix t c show "mkdtemp_law t c (mount_kernel t c)"
    by (cases c) (simp_all add: mkdtemp_law_def mount_kernel_def made_from_def, arith)
qed

lemma mount_set_order_witness:
  "\<exists>evs. run mount_kernel (mount_set ''/srv/rootfs'') [] = (Inr 0, [] @ evs) \<and> mount_end ''/srv/rootfs'' 0 evs"
  using mount_set_order [OF mount_kernel_obeys, of "''/srv/rootfs''" "[]"] mount_kernel_run by auto

end
