(* ===== verification/Security.thy ===== *)
theory Security
  imports User_Namespace
begin

text \<open>
  \<open>src/sec.c\<close>: dropping capabilities and loading the seccomp filter.  A second monitor folds the
  trace into the capability sets of the process, and the loaded filter, with its default action and
  the actions of its rules, is given the meaning that seccomp_rule_add(3) documents, so that the
  theorems speak of the sets that remain and of the action that each system call gets.
\<close>

unbundle bit_operations_syntax

section \<open>Capabilities\<close>

text \<open>Numbers of linux/capability.h.\<close>

abbreviation (input) CAP_DAC_READ_SEARCH :: nat where "CAP_DAC_READ_SEARCH \<equiv> 2"
abbreviation (input) CAP_FSETID :: nat where "CAP_FSETID \<equiv> 4"
abbreviation (input) CAP_IPC_LOCK :: nat where "CAP_IPC_LOCK \<equiv> 14"
abbreviation (input) CAP_SYS_MODULE :: nat where "CAP_SYS_MODULE \<equiv> 16"
abbreviation (input) CAP_SYS_RAWIO :: nat where "CAP_SYS_RAWIO \<equiv> 17"
abbreviation (input) CAP_SYS_ADMIN :: nat where "CAP_SYS_ADMIN \<equiv> 21"
abbreviation (input) CAP_SYS_BOOT :: nat where "CAP_SYS_BOOT \<equiv> 22"
abbreviation (input) CAP_SYS_NICE :: nat where "CAP_SYS_NICE \<equiv> 23"
abbreviation (input) CAP_SYS_RESOURCE :: nat where "CAP_SYS_RESOURCE \<equiv> 24"
abbreviation (input) CAP_SYS_TIME :: nat where "CAP_SYS_TIME \<equiv> 25"
abbreviation (input) CAP_MKNOD :: nat where "CAP_MKNOD \<equiv> 27"
abbreviation (input) CAP_AUDIT_WRITE :: nat where "CAP_AUDIT_WRITE \<equiv> 29"
abbreviation (input) CAP_AUDIT_CONTROL :: nat where "CAP_AUDIT_CONTROL \<equiv> 30"
abbreviation (input) CAP_SETFCAP :: nat where "CAP_SETFCAP \<equiv> 31"
abbreviation (input) CAP_MAC_OVERRIDE :: nat where "CAP_MAC_OVERRIDE \<equiv> 32"
abbreviation (input) CAP_MAC_ADMIN :: nat where "CAP_MAC_ADMIN \<equiv> 33"
abbreviation (input) CAP_SYSLOG :: nat where "CAP_SYSLOG \<equiv> 34"
abbreviation (input) CAP_WAKE_ALARM :: nat where "CAP_WAKE_ALARM \<equiv> 35"
abbreviation (input) CAP_BLOCK_SUSPEND :: nat where "CAP_BLOCK_SUSPEND \<equiv> 36"
abbreviation (input) CAP_AUDIT_READ :: nat where "CAP_AUDIT_READ \<equiv> 37"

definition drop_caps :: "nat list" where
  "drop_caps = [CAP_AUDIT_CONTROL, CAP_AUDIT_READ, CAP_AUDIT_WRITE, CAP_BLOCK_SUSPEND,
     CAP_DAC_READ_SEARCH, CAP_FSETID, CAP_IPC_LOCK, CAP_MAC_ADMIN,
     CAP_MAC_OVERRIDE, CAP_MKNOD, CAP_SETFCAP, CAP_SYSLOG,
     CAP_SYS_ADMIN, CAP_SYS_BOOT, CAP_SYS_MODULE, CAP_SYS_NICE,
     CAP_SYS_RAWIO, CAP_SYS_RESOURCE, CAP_SYS_TIME, CAP_WAKE_ALARM]"

fun drop_bounding :: "nat list \<Rightarrow> int prog \<Rightarrow> int prog" where
  "drop_bounding [] k = k"
| "drop_bounding (c # cs) k = Sys (Prctl_capbset_drop c) (\<lambda>r. if rv r \<noteq> 0 then Ret 1 else drop_bounding cs k)"

definition caps_fail :: "int prog" where
  "caps_fail = perform Cap_free (Ret 1)"

definition sec_set_caps :: "int prog" where
  "sec_set_caps = drop_bounding drop_caps (
     Sys Cap_get_proc (\<lambda>caps. if rv caps = 0 then Ret 1
     else Sys (Cap_clear_inheritable drop_caps) (\<lambda>r. if rv r \<noteq> 0 then caps_fail
     else Sys Cap_set_proc (\<lambda>r. if rv r \<noteq> 0 then caps_fail
     else perform Cap_free (Ret 0)))))"

section \<open>Seccomp\<close>

abbreviation (input) SCMP_ACT_ALLOW :: nat where "SCMP_ACT_ALLOW \<equiv> 2147418112"
abbreviation (input) S_ISUID :: nat where "S_ISUID \<equiv> 2048"
abbreviation (input) S_ISGID :: nat where "S_ISGID \<equiv> 1024"
abbreviation (input) TIOCSTI :: nat where "TIOCSTI \<equiv> 21522"

text \<open>\<open>SEC_SCMP_FAIL\<close>, that is \<open>SCMP_ACT_ERRNO(EPERM)\<close>.\<close>

definition SEC_SCMP_FAIL :: nat where
  "SEC_SCMP_FAIL = 327680 + EPERM"

text \<open>\<open>seccomp_rule_add(ctx, SEC_SCMP_FAIL, SCMP_SYS(sc), 1, SCMP_Ai(SCMP_CMP_MASKED_EQ, v, v))\<close> and the
  rule without a comparison.\<close>

definition masked_rule :: "string \<Rightarrow> nat \<Rightarrow> nat \<Rightarrow> scmp_rule" where
  "masked_rule sc i v = \<lparr>scmp_action = SEC_SCMP_FAIL, scmp_syscall = sc, scmp_cmp = Some (i, v, v)\<rparr>"

definition plain_rule :: "string \<Rightarrow> scmp_rule" where
  "plain_rule sc = \<lparr>scmp_action = SEC_SCMP_FAIL, scmp_syscall = sc, scmp_cmp = None\<rparr>"

definition seccomp_rules :: "scmp_rule list" where
  "seccomp_rules =
     [masked_rule ''chmod'' 1 S_ISUID, masked_rule ''chmod'' 1 S_ISGID,
      masked_rule ''fchmod'' 1 S_ISUID, masked_rule ''fchmod'' 1 S_ISGID,
      masked_rule ''fchmodat'' 2 S_ISUID, masked_rule ''fchmodat'' 2 S_ISGID,
      masked_rule ''unshare'' 0 CLONE_NEWUSER, masked_rule ''clone'' 0 CLONE_NEWUSER,
      masked_rule ''ioctl'' 1 TIOCSTI,
      plain_rule ''keyctl'', plain_rule ''add_key'', plain_rule ''request_key'',
      plain_rule ''ptrace'',
      plain_rule ''mbind'', plain_rule ''migrate_pages'', plain_rule ''move_pages'', plain_rule ''set_mempolicy'',
      plain_rule ''userfaultfd'',
      plain_rule ''perf_event_open'']"

definition seccomp_fail :: "int prog" where
  "seccomp_fail = perform Seccomp_release (Ret 1)"

fun add_rules :: "scmp_rule list \<Rightarrow> int prog \<Rightarrow> int prog" where
  "add_rules [] k = k"
| "add_rules (x # xs) k = Sys (Seccomp_rule_add x) (\<lambda>r. if rv r \<noteq> 0 then seccomp_fail else add_rules xs k)"

definition sec_set_seccomp :: "int prog" where
  "sec_set_seccomp = Sys (Seccomp_init SCMP_ACT_ALLOW) (\<lambda>ctx. if rv ctx = 0 then Ret 1
     else add_rules seccomp_rules (
       Sys (Seccomp_attr_set_nnp 0) (\<lambda>r. if rv r \<noteq> 0 then seccomp_fail
       else Sys Seccomp_load (\<lambda>r. if rv r \<noteq> 0 then seccomp_fail
       else perform Seccomp_release (Ret 0)))))"

section \<open>The capability sets\<close>

text \<open>The sets of the calling process, the set in the \<open>cap_t\<close> being edited, and the number of \<open>cap_t\<close>
  handles not yet freed.\<close>

record cap_sets =
  bounding :: "nat set"
  inheritable :: "nat set"
  working :: "nat set"
  cap_handles :: int

definition cap_step :: "cap_sets \<Rightarrow> event \<Rightarrow> cap_sets" where
  "cap_step s e = (case e of (c, r) \<Rightarrow> (case c of
      Prctl_capbset_drop n \<Rightarrow> if rv r = 0 then s\<lparr>bounding := bounding s - {n}\<rparr> else s
    | Cap_get_proc \<Rightarrow> if rv r \<noteq> 0 then s\<lparr>working := inheritable s, cap_handles := cap_handles s + 1\<rparr> else s
    | Cap_free \<Rightarrow> s\<lparr>cap_handles := cap_handles s - 1\<rparr>
    | Cap_clear_inheritable l \<Rightarrow> if rv r = 0 then s\<lparr>working := working s - set l\<rparr> else s
    | Cap_set_proc \<Rightarrow> if rv r = 0 then s\<lparr>inheritable := working s\<rparr> else s
    | _ \<Rightarrow> s))"

definition cap_idle :: "call \<Rightarrow> bool" where
  "cap_idle c = (case c of Prctl_capbset_drop n \<Rightarrow> False | Cap_get_proc \<Rightarrow> False
     | Cap_clear_inheritable l \<Rightarrow> False | Cap_free \<Rightarrow> False | Cap_set_proc \<Rightarrow> False | _ \<Rightarrow> True)"

lemma cap_step_idle: "cap_idle c \<Longrightarrow> cap_step s (c, r) = s"
  by (cases c) (simp_all add: cap_step_def cap_idle_def)

interpretation caps: monitor cap_step cap_idle
  by unfold_locales (rule cap_step_idle)

lemma cap_step_simps [simp]:
  "cap_step s (Prctl_capbset_drop n, r) = (if rv r = 0 then s\<lparr>bounding := bounding s - {n}\<rparr> else s)"
  "cap_step s (Cap_get_proc, r) = (if rv r \<noteq> 0 then s\<lparr>working := inheritable s, cap_handles := cap_handles s + 1\<rparr> else s)"
  "cap_step s (Cap_clear_inheritable l, r) = (if rv r = 0 then s\<lparr>working := working s - set l\<rparr> else s)"
  "cap_step s (Cap_set_proc, r) = (if rv r = 0 then s\<lparr>inheritable := working s\<rparr> else s)"
  "cap_step s (Cap_free, r) = s\<lparr>cap_handles := cap_handles s - 1\<rparr>"
  by (simp_all add: cap_step_def)

lemma drop_bounding_wp:
  assumes "\<And>t'. bounding (observe cap_step s t') = bounding (observe cap_step s t) - set cs \<Longrightarrow>
      inheritable (observe cap_step s t') = inheritable (observe cap_step s t) \<Longrightarrow>
      cap_handles (observe cap_step s t') = cap_handles (observe cap_step s t) \<Longrightarrow> wp ok k Q t'"
    and "\<And>t'. inheritable (observe cap_step s t') = inheritable (observe cap_step s t) \<Longrightarrow>
      cap_handles (observe cap_step s t') = cap_handles (observe cap_step s t) \<Longrightarrow> Q 1 t'"
  shows "wp ok (drop_bounding cs k) Q t"
  using assms
proof (induction cs arbitrary: t)
  case (Cons c cs)
  have same: "inheritable (observe cap_step s (t @ [(Prctl_capbset_drop c, r)])) = inheritable (observe cap_step s t)"
    "cap_handles (observe cap_step s (t @ [(Prctl_capbset_drop c, r)])) = cap_handles (observe cap_step s t)" for r
    by simp_all
  have "wp ok (drop_bounding cs k) Q (t @ [(Prctl_capbset_drop c, r)])" if "rv r = 0" for r
  proof (rule Cons.IH; unfold same)
    fix t'
    assume *: "bounding (observe cap_step s t') =
        bounding (observe cap_step s (t @ [(Prctl_capbset_drop c, r)])) - set cs"
      "inheritable (observe cap_step s t') = inheritable (observe cap_step s t)"
      "cap_handles (observe cap_step s t') = cap_handles (observe cap_step s t)"
    show "wp ok k Q t'"
      by (rule Cons.prems(1)) (use * that in auto)
  qed (rule Cons.prems(2))
  then show ?case using Cons.prems(2) by (simp add: same)
qed simp

lemma sec_set_caps_wp:
  "wp ok sec_set_caps (\<lambda>a t'. (a = 0 \<or> a = 1) \<and>
     cap_handles (observe cap_step s t') = cap_handles (observe cap_step s t) \<and>
     (if a = 0
      then bounding (observe cap_step s t') = bounding (observe cap_step s t) - set drop_caps \<and>
        inheritable (observe cap_step s t') = inheritable (observe cap_step s t) - set drop_caps
      else inheritable (observe cap_step s t') = inheritable (observe cap_step s t))) t"
  unfolding sec_set_caps_def
  by (rule drop_bounding_wp [where s = s]) (auto simp: caps_fail_def observe_append)

section \<open>The meaning of the filter\<close>

text \<open>
  A loaded filter: its default action, whether it sets \<open>no_new_privs\<close>, and its rules.  A rule matches
  a call of its system call whose masked argument equals the datum.  A call gets the action of a
  rule that matches it, and the default action if none does; it is refused if that action is the one
  that makes it fail with \<open>EPERM\<close> (\<open>SCMP_ACT_ERRNO(1)\<close> is 0x00050001).
\<close>

record scmp_filter =
  sf_default :: nat
  sf_nnp :: bool
  sf_rules :: "scmp_rule list"

definition rule_matches :: "scmp_rule \<Rightarrow> string \<Rightarrow> nat list \<Rightarrow> bool" where
  "rule_matches x sc args \<longleftrightarrow> scmp_syscall x = sc \<and>
     (case scmp_cmp x of None \<Rightarrow> True | Some (i, m, d) \<Rightarrow> i < length args \<and> args ! i AND m = d)"

definition filter_action :: "scmp_filter \<Rightarrow> string \<Rightarrow> nat list \<Rightarrow> nat" where
  "filter_action f sc args = (case find (\<lambda>x. rule_matches x sc args) (sf_rules f) of
     Some x \<Rightarrow> scmp_action x | None \<Rightarrow> sf_default f)"

definition refused :: "scmp_filter \<Rightarrow> string \<Rightarrow> nat list \<Rightarrow> bool" where
  "refused f sc args \<longleftrightarrow> filter_action f sc args = 327681"

text \<open>The filter being built since the last \<open>seccomp_init\<close>, the one loaded, and the number of contexts
  not yet released.  \<open>no_new_privs\<close> is on unless the attribute is set to 0 (seccomp\_attr\_set(3)).\<close>

record filter_state =
  fs_filter :: scmp_filter
  fs_loaded :: "scmp_filter option"
  fs_contexts :: int

definition empty_filter :: "nat \<Rightarrow> scmp_filter" where
  "empty_filter d = \<lparr>sf_default = d, sf_nnp = True, sf_rules = []\<rparr>"

definition filter_step :: "filter_state \<Rightarrow> event \<Rightarrow> filter_state" where
  "filter_step s e = (case e of (c, r) \<Rightarrow> (case c of
      Seccomp_init d \<Rightarrow> if rv r \<noteq> 0 then s\<lparr>fs_filter := empty_filter d, fs_contexts := fs_contexts s + 1\<rparr> else s
    | Seccomp_rule_add x \<Rightarrow> if rv r = 0 then s\<lparr>fs_filter := (fs_filter s)\<lparr>sf_rules := sf_rules (fs_filter s) @ [x]\<rparr>\<rparr> else s
    | Seccomp_attr_set_nnp n \<Rightarrow> if rv r = 0 then s\<lparr>fs_filter := (fs_filter s)\<lparr>sf_nnp := (n \<noteq> 0)\<rparr>\<rparr> else s
    | Seccomp_release \<Rightarrow> s\<lparr>fs_contexts := fs_contexts s - 1\<rparr>
    | Seccomp_load \<Rightarrow> if rv r = 0 then s\<lparr>fs_loaded := Some (fs_filter s)\<rparr> else s
    | _ \<Rightarrow> s))"

definition filter_idle :: "call \<Rightarrow> bool" where
  "filter_idle c = (case c of Seccomp_init d \<Rightarrow> False | Seccomp_rule_add x \<Rightarrow> False | Seccomp_attr_set_nnp n \<Rightarrow> False | Seccomp_load \<Rightarrow> False | Seccomp_release \<Rightarrow> False | _ \<Rightarrow> True)"

lemma filter_step_idle: "filter_idle c \<Longrightarrow> filter_step s (c, r) = s"
  by (cases c) (simp_all add: filter_step_def filter_idle_def)

interpretation scmp: monitor filter_step filter_idle
  by unfold_locales (rule filter_step_idle)

lemma filter_step_simps [simp]:
  "filter_step s (Seccomp_init d, r) = (if rv r \<noteq> 0 then s\<lparr>fs_filter := empty_filter d, fs_contexts := fs_contexts s + 1\<rparr> else s)"
  "filter_step s (Seccomp_rule_add x, r) =
     (if rv r = 0 then s\<lparr>fs_filter := (fs_filter s)\<lparr>sf_rules := sf_rules (fs_filter s) @ [x]\<rparr>\<rparr> else s)"
  "filter_step s (Seccomp_attr_set_nnp n, r) = (if rv r = 0 then s\<lparr>fs_filter := (fs_filter s)\<lparr>sf_nnp := (n \<noteq> 0)\<rparr>\<rparr> else s)"
  "filter_step s (Seccomp_load, r) = (if rv r = 0 then s\<lparr>fs_loaded := Some (fs_filter s)\<rparr> else s)"
  "filter_step s (Seccomp_release, r) = s\<lparr>fs_contexts := fs_contexts s - 1\<rparr>"
  by (simp_all add: filter_step_def)

text \<open>The filter that \<open>sec_set_seccomp\<close> builds.\<close>

definition seccomp_filter :: scmp_filter where
  "seccomp_filter = \<lparr>sf_default = SCMP_ACT_ALLOW, sf_nnp = False, sf_rules = seccomp_rules\<rparr>"

lemma add_rules_wp:
  assumes "\<And>t'. fs_filter (observe filter_step s t') =
        (fs_filter (observe filter_step s t))\<lparr>sf_rules := sf_rules (fs_filter (observe filter_step s t)) @ xs\<rparr> \<Longrightarrow>
      fs_loaded (observe filter_step s t') = fs_loaded (observe filter_step s t) \<Longrightarrow>
      fs_contexts (observe filter_step s t') = fs_contexts (observe filter_step s t) \<Longrightarrow> wp ok k Q t'"
    and "\<And>t'. fs_loaded (observe filter_step s t') = fs_loaded (observe filter_step s t) \<Longrightarrow>
      fs_contexts (observe filter_step s t') = fs_contexts (observe filter_step s t) - 1 \<Longrightarrow> Q 1 t'"
  shows "wp ok (add_rules xs k) Q t"
  using assms
proof (induction xs arbitrary: t)
  case (Cons x xs)
  have same: "fs_loaded (observe filter_step s (t @ [(Seccomp_rule_add x, r)])) = fs_loaded (observe filter_step s t)"
    "fs_contexts (observe filter_step s (t @ [(Seccomp_rule_add x, r)])) = fs_contexts (observe filter_step s t)" for r
    by simp_all
  have "wp ok (add_rules xs k) Q (t @ [(Seccomp_rule_add x, r)])" if "rv r = 0" for r
    by (rule Cons.IH; unfold same)
      (rule Cons.prems(1), use that in \<open>simp_all add: Cons.prems(2)\<close>)
  moreover have "Q 1 (t @ [(Seccomp_rule_add x, r), (Seccomp_release, r')])" for r r'
    by (rule Cons.prems(2)) (simp_all add: observe_append)
  ultimately show ?case by (simp add: seccomp_fail_def)
qed simp

lemma sec_set_seccomp_wp:
  "wp ok sec_set_seccomp (\<lambda>a t'. (a = 0 \<or> a = 1) \<and>
     fs_loaded (observe filter_step s t') = (if a = 0 then Some seccomp_filter else fs_loaded (observe filter_step s t)) \<and>
     fs_contexts (observe filter_step s t') = fs_contexts (observe filter_step s t)) t"
  unfolding sec_set_seccomp_def
  apply (simp, intro allI impI conjI)
  apply (rule add_rules_wp [where s = s])
   apply (auto simp: seccomp_fail_def observe_append seccomp_filter_def empty_filter_def)
  done

text \<open>A filter whose rules all have the same action.\<close>

definition matched :: "scmp_rule list \<Rightarrow> string \<Rightarrow> nat list \<Rightarrow> bool" where
  "matched xs sc args \<longleftrightarrow> (\<exists>x \<in> set xs. rule_matches x sc args)"

lemma filter_action_uniform:
  assumes "\<forall>x \<in> set (sf_rules f). scmp_action x = act"
  shows "filter_action f sc args = (if matched (sf_rules f) sc args then act else sf_default f)"
proof (cases "find (\<lambda>x. rule_matches x sc args) (sf_rules f)")
  case None
  then have "\<not> matched (sf_rules f) sc args" by (simp add: matched_def find_None_iff)
  then show ?thesis using None by (simp add: filter_action_def)
next
  case (Some x)
  then have "x \<in> set (sf_rules f)" "rule_matches x sc args" by (auto simp: find_Some_iff)
  then show ?thesis using assms Some by (auto simp: filter_action_def matched_def)
qed

lemma and_exp_nat: "(n :: nat) AND 2 ^ k = 2 ^ k \<longleftrightarrow> bit n k"
proof
  assume "n AND 2 ^ k = 2 ^ k"
  then have "bit (n AND 2 ^ k) k" by (simp add: bit_exp_iff)
  then show "bit n k" by (simp add: bit_and_iff)
next
  assume "bit n k"
  then show "n AND 2 ^ k = 2 ^ k" by (intro bit_eqI) (auto simp: bit_and_iff bit_exp_iff)
qed

lemma and_bits:
  "(n :: nat) AND 2048 = 2048 \<longleftrightarrow> bit n 11" "n AND 1024 = 1024 \<longleftrightarrow> bit n 10"
  "n AND 268435456 = 268435456 \<longleftrightarrow> bit n 28"
  using and_exp_nat [of n 11] and_exp_nat [of n 10] and_exp_nat [of n 28] by simp_all

lemma drop_caps_card: "card (set drop_caps) = 20"
  by (simp add: drop_caps_def)

section \<open>Properties\<close>

text \<open>C34: sec_set_caps returns 0 or 1, never a negative number. Returning 0, it has removed the capabilities
  of the code's list, and nothing else, from the bounding and the inheritable set of the process;
  returning 1 it has left the inheritable set as it was. On every path the cap_t it got is freed once.
  The list of the code has twenty different capabilities, where the comment above it and the
  architecture document speak of eighteen.\<close>

theorem sec_set_caps_verdict:
  "\<exists>a t'. run k sec_set_caps t = (Inr a, t') \<and> (a = 0 \<or> a = 1) \<and>
     cap_handles (observe cap_step s t') = cap_handles (observe cap_step s t) \<and>
     (if a = 0
      then bounding (observe cap_step s t') = bounding (observe cap_step s t) - set drop_caps \<and>
        inheritable (observe cap_step s t') = inheritable (observe cap_step s t) - set drop_caps
      else inheritable (observe cap_step s t') = inheritable (observe cap_step s t)) \<and>
     card (set drop_caps) = 20"
  using wp_run [OF obeys_any sec_set_caps_wp, of k t s] drop_caps_card by blast

text \<open>sec_set_seccomp returns 0 or 1, never a negative number, and releases the filter context once on
  every path. After 0 the loaded filter consists of all nineteen rules; after 1 no filter of this
  call is in force.  The filter does not set no_new_privs, against what the comment says of it.\<close>

theorem sec_set_seccomp_verdict:
  "\<exists>a t'. run k sec_set_seccomp t = (Inr a, t') \<and> (a = 0 \<or> a = 1) \<and>
     fs_contexts (observe filter_step s t') = fs_contexts (observe filter_step s t) \<and>
     fs_loaded (observe filter_step s t') =
       (if a = 0 then Some seccomp_filter else fs_loaded (observe filter_step s t))"
  using wp_run [OF obeys_any sec_set_seccomp_wp, of k t s] by blast

lemma matched_simps [simp]:
  "matched [] sc args = False"
  "matched (masked_rule sc' i v # xs) sc args = (sc = sc' \<and> i < length args \<and> args ! i AND v = v \<or> matched xs sc args)"
  "matched (plain_rule sc' # xs) sc args = (sc = sc' \<or> matched xs sc args)"
  by (auto simp: matched_def rule_matches_def masked_rule_def plain_rule_def)

lemma seccomp_action: "\<forall>x \<in> set seccomp_rules. scmp_action x = SEC_SCMP_FAIL"
  by (simp add: seccomp_rules_def masked_rule_def plain_rule_def)

lemma filter_action_seccomp:
  "filter_action seccomp_filter sc args = (if matched seccomp_rules sc args then 327681 else SCMP_ACT_ALLOW)"
  using filter_action_uniform [of seccomp_filter SEC_SCMP_FAIL sc args] seccomp_action
  by (simp add: seccomp_filter_def SEC_SCMP_FAIL_def)

lemma refused_matched: "refused seccomp_filter sc args = matched seccomp_rules sc args"
  by (simp add: refused_def filter_action_seccomp)

lemma refused_seccomp:
  "refused seccomp_filter sc args \<longleftrightarrow>
     sc = ''chmod'' \<and> 1 < length args \<and> (bit (args ! 1) 11 \<or> bit (args ! 1) 10) \<or>
     sc = ''fchmod'' \<and> 1 < length args \<and> (bit (args ! 1) 11 \<or> bit (args ! 1) 10) \<or>
     sc = ''fchmodat'' \<and> 2 < length args \<and> (bit (args ! 2) 11 \<or> bit (args ! 2) 10) \<or>
     sc = ''unshare'' \<and> 0 < length args \<and> bit (args ! 0) 28 \<or>
     sc = ''clone'' \<and> 0 < length args \<and> bit (args ! 0) 28 \<or>
     sc = ''ioctl'' \<and> 1 < length args \<and> args ! 1 AND TIOCSTI = TIOCSTI \<or>
     sc = ''keyctl'' \<or> sc = ''add_key'' \<or> sc = ''request_key'' \<or> sc = ''ptrace'' \<or> sc = ''mbind'' \<or>
     sc = ''migrate_pages'' \<or> sc = ''move_pages'' \<or> sc = ''set_mempolicy'' \<or> sc = ''userfaultfd'' \<or>
     sc = ''perf_event_open''"
  unfolding refused_matched seccomp_rules_def matched_simps and_bits simp_thms disj_assoc conj_disj_distribL ..

text \<open>The calls refused for all arguments, and those refused for some.\<close>

lemma refused_always:
  "{sc. \<forall>args. refused seccomp_filter sc args} =
     {''keyctl'', ''add_key'', ''request_key'', ''ptrace'', ''mbind'', ''migrate_pages'', ''move_pages'',
      ''set_mempolicy'', ''userfaultfd'', ''perf_event_open''}" (is "?L = ?R")
proof
  have "sc \<in> ?R" if "refused seccomp_filter sc []" for sc
    using that by (simp add: refused_seccomp)
  then show "?L \<subseteq> ?R" by (intro subsetI) (simp only: mem_Collect_eq)
  show "?R \<subseteq> ?L" by (simp add: refused_seccomp)
qed

lemma refused_some:
  "{sc. \<exists>args. refused seccomp_filter sc args} =
     {''chmod'', ''fchmod'', ''fchmodat'', ''unshare'', ''clone'', ''ioctl'',
      ''keyctl'', ''add_key'', ''request_key'', ''ptrace'', ''mbind'', ''migrate_pages'', ''move_pages'',
      ''set_mempolicy'', ''userfaultfd'', ''perf_event_open''}" (is "?L = ?R")
proof -
  have m: "\<exists>args. rule_matches (masked_rule sc i v) sc args" for sc i v
    by (rule exI [of _ "replicate (Suc i) v"]) (simp del: replicate.simps add: rule_matches_def masked_rule_def)
  have p: "\<exists>args. rule_matches (plain_rule sc) sc args" for sc
    by (simp add: rule_matches_def plain_rule_def)
  have n: "scmp_syscall (masked_rule sc i v) = sc" "scmp_syscall (plain_rule sc) = sc" for sc i v
    by (simp_all add: masked_rule_def plain_rule_def)
  have "\<forall>x \<in> set seccomp_rules. \<exists>args. rule_matches x (scmp_syscall x) args"
    by (simp add: seccomp_rules_def n m p)
  moreover have h: "rule_matches x sc args \<Longrightarrow> sc = scmp_syscall x" for x sc args
    by (simp add: rule_matches_def)
  ultimately have "?L = scmp_syscall ` set seccomp_rules"
    unfolding refused_matched matched_def using h by blast
  also have "\<dots> = ?R" by (simp add: seccomp_rules_def n)
  finally show ?thesis .
qed

text \<open>The terminal requests of asm-generic/ioctls.h are 0x5401 to 0x5460.\<close>

text \<open>C35: Whatever libseccomp answers, sec_set_seccomp ends, and when it returns 0 the filter it loaded is
  seccomp_filter (otherwise it loaded none).  Under that filter every system call is either made to
  fail with EPERM or allowed.  It is refused on some arguments exactly for the sixteen calls that the
  rules name: without condition for ten of them; for chmod, fchmod and fchmodat exactly when the mode
  has the set-user-ID or the set-group-ID bit; for unshare and clone exactly when the flags have
  CLONE_NEWUSER; clone3, which takes its flags in memory, is never refused; and because the ioctl rule
  compares under the mask TIOCSTI, it refuses 24 of the 96 terminal requests, TIOCSTI (0x5412) and
  with it TIOCGWINSZ (0x5413), TIOCMBIS and TIOCMBIC, TIOCSSOFTCAR, FIONREAD (0x541B), TIOCGSERIAL
  and TIOCSSERIAL.\<close>

theorem seccomp_filter_meaning:
  "(\<exists>a t'. run k sec_set_seccomp t = (Inr a, t') \<and> fs_loaded (observe filter_step s t') =
      (if a = 0 then Some seccomp_filter else fs_loaded (observe filter_step s t))) \<and>
   (\<forall>sc args. filter_action seccomp_filter sc args = (if refused seccomp_filter sc args then 327681 else SCMP_ACT_ALLOW)) \<and>
   {sc. \<exists>args. refused seccomp_filter sc args} =
     {''chmod'', ''fchmod'', ''fchmodat'', ''unshare'', ''clone'', ''ioctl'',
      ''keyctl'', ''add_key'', ''request_key'', ''ptrace'', ''mbind'', ''migrate_pages'', ''move_pages'',
      ''set_mempolicy'', ''userfaultfd'', ''perf_event_open''} \<and>
   {sc. \<forall>args. refused seccomp_filter sc args} =
     {''keyctl'', ''add_key'', ''request_key'', ''ptrace'', ''mbind'', ''migrate_pages'', ''move_pages'',
      ''set_mempolicy'', ''userfaultfd'', ''perf_event_open''} \<and>
   (\<forall>path mode. refused seccomp_filter ''chmod'' [path, mode] = (bit mode 11 \<or> bit mode 10)) \<and>
   (\<forall>fd mode. refused seccomp_filter ''fchmod'' [fd, mode] = (bit mode 11 \<or> bit mode 10)) \<and>
   (\<forall>fd path mode. refused seccomp_filter ''fchmodat'' [fd, path, mode] = (bit mode 11 \<or> bit mode 10)) \<and>
   (\<forall>flags. refused seccomp_filter ''unshare'' [flags] = bit flags 28) \<and>
   (\<forall>flags args. refused seccomp_filter ''clone'' (flags # args) = bit flags 28) \<and>
   (\<forall>args. \<not> refused seccomp_filter ''clone3'' args) \<and>
   filter (\<lambda>n. refused seccomp_filter ''ioctl'' [fd, n, arg]) [21505..<21601] =
     [21522, 21523, 21526, 21527, 21530, 21531, 21534, 21535,
      21554, 21555, 21558, 21559, 21562, 21563, 21566, 21567,
      21586, 21587, 21590, 21591, 21594, 21595, 21598, 21599]"
proof (intro conjI)
  show "\<exists>a t'. run k sec_set_seccomp t = (Inr a, t') \<and> fs_loaded (observe filter_step s t') =
      (if a = 0 then Some seccomp_filter else fs_loaded (observe filter_step s t))"
    using wp_run [OF obeys_any sec_set_seccomp_wp, of k t s] by blast
  show "\<forall>sc args. filter_action seccomp_filter sc args = (if refused seccomp_filter sc args then 327681 else SCMP_ACT_ALLOW)"
    by (simp add: filter_action_seccomp refused_matched)
  show "{sc. \<exists>args. refused seccomp_filter sc args} = 
     {''chmod'', ''fchmod'', ''fchmodat'', ''unshare'', ''clone'', ''ioctl'',
      ''keyctl'', ''add_key'', ''request_key'', ''ptrace'', ''mbind'', ''migrate_pages'', ''move_pages'',
      ''set_mempolicy'', ''userfaultfd'', ''perf_event_open''}"
    by (rule refused_some)
  show "{sc. \<forall>args. refused seccomp_filter sc args} =
     {''keyctl'', ''add_key'', ''request_key'', ''ptrace'', ''mbind'', ''migrate_pages'', ''move_pages'',
      ''set_mempolicy'', ''userfaultfd'', ''perf_event_open''}"
    by (rule refused_always)
  show "filter (\<lambda>n. refused seccomp_filter ''ioctl'' [fd, n, arg]) [21505..<21601] =
     [21522, 21523, 21526, 21527, 21530, 21531, 21534, 21535,
      21554, 21555, 21558, 21559, 21562, 21563, 21566, 21567,
      21586, 21587, 21590, 21591, 21594, 21595, 21598, 21599]"
    by (simp add: refused_seccomp upt_rec)
qed (simp_all add: refused_seccomp)

end
