(* ===== verification/Container.thy ===== *)
theory Container
  imports Netlink_Ops User_Namespace Mounts Security
begin

text \<open>
  \<open>src/container.c\<close>: the process that \<open>clone\<close> starts, from its first call to \<open>execve\<close>, and the
  operations of the parent on it.  \<open>container_start\<close> is modelled in the stages of its comments; the
  label \<open>fail\<close> is \<open>start_fail\<close>.  \<open>clone\<close> is called without \<open>CLONE_VM\<close>, so the child works on a copy
  of the configuration.  A reply to \<open>execve\<close> that is not negative stands for success: the program
  is then replaced.
\<close>

section \<open>The configuration\<close>

text \<open>\<open>container_config\<close> of \<open>include/container.h\<close>; a null pointer is \<open>None\<close>.\<close>

record container_config =
  cc_uid :: nat
  cc_fd :: int
  cc_hostname :: "string option"
  cc_cmd :: string
  cc_arg :: "string option"
  cc_mnt :: string
  cc_veth_name :: "string option"
  cc_veth_peer :: "string option"
  cc_veth_tmp :: "string option"
  cc_container_ip :: "string option"
  cc_host_ip :: "string option"
  cc_dns_server :: "string option"
  cc_enable_nat :: bool

definition CONTAINER_STACK_SIZE :: nat where
  "CONTAINER_STACK_SIZE = 1024 * 1024"

section \<open>Helpers\<close>

definition ping_path :: string where
  "ping_path = ''/proc/sys/net/ipv4/ping_group_range''"

definition enable_ping_dgram :: "int prog" where
  "enable_ping_dgram = Sys (Open ping_path O_WRONLY 0) (\<lambda>r.
     if rv r < 0 then Ret (-1)
     else Sys (Write (rv r) (bytes_of_string ''0 65535\<newline>'')) (\<lambda>n.
       perform (Close (rv r)) (if rv n \<noteq> 8 then Ret (-1) else Ret 0)))"

text \<open>The text that \<open>snprintf\<close> formats; its return value is the length of this text even when the
  256-byte buffer holds less of it.\<close>

definition resolv_conf :: "string \<Rightarrow> string" where
  "resolv_conf dns = ''# generated by barco\<newline>nameserver '' @ dns @
     ''\<newline>nameserver 8.8.4.4\<newline>options timeout:2 attempts:3\<newline>''"

abbreviation (input) O_CREAT :: nat where "O_CREAT \<equiv> 64"
abbreviation (input) O_TRUNC :: nat where "O_TRUNC \<equiv> 512"

text \<open>\<open>write(fd, buf, len)\<close> reads \<open>len\<close> bytes of the buffer.\<close>

definition setup_dns :: "string option \<Rightarrow> int prog" where
  "setup_dns dns_server = (case dns_server of
       None \<Rightarrow> Ret 0
     | Some dns \<Rightarrow> Sys (Open ''/etc/resolv.conf'' (O_WRONLY + O_CREAT + O_TRUNC) 420) (\<lambda>r.
         if rv r < 0 then Ret (-1)
         else (let len = length (resolv_conf dns); buf = cstring (snprintf_s 256 (resolv_conf dns)) in
           checked (rd buf 0 len) (\<lambda>data.
             Sys (Write (rv r) data) (\<lambda>n.
               perform (Close (rv r)) (if rv n \<noteq> int len then Ret (-1) else Ret 0))))))"

abbreviation (input) MS_RDONLY :: nat where "MS_RDONLY \<equiv> 1"

definition mount_pseudo_fs :: "int prog" where
  "mount_pseudo_fs =
     perform (Mount (Some ''proc'') ''/proc'' (Some ''proc'') (MS_NODEV + MS_NOEXEC + MS_NOSUID)) (
     perform (Mount (Some ''sysfs'') ''/sys'' (Some ''sysfs'') (MS_NODEV + MS_NOEXEC + MS_NOSUID + MS_RDONLY))
     (Ret 0))"

section \<open>container\_start\<close>

definition start_fail :: "container_config \<Rightarrow> bool \<Rightarrow> int prog" where
  "start_fail config fd_closed =
     (if \<not> fd_closed \<and> 0 \<le> cc_fd config then perform (Close (cc_fd config)) (Ret (-1)) else Ret (-1))"

text \<open>Stages 3 and 4: security restrictions, closing the socket, \<open>execve\<close>.\<close>

definition exec_call :: "container_config \<Rightarrow> call" where
  "exec_call config = Execve (cc_cmd config) [Some (cc_cmd config), cc_arg config, None]"

definition start_exec :: "container_config \<Rightarrow> int prog" where
  "start_exec config = Sys (Close (cc_fd config)) (\<lambda>r.
     if rv r < 0 then start_fail config False
     else Sys (exec_call config) (\<lambda>r. if rv r < 0 then start_fail config True else Ret 0))"

definition start_secure :: "container_config \<Rightarrow> int prog" where
  "start_secure config =
     andthen sec_set_caps (\<lambda>r. if r < 0 then start_fail config False
     else andthen sec_set_seccomp (\<lambda>r. if r < 0 then start_fail config False
     else start_exec config))"

text \<open>DNS, ping, then the user namespace.\<close>

definition start_user :: "container_config \<Rightarrow> int prog" where
  "start_user config =
     (let rest = andthen enable_ping_dgram (\<lambda>_.
        andthen (user_namespace_init (cc_uid config) (cc_fd config)) (\<lambda>r.
          if r < 0 then start_fail config False else start_secure config)) in
      case cc_dns_server config of None \<Rightarrow> rest | Some dns \<Rightarrow> andthen (setup_dns (Some dns)) (\<lambda>_. rest))"

text \<open>Stage 2: the loop that waits for the temporary interface, with the milliseconds waited.\<close>

function wait_visible :: "string \<Rightarrow> nat \<Rightarrow> nat prog" where
  "wait_visible veth_tmp waited = Sys (If_nametoindex veth_tmp) (\<lambda>r.
     if rv r = 0 then
       (if waited < 5000 then perform (Usleep 100000) (wait_visible veth_tmp (waited + 100)) else Ret waited)
     else Ret waited)"
  by pat_completeness auto
termination
  by (relation "measure (\<lambda>(veth_tmp, waited). 5000 - waited)") auto

declare wait_visible.simps [simp del]

definition start_rename :: "container_config \<Rightarrow> string \<Rightarrow> int prog \<Rightarrow> int prog" where
  "start_rename config name k = (case cc_veth_tmp config of
       None \<Rightarrow> k
     | Some veth_tmp \<Rightarrow> andthen (wait_visible veth_tmp 0) (\<lambda>waited.
         if 5000 \<le> waited then start_fail config False
         else andthen (nl_rename_link veth_tmp name) (\<lambda>r.
           if r < 0 then start_fail config False else k)))"

text \<open>The gateway is the host address up to its slash, in a buffer of \<open>INET_ADDRSTRLEN\<close> = 16 bytes.\<close>

definition start_route :: "container_config \<Rightarrow> string \<Rightarrow> int prog \<Rightarrow> int prog" where
  "start_route config name k = (case cc_host_ip config of
       None \<Rightarrow> k
     | Some host_ip \<Rightarrow>
         (let host_gw = before_slash host_ip in
          if 16 \<le> length host_gw then start_fail config False
          else andthen (nl_add_route (Some ''default'') (Some host_gw) (Some name)) (\<lambda>_. k)))"

definition start_net :: "container_config \<Rightarrow> int prog" where
  "start_net config = (case (cc_veth_name config, cc_container_ip config) of
       (Some name, Some ip) \<Rightarrow>
         andthen (nl_set_up ''lo'') (\<lambda>_.
         start_rename config name (
         andthen (nl_add_addr name ip) (\<lambda>r. if r < 0 then start_fail config False
         else andthen (nl_set_up name) (\<lambda>r. if r < 0 then start_fail config False
         else start_route config name (start_user config)))))
     | _ \<Rightarrow> start_user config)"

definition start_mount :: "container_config \<Rightarrow> int prog" where
  "start_mount config = andthen (mount_set (cc_mnt config)) (\<lambda>r.
     if r < 0 then start_fail config False else start_net config)"

definition container_start :: "container_config \<Rightarrow> int prog" where
  "container_start config = (case cc_hostname config of
       None \<Rightarrow> start_mount config
     | Some hostname \<Rightarrow> Sys (Sethostname hostname) (\<lambda>r.
         if rv r < 0 then start_fail config False else start_mount config))"

section \<open>The parent\<close>

text \<open>\<open>CLONE_NEWNS | CLONE_NEWCGROUP | CLONE_NEWPID | CLONE_NEWIPC | CLONE_NEWNET | CLONE_NEWUTS | SIGCHLD\<close>.\<close>

definition clone_flags :: nat where
  "clone_flags = 0x20000 + 0x2000000 + 0x20000000 + 0x8000000 + 0x40000000 + 0x4000000 + 17"

definition container_init :: "container_config \<Rightarrow> (int \<times> container_config) prog" where
  "container_init config = Sys (Clone clone_flags) (\<lambda>r.
     if rv r < 0 then Ret (-1, config)
     else if 0 \<le> cc_fd config then perform (Close (cc_fd config)) (Ret (rv r, config\<lparr>cc_fd := -1\<rparr>))
     else Ret (rv r, config))"

text \<open>The macros of sys/wait.h on a wait status.\<close>

definition WTERMSIG :: "int \<Rightarrow> int" where
  "WTERMSIG status = status mod 128"

definition WIFEXITED :: "int \<Rightarrow> bool" where
  "WIFEXITED status \<longleftrightarrow> WTERMSIG status = 0"

definition WEXITSTATUS :: "int \<Rightarrow> int" where
  "WEXITSTATUS status = status div 256 mod 256"

definition WIFSIGNALED :: "int \<Rightarrow> bool" where
  "WIFSIGNALED status \<longleftrightarrow> 0 < WTERMSIG status \<and> WTERMSIG status < 127"

definition container_wait :: "int \<Rightarrow> int prog" where
  "container_wait pid = Sys (Waitpid pid) (\<lambda>r.
     if rv r < 0 then Ret (-1)
     else (let status = fst (rpair r) in
       if WIFEXITED status then Ret (WEXITSTATUS status)
       else if WIFSIGNALED status then Ret (128 + WTERMSIG status)
       else Ret (-1)))"

abbreviation (input) SIGKILL :: nat where "SIGKILL \<equiv> 9"

definition container_stop :: "int \<Rightarrow> unit prog" where
  "container_stop pid = Sys (Kill pid SIGKILL) (\<lambda>r.
     if rv r < 0 then Ret () else perform (Waitpid pid) (Ret ()))"

section \<open>Which calls the stages make\<close>

definition not_exec :: "call \<Rightarrow> bool" where
  "not_exec c = (case c of Execve p a \<Rightarrow> False | _ \<Rightarrow> True)"

lemma not_exec_simps [simp]:
  "not_exec Socket_netlink" "not_exec (Setsockopt_rcvtimeo d)" "not_exec (Sendmsg d m)" "not_exec (Recvmsg d n)"
  "not_exec (Close d)" "not_exec (If_nametoindex s)" "not_exec (Usleep n)" "not_exec (Open s n f)"
  "not_exec (Write d m)" "not_exec (Read d n)" "not_exec (Rmdir s)" "not_exec (Unshare n)" "not_exec (Setresgid n a b)"
  "not_exec (Setresuid n a b)" "not_exec (Mount so s so' n)" "not_exec (Mkdtemp s)" "not_exec (Pivot_root s s')"
  "not_exec (Chdir s)" "not_exec (Umount2 s n)" "not_exec (Prctl_capbset_drop n)" "not_exec Cap_get_proc"
  "not_exec (Cap_clear_inheritable l)" "not_exec Cap_set_proc" "not_exec Cap_free" "not_exec (Seccomp_init n)"
  "not_exec (Seccomp_rule_add x)" "not_exec (Seccomp_attr_set_nnp n)" "not_exec Seccomp_load" "not_exec Seccomp_release"
  "not_exec (Sethostname s)" "not_exec (Execve s av) = False"
  by (simp_all add: not_exec_def)

definition no_exec :: "trace \<Rightarrow> bool" where
  "no_exec evs \<longleftrightarrow> (\<forall>e \<in> set evs. not_exec (fst e))"

lemma no_exec_simps [simp]:
  "no_exec []" "no_exec (e # evs) \<longleftrightarrow> not_exec (fst e) \<and> no_exec evs"
  "no_exec (evs @ evs') \<longleftrightarrow> no_exec evs \<and> no_exec evs'"
  by (auto simp: no_exec_def)

lemma only_nl:
  "only not_exec (nl_set_up n)" "only not_exec (nl_add_addr n ip)" "only not_exec (nl_rename_link n n')"
  "only not_exec (nl_add_route dest gateway dev)"
  by (rule only_mono, rule only_nl_ops, simp add: nl_call_def not_exec_def split: call.splits)+

lemma only_mount_set: "only fd_idle (mount_set mnt)" "only not_exec (mount_set mnt)"
  by (auto simp: mount_set_def or_fail_def with_mkdtemp_def enter_root_def pivot_root_def Let_def fd_idle_def
      intro!: only_checked)

lemma only_sec_set_caps: "only C sec_set_caps" if "C Cap_free" "C Cap_get_proc" "C Cap_set_proc"
    "\<And>l. C (Cap_clear_inheritable l)" "\<And>n. C (Prctl_capbset_drop n)" for C
proof -
  have "only C k \<Longrightarrow> only C (drop_bounding cs k)" for cs k
    by (induction cs) (simp_all add: that)
  then show ?thesis unfolding sec_set_caps_def by (simp add: caps_fail_def that)
qed

lemma only_sec_set_seccomp: "only C sec_set_seccomp" if "C Seccomp_release" "C Seccomp_load"
    "\<And>n. C (Seccomp_init n)" "\<And>n. C (Seccomp_attr_set_nnp n)" "\<And>x. C (Seccomp_rule_add x)" for C
proof -
  have "only C k \<Longrightarrow> only C (add_rules xs k)" for xs k
    by (induction xs) (simp_all add: that seccomp_fail_def)
  then show ?thesis unfolding sec_set_seccomp_def by (simp add: seccomp_fail_def that)
qed

section \<open>The stages, from the last\<close>

definition container_law :: kernel_law where
  "container_law t c r \<longleftrightarrow> nl_law t c r \<and> posix_law t c r \<and> mkdtemp_law t c r"

text \<open>Bounds on the strings of the command line under which no buffer is overrun.\<close>

definition config_fits :: "container_config \<Rightarrow> bool" where
  "config_fits config \<longleftrightarrow> 0 \<le> cc_fd config \<and> (\<forall>n \<in> set_option (cc_veth_name config). length n \<le> 59) \<and>
     (\<forall>d \<in> set_option (cc_dns_server config). length d \<le> 175)"

definition holds_socket :: "container_config \<Rightarrow> trace \<Rightarrow> bool" where
  "holds_socket config t \<longleftrightarrow> count (open_fds t) (cc_fd config) = 1"

text \<open>The calls of the last stages of a start that reaches \<open>execve\<close>: the user namespace set up with
  the verdict 0 from the parent, the calls of \<open>sec.c\<close>, the socket closed, \<open>execve\<close>.\<close>

definition sec_call :: "call \<Rightarrow> bool" where
  "sec_call c = (case c of Prctl_capbset_drop n \<Rightarrow> True | Cap_get_proc \<Rightarrow> True | Cap_clear_inheritable l \<Rightarrow> True
     | Cap_set_proc \<Rightarrow> True | Cap_free \<Rightarrow> True | Seccomp_init n \<Rightarrow> True | Seccomp_rule_add x \<Rightarrow> True
     | Seccomp_attr_set_nnp n \<Rightarrow> True | Seccomp_load \<Rightarrow> True | Seccomp_release \<Rightarrow> True | _ \<Rightarrow> False)"

definition execs :: "container_config \<Rightarrow> int \<Rightarrow> trace \<Rightarrow> bool" where
  "execs config a evs \<longleftrightarrow> (\<exists>sec rc re. evs = sec @ [(Close (cc_fd config), rc), (exec_call config, re)] \<and>
     (\<forall>e \<in> set sec. sec_call (fst e)) \<and> 0 \<le> rv rc \<and> a = (if rv re < 0 then -1 else 0))"

definition confined :: "container_config \<Rightarrow> int \<Rightarrow> trace \<Rightarrow> bool" where
  "confined config a evs \<longleftrightarrow> (\<exists>pre ini rest. evs = pre @ ini @ rest \<and> no_exec pre \<and>
     map fst ini = init_calls (cc_uid config) (cc_fd config) \<and>
     (\<exists>r. ini ! 2 = (Read (cc_fd config) 4, r) \<and> rv r = 4 \<and> int_of_le32 (rbuf r) = 0) \<and> execs config a rest)"

definition outcome :: "(int \<Rightarrow> trace \<Rightarrow> bool) \<Rightarrow> container_config \<Rightarrow> trace \<Rightarrow> int \<Rightarrow> trace \<Rightarrow> bool" where
  "outcome P config t a t' \<longleftrightarrow> (a = 0 \<or> a = -1) \<and> open_fds t' = open_fds t - {#cc_fd config#} \<and>
     (\<exists>evs. t' = t @ evs \<and> (no_exec evs \<and> a = -1 \<or> P a evs))"

definition quiet :: "'a prog \<Rightarrow> bool" where
  "quiet p \<longleftrightarrow> (\<forall>t. wp container_law p (\<lambda>_ t'. open_fds t' = open_fds t \<and> (\<exists>evs. t' = t @ evs \<and> no_exec evs)) t)"

lemma quietI:
  assumes "only not_exec p" and "\<And>t. wp container_law p (\<lambda>_ t'. open_fds t' = open_fds t) t"
  shows "quiet p"
  unfolding quiet_def
proof
  fix t
  have "wp container_law p (\<lambda>_ _. True) t" by (rule wp_mono [OF assms(2)]) simp
  from wp_conj [OF assms(2) wp_only [OF assms(1) this]]
  show "wp container_law p (\<lambda>_ t'. open_fds t' = open_fds t \<and> (\<exists>evs. t' = t @ evs \<and> no_exec evs)) t"
    by (rule wp_mono) (auto simp: no_exec_def)
qed

lemma outcome_prefix:
  assumes "outcome P config (t @ pre) a t'" and "open_fds (t @ pre) = open_fds t" and "no_exec pre"
    and "\<And>evs. P a evs \<Longrightarrow> P' a (pre @ evs)"
  shows "outcome P' config t a t'"
proof -
  obtain evs where "t' = (t @ pre) @ evs" and d: "no_exec evs \<and> a = -1 \<or> P a evs"
    using assms(1) unfolding outcome_def by blast
  then have t: "t' = t @ (pre @ evs)" by simp
  have "no_exec (pre @ evs) \<and> a = -1 \<or> P' a (pre @ evs)" using d assms(3,4) by auto
  then show ?thesis using assms(1,2) t unfolding outcome_def by metis
qed

lemma outcome_wp:
  assumes "wp ok p (outcome P config (t @ pre)) (t @ pre)" and "open_fds (t @ pre) = open_fds t" and "no_exec pre"
    and "\<And>a evs. P a evs \<Longrightarrow> P' a (pre @ evs)"
  shows "wp ok p (outcome P' config t) (t @ pre)"
  by (rule wp_mono [OF assms(1)], erule outcome_prefix [OF _ assms(2,3)], rule assms(4))

text \<open>A stage: a quiet call, then what follows.\<close>

lemma quiet_then:
  assumes "quiet p" and "holds_socket config t" and "\<And>pre a evs. no_exec pre \<Longrightarrow> P a evs \<Longrightarrow> P a (pre @ evs)"
    and "\<And>a t'. holds_socket config t' \<Longrightarrow> wp container_law (g a) (outcome P config t') t'"
  shows "wp container_law (andthen p g) (outcome P config t) t"
proof (rule wp_andthenI)
  show "wp container_law p (\<lambda>_ t'. open_fds t' = open_fds t \<and> (\<exists>evs. t' = t @ evs \<and> no_exec evs)) t"
    using assms(1) by (simp add: quiet_def)
next
  fix a t' assume *: "open_fds t' = open_fds t \<and> (\<exists>evs. t' = t @ evs \<and> no_exec evs)"
  then obtain evs where evs: "t' = t @ evs" "no_exec evs" by blast
  have "holds_socket config t'" using * assms(2) by (simp add: holds_socket_def)
  then show "wp container_law (g a) (outcome P config t) t'"
    unfolding evs(1) by (rule outcome_wp [OF assms(4)]) (use * evs assms(3) in simp_all)
qed

lemma quiet_neutral: "fd_neutral nl_law p \<Longrightarrow> only not_exec p \<Longrightarrow> quiet p"
  by (rule quietI) (auto intro: wp_law_mono simp: fd_neutral_def container_law_def)

lemma quiet_nl:
  "quiet (nl_set_up n)" "quiet (nl_add_addr n ip)" "length n' \<le> 59 \<Longrightarrow> quiet (nl_rename_link n n')"
  "quiet (nl_add_route dest gateway dev)"
  using set_up.neutral [OF TrueI, of n] add_addr.neutral [OF TrueI, of "(n, ip)"] rename_link.neutral [of "(n, n')"]
    add_route.neutral [OF TrueI, of "(dest, gateway, dev)"]
  by (simp_all add: quiet_neutral only_nl)

lemma start_fail_wp:
  assumes "holds_socket config t" and "config_fits config"
  shows "wp container_law (start_fail config False) (outcome P config t) t"
  using assms by (simp add: start_fail_def config_fits_def outcome_def fd_step_def)

lemma exec_call_simps [simp]: "fd_step M (exec_call config, r) = M" "\<not> not_exec (exec_call config)"
  by (simp_all add: exec_call_def fd_step_def)

lemma execsI:
  "0 \<le> rv r \<Longrightarrow> 0 \<le> rv r' \<Longrightarrow> execs config 0 [(Close (cc_fd config), r), (exec_call config, r')]"
  "0 \<le> rv r \<Longrightarrow> rv r' < 0 \<Longrightarrow> execs config (-1) [(Close (cc_fd config), r), (exec_call config, r')]"
  unfolding execs_def by (rule exI [of _ "[]"], simp)+

lemma start_exec_wp:
  assumes "holds_socket config t" and "config_fits config"
  shows "wp container_law (start_exec config) (outcome (execs config) config t) t"
proof -
  have c: "count (open_fds t) (cc_fd config) = 1" "0 \<le> cc_fd config"
    using assms by (simp_all add: holds_socket_def config_fits_def)
  then have d: "open_fds t - {#cc_fd config, cc_fd config#} = open_fds t - {#cc_fd config#}"
    by (intro multiset_eqI) auto
  show ?thesis
    unfolding start_exec_def
    using c(2) by (auto simp: start_fail_def outcome_def d execsI)
qed

lemma sec_then:
  fixes p :: "int prog"
  assumes "only sec_call p" and "only fd_idle p" and "wp container_law p (\<lambda>a _. 0 \<le> a) t" and "holds_socket config t"
    and "\<And>t'. holds_socket config t' \<Longrightarrow> wp container_law q (outcome (execs config) config t') t'"
  shows "wp container_law (andthen p (\<lambda>r. if r < 0 then start_fail config False else q)) (outcome (execs config) config t) t"
proof (rule wp_andthenI)
  have "wp container_law p (\<lambda>_ _. True) t" by (rule wp_mono [OF assms(3)]) simp
  from fds.wp_idle [OF assms(2), where s = "{#}", OF wp_conj [OF assms(3) wp_only [OF assms(1) this]]]
  show "wp container_law p (\<lambda>a t'. (0 \<le> a \<and> (\<exists>evs. t' = t @ evs \<and> (\<forall>e \<in> set evs. sec_call (fst e)))) \<and>
      open_fds t' = open_fds t) t" by (simp add: open_fds_def)
next
  fix a :: int and t'
  assume *: "(0 \<le> a \<and> (\<exists>evs. t' = t @ evs \<and> (\<forall>e \<in> set evs. sec_call (fst e)))) \<and> open_fds t' = open_fds t"
  then obtain evs where evs: "t' = t @ evs" "\<forall>e \<in> set evs. sec_call (fst e)" by blast
  have n: "no_exec evs" using evs(2) by (auto simp: no_exec_def sec_call_def not_exec_def split: call.splits)
  have "holds_socket config t'" using * assms(4) by (simp add: holds_socket_def)
  then have "wp container_law q (outcome (execs config) config t) t'"
  proof (rule wp_mono [OF assms(5)])
    fix a' t'' assume "outcome (execs config) config t' a' t''"
    then show "outcome (execs config) config t a' t''" unfolding evs(1)
    proof (rule outcome_prefix)
      fix a evs' assume "execs config a evs'"
      then obtain sec rc re where "evs' = sec @ [(Close (cc_fd config), rc), (exec_call config, re)]"
        "\<forall>e \<in> set sec. sec_call (fst e)" "0 \<le> rv rc" "a = (if rv re < 0 then -1 else 0)"
        unfolding execs_def by blast
      then show "execs config a (evs @ evs')"
        unfolding execs_def using evs(2) by (intro exI [of _ "evs @ sec"] exI [of _ rc] exI [of _ re]) auto
    qed (use * evs n in simp_all)
  qed
  then show "wp container_law (if a < 0 then start_fail config False else q) (outcome (execs config) config t) t'"
    using * by auto
qed

lemma sec_call_simps [simp]:
  "sec_call (Prctl_capbset_drop n)" "sec_call Cap_get_proc" "sec_call (Cap_clear_inheritable l)" "sec_call Cap_set_proc"
  "sec_call Cap_free" "sec_call (Seccomp_init n)" "sec_call (Seccomp_rule_add x)" "sec_call (Seccomp_attr_set_nnp n)"
  "sec_call Seccomp_load" "sec_call Seccomp_release"
  by (simp_all add: sec_call_def)

lemma start_secure_wp:
  assumes "holds_socket config t" and "config_fits config"
  shows "wp container_law (start_secure config) (outcome (execs config) config t) t"
  unfolding start_secure_def
proof (rule sec_then)
  show "wp container_law sec_set_caps (\<lambda>a _. 0 \<le> a) t"
    by (rule wp_mono [OF sec_set_caps_wp]) auto
next
  fix t' assume h: "holds_socket config t'"
  show "wp container_law (andthen sec_set_seccomp (\<lambda>r. if r < 0 then start_fail config False else start_exec config))
      (outcome (execs config) config t') t'"
  proof (rule sec_then)
    show "wp container_law sec_set_seccomp (\<lambda>a _. 0 \<le> a) t'"
      by (rule wp_mono [OF sec_set_seccomp_wp]) auto
  qed (use h assms(2) in \<open>auto intro!: only_sec_set_seccomp start_exec_wp simp: fd_idle_def\<close>)
qed (use assms in \<open>auto intro!: only_sec_set_caps simp: fd_idle_def\<close>)

lemma length_resolv_conf: "length (resolv_conf dns) = 81 + length dns"
  by (simp add: resolv_conf_def)

lemma resolv_conf_fits:
  assumes "length dns \<le> 175"
  shows "rd (cstring (snprintf_s 256 (resolv_conf dns))) 0 (length (resolv_conf dns)) =
    Some (take (length (resolv_conf dns)) (cstring (snprintf_s 256 (resolv_conf dns))))"
  using assms by (simp add: rd_def slice_def snprintf_s_def length_resolv_conf)

lemma resolv_conf_overrun:
  assumes "175 < length dns"
  shows "rd (cstring (snprintf_s 256 (resolv_conf dns))) 0 (length (resolv_conf dns)) = None"
  using assms by (simp add: rd_def snprintf_s_def length_resolv_conf)

lemma quiet_setup_dns: "length dns \<le> 175 \<Longrightarrow> quiet (setup_dns (Some dns))"
  unfolding setup_dns_def
  by (rule quietI) (simp_all add: resolv_conf_fits fd_step_def container_law_def Let_def)

lemma quiet_enable_ping: "quiet enable_ping_dgram"
  unfolding enable_ping_dgram_def by (rule quietI) (simp_all add: fd_step_def)

lemma confined_prefix: "no_exec pre \<Longrightarrow> confined config a evs \<Longrightarrow> confined config a (pre @ evs)"
proof -
  assume pre: "no_exec pre" and "confined config a evs"
  then obtain p ini rest where *: "evs = p @ ini @ rest" "no_exec p"
    "map fst ini = init_calls (cc_uid config) (cc_fd config)"
    "\<exists>r. ini ! 2 = (Read (cc_fd config) 4, r) \<and> rv r = 4 \<and> int_of_le32 (rbuf r) = 0" "execs config a rest"
    unfolding confined_def by blast
  show ?thesis
    unfolding confined_def by (intro exI [of _ "pre @ p"] exI [of _ ini] exI [of _ rest]) (use pre * in simp)
qed

lemma no_exec_init: "prefix (map fst evs) (init_calls uid fd) \<Longrightarrow> no_exec evs"
proof -
  assume "prefix (map fst evs) (init_calls uid fd)"
  then have "set (map fst evs) \<subseteq> set (init_calls uid fd)" by (rule set_mono_prefix)
  then show ?thesis by (auto simp: no_exec_def init_calls_def)
qed

lemma init_then_wp:
  assumes h: "holds_socket config t" and c: "config_fits config"
  shows "wp container_law (andthen (user_namespace_init (cc_uid config) (cc_fd config)) (\<lambda>r.
      if r < 0 then start_fail config False else start_secure config)) (outcome (confined config) config t) t"
proof (rule wp_andthenI [OF namespace_init_wp], elim conjE exE)
  fix a :: int and t' evs
  assume fds: "open_fds t' = open_fds t" and a: "a = 0 \<or> a = -1" and t': "t' = t @ evs"
    and p: "prefix (map fst evs) (init_calls (cc_uid config) (cc_fd config))"
    and full: "a = 0 \<longrightarrow> map fst evs = init_calls (cc_uid config) (cc_fd config)"
    and verdict: "3 < length evs \<longrightarrow> (\<exists>r. evs ! 2 = (Read (cc_fd config) 4, r) \<and> rv r = 4 \<and> int_of_le32 (rbuf r) = 0)"
  have h': "holds_socket config t'" using h fds by (simp add: holds_socket_def)
  show "wp container_law (if a < 0 then start_fail config False else start_secure config)
      (outcome (confined config) config t) t'"
  proof (cases "a = 0")
    case False
    then have "a < 0" using a by simp
    moreover have "wp container_law (start_fail config False) (outcome (confined config) config t) (t @ evs)"
      by (intro outcome_wp [OF start_fail_wp] confined_prefix) (use h' c t' fds no_exec_init [OF p] in simp_all)
    ultimately show ?thesis using t' by simp
  next
    case True
    then have m: "map fst evs = init_calls (cc_uid config) (cc_fd config)" using full by simp
    then have "length (map fst evs) = 5" by (simp add: init_calls_def)
    then have v: "\<exists>r. evs ! 2 = (Read (cc_fd config) 4, r) \<and> rv r = 4 \<and> int_of_le32 (rbuf r) = 0"
      using verdict by simp
    have "confined config a' (evs @ rest)" if "execs config a' rest" for a' rest
      unfolding confined_def using m v that by (intro exI [of _ "[]"] exI [of _ evs] exI [of _ rest]) simp
    then have "wp container_law (start_secure config) (outcome (confined config) config t) (t @ evs)"
      by (intro outcome_wp [OF start_secure_wp]) (use h' c t' fds no_exec_init [OF p] in simp_all)
    then show ?thesis using t' True by simp
  qed
qed

lemma start_user_wp:
  assumes h: "holds_socket config t" and c: "config_fits config"
  shows "wp container_law (start_user config) (outcome (confined config) config t) t"
proof -
  have rest: "wp container_law (andthen enable_ping_dgram (\<lambda>_. andthen (user_namespace_init (cc_uid config) (cc_fd config)) (\<lambda>r.
      if r < 0 then start_fail config False else start_secure config))) (outcome (confined config) config t) t"
    if "holds_socket config t" for t
    by (rule quiet_then [OF quiet_enable_ping that confined_prefix init_then_wp [OF _ c]])
  show ?thesis
  proof (cases "cc_dns_server config")
    case None
    then show ?thesis using rest [OF h] by (simp add: start_user_def)
  next
    case (Some dns)
    then have "quiet (setup_dns (Some dns))" using c by (simp add: config_fits_def quiet_setup_dns)
    from quiet_then [OF this h confined_prefix rest] show ?thesis using Some by (simp add: start_user_def)
  qed
qed

section \<open>The network stage\<close>

definition stage :: "container_config \<Rightarrow> int prog \<Rightarrow> bool" where
  "stage config p \<longleftrightarrow> (\<forall>t. holds_socket config t \<longrightarrow> wp container_law p (outcome (confined config) config t) t)"

lemma stage_call: "quiet p \<Longrightarrow> (\<And>a. stage config (g a)) \<Longrightarrow> stage config (andthen p g)"
  unfolding stage_def by (intro allI impI quiet_then confined_prefix) blast+

lemma stage_fail: "config_fits config \<Longrightarrow> stage config (start_fail config False)"
  by (simp add: stage_def start_fail_wp)

lemma stage_user: "config_fits config \<Longrightarrow> stage config (start_user config)"
  by (simp add: stage_def start_user_wp)

lemma stage_if: "(b \<Longrightarrow> stage config p) \<Longrightarrow> (\<not> b \<Longrightarrow> stage config q) \<Longrightarrow> stage config (if b then p else q)"
  by simp

lemma wait_visible_neutral:
  "open_fds t = M \<Longrightarrow> wp ok (wait_visible n w) (\<lambda>_ t'. open_fds t' = M) t"
proof (induction n w arbitrary: t rule: wait_visible.induct)
  case (1 n w)
  have "wp ok (wait_visible n (w + 100)) (\<lambda>_ t'. open_fds t' = M) (t @ [(If_nametoindex n, r), (Usleep 100000, r')])"
    if "rv r = 0" "w < 5000" for r r'
    by (rule 1(1)) (use that 1(2) in \<open>simp_all add: fd_step_def\<close>)
  then show ?case using 1(2) by (subst wait_visible.simps) (simp add: fd_step_def)
qed

lemma quiet_wait_visible: "quiet (wait_visible n w)"
proof (rule quietI)
  show "only not_exec (wait_visible n w)"
    by (induction n w rule: wait_visible.induct) (subst wait_visible.simps, simp)
qed (rule wait_visible_neutral, rule refl)

lemma stage_rename:
  assumes "config_fits config" and "length name \<le> 59" and "stage config k"
  shows "stage config (start_rename config name k)"
  unfolding start_rename_def
  by (cases "cc_veth_tmp config")
    (auto intro!: stage_call stage_if stage_fail quiet_wait_visible quiet_nl simp: assms)

lemma stage_route:
  assumes "config_fits config" and "stage config k"
  shows "stage config (start_route config name k)"
  unfolding start_route_def Let_def
  by (cases "cc_host_ip config")
    (simp_all only: option.case, auto intro!: stage_call stage_if stage_fail quiet_nl simp: assms)

lemma stage_net: "config_fits config \<Longrightarrow> stage config (start_net config)"
proof -
  assume c: "config_fits config"
  show ?thesis
  proof (cases "cc_veth_name config")
    case None
    then show ?thesis by (simp add: start_net_def stage_user c)
  next
    case name: (Some name)
    then have l: "length name \<le> 59" using c by (simp add: config_fits_def)
    show ?thesis
    proof (cases "cc_container_ip config")
      case None
      then show ?thesis using name by (simp add: start_net_def stage_user c)
    next
      case (Some ip)
      show ?thesis unfolding start_net_def name Some
        by (simp, intro stage_call stage_if stage_fail stage_rename stage_route stage_user quiet_nl c l)
    qed
  qed
qed

text \<open>A start that reaches \<open>execve\<close>: the host name set, all nine calls of \<open>mount_set\<close>, the rest.\<close>

definition started :: "container_config \<Rightarrow> int \<Rightarrow> trace \<Rightarrow> bool" where
  "started config a evs \<longleftrightarrow> (\<exists>host ms rest. evs = host @ ms @ rest \<and>
     map fst host = map Sethostname (case cc_hostname config of None \<Rightarrow> [] | Some h \<Rightarrow> [h]) \<and>
     mount_end (cc_mnt config) 0 ms \<and> confined config a rest)"

lemma no_exec_mounts: "mount_end mnt a evs \<Longrightarrow> no_exec evs"
proof -
  assume "mount_end mnt a evs"
  then obtain d x where "prefix (map fst evs) (mount_calls mnt d x)" unfolding mount_end_def by metis
  then have "set (map fst evs) \<subseteq> set (mount_calls mnt d x)" by (rule set_mono_prefix)
  then show ?thesis by (auto simp: no_exec_def mount_calls_def)
qed

definition mounted :: "container_config \<Rightarrow> int \<Rightarrow> trace \<Rightarrow> bool" where
  "mounted config a evs \<longleftrightarrow> (\<exists>ms rest. evs = ms @ rest \<and> mount_end (cc_mnt config) 0 ms \<and> confined config a rest)"

lemma start_mount_wp:
  assumes h: "holds_socket config t" and c: "config_fits config"
  shows "wp container_law (start_mount config) (outcome (mounted config) config t) t"
  unfolding start_mount_def
proof (rule wp_andthenI)
  have "wp mkdtemp_law (mount_set (cc_mnt config)) (\<lambda>a t'. \<exists>evs. t' = t @ evs \<and> mount_end (cc_mnt config) a evs) t"
    by (rule mount_set_wp)
  then have "wp container_law (mount_set (cc_mnt config)) (\<lambda>a t'. \<exists>evs. t' = t @ evs \<and> mount_end (cc_mnt config) a evs) t"
    by (rule wp_law_mono) (simp add: container_law_def)
  from fds.wp_idle [OF only_mount_set(1) this, where s = "{#}"]
  show "wp container_law (mount_set (cc_mnt config)) (\<lambda>a t'. (\<exists>evs. t' = t @ evs \<and> mount_end (cc_mnt config) a evs) \<and>
      open_fds t' = open_fds t) t" by (simp add: open_fds_def)
next
  fix a :: int and t'
  assume *: "(\<exists>evs. t' = t @ evs \<and> mount_end (cc_mnt config) a evs) \<and> open_fds t' = open_fds t"
  then obtain evs where evs: "t' = t @ evs" "mount_end (cc_mnt config) a evs" by blast
  have f: "open_fds (t @ evs) = open_fds t" using * evs by simp
  then have h': "holds_socket config (t @ evs)" using h by (simp add: holds_socket_def)
  have a: "a = 0 \<or> a = -1" using evs(2) by (simp add: mount_end_def Let_def split: if_splits)
  show "wp container_law (if a < 0 then start_fail config False else start_net config) (outcome (mounted config) config t) t'"
  proof (cases "a = 0")
    case True
    have "wp container_law (start_net config) (outcome (confined config) config (t @ evs)) (t @ evs)"
      using stage_net [OF c] h' by (simp add: stage_def)
    then have "wp container_law (start_net config) (outcome (mounted config) config t) (t @ evs)"
      by (rule outcome_wp) (use f no_exec_mounts evs True in \<open>auto simp: mounted_def\<close>)
    then show ?thesis using True evs(1) by simp
  next
    case False
    have "wp container_law (start_fail config False) (outcome (\<lambda>_ _. False) config (t @ evs)) (t @ evs)"
      by (rule start_fail_wp [OF h' c])
    then have "wp container_law (start_fail config False) (outcome (mounted config) config t) (t @ evs)"
      by (rule outcome_wp) (use f no_exec_mounts evs in auto)
    then show ?thesis using False a evs(1) by simp
  qed
qed

lemma container_start_wp:
  assumes h: "holds_socket config t" and c: "config_fits config"
  shows "wp container_law (container_start config) (outcome (started config) config t) t"
proof (cases "cc_hostname config")
  case None
  have "wp container_law (start_mount config) (outcome (started config) config t) (t @ [])"
    by (rule outcome_wp [OF start_mount_wp]) (use h c None in \<open>auto simp: started_def mounted_def\<close>)
  then show ?thesis using None by (simp add: container_start_def)
next
  case (Some name)
  have f: "open_fds (t @ [(Sethostname name, r)]) = open_fds t" for r by (simp add: fd_step_def)
  then have h': "holds_socket config (t @ [(Sethostname name, r)])" for r using h by (simp add: holds_socket_def)
  have "wp container_law (start_mount config) (outcome (started config) config t) (t @ [(Sethostname name, r)])" for r
  proof (rule outcome_wp [OF start_mount_wp [OF h' c] f])
    fix a evs assume "mounted config a evs"
    then show "started config a ([(Sethostname name, r)] @ evs)"
      unfolding mounted_def started_def using Some
      by (elim exE conjE) (rule exI [of _ "[(Sethostname name, r)]"], fastforce)
  qed simp
  moreover have "wp container_law (start_fail config False) (outcome (started config) config t) (t @ [(Sethostname name, r)])" for r
    by (rule outcome_wp [OF start_fail_wp [OF h' c, where P = "\<lambda>_ _. False"] f]) simp_all
  ultimately show ?thesis using Some by (simp add: container_start_def)
qed

section \<open>Waiting for the interface\<close>

definition visible_polls :: "string \<Rightarrow> (reply \<times> reply) list \<Rightarrow> trace" where
  "visible_polls n rs = concat (map (\<lambda>(r, r'). [(If_nametoindex n, r), (Usleep 100000, r')]) rs)"

lemma length_visible_polls [simp]: "length (visible_polls n rs) = 2 * length rs"
  by (induction rs) (simp_all add: visible_polls_def case_prod_unfold)

lemma visible_polls_snoc: "visible_polls n (rs @ [(r, r')]) = visible_polls n rs @ [(If_nametoindex n, r), (Usleep 100000, r')]"
  by (simp add: visible_polls_def)

lemma wait_visible_wp:
  assumes "w = 100 * m" and "m \<le> 50"
  shows "wp ok (wait_visible n w) (\<lambda>a t'. \<exists>rs r. t' = t @ visible_polls n rs @ [(If_nametoindex n, r)] \<and>
     (\<forall>x \<in> set rs. rv (fst x) = 0) \<and> a = w + 100 * length rs \<and> m + length rs \<le> 50 \<and>
     (rv r \<noteq> 0 \<or> m + length rs = 50)) t"
  using assms
proof (induction n w arbitrary: t m rule: wait_visible.induct)
  case (1 n w)
  have "wp ok (wait_visible n (w + 100)) (\<lambda>a t'. \<exists>rs r. t' = t @ visible_polls n rs @ [(If_nametoindex n, r)] \<and>
     (\<forall>x \<in> set rs. rv (fst x) = 0) \<and> a = w + 100 * length rs \<and> m + length rs \<le> 50 \<and>
     (rv r \<noteq> 0 \<or> m + length rs = 50)) (t @ [(If_nametoindex n, r0), (Usleep 100000, r1)])"
    if "rv r0 = 0" "w < 5000" for r0 r1
  proof (rule wp_mono [OF 1(1) [OF that, of "Suc m"]])
    fix a t'
    assume "\<exists>rs r. t' = (t @ [(If_nametoindex n, r0), (Usleep 100000, r1)]) @ visible_polls n rs @ [(If_nametoindex n, r)] \<and>
      (\<forall>x \<in> set rs. rv (fst x) = 0) \<and> a = w + 100 + 100 * length rs \<and> Suc m + length rs \<le> 50 \<and>
      (rv r \<noteq> 0 \<or> Suc m + length rs = 50)"
    then obtain rs r where "t' = (t @ [(If_nametoindex n, r0), (Usleep 100000, r1)]) @ visible_polls n rs @ [(If_nametoindex n, r)]"
      "\<forall>x \<in> set rs. rv (fst x) = 0" "a = w + 100 + 100 * length rs" "Suc m + length rs \<le> 50"
      "rv r \<noteq> 0 \<or> Suc m + length rs = 50" by blast
    then show "\<exists>rs r. t' = t @ visible_polls n rs @ [(If_nametoindex n, r)] \<and> (\<forall>x \<in> set rs. rv (fst x) = 0) \<and>
      a = w + 100 * length rs \<and> m + length rs \<le> 50 \<and> (rv r \<noteq> 0 \<or> m + length rs = 50)"
      by (intro exI [of _ "(r0, r1) # rs"] exI [of _ r]) (use that in \<open>simp add: visible_polls_def\<close>)
  qed (use that 1(2) in simp_all)
  moreover have "\<exists>rs r. t @ [(If_nametoindex n, r0)] = t @ visible_polls n rs @ [(If_nametoindex n, r)] \<and>
      (\<forall>x \<in> set rs. rv (fst x) = 0) \<and> w = w + 100 * length rs \<and> m + length rs \<le> 50 \<and>
      (rv r \<noteq> 0 \<or> m + length rs = 50)" if "rv r0 \<noteq> 0 \<or> \<not> w < 5000" for r0
    by (intro exI [of _ "[]"] exI [of _ r0]) (use that 1(2,3) in \<open>auto simp: visible_polls_def\<close>)
  ultimately show ?case by (subst wait_visible.simps) simp
qed

section \<open>The result of the security calls\<close>

text \<open>How \<open>start_secure\<close> ends on any kernel.\<close>

definition secure_end :: "container_config \<Rightarrow> trace \<Rightarrow> int \<Rightarrow> trace \<Rightarrow> bool" where
  "secure_end config t a t' \<longleftrightarrow> (\<exists>sec rc rest. t' = t @ sec @ (Close (cc_fd config), rc) # rest \<and>
     (\<forall>e \<in> set sec. sec_call (fst e)) \<and>
     (if rv rc < 0 then a = -1 \<and> (\<forall>e \<in> set rest. fst e = Close (cc_fd config))
      else \<exists>re. rest = [(exec_call config, re)] \<and> a = (if rv re < 0 then -1 else 0)))"

lemma secure_end_prefix:
  "secure_end config (t @ pre) a t' \<Longrightarrow> \<forall>e \<in> set pre. sec_call (fst e) \<Longrightarrow> secure_end config t a t'"
  unfolding secure_end_def by (elim exE conjE, rule_tac x = "pre @ sec" in exI) auto

lemma secure_step:
  fixes p :: "int prog"
  assumes "only sec_call p" and "wp ok p (\<lambda>a _. 0 \<le> a) t" and "\<And>t'. wp ok q (secure_end config t') t'"
  shows "wp ok (andthen p (\<lambda>r. if r < 0 then start_fail config False else q)) (secure_end config t) t"
proof (rule wp_andthenI)
  have "wp ok p (\<lambda>_ _. True) t" by (rule wp_mono [OF assms(2)]) simp
  from wp_conj [OF assms(2) wp_only [OF assms(1) this]]
  show "wp ok p (\<lambda>a t'. 0 \<le> a \<and> (\<exists>evs. t' = t @ evs \<and> (\<forall>e \<in> set evs. sec_call (fst e)))) t" .
next
  fix a :: int and t' assume *: "0 \<le> a \<and> (\<exists>evs. t' = t @ evs \<and> (\<forall>e \<in> set evs. sec_call (fst e)))"
  then have "wp ok q (secure_end config t) t'"
    by (elim conjE exE) (rule wp_mono [OF assms(3)], simp, erule (1) secure_end_prefix)
  then show "wp ok (if a < 0 then start_fail config False else q) (secure_end config t) t'" using * by auto
qed

lemma secure_endI:
  "rv rc < 0 \<Longrightarrow> \<forall>e \<in> set rest. fst e = Close (cc_fd config) \<Longrightarrow> secure_end config t (-1) (t @ (Close (cc_fd config), rc) # rest)"
  "\<not> rv rc < 0 \<Longrightarrow> rv re < 0 \<Longrightarrow> secure_end config t (-1) (t @ [(Close (cc_fd config), rc), (exec_call config, re)])"
  "\<not> rv rc < 0 \<Longrightarrow> \<not> rv re < 0 \<Longrightarrow> secure_end config t 0 (t @ [(Close (cc_fd config), rc), (exec_call config, re)])"
  unfolding secure_end_def
  by (rule exI [of _ "[]"], rule exI [of _ rc], rule exI [of _ rest], simp)
    (rule exI [of _ "[]"], rule exI [of _ rc], rule exI [of _ "[(exec_call config, re)]"], simp)+

lemma start_exec_end: "wp ok (start_exec config) (secure_end config t) t"
  unfolding start_exec_def start_fail_def by (simp add: secure_endI)

lemma start_secure_end: "wp ok (start_secure config) (secure_end config t) t"
  unfolding start_secure_def
proof (rule secure_step)
  show "wp ok sec_set_caps (\<lambda>a _. 0 \<le> a) t" by (rule wp_mono [OF sec_set_caps_wp]) auto
  show "wp ok (andthen sec_set_seccomp (\<lambda>r. if r < 0 then start_fail config False else start_exec config))
      (secure_end config t') t'" for t'
  proof (rule secure_step)
    show "wp ok sec_set_seccomp (\<lambda>a _. 0 \<le> a) t'" by (rule wp_mono [OF sec_set_seccomp_wp]) auto
  qed (simp_all add: only_sec_set_seccomp start_exec_end)
qed (simp add: only_sec_set_caps)

section \<open>Properties\<close>

text \<open>C1: The safety of the start-up.  On every kernel within the documented laws of container_law (netlink answers are
  framed as the kernel frames them, open answers -1 or a descriptor, mkdtemp keeps the form of its template), for a
  configuration whose strings fit the buffers (config_fits: a veth name of at most 59 characters, a name server of at
  most 175, a descriptor that is not negative) and a history in which the handshake socket is open once, container_start
  returns 0 or -1, does not fault, and has closed the handshake socket and kept nothing else open. Either no execve was
  attempted and the result is -1, or the trace is: sethostname, the complete mount_set sequence with all nine calls
  successful, network and DNS calls, the complete user_namespace_init with the verdict 0 read from the parent, the
  calls of sec.c, the successful close of the socket, and execve of the command as the very last call.\<close>

theorem container_start_safe:
  assumes "obeys k container_law" and "holds_socket config t" and "config_fits config"
  shows "\<exists>a evs. run k (container_start config) t = (Inr a, t @ evs) \<and> (a = 0 \<or> a = -1) \<and>
    open_fds (t @ evs) = open_fds t - {#cc_fd config#} \<and> (no_exec evs \<and> a = -1 \<or> started config a evs)"
  using wp_run [OF assms(1) container_start_wp [OF assms(2,3)]] unfolding outcome_def by blast

definition start_kernel :: kernel where
  "start_kernel t c = (case c of
       Mkdtemp x \<Rightarrow> mount_kernel t c
     | Cap_get_proc \<Rightarrow> ret 1
     | Seccomp_init n \<Rightarrow> ret 1
     | Read d n \<Rightarrow> userns_kernel t c
     | Write d m \<Rightarrow> userns_kernel t c
     | Open p f m \<Rightarrow> userns_kernel t c
     | _ \<Rightarrow> demo_kernel t c)"

lemma start_kernel_obeys: "obeys start_kernel container_law"
proof (unfold obeys_def container_law_def, intro allI conjI)
  fix t c
  have n: "nl_law t c (demo_kernel t c)" using demo_obeys by (simp add: obeys_def)
  show "nl_law t c (start_kernel t c)"
    by (cases c) (use n in \<open>simp_all add: start_kernel_def nl_law_def\<close>)
  show "posix_law t c (start_kernel t c)"
    by (cases c) (simp_all add: start_kernel_def posix_law_def userns_kernel_def demo_kernel_def ret_def)
  have m: "mkdtemp_law t c (mount_kernel t c)" using mount_kernel_obeys by (simp add: obeys_def)
  show "mkdtemp_law t c (start_kernel t c)"
    by (cases c) (use m in \<open>simp_all add: start_kernel_def mkdtemp_law_def\<close>)
qed

definition demo_config :: container_config where
  "demo_config = \<lparr>cc_uid = 0, cc_fd = 5, cc_hostname = Some ''barcontainer'', cc_cmd = ''/bin/sh'', cc_arg = None,
     cc_mnt = ''/srv/rootfs'', cc_veth_name = None, cc_veth_peer = None, cc_veth_tmp = None, cc_container_ip = None,
     cc_host_ip = None, cc_dns_server = Some ''8.8.8.8'', cc_enable_nat = False\<rparr>"

definition demo_history :: trace where
  "demo_history = [(Socketpair, \<lparr>rv = 0, rerrno = 0, rbuf = [], rpair = (4, 5)\<rparr>)]"

lemma demo_start: "fst (run start_kernel (container_start demo_config) demo_history) = Inr 0"
proof -
  have "run start_kernel (mount_set ''/srv/rootfs'') t = (Inr 0, t @ map (\<lambda>c. (c, start_kernel [] c))
     (mount_calls ''/srv/rootfs'' ''/tmp/barco.a1b2c3'' ''a1b2c3''))" for t
    by (simp add: mount_set_def enter_root_def pivot_root_def or_fail_def with_mkdtemp_def mount_kernel_def start_kernel_def
        demo_kernel_def mount_template_def inner_template_def wr_def splice_def mount_calls_def basename_def ret_def Let_def)
  then show ?thesis
    by (simp add: container_start_def start_mount_def start_net_def start_user_def start_secure_def start_exec_def
      demo_config_def run_andthen Let_def enable_ping_dgram_def setup_dns_def rd_def slice_def resolv_conf_def snprintf_s_def
      user_namespace_init_def sec_set_caps_def drop_caps_def sec_set_seccomp_def seccomp_rules_def exec_call_def
      start_kernel_def demo_kernel_def userns_kernel_def int_of_le32_def of_le_def le32_int_def le32_def)
qed

lemma container_start_safe_witness:
  "\<exists>evs. run start_kernel (container_start demo_config) demo_history = (Inr 0, demo_history @ evs) \<and>
    open_fds (demo_history @ evs) = {#4#} \<and> started demo_config 0 evs"
proof -
  have "holds_socket demo_config demo_history" "config_fits demo_config"
    and o: "open_fds demo_history - {#cc_fd demo_config#} = {#4#}"
    by (simp_all add: holds_socket_def demo_config_def demo_history_def config_fits_def open_fds_def)
  from container_start_safe [OF start_kernel_obeys this(1,2)] o demo_start show ?thesis by auto
qed

text \<open>C2: Failures of the security stage are ignored. Whatever prctl, libcap and libseccomp answer, the last
  stage goes on to close the socket, and if that close succeeds it executes the command: sec_set_caps
  and sec_set_seccomp report failure as 1, and container_start tests for a negative result.\<close>

theorem security_failures_ignored:
  "\<exists>a sec rc rest. run k (start_secure config) t = (Inr a, t @ sec @ (Close (cc_fd config), rc) # rest) \<and>
     (\<forall>e \<in> set sec. sec_call (fst e)) \<and>
     (if rv rc < 0 then a = -1 \<and> (\<forall>e \<in> set rest. fst e = Close (cc_fd config))
      else \<exists>re. rest = [(exec_call config, re)] \<and> a = (if rv re < 0 then -1 else 0))"
  using wp_run [OF obeys_any start_secure_end, of k config t] unfolding secure_end_def by blast

text \<open>A kernel that refuses every capability and filter operation: the command runs with all
  capabilities and no filter.\<close>

definition bare_kernel :: kernel where
  "bare_kernel t c = (if sec_call c then (case c of Cap_get_proc \<Rightarrow> ret 0 | Seccomp_init n \<Rightarrow> ret 0 | _ \<Rightarrow> fail EPERM)
     else start_kernel t c)"

lemma security_failures_ignored_witness:
  "\<exists>t'. run bare_kernel (start_secure demo_config) [] = (Inr 0, t') \<and> exec_call demo_config \<in> fst ` set t' \<and>
     bounding (observe cap_step \<lparr>bounding = {..<41}, inheritable = {}, working = {}, cap_handles = 0\<rparr> t') = {..<41} \<and>
     fs_loaded (observe filter_step \<lparr>fs_filter = empty_filter 0, fs_loaded = None, fs_contexts = 0\<rparr> t') = None"
proof -
  have "run bare_kernel (start_secure demo_config) [] = (Inr 0, [(Prctl_capbset_drop 30, fail 1),
      (Seccomp_init 2147418112, ret 0), (Close 5, ret 0), (exec_call demo_config, ret 0)])"
    by (simp add: start_secure_def sec_set_caps_def drop_caps_def run_andthen sec_set_seccomp_def start_exec_def
        bare_kernel_def start_kernel_def demo_kernel_def exec_call_def demo_config_def sec_call_def)
  then show ?thesis
    using security_failures_ignored [of bare_kernel demo_config "[]"]
    by (simp add: image_iff cap_step_def filter_step_def exec_call_def)
qed

text \<open>setup_dns never faults exactly when the server name has at most 175 characters: a longer one makes
  snprintf return more than the 256 bytes of the buffer, and write then reads beyond it.\<close>

theorem setup_dns_overrun:
  "(\<forall>t. wp any_reply (setup_dns (Some dns)) (\<lambda>a _. a = 0 \<or> a = -1) t) = (length dns \<le> 175)"
proof
  assume *: "\<forall>t. wp any_reply (setup_dns (Some dns)) (\<lambda>a _. a = 0 \<or> a = -1) t"
  show "length dns \<le> 175"
  proof (rule ccontr)
    assume "\<not> length dns \<le> 175"
    then have "rd (cstring (snprintf_s 256 (resolv_conf dns))) 0 (length (resolv_conf dns)) = None"
      by (intro resolv_conf_overrun) simp
    then have "\<not> wp any_reply (setup_dns (Some dns)) (\<lambda>a _. a = 0 \<or> a = -1) []"
      by (simp add: setup_dns_def Let_def exI [of _ "ret 0"])
    then show False using * by blast
  qed
next
  assume "length dns \<le> 175"
  then show "\<forall>t. wp any_reply (setup_dns (Some dns)) (\<lambda>a _. a = 0 \<or> a = -1) t"
    by (simp add: setup_dns_def resolv_conf_fits Let_def)
qed

text \<open>The wait for the temporary interface looks it up at most 51 times, 100 ms apart, and returns 100
  for every wait. It stops early only when the interface is there, but after 50 waits it returns
  5000, which the caller takes for a timeout, even if the last look-up found the interface.\<close>

theorem wait_visible_gives_up:
  "\<exists>rs r. run k (wait_visible n 0) t = (Inr (100 * length rs), t @ visible_polls n rs @ [(If_nametoindex n, r)]) \<and>
     (\<forall>x \<in> set rs. rv (fst x) = 0) \<and> length rs \<le> 50 \<and> (rv r \<noteq> 0 \<or> length rs = 50)"
  using wp_run [OF obeys_any wait_visible_wp [of 0 0], of k n t] by simp blast

lemma wait_visible_gives_up_witness:
  "run (\<lambda>t c. if c = If_nametoindex ''veth'' \<and> length t < 100 then ret 0 else ret 7) (wait_visible ''veth'' 0) [] =
     (Inr 5000, visible_polls ''veth'' (replicate 50 (ret 0, ret 7)) @ [(If_nametoindex ''veth'', ret 7)])"
proof -
  let ?k = "\<lambda>t c. if c = If_nametoindex ''veth'' \<and> length t < 100 then ret 0 else ret 7"
  have polls: "run ?k (wait_visible ''veth'' (100 * m)) (visible_polls ''veth'' (replicate m (ret 0, ret 7))) =
      (Inr 5000, visible_polls ''veth'' (replicate 50 (ret 0, ret 7)) @ [(If_nametoindex ''veth'', ret 7)])"
    if "m \<le> 50" for m
    using that
  proof (induction "50 - m" arbitrary: m)
    case 0
    then have "m = 50" by simp
    then show ?case by (subst wait_visible.simps) simp
  next
    case (Suc j)
    have m: "m < 50" using Suc.hyps(2) by simp
    have "visible_polls ''veth'' (replicate (Suc m) (ret 0, ret 7)) =
        visible_polls ''veth'' (replicate m (ret 0, ret 7)) @ [(If_nametoindex ''veth'', ret 0), (Usleep 100000, ret 7)]"
      by (simp only: replicate_Suc replicate_append_same [symmetric] visible_polls_snoc)
    then show ?case
      using Suc.hyps(1) [of "Suc m"] Suc.hyps(2) m
      by (subst wait_visible.simps) (simp add: add.commute del: replicate_Suc)
  qed
  obtain rs r where "run ?k (wait_visible ''veth'' 0) [] =
      (Inr (100 * length rs), [] @ visible_polls ''veth'' rs @ [(If_nametoindex ''veth'', r)])"
    using wait_visible_gives_up [of ?k "''veth''" "[]"] by blast
  then show ?thesis using polls [of 0] by (simp add: visible_polls_def)
qed

end
