(* ===== verification/Cgroups.thy ===== *)
theory Cgroups
  imports User_Namespace
begin

text \<open>
  \<open>src/cgroups.c\<close>: creating the cgroup of the container, writing its limits and removing it.  Paths
  are built by \<open>snprintf\<close> into buffers of \<open>PATH_MAX\<close> bytes and are truncated as it does; the
  \<open>-1\<close> checks on \<open>snprintf\<close> concern encoding errors that a \<open>%s\<close> or \<open>%d\<close> of plain bytes does not
  have.  The lemmas give the exact calls of a successful set-up and show that every path returns 0
  or -1 with no descriptor left open.
\<close>

abbreviation (input) S_IRWXU :: nat where "S_IRWXU \<equiv> 448"

record cgroups_setting =
  cs_name :: string
  cs_value :: string

definition CGROUPS_CONTROL_FIELD_SIZE :: nat where
  "CGROUPS_CONTROL_FIELD_SIZE = 256"

definition cgroups_setting_list :: "int \<Rightarrow> cgroups_setting list" where
  "cgroups_setting_list pid =
     [\<lparr>cs_name = ''memory.max'', cs_value = ''1G''\<rparr>,
      \<lparr>cs_name = ''cpu.weight'', cs_value = ''256''\<rparr>,
      \<lparr>cs_name = ''pids.max'', cs_value = ''64''\<rparr>,
      \<lparr>cs_name = ''cgroup.procs'', cs_value = snprintf_s CGROUPS_CONTROL_FIELD_SIZE (show_int pid)\<rparr>]"

definition cgroup_dir :: "string \<Rightarrow> string" where
  "cgroup_dir hostname = snprintf_s PATH_MAX (''/sys/fs/cgroup/'' @ hostname)"

definition setting_path :: "string \<Rightarrow> cgroups_setting \<Rightarrow> string" where
  "setting_path dir st = snprintf_s PATH_MAX (dir @ ''/'' @ cs_name st)"

fun write_settings :: "string \<Rightarrow> cgroups_setting list \<Rightarrow> int prog" where
  "write_settings dir [] = Ret 0"
| "write_settings dir (st # rest) =
     Sys (Open (setting_path dir st) O_WRONLY 0) (\<lambda>r.
       if rv r = -1 then Ret (-1)
       else Sys (Write (rv r) (bytes_of_string (cs_value st))) (\<lambda>w.
         if rv w = -1 then perform (Close (rv r)) (Ret (-1))
         else Sys (Close (rv r)) (\<lambda>c. if rv c \<noteq> 0 then Ret (-1) else write_settings dir rest)))"

text \<open>Enabling the controllers in the parent; a failure is ignored.\<close>

definition enable_controllers :: "int prog \<Rightarrow> int prog" where
  "enable_controllers k = Sys (Open ''/sys/fs/cgroup/cgroup.subtree_control'' O_WRONLY 0) (\<lambda>r.
     if 0 \<le> rv r then perform (Write (rv r) (bytes_of_string ''+cpu +memory +pids'')) (perform (Close (rv r)) k)
     else k)"

text \<open>Creating the directory; one left over is removed first.\<close>

definition make_dir :: "string \<Rightarrow> int prog \<Rightarrow> int prog" where
  "make_dir dir k = Sys (Mkdir dir S_IRWXU) (\<lambda>r.
     if rv r \<noteq> 0 then
       if rerrno r = EEXIST then Sys (Rmdir dir) (\<lambda>r.
         if rv r < 0 \<and> rerrno r \<noteq> ENOENT then Ret (-1)
         else Sys (Mkdir dir S_IRWXU) (\<lambda>r. if rv r \<noteq> 0 then Ret (-1) else k))
       else Ret (-1)
     else k)"

definition cgroups_init :: "string \<Rightarrow> int \<Rightarrow> int prog" where
  "cgroups_init hostname pid =
     enable_controllers (make_dir (cgroup_dir hostname)
       (write_settings (cgroup_dir hostname) (cgroups_setting_list pid)))"

definition cgroups_free :: "string \<Rightarrow> int prog" where
  "cgroups_free hostname = Sys (Rmdir (cgroup_dir hostname)) (\<lambda>r. if rv r \<noteq> 0 then Ret (-1) else Ret 0)"

section \<open>Lemmas\<close>

text \<open>The events of writing all settings: each file opened, its value written, closed.\<close>

fun settings_written :: "string \<Rightarrow> cgroups_setting list \<Rightarrow> trace \<Rightarrow> bool" where
  "settings_written dir [] evs \<longleftrightarrow> evs = []"
| "settings_written dir (st # rest) evs \<longleftrightarrow> (case evs of
     (c1, r1) # (c2, r2) # (c3, r3) # evs' \<Rightarrow>
       c1 = Open (setting_path dir st) O_WRONLY 0 \<and> 0 \<le> rv r1 \<and> c2 = Write (rv r1) (bytes_of_string (cs_value st)) \<and>
       rv r2 \<noteq> -1 \<and> c3 = Close (rv r1) \<and> rv r3 = 0 \<and> settings_written dir rest evs'
   | _ \<Rightarrow> False)"

lemma write_settings_wp:
  "open_fds t = M \<Longrightarrow> wp posix_law (write_settings dir sts) (\<lambda>a t'. (a = 0 \<or> a = -1) \<and> open_fds t' = M \<and>
     (\<exists>evs. t' = t @ evs \<and> (a = 0 \<longrightarrow> settings_written dir sts evs))) t"
proof (induction sts arbitrary: t)
  case (Cons st sts)
  have "wp posix_law (write_settings dir sts) (\<lambda>a t'. (a = 0 \<or> a = -1) \<and> open_fds t' = M \<and>
     (\<exists>evs. t' = t @ evs \<and> (a = 0 \<longrightarrow> settings_written dir (st # sts) evs)))
     (t @ [(Open (setting_path dir st) O_WRONLY 0, r), (Write (rv r) (bytes_of_string (cs_value st)), w), (Close (rv r), c)])"
    if "-1 \<le> rv r" "rv r \<noteq> -1" "rv w \<noteq> -1" "rv c = 0" for r w c
    by (rule wp_mono [OF Cons.IH]) (use Cons.prems that in \<open>auto simp: fd_step_def\<close>)
  then show ?case using Cons.prems by (auto simp: fd_step_def)
qed simp

lemma make_dir_wp:
  assumes "\<And>t'. open_fds t' = open_fds t \<Longrightarrow> (\<exists>evs r. t' = t @ evs @ [(Mkdir dir S_IRWXU, r)] \<and> rv r = 0) \<Longrightarrow>
      wp ok k Q t'"
    and "\<And>t'. open_fds t' = open_fds t \<Longrightarrow> \<exists>evs. t' = t @ evs \<Longrightarrow> Q (-1) t'"
  shows "wp ok (make_dir dir k) Q t"
  unfolding make_dir_def
  by (simp, intro allI impI conjI; (rule assms)?; (simp add: fd_step_def)?;
      (rule exI [of _ "[]"], simp; fail)?; blast?)

lemma enable_controllers_wp:
  assumes "\<And>t'. open_fds t' = open_fds t \<Longrightarrow> \<exists>evs. t' = t @ evs \<Longrightarrow> wp ok k Q t'"
  shows "wp ok (enable_controllers k) Q t"
  unfolding enable_controllers_def
  by (simp, intro allI impI conjI; rule assms; simp add: fd_step_def)

lemma cgroups_init_wp:
  "wp posix_law (cgroups_init hostname pid) (\<lambda>a t'. (a = 0 \<or> a = -1) \<and> open_fds t' = open_fds t \<and>
     (\<exists>evs. t' = t @ evs \<and> (a = 0 \<longrightarrow> (\<exists>pre r post. evs = pre @ (Mkdir (cgroup_dir hostname) S_IRWXU, r) # post \<and> rv r = 0 \<and>
        settings_written (cgroup_dir hostname) (cgroups_setting_list pid) post)))) t"
  unfolding cgroups_init_def
proof (rule enable_controllers_wp, rule make_dir_wp)
  fix t1 t2 assume t1: "open_fds t1 = open_fds t" "\<exists>evs. t1 = t @ evs"
    and t2: "open_fds t2 = open_fds t1" "\<exists>evs r. t2 = t1 @ evs @ [(Mkdir (cgroup_dir hostname) S_IRWXU, r)] \<and> rv r = 0"
  from t1(2) t2(2) obtain pre r where t: "t2 = t @ pre @ [(Mkdir (cgroup_dir hostname) S_IRWXU, r)]" "rv r = 0"
    by (metis append_assoc)
  show "wp posix_law (write_settings (cgroup_dir hostname) (cgroups_setting_list pid))
     (\<lambda>a t'. (a = 0 \<or> a = -1) \<and> open_fds t' = open_fds t \<and>
     (\<exists>evs. t' = t @ evs \<and> (a = 0 \<longrightarrow> (\<exists>pre r post. evs = pre @ (Mkdir (cgroup_dir hostname) S_IRWXU, r) # post \<and> rv r = 0 \<and>
        settings_written (cgroup_dir hostname) (cgroups_setting_list pid) post)))) t2"
    by (rule wp_mono [OF write_settings_wp [OF refl]]) (use t t1(1) t2(1) in \<open>simp, blast\<close>)
qed auto

text \<open>A directory that exists and cannot be removed, as when a second container is started: the host
  name is the constant \<open>barcontainer\<close>, so its cgroup is still in use.\<close>

definition busy_law :: "string \<Rightarrow> kernel_law" where
  "busy_law dir t c r = (case c of
       Mkdir d m \<Rightarrow> d = dir \<longrightarrow> rv r = -1 \<and> rerrno r = EEXIST
     | Rmdir d \<Rightarrow> d = dir \<longrightarrow> rv r = -1 \<and> rerrno r = 16
     | _ \<Rightarrow> True)"

lemma cgroups_init_busy:
  "wp (busy_law (cgroup_dir hostname)) (cgroups_init hostname pid) (\<lambda>a t'. a = -1 \<and>
     (\<forall>e \<in> set (drop (length t) t'). \<forall>d b. fst e = Write d b \<longrightarrow> b = bytes_of_string ''+cpu +memory +pids'')) t"
  by (auto simp: cgroups_init_def enable_controllers_def make_dir_def busy_law_def)

section \<open>Properties\<close>

text \<open>C36: cgroups_init returns 0 only after it created the cgroup directory of the host name and then
  opened, wrote and closed memory.max with 1G, cpu.weight with 256, pids.max with 64 and
  cgroup.procs with the pid, in this order; every path, whatever fails, returns 0 or -1 and leaves
  no control file open.\<close>

theorem cgroups_init_correct:
  assumes "obeys k posix_law"
  shows "\<exists>a evs. run k (cgroups_init hostname pid) t = (Inr a, t @ evs) \<and> (a = 0 \<or> a = -1) \<and>
    open_fds (t @ evs) = open_fds t \<and>
    (a = 0 \<longrightarrow> (\<exists>pre r post. evs = pre @ (Mkdir (cgroup_dir hostname) 448, r) # post \<and> rv r = 0 \<and>
       settings_written (cgroup_dir hostname) (cgroups_setting_list pid) post))"
  using wp_run [OF assms cgroups_init_wp, of hostname pid t] by blast

lemma cgroups_init_correct_witness:
  "\<exists>pre r post. rv r = 0 \<and> settings_written (cgroup_dir ''barcontainer'') (cgroups_setting_list 4242) post \<and>
     run userns_kernel (cgroups_init ''barcontainer'' 4242) [] =
       (Inr 0, [] @ pre @ (Mkdir (cgroup_dir ''barcontainer'') 448, r) # post)"
proof -
  have "fst (run userns_kernel (cgroups_init ''barcontainer'' 4242) []) = Inr 0"
    by (simp add: cgroups_init_def enable_controllers_def make_dir_def cgroups_setting_list_def userns_kernel_def)
  then show ?thesis
    using cgroups_init_correct [OF userns_kernel_obeys, of "''barcontainer''" 4242 "[]"] by fastforce
qed

text \<open>When the cgroup directory of the host name exists and is busy (the host name is a constant, so a
  second container finds the first one's), cgroups_init gives up with -1 without writing any limit
  or moving the process; the caller only logs this, so that container runs without limits.\<close>

theorem cgroups_init_busy_no_limits:
  assumes "obeys k (busy_law (cgroup_dir hostname))"
  shows "\<exists>t'. run k (cgroups_init hostname pid) t = (Inr (-1), t') \<and>
    (\<forall>e \<in> set (drop (length t) t'). \<forall>d b. fst e = Write d b \<longrightarrow> b = bytes_of_string ''+cpu +memory +pids'')"
  using wp_run [OF assms cgroups_init_busy, of pid t] by blast

definition busy_kernel :: kernel where
  "busy_kernel t c = (case c of Mkdir d m \<Rightarrow> fail EEXIST | Rmdir d \<Rightarrow> fail 16 | _ \<Rightarrow> userns_kernel t c)"

lemma cgroups_init_busy_no_limits_witness:
  "\<exists>t'. run busy_kernel (cgroups_init ''barcontainer'' 4242) [] = (Inr (-1), t') \<and>
    (\<forall>e \<in> set (drop (length ([] :: trace)) t'). \<forall>d b. fst e = Write d b \<longrightarrow> b = bytes_of_string ''+cpu +memory +pids'')"
proof (rule cgroups_init_busy_no_limits)
  show "obeys busy_kernel (busy_law (cgroup_dir ''barcontainer''))"
  proof (unfold obeys_def, intro allI)
    fix t c show "busy_law (cgroup_dir ''barcontainer'') t c (busy_kernel t c)"
      by (cases c) (simp_all add: busy_law_def busy_kernel_def)
  qed
qed

end
