(* ===== verification/Barco_Helpers.thy ===== *)
theory Barco_Helpers
  imports Container Cgroups
begin

text \<open>
  The helper functions of \<open>src/barco.c\<close>: the random suffix of the interface names, IP forwarding, the
  outgoing interface of the host and the NAT rules.  \<open>popen\<close>, \<open>fgets\<close> and \<open>system\<close> are calls of the
  kernel parameter; the lemmas show that the names and the commands are what \<open>main\<close> relies on.
\<close>

unbundle bit_operations_syntax

section \<open>Helpers\<close>

definition suffix_alphabet :: string where
  "suffix_alphabet = ''abcdefghijklmnopqrstuvwxyz0123456789''"

text \<open>\<open>"..."[rand() % 36]\<close> with C's remainder: a negative index is outside the string.\<close>

definition random_char :: "int \<Rightarrow> byte option" where
  "random_char r = (if 0 \<le> r then Some (of_char (suffix_alphabet ! nat (r mod 36)))
     else if r mod 36 = 0 then Some (of_char (suffix_alphabet ! 0)) else None)"

function suffix_loop :: "bytes \<Rightarrow> nat \<Rightarrow> bytes prog" where
  "suffix_loop buf i =
     (if i < length buf - 1 \<and> i < 8 then Sys Rand (\<lambda>r.
        checked (random_char (rv r)) (\<lambda>c. checked (wr buf i [c]) (\<lambda>buf'. suffix_loop buf' (i + 1))))
      else checked (wr buf (length buf - 1) [0]) Ret)"
  by pat_completeness auto
termination
  by (relation "measure (\<lambda>(buf, i). 8 - i)") auto

declare suffix_loop.simps [simp del]

text \<open>\<open>buf\<close> is the uninitialised array of the caller, \<open>len\<close> its length.\<close>

definition generate_random_suffix :: "bytes \<Rightarrow> bytes prog" where
  "generate_random_suffix buf =
     Sys Clock_gettime (\<lambda>ts. Sys Getpid (\<lambda>p.
       perform (Srand (nat ((snd (rpair ts) XOR fst (rpair ts) XOR rv p) mod 2 ^ 32)))
         (suffix_loop buf 0)))"

text \<open>The bytes of an array up to the first NUL.\<close>

definition c_string :: "bytes \<Rightarrow> string" where
  "c_string buf = string_of_bytes (takeWhile (\<lambda>b. b \<noteq> 0) buf)"

definition enable_ip_forward :: "int prog" where
  "enable_ip_forward = Sys (Open ''/proc/sys/net/ipv4/ip_forward'' O_WRONLY 0) (\<lambda>r.
     if rv r < 0 then Ret (-1)
     else Sys (Write (rv r) (bytes_of_string ''1\<newline>'')) (\<lambda>n.
       perform (Close (rv r)) (if rv n = 2 then Ret 0 else Ret (-1))))"

definition is_eol :: "char \<Rightarrow> bool" where
  "is_eol c \<longleftrightarrow> c = CHR 0x0A \<or> c = CHR 0x0D"

definition strip_eol :: "string \<Rightarrow> string" where
  "strip_eol s = rev (dropWhile is_eol (rev s))"

definition route_command :: string where
  "route_command = ''ip route show default 2>/dev/null | awk '{print $5}' | head -1''"

text \<open>\<open>None\<close> is the return value -1; the caller then overwrites the buffer.\<close>

definition detect_host_interface :: "nat \<Rightarrow> string option prog" where
  "detect_host_interface len = Sys (Popen route_command) (\<lambda>fp.
     if rv fp = 0 then Ret None
     else Sys (Fgets len) (\<lambda>r.
       if rv r = 0 then perform Pclose (Ret None)
       else perform Pclose
         (let buf = strip_eol (snprintf_s len (c_string (rbuf r))) in if buf = [] then Ret None else Ret (Some buf))))"

section \<open>NAT rules\<close>

text \<open>The rules that the two functions add and delete: table option, chain and specification.\<close>

definition masquerade_rule :: "string \<Rightarrow> string \<Rightarrow> string" where
  "masquerade_rule subnet host_if = ''POSTROUTING -s '' @ subnet @ '' -o '' @ host_if @ '' -j MASQUERADE''"

definition source_rule :: "string \<Rightarrow> string" where
  "source_rule subnet = ''FORWARD -s '' @ subnet @ '' -j ACCEPT''"

definition reply_rule :: "string \<Rightarrow> string" where
  "reply_rule subnet = ''FORWARD -d '' @ subnet @ '' -m state --state RELATED,ESTABLISHED -j ACCEPT''"

text \<open>The formats of the commands: add unless present, and delete.\<close>

definition add_command :: "string \<Rightarrow> string \<Rightarrow> string" where
  "add_command table rule = ''iptables '' @ table @ ''-C '' @ rule @ '' 2>/dev/null || iptables '' @ table @ ''-A '' @ rule"

definition delete_command :: "string \<Rightarrow> string \<Rightarrow> string" where
  "delete_command table rule = ''iptables '' @ table @ ''-D '' @ rule @ '' 2>/dev/null''"

definition setup_nat :: "string \<Rightarrow> string \<Rightarrow> int prog" where
  "setup_nat subnet host_if =
     Sys (System (snprintf_s 512 (add_command ''-t nat '' (masquerade_rule subnet host_if)))) (\<lambda>r.
       if rv r \<noteq> 0 then Ret (-1)
       else perform (System (snprintf_s 512 (add_command [] (source_rule subnet))))
         (perform (System (snprintf_s 512 (add_command [] (reply_rule subnet)))) (Ret 0)))"

definition cleanup_nat :: "string \<Rightarrow> string \<Rightarrow> unit prog" where
  "cleanup_nat subnet host_if =
     perform (System (snprintf_s 512 (delete_command ''-t nat '' (masquerade_rule subnet host_if))))
       (perform (System (snprintf_s 512 (delete_command [] (source_rule subnet))))
         (perform (System (snprintf_s 512 (delete_command [] (reply_rule subnet)))) (Ret ())))"

end
