(* ===== verification/Barco_Main.thy ===== *)
theory Barco_Main
  imports Barco_Helpers
begin

text \<open>
  \<open>main\<close> of \<open>src/barco.c\<close> for a parsed command line, in the numbered stages of its comments.  Its own
  allocations are here, those of the entries of \<open>argtable\<close> included; what \<open>arg_parse\<close> and the printing
  functions do in between is in the theories \<open>Arg_*\<close>, and the temporary blocks that they allocate and
  free are not calls of the tree.
  The labels \<open>cleanup\<close> and \<open>exit\<close> are \<open>main_cleanup\<close> and \<open>main_exit\<close>, and the local variables they
  look at are the record \<open>main_vars\<close>.  The loop around \<open>waitpid\<close> may run forever, so it has fuel; a
  law that bounds the interruptions gives enough of it.
\<close>

section \<open>The command line\<close>

text \<open>The global \<open>arg_*\<close> structures after \<open>arg_parse\<close>: its return value, the counts, and the first
  value of an option that occurred.  The texts are what the library prints.\<close>

record cmdline =
  cl_errors :: int
  cl_help :: nat
  cl_verbose :: nat
  cl_nat :: nat
  cl_uid :: int
  cl_mnt :: string
  cl_cmd :: string
  cl_arg :: "string option"
  cl_veth :: "string option"
  cl_veth_peer :: "string option"
  cl_container_ip :: "string option"
  cl_host_ip :: "string option"
  cl_dns :: "string option"
  cl_error_text :: string
  cl_syntax_text :: string
  cl_glossary_text :: string

section \<open>The variables of main\<close>

text \<open>The configuration with the addresses of the blocks it owns (0 is a null pointer), the stack, the
  socket pair, the flags that \<open>cleanup\<close> tests and the entries of \<open>argtable\<close>.\<close>

record main_vars =
  mv_config :: container_config
  mv_config_ptr :: int
  mv_peer_ptr :: int
  mv_tmp_ptr :: int
  mv_stack :: int
  mv_socket0 :: fd
  mv_socket1 :: fd
  mv_veth_created :: bool
  mv_nat_applied :: bool
  mv_host_if :: string
  mv_table :: "int list"

definition null_config :: container_config where
  "null_config = \<lparr>cc_uid = 0, cc_fd = 0, cc_hostname = None, cc_cmd = [], cc_arg = None, cc_mnt = [],
     cc_veth_name = None, cc_veth_peer = None, cc_veth_tmp = None, cc_container_ip = None, cc_host_ip = None,
     cc_dns_server = None, cc_enable_nat = False\<rparr>"

definition initial_vars :: "int \<Rightarrow> main_vars" where
  "initial_vars ptr = \<lparr>mv_config = null_config, mv_config_ptr = ptr, mv_peer_ptr = 0, mv_tmp_ptr = 0, mv_stack = 0,
     mv_socket0 = -1, mv_socket1 = -1, mv_veth_created = False, mv_nat_applied = False, mv_host_if = [],
     mv_table = []\<rparr>"

section \<open>The argument table\<close>

text \<open>The constructors allocate one block for each entry, in the order of the table: a structure with
  its header and, after it, room for as many values as the option may have.  The sizes are those of the
  64-bit ABI.\<close>

definition arg_lit_size :: nat where
  "arg_lit_size = 104"

definition arg_int_size :: "nat \<Rightarrow> nat" where
  "arg_int_size maxcount = 112 + maxcount * 4"

definition arg_str_size :: "nat \<Rightarrow> nat" where
  "arg_str_size maxcount = 112 + maxcount * 8"

definition arg_end_size :: "nat \<Rightarrow> nat" where
  "arg_end_size maxcount = 128 + maxcount * 4 + maxcount * 8 + maxcount * 8"

definition ARGTABLE_ARG_MAX :: nat where
  "ARGTABLE_ARG_MAX = 20"

definition table_sizes :: "nat list" where
  "table_sizes = [arg_lit_size, arg_lit_size, arg_int_size 1, arg_str_size 1, arg_str_size 1, arg_str_size 1, arg_lit_size,
     arg_str_size 1, arg_str_size 1, arg_str_size 1, arg_str_size 1, arg_lit_size, arg_str_size 1, arg_end_size ARGTABLE_ARG_MAX]"

text \<open>\<open>xmalloc\<close> without memory: the handler \<open>panic\<close> prints and ends the process, by \<open>abort\<close> (134 for the
  shell) when the variable is set and not empty, and otherwise by \<open>exit(1)\<close>.\<close>

definition main_panic :: "int prog" where
  "main_panic = perform (Print ''Out of memory!\<newline>'') (Sys (Getenv ''EF_DUMPCORE'') (\<lambda>s.
     if rv s \<noteq> 0 \<and> c_string (rbuf s) \<noteq> [] then perform Abort (Ret 134) else Ret 1))"

fun alloc_table :: "nat list \<Rightarrow> main_vars \<Rightarrow> (main_vars \<Rightarrow> int prog) \<Rightarrow> int prog" where
  "alloc_table [] v k = k v"
| "alloc_table (n # ns) v k = Sys (Malloc n) (\<lambda>r.
     if rv r = 0 then main_panic else alloc_table ns (v\<lparr>mv_table := mv_table v @ [rv r]\<rparr>) k)"

text \<open>\<open>arg_freetable\<close> skips null entries.\<close>

fun free_table :: "int list \<Rightarrow> unit prog" where
  "free_table [] = Ret ()"
| "free_table (p # ps) = (if p = 0 then free_table ps else perform (Free p) (free_table ps))"

section \<open>The labels exit and cleanup\<close>

abbreviation (input) LOG_INFO_LEVEL :: int where "LOG_INFO_LEVEL \<equiv> 2"

definition farewell :: "int \<Rightarrow> string" where
  "farewell exitcode = ''so long and thanks for all the fish (exit code: '' @ show_int exitcode @ '')''"

definition main_exit :: "main_vars \<Rightarrow> int \<Rightarrow> int prog" where
  "main_exit v exitcode =
     perform (Free (mv_peer_ptr v)) (perform (Free (mv_tmp_ptr v)) (perform (Free (mv_config_ptr v))
       (andthen (free_table (mv_table v)) (\<lambda>_. perform (Log LOG_INFO_LEVEL (farewell exitcode)) (Ret exitcode)))))"

text \<open>The subnet is a buffer of 32 bytes; the two places compute it in different ways.\<close>

definition cleanup_subnet :: "string \<Rightarrow> string" where
  "cleanup_subnet ip = (case after_slash ip of Some r \<Rightarrow> snprintf_s 32 ip | None \<Rightarrow> snprintf_s 32 (ip @ ''/24''))"

definition setup_subnet :: "string \<Rightarrow> string" where
  "setup_subnet ip = (case after_slash ip of
       Some r \<Rightarrow> snprintf_s 32 (before_slash ip @ ''/'' @ r)
     | None \<Rightarrow> snprintf_s 32 (ip @ ''/24''))"

definition cleanup_rules :: "main_vars \<Rightarrow> unit prog" where
  "cleanup_rules v = (case cc_container_ip (mv_config v) of
       Some ip \<Rightarrow> if mv_nat_applied v \<and> mv_host_if v \<noteq> [] then cleanup_nat (cleanup_subnet ip) (mv_host_if v) else Ret ()
     | None \<Rightarrow> Ret ())"

definition cleanup_veth :: "main_vars \<Rightarrow> unit prog" where
  "cleanup_veth v = (case cc_veth_peer (mv_config v) of
       Some peer \<Rightarrow> if mv_veth_created v then andthen (nl_del_link peer) (\<lambda>_. Ret ()) else Ret ()
     | None \<Rightarrow> Ret ())"

definition close_if_open :: "fd \<Rightarrow> unit prog" where
  "close_if_open d = (if 0 \<le> d then perform (Close d) (Ret ()) else Ret ())"

definition main_cleanup :: "main_vars \<Rightarrow> int \<Rightarrow> int prog" where
  "main_cleanup v exitcode =
     andthen (cleanup_rules v) (\<lambda>_. andthen (cleanup_veth v) (\<lambda>_.
     andthen (if mv_stack v \<noteq> 0 then perform (Free (mv_stack v)) (Ret ()) else Ret ()) (\<lambda>_.
     andthen (close_if_open (mv_socket0 v)) (\<lambda>_. andthen (close_if_open (mv_socket1 v)) (\<lambda>_.
     andthen (case cc_hostname (mv_config v) of Some h \<Rightarrow> cgroups_free h | None \<Rightarrow> Ret 0) (\<lambda>_.
     main_exit v exitcode))))))"

section \<open>Stage 10: waiting for the container\<close>

text \<open>\<open>None\<close> when \<open>waitpid\<close> fails for another reason than a signal.\<close>

fun wait_exit :: "nat \<Rightarrow> int \<Rightarrow> int option prog" where
  "wait_exit 0 pid = Stop Out_of_fuel"
| "wait_exit (Suc fuel) pid = Sys (Waitpid pid) (\<lambda>r.
     if rv r = -1 then (if rerrno r = EINTR then wait_exit fuel pid else Ret None)
     else if rv r = pid then Ret (Some (fst (rpair r)))
     else wait_exit fuel pid)"

definition container_status :: "int \<Rightarrow> int" where
  "container_status wstatus =
     (if WIFEXITED wstatus then WEXITSTATUS wstatus else if WIFSIGNALED wstatus then 128 + WTERMSIG wstatus else 0)"

definition main_wait :: "nat \<Rightarrow> main_vars \<Rightarrow> int \<Rightarrow> int prog" where
  "main_wait fuel v pid = andthen (wait_exit fuel pid) (\<lambda>w. case w of
       None \<Rightarrow> main_cleanup v 1
     | Some wstatus \<Rightarrow> main_cleanup v (container_status wstatus))"

section \<open>Stages 7.5 to 9\<close>

text \<open>Stop the container and give up.\<close>

definition stop_and_fail :: "main_vars \<Rightarrow> int \<Rightarrow> int prog" where
  "stop_and_fail v pid = andthen (container_stop pid) (\<lambda>_. main_cleanup v 1)"

definition main_mappings :: "nat \<Rightarrow> main_vars \<Rightarrow> int \<Rightarrow> int prog" where
  "main_mappings fuel v pid = andthen (user_namespace_prepare_mappings pid (mv_socket0 v)) (\<lambda>r.
     if r < 0 then stop_and_fail v pid else main_wait fuel v pid)"

definition main_cgroups :: "nat \<Rightarrow> main_vars \<Rightarrow> int \<Rightarrow> int prog" where
  "main_cgroups fuel v pid = checked (cc_hostname (mv_config v)) (\<lambda>hostname.
     andthen (cgroups_init hostname pid) (\<lambda>_. main_mappings fuel v pid))"

definition ns_path :: "int \<Rightarrow> string" where
  "ns_path pid = snprintf_s 64 (''/proc/'' @ show_int pid @ ''/ns/net'')"

definition main_move :: "nat \<Rightarrow> main_vars \<Rightarrow> int \<Rightarrow> int prog" where
  "main_move fuel v pid = (case (mv_veth_created v, cc_veth_tmp (mv_config v)) of
       (True, Some veth_tmp) \<Rightarrow>
         Sys (Open (ns_path pid) 0 0) (\<lambda>ns.
           if rv ns < 0 then stop_and_fail v pid
           else andthen (nl_move_to_ns veth_tmp (rv ns)) (\<lambda>r.
             if r < 0 then perform (Close (rv ns)) (stop_and_fail v pid)
             else perform (Close (rv ns)) (main_cgroups fuel v pid)))
     | _ \<Rightarrow> main_cgroups fuel v pid)"

section \<open>Stage 7: creating the container\<close>

definition main_created :: "nat \<Rightarrow> main_vars \<Rightarrow> int \<Rightarrow> int prog" where
  "main_created fuel v pid =
     (if pid < 0 then main_cleanup v 1
      else perform (Usleep 100000) (Sys (Kill pid 0) (\<lambda>r.
        if rv r \<noteq> 0 then main_cleanup v 1 else main_move fuel v pid)))"

definition main_create :: "nat \<Rightarrow> main_vars \<Rightarrow> int prog" where
  "main_create fuel v = andthen (container_init (mv_config v)) (\<lambda>(pid, config).
     main_created fuel (v\<lparr>mv_config := config\<rparr>) pid)"

section \<open>Stage 6: the network of the host\<close>

definition host_address :: "main_vars \<Rightarrow> string \<Rightarrow> int prog \<Rightarrow> int prog" where
  "host_address v peer k = (case cc_host_ip (mv_config v) of
       Some host_ip \<Rightarrow> andthen (nl_add_addr peer host_ip) (\<lambda>_. k)
     | None \<Rightarrow> k)"

definition host_forward :: "main_vars \<Rightarrow> int prog \<Rightarrow> int prog" where
  "host_forward v k = (case (cc_host_ip (mv_config v), cc_container_ip (mv_config v)) of
       (Some host_ip, Some ip) \<Rightarrow> andthen enable_ip_forward (\<lambda>_. k)
     | _ \<Rightarrow> k)"

definition host_nat :: "main_vars \<Rightarrow> string \<Rightarrow> (main_vars \<Rightarrow> int prog) \<Rightarrow> int prog" where
  "host_nat v ip k =
     (if cc_enable_nat (mv_config v) \<and> cc_host_ip (mv_config v) \<noteq> None then
        andthen (detect_host_interface 64) (\<lambda>d.
          let host_if = (case d of Some i \<Rightarrow> i | None \<Rightarrow> ''eth0'') in
          andthen (setup_nat (setup_subnet ip) host_if) (\<lambda>r.
            k (v\<lparr>mv_host_if := host_if, mv_nat_applied := \<not> r < 0\<rparr>)))
      else k v)"

definition main_network :: "main_vars \<Rightarrow> (main_vars \<Rightarrow> int prog) \<Rightarrow> int prog" where
  "main_network v k = (case (cc_veth_name (mv_config v), cc_container_ip (mv_config v)) of
       (Some name, Some ip) \<Rightarrow>
         checked (cc_veth_tmp (mv_config v)) (\<lambda>veth_tmp. checked (cc_veth_peer (mv_config v)) (\<lambda>veth_peer.
         andthen (nl_del_link veth_tmp) (\<lambda>_. andthen (nl_del_link veth_peer) (\<lambda>_.
         andthen (nl_create_veth veth_tmp veth_peer) (\<lambda>r.
           if r < 0 then main_cleanup v 1
           else (let v = v\<lparr>mv_veth_created := True\<rparr> in
             host_address v veth_peer (andthen (nl_set_up veth_peer) (\<lambda>_.
             host_forward v (host_nat v ip k)))))))))
     | _ \<Rightarrow> k v)"

section \<open>Stages 4 and 5: sockets and stack\<close>

definition main_stack :: "nat \<Rightarrow> main_vars \<Rightarrow> int prog" where
  "main_stack fuel v = Sys (Malloc CONTAINER_STACK_SIZE) (\<lambda>r.
     if rv r = 0 then main_cleanup v 1
     else main_network (v\<lparr>mv_stack := rv r\<rparr>) (main_create fuel))"

definition main_sockets :: "nat \<Rightarrow> main_vars \<Rightarrow> int prog" where
  "main_sockets fuel v = Sys Socketpair (\<lambda>r.
     if rv r < 0 then main_cleanup v 1
     else (let v = v\<lparr>mv_socket0 := fst (rpair r), mv_socket1 := snd (rpair r)\<rparr> in
       Sys (Fcntl_cloexec (mv_socket0 v)) (\<lambda>r.
         if rv r < 0 then main_cleanup v 1
         else main_stack fuel (v\<lparr>mv_config := (mv_config v)\<lparr>cc_fd := mv_socket1 v\<rparr>\<rparr>))))"

section \<open>Stage 3: the configuration\<close>

text \<open>Names of interfaces are cut to 15 characters (\<open>%.15s\<close>) from a buffer of 64 bytes.\<close>

definition peer_name :: "string \<Rightarrow> string \<Rightarrow> string" where
  "peer_name name sfx = take 15 (snprintf_s 64 (''veth-'' @ name @ ''-'' @ sfx))"

definition tmp_name :: "string \<Rightarrow> string" where
  "tmp_name sfx = take 15 (snprintf_s 64 (''veth-tmp-'' @ sfx))"

definition make_peer :: "cmdline \<Rightarrow> main_vars \<Rightarrow> string \<Rightarrow> string \<Rightarrow> (main_vars \<Rightarrow> int prog) \<Rightarrow> int prog" where
  "make_peer cl v name sfx k = (case cl_veth_peer cl of
       None \<Rightarrow> Sys (Asprintf (peer_name name sfx)) (\<lambda>r.
         let v = v\<lparr>mv_peer_ptr := fst (rpair r)\<rparr> in
         if rv r < 0 then main_cleanup v 1
         else k (v\<lparr>mv_config := (mv_config v)\<lparr>cc_veth_peer := Some (peer_name name sfx)\<rparr>\<rparr>))
     | Some peer \<Rightarrow> Sys (Strdup peer) (\<lambda>r.
         if rv r = 0 then main_cleanup v 1
         else k (v\<lparr>mv_peer_ptr := rv r, mv_config := (mv_config v)\<lparr>cc_veth_peer := Some peer\<rparr>\<rparr>)))"

definition make_tmp :: "main_vars \<Rightarrow> string \<Rightarrow> (main_vars \<Rightarrow> int prog) \<Rightarrow> int prog" where
  "make_tmp v sfx k = Sys (Asprintf (tmp_name sfx)) (\<lambda>r.
     let v = v\<lparr>mv_tmp_ptr := fst (rpair r)\<rparr> in
     if rv r < 0 then main_cleanup v 1
     else k (v\<lparr>mv_config := (mv_config v)\<lparr>cc_veth_tmp := Some (tmp_name sfx)\<rparr>\<rparr>))"

text \<open>The part of the configuration that needs no allocation.\<close>

definition base_config :: "cmdline \<Rightarrow> container_config" where
  "base_config cl = null_config\<lparr>
     cc_hostname := Some ''barcontainer'', cc_uid := nat (cl_uid cl mod 2 ^ 32), cc_mnt := cl_mnt cl,
     cc_cmd := cl_cmd cl, cc_arg := cl_arg cl,
     cc_dns_server := Some (case cl_dns cl of Some d \<Rightarrow> d | None \<Rightarrow> ''8.8.8.8'')\<rparr>"

text \<open>\<open>junk\<close> is the uninitialised content of the 16-byte array \<open>suffix\<close>.\<close>

definition main_config :: "bytes \<Rightarrow> cmdline \<Rightarrow> main_vars \<Rightarrow> (main_vars \<Rightarrow> int prog) \<Rightarrow> int prog" where
  "main_config junk cl v k =
     (let config = base_config cl in
      case (cl_veth cl, cl_container_ip cl) of
        (Some name, Some ip) \<Rightarrow>
          (let v = v\<lparr>mv_config := config\<lparr>cc_veth_name := Some name, cc_container_ip := Some ip,
             cc_host_ip := cl_host_ip cl, cc_enable_nat := 0 < cl_nat cl\<rparr>\<rparr> in
           andthen (generate_random_suffix junk) (\<lambda>buf.
             make_peer cl v name (c_string buf) (\<lambda>v. make_tmp v (c_string buf) k)))
      | _ \<Rightarrow> k (v\<lparr>mv_config := config\<rparr>))"

section \<open>main\<close>

abbreviation (input) LOG_TRACE_LEVEL :: int where "LOG_TRACE_LEVEL \<equiv> 0"

definition main_program :: "nat \<Rightarrow> bytes \<Rightarrow> cmdline \<Rightarrow> int prog" where
  "main_program fuel junk cl = Sys (Calloc 1 96) (\<lambda>r.
     if rv r = 0 then perform (Print ''failed to allocate config: %m\<newline>'') (Ret 1)
     else alloc_table table_sizes (initial_vars (rv r)) (\<lambda>v.
       if 0 < cl_errors cl then
         perform (Print (cl_error_text cl))
           (perform (Print ''Try 'barco --help' for more information.\<newline>'') (main_exit v 1))
       else if 0 < cl_help cl then
         perform (Print ''Usage: barco'') (perform (Print (cl_syntax_text cl)) (perform (Print (cl_glossary_text cl))
           (main_exit v 0)))
       else perform (Log_set_level (if 0 < cl_verbose cl then LOG_TRACE_LEVEL else LOG_INFO_LEVEL))
         (main_config junk cl v (\<lambda>v. perform Geteuid (main_sockets fuel v)))))"

end
