(* ===== verification/Barco_Safety.thy ===== *)
theory Barco_Safety
  imports Barco_Main
begin

text \<open>
  Safety of \<open>main\<close>: a monitor keeps the heap blocks, frees of something that is not a block, and the
  shell commands; \<open>owns\<close> relates them and the open descriptors to the variables of \<open>main\<close>, every
  stage preserves it, and \<open>cleanup\<close> turns it into the empty state.  After a failed \<open>asprintf\<close> the pointer to
  free is undefined, and only the end of \<open>main\<close> is shown.
\<close>

section \<open>What the process owns\<close>

record own_state =
  os_live :: "int multiset"
  os_bad :: bool
  os_system :: "(string \<times> int) list"

definition own_step :: "own_state \<Rightarrow> event \<Rightarrow> own_state" where
  "own_step s e = (case e of (c, r) \<Rightarrow> (case c of
      Calloc n m \<Rightarrow> if rv r \<noteq> 0 then s\<lparr>os_live := add_mset (rv r) (os_live s)\<rparr> else s
    | Malloc n \<Rightarrow> if rv r \<noteq> 0 then s\<lparr>os_live := add_mset (rv r) (os_live s)\<rparr> else s
    | Strdup x \<Rightarrow> if rv r \<noteq> 0 then s\<lparr>os_live := add_mset (rv r) (os_live s)\<rparr> else s
    | Asprintf x \<Rightarrow> if 0 \<le> rv r then s\<lparr>os_live := add_mset (fst (rpair r)) (os_live s)\<rparr> else s
    | Free p \<Rightarrow> if p = 0 then s else s\<lparr>os_live := os_live s - {#p#}, os_bad := os_bad s \<or> p \<notin># os_live s\<rparr>
    | System x \<Rightarrow> s\<lparr>os_system := os_system s @ [(x, rv r)]\<rparr>
    | _ \<Rightarrow> s))"

definition own_idle :: "call \<Rightarrow> bool" where
  "own_idle c = (case c of Calloc n m \<Rightarrow> False | Malloc n \<Rightarrow> False | Strdup x \<Rightarrow> False | Asprintf x \<Rightarrow> False
     | Free p \<Rightarrow> False | System x \<Rightarrow> False | _ \<Rightarrow> True)"

lemma own_step_idle [simp]: "own_idle c \<Longrightarrow> own_step s (c, r) = s"
  by (cases c) (simp_all add: own_step_def own_idle_def)

lemma own_step_simps [simp]:
  "own_step s (Calloc n m, r) = (if rv r \<noteq> 0 then s\<lparr>os_live := add_mset (rv r) (os_live s)\<rparr> else s)"
  "own_step s (Malloc n, r) = (if rv r \<noteq> 0 then s\<lparr>os_live := add_mset (rv r) (os_live s)\<rparr> else s)"
  "own_step s (Strdup x, r) = (if rv r \<noteq> 0 then s\<lparr>os_live := add_mset (rv r) (os_live s)\<rparr> else s)"
  "own_step s (Asprintf x, r) = (if 0 \<le> rv r then s\<lparr>os_live := add_mset (fst (rpair r)) (os_live s)\<rparr> else s)"
  "own_step s (Free p, r) = (if p = 0 then s else s\<lparr>os_live := os_live s - {#p#}, os_bad := os_bad s \<or> p \<notin># os_live s\<rparr>)"
  "own_step s (System x, r) = s\<lparr>os_system := os_system s @ [(x, rv r)]\<rparr>"
  by (simp_all add: own_step_def)

interpretation own: monitor own_step own_idle
  by unfold_locales (rule own_step_idle)

definition own :: "trace \<Rightarrow> own_state" where
  "own t = observe own_step \<lparr>os_live = {#}, os_bad = False, os_system = []\<rparr> t"

lemma own_simps [simp]:
  "own [] = \<lparr>os_live = {#}, os_bad = False, os_system = []\<rparr>"
  "own (t @ [e]) = own_step (own t) e"
  "own (t @ e # evs) = observe own_step (own_step (own t) e) evs"
  by (simp_all add: own_def observe_append)

section \<open>The law of the surroundings\<close>

text \<open>A reply of \<open>waitpid\<close> after which \<open>main\<close> waits again.\<close>

definition retry :: "int \<Rightarrow> reply \<Rightarrow> bool" where
  "retry pid r \<longleftrightarrow> (if rv r = -1 then rerrno r = EINTR else rv r \<noteq> pid)"

definition retries :: "trace \<Rightarrow> nat" where
  "retries t = length (filter (\<lambda>(c, r). case c of Waitpid pid \<Rightarrow> retry pid r | _ \<Rightarrow> False) t)"

text \<open>A successful \<open>asprintf\<close> stores the address of its block (after a failure the pointer is undefined, and
  nothing is assumed of it), \<open>rand\<close> is not negative, process ids fit an \<open>int\<close>, and at most \<open>N\<close> waits are
  interrupted.\<close>

definition env_law :: "nat \<Rightarrow> kernel_law" where
  "env_law N t c r = (case c of
       Asprintf x \<Rightarrow> 0 \<le> rv r \<longrightarrow> fst (rpair r) \<noteq> 0
     | Rand \<Rightarrow> 0 \<le> rv r
     | Clone f \<Rightarrow> -1 \<le> rv r \<and> rv r < 2 ^ 31
     | Waitpid pid \<Rightarrow> retry pid r \<longrightarrow> retries t < N
     | _ \<Rightarrow> True)"

definition main_law :: "nat \<Rightarrow> kernel_law" where
  "main_law N t c r \<longleftrightarrow> nl_law t c r \<and> posix_law t c r \<and> env_law N t c r"

lemma env_law_simps [simp]:
  "env_law N t (Asprintf x) r \<longleftrightarrow> (0 \<le> rv r \<longrightarrow> fst (rpair r) \<noteq> 0)"
  "env_law N t Rand r \<longleftrightarrow> 0 \<le> rv r" "env_law N t (Clone f) r \<longleftrightarrow> -1 \<le> rv r \<and> rv r < 2 ^ 31"
  "env_law N t (Waitpid pid) r \<longleftrightarrow> (retry pid r \<longrightarrow> retries t < N)"
  by (simp_all add: env_law_def)

section \<open>Calm calls\<close>

definition calm :: "nat \<Rightarrow> 'a prog \<Rightarrow> bool" where
  "calm N p \<longleftrightarrow> only own_idle p \<and> (\<forall>t. wp (main_law N) p (\<lambda>_ t'. open_fds t' = open_fds t) t)"

lemma calm_then:
  assumes "calm N p"
    and "\<And>a t'. own t' = own t \<Longrightarrow> open_fds t' = open_fds t \<Longrightarrow> \<exists>evs. t' = t @ evs \<Longrightarrow> wp (main_law N) (g a) Q t'"
  shows "wp (main_law N) (andthen p g) Q t"
proof (rule wp_andthenI)
  have o: "only own_idle p" and w: "wp (main_law N) p (\<lambda>_ t'. open_fds t' = open_fds t) t"
    using assms(1) by (simp_all add: calm_def)
  from own.wp_idle [OF o wp_conj [OF w wp_only [OF o wp_mono [OF w]]]]
  show "wp (main_law N) p (\<lambda>_ t'. (open_fds t' = open_fds t \<and> (\<exists>evs. t' = t @ evs \<and> (\<forall>e \<in> set evs. own_idle (fst e)))) \<and>
      own t' = own t) t"
    by (simp add: own_def)
qed (use assms(2) in blast)

lemma calm_then_result:
  assumes o: "only own_idle p" and w: "wp (main_law N) p (\<lambda>a t'. P a \<and> open_fds t' = open_fds t) t"
    and "\<And>a t'. P a \<Longrightarrow> own t' = own t \<Longrightarrow> open_fds t' = open_fds t \<Longrightarrow> wp (main_law N) (g a) Q t'"
  shows "wp (main_law N) (andthen p g) Q t"
proof (rule wp_andthenI)
  from own.wp_idle [OF o w]
  show "wp (main_law N) p (\<lambda>a t'. (P a \<and> open_fds t' = open_fds t) \<and> own t' = own t) t"
    by (simp add: own_def)
qed (use assms(3) in blast)

lemma calm_neutral: "fd_neutral nl_law p \<Longrightarrow> only nl_call p \<Longrightarrow> calm N p"
  unfolding calm_def
proof
  show "only nl_call p \<Longrightarrow> only own_idle p"
    by (erule only_mono) (simp add: nl_call_def own_idle_def split: call.splits)
qed (auto intro: wp_law_mono simp: fd_neutral_def main_law_def)

lemma calm_nl:
  "calm N (nl_set_up n)" "calm N (nl_add_addr n ip)" "calm N (nl_move_to_ns n d)" "calm N (nl_del_link n)"
  "veth_fits n n' \<Longrightarrow> calm N (nl_create_veth n n')"
  using set_up.neutral [OF TrueI, of n] add_addr.neutral [OF TrueI, of "(n, ip)"] move_to_ns.neutral [OF TrueI, of "(n, d)"]
    del_link.neutral [OF TrueI, of n] create_veth.neutral [of "(n, n')"]
  by (simp_all add: calm_neutral only_nl_ops only_nl_del_link)

lemma own_idle_simps [simp]:
  "own_idle (Open s n f)" "own_idle (Write d m)" "own_idle (Read d n)" "own_idle (Close d)" "own_idle (Mkdir s n)"
  "own_idle (Rmdir s)" "own_idle (Popen s)" "own_idle (Fgets n)" "own_idle Pclose" "own_idle Clock_gettime"
  "own_idle Getpid" "own_idle (Srand n)" "own_idle Rand" "own_idle (Kill i n)" "own_idle (Waitpid i)"
  "own_idle (Clone n)" "own_idle (Usleep n)" "own_idle Geteuid" "own_idle Socketpair" "own_idle (Fcntl_cloexec d)"
  "own_idle (Print s)" "own_idle (Log_set_level i)" "own_idle (Log i s)" "own_idle (Getenv s)" "own_idle Abort"
  by (simp_all add: own_idle_def)

lemma main_law_open [simp]: "main_law N t (Open s n f) r \<Longrightarrow> -1 \<le> rv r"
  by (simp add: main_law_def)

lemma calm_prepare_mappings:
  assumes "- (2 ^ 31) \<le> pid" and "pid < 2 ^ 31"
  shows "calm N (user_namespace_prepare_mappings pid d)"
  unfolding calm_def
proof
  show "only own_idle (user_namespace_prepare_mappings pid d)"
    by (simp add: user_namespace_prepare_mappings_def mappings_fail_def)
  show "\<forall>t. wp (main_law N) (user_namespace_prepare_mappings pid d) (\<lambda>_ t'. open_fds t' = open_fds t) t"
  proof
    fix t
    have "wp (main_law N) (user_namespace_prepare_mappings pid d) (\<lambda>a t'. open_fds t' = open_fds t \<and> (a = 0 \<or> a = -1) \<and>
        (\<exists>evs. t' = t @ evs \<and> mappings_end pid d a evs)) t"
      by (rule wp_law_mono [OF prepare_mappings_wp [OF assms]]) (simp add: main_law_def)
    then show "wp (main_law N) (user_namespace_prepare_mappings pid d) (\<lambda>_ t'. open_fds t' = open_fds t) t"
      by (rule wp_mono) simp
  qed
qed

lemma only_write_settings: "only own_idle (write_settings dir sts)"
  by (induction sts) simp_all

lemma calm_cgroups_init: "calm N (cgroups_init h pid)"
  unfolding calm_def
proof
  show "only own_idle (cgroups_init h pid)"
    by (simp add: cgroups_init_def enable_controllers_def make_dir_def only_write_settings)
  have "wp (main_law N) (cgroups_init h pid) (\<lambda>_ t'. open_fds t' = open_fds t) t" for t
    by (rule wp_mono [OF wp_law_mono [OF cgroups_init_wp]]) (auto simp: main_law_def)
  then show "\<forall>t. wp (main_law N) (cgroups_init h pid) (\<lambda>_ t'. open_fds t' = open_fds t) t" ..
qed

lemma calm_small:
  "calm N (cgroups_free h)" "calm N enable_ip_forward" "calm N (detect_host_interface n)" "calm N (container_stop pid)"
  by (auto simp: calm_def cgroups_free_def enable_ip_forward_def detect_host_interface_def container_stop_def fd_step_def
      Let_def open_fds_append)

section \<open>The random suffix\<close>

lemma suffix_alphabet_length: "length suffix_alphabet = 36"
  by (simp add: suffix_alphabet_def)

definition suffix_bytes :: "nat \<Rightarrow> bytes \<Rightarrow> bool" where
  "suffix_bytes i buf \<longleftrightarrow> (\<forall>j < i. \<exists>c \<in> set suffix_alphabet. buf ! j = of_char c)"

lemma random_char_some: "0 \<le> r \<Longrightarrow> \<exists>c \<in> set suffix_alphabet. random_char r = Some (of_char c)"
proof -
  assume "0 \<le> r"
  moreover have "nat (r mod 36) < 36" by (simp add: nat_less_iff)
  ultimately show ?thesis
    by (intro bexI [of _ "suffix_alphabet ! nat (r mod 36)"]) (simp_all add: random_char_def suffix_alphabet_length)
qed

lemma suffix_loop_wp:
  assumes "length buf = n" and "8 < n" and "suffix_bytes i buf" and "i \<le> 8"
  shows "wp (main_law N) (suffix_loop buf i) (\<lambda>b t'. (length b = n \<and> suffix_bytes 8 b \<and> b ! (n - 1) = 0 \<and>
     (\<forall>j. 8 \<le> j \<and> j < n - 1 \<longrightarrow> b ! j = buf ! j)) \<and> open_fds t' = open_fds t) t"
  using assms
proof (induction buf i arbitrary: t rule: suffix_loop.induct)
  case (1 buf i)
  show ?case
  proof (cases "i < 8")
    case False
    then have i: "i = 8" using 1(5) by simp
    have w: "wr buf (n - 1) [0] = Some (buf[n - 1 := 0])"
      using 1(2,3) by (simp add: wr_def splice_def upd_conv_take_nth_drop)
    show ?thesis
      using 1(2,3,4) w by (subst suffix_loop.simps) (simp add: i suffix_bytes_def nth_list_update)
  next
    case True
    have l: "i < length buf - 1" using True 1(2,3) by simp
    have w: "wr buf i [c] = Some (buf[i := c])" for c
      using l by (simp add: wr_def splice_def upd_conv_take_nth_drop)
    have "wp (main_law N) (checked (random_char (rv r)) (\<lambda>c. checked (wr buf i [c]) (\<lambda>buf'. suffix_loop buf' (i + 1))))
      (\<lambda>b t'. (length b = n \<and> suffix_bytes 8 b \<and> b ! (n - 1) = 0 \<and>
        (\<forall>j. 8 \<le> j \<and> j < n - 1 \<longrightarrow> b ! j = buf ! j)) \<and> open_fds t' = open_fds t) (t @ [(Rand, r)])"
      if "main_law N t Rand r" for r
    proof -
      have "0 \<le> rv r" using that by (simp add: main_law_def)
      from random_char_some [OF this] obtain c where c: "c \<in> set suffix_alphabet" "random_char (rv r) = Some (of_char c)"
        by blast
      have "suffix_bytes (i + 1) (buf[i := of_char c])"
        using 1(4) c(1) l by (auto simp: suffix_bytes_def nth_list_update less_Suc_eq)
      then have "wp (main_law N) (suffix_loop (buf[i := of_char c]) (i + 1)) (\<lambda>b t'. (length b = n \<and> suffix_bytes 8 b \<and>
          b ! (n - 1) = 0 \<and> (\<forall>j. 8 \<le> j \<and> j < n - 1 \<longrightarrow> b ! j = buf[i := of_char c] ! j)) \<and>
          open_fds t' = open_fds (t @ [(Rand, r)])) (t @ [(Rand, r)])"
        by (intro 1(1)) (use True l 1(2,3) in simp_all)
      then show ?thesis unfolding c(2) checked_simps w
        by (rule wp_mono) (use True in \<open>auto simp: fd_step_def\<close>)
    qed
    then show ?thesis using True l by (subst suffix_loop.simps) simp
  qed
qed

section \<open>Cleaning up\<close>

definition blk :: "int \<Rightarrow> int multiset" where
  "blk p = (if p = 0 then {#} else {#p#})"

lemma blk_simps [simp]: "blk 0 = {#}" "p \<noteq> 0 \<Longrightarrow> blk p = {#p#}"
  by (simp_all add: blk_def)

definition table_blocks :: "main_vars \<Rightarrow> int multiset" where
  "table_blocks v = mset (filter (\<lambda>p. p \<noteq> 0) (mv_table v))"

lemma table_blocks_update [simp]:
  "table_blocks (v\<lparr>mv_config := c\<rparr>) = table_blocks v" "table_blocks (v\<lparr>mv_stack := p\<rparr>) = table_blocks v"
  "table_blocks (v\<lparr>mv_peer_ptr := p\<rparr>) = table_blocks v" "table_blocks (v\<lparr>mv_tmp_ptr := p\<rparr>) = table_blocks v"
  "table_blocks (v\<lparr>mv_socket0 := p\<rparr>) = table_blocks v" "table_blocks (v\<lparr>mv_socket1 := p\<rparr>) = table_blocks v"
  "table_blocks (v\<lparr>mv_veth_created := b\<rparr>) = table_blocks v" "table_blocks (v\<lparr>mv_nat_applied := b\<rparr>) = table_blocks v"
  "table_blocks (v\<lparr>mv_host_if := h\<rparr>) = table_blocks v"
  by (simp_all add: table_blocks_def)

definition blocks :: "main_vars \<Rightarrow> int multiset" where
  "blocks v = blk (mv_config_ptr v) + blk (mv_peer_ptr v) + blk (mv_tmp_ptr v) + table_blocks v + blk (mv_stack v)"

definition sock :: "fd \<Rightarrow> fd multiset" where
  "sock d = (if 0 \<le> d then {#d#} else {#})"

definition socks :: "main_vars \<Rightarrow> fd multiset" where
  "socks v = sock (mv_socket0 v) + sock (mv_socket1 v)"

definition setup_commands :: "string \<Rightarrow> string \<Rightarrow> string list" where
  "setup_commands s h = map (snprintf_s 512) [add_command ''-t nat '' (masquerade_rule s h),
     add_command [] (source_rule s), add_command [] (reply_rule s)]"

definition cleanup_commands :: "string \<Rightarrow> string \<Rightarrow> string list" where
  "cleanup_commands s h = map (snprintf_s 512) [delete_command ''-t nat '' (masquerade_rule s h),
     delete_command [] (source_rule s), delete_command [] (reply_rule s)]"

text \<open>No command yet, or only the masquerade command that failed.\<close>

definition nat_none :: "(string \<times> int) list \<Rightarrow> bool" where
  "nat_none sys \<longleftrightarrow> sys = [] \<or> (\<exists>s h r. sys = [(hd (setup_commands s h), r)] \<and> r \<noteq> 0)"

definition nat_pending :: "main_vars \<Rightarrow> (string \<times> int) list \<Rightarrow> bool" where
  "nat_pending v sys \<longleftrightarrow> (if mv_nat_applied v
     then \<exists>ip. cc_container_ip (mv_config v) = Some ip \<and> mv_host_if v \<noteq> [] \<and>
       map fst sys = setup_commands (cleanup_subnet ip) (mv_host_if v)
     else nat_none sys)"

lemma nat_pending_update [simp]:
  "nat_pending (v\<lparr>mv_stack := p\<rparr>) = nat_pending v" "nat_pending (v\<lparr>mv_peer_ptr := p\<rparr>) = nat_pending v"
  "nat_pending (v\<lparr>mv_tmp_ptr := p\<rparr>) = nat_pending v" "nat_pending (v\<lparr>mv_socket0 := p\<rparr>) = nat_pending v"
  "nat_pending (v\<lparr>mv_socket1 := p\<rparr>) = nat_pending v"
  by (simp_all add: nat_pending_def fun_eq_iff)

definition nat_done :: "(string \<times> int) list \<Rightarrow> bool" where
  "nat_done sys \<longleftrightarrow> nat_none sys \<or> (\<exists>s h. map fst sys = setup_commands s h @ cleanup_commands s h)"

definition owns :: "main_vars \<Rightarrow> trace \<Rightarrow> bool" where
  "owns v t \<longleftrightarrow> os_live (own t) = blocks v \<and> \<not> os_bad (own t) \<and> open_fds t \<subseteq># socks v \<and>
     nat_pending v (os_system (own t))"

definition waited_for :: "int \<Rightarrow> trace \<Rightarrow> bool" where
  "waited_for a t \<longleftrightarrow> (\<exists>pid r. (Waitpid pid, r) \<in> set t \<and> rv r = pid \<and> a = container_status (fst (rpair r)))"

text \<open>1, or the status of a container that was waited for.\<close>

definition ending :: "int \<Rightarrow> trace \<Rightarrow> bool" where
  "ending a t \<longleftrightarrow> a = 1 \<or> waited_for a t"

text \<open>No block, no descriptor and no NAT rule left, and only blocks were freed.\<close>

definition clean :: "trace \<Rightarrow> bool" where
  "clean t \<longleftrightarrow> os_live (own t) = {#} \<and> \<not> os_bad (own t) \<and> open_fds t = {#} \<and> nat_done (os_system (own t))"

text \<open>A call of \<open>asprintf\<close> failed: the pointer that \<open>cleanup\<close> frees is then undefined.\<close>

definition asprintf_failed :: "trace \<Rightarrow> bool" where
  "asprintf_failed t \<longleftrightarrow> (\<exists>(c, r) \<in> set t. (case c of Asprintf x \<Rightarrow> rv r < 0 | _ \<Rightarrow> False))"

lemma asprintf_failed_append [simp]: "asprintf_failed t \<Longrightarrow> asprintf_failed (t @ evs)"
  unfolding asprintf_failed_def by auto

lemma asprintf_failed_snoc: "rv r < 0 \<Longrightarrow> asprintf_failed (t @ [(Asprintf x, r)])"
  unfolding asprintf_failed_def by (rule bexI [of _ "(Asprintf x, r)"]) simp_all

definition released :: "int \<Rightarrow> trace \<Rightarrow> bool" where
  "released a t \<longleftrightarrow> ending a t \<and> (clean t \<or> asprintf_failed t)"

lemma waited_for_append [simp]: "waited_for a t \<Longrightarrow> waited_for a (t @ evs)"
  unfolding waited_for_def by auto

lemma ending_append [simp]: "ending a t \<Longrightarrow> ending a (t @ evs)"
  by (auto simp: ending_def)

lemma ending_one [simp]: "ending 1 t"
  by (simp add: ending_def)

lemma subnets_agree: "setup_subnet ip = cleanup_subnet ip"
  by (auto simp: setup_subnet_def cleanup_subnet_def slash_decomp [symmetric] split: option.splits)

lemma cleanup_rules_wp:
  assumes "owns v t"
  shows "wp (main_law N) (cleanup_rules v) (\<lambda>_ t'. os_live (own t') = blocks v \<and> \<not> os_bad (own t') \<and>
    open_fds t' \<subseteq># socks v \<and> nat_done (os_system (own t')) \<and> (\<exists>evs. t' = t @ evs)) t"
proof (cases "mv_nat_applied v")
  case False
  then show ?thesis using assms
    by (auto simp: cleanup_rules_def owns_def nat_pending_def nat_done_def split: option.splits)
next
  case True
  then obtain ip where ip: "cc_container_ip (mv_config v) = Some ip" "mv_host_if v \<noteq> []"
    "map fst (os_system (own t)) = setup_commands (cleanup_subnet ip) (mv_host_if v)"
    using assms by (auto simp: owns_def nat_pending_def)
  have d: "nat_done (os_system (own t) @ [(a, x), (b, y), (c, z)])"
    if "[a, b, c] = cleanup_commands (cleanup_subnet ip) (mv_host_if v)" for a b c x y z
    unfolding nat_done_def using ip(3) that by auto
  show ?thesis using assms True ip(1,2)
    by (simp add: cleanup_rules_def cleanup_nat_def owns_def fd_step_def d cleanup_commands_def)
qed

lemma free_table_wp:
  "os_live (own t) = M + mset (filter (\<lambda>p. p \<noteq> 0) ps) \<Longrightarrow> \<not> os_bad (own t) \<Longrightarrow>
   wp ok (free_table ps) (\<lambda>_ t'. os_live (own t') = M \<and> \<not> os_bad (own t') \<and> open_fds t' = open_fds t \<and>
     os_system (own t') = os_system (own t) \<and> (\<exists>evs. t' = t @ evs)) t"
proof (induction ps arbitrary: t)
  case (Cons p ps)
  show ?case
  proof (cases "p = 0")
    case False
    have "wp ok (free_table ps) (\<lambda>_ t'. os_live (own t') = M \<and> \<not> os_bad (own t') \<and> open_fds t' = open_fds (t @ [(Free p, r)]) \<and>
        os_system (own t') = os_system (own (t @ [(Free p, r)])) \<and> (\<exists>evs. t' = (t @ [(Free p, r)]) @ evs)) (t @ [(Free p, r)])" for r
      by (rule Cons.IH) (use Cons.prems False in simp_all)
    then have "wp ok (free_table ps) (\<lambda>_ t'. os_live (own t') = M \<and> \<not> os_bad (own t') \<and> open_fds t' = open_fds t \<and>
        os_system (own t') = os_system (own t) \<and> (\<exists>evs. t' = t @ evs)) (t @ [(Free p, r)])" for r
      by (rule wp_mono) (use False in \<open>auto simp: open_fds_append fd_step_def\<close>)
    then show ?thesis using False by simp
  qed (use Cons in simp)
qed simp

lemma main_exit_clean:
  assumes "os_live (own t) = blk (mv_config_ptr v) + blk (mv_peer_ptr v) + blk (mv_tmp_ptr v) + table_blocks v"
    and "\<not> os_bad (own t)" and "open_fds t = {#}" and "nat_done (os_system (own t))"
  shows "wp (main_law N) (main_exit v e) (\<lambda>a t'. a = e \<and> clean t' \<and> (\<exists>evs. t' = t @ evs)) t"
proof -
  have log: "wp (main_law N) (perform (Log LOG_INFO_LEVEL (farewell e)) (Ret e)) (\<lambda>a t'. a = e \<and> clean t' \<and> (\<exists>evs. t' = t @ evs)) u"
    if "os_live (own u) = {#} \<and> \<not> os_bad (own u) \<and> open_fds u = {#} \<and> os_system (own u) = os_system (own t) \<and> (\<exists>evs. u = t @ evs)" for u
    using that assms(4) by (auto simp: clean_def open_fds_append fd_step_def)
  have tab: "wp (main_law N) (andthen (free_table (mv_table v)) (\<lambda>_. perform (Log LOG_INFO_LEVEL (farewell e)) (Ret e)))
      (\<lambda>a t'. a = e \<and> clean t' \<and> (\<exists>evs. t' = t @ evs)) u"
    if u: "u = t @ [(Free (mv_peer_ptr v), r), (Free (mv_tmp_ptr v), r'), (Free (mv_config_ptr v), r'')]" for u r r' r''
  proof (rule wp_andthenI [OF free_table_wp log])
    show "os_live (own u) = {#} + mset (filter (\<lambda>p. p \<noteq> 0) (mv_table v))" "\<not> os_bad (own u)"
      using assms(1,2) by (auto simp: u blk_def table_blocks_def)
  next
    fix u' assume *: "os_live (own u') = {#} \<and> \<not> os_bad (own u') \<and> open_fds u' = open_fds u \<and>
      os_system (own u') = os_system (own u) \<and> (\<exists>evs. u' = u @ evs)"
    have "open_fds u = {#}" "os_system (own u) = os_system (own t)"
      using assms(3) by (simp_all add: u fd_step_def)
    then show "os_live (own u') = {#} \<and> \<not> os_bad (own u') \<and> open_fds u' = {#} \<and> os_system (own u') = os_system (own t) \<and>
        (\<exists>evs. u' = t @ evs)" using * u by auto
  qed
  show ?thesis unfolding main_exit_def using tab [OF refl] by simp
qed

text \<open>Whatever the state, the labels run to their end.\<close>

lemma wp_extends: "wp ok p Q t \<Longrightarrow> wp ok p (\<lambda>a t'. Q a t' \<and> (\<exists>evs. t' = t @ evs)) t"
proof (induction p arbitrary: t)
  case (Sys c f)
  have "wp ok (f r) (\<lambda>a t'. Q a t' \<and> (\<exists>evs. t' = t @ evs)) (t @ [(c, r)])" if "ok t c r" for r
    by (rule wp_mono [OF Sys.IH [OF rangeI]]) (use Sys.prems that in auto)
  then show ?case by simp
qed simp_all

lemma main_exit_result: "wp ok (main_exit v e) (\<lambda>a _. a = e) t"
proof -
  have "wp ok (free_table ps) (\<lambda>_ _. True) t'" for ps t' by (induction ps arbitrary: t') simp_all
  then show ?thesis by (simp add: main_exit_def)
qed

lemma main_cleanup_result: "wp (main_law N) (main_cleanup v e) (\<lambda>a _. a = e) t"
proof -
  have calm_wp: "wp (main_law N) p (\<lambda>_ _. True) t'" if "calm N p" for p :: "int prog" and t'
    using that by (auto simp: calm_def elim: wp_mono)
  have rules: "wp (main_law N) (cleanup_rules v) (\<lambda>_ _. True) t'" for t'
    by (simp add: cleanup_rules_def cleanup_nat_def split: option.split)
  have veth: "wp (main_law N) (cleanup_veth v) (\<lambda>_ _. True) t'" for t'
    using calm_wp [OF calm_nl(4)] by (simp add: cleanup_veth_def split: option.split)
  have groups: "wp (main_law N) (case cc_hostname (mv_config v) of Some h \<Rightarrow> cgroups_free h | None \<Rightarrow> Ret 0) (\<lambda>_ _. True) t'" for t'
    using calm_wp [OF calm_small(1)] by (simp split: option.split)
  show ?thesis unfolding main_cleanup_def close_if_open_def
    by (intro wp_andthenI [OF rules] wp_andthenI [OF veth] wp_andthenI [OF groups] main_exit_result
        wp_andthenI [where R = "\<lambda>_ _. True"]) simp_all
qed

lemma main_cleanup_dirty:
  assumes "asprintf_failed t" and "ending e t"
  shows "wp (main_law N) (main_cleanup v e) released t"
  by (rule wp_mono [OF wp_extends [OF main_cleanup_result]]) (use assms in \<open>auto simp: released_def\<close>)

lemma main_exit_wp:
  assumes "os_live (own t) = blk (mv_config_ptr v) + blk (mv_peer_ptr v) + blk (mv_tmp_ptr v) + table_blocks v" and "\<not> os_bad (own t)"
    and "open_fds t = {#}" and "nat_done (os_system (own t))" and "ending e t"
  shows "wp (main_law N) (main_exit v e) released t"
  by (rule wp_mono [OF main_exit_clean [OF assms(1-4)]]) (use assms(5) in \<open>auto simp: released_def\<close>)

lemma main_cleanup_wp:
  assumes "owns v t" and "ending e t"
  shows "wp (main_law N) (main_cleanup v e) released t"
  unfolding main_cleanup_def
proof (rule wp_andthenI [OF cleanup_rules_wp [OF assms(1)]], elim conjE exE)
  fix t1 evs
  assume o: "os_live (own t1) = blocks v" "\<not> os_bad (own t1)" "open_fds t1 \<subseteq># socks v" "nat_done (os_system (own t1))"
    and t1: "t1 = t @ evs"
  have e: "ending e t1" using assms(2) t1 by auto
  have veth: "calm N (cleanup_veth v)"
    by (auto simp: cleanup_veth_def calm_def only_andthen split: option.splits
        intro!: only_andthen intro: calm_nl(4) [of N, unfolded calm_def, THEN conjunct1] calm_nl(4) [of N, unfolded calm_def, THEN conjunct2, rule_format])
  have cg: "calm N (case cc_hostname (mv_config v) of Some h \<Rightarrow> cgroups_free h | None \<Rightarrow> Ret 0)"
    by (auto simp: calm_small split: option.split) (simp add: calm_def)
  show "wp (main_law N) (andthen (cleanup_veth v) (\<lambda>_.
     andthen (if mv_stack v \<noteq> 0 then perform (Free (mv_stack v)) (Ret ()) else Ret ()) (\<lambda>_.
     andthen (close_if_open (mv_socket0 v)) (\<lambda>_. andthen (close_if_open (mv_socket1 v)) (\<lambda>_.
     andthen (case cc_hostname (mv_config v) of Some h \<Rightarrow> cgroups_free h | None \<Rightarrow> Ret 0) (\<lambda>_.
     main_exit v e)))))) released t1"
  proof (rule calm_then [OF veth])
    fix a :: unit and t2
    assume c: "own t2 = own t1" "open_fds t2 = open_fds t1" "\<exists>evs. t2 = t1 @ evs"
    have e2: "ending e t2" using e c(3) by auto
    have tail: "wp (main_law N) (andthen (case cc_hostname (mv_config v) of Some h \<Rightarrow> cgroups_free h | None \<Rightarrow> Ret 0)
        (\<lambda>_. main_exit v e)) released t3"
      if "os_live (own t3) = blk (mv_config_ptr v) + blk (mv_peer_ptr v) + blk (mv_tmp_ptr v) + table_blocks v" "\<not> os_bad (own t3)"
        "open_fds t3 = {#}" "nat_done (os_system (own t3))" "ending e t3" for t3
      by (rule calm_then [OF cg], rule main_exit_wp) (use that in auto)
    have fds: "open_fds t1 - sock (mv_socket0 v) - sock (mv_socket1 v) = {#}"
      using o(3) by (simp add: socks_def Diff_eq_empty_iff_mset)
    show "wp (main_law N) (andthen (if mv_stack v \<noteq> 0 then perform (Free (mv_stack v)) (Ret ()) else Ret ()) (\<lambda>_.
       andthen (close_if_open (mv_socket0 v)) (\<lambda>_. andthen (close_if_open (mv_socket1 v)) (\<lambda>_.
       andthen (case cc_hostname (mv_config v) of Some h \<Rightarrow> cgroups_free h | None \<Rightarrow> Ret 0) (\<lambda>_.
       main_exit v e))))) released t2"
      unfolding close_if_open_def using fds e2
      by (cases "mv_stack v = 0"; cases "0 \<le> mv_socket0 v"; cases "0 \<le> mv_socket1 v")
        (auto intro!: tail [unfolded wp_andthen] simp: c o blocks_def fd_step_def sock_def)
  qed
qed

section \<open>The stages\<close>

text \<open>The flag says whether shell commands may have been run already.\<close>

definition safe :: "nat \<Rightarrow> bool \<Rightarrow> main_vars \<Rightarrow> int prog \<Rightarrow> bool" where
  "safe N sh v p \<longleftrightarrow> (\<forall>t. owns v t \<and> (sh \<or> os_system (own t) = []) \<longrightarrow> wp (main_law N) p released t)"

lemma safe_True: "safe N True v p \<Longrightarrow> safe N sh v p"
  by (simp add: safe_def)

lemma safe_call: "calm N p \<Longrightarrow> (\<And>a. safe N sh v (g a)) \<Longrightarrow> safe N sh v (andthen p g)"
  unfolding safe_def by (intro allI impI calm_then) (auto simp: owns_def)

lemma safe_cleanup: "safe N sh v (main_cleanup v 1)"
  unfolding safe_def by (simp add: main_cleanup_wp)

lemma safe_if: "(b \<Longrightarrow> safe N sh v p) \<Longrightarrow> (\<not> b \<Longrightarrow> safe N sh v q) \<Longrightarrow> safe N sh v (if b then p else q)"
  by simp

text \<open>A call that neither the descriptors nor the monitor notice.\<close>

lemma safe_sys:
  assumes "own_idle c" and "fd_idle c" and "\<And>t r. main_law N t c r \<Longrightarrow> safe N sh v (f r)"
  shows "safe N sh v (Sys c f)"
  using assms unfolding safe_def by (auto simp: owns_def open_fds_append fd_step_idle)

lemma retries_snoc [simp]: "retries (t @ [(Waitpid pid, r)]) = (if retry pid r then Suc (retries t) else retries t)"
  by (simp add: retries_def)

lemma wait_exit_wp:
  "N - retries t < fuel \<Longrightarrow> wp (main_law N) (wait_exit fuel pid) (\<lambda>a t'. own t' = own t \<and> open_fds t' = open_fds t \<and>
     (\<forall>w. a = Some w \<longrightarrow> waited_for (container_status w) t')) t"
proof (induction fuel arbitrary: t)
  case (Suc fuel)
  have again: "wp (main_law N) (wait_exit fuel pid) (\<lambda>a t'. own t' = own t \<and> open_fds t' = open_fds t \<and>
     (\<forall>w. a = Some w \<longrightarrow> waited_for (container_status w) t')) (t @ [(Waitpid pid, r)])"
    if "main_law N t (Waitpid pid) r" "retry pid r" for r
  proof -
    have "retries t < N" using that by (simp add: main_law_def)
    then have "N - retries (t @ [(Waitpid pid, r)]) < fuel" using Suc.prems that(2) by simp
    from Suc.IH [OF this] show ?thesis by (rule wp_mono) (simp add: fd_step_def)
  qed
  have "waited_for (container_status (fst (rpair r))) (t @ [(Waitpid (rv r), r)])" for r
    unfolding waited_for_def by auto
  then show ?case using again by (auto simp: retry_def fd_step_def)
qed simp

lemma safe_wait: "N < fuel \<Longrightarrow> safe N sh v (main_wait fuel v pid)"
  unfolding safe_def main_wait_def
proof (intro allI impI wp_andthenI [OF wait_exit_wp])
  fix t a t'
  assume "owns v t \<and> (sh \<or> os_system (own t) = [])"
    and *: "own t' = own t \<and> open_fds t' = open_fds t \<and> (\<forall>w. a = Some w \<longrightarrow> waited_for (container_status w) t')"
  then have "owns v t'" by (simp add: owns_def)
  then show "wp (main_law N) (case a of None \<Rightarrow> main_cleanup v 1 | Some wstatus \<Rightarrow> main_cleanup v (container_status wstatus)) released t'"
    using * by (auto intro!: main_cleanup_wp simp: ending_def split: option.split)
qed simp

lemma safe_stop: "safe N sh v (stop_and_fail v pid)"
  unfolding stop_and_fail_def by (intro safe_call calm_small safe_cleanup)

lemma safe_mappings:
  assumes "N < fuel" and "- (2 ^ 31) \<le> pid" and "pid < 2 ^ 31"
  shows "safe N sh v (main_mappings fuel v pid)"
  unfolding main_mappings_def
  by (intro safe_call safe_if safe_stop safe_wait calm_prepare_mappings assms)

lemma safe_cgroups:
  assumes "N < fuel" and "- (2 ^ 31) \<le> pid" and "pid < 2 ^ 31" and "cc_hostname (mv_config v) = Some h"
  shows "safe N sh v (main_cgroups fuel v pid)"
  unfolding main_cgroups_def assms(4) checked_simps
  by (intro safe_call calm_cgroups_init safe_mappings assms)

lemma safe_move:
  assumes "N < fuel" and "- (2 ^ 31) \<le> pid" and "pid < 2 ^ 31" and "cc_hostname (mv_config v) = Some h"
  shows "safe N sh v (main_move fuel v pid)"
proof -
  have cg: "safe N True v (main_cgroups fuel v pid)" by (rule safe_cgroups [OF assms])
  have "wp (main_law N) (Sys (Open (ns_path pid) 0 0) (\<lambda>ns.
      if rv ns < 0 then stop_and_fail v pid
      else andthen (nl_move_to_ns tmp (rv ns)) (\<lambda>r.
        if r < 0 then perform (Close (rv ns)) (stop_and_fail v pid)
        else perform (Close (rv ns)) (main_cgroups fuel v pid)))) released t" if o: "owns v t" for t tmp
    unfolding wp.simps
  proof (intro allI impI)
    fix ns assume "main_law N t (Open (ns_path pid) 0 0) ns"
    let ?t = "t @ [(Open (ns_path pid) 0 0, ns)]"
    show "wp (main_law N) (if rv ns < 0 then stop_and_fail v pid else andthen (nl_move_to_ns tmp (rv ns)) (\<lambda>r.
        if r < 0 then perform (Close (rv ns)) (stop_and_fail v pid)
        else perform (Close (rv ns)) (main_cgroups fuel v pid))) released ?t"
    proof (cases "rv ns < 0")
      case True
      then have "owns v ?t" using o by (simp add: owns_def)
      then show ?thesis using True safe_stop [of N True v pid] by (simp add: safe_def)
    next
      case False
      have "wp (main_law N) (andthen (nl_move_to_ns tmp (rv ns)) (\<lambda>r.
          if r < 0 then perform (Close (rv ns)) (stop_and_fail v pid)
          else perform (Close (rv ns)) (main_cgroups fuel v pid))) released ?t"
      proof (rule calm_then [OF calm_nl(3)])
        fix a :: int and t' assume *: "own t' = own ?t" "open_fds t' = open_fds ?t"
        have "owns v (t' @ [(Close (rv ns), r)])" for r
          using o * False by (simp add: owns_def)
        then show "wp (main_law N) (if a < 0 then perform (Close (rv ns)) (stop_and_fail v pid)
            else perform (Close (rv ns)) (main_cgroups fuel v pid)) released t'"
          using safe_stop [of N True v pid] cg by (simp add: safe_def)
      qed
      then show ?thesis using False by simp
    qed
  qed
  then show ?thesis using cg unfolding main_move_def safe_def by (auto split: option.split bool.split)
qed

lemma safe_created:
  assumes "N < fuel" and "pid < 2 ^ 31" and "cc_hostname (mv_config v) = Some h"
  shows "safe N sh v (main_created fuel v pid)"
  unfolding main_created_def
proof (intro safe_if safe_cleanup safe_sys)
  assume "\<not> pid < 0"
  then show "safe N sh v (main_move fuel v pid)"
    by (intro safe_move) (use assms in simp_all)
qed (simp_all add: fd_idle_def)

lemma safe_create:
  assumes "N < fuel" and "cc_hostname (mv_config v) = Some h"
  shows "safe N sh v (main_create fuel v)"
  unfolding safe_def
proof (intro allI impI)
  fix t assume "owns v t \<and> (sh \<or> os_system (own t) = [])"
  then have o: "owns v t" ..
  have o1: "owns v (t @ [(Clone clone_flags, r)])" for r
    using o by (simp add: owns_def open_fds_append fd_step_def own_idle_def)
  have o2: "owns (v\<lparr>mv_config := mv_config v\<lparr>cc_fd := -1\<rparr>\<rparr>) (t @ [(Clone clone_flags, r), (Close (cc_fd (mv_config v)), r')])" for r r'
    using o by (auto simp: owns_def fd_step_def blocks_def socks_def nat_pending_def intro: subset_mset.order_trans [OF diff_subset_eq_self])
  have c1: "wp (main_law N) (main_created fuel v (rv r)) released (t @ [(Clone clone_flags, r)])"
    if "rv r < 2 ^ 31" for r
    using safe_created [OF assms(1) that assms(2), of True] o1 by (simp add: safe_def)
  have c2: "wp (main_law N) (main_created fuel (v\<lparr>mv_config := mv_config v\<lparr>cc_fd := -1\<rparr>\<rparr>) (rv r)) released
      (t @ [(Clone clone_flags, r), (Close (cc_fd (mv_config v)), r')])" if "rv r < 2 ^ 31" for r r'
    using safe_created [OF assms(1) that, of "v\<lparr>mv_config := mv_config v\<lparr>cc_fd := -1\<rparr>\<rparr>" h True] o2 assms(2)
    by (simp add: safe_def)
  have fail: "wp (main_law N) (main_created fuel v (-1)) released (t @ [(Clone clone_flags, r)])" for r
    using safe_created [OF assms(1) _ assms(2), of "-1" True] o1 by (simp add: safe_def)
  show "wp (main_law N) (main_create fuel v) released t"
    unfolding main_create_def container_init_def
    using c1 c2 fail by (auto simp: main_law_def)
qed

lemma owns_veth_created [simp]: "owns (v\<lparr>mv_veth_created := b\<rparr>) t \<longleftrightarrow> owns v t"
  by (simp add: owns_def blocks_def socks_def nat_pending_def)

text \<open>\<open>setup_nat\<close> establishes what \<open>cleanup\<close> undoes.\<close>

lemma safe_nat:
  assumes ip: "cc_container_ip (mv_config v) = Some ip" and no: "\<not> mv_nat_applied v"
    and k: "\<And>h b. safe N True (v\<lparr>mv_host_if := h, mv_nat_applied := b\<rparr>) (k (v\<lparr>mv_host_if := h, mv_nat_applied := b\<rparr>))"
    and k0: "safe N True v (k v)"
  shows "safe N False v (host_nat v ip k)"
proof (cases "cc_enable_nat (mv_config v) \<and> cc_host_ip (mv_config v) \<noteq> None")
  case False
  then show ?thesis using safe_True [OF k0] by (auto simp: host_nat_def)
next
  case True
  have "wp (main_law N) (host_nat v ip k) released t" if o: "owns v t" "os_system (own t) = []" for t
    unfolding host_nat_def if_P [OF True]
  proof (rule calm_then_result [where P = "\<lambda>d :: string option. d \<noteq> Some []"])
    show "only own_idle (detect_host_interface 64)"
      by (simp add: detect_host_interface_def Let_def)
    show "wp (main_law N) (detect_host_interface 64) (\<lambda>d t'. d \<noteq> Some [] \<and> open_fds t' = open_fds t) t"
      by (auto simp: detect_host_interface_def Let_def open_fds_append fd_step_def)
  next
    fix d :: "string option" and t1 assume d: "d \<noteq> Some []" and c: "own t1 = own t" "open_fds t1 = open_fds t"
    define h where "h = (case d of Some i \<Rightarrow> i | None \<Rightarrow> ''eth0'')"
    have h: "h \<noteq> []" using d by (auto simp: h_def split: option.split)
    let ?s = "setup_subnet ip"
    let ?c = "\<lambda>i. setup_commands ?s h ! i"
    have failed: "owns (v\<lparr>mv_host_if := h, mv_nat_applied := False\<rparr>) (t1 @ [(System (?c 0), r)])" if "rv r \<noteq> 0" for r
      using o c that no
      by (auto simp: owns_def blocks_def socks_def nat_pending_def nat_none_def open_fds_append fd_step_def hd_conv_nth setup_commands_def)
    have added: "owns (v\<lparr>mv_host_if := h, mv_nat_applied := True\<rparr>)
        (t1 @ [(System (?c 0), r), (System (?c 1), r'), (System (?c 2), r'')])" for r r' r''
      using o c ip h
      by (simp add: owns_def blocks_def socks_def nat_pending_def fd_step_def setup_commands_def subnets_agree numeral_2_eq_2)
    show "wp (main_law N) (let host_if = case d of None \<Rightarrow> ''eth0'' | Some i \<Rightarrow> i in
        andthen (setup_nat (setup_subnet ip) host_if) (\<lambda>r. k (v\<lparr>mv_host_if := host_if, mv_nat_applied := \<not> r < 0\<rparr>))) released t1"
      using k [of True h] k [of False h] failed added
      unfolding h_def [symmetric] Let_def setup_nat_def
      by (simp add: safe_def setup_commands_def numeral_2_eq_2)
  qed
  then show ?thesis by (simp add: safe_def)
qed

lemma calm_ret: "calm N (Ret x)"
  by (simp add: calm_def)

lemma safe_veth_created [simp]: "safe N sh (v\<lparr>mv_veth_created := b\<rparr>) p \<longleftrightarrow> safe N sh v p"
  by (simp add: safe_def)

definition net_ready :: "main_vars \<Rightarrow> bool" where
  "net_ready v \<longleftrightarrow> (\<forall>name ip. cc_veth_name (mv_config v) = Some name \<and> cc_container_ip (mv_config v) = Some ip \<longrightarrow>
     (\<exists>tmp peer. cc_veth_tmp (mv_config v) = Some tmp \<and> cc_veth_peer (mv_config v) = Some peer \<and> veth_fits tmp peer))"

lemma safe_host_address: "safe N sh v k \<Longrightarrow> safe N sh v (host_address v' peer k)"
  unfolding host_address_def by (auto intro: safe_call calm_nl split: option.split)

lemma safe_host_forward: "safe N sh v k \<Longrightarrow> safe N sh v (host_forward v' k)"
  unfolding host_forward_def by (auto intro: safe_call calm_small split: option.split)

lemma safe_network:
  assumes r: "net_ready v" and no: "\<not> mv_nat_applied v"
    and k: "\<And>v'. mv_config v' = mv_config v \<Longrightarrow> safe N True v' (k v')"
  shows "safe N False v (main_network v k)"
proof (cases "cc_veth_name (mv_config v)")
  case None
  then show ?thesis using safe_True [OF k, of v] by (simp add: main_network_def)
next
  case name: (Some name)
  show ?thesis
  proof (cases "cc_container_ip (mv_config v)")
    case None
    then show ?thesis using name safe_True [OF k, of v] by (simp add: main_network_def)
  next
    case ip: (Some ip)
    obtain tmp peer where tp: "cc_veth_tmp (mv_config v) = Some tmp" "cc_veth_peer (mv_config v) = Some peer"
      "veth_fits tmp peer" using r name ip by (auto simp: net_ready_def)
    let ?v = "v\<lparr>mv_veth_created := True\<rparr>"
    have nat: "safe N False ?v (host_nat ?v ip k)"
      by (rule safe_nat) (use ip no k k [of ?v] in simp_all)
    have "safe N False v (andthen (nl_del_link tmp) (\<lambda>_. andthen (nl_del_link peer) (\<lambda>_.
         andthen (nl_create_veth tmp peer) (\<lambda>r.
           if r < 0 then main_cleanup v 1
           else host_address ?v peer (andthen (nl_set_up peer) (\<lambda>_. host_forward ?v (host_nat ?v ip k)))))))"
      by (intro safe_call safe_if safe_cleanup calm_nl tp(3) safe_host_address safe_host_forward)
        (use nat in simp)
    then show ?thesis unfolding main_network_def name ip tp(1,2) Let_def by simp
  qed
qed

lemma safe_stack:
  assumes "N < fuel" and "cc_hostname (mv_config v) = Some h" and "net_ready v" and "\<not> mv_nat_applied v"
    and "mv_stack v = 0"
  shows "safe N False v (main_stack fuel v)"
  unfolding safe_def
proof (intro allI impI)
  fix t assume "owns v t \<and> (False \<or> os_system (own t) = [])"
  then have o: "owns v t" "os_system (own t) = []" by simp_all
  let ?t = "\<lambda>r. t @ [(Malloc CONTAINER_STACK_SIZE, r)]"
  have net: "safe N False (v\<lparr>mv_stack := p\<rparr>) (main_network (v\<lparr>mv_stack := p\<rparr>) (main_create fuel))" for p
    by (rule safe_network) (use assms in \<open>auto simp: net_ready_def intro: safe_create\<close>)
  have o1: "owns v (?t r)" if "rv r = 0" for r
    using o that by (auto simp: owns_def open_fds_append fd_step_def)
  have o2: "owns (v\<lparr>mv_stack := rv r\<rparr>) (?t r) \<and> os_system (own (?t r)) = []" if "rv r \<noteq> 0" for r
    using o that assms(5) by (simp add: owns_def open_fds_append fd_step_def blocks_def socks_def)
  show "wp (main_law N) (main_stack fuel v) released t"
    unfolding main_stack_def using net o1 o2 by (simp add: safe_def main_cleanup_wp)
qed

lemma safe_sockets:
  assumes "N < fuel" and "cc_hostname (mv_config v) = Some h" and "net_ready v" and "\<not> mv_nat_applied v"
    and "mv_stack v = 0" and "mv_socket0 v < 0" and "mv_socket1 v < 0"
  shows "safe N False v (main_sockets fuel v)"
  unfolding safe_def
proof (intro allI impI)
  fix t assume "owns v t \<and> (False \<or> os_system (own t) = [])"
  then have o: "owns v t" "os_system (own t) = []" by simp_all
  let ?v = "\<lambda>r. v\<lparr>mv_socket0 := fst (rpair r), mv_socket1 := snd (rpair r)\<rparr>"
  let ?t = "\<lambda>r. t @ [(Socketpair, r)]"
  have fail: "owns v (?t r)" if "rv r < 0" for r
    using o that by (auto simp: owns_def open_fds_append)
  have o1: "owns (?v r) (t @ [(Socketpair, r), (Fcntl_cloexec (fst (rpair r)), r')]) \<and>
      os_system (own (t @ [(Socketpair, r), (Fcntl_cloexec (fst (rpair r)), r')])) = []"
    if "0 \<le> rv r" "main_law N t Socketpair r" for r r'
    using o that assms(6,7)
    by (simp add: owns_def fd_step_def blocks_def socks_def sock_def main_law_def posix_law_def)
  have stack: "safe N False (?v r\<lparr>mv_config := c\<rparr>) (main_stack fuel (?v r\<lparr>mv_config := c\<rparr>))"
    if "c = mv_config v\<lparr>cc_fd := f\<rparr>" for r c f
    by (rule safe_stack) (use assms that in \<open>auto simp: net_ready_def\<close>)
  have owns_fd: "owns (?v r\<lparr>mv_config := mv_config v\<lparr>cc_fd := f\<rparr>\<rparr>) t' = owns (?v r) t'" for r f t'
    by (simp add: owns_def blocks_def socks_def nat_pending_def)
  have go: "wp (main_law N) (main_stack fuel (?v r\<lparr>mv_config := mv_config v\<lparr>cc_fd := f\<rparr>\<rparr>)) released
      (t @ [(Socketpair, r), (Fcntl_cloexec (fst (rpair r)), r')])"
    if "0 \<le> rv r" "main_law N t Socketpair r" for r r' f
    by (rule stack [OF refl, unfolded safe_def, rule_format]) (use o1 [OF that, of r'] in \<open>simp add: owns_fd\<close>)
  show "wp (main_law N) (main_sockets fuel v) released t"
    unfolding main_sockets_def Let_def
    using fail o1 go by (auto simp: main_cleanup_wp not_less)
qed

section \<open>The configuration\<close>

lemma name_lengths: "length (peer_name name sfx) \<le> 15" "length (tmp_name sfx) \<le> 15"
  by (simp_all add: peer_name_def tmp_name_def)

lemma veth_fits_tmp: "length tmp \<le> 15 \<Longrightarrow> length peer \<le> 195 \<Longrightarrow> veth_fits tmp peer"
proof -
  assume a: "length tmp \<le> 15" "length peer \<le> 195"
  have "rta_align (length tmp + 5) \<le> 20" using a(1) by (simp add: rta_align_def)
  then show ?thesis using a(2) by (simp add: veth_fits_def)
qed

text \<open>A peer name of the command line must fit the request.\<close>

definition cl_fits :: "cmdline \<Rightarrow> bool" where
  "cl_fits cl \<longleftrightarrow> (\<forall>p \<in> set_option (cl_veth_peer cl). length p \<le> 195)"

text \<open>The variables when stage 3 starts, and what the later stages need.\<close>

definition early :: "main_vars \<Rightarrow> bool" where
  "early v \<longleftrightarrow> \<not> mv_nat_applied v \<and> mv_stack v = 0 \<and> mv_socket0 v < 0 \<and> mv_socket1 v < 0"

lemma nat_pending_early: "early v \<Longrightarrow> nat_pending v [] \<longleftrightarrow> True"
  by (simp add: early_def nat_pending_def nat_none_def)

definition ready :: "main_vars \<Rightarrow> bool" where
  "ready v \<longleftrightarrow> early v \<and> net_ready v \<and> cc_hostname (mv_config v) \<noteq> None"

text \<open>Ownership while no shell command has run.\<close>

definition owns0 :: "main_vars \<Rightarrow> trace \<Rightarrow> bool" where
  "owns0 v t \<longleftrightarrow> os_live (own t) = blocks v \<and> \<not> os_bad (own t) \<and> open_fds t \<subseteq># socks v \<and> os_system (own t) = []"

lemma owns0: "early v \<Longrightarrow> owns0 v t \<Longrightarrow> owns v t \<and> os_system (own t) = []"
  by (simp add: owns_def owns0_def nat_pending_early)

lemma fails0: "early v \<Longrightarrow> owns0 v t \<Longrightarrow> wp (main_law N) (main_cleanup v 1) released t"
  by (simp add: owns0 main_cleanup_wp)

lemma make_tmp_wp:
  assumes e: "early v" "owns0 v t" "mv_tmp_ptr v = 0"
    and k: "\<And>v' t' p. v' = v\<lparr>mv_tmp_ptr := p, mv_config := (mv_config v)\<lparr>cc_veth_tmp := Some (tmp_name sfx)\<rparr>\<rparr> \<Longrightarrow>
      owns0 v' t' \<Longrightarrow> wp (main_law N) (k v') released t'"
  shows "wp (main_law N) (make_tmp v sfx k) released t"
proof -
  let ?t = "\<lambda>r. t @ [(Asprintf (tmp_name sfx), r)]"
  have fail: "wp (main_law N) (main_cleanup v' 1) released (?t r)" if "rv r < 0" for r v'
    by (rule main_cleanup_dirty [OF asprintf_failed_snoc [OF that]]) simp
  have good: "wp (main_law N) (k (v\<lparr>mv_tmp_ptr := fst (rpair r), mv_config := (mv_config v)\<lparr>cc_veth_tmp := Some (tmp_name sfx)\<rparr>\<rparr>)) released (?t r)"
    if "0 \<le> rv r" "fst (rpair r) \<noteq> 0" for r
    by (rule k [OF refl]) (use e that in \<open>simp add: owns0_def blocks_def socks_def open_fds_append fd_step_def\<close>)
  show ?thesis unfolding make_tmp_def
    using fail good by (simp add: main_law_def Let_def)
qed

lemma make_peer_wp:
  assumes e: "early v" "owns0 v t" "mv_peer_ptr v = 0" and cl: "cl_fits cl"
    and k: "\<And>v' t' p peer. v' = v\<lparr>mv_peer_ptr := p, mv_config := (mv_config v)\<lparr>cc_veth_peer := Some peer\<rparr>\<rparr> \<Longrightarrow>
      length peer \<le> 195 \<Longrightarrow> owns0 v' t' \<Longrightarrow> wp (main_law N) (k v') released t'"
  shows "wp (main_law N) (make_peer cl v name sfx k) released t"
proof (cases "cl_veth_peer cl")
  case None
  let ?t = "\<lambda>r. t @ [(Asprintf (peer_name name sfx), r)]"
  have fail: "wp (main_law N) (main_cleanup v' 1) released (?t r)" if "rv r < 0" for r v'
    by (rule main_cleanup_dirty [OF asprintf_failed_snoc [OF that]]) simp
  have good: "wp (main_law N) (k (v\<lparr>mv_peer_ptr := fst (rpair r), mv_config := (mv_config v)\<lparr>cc_veth_peer := Some (peer_name name sfx)\<rparr>\<rparr>)) released (?t r)"
    if "0 \<le> rv r" "fst (rpair r) \<noteq> 0" for r
    by (rule k [OF refl])
      (use e that name_lengths(1) [of name sfx] in \<open>simp_all add: owns0_def blocks_def socks_def open_fds_append fd_step_def\<close>)
  show ?thesis unfolding make_peer_def None
    using fail good by (simp add: main_law_def Let_def)
next
  case (Some peer)
  let ?t = "\<lambda>r. t @ [(Strdup peer, r)]"
  have fail: "wp (main_law N) (main_cleanup v 1) released (?t r)" if "rv r = 0" for r
    by (rule fails0) (use e that in \<open>simp_all add: owns0_def open_fds_append fd_step_def\<close>)
  have good: "wp (main_law N) (k (v\<lparr>mv_peer_ptr := rv r, mv_config := (mv_config v)\<lparr>cc_veth_peer := Some peer\<rparr>\<rparr>)) released (?t r)"
    if "rv r \<noteq> 0" for r
    by (rule k [OF refl])
      (use e that cl Some in \<open>simp_all add: owns0_def blocks_def socks_def open_fds_append fd_step_def cl_fits_def\<close>)
  show ?thesis unfolding make_peer_def Some
    using fail good by simp
qed

lemma generate_wp:
  assumes "length junk = 16"
  shows "only own_idle (generate_random_suffix junk)"
    and "wp (main_law N) (generate_random_suffix junk) (\<lambda>b t'. (length b = 16 \<and> suffix_bytes 8 b \<and> b ! 15 = 0 \<and>
      (\<forall>j. 8 \<le> j \<and> j < 15 \<longrightarrow> b ! j = junk ! j)) \<and> open_fds t' = open_fds t) t"
proof -
  have "only own_idle (suffix_loop buf i)" for buf i
    by (induction buf i rule: suffix_loop.induct) (subst suffix_loop.simps, auto simp: checked_def split: option.split)
  then show "only own_idle (generate_random_suffix junk)" by (simp add: generate_random_suffix_def)
  have "wp (main_law N) (suffix_loop junk 0) (\<lambda>b t'. (length b = 16 \<and> suffix_bytes 8 b \<and> b ! 15 = 0 \<and>
      (\<forall>j. 8 \<le> j \<and> j < 15 \<longrightarrow> b ! j = junk ! j)) \<and> open_fds t' = open_fds t1) t1" for t1
    using suffix_loop_wp [OF assms, of 0 N t1] by (simp add: suffix_bytes_def)
  then have "wp (main_law N) (suffix_loop junk 0) (\<lambda>b t'. (length b = 16 \<and> suffix_bytes 8 b \<and> b ! 15 = 0 \<and>
      (\<forall>j. 8 \<le> j \<and> j < 15 \<longrightarrow> b ! j = junk ! j)) \<and> open_fds t' = open_fds t)
      (t @ [(Clock_gettime, r), (Getpid, r'), (Srand n, r'')])" for r r' r'' n
    by (rule wp_mono) (simp add: fd_step_def)
  then show "wp (main_law N) (generate_random_suffix junk) (\<lambda>b t'. (length b = 16 \<and> suffix_bytes 8 b \<and> b ! 15 = 0 \<and>
      (\<forall>j. 8 \<le> j \<and> j < 15 \<longrightarrow> b ! j = junk ! j)) \<and> open_fds t' = open_fds t) t"
    by (simp add: generate_random_suffix_def)
qed

lemma main_config_wp:
  assumes junk: "length junk = 16" and cl: "cl_fits cl" and e: "early v" "owns0 v t" "mv_peer_ptr v = 0" "mv_tmp_ptr v = 0"
    and k: "\<And>v' t'. ready v' \<Longrightarrow> owns0 v' t' \<Longrightarrow> wp (main_law N) (k v') released t'"
  shows "wp (main_law N) (main_config junk cl v k) released t"
proof -
  have plain: "wp (main_law N) (k (v\<lparr>mv_config := base_config cl\<rparr>)) released t"
    by (rule k) (use e in \<open>simp_all add: ready_def early_def net_ready_def owns0_def blocks_def socks_def base_config_def null_config_def\<close>)
  have net: "wp (main_law N) (andthen (generate_random_suffix junk) (\<lambda>buf.
      make_peer cl w name (c_string buf) (\<lambda>v. make_tmp v (c_string buf) k))) released t"
    if w: "w = v\<lparr>mv_config := c\<rparr>" and c: "cc_hostname c = Some h" for w c h name
  proof (rule calm_then_result [OF generate_wp [OF junk]])
    fix buf t1 assume o: "own t1 = own t" "open_fds t1 = open_fds t"
    show "wp (main_law N) (make_peer cl w name (c_string buf) (\<lambda>v. make_tmp v (c_string buf) k)) released t1"
    proof (rule make_peer_wp [OF _ _ _ cl])
      show "early w" "mv_peer_ptr w = 0" using e w by (simp_all add: early_def)
      show "owns0 w t1" using e(2) o w by (simp add: owns0_def blocks_def socks_def)
    next
      fix v1 t2 p peer
      assume v1: "v1 = w\<lparr>mv_peer_ptr := p, mv_config := (mv_config w)\<lparr>cc_veth_peer := Some peer\<rparr>\<rparr>"
        and peer: "length peer \<le> 195" and o2: "owns0 v1 t2"
      show "wp (main_law N) (make_tmp v1 (c_string buf) k) released t2"
      proof (rule make_tmp_wp [OF _ o2])
        show "early v1" "mv_tmp_ptr v1 = 0" using e v1 w by (simp_all add: early_def)
      next
        fix v2 t3 q
        assume v2: "v2 = v1\<lparr>mv_tmp_ptr := q, mv_config := (mv_config v1)\<lparr>cc_veth_tmp := Some (tmp_name (c_string buf))\<rparr>\<rparr>"
          and o3: "owns0 v2 t3"
        have "ready v2"
          using e v1 v2 w c peer name_lengths(2) [of "c_string buf"]
          by (simp add: ready_def early_def net_ready_def veth_fits_tmp)
        then show "wp (main_law N) (k v2) released t3" using o3 by (rule k)
      qed
    qed
  qed
  show ?thesis
    unfolding main_config_def Let_def
    using plain net [OF refl] by (auto simp: base_config_def null_config_def split: option.split simp del: wp_andthen)
qed

section \<open>main\<close>

definition early_exit :: "cmdline \<Rightarrow> int \<Rightarrow> bool" where
  "early_exit cl a \<longleftrightarrow> a = 0 \<and> cl_errors cl \<le> 0 \<and> 0 < cl_help cl"

text \<open>The constructor of the entry number \<open>i\<close> of the table got no memory, and the process ended in the panic
  handler of the library.\<close>

definition panicked :: "int \<Rightarrow> trace \<Rightarrow> bool" where
  "panicked a t \<longleftrightarrow> (\<exists>i < length table_sizes. \<exists>pre r r' s rest.
     t = pre @ (Malloc (table_sizes ! i), r) # (Print ''Out of memory!\<newline>'', r') # (Getenv ''EF_DUMPCORE'', s) # rest \<and>
     map fst pre = Calloc 1 96 # map Malloc (take i table_sizes) \<and> rv r = 0 \<and>
     (if rv s \<noteq> 0 \<and> c_string (rbuf s) \<noteq> [] then a = 134 \<and> map fst rest = [Abort] else a = 1 \<and> rest = []))"

text \<open>How \<open>main\<close> may end.\<close>

definition main_ends :: "cmdline \<Rightarrow> int \<Rightarrow> trace \<Rightarrow> bool" where
  "main_ends cl a t \<longleftrightarrow> (ending a t \<or> early_exit cl a) \<and> (clean t \<or> asprintf_failed t) \<or> panicked a t"

text \<open>The variables and the history while the table is allocated.\<close>

definition allocating :: "nat list \<Rightarrow> main_vars \<Rightarrow> trace \<Rightarrow> bool" where
  "allocating ns v t \<longleftrightarrow> owns0 v t \<and> early v \<and> mv_peer_ptr v = 0 \<and> mv_tmp_ptr v = 0 \<and>
     map fst t = Calloc 1 96 # map Malloc ns"

lemma main_panic_wp:
  assumes "allocating ns v t" and "ns @ n # ms = table_sizes" and "rv r = 0"
  shows "wp ok main_panic panicked (t @ [(Malloc n, r)])"
proof -
  have i: "length ns < length table_sizes" "table_sizes ! length ns = n" "take (length ns) table_sizes = ns"
    by (simp_all add: assms(2) [symmetric])
  have t: "map fst t = Calloc 1 96 # map Malloc (take (length ns) table_sizes)"
    using assms(1) i(3) by (simp add: allocating_def)
  have "panicked a (t @ (Malloc n, r) # (Print ''Out of memory!\<newline>'', r') # (Getenv ''EF_DUMPCORE'', s) # rest)"
    if "if rv s \<noteq> 0 \<and> c_string (rbuf s) \<noteq> [] then a = 134 \<and> map fst rest = [Abort] else a = 1 \<and> rest = []" for a r' s rest
    unfolding panicked_def
    by (rule exI [of _ "length ns"], rule conjI [OF i(1)], rule exI [of _ t], rule exI [of _ r], rule exI [of _ r'],
        rule exI [of _ s], rule exI [of _ rest]) (use that i(2) t assms(3) in simp)
  then show ?thesis by (simp add: main_panic_def)
qed

lemma alloc_table_wp:
  assumes "allocating ns v t" and "ns @ ms = table_sizes"
    and "\<And>v t. allocating table_sizes v t \<Longrightarrow> wp ok (k v) Q t" and "\<And>a t. panicked a t \<Longrightarrow> Q a t"
  shows "wp ok (alloc_table ms v k) Q t"
  using assms(1,2)
proof (induction ms arbitrary: ns v t)
  case (Cons n ms)
  have p: "wp ok main_panic Q (t @ [(Malloc n, r)])" if "rv r = 0" for r
    by (rule wp_mono [OF main_panic_wp [OF Cons.prems that] assms(4)])
  have "allocating (ns @ [n]) (v\<lparr>mv_table := mv_table v @ [rv r]\<rparr>) (t @ [(Malloc n, r)])" if "rv r \<noteq> 0" for r
    using Cons.prems(1) that
    by (simp add: allocating_def owns0_def blocks_def socks_def table_blocks_def early_def open_fds_append fd_step_def)
  then have "wp ok (alloc_table ms (v\<lparr>mv_table := mv_table v @ [rv r]\<rparr>) k) Q (t @ [(Malloc n, r)])" if "rv r \<noteq> 0" for r
    using that Cons.prems(2) by (intro Cons.IH [of "ns @ [n]"]) simp_all
  then show ?case using p by simp
qed (use assms(3) in simp)

lemma owns0_idle:
  assumes "owns0 v t" and "own_idle c" and "fd_idle c"
  shows "owns0 v (t @ [(c, r)])"
  using assms by (simp add: owns0_def open_fds_append fd_step_idle)

lemma fd_idle_simps [simp]: "fd_idle (Print s)" "fd_idle (Log_set_level i)" "fd_idle Geteuid"
  by (simp_all add: fd_idle_def)

lemma allocated_exit:
  assumes "owns0 v t" and "early v" and "e = 1 \<or> early_exit cl e"
  shows "wp (main_law N) (main_exit v e) (main_ends cl) t"
proof (rule wp_mono [OF main_exit_clean])
  show "os_live (own t) = blk (mv_config_ptr v) + blk (mv_peer_ptr v) + blk (mv_tmp_ptr v) + table_blocks v"
    "\<not> os_bad (own t)" "open_fds t = {#}" "nat_done (os_system (own t))"
    using assms(1,2) by (simp_all add: owns0_def early_def blocks_def socks_def sock_def nat_done_def nat_none_def)
qed (use assms(3) in \<open>auto simp: main_ends_def\<close>)

lemma main_program_wp:
  assumes N: "N < fuel" and junk: "length junk = 16" and cl: "cl_fits cl"
  shows "wp (main_law N) (main_program fuel junk cl) (main_ends cl) []"
proof -
  have done0: "main_ends cl 1 [(Calloc 1 96, r), (Print x, r')]" if "rv r = 0" for r r' x
    using that by (simp add: main_ends_def clean_def fd_step_def nat_done_def nat_none_def open_fds_def own_def)
  have start: "allocating [] (initial_vars (rv r)) [(Calloc 1 96, r)]" if "rv r \<noteq> 0" for r
    using that by (simp add: allocating_def owns0_def early_def initial_vars_def blocks_def socks_def sock_def table_blocks_def
        own_def open_fds_def fd_step_def)
  have body: "wp (main_law N) (main_config junk cl v (\<lambda>v. perform Geteuid (main_sockets fuel v))) (main_ends cl) t"
    if a: "owns0 v t" "early v" "mv_peer_ptr v = 0" "mv_tmp_ptr v = 0" for v t
  proof (rule wp_mono [OF main_config_wp [OF junk cl a(2,1,3,4)]])
    fix v' t' assume v: "ready v'" and o: "owns0 v' t'"
    obtain h where h: "cc_hostname (mv_config v') = Some h" using v by (auto simp: ready_def)
    have s: "safe N False v' (main_sockets fuel v')"
      by (rule safe_sockets [OF N h]) (use v in \<open>simp_all add: ready_def early_def\<close>)
    have "owns v' (t' @ [(Geteuid, r)]) \<and> os_system (own (t' @ [(Geteuid, r)])) = []" for r
      by (intro owns0 owns0_idle [OF o]) (use v in \<open>simp_all add: ready_def\<close>)
    then show "wp (main_law N) (perform Geteuid (main_sockets fuel v')) released t'"
      using s unfolding safe_def wp.simps by blast
  qed (auto simp: released_def main_ends_def)
  let ?main = "\<lambda>v. if 0 < cl_errors cl then
         perform (Print (cl_error_text cl))
           (perform (Print ''Try 'barco --help' for more information.\<newline>'') (main_exit v 1))
       else if 0 < cl_help cl then
         perform (Print ''Usage: barco'') (perform (Print (cl_syntax_text cl)) (perform (Print (cl_glossary_text cl))
           (main_exit v 0)))
       else perform (Log_set_level (if 0 < cl_verbose cl then LOG_TRACE_LEVEL else LOG_INFO_LEVEL))
         (main_config junk cl v (\<lambda>v. perform Geteuid (main_sockets fuel v)))"
  have main: "wp (main_law N) (?main v) (main_ends cl) t" if "allocating table_sizes v t" for v t
  proof -
    have o: "owns0 v t" "early v" "mv_peer_ptr v = 0" "mv_tmp_ptr v = 0" using that by (simp_all add: allocating_def)
    have o1: "owns0 v (t @ [(c, r)])" if "own_idle c" "fd_idle c" for c r using owns0_idle [OF o(1) that] .
    have o2: "owns0 v (t @ [(Print x, r), (Print x', r')])" for x r x' r'
      using owns0_idle [OF o1, of "Print x" "Print x'" r r'] by simp
    have o3: "owns0 v (t @ [(Print x, r), (Print x', r'), (Print x'', r'')])" for x r x' r' x'' r''
      using owns0_idle [OF o2, of "Print x''" x r x' r' r''] by simp
    show ?thesis
      using allocated_exit [OF o2 o(2), of 1 cl N] allocated_exit [OF o3 o(2), of 0 cl N] body [OF o1 o(2-4), of "Log_set_level i" for i]
      by (simp add: early_exit_def)
  qed
  have "wp (main_law N) (alloc_table table_sizes (initial_vars (rv r)) ?main) (main_ends cl) [(Calloc 1 96, r)]"
    if "rv r \<noteq> 0" for r
    by (rule alloc_table_wp [OF start [OF that]]) (use main in \<open>simp_all add: main_ends_def\<close>)
  then have "wp (main_law N) (if rv r = 0 then perform (Print ''failed to allocate config: %m\<newline>'') (Ret 1)
      else alloc_table table_sizes (initial_vars (rv r)) ?main) (main_ends cl) ([] @ [(Calloc 1 96, r)])" for r
    using done0 [of r] by (cases "rv r = 0") (simp_all only: if_True if_False wp.simps append.simps simp_thms)
  then show ?thesis
    unfolding main_program_def wp.simps by blast
qed

section \<open>The names of the interfaces\<close>

lemma c_string_prefix:
  assumes "suffix_bytes 8 b" and "8 \<le> length b"
  shows "\<exists>rest. c_string b = string_of_bytes (take 8 b) @ rest"
proof -
  have "x \<noteq> 0" if "x \<in> set (take 8 b)" for x
  proof -
    from that obtain j where j: "j < 8" "x = b ! j" by (auto simp: in_set_conv_nth)
    then obtain c where c: "c \<in> set suffix_alphabet" "x = of_char c" using assms(1) by (auto simp: suffix_bytes_def)
    have "(of_char c :: byte) \<noteq> 0" using c(1) by (auto simp: suffix_alphabet_def)
    then show ?thesis using c(2) by simp
  qed
  then have "takeWhile (\<lambda>x. x \<noteq> 0) (take 8 b @ drop 8 b) = take 8 b @ takeWhile (\<lambda>x. x \<noteq> 0) (drop 8 b)"
    by (intro takeWhile_append2) auto
  then show ?thesis by (simp add: c_string_def string_of_bytes_def)
qed

lemma names_from_random:
  assumes "suffix_bytes 8 b" and "8 \<le> length b"
  shows "tmp_name (c_string b) = ''veth-tmp-'' @ string_of_bytes (take 6 b)"
    and "name \<noteq> [] \<Longrightarrow> peer_name name (c_string b) = take 15 (''veth-'' @ name @ ''-'' @ string_of_bytes (take 8 b))"
proof -
  obtain rest where r: "c_string b = string_of_bytes (take 8 b) @ rest" using c_string_prefix [OF assms] ..
  have l: "length (string_of_bytes (take 8 b)) = 8" using assms(2) by (simp add: string_of_bytes_def)
  have six: "take 6 (string_of_bytes (take 8 b)) = string_of_bytes (take 6 b)"
    by (simp add: string_of_bytes_def take_map [symmetric])
  show "tmp_name (c_string b) = ''veth-tmp-'' @ string_of_bytes (take 6 b)"
    using six l by (simp add: tmp_name_def snprintf_s_def r min_def)
  show "peer_name name (c_string b) = take 15 (''veth-'' @ name @ ''-'' @ string_of_bytes (take 8 b))" if "name \<noteq> []"
  proof -
    let ?p = "''veth-'' @ name @ ''-''"
    have "15 \<le> length (?p @ string_of_bytes (take 8 b))" using that l by (cases name) simp_all
    then have "take 15 ((?p @ string_of_bytes (take 8 b)) @ rest) = take 15 (?p @ string_of_bytes (take 8 b))"
      by (simp only: take_append) simp
    moreover have "peer_name name (c_string b) = take 15 ((?p @ string_of_bytes (take 8 b)) @ rest)"
      by (simp add: peer_name_def snprintf_s_def r min_def, arith)
    ultimately show ?thesis by (simp only: append_assoc)
  qed
qed

lemma generated:
  assumes "obeys k (main_law N)" and "length junk = 16"
  shows "\<exists>b t'. run k (generate_random_suffix junk) t = (Inr b, t') \<and> length b = 16 \<and> suffix_bytes 8 b \<and> b ! 15 = 0 \<and>
    (\<forall>j. 8 \<le> j \<and> j < 15 \<longrightarrow> b ! j = junk ! j)"
  using wp_run [OF assms(1) generate_wp(2) [OF assms(2)], of t] by blast

section \<open>Properties\<close>

text \<open>C3: main ends and does not fault, whichever of its calls fail, as long as the answers are within the documented laws
  (main_law: netlink answers are framed as the kernel frames them, open, socketpair, clone and rand answer in their
  ranges, a successful asprintf stores an address, at most N waits are interrupted, with fuel for more than N), the
  array suffix has its 16 bytes and --veth-peer has at most 195 characters.  Unless memory for the argument table ran
  out, it ends with exit code 1, with the status of the container it waited for, or with 0 after printing the help
  text.  Then, unless a call of asprintf failed, every heap block of main is freed once, those of the configuration
  and of the entries of the argument table, the stack and the names, and nothing else was freed; no descriptor is
  open; and the iptables commands it ran are none, one masquerade command that failed, or the three additions
  followed by the three deletions of the same rules.  The exceptions are exact: when asprintf fails, cleanup frees a
  pointer that is undefined then; when a constructor of the table gets no memory, the library prints a message and
  ends the process on the spot, with 1 or by abort.\<close>

theorem main_cleans_up:
  assumes "obeys k (main_law N)" and "N < fuel" and "length junk = 16" and "cl_fits cl"
  shows "\<exists>a t'. run k (main_program fuel junk cl) [] = (Inr a, t') \<and>
    ((ending a t' \<or> early_exit cl a) \<and> (clean t' \<or> asprintf_failed t') \<or> panicked a t')"
  using wp_run [OF assms(1) main_program_wp [OF assms(2-4)]] unfolding main_ends_def .

definition main_kernel :: kernel where
  "main_kernel t c = (case c of
       Calloc n m \<Rightarrow> ret 4096
     | Malloc n \<Rightarrow> ret (8192 + 64 * int (length t))
     | Strdup x \<Rightarrow> ret 12288
     | Asprintf x \<Rightarrow> (ret (int (length x)))\<lparr>rpair := (16384, 0)\<rparr>
     | Socketpair \<Rightarrow> (ret 0)\<lparr>rpair := (4, 5)\<rparr>
     | Clone f \<Rightarrow> ret 4242
     | Waitpid pid \<Rightarrow> (ret pid)\<lparr>rpair := (7 * 256, 0)\<rparr>
     | Read d n \<Rightarrow> userns_kernel t c
     | Write d m \<Rightarrow> userns_kernel t c
     | Open p f m \<Rightarrow> userns_kernel t c
     | _ \<Rightarrow> demo_kernel t c)"

lemma main_kernel_obeys: "obeys main_kernel (main_law N)"
proof (unfold obeys_def main_law_def, intro allI conjI)
  fix t c
  have n: "nl_law t c (demo_kernel t c)" using demo_obeys by (simp add: obeys_def)
  show "nl_law t c (main_kernel t c)"
    by (cases c) (use n in \<open>simp_all add: main_kernel_def nl_law_def\<close>)
  show "posix_law t c (main_kernel t c)"
    by (cases c) (simp_all add: main_kernel_def posix_law_def userns_kernel_def demo_kernel_def ret_def)
  show "env_law N t c (main_kernel t c)"
    by (cases c) (simp_all add: main_kernel_def env_law_def demo_kernel_def ret_def retry_def)
qed

definition demo_cmdline :: cmdline where
  "demo_cmdline = \<lparr>cl_errors = 0, cl_help = 0, cl_verbose = 0, cl_nat = 0, cl_uid = 0, cl_mnt = ''/srv/rootfs'',
     cl_cmd = ''/bin/sh'', cl_arg = None, cl_veth = None, cl_veth_peer = None, cl_container_ip = None, cl_host_ip = None,
     cl_dns = None, cl_error_text = [], cl_syntax_text = [], cl_glossary_text = []\<rparr>"

lemma short_paths:
  "\<not> 4096 \<le> length (proc_path 4242 ''setgroups'')" "\<not> 4096 \<le> length (proc_path 4242 ''uid_map'')"
  "\<not> 4096 \<le> length (proc_path 4242 ''gid_map'')"
  by (simp_all add: not_le)

lemmas main_run_simps = short_paths main_program_def demo_cmdline_def main_config_def base_config_def null_config_def initial_vars_def
  main_sockets_def main_stack_def main_network_def main_create_def container_init_def main_created_def main_move_def
  main_cgroups_def cgroups_init_def enable_controllers_def make_dir_def cgroups_setting_list_def run_andthen
  main_mappings_def user_namespace_prepare_mappings_def main_wait_def main_cleanup_def cleanup_rules_def cleanup_veth_def
  close_if_open_def cgroups_free_def main_exit_def main_kernel_def demo_kernel_def userns_kernel_def Let_def
  int_of_le32_def of_le_def le32_int_def le32_def table_sizes_def container_status_def WIFEXITED_def WEXITSTATUS_def WTERMSIG_def

lemma demo_main: "fst (run main_kernel (main_program 1 (zeros 16) demo_cmdline) []) = Inr 7"
  by (simp add: main_run_simps)

text \<open>Every event of a run is an answer of the kernel.\<close>

lemma run_answers:
  assumes "e \<in> set t'" and "run k p [] = (a, t')"
  shows "\<exists>t. e = (fst e, k t (fst e))"
proof -
  have "\<forall>e \<in> set (snd (run k p t)). e \<in> set t \<or> (\<exists>u. snd e = k u (fst e))" for t
    by (induction p arbitrary: t) fastforce+
  from this [of "[]"] show ?thesis using assms by (metis empty_iff list.set(1) prod.collapse snd_conv)
qed

theorem main_cleans_up_witness:
  "fst (run main_kernel (main_program 1 (zeros 16) demo_cmdline) []) = Inr 7 \<and>
    clean (snd (run main_kernel (main_program 1 (zeros 16) demo_cmdline) []))"
proof -
  obtain a t' where r: "run main_kernel (main_program 1 (zeros 16) demo_cmdline) [] = (Inr a, t')"
    and e: "clean t' \<or> asprintf_failed t' \<or> panicked a t'"
    using main_cleans_up [OF main_kernel_obeys [of 0], of 1 "zeros 16" demo_cmdline]
    by (auto simp: demo_cmdline_def cl_fits_def)
  have a: "a = 7" using r demo_main by simp
  have "\<not> panicked a t'" using a by (auto simp: panicked_def split: if_splits)
  moreover have "\<not> asprintf_failed t'"
  proof
    assume "asprintf_failed t'"
    then obtain c r' where c: "(c, r') \<in> set t'" "case c of Asprintf x \<Rightarrow> rv r' < 0 | _ \<Rightarrow> False"
      unfolding asprintf_failed_def by blast
    then obtain x where "(Asprintf x, r') \<in> set t'" "rv r' < 0" by (cases c) simp_all
    then show False using run_answers [OF _ r] by (fastforce simp: main_kernel_def)
  qed
  ultimately show ?thesis using e a r by simp
qed

text \<open>The names of the two interfaces are at most 15 characters.  The temporary name ends in 6 random
  characters.  The name of the peer has room for 9 characters after its prefix veth-: it holds a
  random part only when the name given on the command line is shorter than 9 characters, and
  otherwise two containers with the same name get the same peer.  The uninitialised bytes of the
  array suffix never show.\<close>

theorem interface_names:
  assumes "obeys k (main_law N)" and "length junk = 16" and "name \<noteq> []"
  shows "\<exists>b t'. run k (generate_random_suffix junk) t = (Inr b, t') \<and> suffix_bytes 8 b \<and>
    tmp_name (c_string b) = ''veth-tmp-'' @ string_of_bytes (take 6 b) \<and>
    peer_name name (c_string b) =
      (if length name < 9 then ''veth-'' @ name @ ''-'' @ string_of_bytes (take (9 - length name) (take 8 b))
       else take 15 (''veth-'' @ name @ ''-''))"
proof -
  obtain b t' where b: "run k (generate_random_suffix junk) t = (Inr b, t')" "length b = 16" "suffix_bytes 8 b"
    using generated [OF assms(1,2), of t] by blast
  have l: "8 \<le> length b" using b(2) by simp
  have "peer_name name (c_string b) =
      (if length name < 9 then ''veth-'' @ name @ ''-'' @ string_of_bytes (take (9 - length name) (take 8 b))
       else take 15 (''veth-'' @ name @ ''-''))"
  proof (cases "length name < 9")
    case True
    then have "take (10 - length name) (''-'' @ x) = ''-'' @ take (9 - length name) x" for x :: string
      by (simp add: take_Cons')
    then show ?thesis
      using names_from_random(2) [OF b(3) l assms(3)] True by (simp add: string_of_bytes_def take_map)
  next
    case False
    then have "take (10 - length name) (''-'' @ x) = take (10 - length name) ''-''" for x :: string
      by (simp add: take_Cons')
    then show ?thesis
      using names_from_random(2) [OF b(3) l assms(3)] False by simp
  qed
  then show ?thesis using b names_from_random(1) [OF b(3) l] by blast
qed

theorem interface_names_witness:
  "\<exists>b t'. run main_kernel (generate_random_suffix (zeros 16)) [] = (Inr b, t') \<and>
    peer_name ''container-net'' (c_string b) = ''veth-container-'' \<and> length (tmp_name (c_string b)) \<le> 15"
  using interface_names [OF main_kernel_obeys [of 0], of "zeros 16" "''container-net''" "[]"]
  by (fastforce simp: tmp_name_def snprintf_s_def)

text \<open>The descriptor of the container is closed by \<open>container_init\<close> and again at \<open>cleanup\<close>.\<close>

lemma socket_closed_twice:
  "length (filter (\<lambda>e. fst e = Close 5) (snd (run main_kernel (main_program 1 (zeros 16) demo_cmdline) []))) = 2"
  by (simp add: main_run_simps)

end
