(* ===== verification/Arg_Dstr.thy ===== *)
theory Arg_Dstr
  imports Cstring
begin

text \<open>
  The growing strings of \<open>lib/argtable/argtable3.c\<close>.  Arrays are lists of characters with their NULs;
  \<open>data\<close> is a pointer to the static buffer, to the append buffer or to a block of the caller.  An operation is
  \<open>None\<close> where the code would leave an array or free what is not on the heap.  The sizes of the code are of type
  \<open>int\<close>: the operations take the test whether a number is one as a parameter and are \<open>None\<close> where the code would
  overflow.  The operations of the code, with the suffix 32, have the test \<open>int_fits\<close>; the other theories use the same
  operations with sizes of any length, which agree with them wherever the code does not overflow.
\<close>

section \<open>C strings in arrays\<close>

abbreviation NUL :: char where "NUL \<equiv> CHR 0x00"

definition nul_free :: "string \<Rightarrow> bool" where
  "nul_free s \<longleftrightarrow> NUL \<notin> set s"

text \<open>The string at the start of an array; without a NUL the search would leave it.\<close>

definition cstr :: "string \<Rightarrow> string option" where
  "cstr arr = (if NUL \<in> set arr then Some (takeWhile (\<lambda>c. c \<noteq> NUL) arr) else None)"

definition strcpy :: "string \<Rightarrow> string \<Rightarrow> string option" where
  "strcpy arr s = wr arr 0 (s @ [NUL])"

lemma cstr_append: "nul_free s \<Longrightarrow> cstr (s @ NUL # r) = Some s"
  by (auto simp: cstr_def nul_free_def takeWhile_append)

lemma cstr_nul_free: "cstr arr = Some s \<Longrightarrow> nul_free s"
  by (auto simp: cstr_def nul_free_def dest: set_takeWhileD split: if_splits)

section \<open>Sizes\<close>

definition int_fits :: "nat \<Rightarrow> bool" where
  "int_fits n \<longleftrightarrow> n < 2 ^ 31"

abbreviation any_size :: "nat \<Rightarrow> bool" where "any_size \<equiv> (\<lambda>n. True)"

definition fit :: "(nat \<Rightarrow> bool) \<Rightarrow> nat \<Rightarrow> nat option" where
  "fit fits n = (if fits n then Some n else None)"

definition up_to :: "(nat \<Rightarrow> bool) \<Rightarrow> nat \<Rightarrow> bool" where
  "up_to fits n \<longleftrightarrow> (\<forall>m \<le> n. fits m)"

lemma fit_simps [simp]: "fits n \<Longrightarrow> fit fits n = Some n" "fit any_size n = Some n"
  by (simp_all add: fit_def)

lemma fit_SomeD: "fit fits n = Some m \<Longrightarrow> m = n \<and> fits n"
  by (simp add: fit_def split: if_splits)

lemma up_to_fits: "up_to fits n \<Longrightarrow> m \<le> n \<Longrightarrow> fits m" "up_to fits n \<Longrightarrow> m \<le> n \<Longrightarrow> up_to fits m"
  by (simp_all add: up_to_def)

lemma up_to_simps [simp]: "up_to any_size n" "up_to int_fits n \<longleftrightarrow> n < 2 ^ 31"
  by (auto simp: up_to_def int_fits_def)

section \<open>State\<close>

datatype free_proc = ARG_DSTR_STATIC | ARG_DSTR_VOLATILE | ARG_DSTR_DYNAMIC | Free_with nat

datatype data_pointer = To_sbuf | To_append | To_block

record dstr =
  data :: data_pointer
  free_proc :: free_proc
  sbuf :: string
  append_data :: "string option"
  append_data_size :: nat
  append_used :: nat
  block :: "string option"

definition ARG_DSTR_SIZE :: nat where "ARG_DSTR_SIZE = 200"
definition START_VSNBUFF :: nat where "START_VSNBUFF = 16"

definition data_array :: "dstr \<Rightarrow> string option" where
  "data_array ds = (case data ds of To_sbuf \<Rightarrow> Some (sbuf ds) | To_append \<Rightarrow> append_data ds | To_block \<Rightarrow> block ds)"

section \<open>Operations\<close>

definition arg_dstr_create :: dstr where
  "arg_dstr_create = \<lparr>data = To_sbuf, free_proc = ARG_DSTR_STATIC, sbuf = replicate (ARG_DSTR_SIZE + 1) NUL,
     append_data = None, append_data_size = 0, append_used = 0, block = None\<rparr>"

definition arg_dstr_free :: "dstr \<Rightarrow> dstr option" where
  "arg_dstr_free ds =
     (if free_proc ds = ARG_DSTR_STATIC then Some ds
      else if data ds = To_block \<and> block ds \<noteq> None then Some (ds\<lparr>block := None, free_proc := ARG_DSTR_STATIC\<rparr>)
      else None)"

definition drop_append :: "dstr \<Rightarrow> dstr" where
  "drop_append ds =
     (if append_data ds \<noteq> None \<and> 0 < append_data_size ds then ds\<lparr>append_data := None, append_data_size := 0\<rparr> else ds)"

definition arg_dstr_reset :: "dstr \<Rightarrow> dstr option" where
  "arg_dstr_reset ds = do {
     ds \<leftarrow> arg_dstr_free ds;
     buf \<leftarrow> wr (sbuf (drop_append ds)) 0 [NUL];
     Some ((drop_append ds)\<lparr>data := To_sbuf, sbuf := buf\<rparr>)}"

text \<open>\<open>arg_dstr_set\<close> with a string that does not overlap \<open>ds\<close>.  The block that was there before is
  freed, or was the caller's.\<close>

definition set_with :: "(nat \<Rightarrow> bool) \<Rightarrow> string option \<Rightarrow> free_proc \<Rightarrow> dstr \<Rightarrow> dstr option" where
  "set_with fits str fp ds = do {
     new \<leftarrow> (case str of
         None \<Rightarrow> do {
           buf \<leftarrow> wr (sbuf ds) 0 [NUL];
           Some (ds\<lparr>sbuf := buf, data := To_sbuf, free_proc := ARG_DSTR_STATIC, block := None\<rparr>)}
       | Some s \<Rightarrow>
           if fp = ARG_DSTR_VOLATILE then do {
             n \<leftarrow> fit fits (length s);
             (if ARG_DSTR_SIZE < n then do {
                buf \<leftarrow> strcpy (replicate (length s + 1) NUL) s;
                Some (ds\<lparr>data := To_block, free_proc := ARG_DSTR_DYNAMIC, block := Some buf\<rparr>)}
              else do {
                buf \<leftarrow> strcpy (sbuf ds) s;
                Some (ds\<lparr>sbuf := buf, data := To_sbuf, free_proc := ARG_DSTR_STATIC, block := None\<rparr>)})}
           else Some (ds\<lparr>data := To_block, free_proc := fp, block := Some (s @ [NUL])\<rparr>));
     Some (drop_append new)}"

definition arg_dstr_set32 :: "string option \<Rightarrow> free_proc \<Rightarrow> dstr \<Rightarrow> dstr option" where
  "arg_dstr_set32 = set_with int_fits"

definition arg_dstr_cstr :: "dstr \<Rightarrow> string option" where
  "arg_dstr_cstr ds = Option.bind (data_array ds) cstr"

text \<open>\<open>append_used\<close> is brought up to date.\<close>

definition measure_data :: "(nat \<Rightarrow> bool) \<Rightarrow> dstr \<Rightarrow> dstr option" where
  "measure_data fits ds = do {
     arr \<leftarrow> data_array ds;
     if data ds \<noteq> To_append then do {
       s \<leftarrow> cstr arr;
       let ds = (if 500 < append_data_size ds then ds\<lparr>append_data := None, append_data_size := 0\<rparr> else ds);
       used \<leftarrow> fit fits (length s);
       Some (ds\<lparr>append_used := used\<rparr>)}
     else if length arr \<le> append_used ds then None
     else if arr ! append_used ds \<noteq> NUL then do {
       s \<leftarrow> cstr arr;
       used \<leftarrow> fit fits (length s);
       Some (ds\<lparr>append_used := used\<rparr>)}
     else Some ds}"

text \<open>The new append buffer, and the final switch to it.\<close>

definition grow_append :: "(nat \<Rightarrow> bool) \<Rightarrow> nat \<Rightarrow> dstr \<Rightarrow> dstr option" where
  "grow_append fits total_space ds = do {
     s \<leftarrow> arg_dstr_cstr ds;
     total_space \<leftarrow> (if total_space < 100 then Some 200 else fit fits (total_space * 2));
     buf \<leftarrow> strcpy (replicate total_space NUL) s;
     Some (ds\<lparr>append_data := Some buf, append_data_size := total_space\<rparr>)}"

text \<open>While the old append buffer is being replaced, \<open>data\<close> may still point to it; it is not read after that.\<close>

definition setup_append_buf :: "(nat \<Rightarrow> bool) \<Rightarrow> nat \<Rightarrow> dstr \<Rightarrow> dstr option" where
  "setup_append_buf fits new_space ds = do {
     ds \<leftarrow> measure_data fits ds;
     total_space \<leftarrow> fit fits (new_space + append_used ds);
     ds \<leftarrow> (if append_data_size ds \<le> total_space then grow_append fits total_space ds
       else if data ds \<noteq> To_append then do {
         s \<leftarrow> arg_dstr_cstr ds;
         buf \<leftarrow> append_data ds;
         buf \<leftarrow> strcpy buf s;
         Some (ds\<lparr>append_data := Some buf\<rparr>)}
       else Some ds);
     ds \<leftarrow> arg_dstr_free ds;
     Some (ds\<lparr>data := To_append\<rparr>)}"

text \<open>\<open>memcpy(ds->data + strlen(ds->data), ...)\<close>: no terminating NUL is copied.\<close>

definition append_chars :: "string \<Rightarrow> dstr \<Rightarrow> dstr option" where
  "append_chars str ds = do {
     s \<leftarrow> arg_dstr_cstr ds;
     arr \<leftarrow> append_data ds;
     arr \<leftarrow> wr arr (length s) str;
     Some (ds\<lparr>append_data := Some arr\<rparr>)}"

text \<open>\<open>(int)strlen(str) + 1\<close> is computed in an \<open>int\<close>.\<close>

definition cat_with :: "(nat \<Rightarrow> bool) \<Rightarrow> string \<Rightarrow> dstr \<Rightarrow> dstr option" where
  "cat_with fits str ds = do {
     n \<leftarrow> fit fits (length str);
     n \<leftarrow> fit fits (n + 1);
     ds \<leftarrow> setup_append_buf fits n ds;
     append_chars str ds}"

definition arg_dstr_cat32 :: "string \<Rightarrow> dstr \<Rightarrow> dstr option" where
  "arg_dstr_cat32 = cat_with int_fits"

definition arg_dstr_cat :: "string \<Rightarrow> dstr \<Rightarrow> dstr option" where
  "arg_dstr_cat = cat_with any_size"

definition catc_with :: "(nat \<Rightarrow> bool) \<Rightarrow> char \<Rightarrow> dstr \<Rightarrow> dstr option" where
  "catc_with fits c ds = do { ds \<leftarrow> setup_append_buf fits 2 ds; append_chars [c] ds }"

definition arg_dstr_catc32 :: "char \<Rightarrow> dstr \<Rightarrow> dstr option" where
  "arg_dstr_catc32 = catc_with int_fits"

definition arg_dstr_catc :: "char \<Rightarrow> dstr \<Rightarrow> dstr option" where
  "arg_dstr_catc = catc_with any_size"

section \<open>Formatted output\<close>

datatype format_arg = F_str string | F_char char | F_int int

text \<open>The conversions that the library uses: \<open>%s\<close>, \<open>%c\<close>, \<open>%d\<close>, with a width and a minus sign.  \<open>None\<close> for
  an argument of the wrong type or no argument.\<close>

definition pad_field :: "bool \<Rightarrow> nat \<Rightarrow> string \<Rightarrow> string" where
  "pad_field left w s = (if left then s @ replicate (w - length s) CHR '' '' else replicate (w - length s) CHR '' '' @ s)"

definition convert_arg :: "char \<Rightarrow> format_arg \<Rightarrow> string option" where
  "convert_arg c a = (case a of
       F_str s \<Rightarrow> if c = CHR ''s'' then Some s else None
     | F_char x \<Rightarrow> if c = CHR ''c'' then Some [x] else None
     | F_int i \<Rightarrow> if c = CHR ''d'' then Some (show_int i) else None)"

lemma scan_digits_length: "length (snd (scan_digits b n s)) \<le> length s"
  by (induction b n s rule: scan_digits.induct) (auto split: option.splits)

function c_format :: "string \<Rightarrow> format_arg list \<Rightarrow> string option" where
  "c_format [] args = Some []"
| "c_format (c # cs) args =
     (if c \<noteq> CHR ''%'' then map_option ((#) c) (c_format cs args)
      else let left = (hd (cs @ [NUL]) = CHR ''-''); (w, r) = scan_digits 10 0 (if left then tl cs else cs) in
        (case (r, args) of
           (conv # rest, a # args') \<Rightarrow> do { s \<leftarrow> convert_arg conv a; t \<leftarrow> c_format rest args'; Some (pad_field left w s @ t) }
         | _ \<Rightarrow> None))"
  by pat_completeness auto

termination
proof (relation "measure (length \<circ> fst)", goal_cases)
  case (3 c cs args left p w r rp pa conv rest a args')
  have "length (snd p) \<le> length (if left then tl cs else cs)" using scan_digits_length 3 by metis
  then have "length r \<le> length cs" using 3 by (cases left) (auto dest: sym)
  then show ?case using 3 by auto
qed simp_all

text \<open>The search for a buffer that is large enough, from size \<open>n\<close> on; what \<open>strlen\<close> finds in it is the text up to
  the first NUL.\<close>

definition vsn_text :: "nat \<Rightarrow> string \<Rightarrow> string" where
  "vsn_text n text = takeWhile (\<lambda>c. c \<noteq> NUL) (take n text)"

text \<open>The buffer has \<open>n + 2\<close> bytes; \<open>vsnprintf\<close> returns the length of the whole text, which must be an \<open>int\<close>.\<close>

partial_function (option) vsn_loop :: "(nat \<Rightarrow> bool) \<Rightarrow> nat \<Rightarrow> string \<Rightarrow> string option" where
  "vsn_loop fits n text = do {
     _ \<leftarrow> fit fits (n + 2);
     r \<leftarrow> fit fits (length text);
     if length (vsn_text n text) < n then Some (vsn_text n text)
     else do {
       n \<leftarrow> (if n < r then Some r else fit fits (n + n));
       vsn_loop fits n text}}"

definition catf_with :: "(nat \<Rightarrow> bool) \<Rightarrow> string \<Rightarrow> format_arg list \<Rightarrow> dstr \<Rightarrow> dstr option" where
  "catf_with fits fmt args ds = do {
     text \<leftarrow> c_format fmt args;
     n \<leftarrow> fit fits (2 * length fmt);
     buff \<leftarrow> vsn_loop fits (max n START_VSNBUFF) text;
     cat_with fits buff ds}"

definition arg_dstr_catf32 :: "string \<Rightarrow> format_arg list \<Rightarrow> dstr \<Rightarrow> dstr option" where
  "arg_dstr_catf32 = catf_with int_fits"

definition arg_dstr_catf :: "string \<Rightarrow> format_arg list \<Rightarrow> dstr \<Rightarrow> dstr option" where
  "arg_dstr_catf = catf_with any_size"

section \<open>The invariant\<close>

text \<open>The rest of the append buffer is zero, so that appended characters are terminated.\<close>

definition append_ok :: "string \<Rightarrow> nat \<Rightarrow> nat \<Rightarrow> bool" where
  "append_ok arr sz used \<longleftrightarrow> (\<exists>s. nul_free s \<and> length s < sz \<and> used \<le> length s \<and> arr = s @ replicate (sz - length s) NUL)"

definition dstr_ok :: "dstr \<Rightarrow> bool" where
  "dstr_ok ds \<longleftrightarrow> length (sbuf ds) = ARG_DSTR_SIZE + 1 \<and>
     (case data ds of
        To_sbuf \<Rightarrow> NUL \<in> set (sbuf ds) \<and> append_data ds = None \<and> append_data_size ds = 0 \<and> free_proc ds = ARG_DSTR_STATIC
      | To_append \<Rightarrow> (\<exists>arr. append_data ds = Some arr \<and> append_ok arr (append_data_size ds) (append_used ds)) \<and>
          free_proc ds = ARG_DSTR_STATIC
      | To_block \<Rightarrow> (\<exists>arr. block ds = Some arr \<and> NUL \<in> set arr) \<and> append_data ds = None \<and> append_data_size ds = 0)"

definition dstr_text :: "dstr \<Rightarrow> string" where
  "dstr_text ds = the (arg_dstr_cstr ds)"

lemma padded_cstr [simp]: "nul_free s \<Longrightarrow> length s < n \<Longrightarrow> cstr (s @ replicate (n - length s) NUL) = Some s"
  using cstr_append [of s "replicate (n - length s - 1) NUL"] by (simp flip: replicate_Suc add: Suc_diff_Suc)

lemma strcpy_zeros: "length s < n \<Longrightarrow> strcpy (replicate n NUL) s = Some (s @ replicate (n - length s) NUL)"
  by (simp add: strcpy_def wr_def splice_def Suc_diff_Suc flip: replicate_Suc)

lemma dstr_created: "dstr_ok arg_dstr_create" "dstr_text arg_dstr_create = []"
  by (simp_all add: dstr_ok_def arg_dstr_create_def dstr_text_def arg_dstr_cstr_def data_array_def cstr_def ARG_DSTR_SIZE_def)

lemma cstr_total: "dstr_ok ds \<Longrightarrow> arg_dstr_cstr ds = Some (dstr_text ds) \<and> nul_free (dstr_text ds)"
proof -
  assume ok: "dstr_ok ds"
  have "\<exists>s. arg_dstr_cstr ds = Some s"
    using ok by (cases "data ds") (auto simp: dstr_ok_def arg_dstr_cstr_def data_array_def append_ok_def cstr_def)
  then show ?thesis by (auto simp: dstr_text_def arg_dstr_cstr_def bind_eq_Some_conv intro: cstr_nul_free)
qed

lemma append_state:
  assumes "dstr_ok ds" and "data ds = To_append"
  shows "append_data ds = Some (dstr_text ds @ replicate (append_data_size ds - length (dstr_text ds)) NUL)"
    "length (dstr_text ds) < append_data_size ds" "append_used ds \<le> length (dstr_text ds)"
  using assms by (auto simp: dstr_ok_def append_ok_def dstr_text_def arg_dstr_cstr_def data_array_def)

lemma measure_ok:
  assumes ok: "dstr_ok ds" and len_fits: "fits (length (dstr_text ds))"
  shows "measure_data fits ds = Some (ds\<lparr>append_used := length (dstr_text ds)\<rparr>)"
proof (cases "data ds = To_append")
  case True
  note a = append_state [OF ok True]
  have c: "arg_dstr_cstr ds = Some (dstr_text ds)" "nul_free (dstr_text ds)" using cstr_total [OF ok] by auto
  have arr: "data_array ds = append_data ds" using True by (simp add: data_array_def)
  let ?arr = "dstr_text ds @ replicate (append_data_size ds - length (dstr_text ds)) NUL"
  have len: "length ?arr = append_data_size ds" using a(2) by simp
  have "append_used ds = length (dstr_text ds)" if "?arr ! append_used ds = NUL"
  proof (rule ccontr)
    assume "append_used ds \<noteq> length (dstr_text ds)"
    then have "append_used ds < length (dstr_text ds)" using a(3) by simp
    then have "NUL \<in> set (dstr_text ds)" using that by (auto simp: nth_append) (metis nth_mem)
    then show False using c(2) by (simp add: nul_free_def)
  qed
  then show ?thesis using c(2) a len True len_fits by (auto simp: measure_data_def arr)
next
  case False
  then have "append_data_size ds = 0" using ok by (cases "data ds") (auto simp: dstr_ok_def)
  then show ?thesis
    using False cstr_total [OF ok] len_fits by (auto simp: measure_data_def arg_dstr_cstr_def bind_eq_Some_conv)
qed

lemma setup_ok:
  assumes ok: "dstr_ok ds" and room: "up_to fits (2 * (n + length (dstr_text ds)))"
  obtains ds' where "setup_append_buf fits n ds = Some ds'" "data ds' = To_append" "free_proc ds' = ARG_DSTR_STATIC"
    "append_data ds' = Some (dstr_text ds @ replicate (append_data_size ds' - length (dstr_text ds)) NUL)"
    "length (dstr_text ds) + n < append_data_size ds'" "append_used ds' = length (dstr_text ds)" "sbuf ds' = sbuf ds"
proof -
  let ?t = "dstr_text ds" and ?ds = "ds\<lparr>append_used := length (dstr_text ds)\<rparr>"
  have r: "fits (length ?t)" "fits (n + length ?t)" "fits ((n + length ?t) * 2)"
    by (rule up_to_fits(1) [OF room]; simp)+
  have c: "arg_dstr_cstr ?ds = Some ?t" using cstr_total [OF ok] by (simp add: arg_dstr_cstr_def data_array_def cong: data_pointer.case_cong)
  have free: "free_proc ds = ARG_DSTR_STATIC \<or> data ds = To_block \<and> block ds \<noteq> None"
    using ok by (cases "data ds") (auto simp: dstr_ok_def)
  show thesis
  proof (cases "append_data_size ds \<le> n + length ?t")
    case True
    let ?total = "if n + length ?t < 100 then 200 else (n + length ?t) * 2"
    have fits: "length ?t < ?total" "length ?t + n < ?total" using True by auto
    let ?g = "?ds\<lparr>append_data := Some (?t @ replicate (?total - length ?t) NUL), append_data_size := ?total\<rparr>"
    have g: "grow_append fits (n + length ?t) ?ds = Some ?g"
    proof -
      have "(if n + length ?t < 100 then Some 200 else fit fits ((n + length ?t) * 2)) = Some ?total" using r(3) by (simp del: distrib_right_numeral)
      then show ?thesis using strcpy_zeros [OF fits(1)] by (simp only: grow_append_def c Option.bind_lunit)
    qed
    have m: "setup_append_buf fits n ds = Option.bind (arg_dstr_free ?g) (\<lambda>ds. Some (ds\<lparr>data := To_append\<rparr>))"
      using True g by (simp add: setup_append_buf_def measure_ok [where fits = fits, OF ok r(1)] r)
    show thesis
      by (rule that [of "if free_proc ds = ARG_DSTR_STATIC then ?g\<lparr>data := To_append\<rparr>
          else ?g\<lparr>block := None, free_proc := ARG_DSTR_STATIC, data := To_append\<rparr>"])
        (use free fits m in \<open>auto simp: arg_dstr_free_def\<close>)
  next
    case False
    then have d: "data ds = To_append" using ok by (cases "data ds") (auto simp: dstr_ok_def)
    have "free_proc ds = ARG_DSTR_STATIC" using free d by simp
    then show thesis
      using that [of "?ds"] False d append_state [OF ok d]
      by (simp add: setup_append_buf_def measure_ok [where fits = fits, OF ok r(1)] arg_dstr_free_def r)
  qed
qed

lemma append_chars_ok:
  assumes ds: "data ds = To_append" "free_proc ds = ARG_DSTR_STATIC" "length (sbuf ds) = ARG_DSTR_SIZE + 1"
    "append_data ds = Some (t @ replicate (append_data_size ds - length t) NUL)" "append_used ds = length t"
    and fits: "length t + length str < append_data_size ds" and nul: "nul_free t" "nul_free str"
  obtains ds' where "append_chars str ds = Some ds'" "dstr_ok ds'" "dstr_text ds' = t @ str"
proof -
  have c: "arg_dstr_cstr ds = Some t" using ds(1,4) nul(1) fits by (simp add: arg_dstr_cstr_def data_array_def)
  let ?arr = "(t @ str) @ replicate (append_data_size ds - length (t @ str)) NUL"
  have w: "wr (t @ replicate (append_data_size ds - length t) NUL) (length t) str = Some ?arr"
    using fits by (simp add: wr_def splice_def)
  let ?ds = "ds\<lparr>append_data := Some ?arr\<rparr>"
  have nf: "nul_free (t @ str)" using nul by (simp add: nul_free_def)
  have "append_ok ?arr (append_data_size ds) (append_used ds)"
    unfolding append_ok_def using nf fits ds(5) by (intro exI [of _ "t @ str"]) simp
  then have "dstr_ok ?ds" using ds by (simp add: dstr_ok_def)
  moreover have "dstr_text ?ds = t @ str"
    using nf fits ds(1) padded_cstr [of "t @ str"] by (simp add: dstr_text_def arg_dstr_cstr_def data_array_def)
  moreover have "append_chars str ds = Some ?ds" using ds(4) w by (simp add: append_chars_def c)
  ultimately show thesis by (intro that)
qed

lemma cat_with_ok:
  assumes ok: "dstr_ok ds" and nul: "nul_free str" and room: "up_to fits (2 * length (dstr_text ds @ str) + 2)"
  obtains ds' where "cat_with fits str ds = Some ds'" "dstr_ok ds'" "dstr_text ds' = dstr_text ds @ str"
proof -
  have r: "fits (length str)" "fits (length str + 1)" "up_to fits (2 * (length str + 1 + length (dstr_text ds)))"
    by (rule up_to_fits(1) [OF room], simp)+ (rule up_to_fits(2) [OF room], simp)
  obtain d where d: "setup_append_buf fits (length str + 1) ds = Some d" "data d = To_append" "free_proc d = ARG_DSTR_STATIC"
    "append_data d = Some (dstr_text ds @ replicate (append_data_size d - length (dstr_text ds)) NUL)"
    "length (dstr_text ds) + (length str + 1) < append_data_size d" "append_used d = length (dstr_text ds)" "sbuf d = sbuf ds"
    by (rule setup_ok [OF ok r(3)])
  have "length (sbuf d) = ARG_DSTR_SIZE + 1" using ok d(7) by (simp add: dstr_ok_def)
  then obtain ds' where "append_chars str d = Some ds'" "dstr_ok ds'" "dstr_text ds' = dstr_text ds @ str"
    using append_chars_ok [of d "dstr_text ds" str] d nul cstr_total [OF ok] by auto
  then show thesis using that d(1) r by (simp add: cat_with_def)
qed

lemma cat_ok:
  assumes "dstr_ok ds" and "nul_free str"
  obtains ds' where "arg_dstr_cat str ds = Some ds'" "dstr_ok ds'" "dstr_text ds' = dstr_text ds @ str"
  using cat_with_ok [OF assms, of any_size] unfolding arg_dstr_cat_def by auto

lemma catc_is_cat: "arg_dstr_catc32 c ds = arg_dstr_cat32 [c] ds" "arg_dstr_catc c ds = arg_dstr_cat [c] ds"
proof -
  have "fits 1 \<Longrightarrow> fits 2 \<Longrightarrow> catc_with fits c ds = cat_with fits [c] ds" for fits
    by (simp add: catc_with_def cat_with_def numeral_2_eq_2)
  then show "arg_dstr_catc32 c ds = arg_dstr_cat32 [c] ds" "arg_dstr_catc c ds = arg_dstr_cat [c] ds"
    by (simp_all add: arg_dstr_catc32_def arg_dstr_cat32_def arg_dstr_catc_def arg_dstr_cat_def int_fits_def)
qed

lemma vsn_loop_text:
  assumes pos: "0 < n" and room: "up_to fits (n + 2)" "up_to fits (2 * length text + 2)"
  shows "vsn_loop fits n text = Some (takeWhile (\<lambda>c. c \<noteq> NUL) text)"
proof -
  have tf: "fits (length text)" by (rule up_to_fits(1) [OF room(2)]) simp
  have long: "vsn_loop fits m text = Some (takeWhile (\<lambda>c. c \<noteq> NUL) text)" if "length text < m" "fits (m + 2)" for m
  proof -
    have "vsn_text m text = takeWhile (\<lambda>c. c \<noteq> NUL) text" using that by (simp add: vsn_text_def)
    moreover have "length (takeWhile (\<lambda>c. c \<noteq> NUL) text) < m" using that length_takeWhile_le le_less_trans by blast
    ultimately show ?thesis using that tf by (subst vsn_loop.simps) simp
  qed
  have short: "vsn_text m text = takeWhile (\<lambda>c. c \<noteq> NUL) text" if "length (vsn_text m text) < m" "m \<le> length text" for m
  proof -
    have "\<exists>x \<in> set (take m text). x = NUL"
    proof (rule ccontr)
      assume "\<not> (\<exists>x \<in> set (take m text). x = NUL)"
      then have e: "takeWhile (\<lambda>c. c \<noteq> NUL) (take m text) = take m text" by (auto simp: takeWhile_eq_all_conv)
      have "length (vsn_text m text) = m" unfolding vsn_text_def e using that(2) by simp
      then show False using that(1) by simp
    qed
    then obtain x where "x \<in> set (take m text)" "\<not> x \<noteq> NUL" by blast
    then have "takeWhile (\<lambda>c. c \<noteq> NUL) (take m text @ drop m text) = takeWhile (\<lambda>c. c \<noteq> NUL) (take m text)"
      by (rule takeWhile_append1)
    then show ?thesis by (simp add: vsn_text_def)
  qed
  have twice: "vsn_loop fits m text = Some (takeWhile (\<lambda>c. c \<noteq> NUL) text)" if "m = length text" "0 < m" for m
  proof -
    have f: "fits (m + 2)" "fits (m + m)" "fits (m + m + 2)" by (rule up_to_fits(1) [OF room(2)]; simp add: that)+
    show ?thesis
    proof (cases "length (vsn_text m text) < m")
      case True
      then show ?thesis using short [of m] f tf that by (subst vsn_loop.simps) simp
    next
      case False
      then show ?thesis using long [of "m + m"] f tf that by (subst vsn_loop.simps) simp
    qed
  qed
  have n: "fits (n + 2)" by (rule up_to_fits(1) [OF room(1)]) simp
  consider "length text < n" | "n = length text" | "n < length text" "length (vsn_text n text) < n"
    | "n < length text" "\<not> length (vsn_text n text) < n" by linarith
  then show ?thesis
  proof cases
    case 3
    then show ?thesis using short [of n] n tf by (subst vsn_loop.simps) simp
  next
    case 4
    have "0 < length text" using 4(1) by (rule le_less_trans [OF le0])
    then show ?thesis using twice [of "length text"] n tf 4 by (subst vsn_loop.simps) simp
  qed (use long twice n pos in auto)
qed

lemma catf_with_is_cat:
  assumes "c_format fmt args = Some text" and "up_to fits (2 * length fmt + 2)" and "up_to fits (2 * length text + 2)" and "up_to fits 18"
  shows "catf_with fits fmt args ds = cat_with fits (takeWhile (\<lambda>c. c \<noteq> NUL) text) ds"
proof -
  have "up_to fits (max (2 * length fmt) START_VSNBUFF + 2)" using assms(2,4) by (simp add: START_VSNBUFF_def max_def)
  moreover have "fits (2 * length fmt)" by (rule up_to_fits(1) [OF assms(2)]) simp
  ultimately show ?thesis using assms(1) vsn_loop_text [OF _ _ assms(3), of "max (2 * length fmt) START_VSNBUFF"]
    by (simp add: catf_with_def START_VSNBUFF_def)
qed

lemma catf_is_cat:
  "c_format fmt args = Some text \<Longrightarrow> arg_dstr_catf fmt args ds = arg_dstr_cat (takeWhile (\<lambda>c. c \<noteq> NUL) text) ds"
  by (simp add: arg_dstr_catf_def arg_dstr_cat_def catf_with_is_cat)

section \<open>Setting and resetting\<close>

lemma drop_append_ok:
  assumes "append_data ds = None \<longrightarrow> append_data_size ds = 0" and "0 < append_data_size ds \<or> append_data ds = None"
  shows "append_data (drop_append ds) = None \<and> append_data_size (drop_append ds) = 0"
  using assms by (auto simp: drop_append_def)

lemma append_sizes: "dstr_ok ds \<Longrightarrow> (append_data ds = None \<longrightarrow> append_data_size ds = 0) \<and> (0 < append_data_size ds \<or> append_data ds = None)"
  by (cases "data ds") (auto simp: dstr_ok_def append_ok_def)

lemma drop_append_simps [simp]:
  "data (drop_append ds) = data ds" "free_proc (drop_append ds) = free_proc ds" "sbuf (drop_append ds) = sbuf ds"
  "block (drop_append ds) = block ds"
  by (simp_all add: drop_append_def)

lemma static_ok:
  assumes "dstr_ok ds" and "length s < length buf" and "length buf = ARG_DSTR_SIZE + 1" and "nul_free s"
  shows "\<exists>b. strcpy buf s = Some b \<and> dstr_ok (drop_append (ds\<lparr>sbuf := b, data := To_sbuf, free_proc := ARG_DSTR_STATIC, block := x\<rparr>)) \<and>
    dstr_text (drop_append (ds\<lparr>sbuf := b, data := To_sbuf, free_proc := ARG_DSTR_STATIC, block := x\<rparr>)) = s"
proof -
  let ?b = "s @ NUL # drop (length s + 1) buf"
  let ?ds = "ds\<lparr>sbuf := ?b, data := To_sbuf, free_proc := ARG_DSTR_STATIC, block := x\<rparr>"
  have b: "strcpy buf s = Some ?b" using assms(2) by (simp add: strcpy_def wr_def splice_def)
  have "append_data (drop_append ?ds) = None \<and> append_data_size (drop_append ?ds) = 0"
    by (rule drop_append_ok) (use append_sizes [OF assms(1)] in simp_all)
  then have "dstr_ok (drop_append ?ds)" using assms(2,3) by (simp add: dstr_ok_def)
  moreover have "dstr_text (drop_append ?ds) = s"
    using assms(4) by (simp add: dstr_text_def arg_dstr_cstr_def data_array_def cstr_append)
  ultimately show ?thesis using b by blast
qed

lemma block_ok:
  assumes "dstr_ok ds" and "nul_free s"
  shows "dstr_ok (drop_append (ds\<lparr>data := To_block, free_proc := fp, block := Some (s @ [NUL])\<rparr>))"
    "dstr_text (drop_append (ds\<lparr>data := To_block, free_proc := fp, block := Some (s @ [NUL])\<rparr>)) = s"
proof -
  let ?ds = "ds\<lparr>data := To_block, free_proc := fp, block := Some (s @ [NUL])\<rparr>"
  have "append_data (drop_append ?ds) = None \<and> append_data_size (drop_append ?ds) = 0"
    by (rule drop_append_ok) (use append_sizes [OF assms(1)] in simp_all)
  then show "dstr_ok (drop_append ?ds)" using assms(1) by (simp add: dstr_ok_def)
  show "dstr_text (drop_append ?ds) = s"
    using cstr_append [OF assms(2), of "[]"] by (simp add: dstr_text_def arg_dstr_cstr_def data_array_def)
qed

lemma set_ok:
  assumes ok: "dstr_ok ds" and nul: "\<And>s. str = Some s \<Longrightarrow> nul_free s" and room: "\<And>s. str = Some s \<Longrightarrow> fits (length s)"
  obtains ds' where "set_with fits str fp ds = Some ds'" "dstr_ok ds'" "dstr_text ds' = (case str of None \<Rightarrow> [] | Some s \<Rightarrow> s)"
proof -
  have len: "length (sbuf ds) = ARG_DSTR_SIZE + 1" using ok by (simp add: dstr_ok_def)
  consider (null) "str = None" | (small) s where "str = Some s" "fp = ARG_DSTR_VOLATILE" "length s \<le> ARG_DSTR_SIZE"
    | (large) s where "str = Some s" "fp = ARG_DSTR_VOLATILE" "ARG_DSTR_SIZE < length s"
    | (given) s where "str = Some s" "fp \<noteq> ARG_DSTR_VOLATILE"
    by (cases str; cases "fp = ARG_DSTR_VOLATILE"; cases "ARG_DSTR_SIZE < length (the str)") auto
  then show thesis
  proof cases
    case null
    have "length [] < length (sbuf ds)" "nul_free []" using len by (simp_all add: nul_free_def)
    from static_ok [OF ok this(1) len this(2), of None]
    show thesis using that null by (auto simp: set_with_def strcpy_def)
  next
    case small
    have "length s < length (sbuf ds)" using small len by simp
    from static_ok [OF ok this len nul [OF small(1)], of None]
    show thesis using that small room by (auto simp: set_with_def)
  next
    case large
    have "strcpy (replicate (length s + 1) NUL) s = Some (s @ [NUL])" using strcpy_zeros [of s "length s + 1"] by simp
    then show thesis using that block_ok [OF ok nul [OF large(1)], of ARG_DSTR_DYNAMIC] large room
      by (simp add: set_with_def)
  next
    case given
    then show thesis using that block_ok [OF ok nul [OF given(1)], of fp] by (simp add: set_with_def)
  qed
qed

lemma dstr_reset_ok:
  assumes ok: "dstr_ok ds"
  obtains ds' where "arg_dstr_reset ds = Some ds'" "dstr_ok ds'" "dstr_text ds' = []"
proof -
  have len: "length (sbuf ds) = ARG_DSTR_SIZE + 1" using ok by (simp add: dstr_ok_def)
  define d where "d = (if free_proc ds = ARG_DSTR_STATIC then ds else ds\<lparr>block := None, free_proc := ARG_DSTR_STATIC\<rparr>)"
  have d: "arg_dstr_free ds = Some d" "free_proc d = ARG_DSTR_STATIC" "sbuf d = sbuf ds"
    using ok by (cases "data ds"; auto simp: dstr_ok_def arg_dstr_free_def d_def)+
  have "(append_data d = None \<longrightarrow> append_data_size d = 0) \<and> (0 < append_data_size d \<or> append_data d = None)"
    using append_sizes [OF ok] by (simp add: d_def)
  then have a: "append_data (drop_append d) = None \<and> append_data_size (drop_append d) = 0"
    by (intro drop_append_ok) simp_all
  let ?ds = "(drop_append d)\<lparr>data := To_sbuf, sbuf := NUL # tl (sbuf ds)\<rparr>"
  have "wr (sbuf ds) 0 [NUL] = Some (NUL # tl (sbuf ds))" using len by (simp add: wr_def splice_def drop_Suc)
  then have "arg_dstr_reset ds = Some ?ds" using d by (simp add: arg_dstr_reset_def)
  moreover have "dstr_ok ?ds" using a d len by (simp add: dstr_ok_def)
  moreover have "dstr_text ?ds = []" by (simp add: dstr_text_def arg_dstr_cstr_def data_array_def cstr_def)
  ultimately show thesis by (intro that)
qed

section \<open>The interface of a text sink\<close>

text \<open>What the printing functions rely on: a string appended is at the end of the text.\<close>

locale text_sink =
  fixes inv :: "'d \<Rightarrow> bool" and content :: "'d \<Rightarrow> string" and put :: "string \<Rightarrow> 'd \<Rightarrow> 'd option"
  assumes put_law: "inv d \<Longrightarrow> nul_free s \<Longrightarrow> \<exists>d'. put s d = Some d' \<and> inv d' \<and> content d' = content d @ s"
begin

definition writes :: "('d \<Rightarrow> 'd option) \<Rightarrow> string \<Rightarrow> bool" where
  "writes f t \<longleftrightarrow> (\<forall>d. inv d \<longrightarrow> (\<exists>d'. f d = Some d' \<and> inv d' \<and> content d' = content d @ t))"

lemma writes_put: "nul_free s \<Longrightarrow> writes (put s) s"
  by (simp add: writes_def put_law)

lemma writes_none: "writes Some []"
  by (simp add: writes_def)

lemma writes_seq: "writes f s \<Longrightarrow> writes g t \<Longrightarrow> writes (\<lambda>d. Option.bind (f d) g) (s @ t)"
  by (fastforce simp: writes_def)

lemma writes_if: "(b \<Longrightarrow> writes f s) \<Longrightarrow> (\<not> b \<Longrightarrow> writes g t) \<Longrightarrow> writes (\<lambda>d. if b then f d else g d) (if b then s else t)"
  by simp

lemma writes_cong: "writes f s \<Longrightarrow> s = t \<Longrightarrow> f = g \<Longrightarrow> writes g t"
  by simp

primrec each :: "('a \<Rightarrow> 'd \<Rightarrow> 'd option) \<Rightarrow> 'a list \<Rightarrow> 'd \<Rightarrow> 'd option" where
  "each f [] d = Some d"
| "each f (x # xs) d = Option.bind (f x d) (each f xs)"

lemma writes_each: "(\<And>x. x \<in> set xs \<Longrightarrow> writes (f x) (t x)) \<Longrightarrow> writes (each f xs) (concat (map t xs))"
proof (induction xs)
  case Nil
  then show ?case by (simp add: writes_def)
next
  case (Cons x xs)
  have "writes (\<lambda>d. Option.bind (f x d) (each f xs)) (t x @ concat (map t xs))"
    by (rule writes_seq) (use Cons in simp_all)
  then show ?case by (simp add: writes_def)
qed

end

interpretation dstr: text_sink dstr_ok dstr_text arg_dstr_cat
  by unfold_locales (metis cat_ok)

section \<open>The refinement\<close>

datatype dstr_op = Cat string | Catc char | Catf string "format_arg list" | Set "string option" free_proc | Reset

primrec dstr_do :: "dstr_op \<Rightarrow> dstr \<Rightarrow> dstr option" where
  "dstr_do (Cat s) ds = arg_dstr_cat32 s ds"
| "dstr_do (Catc c) ds = arg_dstr_catc32 c ds"
| "dstr_do (Catf fmt args) ds = arg_dstr_catf32 fmt args ds"
| "dstr_do (Set str fp) ds = arg_dstr_set32 str fp ds"
| "dstr_do Reset ds = arg_dstr_reset ds"

primrec dstr_spec :: "dstr_op \<Rightarrow> string \<Rightarrow> string" where
  "dstr_spec (Cat s) t = t @ s"
| "dstr_spec (Catc c) t = t @ [c]"
| "dstr_spec (Catf fmt args) t = t @ takeWhile (\<lambda>c. c \<noteq> NUL) (the (c_format fmt args))"
| "dstr_spec (Set str fp) t = (case str of None \<Rightarrow> [] | Some s \<Rightarrow> s)"
| "dstr_spec Reset t = []"

text \<open>The arguments are C strings and formats fit their arguments.\<close>

primrec op_ok :: "dstr_op \<Rightarrow> bool" where
  "op_ok (Cat s) = nul_free s"
| "op_ok (Catc c) = (c \<noteq> NUL)"
| "op_ok (Catf fmt args) = (c_format fmt args \<noteq> None)"
| "op_ok (Set str fp) = (case str of None \<Rightarrow> True | Some s \<Rightarrow> nul_free s)"
| "op_ok Reset = True"

text \<open>The texts have at most \<open>2 ^ 30 - 2\<close> characters: the buffer for one more character and the terminator, doubled,
  is still an \<open>int\<close>.\<close>

definition TEXT_MAX :: nat where
  "TEXT_MAX = 2 ^ 30 - 2"

definition op_sized :: "dstr_op \<Rightarrow> string \<Rightarrow> bool" where
  "op_sized x t \<longleftrightarrow> length (dstr_spec x t) \<le> TEXT_MAX \<and>
     (case x of Catf fmt args \<Rightarrow> length fmt \<le> TEXT_MAX \<and> length (the (c_format fmt args)) \<le> TEXT_MAX | _ \<Rightarrow> True)"

primrec ops_sized :: "dstr_op list \<Rightarrow> string \<Rightarrow> bool" where
  "ops_sized [] t = True"
| "ops_sized (x # xs) t = (op_sized x t \<and> ops_sized xs (dstr_spec x t))"

lemma takeWhile_nul_free: "nul_free (takeWhile (\<lambda>c. c \<noteq> NUL) s)"
  by (auto simp: nul_free_def dest: set_takeWhileD)

lemma cat32_ok:
  assumes "dstr_ok ds" and "nul_free s" and "length (dstr_text ds @ s) \<le> TEXT_MAX"
  shows "\<exists>ds'. arg_dstr_cat32 s ds = Some ds' \<and> dstr_ok ds' \<and> dstr_text ds' = dstr_text ds @ s"
proof -
  have "up_to int_fits (2 * length (dstr_text ds @ s) + 2)" using assms(3) by (simp add: TEXT_MAX_def)
  then show ?thesis using cat_with_ok [OF assms(1,2)] unfolding arg_dstr_cat32_def by metis
qed

lemma dstr_step:
  assumes "dstr_ok ds" and "op_ok x" and "op_sized x (dstr_text ds)"
  shows "\<exists>ds'. dstr_do x ds = Some ds' \<and> dstr_ok ds' \<and> dstr_text ds' = dstr_spec x (dstr_text ds)"
proof (cases x)
  case (Cat s)
  then show ?thesis using assms cat32_ok [OF assms(1), of s] by (simp add: op_sized_def)
next
  case (Catc c)
  then have "nul_free [c]" using assms(2) by (simp add: nul_free_def)
  then show ?thesis using Catc cat32_ok [OF assms(1), of "[c]"] assms(3) by (simp add: catc_is_cat op_sized_def)
next
  case (Catf fmt args)
  then obtain t where t: "c_format fmt args = Some t" using assms(2) by auto
  have "arg_dstr_catf32 fmt args ds = arg_dstr_cat32 (takeWhile (\<lambda>c. c \<noteq> NUL) t) ds"
    unfolding arg_dstr_catf32_def arg_dstr_cat32_def
    by (rule catf_with_is_cat [OF t]) (use assms(3) Catf t in \<open>simp_all add: op_sized_def TEXT_MAX_def\<close>)
  then show ?thesis
    using Catf t cat32_ok [OF assms(1) takeWhile_nul_free, of t] assms(3) by (simp add: op_sized_def)
next
  case (Set str fp)
  have room: "int_fits (length s)" if "str = Some s" for s
    using assms(3) Set that by (simp add: op_sized_def TEXT_MAX_def int_fits_def)
  have nul: "nul_free s" if "str = Some s" for s using assms(2) Set that by simp
  obtain ds' where "set_with int_fits str fp ds = Some ds'" "dstr_ok ds'" "dstr_text ds' = (case str of None \<Rightarrow> [] | Some s \<Rightarrow> s)"
    by (rule set_ok [of ds str int_fits fp]) (use assms(1) nul room in blast)+
  then show ?thesis using Set by (simp add: arg_dstr_set32_def)
next
  case Reset
  then show ?thesis using dstr_reset_ok [OF assms(1)] by auto
qed

primrec dstr_run :: "dstr_op list \<Rightarrow> dstr \<Rightarrow> dstr option" where
  "dstr_run [] ds = Some ds"
| "dstr_run (x # xs) ds = Option.bind (dstr_do x ds) (dstr_run xs)"

lemma dstr_run_ok:
  assumes "dstr_ok ds" and "\<forall>x \<in> set xs. op_ok x" and "ops_sized xs (dstr_text ds)"
  shows "\<exists>ds'. dstr_run xs ds = Some ds' \<and> dstr_ok ds' \<and> dstr_text ds' = fold dstr_spec xs (dstr_text ds)"
  using assms
proof (induction xs arbitrary: ds)
  case (Cons x xs)
  then obtain d where "dstr_do x ds = Some d" "dstr_ok d" "dstr_text d = dstr_spec x (dstr_text ds)"
    using dstr_step [of ds x] by auto
  then show ?case using Cons.IH [of d] Cons.prems(2,3) by auto
qed simp

text \<open>Where the code does not overflow, the operations that the other theories use do the same.\<close>

lemma fit_any: "fit fits n = Some m \<Longrightarrow> fit any_size n = Some m"
  by (simp add: fit_def split: if_splits)

lemma measure_any: "measure_data fits ds = Some d \<Longrightarrow> measure_data any_size ds = Some d"
  by (auto simp: measure_data_def Let_def bind_eq_Some_conv dest!: fit_SomeD split: if_splits)

lemma grow_any: "grow_append fits n ds = Some d \<Longrightarrow> grow_append any_size n ds = Some d"
  by (auto simp: grow_append_def bind_eq_Some_conv dest!: fit_SomeD split: if_splits)

lemma setup_any: "setup_append_buf fits n ds = Some d \<Longrightarrow> setup_append_buf any_size n ds = Some d"
proof -
  assume "setup_append_buf fits n ds = Some d"
  then obtain ds1 total ds2 ds3 where d: "measure_data fits ds = Some ds1" "fit fits (n + append_used ds1) = Some total"
    "(if append_data_size ds1 \<le> total then grow_append fits total ds1
       else if data ds1 \<noteq> To_append then do {
         s \<leftarrow> arg_dstr_cstr ds1;
         buf \<leftarrow> append_data ds1;
         buf \<leftarrow> strcpy buf s;
         Some (ds1\<lparr>append_data := Some buf\<rparr>)}
       else Some ds1) = Some ds2"
    "arg_dstr_free ds2 = Some ds3" "d = ds3\<lparr>data := To_append\<rparr>"
    unfolding setup_append_buf_def by (clarsimp simp: bind_eq_Some_conv)
  have "(if append_data_size ds1 \<le> total then grow_append any_size total ds1
       else if data ds1 \<noteq> To_append then do {
         s \<leftarrow> arg_dstr_cstr ds1;
         buf \<leftarrow> append_data ds1;
         buf \<leftarrow> strcpy buf s;
         Some (ds1\<lparr>append_data := Some buf\<rparr>)}
       else Some ds1) = Some ds2" using d(3) by (cases "append_data_size ds1 \<le> total") (simp_all add: grow_any)
  then show ?thesis using measure_any [OF d(1)] fit_any [OF d(2)] d(4,5) by (simp only: setup_append_buf_def Option.bind_lunit)
qed

lemma cat32_any: "arg_dstr_cat32 s ds = Some d \<Longrightarrow> arg_dstr_cat s ds = Some d"
  unfolding arg_dstr_cat32_def arg_dstr_cat_def cat_with_def
  using setup_any [of int_fits "length s + 1" ds] by (auto simp: bind_eq_Some_conv dest!: fit_SomeD)

text \<open>C11: A growing string is a string: from a new one, any sequence of appending strings, characters and formatted
text, setting (with any of the memory policies) and resetting, in which the formats, the formatted texts and the texts
held have at most 2 ^ 30 - 2 characters each, stays inside its arrays, frees only what is on the heap, overflows
none of the int sizes that the code computes, and leaves exactly the text that the operations describe, also when
the buffer has to grow or the formatted text has to be produced again in a larger one.\<close>

theorem dstr_refines_text:
  assumes "\<forall>x \<in> set ops. op_ok x" and "ops_sized ops []"
  shows "\<exists>ds. dstr_run ops arg_dstr_create = Some ds \<and> arg_dstr_cstr ds = Some (fold dstr_spec ops [])"
proof -
  have "ops_sized ops (dstr_text arg_dstr_create)" using assms(2) by (simp add: dstr_created)
  from dstr_run_ok [OF dstr_created(1) assms(1) this]
  obtain ds where d: "dstr_run ops arg_dstr_create = Some ds" "dstr_ok ds" "dstr_text ds = fold dstr_spec ops []"
    by (auto simp: dstr_created)
  then show ?thesis using cstr_total [OF d(2)] by auto
qed

theorem dstr_refines_text_witness:
  "\<exists>ds. dstr_run [Cat ''ab'', Catf ''%-3s|'' [F_str ''c''], Set (Some ''x'') ARG_DSTR_VOLATILE, Catc CHR ''y''] arg_dstr_create = Some ds \<and>
    arg_dstr_cstr ds = Some ''xy''"
proof -
  have f: "c_format ''%-3s|'' [F_str ''c''] = Some ''c  |''"
    by (simp add: convert_arg_def base_digit_def digit_val_def pad_field_def numeral_2_eq_2)
  show ?thesis
    using dstr_refines_text [of "[Cat ''ab'', Catf ''%-3s|'' [F_str ''c''], Set (Some ''x'') ARG_DSTR_VOLATILE, Catc CHR ''y'']"]
    by (simp add: nul_free_def op_sized_def TEXT_MAX_def f del: c_format.simps)
qed

text \<open>The bound is tight: one character more and \<open>total_space *= 2\<close> overflows.\<close>

lemma doubling_overflows:
  assumes "length s = TEXT_MAX + 1" and "nul_free s"
  shows "arg_dstr_cat32 s arg_dstr_create = None"
proof -
  have "fit int_fits (length s + 1) = Some (length s + 1)" using assms(1) by (simp add: int_fits_def TEXT_MAX_def)
  moreover have "measure_data int_fits arg_dstr_create = Some arg_dstr_create"
    using measure_ok [OF dstr_created(1), of int_fits] unfolding dstr_created(2) by (simp add: int_fits_def) (simp add: arg_dstr_create_def)
  moreover have "grow_append int_fits (length s + 1) arg_dstr_create = None"
    using assms(1) cstr_total [OF dstr_created(1)] by (simp add: grow_append_def fit_def int_fits_def TEXT_MAX_def)
  ultimately show ?thesis
    using assms(1) by (simp add: arg_dstr_cat32_def cat_with_def setup_append_buf_def int_fits_def TEXT_MAX_def arg_dstr_create_def)
qed

end
