(* ===== verification/Arg_Types.thy ===== *)
theory Arg_Types
  imports Cstring
begin

text \<open>
  The argument types of \<open>lib/argtable/argtable3.c\<close> that \<open>main\<close> uses: literals, integers, strings and
  the end marker with its error table.  A struct is a record, its value array a list with one entry
  per element (\<open>None\<close> for an uninitialised \<open>int\<close>), and the function pointers of the header are the
  operations of the type.  Counts are naturals; the constructors are only called with such bounds.
  An operation is \<open>None\<close> where the C code would write outside an array or overflow a \<open>long\<close>.
\<close>

unbundle bit_operations_syntax

named_theorems arg_simps \<open>the operations of the argument types\<close>

section \<open>Headers\<close>

record arg_hdr =
  hdr_flag :: byte
  hdr_shortopts :: "string option"
  hdr_longopts :: "string option"
  hdr_datatype :: "string option"
  hdr_glossary :: "string option"
  hdr_mincount :: nat
  hdr_maxcount :: nat

definition ARG_TERMINATOR :: byte where "ARG_TERMINATOR = 1"
definition ARG_HASVALUE :: byte where "ARG_HASVALUE = 2"
definition ARG_HASOPTVALUE :: byte where "ARG_HASOPTVALUE = 4"

definition has_flag :: "arg_hdr \<Rightarrow> byte \<Rightarrow> bool" where
  "has_flag h f \<longleftrightarrow> hdr_flag h AND f \<noteq> 0"

definition ARG_ERR_MINCOUNT :: int where "ARG_ERR_MINCOUNT = 1"
definition ARG_ERR_MAXCOUNT :: int where "ARG_ERR_MAXCOUNT = 2"
definition ARG_ERR_BADINT :: int where "ARG_ERR_BADINT = 3"
definition ARG_ERR_OVERFLOW :: int where "ARG_ERR_OVERFLOW = 4"

definition ARG_ELIMIT :: int where "ARG_ELIMIT = 1"
definition ARG_ENOMATCH :: int where "ARG_ENOMATCH = 3"
definition ARG_ELONGOPT :: int where "ARG_ELONGOPT = 4"
definition ARG_EMISSARG :: int where "ARG_EMISSARG = 5"

lemmas arg_codes [arg_simps] = ARG_ERR_MINCOUNT_def ARG_ERR_MAXCOUNT_def ARG_ERR_BADINT_def ARG_ERR_OVERFLOW_def
  ARG_ELIMIT_def ARG_ENOMATCH_def ARG_ELONGOPT_def ARG_EMISSARG_def

text \<open>The bounds that every constructor stores and the check that every type makes.\<close>

definition foolproof :: "nat \<Rightarrow> nat \<Rightarrow> nat" where
  "foolproof mincount maxcount = (if maxcount < mincount then mincount else maxcount)"

definition checkfn :: "arg_hdr \<Rightarrow> nat \<Rightarrow> int" where
  "checkfn h n = (if n < hdr_mincount h then ARG_ERR_MINCOUNT else 0)"

section \<open>Literals\<close>

record arg_lit =
  lit_hdr :: arg_hdr
  lit_count :: nat

definition arg_lit_resetfn :: "arg_lit \<Rightarrow> arg_lit" where
  "arg_lit_resetfn a = a\<lparr>lit_count := 0\<rparr>"

definition arg_lit_scanfn :: "arg_lit \<Rightarrow> string option \<Rightarrow> (int \<times> arg_lit) option" where
  "arg_lit_scanfn a argval =
     (if lit_count a < hdr_maxcount (lit_hdr a) then Some (0, a\<lparr>lit_count := lit_count a + 1\<rparr>)
      else Some (ARG_ERR_MAXCOUNT, a))"

definition arg_lit_checkfn :: "arg_lit \<Rightarrow> int" where
  "arg_lit_checkfn a = checkfn (lit_hdr a) (lit_count a)"

definition arg_litn :: "string option \<Rightarrow> string option \<Rightarrow> nat \<Rightarrow> nat \<Rightarrow> string option \<Rightarrow> arg_lit" where
  "arg_litn shortopts longopts mincount maxcount glossary =
     \<lparr>lit_hdr = \<lparr>hdr_flag = 0, hdr_shortopts = shortopts, hdr_longopts = longopts, hdr_datatype = None,
        hdr_glossary = glossary, hdr_mincount = mincount, hdr_maxcount = foolproof mincount maxcount\<rparr>,
      lit_count = 0\<rparr>"

definition arg_lit0 :: "string option \<Rightarrow> string option \<Rightarrow> string option \<Rightarrow> arg_lit" where
  "arg_lit0 shortopts longopts glossary = arg_litn shortopts longopts 0 1 glossary"

definition arg_lit1 :: "string option \<Rightarrow> string option \<Rightarrow> string option \<Rightarrow> arg_lit" where
  "arg_lit1 shortopts longopts glossary = arg_litn shortopts longopts 1 1 glossary"

section \<open>Integers\<close>

record arg_int =
  int_hdr :: arg_hdr
  int_count :: nat
  int_ival :: "int option list"

definition arg_int_resetfn :: "arg_int \<Rightarrow> arg_int" where
  "arg_int_resetfn a = a\<lparr>int_count := 0\<rparr>"

definition to_upper :: "char \<Rightarrow> char" where
  "to_upper c = (let n = of_char c :: nat in if 97 \<le> n \<and> n \<le> 122 then char_of (n - 32) else c)"

text \<open>The value and the string at \<open>*endptr\<close>; both are suffixes of one string, so equal lists are
  equal pointers.  \<open>s * val\<close> overflows when \<open>s\<close> is -1 and \<open>val\<close> the least \<open>long\<close>.\<close>

definition strtol0X :: "string \<Rightarrow> char \<Rightarrow> nat \<Rightarrow> (int \<times> string) option" where
  "strtol0X str X base =
     (let (s, ptr) = scan_sign (dropWhile is_space str) in
      case ptr of
        z # x # rest \<Rightarrow>
          if z \<noteq> CHR ''0'' then Some (0, str)
          else if to_upper x \<noteq> to_upper X then Some (0, str)
          else (let (val, endptr) = strtol base rest in
            if endptr = rest then Some (0, str)
            else if s * val \<le> LONG_MAX then Some (s * val, endptr)
            else None)
      | _ \<Rightarrow> Some (0, str))"

fun detectsuffix :: "string \<Rightarrow> string \<Rightarrow> bool" where
  "detectsuffix (c # str) (d # sfx) = (if to_upper c = to_upper d then detectsuffix str sfx else False)"
| "detectsuffix [] (d # sfx) = False"
| "detectsuffix str [] = (dropWhile is_space str = [])"

text \<open>The four attempts of \<open>arg_int_scanfn\<close>: hexadecimal, octal, binary, decimal.\<close>

definition scan_number :: "string \<Rightarrow> (int \<times> string) option" where
  "scan_number argval = do {
     (val, endptr) \<leftarrow> strtol0X argval (CHR ''X'') 16;
     if endptr \<noteq> argval then Some (val, endptr) else do {
       (val, endptr) \<leftarrow> strtol0X argval (CHR ''O'') 8;
       if endptr \<noteq> argval then Some (val, endptr) else do {
         (val, endptr) \<leftarrow> strtol0X argval (CHR ''B'') 2;
         if endptr \<noteq> argval then Some (val, endptr) else Some (strtol 10 argval)}}}"

definition multiply :: "int \<Rightarrow> int \<Rightarrow> int \<Rightarrow> int \<times> int" where
  "multiply m err val = (if INT_MAX div m < val \<or> val < INT_MIN div m then (ARG_ERR_OVERFLOW, val) else (err, val * m))"

definition apply_suffix :: "int \<Rightarrow> string \<Rightarrow> int \<times> int" where
  "apply_suffix val endptr =
     (let err = (if INT_MAX < val \<or> val < INT_MIN then ARG_ERR_OVERFLOW else 0) in
      if detectsuffix endptr ''KB'' then multiply 1024 err val
      else if detectsuffix endptr ''MB'' then multiply 1048576 err val
      else if detectsuffix endptr ''GB'' then multiply 1073741824 err val
      else if \<not> detectsuffix endptr [] then (ARG_ERR_BADINT, val)
      else (err, val))"

definition arg_int_scanfn :: "arg_int \<Rightarrow> string option \<Rightarrow> (int \<times> arg_int) option" where
  "arg_int_scanfn a argval =
     (if int_count a = hdr_maxcount (int_hdr a) then Some (ARG_ERR_MAXCOUNT, a)
      else case argval of
        None \<Rightarrow> Some (0, a\<lparr>int_count := int_count a + 1\<rparr>)
      | Some argval \<Rightarrow> do {
          (val, endptr) \<leftarrow> scan_number argval;
          if endptr = argval then Some (ARG_ERR_BADINT, a)
          else (let (err, val) = apply_suffix val endptr in
            if err = 0 then do {
              ival \<leftarrow> wr (int_ival a) (int_count a) [Some (int_of_long val)];
              Some (0, a\<lparr>int_ival := ival, int_count := int_count a + 1\<rparr>)}
            else Some (err, a))})"

definition arg_int_checkfn :: "arg_int \<Rightarrow> int" where
  "arg_int_checkfn a = checkfn (int_hdr a) (int_count a)"

definition arg_intn :: "string option \<Rightarrow> string option \<Rightarrow> string option \<Rightarrow> nat \<Rightarrow> nat \<Rightarrow> string option \<Rightarrow> arg_int" where
  "arg_intn shortopts longopts datatype mincount maxcount glossary =
     \<lparr>int_hdr = \<lparr>hdr_flag = ARG_HASVALUE, hdr_shortopts = shortopts, hdr_longopts = longopts,
        hdr_datatype = Some (case datatype of Some d \<Rightarrow> d | None \<Rightarrow> ''<int>''),
        hdr_glossary = glossary, hdr_mincount = mincount, hdr_maxcount = foolproof mincount maxcount\<rparr>,
      int_count = 0, int_ival = replicate (foolproof mincount maxcount) None\<rparr>"

definition arg_int0 :: "string option \<Rightarrow> string option \<Rightarrow> string option \<Rightarrow> string option \<Rightarrow> arg_int" where
  "arg_int0 shortopts longopts datatype glossary = arg_intn shortopts longopts datatype 0 1 glossary"

definition arg_int1 :: "string option \<Rightarrow> string option \<Rightarrow> string option \<Rightarrow> string option \<Rightarrow> arg_int" where
  "arg_int1 shortopts longopts datatype glossary = arg_intn shortopts longopts datatype 1 1 glossary"

section \<open>Strings\<close>

record arg_str =
  str_hdr :: arg_hdr
  str_count :: nat
  str_sval :: "string list"

definition arg_str_resetfn :: "arg_str \<Rightarrow> arg_str" where
  "arg_str_resetfn a =
     a\<lparr>str_sval := replicate (str_count a) [] @ drop (str_count a) (str_sval a), str_count := 0\<rparr>"

definition arg_str_scanfn :: "arg_str \<Rightarrow> string option \<Rightarrow> (int \<times> arg_str) option" where
  "arg_str_scanfn a argval =
     (if str_count a = hdr_maxcount (str_hdr a) then Some (ARG_ERR_MAXCOUNT, a)
      else case argval of
        None \<Rightarrow> Some (0, a\<lparr>str_count := str_count a + 1\<rparr>)
      | Some argval \<Rightarrow> do {
          sval \<leftarrow> wr (str_sval a) (str_count a) [argval];
          Some (0, a\<lparr>str_sval := sval, str_count := str_count a + 1\<rparr>)})"

definition arg_str_checkfn :: "arg_str \<Rightarrow> int" where
  "arg_str_checkfn a = checkfn (str_hdr a) (str_count a)"

definition arg_strn :: "string option \<Rightarrow> string option \<Rightarrow> string option \<Rightarrow> nat \<Rightarrow> nat \<Rightarrow> string option \<Rightarrow> arg_str" where
  "arg_strn shortopts longopts datatype mincount maxcount glossary =
     \<lparr>str_hdr = \<lparr>hdr_flag = ARG_HASVALUE, hdr_shortopts = shortopts, hdr_longopts = longopts,
        hdr_datatype = Some (case datatype of Some d \<Rightarrow> d | None \<Rightarrow> ''<string>''),
        hdr_glossary = glossary, hdr_mincount = mincount, hdr_maxcount = foolproof mincount maxcount\<rparr>,
      str_count = 0, str_sval = replicate (foolproof mincount maxcount) []\<rparr>"

definition arg_str0 :: "string option \<Rightarrow> string option \<Rightarrow> string option \<Rightarrow> string option \<Rightarrow> arg_str" where
  "arg_str0 shortopts longopts datatype glossary = arg_strn shortopts longopts datatype 0 1 glossary"

definition arg_str1 :: "string option \<Rightarrow> string option \<Rightarrow> string option \<Rightarrow> string option \<Rightarrow> arg_str" where
  "arg_str1 shortopts longopts datatype glossary = arg_strn shortopts longopts datatype 1 1 glossary"

section \<open>The end marker\<close>

text \<open>One element of the parallel arrays \<open>error\<close>, \<open>parent\<close> and \<open>argval\<close>; the parent is the index of
  the offending entry in the table.\<close>

record arg_error =
  err_code :: int
  err_parent :: nat
  err_argval :: "string option"

record arg_end =
  end_hdr :: arg_hdr
  end_count :: nat
  end_error :: "arg_error option list"

definition arg_end_resetfn :: "arg_end \<Rightarrow> arg_end" where
  "arg_end_resetfn e = e\<lparr>end_count := 0\<rparr>"

definition arg_end :: "nat \<Rightarrow> arg_end" where
  "arg_end maxcount =
     \<lparr>end_hdr = \<lparr>hdr_flag = ARG_TERMINATOR, hdr_shortopts = None, hdr_longopts = None, hdr_datatype = None,
        hdr_glossary = None, hdr_mincount = 1, hdr_maxcount = maxcount\<rparr>,
      end_count = 0, end_error = replicate maxcount None\<rparr>"

text \<open>\<open>self\<close> is the index of the end marker itself.  With no room at all the last element is at
  index -1.\<close>

definition arg_register_error :: "nat \<Rightarrow> arg_end \<Rightarrow> nat \<Rightarrow> int \<Rightarrow> string option \<Rightarrow> arg_end option" where
  "arg_register_error self e parent err argval =
     (if end_count e < hdr_maxcount (end_hdr e) then do {
        errs \<leftarrow> wr (end_error e) (end_count e) [Some \<lparr>err_code = err, err_parent = parent, err_argval = argval\<rparr>];
        Some (e\<lparr>end_error := errs, end_count := end_count e + 1\<rparr>)}
      else if hdr_maxcount (end_hdr e) = 0 then None
      else do {
        errs \<leftarrow> wr (end_error e) (hdr_maxcount (end_hdr e) - 1)
          [Some \<lparr>err_code = ARG_ELIMIT, err_parent = self, err_argval = None\<rparr>];
        Some (e\<lparr>end_error := errs\<rparr>)})"

section \<open>The contract of an argument type\<close>

text \<open>What the parser relies on: the header never changes, a successful scan counts one more value and
  fails once the maximum is reached, resetting empties, and the invariant is kept.\<close>

locale arg_type =
  fixes hdr :: "'a \<Rightarrow> arg_hdr" and cnt :: "'a \<Rightarrow> nat" and wf :: "'a \<Rightarrow> bool"
    and reset :: "'a \<Rightarrow> 'a" and scan :: "'a \<Rightarrow> string option \<Rightarrow> (int \<times> 'a) option" and check :: "'a \<Rightarrow> int"
  assumes bounded: "wf a \<Longrightarrow> cnt a \<le> hdr_maxcount (hdr a)"
    and reset_law: "wf a \<Longrightarrow> wf (reset a) \<and> hdr (reset a) = hdr a \<and> cnt (reset a) = 0"
    and scan_law: "wf a \<Longrightarrow> scan a (Some v) = Some (e, a') \<Longrightarrow>
      wf a' \<and> hdr a' = hdr a \<and> (if e = 0 then cnt a' = Suc (cnt a) else a' = a)"
    and scan_full: "cnt a = hdr_maxcount (hdr a) \<Longrightarrow> scan a w = Some (ARG_ERR_MAXCOUNT, a)"
    and check_law: "check a = (if cnt a < hdr_mincount (hdr a) then ARG_ERR_MINCOUNT else 0)"
begin

primrec scan_all :: "'a \<Rightarrow> string list \<Rightarrow> (int list \<times> 'a) option" where
  "scan_all a [] = Some ([], a)"
| "scan_all a (v # vs) = do { (e, a) \<leftarrow> scan a (Some v); (es, a) \<leftarrow> scan_all a vs; Some (e # es, a) }"

lemma scan_all_counts:
  assumes "wf a" and "scan_all a vs = Some (es, a')"
  shows "wf a' \<and> hdr a' = hdr a \<and> length es = length vs \<and> cnt a' = cnt a + length (filter (\<lambda>e. e = 0) es)"
  using assms
proof (induction vs arbitrary: a es)
  case (Cons v vs)
  from Cons.prems(2) obtain e b es' where s: "scan a (Some v) = Some (e, b)" "scan_all b vs = Some (es', a')" "es = e # es'"
    by (auto simp: bind_eq_Some_conv)
  have "wf b \<and> hdr b = hdr a \<and> (if e = 0 then cnt b = Suc (cnt a) else b = a)"
    using scan_law [OF Cons.prems(1) s(1)] .
  with Cons.IH [of b, OF _ s(2)] s(3) show ?case by (auto split: if_splits)
qed simp

text \<open>Scanning never accepts more values than the maximum, and the check passes exactly when the
  minimum was reached.\<close>

lemma scan_all_within:
  assumes "wf a" and "scan_all (reset a) vs = Some (es, a')"
  shows "length (filter (\<lambda>e. e = 0) es) \<le> hdr_maxcount (hdr a)"
    and "check a' = 0 \<longleftrightarrow> hdr_mincount (hdr a) \<le> length (filter (\<lambda>e. e = 0) es)"
  using scan_all_counts [OF _ assms(2)] reset_law [OF assms(1)] bounded [of a'] check_law [of a']
  by (auto simp: ARG_ERR_MINCOUNT_def split: if_splits)

end

definition wf_lit :: "arg_lit \<Rightarrow> bool" where
  "wf_lit a \<longleftrightarrow> lit_count a \<le> hdr_maxcount (lit_hdr a)"

text \<open>The values counted are initialised.\<close>

definition wf_int :: "arg_int \<Rightarrow> bool" where
  "wf_int a \<longleftrightarrow> int_count a \<le> hdr_maxcount (int_hdr a) \<and> length (int_ival a) = hdr_maxcount (int_hdr a) \<and>
     None \<notin> set (take (int_count a) (int_ival a))"

definition wf_str :: "arg_str \<Rightarrow> bool" where
  "wf_str a \<longleftrightarrow> str_count a \<le> hdr_maxcount (str_hdr a) \<and> length (str_sval a) = hdr_maxcount (str_hdr a)"

definition wf_end :: "nat \<Rightarrow> arg_end \<Rightarrow> bool" where
  "wf_end n e \<longleftrightarrow> 0 < hdr_maxcount (end_hdr e) \<and> end_count e \<le> hdr_maxcount (end_hdr e) \<and>
     length (end_error e) = hdr_maxcount (end_hdr e) \<and>
     (\<forall>x \<in> set (take (end_count e) (end_error e)). x \<noteq> None \<and> err_parent (the x) \<le> n)"

lemma wr_one: "i < length xs \<Longrightarrow> wr xs i [x] = Some (xs[i := x])"
  by (simp add: wr_def splice_def upd_conv_take_nth_drop)

lemma take_Suc_update: "i < length xs \<Longrightarrow> take (Suc i) (xs[i := x]) = take i xs @ [x]"
  by (simp add: take_Suc_conv_app_nth)

interpretation lit: arg_type lit_hdr lit_count wf_lit arg_lit_resetfn arg_lit_scanfn arg_lit_checkfn
  by unfold_locales
    (auto simp: wf_lit_def arg_lit_resetfn_def arg_lit_scanfn_def arg_lit_checkfn_def checkfn_def arg_codes split: if_splits)

lemma int_scan_cases:
  assumes "arg_int_scanfn a (Some v) = Some (e, a')" and "wf_int a"
  obtains (failed) "e \<noteq> 0" "a' = a"
    | (stored) x where "e = 0" "int_count a < hdr_maxcount (int_hdr a)"
        "a' = a\<lparr>int_ival := (int_ival a)[int_count a := Some x], int_count := Suc (int_count a)\<rparr>"
  using assms
  by (auto simp: arg_int_scanfn_def wf_int_def wr_one bind_eq_Some_conv Let_def arg_codes split: if_splits prod.splits)

interpretation int: arg_type int_hdr int_count wf_int arg_int_resetfn arg_int_scanfn arg_int_checkfn
proof (unfold_locales, goal_cases)
  case (3 a v e a')
  from 3(2,1) show ?case
    by (cases rule: int_scan_cases) (use 3(1) in \<open>auto simp: wf_int_def take_Suc_update\<close>)
qed (auto simp: wf_int_def arg_int_resetfn_def arg_int_scanfn_def arg_int_checkfn_def checkfn_def)

interpretation str: arg_type str_hdr str_count wf_str arg_str_resetfn arg_str_scanfn arg_str_checkfn
  by unfold_locales
    (auto simp: wf_str_def arg_str_resetfn_def arg_str_scanfn_def arg_str_checkfn_def checkfn_def wr_one arg_codes
      bind_eq_Some_conv split: if_splits)

lemma constructors_wf:
  "wf_lit (arg_litn s l lo hi g)" "wf_int (arg_intn s l d lo hi g)" "wf_str (arg_strn s l d lo hi g)"
  "0 < m \<Longrightarrow> wf_end n (arg_end m)"
  by (simp_all add: wf_lit_def arg_litn_def wf_int_def arg_intn_def wf_str_def arg_strn_def wf_end_def arg_end_def)

lemma register_total:
  assumes "wf_end n e" and "p \<le> n"
  shows "\<exists>e'. arg_register_error n e p err v = Some e' \<and> wf_end n e' \<and> end_hdr e' = end_hdr e \<and>
    end_count e' = min (hdr_maxcount (end_hdr e)) (Suc (end_count e))"
proof (cases "end_count e < hdr_maxcount (end_hdr e)")
  case True
  then show ?thesis
    using assms by (auto simp: arg_register_error_def wf_end_def wr_one take_Suc_update)
next
  case False
  then show ?thesis
    using assms by (auto simp: arg_register_error_def wf_end_def wr_one min_def take_update_cancel
      set_update_subset_insert [THEN subsetD] dest!: set_update_subset_insert [THEN subsetD])
qed

lemma register_counts: "arg_register_error n e p err v = Some e' \<Longrightarrow> wf_end n e \<Longrightarrow> 0 < end_count e'"
  by (auto simp: arg_register_error_def wf_end_def bind_eq_Some_conv split: if_splits)

section \<open>The values of integer options\<close>

lemma show_nat_head_pos:
  assumes "0 < n"
  shows "\<exists>d cs. show_nat n = digit_char d # cs \<and> 0 < d \<and> d < 10"
  using assms
proof (induction n rule: show_nat.induct)
  case (1 n)
  show ?case
  proof (cases "n < 10")
    case True
    then show ?thesis using 1(2) by (auto simp: show_nat.simps [of n])
  next
    case False
    then have "0 < n div 10" by simp
    from 1(1) [OF False this] obtain d cs where "show_nat (n div 10) = digit_char d # cs" "0 < d" "d < 10" by blast
    then show ?thesis using False by (simp add: show_nat.simps [of n]) blast
  qed
qed

lemma digit_char_eq_0: "d < 10 \<Longrightarrow> digit_char d = CHR ''0'' \<longleftrightarrow> d = 0"
  using of_char_digit_char [of d] by auto

lemma sign_show_int:
  "scan_sign (dropWhile is_space (show_int i @ ys)) = (if i < 0 then -1 else 1, show_nat (nat \<bar>i\<bar>) @ ys)"
proof -
  obtain d cs where h: "show_nat (nat i) = digit_char d # cs" "d < 10" by (rule show_nat_head)
  have "\<not> is_space (CHR ''-'')" by code_simp
  then show ?thesis
    using h digit_char_not [OF h(2)] by (auto simp: show_int_def scan_sign_def digit_char_not_space)
qed

lemma strtol0X_show_int:
  assumes "ys = [] \<or> to_upper (hd ys) \<noteq> to_upper X"
  shows "strtol0X (show_int i @ ys) X b = Some (0, show_int i @ ys)"
proof (cases "i = 0")
  case True
  then show ?thesis
    using assms sign_show_int [of i ys] by (cases ys) (simp_all add: strtol0X_def show_nat.simps [of 0] digit_char_def split: list.splits)
next
  case False
  then obtain d cs where "show_nat (nat \<bar>i\<bar>) = digit_char d # cs" "0 < d" "d < 10"
    using show_nat_head_pos [of "nat \<bar>i\<bar>"] by auto
  then show ?thesis
    using sign_show_int [of i ys] by (simp add: strtol0X_def digit_char_eq_0 split: list.splits)
qed

lemma strtol_show_int:
  assumes "LONG_MIN \<le> i" and "i \<le> LONG_MAX" and "\<not> starts_digit 10 ys"
  shows "strtol 10 (show_int i @ ys) = (i, ys)"
proof -
  obtain d cs where h: "show_nat (nat \<bar>i\<bar>) = digit_char d # cs" "d < 10" by (rule show_nat_head)
  have "skip_0x 10 xs = xs" for xs by (simp add: skip_0x_def split: list.splits)
  moreover have "starts_digit 10 (show_nat (nat \<bar>i\<bar>) @ ys)"
    using h by (simp add: starts_digit_def base_digit_digit_char)
  ultimately show ?thesis
    using assms sign_show_int [of i ys] by (auto simp: strtol_def scan_digits_show_nat)
qed

text \<open>The endings that multiply the value.\<close>

definition int_suffixes :: "(string \<times> int) list" where
  "int_suffixes = [([], 1), (''KB'', 1024), (''MB'', 1048576), (''GB'', 1073741824)]"

lemma int_suffix_facts:
  assumes "(ys, m) \<in> set int_suffixes"
  shows "\<not> starts_digit 10 ys" "ys = [] \<or> to_upper (hd ys) \<noteq> to_upper (CHR ''X'')"
    "ys = [] \<or> to_upper (hd ys) \<noteq> to_upper (CHR ''O'')" "ys = [] \<or> to_upper (hd ys) \<noteq> to_upper (CHR ''B'')" "0 < m"
  using assms
  by (auto simp: int_suffixes_def starts_digit_def base_digit_def digit_val_def to_upper_def)

lemma upper_letters:
  "to_upper (CHR ''M'') \<noteq> to_upper (CHR ''K'')" "to_upper (CHR ''G'') \<noteq> to_upper (CHR ''K'')"
  "to_upper (CHR ''G'') \<noteq> to_upper (CHR ''M'')"
  by code_simp+

lemma apply_suffix_fits:
  assumes "(ys, m) \<in> set int_suffixes"
  shows "apply_suffix i ys = (if INT_MIN \<le> i * m \<and> i * m \<le> INT_MAX then (0, i * m) else (ARG_ERR_OVERFLOW, i))"
proof -
  consider "ys = []" "m = 1" | "ys = ''KB''" "m = 1024" | "ys = ''MB''" "m = 1048576" | "ys = ''GB''" "m = 1073741824"
    using assms by (auto simp: int_suffixes_def)
  then show ?thesis
    by cases (simp_all add: apply_suffix_def multiply_def Let_def upper_letters)
qed

lemma int_values_stored:
  assumes "wf_int a" and "int_count a < hdr_maxcount (int_hdr a)" and "(ys, m) \<in> set int_suffixes"
    and "LONG_MIN \<le> i" and "i \<le> LONG_MAX"
  shows "arg_int_scanfn a (Some (show_int i @ ys)) =
    (if INT_MIN \<le> i * m \<and> i * m \<le> INT_MAX
     then Some (0, a\<lparr>int_ival := (int_ival a)[int_count a := Some (i * m)], int_count := Suc (int_count a)\<rparr>)
     else Some (ARG_ERR_OVERFLOW, a))"
proof -
  have n: "scan_number (show_int i @ ys) = Some (i, ys)"
    using strtol0X_show_int int_suffix_facts [OF assms(3)] strtol_show_int [OF assms(4,5)]
    by (simp add: scan_number_def)
  have "show_int i \<noteq> []" by (simp add: show_int_def show_nat_nonempty)
  moreover have "int_count a < length (int_ival a)" using assms(1,2) by (simp add: wf_int_def)
  ultimately show ?thesis
    using assms(2) by (simp add: arg_int_scanfn_def n apply_suffix_fits [OF assms(3)] wr_one int_of_long_id ARG_ERR_OVERFLOW_def)
qed

text \<open>C32: An integer option given in decimal, alone or with KB, MB or GB, stores exactly the multiplied
  value when that is an int, and is refused as an overflow otherwise; nothing is ever stored wrapped.\<close>

theorem int_option_values:
  assumes "wf_int a" and "int_count a < hdr_maxcount (int_hdr a)" and "(ys, m) \<in> set int_suffixes"
    and "LONG_MIN \<le> i" and "i \<le> LONG_MAX"
  shows "arg_int_scanfn a (Some (show_int i @ ys)) =
    (if INT_MIN \<le> i * m \<and> i * m \<le> INT_MAX
     then Some (0, a\<lparr>int_ival := (int_ival a)[int_count a := Some (i * m)], int_count := Suc (int_count a)\<rparr>)
     else Some (ARG_ERR_OVERFLOW, a))"
  by (rule int_values_stored [OF assms])

theorem int_option_values_witness:
  "arg_int_scanfn (arg_intn None None None 1 1 None) (Some (show_int (-2) @ ''GB'')) =
     Some (0, (arg_intn None None None 1 1 None)\<lparr>int_ival := [Some (-2147483648)], int_count := 1\<rparr>)"
  using int_option_values [OF constructors_wf(2) _, of None None None 1 1 None "''GB''" 1073741824 "-2"]
  by (simp add: arg_intn_def foolproof_def int_suffixes_def)

text \<open>A negated least \<open>long\<close> after a prefix overflows.\<close>

lemma upper_x: "to_upper (CHR ''x'') = CHR ''X''" "to_upper (CHR ''X'') = CHR ''X''"
  by code_simp+

lemma negated_least_long: "scan_number ''-0x-8000000000000000'' = None"
  by (simp add: scan_number_def strtol0X_def scan_sign_def is_space_def upper_x strtol_def skip_0x_def starts_digit_def
      base_digit_def digit_val_def Let_def)

end
