(* ===== verification/Getopt.thy ===== *)
theory Getopt
  imports Cstring
begin

text \<open>
  The embedded \<open>getopt_long\<close> of \<open>lib/argtable/argtable3.c\<close>.  Its global and static variables are the
  record \<open>getopt\<close>; \<open>place\<close> is the string the scanning pointer points to, and \<open>place_moved\<close> tells
  whether that pointer differs from the start of the current argument.  The array \<open>nargv\<close> holds the
  arguments without the final null pointer, which \<open>arg_at\<close> returns at the index \<open>nargc\<close>.  The
  variable behind the \<open>flag\<close> pointers of the long options is \<open>getoptval\<close>, and the output parameter
  \<open>idx\<close>, null in the only call, is left out.  \<open>None\<close> is an access outside an array.  The
  environment variable \<open>POSIXLY_CORRECT\<close> is the parameter \<open>posix\<close>.
\<close>

section \<open>State\<close>

record longopt =
  lo_name :: string
  lo_has_arg :: nat
  lo_flag :: bool
  lo_val :: int

datatype dash = NO_PREFIX | D_PREFIX | DD_PREFIX | W_PREFIX

record getopt =
  nargv :: "string list"
  optind :: nat
  opterr :: bool
  optopt :: int
  optreset :: bool
  optarg :: "string option"
  place :: string
  place_moved :: bool
  nonopt_start :: "nat option"
  nonopt_end :: "nat option"
  dash_prefix :: dash
  getoptval :: int
  warnings :: "string list"

definition char_code :: "char \<Rightarrow> int" where
  "char_code c = (let n = of_char c :: int in if n < 128 then n else n - 256)"

definition c_hd :: "string \<Rightarrow> char" where
  "c_hd s = (case s of [] \<Rightarrow> CHR 0x00 | c # _ \<Rightarrow> c)"

definition arg_at :: "string list \<Rightarrow> nat \<Rightarrow> string option option" where
  "arg_at argv i = (if i < length argv then Some (Some (argv ! i)) else if i = length argv then Some None else None)"

definition initial_getopt :: "string list \<Rightarrow> getopt" where
  "initial_getopt argv = \<lparr>nargv = argv, optind = 1, opterr = True, optopt = char_code (CHR ''?''), optreset = False,
     optarg = None, place = [], place_moved = False, nonopt_start = None, nonopt_end = None,
     dash_prefix = NO_PREFIX, getoptval = 0, warnings = []\<rparr>"

definition BADCH :: int where "BADCH = 63"

definition BADARG :: "string \<Rightarrow> int" where
  "BADARG options = (if c_hd options = CHR '':'' then 58 else 63)"

definition INORDER :: int where "INORDER = 1"

text \<open>\<open>if (PRINT_ERROR) warnx(msg)\<close>\<close>

definition warnx :: "string \<Rightarrow> string \<Rightarrow> getopt \<Rightarrow> getopt" where
  "warnx options msg s = (if opterr s \<and> c_hd options \<noteq> CHR '':'' then s\<lparr>warnings := warnings s @ [msg]\<rparr> else s)"

definition recargchar :: "char \<Rightarrow> string" where
  "recargchar c = ''option requires an argument -- '' @ [c]"

definition badoptchar :: "bool \<Rightarrow> char \<Rightarrow> string" where
  "badoptchar posix c = (if posix then ''illegal option -- '' else ''invalid option -- '') @ [c]"

definition recargstring :: "string \<Rightarrow> string \<Rightarrow> string" where
  "recargstring d name = ''option `'' @ d @ name @ [CHR 0x27] @ '' requires an argument''"

definition ambig :: "string \<Rightarrow> string \<Rightarrow> string" where
  "ambig d name = ''option `'' @ d @ name @ [CHR 0x27] @ '' is ambiguous''"

definition noarg :: "string \<Rightarrow> string \<Rightarrow> string" where
  "noarg d name = ''option `'' @ d @ name @ [CHR 0x27] @ '' doesn'' @ [CHR 0x27] @ ''t allow an argument''"

definition illoptstring :: "string \<Rightarrow> string \<Rightarrow> string" where
  "illoptstring d name = ''unrecognized option `'' @ d @ name @ [CHR 0x27]"

section \<open>Permutation of the arguments\<close>

function c_gcd :: "nat \<Rightarrow> nat \<Rightarrow> nat" where
  "c_gcd a b = (if b = 0 then 0 else let c = a mod b in if c = 0 then b else c_gcd b c)"
  by pat_completeness auto
termination
  by (relation "measure snd") (auto simp: Let_def)

declare c_gcd.simps [simp del]

text \<open>The inner loop of \<open>permute_args\<close>, \<open>j\<close> more rounds.\<close>

primrec permute_cycle :: "nat \<Rightarrow> nat \<Rightarrow> nat \<Rightarrow> nat \<Rightarrow> nat \<Rightarrow> nat \<Rightarrow> 'a list \<Rightarrow> 'a list option" where
  "permute_cycle 0 pos cstart panonopt_end nnonopts nopts xs = Some xs"
| "permute_cycle (Suc j) pos cstart panonopt_end nnonopts nopts xs =
     (let pos = (if panonopt_end \<le> pos then pos - nnonopts else pos + nopts) in
      if pos < length xs \<and> cstart < length xs then
        permute_cycle j pos cstart panonopt_end nnonopts nopts (xs[pos := xs ! cstart, cstart := xs ! pos])
      else None)"

text \<open>The outer loop, with \<open>n\<close> cycles left from cycle \<open>i\<close> on.\<close>

primrec permute_cycles :: "nat \<Rightarrow> nat \<Rightarrow> nat \<Rightarrow> nat \<Rightarrow> nat \<Rightarrow> nat \<Rightarrow> 'a list \<Rightarrow> 'a list option" where
  "permute_cycles 0 i cyclelen panonopt_end nnonopts nopts xs = Some xs"
| "permute_cycles (Suc n) i cyclelen panonopt_end nnonopts nopts xs = do {
     xs \<leftarrow> permute_cycle cyclelen (panonopt_end + i) (panonopt_end + i) panonopt_end nnonopts nopts xs;
     permute_cycles n (i + 1) cyclelen panonopt_end nnonopts nopts xs}"

text \<open>\<open>None\<close> also for an empty second block, where \<open>gcd\<close> divides by zero.\<close>

definition permute_args :: "nat \<Rightarrow> nat \<Rightarrow> nat \<Rightarrow> 'a list \<Rightarrow> 'a list option" where
  "permute_args panonopt_start panonopt_end opt_end xs =
     (let nnonopts = panonopt_end - panonopt_start; nopts = opt_end - panonopt_end in
      if nopts = 0 then None
      else (let ncycle = c_gcd nnonopts nopts; cyclelen = (opt_end - panonopt_start) div ncycle in
        permute_cycles ncycle 0 cyclelen panonopt_end nnonopts nopts xs))"

definition permute_block :: "getopt \<Rightarrow> getopt option" where
  "permute_block s = do {
     b \<leftarrow> nonopt_start s;
     e \<leftarrow> nonopt_end s;
     argv \<leftarrow> permute_args b e (optind s) (nargv s);
     Some (s\<lparr>nargv := argv\<rparr>)}"

definition nonopt_length :: "getopt \<Rightarrow> nat" where
  "nonopt_length s = the (nonopt_end s) - the (nonopt_start s)"

section \<open>Long options\<close>

definition dash_string :: "dash \<Rightarrow> string" where
  "dash_string d = (case d of D_PREFIX \<Rightarrow> ''-'' | DD_PREFIX \<Rightarrow> ''--'' | W_PREFIX \<Rightarrow> ''-W '' | NO_PREFIX \<Rightarrow> [])"

text \<open>The search: the match, whether it is exact, and whether a second partial match was seen.\<close>

fun long_match :: "longopt list \<Rightarrow> longopt list \<Rightarrow> nat \<Rightarrow> string \<Rightarrow> bool \<Rightarrow> bool \<Rightarrow> nat option \<Rightarrow> bool \<Rightarrow>
  nat option \<times> bool \<times> bool" where
  "long_match longs [] i name short_too longonly m second = (m, False, second)"
| "long_match longs (opt # rest) i name short_too longonly m second =
     (if take (length name) (lo_name opt) \<noteq> name then
        long_match longs rest (i + 1) name short_too longonly m second
      else if length (lo_name opt) = length name then (Some i, True, second)
      else if short_too \<and> length name = 1 then
        long_match longs rest (i + 1) name short_too longonly m second
      else case m of
        None \<Rightarrow> long_match longs rest (i + 1) name short_too longonly (Some i) second
      | Some k \<Rightarrow> long_match longs rest (i + 1) name short_too longonly m
          (second \<or> longonly \<or> lo_has_arg opt \<noteq> lo_has_arg (longs ! k) \<or> lo_flag opt \<noteq> lo_flag (longs ! k) \<or>
           lo_val opt \<noteq> lo_val (longs ! k)))"

definition before_equal :: "string \<Rightarrow> string" where
  "before_equal s = takeWhile (\<lambda>c. c \<noteq> CHR ''='') s"

definition after_equal :: "string \<Rightarrow> string option" where
  "after_equal s = (case dropWhile (\<lambda>c. c \<noteq> CHR ''='') s of [] \<Rightarrow> None | _ # r \<Rightarrow> Some r)"

definition long_argument :: "longopt \<Rightarrow> string option \<Rightarrow> getopt \<Rightarrow> getopt option" where
  "long_argument opt has_equal s =
     (if lo_has_arg opt = 1 \<or> lo_has_arg opt = 2 then
        (case has_equal of
           Some v \<Rightarrow> Some (s\<lparr>optarg := Some v\<rparr>)
         | None \<Rightarrow> if lo_has_arg opt = 1 then do {
               v \<leftarrow> arg_at (nargv s) (optind s);
               Some (s\<lparr>optarg := v, optind := optind s + 1\<rparr>)}
             else Some s)
      else Some s)"

definition long_found :: "string \<Rightarrow> string \<Rightarrow> longopt \<Rightarrow> getopt \<Rightarrow> (int \<times> getopt) option" where
  "long_found options cur opt s =
     (let d = dash_string (dash_prefix s); err = (if lo_flag opt then 0 else lo_val opt) in
      if lo_has_arg opt = 0 \<and> after_equal cur \<noteq> None then
        Some (BADCH, warnx options (noarg d (before_equal cur)) s\<lparr>optopt := err\<rparr>)
      else do {
        s \<leftarrow> long_argument opt (after_equal cur) s;
        if lo_has_arg opt = 1 \<and> optarg s = None then
          Some (BADARG options, warnx options (recargstring d cur) s\<lparr>optopt := err, optind := optind s - 1\<rparr>)
        else if lo_flag opt then Some (0, s\<lparr>getoptval := lo_val opt\<rparr>)
        else Some (lo_val opt, s)})"

definition parse_long_options :: "string \<Rightarrow> longopt list \<Rightarrow> bool \<Rightarrow> bool \<Rightarrow> getopt \<Rightarrow> (int \<times> getopt) option" where
  "parse_long_options options longs short_too longonly s =
     (let s = s\<lparr>optind := optind s + 1\<rparr>; cur = place s; d = dash_string (dash_prefix s) in
      case long_match longs longs 0 (before_equal cur) short_too longonly None False of (m, exact, second) \<Rightarrow>
        if \<not> exact \<and> second then
          Some (BADCH, warnx options (ambig d (before_equal cur)) s\<lparr>optopt := 0\<rparr>)
        else case m of
          Some i \<Rightarrow> long_found options cur (longs ! i) s
        | None \<Rightarrow>
            if short_too then Some (-1, s\<lparr>optind := optind s - 1\<rparr>)
            else Some (BADCH, warnx options (illoptstring d cur) s\<lparr>optopt := 0\<rparr>))"

section \<open>One call of getopt\<close>

text \<open>The flags after the first character of \<open>options\<close>: all arguments in order, permutation, and the
  options that remain.\<close>

definition option_flags :: "bool \<Rightarrow> string \<Rightarrow> bool \<Rightarrow> bool \<times> bool \<times> string" where
  "option_flags posix options permute =
     (c_hd options = CHR ''-'',
      (if c_hd options = CHR ''-'' then permute else if posix \<or> c_hd options = CHR ''+'' then False else permute),
      (if c_hd options = CHR ''+'' \<or> c_hd options = CHR ''-'' then tl options else options))"

definition getopt_begin :: "getopt \<Rightarrow> getopt" where
  "getopt_begin s =
     (let s = (if optind s = 0 then s\<lparr>optind := 1, optreset := True\<rparr> else s);
          s = s\<lparr>optarg := None\<rparr>
      in if optreset s then s\<lparr>nonopt_start := None, nonopt_end := None\<rparr> else s)"

text \<open>The end of the argument vector.\<close>

definition scan_end :: "getopt \<Rightarrow> getopt option" where
  "scan_end s = do {
     s \<leftarrow> (case nonopt_end s of
        Some e \<Rightarrow> do { s \<leftarrow> permute_block s; Some (s\<lparr>optind := optind s - nonopt_length s\<rparr>) }
      | None \<Rightarrow> (case nonopt_start s of Some b \<Rightarrow> Some (s\<lparr>optind := b\<rparr>) | None \<Rightarrow> Some s));
     Some (s\<lparr>nonopt_start := None, nonopt_end := None\<rparr>)}"

text \<open>An argument that is not an option, with permutation.\<close>

definition scan_nonopt :: "getopt \<Rightarrow> getopt option" where
  "scan_nonopt s = do {
     s \<leftarrow> (case nonopt_start s of
        None \<Rightarrow> Some (s\<lparr>nonopt_start := Some (optind s)\<rparr>)
      | Some b \<Rightarrow> (case nonopt_end s of
            Some e \<Rightarrow> do {
              s \<leftarrow> permute_block s;
              Some (s\<lparr>nonopt_start := Some (optind s - nonopt_length s), nonopt_end := None\<rparr>)}
          | None \<Rightarrow> Some s));
     Some (s\<lparr>optind := optind s + 1\<rparr>)}"

text \<open>The argument \<open>--\<close>.\<close>

definition scan_dashes :: "getopt \<Rightarrow> getopt option" where
  "scan_dashes s =
     (let s = s\<lparr>optind := optind s + 1, place := []\<rparr> in do {
        s \<leftarrow> (case nonopt_end s of
           Some e \<Rightarrow> do { s \<leftarrow> permute_block s; Some (s\<lparr>optind := optind s - nonopt_length s\<rparr>) }
         | None \<Rightarrow> Some s);
        Some (s\<lparr>nonopt_start := None, nonopt_end := None\<rparr>)})"

text \<open>The block at the label \<open>start\<close>: the value to return, or \<open>None\<close> and an option at \<open>place\<close>.  The
  first argument bounds the rounds of the loop: \<open>nargc + 1\<close> is always enough, as each round takes
  one argument.\<close>

fun getopt_scan :: "nat \<Rightarrow> nat \<Rightarrow> bool \<Rightarrow> bool \<Rightarrow> getopt \<Rightarrow> (int option \<times> getopt) option" where
  "getopt_scan rounds nargc allargs permute s =
     (if \<not> optreset s \<and> place s \<noteq> [] then Some (None, s)
      else let s = s\<lparr>optreset := False\<rparr> in
        if nargc \<le> optind s then do {
          s \<leftarrow> scan_end (s\<lparr>place := []\<rparr>);
          Some (Some (-1), s)}
        else if length (nargv s) \<le> optind s then None
        else let arg = nargv s ! optind s in
          if c_hd arg \<noteq> CHR ''-'' \<or> tl arg = [] then
            (let s = s\<lparr>place := []\<rparr> in
             if allargs then Some (Some INORDER, s\<lparr>optarg := Some arg, optind := optind s + 1\<rparr>)
             else if \<not> permute then Some (Some (-1), s)
             else (case rounds of 0 \<Rightarrow> None | Suc n \<Rightarrow> do {
               s \<leftarrow> scan_nonopt s;
               getopt_scan n nargc allargs permute s}))
          else (let s = (if nonopt_start s \<noteq> None \<and> nonopt_end s = None then s\<lparr>nonopt_end := Some (optind s)\<rparr> else s) in
            if tl arg = ''-'' then do {
              s \<leftarrow> scan_dashes s;
              Some (Some (-1), s)}
            else Some (None, s\<lparr>place := tl arg, place_moved := True\<rparr>)))"

declare getopt_scan.simps [simp del]

text \<open>The check for a long option: the value to return, if it is one.\<close>

definition getopt_longs :: "string \<Rightarrow> longopt list option \<Rightarrow> bool \<Rightarrow> getopt \<Rightarrow> (int option \<times> getopt) option" where
  "getopt_longs options longs longonly s = (case longs of
       None \<Rightarrow> Some (None, s)
     | Some longs \<Rightarrow>
         if place_moved s \<and> (c_hd (place s) = CHR ''-'' \<or> longonly) then
           (let s = s\<lparr>dash_prefix := D_PREFIX\<rparr> in
            if c_hd (place s) = CHR ''-'' \<and> tl (place s) = [] then Some (Some (BADARG options), s\<lparr>place := []\<rparr>)
            else let (short_too, s) =
                (if c_hd (place s) = CHR ''-'' then (False, s\<lparr>place := tl (place s), dash_prefix := DD_PREFIX\<rparr>)
                 else (c_hd (place s) \<noteq> CHR '':'' \<and> c_hd (place s) \<in> set options, s)) in do {
              (r, s) \<leftarrow> parse_long_options options longs short_too longonly s;
              if r \<noteq> -1 then Some (Some r, s\<lparr>place := []\<rparr>) else Some (None, s)})
         else Some (None, s))"

text \<open>The argument of a short option that needs one and has none in the same word.\<close>

definition next_word :: "nat \<Rightarrow> string \<Rightarrow> char \<Rightarrow> getopt \<Rightarrow> (bool \<times> getopt) option" where
  "next_word nargc options c s =
     (let s = s\<lparr>optind := optind s + 1\<rparr> in
      if nargc \<le> optind s then
        Some (False, warnx options (recargchar c) (s\<lparr>place := [], optopt := char_code c\<rparr>))
      else if optind s < length (nargv s) then Some (True, s) else None)"

definition getopt_short :: "bool \<Rightarrow> nat \<Rightarrow> string \<Rightarrow> longopt list option \<Rightarrow> bool \<Rightarrow> getopt \<Rightarrow> (int \<times> getopt) option" where
  "getopt_short posix nargc options longs longonly s = (case place s of
       [] \<Rightarrow> None
     | c # p \<Rightarrow>
         (let s = s\<lparr>place := p, place_moved := True\<rparr>; oli = dropWhile (\<lambda>x. x \<noteq> c) options in
          if c = CHR '':'' \<or> (c = CHR ''-'' \<and> p \<noteq> []) \<or> oli = [] then
            (if c = CHR ''-'' \<and> p = [] then Some (-1, s)
             else (let s = (if p = [] then s\<lparr>optind := optind s + 1\<rparr> else s) in
               Some (BADCH, warnx options (badoptchar posix c) s\<lparr>optopt := char_code c\<rparr>)))
          else if longs \<noteq> None \<and> c = CHR ''W'' \<and> c_hd (tl oli) = CHR '';'' then
            (if p \<noteq> [] then Some (True, s)
             else do { (found, s) \<leftarrow> next_word nargc options c s;
                       Some (found, if found then s\<lparr>place := nargv s ! optind s, place_moved := False\<rparr> else s) })
            \<bind> (\<lambda>(found, s).
              if \<not> found then Some (BADARG options, s)
              else do {
                (r, s) \<leftarrow> parse_long_options options (the longs) False longonly (s\<lparr>dash_prefix := W_PREFIX\<rparr>);
                Some (r, s\<lparr>place := []\<rparr>)})
          else if c_hd (tl oli) \<noteq> CHR '':'' then
            Some (char_code c, if p = [] then s\<lparr>optind := optind s + 1\<rparr> else s)
          else
            (let s = s\<lparr>optarg := None\<rparr> in
             if p \<noteq> [] then Some (char_code c, s\<lparr>optarg := Some p, place := [], optind := optind s + 1\<rparr>)
             else if c_hd (tl (tl oli)) = CHR '':'' then Some (char_code c, s\<lparr>place := [], optind := optind s + 1\<rparr>)
             else do {
               (found, s) \<leftarrow> next_word nargc options c s;
               if found then Some (char_code c, s\<lparr>optarg := Some (nargv s ! optind s), place := [], optind := optind s + 1\<rparr>)
               else Some (BADARG options, s)})))"

definition getopt_internal :: "bool \<Rightarrow> nat \<Rightarrow> string \<Rightarrow> longopt list option \<Rightarrow> bool \<Rightarrow> bool \<Rightarrow> getopt \<Rightarrow> (int \<times> getopt) option" where
  "getopt_internal posix nargc options longs longonly permute s =
     (case option_flags posix options permute of (allargs, permute, options) \<Rightarrow> do {
        (r, s) \<leftarrow> getopt_scan (Suc nargc) nargc allargs permute (getopt_begin s);
        case r of Some r \<Rightarrow> Some (r, s) | None \<Rightarrow> do {
          (r, s) \<leftarrow> getopt_longs options longs longonly s;
          case r of Some r \<Rightarrow> Some (r, s) | None \<Rightarrow> getopt_short posix nargc options longs longonly s}})"

definition getopt_plain :: "bool \<Rightarrow> nat \<Rightarrow> string \<Rightarrow> getopt \<Rightarrow> (int \<times> getopt) option" where
  "getopt_plain posix nargc options s = getopt_internal posix nargc options None False False s"

definition getopt_long :: "bool \<Rightarrow> nat \<Rightarrow> string \<Rightarrow> longopt list \<Rightarrow> getopt \<Rightarrow> (int \<times> getopt) option" where
  "getopt_long posix nargc options longs s = getopt_internal posix nargc options (Some longs) False True s"

definition getopt_long_only :: "bool \<Rightarrow> nat \<Rightarrow> string \<Rightarrow> longopt list \<Rightarrow> getopt \<Rightarrow> (int \<times> getopt) option" where
  "getopt_long_only posix nargc options longs s = getopt_internal posix nargc options (Some longs) True True s"

end
