(* ===== verification/Arg_Parse.thy ===== *)
theory Arg_Parse
  imports Arg_Types Getopt Syscalls
begin

text \<open>
  \<open>arg_parse\<close> of \<open>lib/argtable/argtable3.c\<close>.  A table is the list of its entries, in which the first
  end marker holds the errors; the header's function pointers select the operation of the entry's type.
  \<open>None\<close> is an access outside an array.  The loop around \<open>getopt_long\<close> has fuel, because it does not
  end for every command line.
\<close>

section \<open>Tables\<close>

datatype arg_entry = E_lit arg_lit | E_int arg_int | E_str arg_str | E_end arg_end

type_synonym arg_table = "arg_entry list"

primrec entry_hdr :: "arg_entry \<Rightarrow> arg_hdr" where
  "entry_hdr (E_lit a) = lit_hdr a"
| "entry_hdr (E_int a) = int_hdr a"
| "entry_hdr (E_str a) = str_hdr a"
| "entry_hdr (E_end a) = end_hdr a"

text \<open>\<open>None\<close> for a null function pointer, as in the end marker.\<close>

primrec entry_scanfn :: "arg_entry \<Rightarrow> (string option \<Rightarrow> (int \<times> arg_entry) option) option" where
  "entry_scanfn (E_lit a) = Some (\<lambda>v. map_option (apsnd E_lit) (arg_lit_scanfn a v))"
| "entry_scanfn (E_int a) = Some (\<lambda>v. map_option (apsnd E_int) (arg_int_scanfn a v))"
| "entry_scanfn (E_str a) = Some (\<lambda>v. map_option (apsnd E_str) (arg_str_scanfn a v))"
| "entry_scanfn (E_end a) = None"

primrec entry_resetfn :: "arg_entry \<Rightarrow> arg_entry" where
  "entry_resetfn (E_lit a) = E_lit (arg_lit_resetfn a)"
| "entry_resetfn (E_int a) = E_int (arg_int_resetfn a)"
| "entry_resetfn (E_str a) = E_str (arg_str_resetfn a)"
| "entry_resetfn (E_end a) = E_end (arg_end_resetfn a)"

primrec entry_checkfn :: "arg_entry \<Rightarrow> int option" where
  "entry_checkfn (E_lit a) = Some (arg_lit_checkfn a)"
| "entry_checkfn (E_int a) = Some (arg_int_checkfn a)"
| "entry_checkfn (E_str a) = Some (arg_str_checkfn a)"
| "entry_checkfn (E_end a) = None"

definition terminator :: "arg_entry \<Rightarrow> bool" where
  "terminator e = has_flag (entry_hdr e) ARG_TERMINATOR"

definition elem :: "'a list \<Rightarrow> nat \<Rightarrow> 'a option" where
  "elem xs i = (if i < length xs then Some (xs ! i) else None)"

fun arg_endindex :: "arg_table \<Rightarrow> nat option" where
  "arg_endindex [] = None"
| "arg_endindex (e # table) = (if terminator e then Some 0 else map_option Suc (arg_endindex table))"

definition get_end :: "nat \<Rightarrow> arg_table \<Rightarrow> arg_end option" where
  "get_end n table = do { e \<leftarrow> elem table n; case e of E_end a \<Rightarrow> Some a | _ \<Rightarrow> None }"

text \<open>\<open>arg_register_error\<close> on the end marker at index \<open>n\<close>.\<close>

definition register :: "nat \<Rightarrow> arg_table \<Rightarrow> nat \<Rightarrow> int \<Rightarrow> string option \<Rightarrow> arg_table option" where
  "register n table parent err argval = do {
     e \<leftarrow> get_end n table;
     e \<leftarrow> arg_register_error n e parent err argval;
     Some (table[n := E_end e])}"

text \<open>The outer option is an access beyond the table; the inner one stands for -1.\<close>

fun find_shortoption :: "arg_table \<Rightarrow> char \<Rightarrow> nat \<Rightarrow> nat option option" where
  "find_shortoption [] shortopt tabindex = None"
| "find_shortoption (e # table) shortopt tabindex =
     (if terminator e then Some None
      else case hdr_shortopts (entry_hdr e) of
          Some opts \<Rightarrow> if shortopt \<in> set opts \<or> shortopt = CHR 0x00 then Some (Some tabindex)
            else find_shortoption table shortopt (tabindex + 1)
        | None \<Rightarrow> find_shortoption table shortopt (tabindex + 1))"

section \<open>The options for getopt\<close>

text \<open>The number of array elements a string of long options is given, and the names copied from it.\<close>

definition count_names :: "string \<Rightarrow> nat option" where
  "count_names longopts = (if longopts = [] then None else Some (1 + length (filter (\<lambda>c. c = CHR '','') (tl longopts))))"

fun split_names :: "string \<Rightarrow> string \<Rightarrow> string list" where
  "split_names acc [] = [rev acc]"
| "split_names acc (c # cs) =
     (if c = CHR '','' then rev acc # (if cs = [] then [] else split_names [] cs) else split_names (c # acc) cs)"

definition names_of :: "string option \<Rightarrow> string list" where
  "names_of longopts = (case longopts of None \<Rightarrow> [] | Some s \<Rightarrow> if s = [] then [] else split_names [] s)"

fun count_options :: "arg_table \<Rightarrow> nat option" where
  "count_options [] = None"
| "count_options (e # table) = do {
     n \<leftarrow> (case hdr_longopts (entry_hdr e) of None \<Rightarrow> Some 0 | Some s \<Rightarrow> count_names s);
     if terminator e then Some n else do { m \<leftarrow> count_options table; Some (n + m) }}"

fun longs_from :: "arg_table \<Rightarrow> nat \<Rightarrow> longopt list" where
  "longs_from [] tabindex = []"
| "longs_from (e # table) tabindex =
     (if terminator e then []
      else map (\<lambda>name. \<lparr>lo_name = name,
          lo_has_arg = (if has_flag (entry_hdr e) ARG_HASOPTVALUE then 2 else if has_flag (entry_hdr e) ARG_HASVALUE then 1 else 0),
          lo_flag = True, lo_val = int tabindex\<rparr>) (names_of (hdr_longopts (entry_hdr e)))
        @ longs_from table (tabindex + 1))"

text \<open>The array has one element more than was counted, for the zero entry at its end.\<close>

definition alloc_longoptions :: "arg_table \<Rightarrow> longopt list option" where
  "alloc_longoptions table = do {
     n \<leftarrow> count_options table;
     if length (longs_from table 0) < 1 + n then Some (longs_from table 0) else None}"

fun shorts_from :: "arg_table \<Rightarrow> string" where
  "shorts_from [] = []"
| "shorts_from (e # table) =
     (if terminator e then []
      else concat (map (\<lambda>c. [c] @ (if has_flag (entry_hdr e) ARG_HASVALUE then '':'' else []) @
          (if has_flag (entry_hdr e) ARG_HASOPTVALUE then '':'' else []))
        (case hdr_shortopts (entry_hdr e) of Some s \<Rightarrow> s | None \<Rightarrow> []))
        @ shorts_from table)"

definition alloc_shortoptions :: "arg_table \<Rightarrow> string" where
  "alloc_shortoptions table = CHR '':'' # shorts_from table"

section \<open>Tagged arguments\<close>

definition previous_arg :: "getopt \<Rightarrow> string option option" where
  "previous_arg g = (if optind g = 0 then None else arg_at (nargv g) (optind g - 1))"

text \<open>Scan a value with the entry at an index and register the error, if there is one.\<close>

definition scan_entry :: "nat \<Rightarrow> arg_table \<Rightarrow> nat \<Rightarrow> string option \<Rightarrow> arg_table option" where
  "scan_entry n table tabindex argval = do {
     e \<leftarrow> elem table tabindex;
     case entry_scanfn e of
       None \<Rightarrow> Some table
     | Some scanfn \<Rightarrow> do {
         (err, e') \<leftarrow> scanfn argval;
         let table = table[tabindex := e'];
         if err \<noteq> 0 then register n table tabindex err argval else Some table}}"

definition tagged_long :: "nat \<Rightarrow> getopt \<Rightarrow> arg_table \<Rightarrow> arg_table option" where
  "tagged_long n g table = (let tabindex = nat (getoptval g) in do {
     e \<leftarrow> elem table tabindex;
     table \<leftarrow> (if optarg g = Some [] \<and> has_flag (entry_hdr e) ARG_HASVALUE then do {
         v \<leftarrow> previous_arg g;
         register n table n ARG_EMISSARG v}
       else Some table);
     scan_entry n table tabindex (optarg g)})"

definition tagged_unknown :: "nat \<Rightarrow> getopt \<Rightarrow> arg_table \<Rightarrow> arg_table option" where
  "tagged_unknown n g table =
     (if optopt g = 0 then do { v \<leftarrow> previous_arg g; register n table n ARG_ELONGOPT v }
      else register n table n (optopt g) None)"

definition tagged_missing :: "nat \<Rightarrow> getopt \<Rightarrow> arg_table \<Rightarrow> arg_table option" where
  "tagged_missing n g table = do { v \<leftarrow> previous_arg g; register n table n ARG_EMISSARG v }"

definition tagged_short :: "nat \<Rightarrow> int \<Rightarrow> getopt \<Rightarrow> arg_table \<Rightarrow> arg_table option" where
  "tagged_short n copt g table = do {
     i \<leftarrow> find_shortoption table (char_of (nat (copt mod 256))) 0;
     case i of None \<Rightarrow> register n table n copt None | Some tabindex \<Rightarrow> scan_entry n table tabindex (optarg g)}"

definition tagged_step :: "nat \<Rightarrow> int \<Rightarrow> getopt \<Rightarrow> arg_table \<Rightarrow> arg_table option" where
  "tagged_step n copt g table =
     (if copt = 0 then tagged_long n g table
      else if copt = 63 then tagged_unknown n g table
      else if copt = 58 then tagged_missing n g table
      else tagged_short n copt g table)"

fun tagged_loop :: "nat \<Rightarrow> bool \<Rightarrow> nat \<Rightarrow> nat \<Rightarrow> string \<Rightarrow> longopt list \<Rightarrow> getopt \<Rightarrow> arg_table \<Rightarrow> fault + (getopt \<times> arg_table)" where
  "tagged_loop 0 posix n argc shorts longs g table = Inl Out_of_fuel"
| "tagged_loop (Suc fuel) posix n argc shorts longs g table = (case getopt_long posix argc shorts longs g of
       None \<Rightarrow> Inl Undefined_behaviour
     | Some (copt, g) \<Rightarrow>
         if copt = -1 then Inr (g, table)
         else (case tagged_step n copt g table of
             None \<Rightarrow> Inl Undefined_behaviour
           | Some table \<Rightarrow> tagged_loop fuel posix n argc shorts longs g table))"

definition arg_parse_tagged :: "nat \<Rightarrow> bool \<Rightarrow> nat \<Rightarrow> getopt \<Rightarrow> arg_table \<Rightarrow> fault + (getopt \<times> arg_table)" where
  "arg_parse_tagged fuel posix n g table = (case alloc_longoptions table of
       None \<Rightarrow> Inl Undefined_behaviour
     | Some longs \<Rightarrow> tagged_loop fuel posix n (length (nargv g)) (alloc_shortoptions table) longs
         (g\<lparr>optind := 0, opterr := False, getoptval := 0\<rparr>) table)"

section \<open>Untagged arguments\<close>

text \<open>An error for every argument that is left.\<close>

fun register_all :: "nat \<Rightarrow> arg_table \<Rightarrow> string list \<Rightarrow> arg_table option" where
  "register_all n table [] = Some table"
| "register_all n table (v # vs) = do { table \<leftarrow> register n table n ARG_ENOMATCH (Some v); register_all n table vs }"

text \<open>A tentative error: its code, its argument and the index of the entry.\<close>

type_synonym tentative = "(int \<times> string \<times> nat) option"

definition untagged_rest :: "nat \<Rightarrow> string list \<Rightarrow> arg_table \<Rightarrow> nat \<Rightarrow> tentative \<Rightarrow> arg_table option" where
  "untagged_rest n argv table i errorlast = (case errorlast of
       Some (err, v, parent) \<Rightarrow> do {
         table \<leftarrow> register n table parent err (Some v);
         register_all n table (drop (i + 1) argv)}
     | None \<Rightarrow> register_all n table (drop i argv))"

function untagged_loop :: "nat \<Rightarrow> string list \<Rightarrow> arg_table \<Rightarrow> nat \<Rightarrow> nat \<Rightarrow> tentative \<Rightarrow> arg_table option" where
  "untagged_loop n argv table tabindex i errorlast =
     (if length table \<le> tabindex then None
      else let e = table ! tabindex; h = entry_hdr e in
        if terminator e then untagged_rest n argv table i errorlast
        else if length argv \<le> i then Some table
        else if hdr_longopts h \<noteq> None \<or> hdr_shortopts h \<noteq> None then
          untagged_loop n argv table (tabindex + 1) i errorlast
        else (case entry_scanfn e of
            None \<Rightarrow> untagged_loop n argv table (tabindex + 1) i errorlast
          | Some scanfn \<Rightarrow> (case scanfn (Some (argv ! i)) of
                None \<Rightarrow> None
              | Some (err, e') \<Rightarrow>
                  if err = 0 then untagged_loop n argv (table[tabindex := e']) tabindex (i + 1) None
                  else untagged_loop n argv (table[tabindex := e']) (tabindex + 1) i (Some (err, argv ! i, tabindex)))))"
  by pat_completeness auto
termination
  by (relation "measure (\<lambda>(n, argv, table, tabindex, i, err). (length table - tabindex) + (length argv - i))") auto

declare untagged_loop.simps [simp del]

definition arg_parse_untagged :: "nat \<Rightarrow> getopt \<Rightarrow> arg_table \<Rightarrow> arg_table option" where
  "arg_parse_untagged n g table = untagged_loop n (nargv g) table 0 (optind g) None"

section \<open>Checks, reset and arg\_parse\<close>

text \<open>The entries up to the end marker at \<open>n\<close>, from index \<open>i\<close> on.\<close>

fun check_from :: "nat \<Rightarrow> nat \<Rightarrow> arg_entry list \<Rightarrow> arg_table \<Rightarrow> arg_table option" where
  "check_from n i [] table = Some table"
| "check_from n i (e # es) table = do {
     table \<leftarrow> (case entry_checkfn e of
         Some err \<Rightarrow> if err \<noteq> 0 then register n table i err None else Some table
       | None \<Rightarrow> Some table);
     check_from n (i + 1) es table}"

definition arg_parse_check :: "nat \<Rightarrow> arg_table \<Rightarrow> arg_table option" where
  "arg_parse_check n table = check_from n 0 (take (Suc n) table) table"

definition arg_reset :: "nat \<Rightarrow> arg_table \<Rightarrow> arg_table" where
  "arg_reset n table = map entry_resetfn (take (Suc n) table) @ drop (Suc n) table"

definition lift_ub :: "'a option \<Rightarrow> fault + 'a" where
  "lift_ub x = (case x of None \<Rightarrow> Inl Undefined_behaviour | Some a \<Rightarrow> Inr a)"

definition end_errors :: "nat \<Rightarrow> arg_table \<Rightarrow> nat" where
  "end_errors n table = (case get_end n table of Some e \<Rightarrow> end_count e | None \<Rightarrow> 0)"

text \<open>After both scans: the checks, unless an error was found.\<close>

definition arg_finish :: "nat \<Rightarrow> arg_table \<Rightarrow> (nat \<times> arg_table) option" where
  "arg_finish n table = do {
     table \<leftarrow> (if end_errors n table = 0 then arg_parse_check n table else Some table);
     Some (end_errors n table, table)}"

text \<open>The number of errors and the table.  \<open>g\<close> is the state that \<open>getopt\<close> was left in before.\<close>

definition arg_parse :: "nat \<Rightarrow> bool \<Rightarrow> getopt \<Rightarrow> string list \<Rightarrow> arg_table \<Rightarrow> fault + (nat \<times> arg_table)" where
  "arg_parse fuel posix g argv table = (case arg_endindex table of
       None \<Rightarrow> Inl Undefined_behaviour
     | Some n \<Rightarrow>
         let table = arg_reset n table in
         if argv = [] then
           lift_ub (do { table \<leftarrow> arg_parse_check n table; Some (end_errors n table, table) })
         else (case arg_parse_tagged fuel posix n (g\<lparr>nargv := argv\<rparr>) table of
             Inl f \<Rightarrow> Inl f
           | Inr (g, table) \<Rightarrow> lift_ub (do { table \<leftarrow> arg_parse_untagged n g table; arg_finish n table })))"

end
