(* ===== verification/Arg_Print.thy ===== *)
theory Arg_Print
  imports Arg_Dstr Arg_Parse
begin

text \<open>
  The output functions of \<open>lib/argtable/argtable3.c\<close>: the option strings that are built in a buffer of
  200 characters, the usage line, the glossary and the error messages.  The pointer \<open>*pdest\<close> is an index into that
  buffer; \<open>None\<close> is an access outside it.
\<close>

section \<open>Option strings in a fixed buffer\<close>

record cat_state =
  cat_buf :: string
  cat_dest :: nat
  cat_left :: nat

text \<open>The two loops of \<open>arg_cat\<close>, with the number of characters before \<open>end - 1\<close>.\<close>

primrec skip_text :: "nat \<Rightarrow> string \<Rightarrow> nat \<Rightarrow> nat option" where
  "skip_text 0 buf dest = Some dest"
| "skip_text (Suc n) buf dest =
     (if dest < length buf then (if buf ! dest = NUL then Some dest else skip_text n buf (dest + 1)) else None)"

fun copy_text :: "nat \<Rightarrow> string \<Rightarrow> string \<Rightarrow> nat \<Rightarrow> (string \<times> nat) option" where
  "copy_text n [] buf dest = Some (buf, dest)"
| "copy_text 0 (c # src) buf dest = Some (buf, dest)"
| "copy_text (Suc n) (c # src) buf dest = do { buf \<leftarrow> wr buf dest [c]; copy_text n src buf (dest + 1) }"

definition arg_cat :: "string \<Rightarrow> cat_state \<Rightarrow> cat_state option" where
  "arg_cat src st = do {
     let end' = cat_dest st + cat_left st;
     dest \<leftarrow> skip_text (cat_left st - 1) (cat_buf st) (cat_dest st);
     (buf, dest) \<leftarrow> copy_text (end' - 1 - dest) src (cat_buf st) dest;
     buf \<leftarrow> wr buf dest [NUL];
     Some \<lparr>cat_buf = buf, cat_dest = dest, cat_left = end' - dest\<rparr>}"

definition strncat :: "string \<Rightarrow> nat \<Rightarrow> string \<Rightarrow> nat \<Rightarrow> string option" where
  "strncat buf dest src n = do { s \<leftarrow> cstr (drop dest buf); wr buf (dest + length s) (take n src @ [NUL]) }"

definition tag_of :: "string \<Rightarrow> string" where
  "tag_of s = takeWhile (\<lambda>c. c \<noteq> CHR '','') s"

text \<open>The tag prefix and one long option, which \<open>strncat\<close> adds without moving \<open>dest\<close>.\<close>

definition cat_tag :: "string \<Rightarrow> cat_state \<Rightarrow> cat_state option" where
  "cat_tag longopts st = do {
     st \<leftarrow> arg_cat ''--'' st;
     let ncspn = length (tag_of longopts);
     buf \<leftarrow> strncat (cat_buf st) (cat_dest st) longopts (if ncspn < cat_left st then ncspn else cat_left st);
     Some (st\<lparr>cat_buf := buf\<rparr>)}"

definition cat_datatype :: "string \<Rightarrow> bool \<Rightarrow> cat_state \<Rightarrow> cat_state option" where
  "cat_datatype datatype optvalue st =
     (if optvalue then do { st \<leftarrow> arg_cat ''['' st; st \<leftarrow> arg_cat datatype st; arg_cat '']'' st }
      else arg_cat datatype st)"

definition short_tag :: "string \<Rightarrow> string" where
  "short_tag shortopts = (if c_hd shortopts = NUL then ''-'' else [CHR ''-'', c_hd shortopts])"

definition arg_cat_option :: "string option \<Rightarrow> string option \<Rightarrow> string option \<Rightarrow> bool \<Rightarrow> cat_state \<Rightarrow> cat_state option" where
  "arg_cat_option shortopts longopts datatype optvalue st = (case shortopts of
       Some s \<Rightarrow> do {
         st \<leftarrow> arg_cat (short_tag s) st;
         (case datatype of
           Some d \<Rightarrow> do { st \<leftarrow> arg_cat '' '' st; cat_datatype d optvalue st }
         | None \<Rightarrow> Some st)}
     | None \<Rightarrow> (case longopts of
           Some l \<Rightarrow> do {
             st \<leftarrow> cat_tag l st;
             (case datatype of
               Some d \<Rightarrow> do { st \<leftarrow> arg_cat ''='' st; cat_datatype d optvalue st }
             | None \<Rightarrow> Some st)}
         | None \<Rightarrow> (case datatype of Some d \<Rightarrow> cat_datatype d optvalue st | None \<Rightarrow> Some st)))"

fun cat_shorts :: "string \<Rightarrow> string \<Rightarrow> cat_state \<Rightarrow> cat_state option" where
  "cat_shorts separator [] st = Some st"
| "cat_shorts separator (c # cs) st = do {
     st \<leftarrow> arg_cat [CHR ''-'', c] st;
     st \<leftarrow> (if cs \<noteq> [] then arg_cat separator st else Some st);
     cat_shorts separator cs st}"

function cat_longs :: "string \<Rightarrow> string \<Rightarrow> cat_state \<Rightarrow> cat_state option" where
  "cat_longs separator s st =
     (if s = [] then Some st
      else do {
        st \<leftarrow> cat_tag s st;
        (case dropWhile (\<lambda>c. c \<noteq> CHR '','') s of
          [] \<Rightarrow> Some st
        | c # cs \<Rightarrow> do { st \<leftarrow> arg_cat separator st; cat_longs separator cs st })})"
  by pat_completeness auto
termination
proof (relation "measure (\<lambda>(separator, s, st). length s)", goal_cases)
  case (2 separator s st st' c cs)
  then have "length (c # cs) \<le> length s" by (metis length_dropWhile_le)
  then show ?case by simp
qed simp

declare cat_longs.simps [simp del]

definition arg_cat_optionv :: "string option \<Rightarrow> string option \<Rightarrow> string option \<Rightarrow> bool \<Rightarrow> string \<Rightarrow> cat_state \<Rightarrow> cat_state option" where
  "arg_cat_optionv shortopts longopts datatype optvalue separator st = do {
     st \<leftarrow> (case shortopts of Some s \<Rightarrow> cat_shorts separator s st | None \<Rightarrow> Some st);
     st \<leftarrow> (if shortopts \<noteq> None \<and> longopts \<noteq> None then arg_cat separator st else Some st);
     st \<leftarrow> (case longopts of Some l \<Rightarrow> cat_longs separator l st | None \<Rightarrow> Some st);
     (case datatype of
        Some d \<Rightarrow> do {
          st \<leftarrow> (if longopts \<noteq> None then arg_cat ''='' st else if shortopts \<noteq> None then arg_cat '' '' st else Some st);
          cat_datatype d optvalue st}
      | None \<Rightarrow> Some st)}"

text \<open>\<open>char syntax[200] = ""\<close>, passed with \<open>sizeof(syntax) - 1\<close>.\<close>

definition empty_syntax :: cat_state where
  "empty_syntax = \<lparr>cat_buf = replicate 200 NUL, cat_dest = 0, cat_left = 199\<rparr>"

definition option_syntax :: "arg_hdr \<Rightarrow> string option" where
  "option_syntax h = do {
     st \<leftarrow> arg_cat_option (hdr_shortopts h) (hdr_longopts h) (hdr_datatype h) (has_flag h ARG_HASOPTVALUE) empty_syntax;
     cstr (cat_buf st)}"

definition optionv_syntax :: "arg_hdr \<Rightarrow> string \<Rightarrow> string option" where
  "optionv_syntax h separator = do {
     st \<leftarrow> arg_cat_optionv (hdr_shortopts h) (hdr_longopts h) (hdr_datatype h) (has_flag h ARG_HASOPTVALUE) separator empty_syntax;
     cstr (cat_buf st)}"

section \<open>What the option strings say\<close>

definition datatype_text :: "string \<Rightarrow> bool \<Rightarrow> string" where
  "datatype_text d optvalue = (if optvalue then ''['' @ d @ '']'' else d)"

definition option_text :: "string option \<Rightarrow> string option \<Rightarrow> string option \<Rightarrow> bool \<Rightarrow> string" where
  "option_text shortopts longopts datatype optvalue = (case shortopts of
       Some s \<Rightarrow> short_tag s @ (case datatype of Some d \<Rightarrow> '' '' @ datatype_text d optvalue | None \<Rightarrow> [])
     | None \<Rightarrow> (case longopts of
           Some l \<Rightarrow> ''--'' @ tag_of l @ (case datatype of Some d \<Rightarrow> ''='' @ datatype_text d optvalue | None \<Rightarrow> [])
         | None \<Rightarrow> (case datatype of Some d \<Rightarrow> datatype_text d optvalue | None \<Rightarrow> [])))"

fun shorts_text :: "string \<Rightarrow> string \<Rightarrow> string" where
  "shorts_text separator [] = []"
| "shorts_text separator (c # cs) = [CHR ''-'', c] @ (if cs \<noteq> [] then separator else []) @ shorts_text separator cs"

function longs_text :: "string \<Rightarrow> string \<Rightarrow> string" where
  "longs_text separator s =
     (if s = [] then []
      else ''--'' @ tag_of s @ (case dropWhile (\<lambda>c. c \<noteq> CHR '','') s of [] \<Rightarrow> [] | c # cs \<Rightarrow> separator @ longs_text separator cs))"
  by pat_completeness auto
termination
proof (relation "measure (\<lambda>(separator, s). length s)", goal_cases)
  case (2 separator s c cs)
  then have "length (c # cs) \<le> length s" by (metis length_dropWhile_le)
  then show ?case by simp
qed simp

declare longs_text.simps [simp del]

definition optionv_text :: "string option \<Rightarrow> string option \<Rightarrow> string option \<Rightarrow> bool \<Rightarrow> string \<Rightarrow> string" where
  "optionv_text shortopts longopts datatype optvalue separator =
     (case shortopts of Some s \<Rightarrow> shorts_text separator s | None \<Rightarrow> [])
     @ (if shortopts \<noteq> None \<and> longopts \<noteq> None then separator else [])
     @ (case longopts of Some l \<Rightarrow> longs_text separator l | None \<Rightarrow> [])
     @ (case datatype of
          Some d \<Rightarrow> (if longopts \<noteq> None then ''='' else if shortopts \<noteq> None then '' '' else []) @ datatype_text d optvalue
        | None \<Rightarrow> [])"

section \<open>The buffer is never left\<close>

text \<open>The state after the text \<open>full\<close> was appended: up to 198 characters the buffer holds exactly that text.  \<open>strncat\<close>
  may use one character more than \<open>arg_cat\<close>, which still is inside the array.\<close>

definition cat_ok :: "string \<Rightarrow> cat_state \<Rightarrow> bool" where
  "cat_ok full st \<longleftrightarrow> length (cat_buf st) = 200 \<and> cat_dest st + cat_left st = 199 \<and> 0 < cat_left st \<and>
     (\<exists>t. cstr (cat_buf st) = Some t \<and> cat_dest st \<le> length t \<and> take 198 t = take 198 full)"

lemma cstr_split:
  assumes "cstr buf = Some t"
  obtains r where "buf = t @ NUL # r"
proof -
  from assms have "NUL \<in> set buf" and t: "t = takeWhile (\<lambda>c. c \<noteq> NUL) buf" by (auto simp: cstr_def split: if_splits)
  then obtain ys zs where "buf = ys @ NUL # zs" "NUL \<notin> set ys" by (meson split_list_first)
  moreover from this have "takeWhile (\<lambda>c. c \<noteq> NUL) buf = ys" by (auto simp: takeWhile_append takeWhile_eq_all_conv)
  ultimately show thesis using that [of zs] t by simp
qed

lemma skip_text_to:
  assumes "nul_free t" and "dest \<le> length t"
  shows "skip_text n (t @ NUL # r) dest = Some (min (length t) (dest + n))"
  using assms(2)
proof (induction n arbitrary: dest)
  case (Suc n)
  show ?case
  proof (cases "dest = length t")
    case False
    then have d: "dest < length t" using Suc.prems by simp
    then have "t ! dest \<noteq> NUL" using assms(1) by (auto simp: nul_free_def) (metis nth_mem)
    then show ?thesis using Suc.IH [of "dest + 1"] d by (simp add: nth_append)
  qed (simp add: nth_append)
qed (simp add: min_def)

lemma copy_text_to:
  "d + min n (length src) \<le> length buf \<Longrightarrow>
   copy_text n src buf d = Some (take d buf @ take n src @ drop (d + min n (length src)) buf, d + min n (length src))"
proof (induction n src buf d rule: copy_text.induct)
  case (3 n c src buf dest)
  have d: "dest < length buf" using 3(2) by simp
  let ?b = "buf[dest := c]"
  have w: "wr buf dest [c] = Some ?b" using d by (simp add: wr_def splice_def upd_conv_take_nth_drop)
  have "copy_text n src ?b (dest + 1) = Some (take (dest + 1) ?b @ take n src @ drop (dest + 1 + min n (length src)) ?b,
      dest + 1 + min n (length src))"
    by (rule 3(1) [OF w]) (use 3(2) in simp)
  moreover have "take (dest + 1) ?b = take dest buf @ [c]" using d by (simp add: take_Suc_conv_app_nth)
  ultimately show ?case by (simp add: w)
qed auto

lemma take_append_fits: "take 198 t = take 198 full \<Longrightarrow> take 198 (t @ s) = take 198 (full @ s)"
proof -
  assume t: "take 198 t = take 198 full"
  show ?thesis
  proof (cases "length full < 198 \<or> length t < 198")
    case True
    have "length (take 198 t) = length (take 198 full)" by (simp only: t)
    then have "length t < 198" "length full < 198" using True by auto
    then have "t = full" using t by simp
    then show ?thesis by simp
  next
    case False
    then show ?thesis using t by simp
  qed
qed

lemma arg_cat_unfold:
  assumes "skip_text (cat_left st - 1) (cat_buf st) (cat_dest st) = Some d"
    and "copy_text (cat_dest st + cat_left st - 1 - d) src (cat_buf st) d = Some (b, d')" and "wr b d' [NUL] = Some b'"
  shows "arg_cat src st = Some \<lparr>cat_buf = b', cat_dest = d', cat_left = cat_dest st + cat_left st - d'\<rparr>"
  using assms by (simp add: arg_cat_def Let_def)

lemma wr_nul_after:
  "length xs < length buf \<Longrightarrow> wr (xs @ drop (length xs) buf) (length xs) [NUL] = Some (xs @ NUL # drop (Suc (length xs)) buf)"
  by (simp add: wr_def splice_def)

lemma arg_cat_ok:
  assumes ok: "cat_ok full st" and nul: "nul_free src"
  obtains st' where "arg_cat src st = Some st'" "cat_ok (full @ src) st'"
    "cstr (cat_buf st') = Some (take 198 (full @ src))" "cat_dest st' = length (take 198 (full @ src))"
proof -
  from ok obtain t where t: "cstr (cat_buf st) = Some t" "cat_dest st \<le> length t" "take 198 t = take 198 full"
    and len: "length (cat_buf st) = 200" "cat_dest st + cat_left st = 199" "0 < cat_left st"
    by (auto simp: cat_ok_def)
  obtain r where r: "cat_buf st = t @ NUL # r" by (rule cstr_split [OF t(1)])
  have tn: "nul_free t" using t(1) by (rule cstr_nul_free)
  define d where "d = min (length t) 198"
  define k where "k = min (198 - d) (length src)"
  define new where "new = take 198 (full @ src)"
  have "cat_dest st + (cat_left st - 1) = 198" using len by simp
  then have skip: "skip_text (cat_left st - 1) (cat_buf st) (cat_dest st) = Some d"
    using skip_text_to [OF tn t(2), of "cat_left st - 1" r] by (simp add: r d_def)
  have td: "take d (cat_buf st) = take 198 t" by (simp add: r d_def min_def)
  have "198 - d = 198 - length t" by (simp add: d_def)
  then have "take 198 t @ take (198 - d) src = take 198 (t @ src)" by simp
  then have n: "take d (cat_buf st) @ take (198 - d) src = new"
    using take_append_fits [OF t(3)] by (simp only: td new_def)
  have "length (take d (cat_buf st) @ take (198 - d) src) = d + k" by (simp add: len d_def k_def)
  then have dk: "length new = d + k" by (simp only: n)
  have le: "d + k \<le> 198" by (simp add: d_def k_def)
  have "copy_text (198 - d) src (cat_buf st) d =
      Some ((take d (cat_buf st) @ take (198 - d) src) @ drop (d + k) (cat_buf st), d + k)"
    unfolding k_def by (subst copy_text_to) (simp_all add: len d_def)
  then have copy: "copy_text (cat_dest st + cat_left st - 1 - d) src (cat_buf st) d = Some (new @ drop (length new) (cat_buf st), length new)"
    by (simp only: n dk len(2)) simp
  let ?b = "new @ NUL # drop (Suc (length new)) (cat_buf st)"
  have w: "wr (new @ drop (length new) (cat_buf st)) (length new) [NUL] = Some ?b"
    by (rule wr_nul_after) (use le dk len in simp)
  let ?st = "\<lparr>cat_buf = ?b, cat_dest = length new, cat_left = 199 - length new\<rparr>"
  have run: "arg_cat src st = Some ?st" using arg_cat_unfold [OF skip copy w] by (simp only: len(2))
  have "set new \<subseteq> set t \<union> set src"
    unfolding n [symmetric] td by (auto dest: in_set_takeD)
  then have c: "cstr ?b = Some new" using tn nul by (intro cstr_append) (auto simp: nul_free_def)
  have l: "length new \<le> 198" using le dk by simp
  have tt: "take 198 new = take 198 (full @ src)" unfolding new_def take_take by (simp only: min.idem)
  have "cat_ok (full @ src) ?st"
    unfolding cat_ok_def
  proof (intro conjI exI)
    show "cstr (cat_buf ?st) = Some new" using c by simp
    show "take 198 new = take 198 (full @ src)" by (rule tt)
  qed (use l len in simp_all)
  moreover have "cstr (cat_buf ?st) = Some (take 198 (full @ src))" "cat_dest ?st = length (take 198 (full @ src))"
    unfolding new_def [symmetric] using c by simp_all
  ultimately show thesis using that run by blast
qed

lemma strncat_ok:
  assumes "cat_ok full st" and "cstr (cat_buf st) = Some (take 198 full)" and "cat_dest st = length (take 198 full)" and "nul_free src"
  obtains buf where "strncat (cat_buf st) (cat_dest st) src (if length (tag_of src) < cat_left st then length (tag_of src) else cat_left st) = Some buf"
    "cat_ok (full @ tag_of src) (st\<lparr>cat_buf := buf\<rparr>)"
proof -
  let ?n = "min (length (tag_of src)) (cat_left st)"
  define t where "t = take 198 full"
  have at: "cstr (cat_buf st) = Some t" "cat_dest st = length t" using assms(2,3) by (simp_all only: t_def)
  obtain r where r: "cat_buf st = t @ NUL # r" by (rule cstr_split [OF at(1)])
  have len: "length (cat_buf st) = 200" "cat_dest st + cat_left st = 199" using assms(1) by (simp_all add: cat_ok_def)
  have tag: "take ?n src = take (cat_left st) (tag_of src)"
  proof -
    have "take (length (tag_of src)) src = tag_of src" unfolding tag_of_def by (metis takeWhile_eq_take)
    then show ?thesis by (metis min.commute take_take)
  qed
  let ?s = "take (cat_left st) (tag_of src)"
  have d: "cstr (drop (cat_dest st) (cat_buf st)) = Some []" by (simp add: r at(2) cstr_def)
  have le: "length t + length ?s \<le> 199" using len(2) by (simp add: at(2))
  let ?b = "(t @ ?s) @ NUL # drop (Suc (length t + length ?s)) (cat_buf st)"
  have "wr (cat_buf st) (length t) (?s @ [NUL]) = Some ?b"
    using le len(1) by (simp add: wr_def splice_def r)
  then have w: "strncat (cat_buf st) (cat_dest st) src ?n = Some ?b"
    using d at(2) by (simp add: strncat_def tag)
  have nf: "nul_free (t @ ?s)"
    using cstr_nul_free [OF at(1)] assms(4) by (auto simp: nul_free_def tag_of_def dest: in_set_takeD set_takeWhileD)
  have tt: "take 198 (t @ ?s) = take 198 (full @ tag_of src)"
  proof (cases "length full < 198")
    case True
    then have "198 - length full \<le> cat_left st" using len(2) at(2) by (simp add: t_def)
    then show ?thesis using True by (simp add: t_def min_absorb1)
  next
    case False
    then have "length t = 198" by (simp add: t_def)
    then show ?thesis using False by (simp add: t_def)
  qed
  have "cat_ok (full @ tag_of src) (st\<lparr>cat_buf := ?b\<rparr>)"
    unfolding cat_ok_def
  proof (intro conjI exI)
    show "cstr (cat_buf (st\<lparr>cat_buf := ?b\<rparr>)) = Some (t @ ?s)" using cstr_append [OF nf] by simp
    show "take 198 (t @ ?s) = take 198 (full @ tag_of src)" by (rule tt)
    show "length (cat_buf (st\<lparr>cat_buf := ?b\<rparr>)) = 200" using le len(1) by simp
  qed (use assms(1) at(2) in \<open>simp_all add: cat_ok_def\<close>)
  moreover have "(if length (tag_of src) < cat_left st then length (tag_of src) else cat_left st) = ?n" by simp
  ultimately show thesis using that w by metis
qed

text \<open>An operation that appends the text \<open>t\<close>.\<close>

definition appends :: "(cat_state \<Rightarrow> cat_state option) \<Rightarrow> string \<Rightarrow> bool" where
  "appends f t \<longleftrightarrow> (\<forall>st full. cat_ok full st \<longrightarrow> (\<exists>st'. f st = Some st' \<and> cat_ok (full @ t) st'))"

lemma appends_none: "appends Some []"
  by (simp add: appends_def)

lemma appends_cat: "nul_free src \<Longrightarrow> appends (arg_cat src) src"
  unfolding appends_def by (metis arg_cat_ok)

lemma appends_seq: "appends f s \<Longrightarrow> appends g t \<Longrightarrow> appends (\<lambda>st. Option.bind (f st) g) (s @ t)"
  unfolding appends_def by (metis append_assoc bind.bind_lunit)

lemma appends_tag:
  assumes "nul_free l"
  shows "appends (cat_tag l) (''--'' @ tag_of l)"
  unfolding appends_def
proof (intro allI impI)
  fix st full
  assume ok: "cat_ok full st"
  have "nul_free ''--''" by (simp add: nul_free_def)
  then obtain st1 where st1: "arg_cat ''--'' st = Some st1" "cat_ok (full @ ''--'') st1"
    "cstr (cat_buf st1) = Some (take 198 (full @ ''--''))" "cat_dest st1 = length (take 198 (full @ ''--''))"
    by (rule arg_cat_ok [OF ok])
  obtain buf where "strncat (cat_buf st1) (cat_dest st1) l (if length (tag_of l) < cat_left st1 then length (tag_of l) else cat_left st1) = Some buf"
    "cat_ok ((full @ ''--'') @ tag_of l) (st1\<lparr>cat_buf := buf\<rparr>)" by (rule strncat_ok [OF st1(2,3,4) assms])
  then show "\<exists>st'. cat_tag l st = Some st' \<and> cat_ok (full @ ''--'' @ tag_of l) st'"
    using st1(1) by (simp add: cat_tag_def Let_def)
qed

lemma appends_datatype: "nul_free d \<Longrightarrow> appends (cat_datatype d b) (datatype_text d b)"
proof -
  assume d: "nul_free d"
  have br: "nul_free ''[''" "nul_free '']''" by (simp_all add: nul_free_def)
  show ?thesis
  proof (cases b)
    case True
    then show ?thesis
      using appends_seq [OF appends_cat [OF br(1)] appends_seq [OF appends_cat [OF d] appends_cat [OF br(2)]]]
      by (simp add: cat_datatype_def [abs_def] datatype_text_def)
  next
    case False
    then show ?thesis using appends_cat [OF d] by (simp add: cat_datatype_def [abs_def] datatype_text_def)
  qed
qed

definition opt_nul_free :: "string option \<Rightarrow> bool" where
  "opt_nul_free s \<longleftrightarrow> (case s of None \<Rightarrow> True | Some s \<Rightarrow> nul_free s)"

lemma appends_prefixed:
  assumes "nul_free p" and "opt_nul_free dt"
  shows "appends (\<lambda>st. case dt of Some d \<Rightarrow> do { st \<leftarrow> arg_cat p st; cat_datatype d b st } | None \<Rightarrow> Some st)
    (case dt of Some d \<Rightarrow> p @ datatype_text d b | None \<Rightarrow> [])"
  using assms appends_none appends_seq [OF appends_cat appends_datatype]
  by (cases dt) (auto simp: opt_nul_free_def)

lemma short_tag_nul_free: "nul_free (short_tag s)"
  by (simp add: short_tag_def nul_free_def)

lemma appends_option:
  assumes "opt_nul_free so" and "opt_nul_free lo" and "opt_nul_free dt"
  shows "appends (arg_cat_option so lo dt b) (option_text so lo dt b)"
proof -
  have p: "nul_free '' ''" "nul_free ''=''" by (simp_all add: nul_free_def)
  consider s where "so = Some s" | l where "so = None" "lo = Some l" | "so = None" "lo = None" by (cases so; cases lo) auto
  then show ?thesis
  proof cases
    case 1
    then show ?thesis
      using appends_seq [OF appends_cat [OF short_tag_nul_free] appends_prefixed [OF p(1) assms(3)]]
      by (simp add: arg_cat_option_def [abs_def] option_text_def)
  next
    case 2
    have "nul_free l" using assms(2) 2 by (simp add: opt_nul_free_def)
    then show ?thesis
      using 2 appends_seq [OF appends_tag appends_prefixed [OF p(2) assms(3)]]
      by (simp add: arg_cat_option_def [abs_def] option_text_def)
  next
    case 3
    then show ?thesis using assms(3) appends_none appends_datatype
      by (cases dt) (simp_all add: arg_cat_option_def [abs_def] option_text_def opt_nul_free_def)
  qed
qed

lemma nul_free_simps [simp]: "nul_free []" "nul_free (x # xs) \<longleftrightarrow> x \<noteq> NUL \<and> nul_free xs" "nul_free (xs @ ys) \<longleftrightarrow> nul_free xs \<and> nul_free ys"
  by (auto simp: nul_free_def)

lemma appends_shorts: "nul_free sep \<Longrightarrow> nul_free s \<Longrightarrow> appends (cat_shorts sep s) (shorts_text sep s)"
proof (induction s)
  case Nil
  then show ?case using appends_none by (simp add: appends_def)
next
  case (Cons c cs)
  have a: "appends (\<lambda>st. if cs \<noteq> [] then arg_cat sep st else Some st) (if cs \<noteq> [] then sep else [])"
    using appends_cat [OF Cons.prems(1)] appends_none by simp
  have "appends (\<lambda>st. Option.bind (arg_cat [CHR ''-'', c] st) (\<lambda>st. Option.bind (if cs \<noteq> [] then arg_cat sep st else Some st) (cat_shorts sep cs)))
      ([CHR ''-'', c] @ (if cs \<noteq> [] then sep else []) @ shorts_text sep cs)"
    by (intro appends_seq appends_cat a Cons.IH) (use Cons.prems in simp_all)
  then show ?case by (simp add: appends_def)
qed

lemma appends_longs: "nul_free sep \<Longrightarrow> nul_free s \<Longrightarrow> appends (cat_longs sep s) (longs_text sep s)"
proof (induction "length s" arbitrary: s rule: less_induct)
  case less
  show ?case
  proof (cases "s = []")
    case True
    then show ?thesis using appends_none by (simp add: appends_def cat_longs.simps longs_text.simps)
  next
    case False
    show ?thesis
    proof (cases "dropWhile (\<lambda>c. c \<noteq> CHR '','') s")
      case Nil
      show ?thesis using False appends_tag [OF less.prems(2)]
        unfolding appends_def cat_longs.simps [of _ s] longs_text.simps [of _ s] Nil by simp
    next
      case (Cons c cs)
      have "length (c # cs) \<le> length s" using Cons by (metis length_dropWhile_le)
      moreover have "set (c # cs) \<subseteq> set s" unfolding Cons [symmetric] by (auto dest: set_dropWhileD)
      then have "nul_free cs" using less.prems(2) by (auto simp: nul_free_def)
      ultimately have "appends (cat_longs sep cs) (longs_text sep cs)" using less by simp
      then have "appends (\<lambda>st. Option.bind (cat_tag s st) (\<lambda>st. Option.bind (arg_cat sep st) (cat_longs sep cs)))
          ((''--'' @ tag_of s) @ (sep @ longs_text sep cs))"
        by (intro appends_seq appends_tag appends_cat less.prems)
      then show ?thesis using False Cons by (simp add: appends_def cat_longs.simps [of _ s] longs_text.simps [of _ s])
    qed
  qed
qed

lemma appends_optionv:
  assumes "opt_nul_free so" and "opt_nul_free lo" and "opt_nul_free dt" and sep: "nul_free sep"
  shows "appends (arg_cat_optionv so lo dt b sep) (optionv_text so lo dt b sep)"
proof -
  have 1: "appends (\<lambda>st. case so of Some s \<Rightarrow> cat_shorts sep s st | None \<Rightarrow> Some st) (case so of Some s \<Rightarrow> shorts_text sep s | None \<Rightarrow> [])"
    using appends_shorts [OF sep] appends_none assms(1) by (cases so) (simp_all add: opt_nul_free_def)
  have 2: "appends (\<lambda>st. if so \<noteq> None \<and> lo \<noteq> None then arg_cat sep st else Some st) (if so \<noteq> None \<and> lo \<noteq> None then sep else [])"
    using appends_cat [OF sep] appends_none by simp
  have 3: "appends (\<lambda>st. case lo of Some l \<Rightarrow> cat_longs sep l st | None \<Rightarrow> Some st) (case lo of Some l \<Rightarrow> longs_text sep l | None \<Rightarrow> [])"
    using appends_longs [OF sep] appends_none assms(2) by (cases lo) (simp_all add: opt_nul_free_def)
  let ?p = "if lo \<noteq> None then ''='' else if so \<noteq> None then '' '' else []"
  have 4: "appends (\<lambda>st. if lo \<noteq> None then arg_cat ''='' st else if so \<noteq> None then arg_cat '' '' st else Some st) ?p"
    using appends_cat [of "''=''"] appends_cat [of "'' ''"] appends_none by (auto simp: appends_def)
  have 5: "appends (\<lambda>st. case dt of Some d \<Rightarrow> do {
        st \<leftarrow> (if lo \<noteq> None then arg_cat ''='' st else if so \<noteq> None then arg_cat '' '' st else Some st); cat_datatype d b st}
      | None \<Rightarrow> Some st) (case dt of Some d \<Rightarrow> ?p @ datatype_text d b | None \<Rightarrow> [])"
    using appends_seq [OF 4 appends_datatype] appends_none assms(3) by (cases dt) (auto simp: opt_nul_free_def)
  show ?thesis
    using appends_seq [OF 1 appends_seq [OF 2 appends_seq [OF 3 5]]]
    by (simp add: arg_cat_optionv_def [abs_def] optionv_text_def)
qed

lemma empty_syntax_ok: "cat_ok [] empty_syntax"
  by (simp add: cat_ok_def empty_syntax_def cstr_def)

lemma appends_result:
  assumes "appends f t"
  shows "\<exists>st s. f empty_syntax = Some st \<and> cstr (cat_buf st) = Some s \<and> take 198 s = take 198 t \<and> (length t < 198 \<longrightarrow> s = t)"
proof -
  obtain st where "f empty_syntax = Some st" "cat_ok ([] @ t) st"
    using assms empty_syntax_ok unfolding appends_def by blast
  moreover from this obtain s where s: "cstr (cat_buf st) = Some s" "take 198 s = take 198 t" by (auto simp: cat_ok_def)
  moreover have "s = t" if "length t < 198"
  proof -
    have "take 198 s = t" using s(2) that by simp
    then show ?thesis using that by (metis length_take min_less_iff_conj nat_less_le order_less_irrefl take_all_iff min.absorb4 linorder_not_le)
  qed
  ultimately show ?thesis by blast
qed

text \<open>A header whose strings are C strings.\<close>

definition hdr_ok :: "arg_hdr \<Rightarrow> bool" where
  "hdr_ok h \<longleftrightarrow> opt_nul_free (hdr_shortopts h) \<and> opt_nul_free (hdr_longopts h) \<and> opt_nul_free (hdr_datatype h) \<and>
     opt_nul_free (hdr_glossary h)"

definition hdr_text :: "arg_hdr \<Rightarrow> string" where
  "hdr_text h = option_text (hdr_shortopts h) (hdr_longopts h) (hdr_datatype h) (has_flag h ARG_HASOPTVALUE)"

definition hdr_textv :: "arg_hdr \<Rightarrow> string \<Rightarrow> string" where
  "hdr_textv h sep = optionv_text (hdr_shortopts h) (hdr_longopts h) (hdr_datatype h) (has_flag h ARG_HASOPTVALUE) sep"

lemma option_syntax_ok:
  assumes "hdr_ok h"
  shows "\<exists>s. option_syntax h = Some s \<and> take 198 s = take 198 (hdr_text h) \<and> (length (hdr_text h) < 198 \<longrightarrow> s = hdr_text h)"
proof -
  have "appends (arg_cat_option (hdr_shortopts h) (hdr_longopts h) (hdr_datatype h) (has_flag h ARG_HASOPTVALUE)) (hdr_text h)"
    using assms by (simp add: appends_option hdr_ok_def hdr_text_def)
  from appends_result [OF this] show ?thesis by (auto simp: option_syntax_def)
qed

lemma optionv_syntax_ok:
  assumes "hdr_ok h" and "nul_free sep"
  shows "\<exists>s. optionv_syntax h sep = Some s \<and> take 198 s = take 198 (hdr_textv h sep) \<and>
    (length (hdr_textv h sep) < 198 \<longrightarrow> s = hdr_textv h sep)"
proof -
  have "appends (arg_cat_optionv (hdr_shortopts h) (hdr_longopts h) (hdr_datatype h) (has_flag h ARG_HASOPTVALUE) sep) (hdr_textv h sep)"
    using assms by (simp add: appends_optionv hdr_ok_def hdr_textv_def)
  from appends_result [OF this] show ?thesis by (auto simp: optionv_syntax_def)
qed

text \<open>C12: The option strings of the usage line and the glossary never leave their 200-character buffer, however long the tags
and the data type are: the string is the intended one, cut after 198 characters at the earliest.\<close>

theorem option_buffer_safe:
  assumes "hdr_ok h" and "nul_free sep"
  shows "\<exists>s v. option_syntax h = Some s \<and> take 198 s = take 198 (hdr_text h) \<and> (length (hdr_text h) < 198 \<longrightarrow> s = hdr_text h) \<and>
    optionv_syntax h sep = Some v \<and> take 198 v = take 198 (hdr_textv h sep) \<and> (length (hdr_textv h sep) < 198 \<longrightarrow> v = hdr_textv h sep)"
  using option_syntax_ok [OF assms(1)] optionv_syntax_ok [OF assms] by blast

theorem option_buffer_safe_witness:
  "option_syntax (str_hdr (arg_strn (Some ''m'') (Some ''mnt'') (Some ''<path>'') 1 1 None)) = Some ''-m <path>''"
  using option_buffer_safe [of "str_hdr (arg_strn (Some ''m'') (Some ''mnt'') (Some ''<path>'') 1 1 None)" "'', ''"]
  by (simp add: hdr_ok_def opt_nul_free_def arg_strn_def hdr_text_def option_text_def short_tag_def c_hd_def datatype_text_def
      has_flag_def ARG_HASVALUE_def ARG_HASOPTVALUE_def)

section \<open>Usage and glossary\<close>

definition arg_print_option_ds :: "string option \<Rightarrow> string option \<Rightarrow> string option \<Rightarrow> string \<Rightarrow> dstr \<Rightarrow> dstr option" where
  "arg_print_option_ds shortopts longopts datatype sfx ds = do {
     st \<leftarrow> arg_cat_optionv shortopts longopts datatype False ''|'' empty_syntax;
     syntax \<leftarrow> cstr (cat_buf st);
     ds \<leftarrow> arg_dstr_cat syntax ds;
     arg_dstr_cat sfx ds}"

text \<open>The two loops of \<open>arg_print_gnuswitch_ds\<close>; \<open>format1\<close>, \<open>format2\<close> and \<open>suffix\<close> change with the first switch printed.\<close>

fun gnu_mandatory :: "arg_hdr list \<Rightarrow> string \<Rightarrow> string \<Rightarrow> dstr \<Rightarrow> (string \<times> dstr) option" where
  "gnu_mandatory [] format1 format2 ds = None"
| "gnu_mandatory (h # hs) format1 format2 ds =
     (if has_flag h ARG_TERMINATOR then Some (format2, ds)
      else if hdr_mincount h < 1 then gnu_mandatory hs format1 format2 ds
      else case hdr_shortopts h of
          None \<Rightarrow> gnu_mandatory hs format1 format2 ds
        | Some s \<Rightarrow>
            if has_flag h ARG_HASVALUE then gnu_mandatory hs format1 format2 ds
            else do { ds \<leftarrow> arg_dstr_catf format1 [F_char (c_hd s)] ds; gnu_mandatory hs ''%c'' ''[%c'' ds })"

fun gnu_optional :: "arg_hdr list \<Rightarrow> string \<Rightarrow> string \<Rightarrow> dstr \<Rightarrow> (string \<times> dstr) option" where
  "gnu_optional [] format2 sfx ds = None"
| "gnu_optional (h # hs) format2 sfx ds =
     (if has_flag h ARG_TERMINATOR then Some (sfx, ds)
      else if 0 < hdr_mincount h then gnu_optional hs format2 sfx ds
      else case hdr_shortopts h of
          None \<Rightarrow> gnu_optional hs format2 sfx ds
        | Some s \<Rightarrow>
            if has_flag h ARG_HASVALUE then gnu_optional hs format2 sfx ds
            else do { ds \<leftarrow> arg_dstr_catf format2 [F_char (c_hd s)] ds; gnu_optional hs ''%c'' '']'' ds })"

definition arg_print_gnuswitch_ds :: "arg_hdr list \<Rightarrow> dstr \<Rightarrow> dstr option" where
  "arg_print_gnuswitch_ds table ds = do {
     (format2, ds) \<leftarrow> gnu_mandatory table '' -%c'' '' [-%c'' ds;
     (sfx, ds) \<leftarrow> gnu_optional table format2 [] ds;
     arg_dstr_catf ''%s'' [F_str sfx] ds}"

primrec cat_list :: "string list \<Rightarrow> dstr \<Rightarrow> dstr option" where
  "cat_list [] ds = Some ds"
| "cat_list (s # ss) ds = Option.bind (arg_dstr_cat s ds) (cat_list ss)"

text \<open>The mandatory instances of an option and the optional ones in brackets.\<close>

definition instances :: "arg_hdr \<Rightarrow> string \<Rightarrow> string list" where
  "instances h syntax =
     concat (replicate (hdr_mincount h) ['' '', syntax]) @
     (let n = int (hdr_maxcount h) - int (hdr_mincount h) in
      if n = 0 then [] else if n = 1 then ['' ['', syntax, '']'']
      else if n = 2 then ['' ['', syntax, '']'', '' ['', syntax, '']''] else ['' ['', syntax, '']...''])"

fun syntax_entries :: "arg_hdr list \<Rightarrow> dstr \<Rightarrow> dstr option" where
  "syntax_entries [] ds = None"
| "syntax_entries (h # hs) ds =
     (if has_flag h ARG_TERMINATOR then Some ds
      else if hdr_shortopts h \<noteq> None \<and> \<not> has_flag h ARG_HASVALUE then syntax_entries hs ds
      else do {
        syntax \<leftarrow> option_syntax h;
        ds \<leftarrow> (if 0 < length syntax then cat_list (instances h syntax) ds else Some ds);
        syntax_entries hs ds})"

definition arg_print_syntax_ds :: "arg_hdr list \<Rightarrow> string option \<Rightarrow> dstr \<Rightarrow> dstr option" where
  "arg_print_syntax_ds table sfx ds = do {
     ds \<leftarrow> arg_print_gnuswitch_ds table ds;
     ds \<leftarrow> syntax_entries table ds;
     (case sfx of Some s \<Rightarrow> arg_dstr_cat s ds | None \<Rightarrow> Some ds)}"

fun syntaxv_entries :: "arg_hdr list \<Rightarrow> dstr \<Rightarrow> dstr option" where
  "syntaxv_entries [] ds = None"
| "syntaxv_entries (h # hs) ds =
     (if has_flag h ARG_TERMINATOR then Some ds
      else do { syntax \<leftarrow> optionv_syntax h ''|''; ds \<leftarrow> cat_list (instances h syntax) ds; syntaxv_entries hs ds })"

definition arg_print_syntaxv_ds :: "arg_hdr list \<Rightarrow> string option \<Rightarrow> dstr \<Rightarrow> dstr option" where
  "arg_print_syntaxv_ds table sfx ds = do {
     ds \<leftarrow> syntaxv_entries table ds;
     (case sfx of Some s \<Rightarrow> arg_dstr_cat s ds | None \<Rightarrow> Some ds)}"

fun glossary_entries :: "arg_hdr list \<Rightarrow> string \<Rightarrow> dstr \<Rightarrow> dstr option" where
  "glossary_entries [] format ds = None"
| "glossary_entries (h # hs) format ds =
     (if has_flag h ARG_TERMINATOR then Some ds
      else do {
        ds \<leftarrow> (case hdr_glossary h of
            None \<Rightarrow> Some ds
          | Some g \<Rightarrow> do { syntax \<leftarrow> optionv_syntax h '', ''; arg_dstr_catf format [F_str syntax, F_str g] ds });
        glossary_entries hs format ds})"

definition newline :: string where "newline = [CHR 0x0A]"

definition arg_print_glossary_ds :: "arg_hdr list \<Rightarrow> string option \<Rightarrow> dstr \<Rightarrow> dstr option" where
  "arg_print_glossary_ds table format ds =
     glossary_entries table (case format of Some f \<Rightarrow> f | None \<Rightarrow> ''  %-20s %s'' @ newline) ds"

text \<open>\<open>arg_print_option\<close>, \<open>arg_print_syntax\<close> and the others: a new string, what was printed into it, and its text to the stream.\<close>

definition printed :: "(dstr \<Rightarrow> dstr option) \<Rightarrow> string option" where
  "printed f = do { ds \<leftarrow> f arg_dstr_create; arg_dstr_cstr ds }"

definition arg_print_syntax :: "arg_hdr list \<Rightarrow> string option \<Rightarrow> string option" where
  "arg_print_syntax table sfx = printed (arg_print_syntax_ds table sfx)"

definition arg_print_syntaxv :: "arg_hdr list \<Rightarrow> string option \<Rightarrow> string option" where
  "arg_print_syntaxv table sfx = printed (arg_print_syntaxv_ds table sfx)"

definition arg_print_glossary :: "arg_hdr list \<Rightarrow> string option \<Rightarrow> string option" where
  "arg_print_glossary table format = printed (arg_print_glossary_ds table format)"

definition arg_print_option :: "string option \<Rightarrow> string option \<Rightarrow> string option \<Rightarrow> string \<Rightarrow> string option" where
  "arg_print_option shortopts longopts datatype sfx = printed (arg_print_option_ds shortopts longopts datatype sfx)"

end
