(* ===== verification/Permute_Args.thy ===== *)
theory Permute_Args
  imports Getopt
begin

text \<open>
  \<open>permute_args\<close> moves the arguments cycle by cycle, in place.  The theorem of this theory says what
  it computes: the two adjacent blocks change places and nothing else moves.
\<close>

lemma c_gcd_eq: "0 < b \<Longrightarrow> c_gcd a b = gcd a b"
proof (induction a b rule: c_gcd.induct)
  case (1 a b)
  show ?case
  proof (cases "a mod b = 0")
    case True
    then show ?thesis using 1(2) by (subst c_gcd.simps) (simp add: gcd_red_nat [of a b])
  next
    case False
    then have "c_gcd b (a mod b) = gcd b (a mod b)" using 1 by simp
    then show ?thesis using 1(2) False by (subst c_gcd.simps) (simp add: gcd_red_nat [of a b])
  qed
qed

section \<open>The step from one position to the next\<close>

definition jump :: "nat \<Rightarrow> nat \<Rightarrow> nat \<Rightarrow> nat \<Rightarrow> nat" where
  "jump e nn m p = (if e \<le> p then p - nn else p + m)"

lemma jump_mod:
  assumes "b < e" and "e < o'" and "b \<le> p" and "p < o'"
  shows "jump e (e - b) (o' - e) p = b + ((p - b) + (o' - e)) mod (o' - b)"
proof (cases "e \<le> p")
  case True
  then have "(p - b) + (o' - e) = (p - e) + (o' - b)" using assms by simp
  then have "((p - b) + (o' - e)) mod (o' - b) = (p - e) mod (o' - b)" by (simp only: mod_add_self2)
  also have "\<dots> = p - e" using assms True by simp
  finally show ?thesis using True assms by (simp add: jump_def)
next
  case False
  then show ?thesis using assms by (simp add: jump_def)
qed

lemma jump_range:
  assumes "b < e" and "e < o'" and "b \<le> p" and "p < o'"
  shows "b \<le> jump e (e - b) (o' - e) p" "jump e (e - b) (o' - e) p < o'"
  using assms by (auto simp: jump_def)

lemma funpow_jump:
  assumes "b < e" and "e < o'" and "b \<le> p" and "p < o'"
  shows "(jump e (e - b) (o' - e) ^^ k) p = b + ((p - b) + k * (o' - e)) mod (o' - b)"
proof (induction k)
  case 0
  then show ?case using assms by simp
next
  case (Suc k)
  let ?N = "o' - b"
  have N: "0 < ?N" using assms by simp
  have r: "((p - b) + k * (o' - e)) mod ?N < ?N" using N by simp
  have "(jump e (e - b) (o' - e) ^^ Suc k) p = jump e (e - b) (o' - e) (b + ((p - b) + k * (o' - e)) mod ?N)"
    using Suc by simp
  also have "\<dots> = b + (((p - b) + k * (o' - e)) mod ?N + (o' - e)) mod ?N"
    using jump_mod [OF assms(1,2), of "b + ((p - b) + k * (o' - e)) mod ?N"] r by simp
  also have "\<dots> = b + (((p - b) + k * (o' - e)) + (o' - e)) mod ?N" by (simp only: mod_add_left_eq)
  also have "\<dots> = b + ((p - b) + Suc k * (o' - e)) mod ?N" by (simp add: ac_simps)
  finally show ?case .
qed

section \<open>One cycle\<close>

text \<open>What the list looks like after \<open>k\<close> of the \<open>L\<close> rounds of a cycle through the positions \<open>q\<close>.\<close>

definition in_cycle :: "(nat \<Rightarrow> nat) \<Rightarrow> nat \<Rightarrow> nat \<Rightarrow> 'a list \<Rightarrow> 'a list \<Rightarrow> bool" where
  "in_cycle q L k xs ys \<longleftrightarrow> length ys = length xs \<and>
     (k < L \<longrightarrow> ys ! q 0 = xs ! q k) \<and>
     (\<forall>i. 1 \<le> i \<and> i \<le> k \<longrightarrow> ys ! q i = xs ! q (i - 1)) \<and>
     (\<forall>i. k < i \<and> i < L \<longrightarrow> ys ! q i = xs ! q i) \<and>
     (\<forall>p < length xs. p \<notin> q ` {..<L} \<longrightarrow> ys ! p = xs ! p)"

lemma in_cycle_step:
  assumes inj: "inj_on q {..<L}" and qL: "q L = q 0" and rng: "\<And>i. q i < length xs" and k: "k < L"
    and ys: "in_cycle q L k xs ys"
  shows "in_cycle q L (Suc k) xs (ys[q (Suc k) := ys ! q 0, q 0 := ys ! q (Suc k)])"
proof (cases "Suc k = L")
  case True
  then have same: "ys[q (Suc k) := ys ! q 0, q 0 := ys ! q (Suc k)] = ys" using qL by simp
  have "ys ! q i = xs ! q (i - 1)" if "1 \<le> i" "i \<le> Suc k" for i
    using that ys k qL True by (cases "i = Suc k") (auto simp: in_cycle_def)
  then show ?thesis
    unfolding same using ys True by (auto simp: in_cycle_def)
next
  case False
  then have L: "Suc k < L" using k by simp
  have ne: "q i \<noteq> q j" if "i < L" "j < L" "i \<noteq> j" for i j using inj that by (auto simp: inj_on_def)
  have len: "length ys = length xs" using ys by (simp add: in_cycle_def)
  let ?zs = "ys[q (Suc k) := ys ! q 0, q 0 := ys ! q (Suc k)]"
  have at: "?zs ! q i = (if i = 0 then ys ! q (Suc k) else if i = Suc k then ys ! q 0 else ys ! q i)" if "i < L" for i
    using ne [of i 0] ne [of i "Suc k"] ne [of 0 "Suc k"] that L rng len by (auto simp: nth_list_update)
  have out: "?zs ! p = ys ! p" if "p \<notin> q ` {..<L}" for p
    using that L by (metis gr_implies_not0 image_eqI lessThan_iff neq0_conv nth_list_update_neq)
  show ?thesis
    unfolding in_cycle_def
  proof (intro conjI allI impI)
    show "length ?zs = length xs" using len by simp
    show "?zs ! q 0 = xs ! q (Suc k)" using at [of 0] L ys by (simp add: in_cycle_def)
  next
    fix i assume i: "1 \<le> i \<and> i \<le> Suc k"
    then show "?zs ! q i = xs ! q (i - 1)"
      using at [of i] L ys k by (cases "i = Suc k") (auto simp: in_cycle_def)
  next
    fix i assume i: "Suc k < i \<and> i < L"
    then show "?zs ! q i = xs ! q i" using at [of i] ys by (auto simp: in_cycle_def)
  next
    fix p assume "p < length xs" "p \<notin> q ` {..<L}"
    then show "?zs ! p = xs ! p" using out [of p] ys by (auto simp: in_cycle_def)
  qed
qed

lemma permute_cycle_in_cycle:
  assumes q: "\<And>i. q i = (jump e nn m ^^ i) (q 0)" and inj: "inj_on q {..<L}" and qL: "q L = q 0"
    and rng: "\<And>i. q i < length xs"
  shows "in_cycle q L k xs ys \<Longrightarrow> k + j = L \<Longrightarrow>
    \<exists>zs. permute_cycle j (q k) (q 0) e nn m ys = Some zs \<and> in_cycle q L L xs zs"
proof (induction j arbitrary: k ys)
  case (Suc j)
  have next': "(if e \<le> q k then q k - nn else q k + m) = q (Suc k)"
    using q [of "Suc k"] q [of k] by (simp add: jump_def)
  have len: "length ys = length xs" using Suc.prems by (simp add: in_cycle_def)
  let ?zs = "ys[q (Suc k) := ys ! q 0, q 0 := ys ! q (Suc k)]"
  have "in_cycle q L (Suc k) xs ?zs"
    by (rule in_cycle_step [OF inj qL rng]) (use Suc.prems in simp_all)
  from Suc.IH [OF this] obtain zs where
    "permute_cycle j (q (Suc k)) (q 0) e nn m ?zs = Some zs" "in_cycle q L L xs zs"
    using Suc.prems by auto
  then show ?case
    using rng [of "Suc k"] rng [of 0] len by (simp add: next')
qed simp

section \<open>The positions of one cycle\<close>

lemma cycle_facts:
  fixes b e o' i :: nat
  defines "N \<equiv> o' - b" and "m \<equiv> o' - e" and "g \<equiv> gcd (e - b) (o' - e)"
  assumes le: "b < e" "e < o'" and i: "i < g"
  defines "q \<equiv> \<lambda>k. (jump e (e - b) (o' - e) ^^ k) (e + i)"
  shows "inj_on q {..<N div g}" and "q (N div g) = q 0" and "b \<le> q k" and "q k < o'"
    and "q ` {..<N div g} = {p. b \<le> p \<and> p < o' \<and> (p - b) mod g = i}"
proof -
  have g0: "0 < g" using le by (simp add: g_def)
  have gle: "g \<le> m" using le by (simp add: g_def m_def gcd_le2_nat)
  have Nm: "N = (e - b) + m" using le by (simp add: N_def m_def)
  have gm: "g dvd m" by (simp add: g_def m_def)
  have gn: "g dvd (e - b)" by (simp add: g_def)
  have gN: "g dvd N" using gm gn by (simp add: Nm)
  have N0: "0 < N" using le by (simp add: N_def)
  obtain L where L: "N = g * L" using gN by auto
  have Ldiv: "N div g = L" using L g0 by simp
  have L0: "0 < L" using L N0 by (cases L) auto
  have ei: "b \<le> e + i" "e + i < o'" using le i gle by (simp_all add: m_def)
  have qk: "q k = b + ((e + i - b) + k * m) mod N" for k
    unfolding q_def using funpow_jump [OF le ei] by (simp add: m_def N_def)
  show rng: "b \<le> q k" "q k < o'" for k
    using qk [of k] mod_less_divisor [OF N0, of "(e + i - b) + k * m"] by (auto simp: N_def)
  have gcdN: "gcd N m = g"
    using gcd_add1 [of "e - b" m] by (simp add: Nm g_def m_def gcd.commute)
  have Lm: "L dvd k" if "N dvd k * m" for k
  proof -
    obtain m' where m': "m = g * m'" using gm by auto
    have "gcd (g * L) (g * m') = g" using gcdN L m' by simp
    then have "coprime L m'" using g0 by (simp add: gcd_mult_distrib_nat [symmetric] coprime_iff_gcd_eq_1)
    moreover have "L dvd k * m'"
      using that L m' g0 by (simp add: mult.left_commute)
    ultimately show ?thesis by (simp add: coprime_dvd_mult_left_iff)
  qed
  have inj: "inj_on q {..<L}"
  proof (rule linorder_inj_onI')
    fix s t assume st: "s \<in> {..<L}" "t \<in> {..<L}" "s < t"
    show "q s \<noteq> q t"
    proof
      assume "q s = q t"
      then have "((e + i - b) + t * m) mod N = ((e + i - b) + s * m) mod N" by (simp add: qk)
      then have "N dvd ((e + i - b) + t * m) - ((e + i - b) + s * m)"
        using st by (intro mod_eq_dvd_iff_nat [THEN iffD1]) simp_all
      then have "N dvd (t - s) * m" by (simp add: diff_mult_distrib)
      then have "L dvd t - s" by (rule Lm)
      then show False using st by (auto dest: dvd_imp_le)
    qed
  qed
  then show "inj_on q {..<N div g}" by (simp add: Ldiv)
  have "L * m mod N = 0"
    using gm L by (auto simp: mult.commute mult.left_commute)
  then have "((e + i - b) + L * m) mod N = (e + i - b) mod N"
    by (metis add_0_right mod_add_right_eq)
  then show "q (N div g) = q 0" by (simp add: qk Ldiv)
  have res: "(q k - b) mod g = i" for k
  proof -
    have "(q k - b) mod g = ((e + i - b) + k * m) mod g"
      using gN by (simp add: qk mod_mod_cancel)
    also have "\<dots> = (i + ((e - b) + k * m)) mod g" using le by (simp add: ac_simps)
    also have "\<dots> = i mod g"
      using gn gm by (metis add_0_right dvd_add dvd_mult mod_0_imp_dvd mod_add_right_eq dvd_imp_mod_0)
    finally show ?thesis using i by simp
  qed
  let ?T = "(\<lambda>t. b + i + g * t) ` {..<L}"
  have sub: "{p. b \<le> p \<and> p < o' \<and> (p - b) mod g = i} \<subseteq> ?T"
  proof
    fix p assume "p \<in> {p. b \<le> p \<and> p < o' \<and> (p - b) mod g = i}"
    then have p: "b \<le> p" "p < o'" "(p - b) mod g = i" by auto
    have "p = b + i + g * ((p - b) div g)"
      using p mult_div_mod_eq [of g "p - b"] by simp
    moreover have "(p - b) div g < L"
      using p L g0 by (simp add: less_mult_imp_div_less mult.commute N_def)
    ultimately show "p \<in> ?T" by blast
  qed
  have up: "q ` {..<L} \<subseteq> {p. b \<le> p \<and> p < o' \<and> (p - b) mod g = i}" using rng res by auto
  have "card ?T \<le> card (q ` {..<L})"
    using inj card_image [OF inj] card_image_le [of "{..<L}" "\<lambda>t. b + i + g * t"] by simp
  moreover have "q ` {..<L} \<subseteq> ?T" using up sub by (rule order_trans)
  ultimately have "q ` {..<L} = ?T" using card_seteq [of ?T "q ` {..<L}"] by simp
  then have "{p. b \<le> p \<and> p < o' \<and> (p - b) mod g = i} \<subseteq> q ` {..<L}" using sub by simp
  then have "q ` {..<L} = {p. b \<le> p \<and> p < o' \<and> (p - b) mod g = i}" using up by (intro subset_antisym)
  then show "q ` {..<N div g} = {p. b \<le> p \<and> p < o' \<and> (p - b) mod g = i}" by (simp add: Ldiv)
qed

section \<open>All cycles\<close>

text \<open>The list after the cycles of the residues below \<open>i\<close>.\<close>

definition cycles_done :: "nat \<Rightarrow> nat \<Rightarrow> nat \<Rightarrow> nat \<Rightarrow> 'a list \<Rightarrow> 'a list \<Rightarrow> bool" where
  "cycles_done b e o' i xs ys \<longleftrightarrow> length ys = length xs \<and>
     (\<forall>p. b \<le> p \<and> p < o' \<longrightarrow>
        (if (p - b) mod gcd (e - b) (o' - e) < i then ys ! jump e (e - b) (o' - e) p = xs ! p else ys ! p = xs ! p)) \<and>
     (\<forall>p < length xs. p < b \<or> o' \<le> p \<longrightarrow> ys ! p = xs ! p)"

lemma jump_residue:
  assumes "b < e" and "e < o'" and "b \<le> p" and "p < o'"
  shows "(jump e (e - b) (o' - e) p - b) mod gcd (e - b) (o' - e) = (p - b) mod gcd (e - b) (o' - e)"
proof -
  have "gcd (e - b) (o' - e) dvd (e - b) + (o' - e)" by (intro dvd_add) simp_all
  then have d: "gcd (e - b) (o' - e) dvd o' - b" using assms by simp
  have "jump e (e - b) (o' - e) p - b = ((p - b) + (o' - e)) mod (o' - b)"
    using jump_mod [OF assms] by simp
  then have "(jump e (e - b) (o' - e) p - b) mod gcd (e - b) (o' - e) = ((p - b) + (o' - e)) mod gcd (e - b) (o' - e)"
    using d by (simp add: mod_mod_cancel)
  then show ?thesis by (metis add_0_right dvd_imp_mod_0 gcd_dvd2 mod_add_right_eq)
qed

lemma one_cycle:
  fixes b e o' :: nat
  defines "g \<equiv> gcd (e - b) (o' - e)"
  assumes le: "b < e" "e < o'" "o' \<le> length xs" and i: "i < g" and ys: "cycles_done b e o' i xs ys"
  shows "\<exists>zs. permute_cycle ((o' - b) div g) (e + i) (e + i) e (e - b) (o' - e) ys = Some zs \<and>
    cycles_done b e o' (Suc i) xs zs"
proof -
  let ?q = "\<lambda>k. (jump e (e - b) (o' - e) ^^ k) (e + i)"
  let ?L = "(o' - b) div g"
  have i': "i < gcd (e - b) (o' - e)" using i by (simp add: g_def)
  note facts = cycle_facts [OF le(1,2) i', folded g_def]
  have len: "length ys = length xs" using ys by (simp add: cycles_done_def)
  have rng: "?q k < length ys" for k using facts(4) [of k] le len by simp
  have start: "in_cycle ?q ?L 0 ys ys" by (simp add: in_cycle_def)
  obtain zs where z: "permute_cycle ?L (?q 0) (?q 0) e (e - b) (o' - e) ys = Some zs" "in_cycle ?q ?L ?L ys zs"
    using permute_cycle_in_cycle [of ?q e "e - b" "o' - e" ?L ys 0 ys ?L, OF _ facts(1,2) rng start]
    by (metis add_0 funpow_0)
  have hit: "zs ! jump e (e - b) (o' - e) p = ys ! p" if "p \<in> ?q ` {..<?L}" for p
  proof -
    from that obtain k where k: "k < ?L" "p = ?q k" by auto
    have "\<forall>i. 1 \<le> i \<and> i \<le> ?L \<longrightarrow> zs ! ?q i = ys ! ?q (i - 1)" using z(2) unfolding in_cycle_def by blast
    from this [rule_format, of "Suc k"] k(1) have "zs ! ?q (Suc k) = ys ! ?q k" by (simp del: funpow.simps)
    then show ?thesis using k(2) by simp
  qed
  have miss: "zs ! p = ys ! p" if "p < length xs" "p \<notin> ?q ` {..<?L}" for p
    using z(2) that len by (simp add: in_cycle_def)
  have "cycles_done b e o' (Suc i) xs zs"
    unfolding cycles_done_def g_def [symmetric]
  proof (intro conjI allI impI)
    show "length zs = length xs" using z(2) len by (simp add: in_cycle_def)
  next
    fix p assume p: "b \<le> p \<and> p < o'"
    let ?j = "jump e (e - b) (o' - e) p"
    have j: "?j < length xs" "b \<le> ?j" "?j < o'" using jump_range [OF le(1,2)] p le(3) by (auto intro: less_le_trans)
    have res: "(?j - b) mod g = (p - b) mod g" using jump_residue [OF le(1,2)] p by (simp add: g_def)
    have old: "if (p - b) mod g < i then ys ! ?j = xs ! p else ys ! p = xs ! p"
      using ys p by (simp add: cycles_done_def g_def)
    have mem: "x \<in> ?q ` {..<?L} \<longleftrightarrow> (x - b) mod g = i" if "b \<le> x" "x < o'" for x
      using that unfolding facts(5) by simp
    consider "(p - b) mod g = i" | "(p - b) mod g < i" | "i < (p - b) mod g" by linarith
    then show "if (p - b) mod g < Suc i then zs ! ?j = xs ! p else zs ! p = xs ! p"
    proof cases
      case 1
      then have "zs ! ?j = ys ! p" using hit mem p by blast
      then show ?thesis using 1 old by simp
    next
      case 2
      then have "zs ! ?j = ys ! ?j" using miss [OF j(1)] mem [OF j(2,3)] res by simp
      then show ?thesis using 2 old by simp
    next
      case 3
      then have "zs ! p = ys ! p" using miss [of p] mem [of p] p le(3) by simp
      then show ?thesis using 3 old by simp
    qed
  next
    fix p assume p: "p < length xs" "p < b \<or> o' \<le> p"
    then have "p \<notin> ?q ` {..<?L}" unfolding facts(5) by auto
    then have "zs ! p = ys ! p" by (rule miss [OF p(1)])
    also have "\<dots> = xs ! p" using ys p unfolding cycles_done_def by blast
    finally show "zs ! p = xs ! p" .
  qed
  then show ?thesis using z(1) by auto
qed

lemma all_cycles:
  fixes b e o' :: nat
  assumes le: "b < e" "e < o'" "o' \<le> length xs"
  shows "i + n = gcd (e - b) (o' - e) \<Longrightarrow> cycles_done b e o' i xs ys \<Longrightarrow>
    \<exists>zs. permute_cycles n i ((o' - b) div gcd (e - b) (o' - e)) e (e - b) (o' - e) ys = Some zs \<and>
      cycles_done b e o' (gcd (e - b) (o' - e)) xs zs"
proof (induction n arbitrary: i ys)
  case (Suc n)
  obtain zs where "permute_cycle ((o' - b) div gcd (e - b) (o' - e)) (e + i) (e + i) e (e - b) (o' - e) ys = Some zs"
      "cycles_done b e o' (Suc i) xs zs"
    using one_cycle [OF le _ Suc.prems(2)] Suc.prems(1) by auto
  then show ?case using Suc.IH [of "Suc i" zs] Suc.prems(1) by simp
qed simp

lemma permute_blocks:
  assumes le: "b < e" "e < o'" "o' \<le> length xs"
  shows "permute_args b e o' xs = Some (take b xs @ slice e (o' - e) xs @ slice b (e - b) xs @ drop o' xs)"
proof -
  let ?g = "gcd (e - b) (o' - e)"
  have g: "c_gcd (e - b) (o' - e) = ?g" using le by (simp add: c_gcd_eq)
  obtain zs where z: "permute_cycles ?g 0 ((o' - b) div ?g) e (e - b) (o' - e) xs = Some zs" "cycles_done b e o' ?g xs zs"
    using all_cycles [OF le, of 0 ?g xs] by (auto simp: cycles_done_def)
  have mod: "(p - b) mod ?g < ?g" for p using le by simp
  have moved: "zs ! jump e (e - b) (o' - e) p = xs ! p" if "b \<le> p" "p < o'" for p
    using z(2) that mod [of p] by (simp add: cycles_done_def)
  have "zs = take b xs @ slice e (o' - e) xs @ slice b (e - b) xs @ drop o' xs"
  proof (rule nth_equalityI)
    show len: "length zs = length (take b xs @ slice e (o' - e) xs @ slice b (e - b) xs @ drop o' xs)"
      using z(2) le by (simp add: cycles_done_def)
    fix p assume "p < length zs"
    then have p: "p < length xs" using z(2) by (simp add: cycles_done_def)
    consider "p < b" | "b \<le> p" "p < b + (o' - e)" | "b + (o' - e) \<le> p" "p < o'" | "o' \<le> p" by linarith
    then show "zs ! p = (take b xs @ slice e (o' - e) xs @ slice b (e - b) xs @ drop o' xs) ! p"
    proof cases
      case 1
      then show ?thesis using z(2) p le by (simp add: cycles_done_def nth_append)
    next
      case 2
      moreover from this have "e \<le> p + (e - b)" using le by linarith
      ultimately have "jump e (e - b) (o' - e) (p + (e - b)) = p" using le by (simp only: jump_def if_True)
      then have "zs ! p = xs ! (p + (e - b))" using moved [of "p + (e - b)"] 2 le by simp
      moreover have "p - b < o' - e" "e + (p - b) = p + (e - b)" using 2 le by linarith+
      ultimately show ?thesis using 2 le p by (simp add: nth_append slice_def)
    next
      case 3
      moreover from this have "\<not> e \<le> p - (o' - e)" using le by linarith
      ultimately have "jump e (e - b) (o' - e) (p - (o' - e)) = p" using le by (simp add: jump_def)
      then have "zs ! p = xs ! (p - (o' - e))" using moved [of "p - (o' - e)"] 3 le by simp
      moreover have "\<not> p < b" "\<not> p - b < o' - e" "p - b - (o' - e) < e - b" "b + (p - b - (o' - e)) = p - (o' - e)"
        using 3 le by linarith+
      ultimately show ?thesis using le p by (simp add: nth_append slice_def del: diff_diff_left)
    next
      case 4
      then have "\<not> p < b" "\<not> p - b < o' - e" "\<not> p - b - (o' - e) < e - b" "o' + (p - b - (o' - e) - (e - b)) = p"
        using le by linarith+
      then show ?thesis using z(2) p le 4 by (simp add: cycles_done_def nth_append slice_def del: diff_diff_left)
    qed
  qed
  then show ?thesis using z(1) le g by (simp add: permute_args_def Let_def)
qed

text \<open>C7: For any two non-empty adjacent blocks of the argument vector, the cycle-by-cycle permutation of
  getopt returns the vector in which the two blocks have changed places, each in its old order, and
  everything outside them is where it was; it never touches an index outside the two blocks.\<close>

theorem permute_args_exchanges:
  assumes "b < e" and "e < o'" and "o' \<le> length xs"
  shows "permute_args b e o' xs = Some (take b xs @ slice e (o' - e) xs @ slice b (e - b) xs @ drop o' xs)"
  using permute_blocks [OF assms] .

theorem permute_args_exchanges_witness:
  "permute_args 1 3 4 [''barco'', ''x'', ''y'', ''-v'', ''z''] = Some [''barco'', ''-v'', ''x'', ''y'', ''z'']"
  using permute_args_exchanges [of 1 3 4 "[''barco'', ''x'', ''y'', ''-v'', ''z'']"] by (simp add: slice_def)

end
