(* ===== verification/Getopt_Safety.thy ===== *)
theory Getopt_Safety
  imports Permute_Args
begin

text \<open>
  The invariant of the scanning state between two calls of \<open>getopt_long\<close>, and what a call does: it stays
  inside the argument vector, keeps its elements, returns a result of one of the known kinds, and consumes
  characters unless the option is malformed.
\<close>

section \<open>The invariant\<close>

definition is_opt :: "string \<Rightarrow> bool" where
  "is_opt a \<longleftrightarrow> c_hd a = CHR ''-'' \<and> tl a \<noteq> [] \<and> tl a \<noteq> ''-''"

text \<open>An option of several letters that ends in a dash: \<open>getopt_long\<close> takes the dash for a long option
  without a name and does not move on.\<close>

definition malformed :: "string \<Rightarrow> bool" where
  "malformed a \<longleftrightarrow> is_opt a \<and> a ! 1 \<noteq> CHR ''-'' \<and> last a = CHR ''-''"

abbreviation cur_arg :: "getopt \<Rightarrow> string" where
  "cur_arg s \<equiv> nargv s ! optind s"

definition nonopt_ok :: "getopt \<Rightarrow> bool" where
  "nonopt_ok s \<longleftrightarrow> (\<forall>b. nonopt_start s = Some b \<longrightarrow> 1 \<le> b) \<and> (case nonopt_end s of
       None \<Rightarrow> (\<forall>b. nonopt_start s = Some b \<longrightarrow> b < optind s)
     | Some e \<Rightarrow> (\<exists>b. nonopt_start s = Some b \<and> b < e) \<and>
         (e < optind s \<or> e = optind s \<and> optind s < length (nargv s) \<and> is_opt (cur_arg s)))"

lemma nonopt_ok_updates [simp]:
  "nonopt_ok (s\<lparr>optreset := x1\<rparr>) = nonopt_ok s" "nonopt_ok (s\<lparr>place := x2\<rparr>) = nonopt_ok s"
  "nonopt_ok (s\<lparr>place_moved := x3\<rparr>) = nonopt_ok s" "nonopt_ok (s\<lparr>optarg := x4\<rparr>) = nonopt_ok s"
  "nonopt_ok (s\<lparr>optopt := x5\<rparr>) = nonopt_ok s" "nonopt_ok (s\<lparr>warnings := x6\<rparr>) = nonopt_ok s"
  "nonopt_ok (s\<lparr>dash_prefix := x7\<rparr>) = nonopt_ok s" "nonopt_ok (s\<lparr>getoptval := x8\<rparr>) = nonopt_ok s"
  by (simp_all add: nonopt_ok_def split: option.splits)

text \<open>The scanning pointer is inside an option, after at least \<open>m\<close> of its characters.\<close>

definition inside :: "nat \<Rightarrow> getopt \<Rightarrow> bool" where
  "inside m s \<longleftrightarrow> optind s < length (nargv s) \<and> place_moved s \<and> is_opt (cur_arg s) \<and>
     (\<exists>k \<ge> m. place s = drop k (cur_arg s) \<and> (2 \<le> k \<longrightarrow> cur_arg s ! 1 \<noteq> CHR ''-''))"

lemma inside_mono: "inside m s \<Longrightarrow> n \<le> m \<Longrightarrow> inside n s"
  by (auto simp: inside_def intro: order_trans)

definition bounds_ok :: "nat \<Rightarrow> getopt \<Rightarrow> bool" where
  "bounds_ok argc s \<longleftrightarrow> length (nargv s) = argc \<and> 1 \<le> optind s \<and> optind s \<le> argc \<and> nonopt_ok s"

definition getopt_ok :: "nat \<Rightarrow> getopt \<Rightarrow> bool" where
  "getopt_ok argc s \<longleftrightarrow> bounds_ok argc s \<and> \<not> optreset s \<and> (place s \<noteq> [] \<longrightarrow> inside 2 s)"

text \<open>The characters left, each argument counting one more than its length.\<close>

definition weight :: "string list \<Rightarrow> nat" where
  "weight xs = sum_list (map (\<lambda>x. length x + 1) xs)"

definition left :: "getopt \<Rightarrow> nat" where
  "left s = (if optreset s \<or> place s = [] then weight (drop (optind s) (nargv s))
     else length (place s) + 1 + weight (drop (optind s + 1) (nargv s)))"

lemma weight_drop: "i < length xs \<Longrightarrow> weight (drop i xs) = length (xs ! i) + 1 + weight (drop (Suc i) xs)"
  by (simp add: weight_def Cons_nth_drop_Suc [symmetric])

lemma weight_mono: "i \<le> j \<Longrightarrow> weight (drop j xs) \<le> weight (drop i xs)"
proof (induction rule: dec_induct)
  case (step n)
  have "weight (drop (Suc n) xs) \<le> weight (drop n xs)"
    using weight_drop [of n xs] by (cases "n < length xs") simp_all
  then show ?case using step.IH by (rule order_trans)
qed simp

section \<open>The permutation of a block\<close>

lemma slice_join: "b \<le> e \<Longrightarrow> e \<le> n \<Longrightarrow> take b xs @ slice b (e - b) xs @ slice e (n - e) xs @ drop n xs = xs"
proof -
  assume le: "b \<le> e" "e \<le> n"
  have "slice e (n - e) xs @ drop n xs = drop e xs"
    using append_take_drop_id [of "n - e" "drop e xs"] le by (simp add: slice_def)
  moreover have "slice b (e - b) xs @ drop e xs = drop b xs"
    using append_take_drop_id [of "e - b" "drop b xs"] le by (simp add: slice_def)
  ultimately show ?thesis by simp
qed

lemma permute_block_ok:
  assumes "nonopt_start s = Some b" and "nonopt_end s = Some e" and "b < e" and "e < optind s" and "optind s \<le> length (nargv s)"
  shows "\<exists>xs. permute_block s = Some (s\<lparr>nargv := xs\<rparr>) \<and> length xs = length (nargv s) \<and> mset xs = mset (nargv s) \<and>
    drop (optind s) xs = drop (optind s) (nargv s)"
proof -
  let ?xs = "take b (nargv s) @ slice e (optind s - e) (nargv s) @ slice b (e - b) (nargv s) @ drop (optind s) (nargv s)"
  have p: "permute_block s = Some (s\<lparr>nargv := ?xs\<rparr>)"
    using permute_blocks [OF assms(3-5)] assms(1,2) by (simp add: permute_block_def)
  have split: "nargv s = take b (nargv s) @ slice b (e - b) (nargv s) @ slice e (optind s - e) (nargv s) @ drop (optind s) (nargv s)"
    by (rule slice_join [symmetric]) (use assms in simp_all)
  have "mset ?xs = mset (nargv s)"
    by (subst (2) split) (simp del: append_take_drop_id)
  moreover from this have "length ?xs = length (nargv s)" by (metis size_mset)
  moreover have "drop (optind s) ?xs = drop (optind s) (nargv s)"
    using assms(3-5) by simp
  ultimately show ?thesis using p by blast
qed

text \<open>What the scanning of the vector keeps.\<close>

definition frame :: "getopt \<Rightarrow> getopt \<Rightarrow> bool" where
  "frame s s' \<longleftrightarrow> mset (nargv s') = mset (nargv s) \<and> optarg s' = optarg s"

lemma frame_refl [simp]: "frame s s" by (simp add: frame_def)

lemma frame_trans: "frame s s' \<Longrightarrow> frame s' s'' \<Longrightarrow> frame s s''" by (simp add: frame_def)

lemma scan_end_ok:
  assumes "length (nargv s) = argc" and "1 \<le> optind s" and "optind s = argc" and "nonopt_ok s" and "\<not> optreset s" and "place s = []"
  shows "\<exists>s'. scan_end s = Some s' \<and> getopt_ok argc s' \<and> frame s s'"
proof (cases "nonopt_end s")
  case None
  then show ?thesis
    using assms by (auto simp: scan_end_def getopt_ok_def bounds_ok_def nonopt_ok_def frame_def split: option.splits)
next
  case (Some e)
  then obtain b where b: "nonopt_start s = Some b" "b < e" "e < optind s" using assms by (auto simp: nonopt_ok_def)
  obtain xs where xs: "permute_block s = Some (s\<lparr>nargv := xs\<rparr>)" "length xs = length (nargv s)" "mset xs = mset (nargv s)"
    using permute_block_ok [OF b(1) Some b(2,3)] assms by auto
  show ?thesis
    using Some b xs assms by (auto simp: scan_end_def nonopt_length_def getopt_ok_def bounds_ok_def nonopt_ok_def frame_def)
qed

lemma scan_nonopt_ok:
  assumes "length (nargv s) = argc" and "1 \<le> optind s" and "optind s < argc" and "nonopt_ok s" and "\<not> is_opt (cur_arg s)"
  shows "\<exists>s'. scan_nonopt s = Some s' \<and> bounds_ok argc s' \<and> frame s s' \<and> place s' = place s \<and> optreset s' = optreset s \<and>
    optind s' = optind s + 1 \<and> drop (optind s) (nargv s') = drop (optind s) (nargv s)"
proof (cases "nonopt_end s")
  case None
  then show ?thesis
    using assms by (auto simp: scan_nonopt_def bounds_ok_def nonopt_ok_def frame_def split: option.splits)
next
  case (Some e)
  then obtain b where b: "nonopt_start s = Some b" "b < e" "e < optind s" "1 \<le> b" using assms by (auto simp: nonopt_ok_def)
  obtain xs where xs: "permute_block s = Some (s\<lparr>nargv := xs\<rparr>)" "length xs = length (nargv s)" "mset xs = mset (nargv s)"
      "drop (optind s) xs = drop (optind s) (nargv s)"
    using permute_block_ok [OF b(1) Some b(2,3)] assms by auto
  show ?thesis
    using Some b xs assms by (auto simp: scan_nonopt_def nonopt_length_def bounds_ok_def nonopt_ok_def frame_def)
qed

lemma scan_dashes_ok:
  assumes "length (nargv s) = argc" and "1 \<le> optind s" and "optind s < argc" and "\<not> optreset s"
    and "\<forall>b. nonopt_start s = Some b \<longrightarrow> 1 \<le> b" and "\<forall>e. nonopt_end s = Some e \<longrightarrow> e \<le> optind s \<and> (\<exists>b. nonopt_start s = Some b \<and> b < e)"
  shows "\<exists>s'. scan_dashes s = Some s' \<and> getopt_ok argc s' \<and> frame s s'"
proof (cases "nonopt_end s")
  case None
  then show ?thesis
    using assms by (auto simp: scan_dashes_def getopt_ok_def bounds_ok_def nonopt_ok_def frame_def)
next
  case (Some e)
  then obtain b where b: "nonopt_start s = Some b" "b < e" "e \<le> optind s" "1 \<le> b" using assms by auto
  let ?s = "s\<lparr>optind := optind s + 1, place := []\<rparr>"
  obtain xs where xs: "permute_block ?s = Some (?s\<lparr>nargv := xs\<rparr>)" "length xs = length (nargv s)" "mset xs = mset (nargv s)"
    using permute_block_ok [of ?s b e] b Some assms by auto
  show ?thesis
    using Some b xs assms by (auto simp: scan_dashes_def nonopt_length_def getopt_ok_def bounds_ok_def nonopt_ok_def frame_def)
qed

section \<open>The scan\<close>

text \<open>At the start of a call, and after the scan has found an option.\<close>

definition scan_ready :: "nat \<Rightarrow> getopt \<Rightarrow> bool" where
  "scan_ready argc s \<longleftrightarrow> bounds_ok argc s \<and> (\<not> optreset s \<and> place s \<noteq> [] \<longrightarrow> inside 2 s)"

definition at_option :: "nat \<Rightarrow> getopt \<Rightarrow> bool" where
  "at_option argc s \<longleftrightarrow> bounds_ok argc s \<and> \<not> optreset s \<and> place s \<noteq> [] \<and> inside 1 s"

definition scanned :: "nat \<Rightarrow> getopt \<Rightarrow> int option \<times> getopt \<Rightarrow> bool" where
  "scanned argc s x \<longleftrightarrow> (case x of (r, s') \<Rightarrow> frame s s' \<and>
     (case r of None \<Rightarrow> at_option argc s' \<and> left s' \<le> left s | Some r \<Rightarrow> r = -1 \<and> getopt_ok argc s'))"

lemma scanned_trans: "frame s s1 \<Longrightarrow> left s1 \<le> left s \<Longrightarrow> scanned argc s1 x \<Longrightarrow> scanned argc s x"
  by (auto simp: scanned_def frame_def split: option.splits)

lemma option_shape:
  assumes "c_hd a = CHR ''-''" and "tl a \<noteq> []" and "tl a \<noteq> ''-''"
  shows "is_opt a" "tl a = drop 1 a" "length (tl a) + 1 = length a"
  using assms by (cases a; simp add: is_opt_def)+

lemma getopt_scan_ok:
  "scan_ready argc s \<Longrightarrow> argc < rounds + optind s \<Longrightarrow> \<exists>x. getopt_scan rounds argc False permute s = Some x \<and> scanned argc s x"
proof (induction rounds argc "False" permute s rule: getopt_scan.induct)
  case (1 rounds argc permute s)
  have ready: "length (nargv s) = argc" "1 \<le> optind s" "optind s \<le> argc" "nonopt_ok s"
    using "1.prems" by (auto simp: scan_ready_def bounds_ok_def)
  show ?case
  proof (cases "\<not> optreset s \<and> place s \<noteq> []")
    case True
    then have "inside 2 s" using "1.prems" by (simp add: scan_ready_def)
    then have "inside 1 s" by (rule inside_mono) simp
    then show ?thesis
      using True "1.prems" by (subst getopt_scan.simps) (simp add: scanned_def at_option_def scan_ready_def)
  next
    case False
    let ?s = "s\<lparr>optreset := False\<rparr>"
    have left: "left s = weight (drop (optind s) (nargv s))" using False by (auto simp: left_def)
    show ?thesis
    proof (cases "argc \<le> optind s")
      case True
      obtain s' where "scan_end (?s\<lparr>place := []\<rparr>) = Some s'" "getopt_ok argc s'" "frame (?s\<lparr>place := []\<rparr>) s'"
        using scan_end_ok [of "?s\<lparr>place := []\<rparr>" argc] ready True by auto
      then show ?thesis
        using False True by (subst getopt_scan.simps) (auto simp: scanned_def frame_def)
    next
      case inr: False
      show ?thesis
      proof (cases "c_hd (cur_arg s) \<noteq> CHR ''-'' \<or> tl (cur_arg s) = []")
        case True
        then have no: "\<not> is_opt (cur_arg s)" by (auto simp: is_opt_def)
        let ?s0 = "?s\<lparr>place := []\<rparr>"
        have ok0: "nonopt_ok ?s0" using ready(4) by simp
        show ?thesis
        proof (cases permute)
          case False
          then show ?thesis
            using \<open>\<not> (\<not> optreset s \<and> place s \<noteq> [])\<close> inr ready True ok0
            by (subst getopt_scan.simps) (auto simp: scanned_def frame_def getopt_ok_def bounds_ok_def Let_def)
        next
          case perm: True
          obtain n where n: "rounds = Suc n" using "1.prems"(2) inr by (cases rounds) auto
          obtain s' where s': "scan_nonopt ?s0 = Some s'" "bounds_ok argc s'" "frame ?s0 s'" "place s' = []" "\<not> optreset s'"
              "optind s' = optind s + 1" "drop (optind s) (nargv s') = drop (optind s) (nargv s)"
            using scan_nonopt_ok [of ?s0 argc] ready inr no ok0 by auto
          have "scan_ready argc s'" using s' by (simp add: scan_ready_def)
          moreover have "argc < n + optind s'" using "1.prems"(2) s'(6) n by simp
          ultimately obtain x where x: "getopt_scan n argc False permute s' = Some x" "scanned argc s' x"
            using "1.hyps" [OF False refl _ _ refl _ refl _ _ n s'(1)] inr ready True perm by auto
          have "left s' = weight (drop (optind s + 1) (nargv s'))" using s' by (simp add: left_def)
          also have "\<dots> \<le> weight (drop (optind s) (nargv s'))" by (rule weight_mono) simp
          also have "\<dots> = left s" using s'(7) left by simp
          finally have "scanned argc s x"
            by (intro scanned_trans [OF _ _ x(2)]) (use s'(3) in \<open>auto simp: frame_def\<close>)
          then show ?thesis
            using False inr ready True perm n s'(1) x(1) by (subst getopt_scan.simps) (auto simp: Let_def simp del: split_paired_Ex)
        qed
      next
        case opt: False
        let ?s1 = "if nonopt_start s \<noteq> None \<and> nonopt_end s = None then ?s\<lparr>nonopt_end := Some (optind s)\<rparr> else ?s"
        have s1: "nargv ?s1 = nargv s" "optind ?s1 = optind s" "optreset ?s1 = False" "frame s ?s1"
          by (simp_all add: frame_def)
        have starts: "\<forall>b. nonopt_start ?s1 = Some b \<longrightarrow> 1 \<le> b"
          "\<forall>e. nonopt_end ?s1 = Some e \<longrightarrow> e \<le> optind s \<and> (\<exists>b. nonopt_start ?s1 = Some b \<and> b < e)"
          using ready(4) by (auto simp: nonopt_ok_def split: if_splits option.splits)
        show ?thesis
        proof (cases "tl (cur_arg s) = ''-''")
          case True
          obtain s' where "scan_dashes ?s1 = Some s'" "getopt_ok argc s'" "frame ?s1 s'"
            using scan_dashes_ok [of ?s1 argc] s1 starts ready inr by auto
          then show ?thesis
            using False inr ready opt True frame_trans [OF s1(4)]
            by (subst getopt_scan.simps) (auto simp: scanned_def Let_def)
        next
          case nodash: False
          let ?s2 = "?s1\<lparr>place := tl (cur_arg s), place_moved := True\<rparr>"
          have shape: "is_opt (cur_arg s)" "tl (cur_arg s) = drop 1 (cur_arg s)" "length (tl (cur_arg s)) + 1 = length (cur_arg s)"
            using option_shape [of "cur_arg s"] opt nodash by auto
          have "nonopt_ok ?s2"
            using ready(1,4) inr shape(1) by (auto simp: nonopt_ok_def split: option.splits)
          moreover have "inside 1 ?s2"
            using ready(1) inr shape s1 unfolding inside_def by (auto intro!: exI [of _ "1 :: nat"])
          moreover have "left ?s2 \<le> left s"
            using ready(1) inr shape(3) opt left weight_drop [of "optind s" "nargv s"] by (simp add: left_def)
          ultimately have "scanned argc s (None, ?s2)"
            using ready opt s1 by (auto simp: scanned_def at_option_def bounds_ok_def frame_def)
          then show ?thesis
            using False inr ready opt nodash by (subst getopt_scan.simps) (auto simp: Let_def split: if_splits)
        qed
      qed
    qed
  qed
qed

section \<open>Long options\<close>

definition arg_suffix :: "string list \<Rightarrow> string \<Rightarrow> bool" where
  "arg_suffix argv v \<longleftrightarrow> (\<exists>a \<in> set argv. \<exists>k. v = drop k a)"

definition optarg_ok :: "getopt \<Rightarrow> bool" where
  "optarg_ok s \<longleftrightarrow> (\<forall>v. optarg s = Some v \<longrightarrow> arg_suffix (nargv s) v)"

definition long_result :: "longopt list \<Rightarrow> getopt \<Rightarrow> bool" where
  "long_result longs s \<longleftrightarrow> (\<exists>opt \<in> set longs. getoptval s = lo_val opt \<and> (lo_has_arg opt = 1 \<longrightarrow> optarg s \<noteq> None))"

lemma long_match_index:
  "long_match longs rest i name short_too longonly m second = (Some k, exact, second') \<Longrightarrow>
    m = Some k \<or> (i \<le> k \<and> k < i + length rest)"
  by (induction longs rest i name short_too longonly m second rule: long_match.induct)
    (auto split: if_splits option.splits)

lemma after_equal_suffix: "after_equal s = Some v \<Longrightarrow> \<exists>k. v = drop k s"
proof -
  assume "after_equal s = Some v"
  then obtain c where "dropWhile (\<lambda>c. c \<noteq> CHR ''='') s = c # v" by (auto simp: after_equal_def split: list.splits)
  then have "s = (takeWhile (\<lambda>c. c \<noteq> CHR ''='') s @ [c]) @ v" by (metis append.assoc append_Cons append_Nil takeWhile_dropWhile_id)
  then show ?thesis by (metis append_eq_conv_conj)
qed

lemma arg_suffix_drop: "arg_suffix argv v \<Longrightarrow> arg_suffix argv (drop k v)"
  unfolding arg_suffix_def by (metis drop_drop)

lemma arg_suffix_nth: "i < length argv \<Longrightarrow> arg_suffix argv (argv ! i)"
  unfolding arg_suffix_def by (intro bexI [of _ "argv ! i"] exI [of _ 0]) simp_all

lemma warnx_fields [simp]:
  "nargv (warnx options msg s) = nargv s" "optind (warnx options msg s) = optind s" "optarg (warnx options msg s) = optarg s"
  "optreset (warnx options msg s) = optreset s" "place (warnx options msg s) = place s"
  "place_moved (warnx options msg s) = place_moved s" "nonopt_start (warnx options msg s) = nonopt_start s"
  "nonopt_end (warnx options msg s) = nonopt_end s" "getoptval (warnx options msg s) = getoptval s"
  "optopt (warnx options msg s) = optopt s"
  by (simp_all add: warnx_def)

text \<open>What handling a long option leaves.\<close>

definition long_done :: "nat \<Rightarrow> longopt list \<Rightarrow> getopt \<Rightarrow> int \<times> getopt \<Rightarrow> bool" where
  "long_done argc longs s x \<longleftrightarrow> (case x of (r, s') \<Rightarrow>
     (r = 0 \<and> long_result longs s' \<or> r = 63 \<or> r = 58) \<and>
     nargv s' = nargv s \<and> optind s < optind s' \<and> optind s' \<le> argc \<and> optarg_ok s' \<and>
     nonopt_start s' = nonopt_start s \<and> nonopt_end s' = nonopt_end s \<and> optreset s' = optreset s)"

lemma long_found_ok:
  assumes "length (nargv s) = argc" and "optind s \<le> argc" and "1 \<le> optind s" and "optarg s = None" and "arg_suffix (nargv s) cur"
    and "opt \<in> set longs" and "lo_flag opt" and "c_hd options = CHR '':''"
  shows "\<exists>x. long_found options cur opt s = Some x \<and> long_done argc longs (s\<lparr>optind := optind s - 1\<rparr>) x"
proof -
  have eq: "arg_suffix (nargv s) v" if "after_equal cur = Some v" for v
    using after_equal_suffix [OF that] arg_suffix_drop [OF assms(5)] by auto
  have nth: "arg_suffix (nargv s) (nargv s ! optind s)" if "optind s < length (nargv s)" using that by (rule arg_suffix_nth)
  show ?thesis
    using assms eq nth
    by (auto simp: long_found_def long_argument_def long_done_def long_result_def optarg_ok_def arg_at_def BADCH_def BADARG_def Let_def
      split: option.splits)
qed

lemma parse_long_ok:
  assumes "length (nargv s) = argc" and "optind s < argc" and "optarg s = None" and "arg_suffix (nargv s) (place s)"
    and "\<forall>opt \<in> set longs. lo_flag opt" and "c_hd options = CHR '':''"
  shows "\<exists>x. parse_long_options options longs False False s = Some x \<and> long_done argc longs s x"
proof -
  obtain m exact second where m: "long_match longs longs 0 (before_equal (place s)) False False None False = (m, exact, second)"
    by (cases "long_match longs longs 0 (before_equal (place s)) False False None False") auto
  show ?thesis
  proof (cases "\<not> exact \<and> second \<or> m = None")
    case True
    then show ?thesis
      using assms m by (auto simp: parse_long_options_def long_done_def optarg_ok_def BADCH_def Let_def)
  next
    case False
    then obtain i where i: "m = Some i" by auto
    then have "i < length longs" using long_match_index [of longs longs 0] m by fastforce
    then have opt: "longs ! i \<in> set longs" by simp
    then obtain x where "long_found options (place s) (longs ! i) (s\<lparr>optind := optind s + 1\<rparr>) = Some x" "long_done argc longs s x"
      using long_found_ok [of "s\<lparr>optind := optind s + 1\<rparr>" argc "place s" "longs ! i" longs options] assms by auto
    then show ?thesis using False m i by (auto simp: parse_long_options_def Let_def simp del: split_paired_Ex)
  qed
qed

section \<open>One call\<close>

definition takes_arg :: "string \<Rightarrow> char \<Rightarrow> bool" where
  "takes_arg options c \<longleftrightarrow> (let r = tl (dropWhile (\<lambda>x. x \<noteq> c) options) in c_hd r = CHR '':'' \<and> c_hd (tl r) \<noteq> CHR '':'')"

text \<open>The kinds of result: the end, an error, a long option, a short option.\<close>

definition result_ok :: "string \<Rightarrow> longopt list \<Rightarrow> int \<Rightarrow> getopt \<Rightarrow> bool" where
  "result_ok options longs r s \<longleftrightarrow> r = -1 \<or> r = 63 \<or> r = 58 \<or> r = 0 \<and> long_result longs s \<or>
     (\<exists>c \<in> set options. c \<noteq> CHR '':'' \<and> r = char_code c \<and> (takes_arg options c \<longrightarrow> optarg s \<noteq> None))"

definition called :: "nat \<Rightarrow> string \<Rightarrow> longopt list \<Rightarrow> getopt \<Rightarrow> int \<times> getopt \<Rightarrow> bool" where
  "called argc options longs s x \<longleftrightarrow> (case x of (r, s') \<Rightarrow>
     getopt_ok argc s' \<and> mset (nargv s') = mset (nargv s) \<and> optarg_ok s' \<and> result_ok options longs r s' \<and>
     (r = -1 \<or> left s' < left s \<or> (\<exists>a \<in> set (nargv s). malformed a)))"

lemma at_option_left: "at_option argc s \<Longrightarrow> left s = length (place s) + 1 + weight (drop (optind s + 1) (nargv s))"
  by (simp add: left_def at_option_def)

lemma nonopt_advance:
  "nonopt_ok s \<Longrightarrow> optind s < optind s' \<Longrightarrow> nonopt_start s' = nonopt_start s \<Longrightarrow> nonopt_end s' = nonopt_end s \<Longrightarrow> nonopt_ok s'"
  by (auto simp: nonopt_ok_def split: option.splits)

lemma long_called:
  assumes at: "at_option argc s" and x: "long_done argc longs s' (r, t)" and s': "nargv s' = nargv s" "optind s' = optind s"
    "nonopt_start s' = nonopt_start s" "nonopt_end s' = nonopt_end s" "optreset s' = optreset s"
  shows "called argc options longs s (r, t\<lparr>place := []\<rparr>)"
proof -
  have t: "nargv t = nargv s" "optind s < optind t" "optind t \<le> argc" "optarg_ok t" "nonopt_start t = nonopt_start s"
      "nonopt_end t = nonopt_end s" "\<not> optreset t" "r = 0 \<and> long_result longs t \<or> r = 63 \<or> r = 58"
    using x s' at by (auto simp: long_done_def at_option_def)
  have "nonopt_ok t" using nonopt_advance [of s t] at t by (simp add: at_option_def bounds_ok_def)
  then have "getopt_ok argc (t\<lparr>place := []\<rparr>)"
    using at t by (simp add: getopt_ok_def bounds_ok_def at_option_def)
  moreover have "left (t\<lparr>place := []\<rparr>) < left s"
    using weight_mono [of "optind s + 1" "optind t" "nargv s"] t at_option_left [OF at] by (simp add: left_def)
  ultimately show ?thesis
    using t by (auto simp: called_def result_ok_def optarg_ok_def long_result_def)
qed

lemma getopt_longs_ok:
  assumes at: "at_option argc s" and "optarg s = None" and "\<forall>opt \<in> set longs. lo_flag opt" and "c_hd options = CHR '':''"
  shows "\<exists>r s'. getopt_longs options (Some longs) False s = Some (r, s') \<and>
    (case r of None \<Rightarrow> s' = s \<and> c_hd (place s) \<noteq> CHR ''-'' | Some r \<Rightarrow> called argc options longs s (r, s'))"
proof (cases "c_hd (place s) = CHR ''-''")
  case False
  then show ?thesis by (simp add: getopt_longs_def)
next
  case True
  obtain k where k: "1 \<le> k" "place s = drop k (cur_arg s)" "2 \<le> k \<longrightarrow> cur_arg s ! 1 \<noteq> CHR ''-''"
    and in': "optind s < length (nargv s)" "place_moved s" "is_opt (cur_arg s)"
    using at by (auto simp: at_option_def inside_def)
  obtain q where q: "place s = CHR ''-'' # q" using True at by (cases "place s") (auto simp: c_hd_def at_option_def)
  show ?thesis
  proof (cases q)
    case Nil
    have mal: "malformed (cur_arg s)"
    proof (cases "k = 1")
      case True
      then have "tl (cur_arg s) = ''-''" using k(2) q Nil by (simp add: drop_Suc)
      then show ?thesis using in'(3) by (simp add: is_opt_def)
    next
      case False
      have d: "drop k (cur_arg s) = ''-''" using k(2) q Nil by simp
      then have "k < length (cur_arg s)" by (metis drop_eq_Nil list.distinct(1) not_le)
      then have "last (cur_arg s) = CHR ''-''" using last_drop [of k "cur_arg s"] d by simp
      then show ?thesis using k False in'(3) by (simp add: malformed_def)
    qed
    let ?t = "s\<lparr>dash_prefix := D_PREFIX, place := []\<rparr>"
    have "getopt_ok argc ?t" using at by (simp add: getopt_ok_def at_option_def bounds_ok_def)
    moreover have "\<exists>a \<in> set (nargv s). malformed a" using mal in'(1) by auto
    ultimately have "called argc options longs s (58, ?t)"
      using assms(2) by (simp add: called_def result_ok_def optarg_ok_def)
    then show ?thesis using in' q Nil assms(4) by (simp add: getopt_longs_def c_hd_def BADARG_def Let_def)
  next
    case (Cons d q')
    let ?s = "s\<lparr>dash_prefix := D_PREFIX, place := q, dash_prefix := DD_PREFIX\<rparr>"
    have "q = drop (Suc k) (cur_arg s)" using k(2) q by (metis drop_Suc list.sel(3) tl_drop)
    then have "arg_suffix (nargv s) q" using in'(1) nth_mem unfolding arg_suffix_def by blast
    then obtain r t where x: "parse_long_options options longs False False ?s = Some (r, t)" "long_done argc longs ?s (r, t)"
      using parse_long_ok [of ?s argc longs options] at assms in' by (auto simp: at_option_def bounds_ok_def)
    have "called argc options longs s (r, t\<lparr>place := []\<rparr>)"
      by (rule long_called [OF at x(2)]) simp_all
    moreover have "r \<noteq> -1" using x(2) by (auto simp: long_done_def)
    ultimately show ?thesis
      using in' q Cons x(1) by (simp add: getopt_longs_def c_hd_def Let_def)
  qed
qed

lemma inside_step:
  assumes "inside 1 s" and "place s = c # p" and "c \<noteq> CHR ''-''"
  shows "\<exists>k \<ge> 2. p = drop k (cur_arg s) \<and> cur_arg s ! 1 \<noteq> CHR ''-''"
proof -
  obtain k where k: "1 \<le> k" "place s = drop k (cur_arg s)" "2 \<le> k \<longrightarrow> cur_arg s ! 1 \<noteq> CHR ''-''"
    using assms(1) by (auto simp: inside_def)
  have "cur_arg s ! k = c"
    using k(2) assms(2) by (metis drop_eq_Nil hd_drop_conv_nth list.distinct(1) list.sel(1) not_le)
  then have "cur_arg s ! 1 \<noteq> CHR ''-''" using k assms(3) by (cases "k = 1") auto
  moreover have "p = drop (Suc k) (cur_arg s)" using k(2) assms(2) by (metis drop_Suc list.sel(3) tl_drop)
  ultimately show ?thesis using k(1) by (intro exI [of _ "Suc k"]) simp
qed

lemma next_word_ok:
  assumes "length (nargv s) = argc" and "optind s < argc"
  shows "next_word argc options c s =
    (if argc \<le> optind s + 1 then Some (False, warnx options (recargchar c) (s\<lparr>optind := optind s + 1, place := [], optopt := char_code c\<rparr>))
     else Some (True, s\<lparr>optind := optind s + 1\<rparr>))"
  using assms by (simp add: next_word_def Let_def)

text \<open>A state after a short option: either the rest of the word is left, or the next argument is up.\<close>

lemma short_called:
  assumes at: "at_option argc s" and pl: "place s = c # p" "c \<noteq> CHR ''-''"
    and t: "nargv t = nargv s" "nonopt_start t = nonopt_start s" "nonopt_end t = nonopt_end s" "\<not> optreset t" "optarg_ok t"
      "result_ok options longs r t"
    and cont: "place t = p \<and> p \<noteq> [] \<and> optind t = optind s \<and> place_moved t \<or> place t = [] \<and> optind s < optind t \<and> optind t \<le> argc"
  shows "called argc options longs s (r, t)"
proof -
  have ins: "inside 1 s" using at by (simp add: at_option_def)
  have b: "bounds_ok argc s" using at by (simp add: at_option_def)
  have "nonopt_ok t"
    using cont b t nonopt_advance [of s t] by (auto simp: bounds_ok_def nonopt_ok_def split: option.splits)
  then have bt: "bounds_ok argc t" using b t cont by (auto simp: bounds_ok_def)
  have "place t \<noteq> [] \<longrightarrow> inside 2 t"
    using inside_step [OF ins pl] ins cont t(1) by (auto simp: inside_def)
  moreover have "left t < left s"
    using cont t(1,4) at_option_left [OF at] pl(1) weight_mono [of "optind s + 1" "optind t" "nargv s"]
    by (auto simp: left_def)
  ultimately show ?thesis using bt t by (simp add: called_def getopt_ok_def)
qed

lemma getopt_short_ok:
  assumes at: "at_option argc s" and "optarg s = None" and "\<forall>opt \<in> set longs. lo_flag opt" and "c_hd options = CHR '':''"
    and nd: "c_hd (place s) \<noteq> CHR ''-''"
  shows "\<exists>x. getopt_short posix argc options (Some longs) False s = Some x \<and> called argc options longs s x"
proof -
  obtain c p where pl: "place s = c # p" using at by (cases "place s") (auto simp: at_option_def)
  have c: "c \<noteq> CHR ''-''" using nd pl by (simp add: c_hd_def)
  have ins: "optind s < length (nargv s)" "place_moved s" using at by (auto simp: at_option_def inside_def)
  have b: "length (nargv s) = argc" "\<not> optreset s" using at by (auto simp: at_option_def bounds_ok_def)
  have p: "arg_suffix (nargv s) p"
    using inside_step [of s c p] at pl c ins(1) nth_mem unfolding at_option_def arg_suffix_def by blast
  note call = short_called [OF at pl c]
  let ?s = "s\<lparr>place := p, place_moved := True\<rparr>" and ?oli = "dropWhile (\<lambda>x. x \<noteq> c) options"
  have mem: "c \<in> set options" if "?oli \<noteq> []" using that by (auto simp: dropWhile_eq_Nil_conv)
  consider (unknown) "c = CHR '':'' \<or> ?oli = []"
    | (wide) "c \<noteq> CHR '':''" "?oli \<noteq> []" "c = CHR ''W'' \<and> c_hd (tl ?oli) = CHR '';''"
    | (plain) "c \<noteq> CHR '':''" "?oli \<noteq> []" "\<not> (c = CHR ''W'' \<and> c_hd (tl ?oli) = CHR '';'')" "c_hd (tl ?oli) \<noteq> CHR '':''"
    | (valued) "c \<noteq> CHR '':''" "?oli \<noteq> []" "\<not> (c = CHR ''W'' \<and> c_hd (tl ?oli) = CHR '';'')" "c_hd (tl ?oli) = CHR '':''"
    by blast
  then show ?thesis
  proof cases
    case unknown
    let ?t = "warnx options (badoptchar posix c) (if p = [] then ?s\<lparr>optind := optind s + 1\<rparr> else ?s)\<lparr>optopt := char_code c\<rparr>"
    have "called argc options longs s (63, ?t)"
      by (rule call) (use assms(2) ins b in \<open>auto simp: optarg_ok_def result_ok_def\<close>)
    then show ?thesis using unknown pl c by (cases "p = []") (simp_all add: getopt_short_def Let_def BADCH_def)
  next
    case plain
    let ?t = "if p = [] then ?s\<lparr>optind := optind s + 1\<rparr> else ?s"
    have "result_ok options longs (char_code c) ?t"
      using plain mem by (auto simp: result_ok_def takes_arg_def Let_def)
    then have "called argc options longs s (char_code c, ?t)"
      by (intro call) (use assms(2) ins b in \<open>auto simp: optarg_ok_def\<close>)
    moreover have "getopt_short posix argc options (Some longs) False s = Some (char_code c, ?t)"
      using plain pl c by (cases "c = CHR ''W''"; cases "p = []") (auto simp: getopt_short_def Let_def)
    ultimately show ?thesis by blast
  next
    case valued
    let ?s' = "?s\<lparr>optarg := None\<rparr>"
    show ?thesis
    proof (cases "p = []")
      case False
      let ?t = "?s'\<lparr>optarg := Some p, place := [], optind := optind s + 1\<rparr>"
      have "called argc options longs s (char_code c, ?t)"
        by (rule call) (use valued mem ins b p in \<open>auto simp: optarg_ok_def result_ok_def\<close>)
      then show ?thesis using False valued pl c by (auto simp: getopt_short_def Let_def)
    next
      case True
      show ?thesis
      proof (cases "c_hd (tl (tl ?oli)) = CHR '':''")
        case opt: True
        let ?t = "?s'\<lparr>place := [], optind := optind s + 1\<rparr>"
        have "called argc options longs s (char_code c, ?t)"
          by (rule call) (use valued mem ins b opt in \<open>auto simp: optarg_ok_def result_ok_def takes_arg_def Let_def\<close>)
        then show ?thesis using True opt valued pl c by (auto simp: getopt_short_def Let_def)
      next
        case req: False
        show ?thesis
        proof (cases "argc \<le> optind s + 1")
          case last: True
          let ?t = "warnx options (recargchar c) (?s'\<lparr>optind := optind s + 1, place := [], optopt := char_code c\<rparr>)"
          have "called argc options longs s (58, ?t)"
            by (rule call) (use ins b in \<open>auto simp: optarg_ok_def result_ok_def\<close>)
          then show ?thesis
            using True req last valued pl c ins b assms(4) next_word_ok [of ?s' argc options c]
            by (auto simp: getopt_short_def Let_def BADARG_def)
        next
          case more: False
          let ?t = "?s'\<lparr>optarg := Some (nargv s ! (optind s + 1)), place := [], optind := optind s + 1 + 1\<rparr>"
          have "called argc options longs s (char_code c, ?t)"
            by (rule call) (use valued mem ins b more arg_suffix_nth [of "optind s + 1" "nargv s"] in \<open>auto simp: optarg_ok_def result_ok_def\<close>)
          then show ?thesis
            using True req more valued pl c ins b next_word_ok [of ?s' argc options c]
            by (auto simp: getopt_short_def Let_def)
        qed
      qed
    qed
  next
    case wide
    show ?thesis
    proof (cases "p = [] \<and> argc \<le> optind s + 1")
      case True
      let ?t = "warnx options (recargchar c) (?s\<lparr>optind := optind s + 1, place := [], optopt := char_code c\<rparr>)"
      have "called argc options longs s (58, ?t)"
        by (rule call) (use assms(2) ins b True in \<open>auto simp: optarg_ok_def result_ok_def\<close>)
      then show ?thesis
        using True wide pl ins b assms(4) next_word_ok [of ?s argc options c]
        by (auto simp: getopt_short_def Let_def BADARG_def)
    next
      case False
      have step: "\<exists>r t. parse_long_options options longs False False w = Some (r, t) \<and>
          called argc options longs s (r, t\<lparr>place := []\<rparr>)"
        if w: "nargv w = nargv s" "optind s \<le> optind w" "optind w < argc" "optarg w = None" "arg_suffix (nargv s) (place w)"
          "nonopt_start w = nonopt_start s" "nonopt_end w = nonopt_end s" "\<not> optreset w" for w
      proof -
        obtain r t where x: "parse_long_options options longs False False w = Some (r, t)" "long_done argc longs w (r, t)"
          using parse_long_ok [of w argc longs options] w assms b by auto
        have "called argc options longs s (r, t\<lparr>place := []\<rparr>)"
          by (rule call) (use x(2) w in \<open>auto simp: long_done_def optarg_ok_def result_ok_def long_result_def\<close>)
        then show ?thesis using x(1) by blast
      qed
      show ?thesis
      proof (cases "p = []")
        case True
        then obtain r t where "parse_long_options options longs False False
            (?s\<lparr>optind := optind s + 1, place := nargv s ! (optind s + 1), place_moved := False, dash_prefix := W_PREFIX\<rparr>) = Some (r, t)"
            "called argc options longs s (r, t\<lparr>place := []\<rparr>)"
          using step [of "?s\<lparr>optind := optind s + 1, place := nargv s ! (optind s + 1), place_moved := False, dash_prefix := W_PREFIX\<rparr>"]
            False b assms(2) arg_suffix_nth [of "optind s + 1" "nargv s"] by auto
        then show ?thesis
          using True False wide pl ins b next_word_ok [of ?s argc options c]
          by (auto simp: getopt_short_def Let_def)
      next
        case more: False
        then obtain r t where "parse_long_options options longs False False (?s\<lparr>dash_prefix := W_PREFIX\<rparr>) = Some (r, t)"
            "called argc options longs s (r, t\<lparr>place := []\<rparr>)"
          using step [of "?s\<lparr>dash_prefix := W_PREFIX\<rparr>"] b ins p assms(2) by auto
        then show ?thesis using more wide pl by (auto simp: getopt_short_def Let_def)
      qed
    qed
  qed
qed

text \<open>Before a call: the invariant, or the first call of a parse, with \<open>optind\<close> zero.\<close>

definition call_ready :: "nat \<Rightarrow> getopt \<Rightarrow> bool" where
  "call_ready argc s \<longleftrightarrow> getopt_ok argc s \<or> (optind s = 0 \<and> length (nargv s) = argc \<and> 1 \<le> argc)"

lemma begin_ready:
  assumes "call_ready argc s"
  shows "scan_ready argc (getopt_begin s)" "argc < Suc argc + optind (getopt_begin s)" "optarg (getopt_begin s) = None"
    "nargv (getopt_begin s) = nargv s" "getopt_ok argc s \<Longrightarrow> left (getopt_begin s) = left s"
proof -
  have "getopt_begin s = s\<lparr>optarg := None\<rparr>" if "getopt_ok argc s"
    using that by (auto simp: getopt_begin_def getopt_ok_def bounds_ok_def Let_def)
  moreover have "getopt_begin s = s\<lparr>optind := 1, optreset := True, optarg := None, nonopt_start := None, nonopt_end := None\<rparr>"
    if "optind s = 0" using that by (simp add: getopt_begin_def Let_def)
  moreover have "nonopt_ok (s\<lparr>optind := 1, optreset := True, optarg := None, nonopt_start := None, nonopt_end := None\<rparr>)"
    by (simp add: nonopt_ok_def)
  moreover have "inside 2 (s\<lparr>optarg := None\<rparr>) = inside 2 s" by (simp add: inside_def)
  ultimately show "scan_ready argc (getopt_begin s)" "argc < Suc argc + optind (getopt_begin s)" "optarg (getopt_begin s) = None"
    "nargv (getopt_begin s) = nargv s" "getopt_ok argc s \<Longrightarrow> left (getopt_begin s) = left s"
    using assms by (auto simp: call_ready_def scan_ready_def getopt_ok_def bounds_ok_def left_def)
qed

lemma getopt_long_ok:
  assumes "call_ready argc s" and "\<forall>opt \<in> set longs. lo_flag opt" and "c_hd options = CHR '':''"
  shows "\<exists>r s'. getopt_long posix argc options longs s = Some (r, s') \<and> called argc options longs (getopt_begin s) (r, s')"
proof -
  let ?b = "getopt_begin s"
  have fl: "option_flags posix options True = (False, \<not> posix, options)"
    using assms(3) by (simp add: option_flags_def)
  obtain r t where scan: "getopt_scan (Suc argc) argc False (\<not> posix) ?b = Some (r, t)" "scanned argc ?b (r, t)"
    using getopt_scan_ok [OF begin_ready(1,2) [OF assms(1)], of "\<not> posix"] by auto
  have fr: "mset (nargv t) = mset (nargv ?b)" "optarg t = None"
    using scan(2) begin_ready(3) [OF assms(1)] by (auto simp: scanned_def frame_def)
  show ?thesis
  proof (cases r)
    case (Some r')
    then have "called argc options longs ?b (-1, t)"
      using scan(2) fr by (auto simp: scanned_def called_def result_ok_def optarg_ok_def)
    then show ?thesis
      using scan Some by (simp add: getopt_long_def getopt_internal_def fl scanned_def)
  next
    case None
    then have at: "at_option argc t" "left t \<le> left ?b" using scan(2) by (auto simp: scanned_def)
    have weaken: "called argc options longs ?b x" if "called argc options longs t x" for x
      using that fr(1) at(2) mset_eq_setD [OF fr(1)] by (auto simp: called_def)
    obtain r1 t1 where l: "getopt_longs options (Some longs) False t = Some (r1, t1)"
        "case r1 of None \<Rightarrow> t1 = t \<and> c_hd (place t) \<noteq> CHR ''-'' | Some r \<Rightarrow> called argc options longs t (r, t1)"
      using getopt_longs_ok [OF at(1) fr(2) assms(2,3)] by blast
    show ?thesis
    proof (cases r1)
      case r1: (Some r2)
      then show ?thesis
        using scan(1) None l weaken by (auto simp: getopt_long_def getopt_internal_def fl)
    next
      case r1: None
      obtain r3 t3 where "getopt_short posix argc options (Some longs) False t = Some (r3, t3)" "called argc options longs t (r3, t3)"
        using getopt_short_ok [OF at(1) fr(2) assms(2,3), of posix] l(2) r1 by auto
      then show ?thesis
        using scan(1) None l r1 weaken by (auto simp: getopt_long_def getopt_internal_def fl)
    qed
  qed
qed

end
