(* ===== verification/Arg_Safety.thy ===== *)
theory Arg_Safety
  imports Getopt_Safety Arg_Parse
begin

text \<open>
  Well-typed argument tables and the proof that \<open>arg_parse\<close> keeps them: no access outside an array,
  counts within their bounds, counted values initialised, headers unchanged.  It returns unless an
  argument is a malformed group of options.
\<close>

section \<open>Well-typed tables\<close>

definition opts_ok :: "arg_hdr \<Rightarrow> bool" where
  "opts_ok h \<longleftrightarrow> (\<forall>s. hdr_shortopts h = Some s \<longrightarrow> CHR '':'' \<notin> set s \<and> CHR 0x00 \<notin> set s) \<and>
     (\<forall>s. hdr_longopts h = Some s \<longrightarrow> s \<noteq> [] \<and> hd s \<noteq> CHR '','')"

primrec entry_ok :: "arg_entry \<Rightarrow> bool" where
  "entry_ok (E_lit a) \<longleftrightarrow> wf_lit a \<and> hdr_flag (lit_hdr a) = 0 \<and> opts_ok (lit_hdr a)"
| "entry_ok (E_int a) \<longleftrightarrow> wf_int a \<and> hdr_flag (int_hdr a) = ARG_HASVALUE \<and> opts_ok (int_hdr a)"
| "entry_ok (E_str a) \<longleftrightarrow> wf_str a \<and> hdr_flag (str_hdr a) = ARG_HASVALUE \<and> opts_ok (str_hdr a)"
| "entry_ok (E_end a) \<longleftrightarrow> False"

primrec entry_count :: "arg_entry \<Rightarrow> nat" where
  "entry_count (E_lit a) = lit_count a"
| "entry_count (E_int a) = int_count a"
| "entry_count (E_str a) = str_count a"
| "entry_count (E_end a) = end_count a"

text \<open>The entries before the end marker at \<open>n\<close>, and the marker.\<close>

definition wf_table :: "nat \<Rightarrow> arg_table \<Rightarrow> bool" where
  "wf_table n table \<longleftrightarrow> n < length table \<and> (\<forall>i < n. entry_ok (table ! i)) \<and>
     (\<exists>e. table ! n = E_end e \<and> wf_end n e \<and> hdr_flag (end_hdr e) = ARG_TERMINATOR \<and> hdr_longopts (end_hdr e) = None)"

text \<open>The type of an entry and its header never change.\<close>

primrec kind :: "arg_entry \<Rightarrow> nat" where
  "kind (E_lit a) = 0"
| "kind (E_int a) = 1"
| "kind (E_str a) = 2"
| "kind (E_end a) = 3"

definition shape :: "arg_entry \<Rightarrow> nat \<times> arg_hdr" where
  "shape e = (kind e, entry_hdr e)"

abbreviation headers :: "arg_table \<Rightarrow> (nat \<times> arg_hdr) list" where
  "headers table \<equiv> map shape table"

lemma headers_nth: "headers t = headers t' \<Longrightarrow> i < length t \<Longrightarrow> entry_hdr (t ! i) = entry_hdr (t' ! i) \<and> kind (t ! i) = kind (t' ! i)"
proof -
  assume h: "headers t = headers t'" and i: "i < length t"
  then have "length t' = length t" by (metis length_map)
  then have "shape (t ! i) = shape (t' ! i)" using h i by (metis nth_map)
  then show ?thesis by (simp add: shape_def)
qed

lemma flags [simp]:
  "has_flag h ARG_TERMINATOR = False" "has_flag h ARG_HASVALUE = False" "has_flag h ARG_HASOPTVALUE = False" if "hdr_flag h = 0"
  using that by (simp_all add: has_flag_def)

lemma flags_value [simp]:
  "has_flag h ARG_TERMINATOR = False" "has_flag h ARG_HASVALUE = True" "has_flag h ARG_HASOPTVALUE = False" if "hdr_flag h = ARG_HASVALUE"
  using that by (simp_all add: has_flag_def ARG_HASVALUE_def ARG_TERMINATOR_def ARG_HASOPTVALUE_def)

lemma flags_end [simp]: "hdr_flag h = ARG_TERMINATOR \<Longrightarrow> has_flag h ARG_TERMINATOR"
  by (simp add: has_flag_def ARG_TERMINATOR_def)

lemma entry_flags:
  "entry_ok e \<Longrightarrow> \<not> terminator e" "entry_ok e \<Longrightarrow> \<not> has_flag (entry_hdr e) ARG_HASOPTVALUE" "entry_ok e \<Longrightarrow> opts_ok (entry_hdr e)"
  by (cases e; simp add: terminator_def)+

lemma has_value: "entry_ok e \<Longrightarrow> has_flag (entry_hdr e) ARG_HASVALUE \<longleftrightarrow> (\<forall>a. e \<noteq> E_lit a)"
  by (cases e) simp_all

lemma table_end: "wf_table n table \<Longrightarrow> terminator (table ! n)"
  by (auto simp: wf_table_def terminator_def)

lemma table_entry: "wf_table n table \<Longrightarrow> i < n \<Longrightarrow> entry_ok (table ! i) \<and> i < length table"
  by (auto simp: wf_table_def)

lemma endindex_first:
  "n < length table \<Longrightarrow> terminator (table ! n) \<Longrightarrow> \<forall>i < n. \<not> terminator (table ! i) \<Longrightarrow> arg_endindex table = Some n"
proof (induction table arbitrary: n)
  case (Cons e table)
  then show ?case
    by (cases n) (auto simp: All_less_Suc2)
qed simp

lemma wf_endindex: "wf_table n table \<Longrightarrow> arg_endindex table = Some n"
proof (rule endindex_first)
  assume wf: "wf_table n table"
  show "n < length table" using wf by (simp add: wf_table_def)
  show "terminator (table ! n)" using wf by (rule table_end)
  show "\<forall>i < n. \<not> terminator (table ! i)" using table_entry [OF wf] entry_flags(1) by blast
qed

section \<open>Errors\<close>

lemma register_ok:
  assumes "wf_table n table" and "p \<le> n"
  shows "\<exists>table'. register n table p err v = Some table' \<and> wf_table n table' \<and> headers table' = headers table \<and>
    (\<forall>i < n. table' ! i = table ! i) \<and> 0 < end_errors n table'"
proof -
  obtain e where e: "n < length table" "table ! n = E_end e" "wf_end n e" "hdr_flag (end_hdr e) = ARG_TERMINATOR" "hdr_longopts (end_hdr e) = None"
    using assms(1) by (auto simp: wf_table_def)
  obtain e' where e': "arg_register_error n e p err v = Some e'" "wf_end n e'" "end_hdr e' = end_hdr e" "0 < end_count e'"
    using register_total [OF e(3) assms(2), of err v] register_counts [OF _ e(3)] by blast
  have "headers (table[n := E_end e']) = headers table"
    using e e' by (simp add: map_update list_update_same_conv shape_def)
  then show ?thesis
    using assms(1) e e' by (auto simp: register_def get_end_def elem_def wf_table_def end_errors_def)
qed

lemma register_all_ok:
  "wf_table n table \<Longrightarrow> \<exists>table'. register_all n table vs = Some table' \<and> wf_table n table' \<and> headers table' = headers table \<and>
    (end_errors n table' = 0 \<longrightarrow> vs = [] \<and> table' = table)"
proof (induction vs arbitrary: table)
  case (Cons v vs)
  obtain t where t: "register n table n ARG_ENOMATCH (Some v) = Some t" "wf_table n t" "headers t = headers table" "0 < end_errors n t"
    using register_ok [OF Cons.prems order_refl, of ARG_ENOMATCH "Some v"] by auto
  obtain t' where "register_all n t vs = Some t'" "wf_table n t'" "headers t' = headers t" "end_errors n t' = 0 \<longrightarrow> vs = [] \<and> t' = t"
    using Cons.IH [OF t(2)] by auto
  then show ?case using t by auto
qed simp

section \<open>Scanning a value\<close>

definition number_safe :: "string list \<Rightarrow> bool" where
  "number_safe argv \<longleftrightarrow> (\<forall>a \<in> set argv. \<forall>k \<le> length a. scan_number (drop k a) \<noteq> None)"

lemma number_safe_suffix: "number_safe argv \<Longrightarrow> arg_suffix argv v \<Longrightarrow> scan_number v \<noteq> None"
  unfolding number_safe_def arg_suffix_def by (metis drop_all nle_le order_refl)

lemma number_safe_mset: "mset xs = mset ys \<Longrightarrow> number_safe xs = number_safe ys"
  unfolding number_safe_def by (metis set_mset_mset)

lemma int_scan_total:
  assumes "wf_int a" and "scan_number v \<noteq> None"
  shows "arg_int_scanfn a (Some v) \<noteq> None"
  using assms by (auto simp: arg_int_scanfn_def wf_int_def wr_one Let_def split: prod.splits)

lemma str_scan_total: "wf_str a \<Longrightarrow> arg_str_scanfn a (Some v) \<noteq> None"
  by (auto simp: arg_str_scanfn_def wf_str_def wr_one)

text \<open>The entry after a scan with a value; a literal takes none.\<close>

lemma entry_scan_ok:
  assumes "entry_ok e" and "has_flag (entry_hdr e) ARG_HASVALUE \<longrightarrow> v \<noteq> None" and "\<forall>s. v = Some s \<longrightarrow> scan_number s \<noteq> None"
  shows "\<exists>scan err e'. entry_scanfn e = Some scan \<and> scan v = Some (err, e') \<and> entry_ok e' \<and> shape e' = shape e \<and>
    (err \<noteq> 0 \<longrightarrow> e' = e)"
proof (cases e)
  case (E_lit a)
  then show ?thesis
    using assms(1) by (auto simp: arg_lit_scanfn_def wf_lit_def shape_def)
next
  case (E_int a)
  then obtain s where s: "v = Some s" "scan_number s \<noteq> None" using assms by auto
  then obtain err a' where r: "arg_int_scanfn a (Some s) = Some (err, a')" using int_scan_total [of a s] assms(1) E_int by auto
  then show ?thesis using int.scan_law [OF _ r] assms(1) E_int s by (auto simp: shape_def split: if_splits)
next
  case (E_str a)
  then obtain s where s: "v = Some s" using assms by auto
  then obtain err a' where r: "arg_str_scanfn a (Some s) = Some (err, a')" using str_scan_total [of a s] assms(1) E_str by auto
  then show ?thesis using str.scan_law [OF _ r] assms(1) E_str s by (auto simp: shape_def split: if_splits)
next
  case (E_end a)
  then show ?thesis using assms(1) by simp
qed

lemma update_entry_ok:
  assumes "wf_table n table" and "i < n" and "entry_ok e'" and "shape e' = shape (table ! i)"
  shows "wf_table n (table[i := e'])" "headers (table[i := e']) = headers table"
proof -
  show "wf_table n (table[i := e'])"
    using assms by (auto simp: wf_table_def nth_list_update)
  show "headers (table[i := e']) = headers table"
    using assms by (simp add: map_update list_update_same_conv wf_table_def)
qed

lemma scan_entry_ok:
  assumes "wf_table n table" and "i < n" and "has_flag (entry_hdr (table ! i)) ARG_HASVALUE \<longrightarrow> v \<noteq> None"
    and "\<forall>s. v = Some s \<longrightarrow> scan_number s \<noteq> None"
  shows "\<exists>table'. scan_entry n table i v = Some table' \<and> wf_table n table' \<and> headers table' = headers table"
proof -
  have i: "entry_ok (table ! i)" "i < length table" using table_entry [OF assms(1,2)] by auto
  obtain scan err e' where e: "entry_scanfn (table ! i) = Some scan" "scan v = Some (err, e')" "entry_ok e'"
      "shape e' = shape (table ! i)"
    using entry_scan_ok [OF i(1) assms(3,4)] by blast
  note t = update_entry_ok [OF assms(1,2) e(3,4)]
  show ?thesis
    using e(1,2) i(2) t register_ok [OF t(1), of i err v] assms(2)
    by (cases "err = 0") (auto simp: scan_entry_def elem_def Let_def)
qed

section \<open>The options built from a table\<close>

lemma longs_from_mem:
  "opt \<in> set (longs_from table k) \<Longrightarrow> lo_flag opt \<and> (\<exists>i < length table. lo_val opt = int (k + i) \<and> (\<forall>j \<le> i. \<not> terminator (table ! j)) \<and>
    lo_has_arg opt = (if has_flag (entry_hdr (table ! i)) ARG_HASOPTVALUE then 2 else if has_flag (entry_hdr (table ! i)) ARG_HASVALUE then 1 else 0))"
proof (induction table arbitrary: k)
  case (Cons e table)
  then have e: "\<not> terminator e" by (auto split: if_splits)
  from Cons.prems e consider "opt \<in> set (longs_from table (k + 1))"
    | "lo_flag opt" "lo_val opt = int k"
      "lo_has_arg opt = (if has_flag (entry_hdr e) ARG_HASOPTVALUE then 2 else if has_flag (entry_hdr e) ARG_HASVALUE then 1 else 0)"
    by fastforce
  then show ?case
  proof cases
    case 1
    from Cons.IH [OF 1] obtain i where i: "lo_flag opt" "i < length table" "lo_val opt = int (k + 1 + i)" "\<forall>j \<le> i. \<not> terminator (table ! j)"
      "lo_has_arg opt = (if has_flag (entry_hdr (table ! i)) ARG_HASOPTVALUE then 2 else if has_flag (entry_hdr (table ! i)) ARG_HASVALUE then 1 else 0)"
      by blast
    have "\<forall>j \<le> Suc i. \<not> terminator ((e # table) ! j)" using i(4) e by (auto simp: nth_Cons split: nat.splits)
    then show ?thesis using i by (intro conjI exI [of _ "Suc i"]) auto
  next
    case 2
    then show ?thesis using e by (intro conjI exI [of _ 0]) auto
  qed
qed simp

lemma before_end:
  assumes "wf_table n table" and "\<forall>j \<le> i. \<not> terminator (table ! j)"
  shows "i < n"
  using assms table_end [OF assms(1)] by (meson not_le)

lemma split_names_length: "length (split_names acc s) \<le> 1 + length (filter (\<lambda>c. c = CHR '','') s)"
  by (induction acc s rule: split_names.induct) auto

lemma names_count: "opts_ok h \<Longrightarrow> hdr_longopts h = Some s \<Longrightarrow> \<exists>m. count_names s = Some m \<and> length (names_of (hdr_longopts h)) \<le> m"
  using split_names_length [of "[hd s]" "tl s"] by (cases s) (auto simp: opts_ok_def count_names_def names_of_def)

lemma longs_count:
  "n < length table \<Longrightarrow> \<forall>i < n. entry_ok (table ! i) \<Longrightarrow> terminator (table ! n) \<Longrightarrow> hdr_longopts (entry_hdr (table ! n)) = None \<Longrightarrow>
    \<exists>m. count_options table = Some m \<and> length (longs_from table k) \<le> m"
proof (induction table arbitrary: n k)
  case (Cons e table)
  show ?case
  proof (cases n)
    case 0
    then show ?thesis using Cons.prems by simp
  next
    case (Suc n')
    then have e: "entry_ok e" using Cons.prems(2) by fastforce
    obtain m where m: "count_options table = Some m" "length (longs_from table (k + 1)) \<le> m"
      using Cons.IH [of n' "k + 1"] Cons.prems Suc by (auto simp: All_less_Suc2)
    obtain m0 where "(case hdr_longopts (entry_hdr e) of None \<Rightarrow> Some 0 | Some s \<Rightarrow> count_names s) = Some m0"
        "length (names_of (hdr_longopts (entry_hdr e))) \<le> m0"
      using names_count [OF entry_flags(3) [OF e]] by (cases "hdr_longopts (entry_hdr e)") (auto simp: names_of_def)
    then show ?thesis using m entry_flags(1) [OF e] by (auto intro: add_mono)
  qed
qed simp

lemma alloc_longs_ok: "wf_table n table \<Longrightarrow> alloc_longoptions table = Some (longs_from table 0)"
proof -
  assume wf: "wf_table n table"
  then have "hdr_longopts (entry_hdr (table ! n)) = None" by (auto simp: wf_table_def)
  then obtain m where "count_options table = Some m" "length (longs_from table 0) \<le> m"
    using longs_count [of n table 0] table_end [OF wf] wf by (auto simp: wf_table_def)
  then show ?thesis by (simp add: alloc_longoptions_def)
qed

text \<open>The letters of an entry in the string for \<open>getopt\<close>.\<close>

abbreviation letters :: "arg_entry \<Rightarrow> string" where
  "letters e \<equiv> (case hdr_shortopts (entry_hdr e) of Some s \<Rightarrow> s | None \<Rightarrow> [])"

definition chunk :: "arg_entry \<Rightarrow> string" where
  "chunk e = concat (map (\<lambda>c. [c] @ (if has_flag (entry_hdr e) ARG_HASVALUE then '':'' else []) @
     (if has_flag (entry_hdr e) ARG_HASOPTVALUE then '':'' else [])) (letters e))"

lemma shorts_from_Cons: "shorts_from (e # table) = (if terminator e then [] else chunk e @ shorts_from table)"
  by (simp add: chunk_def)

lemma chunk_set: "c \<noteq> CHR '':'' \<Longrightarrow> c \<in> set (chunk e) \<longleftrightarrow> c \<in> set (letters e)"
  by (auto simp: chunk_def)

lemma letters_ok: "entry_ok e \<Longrightarrow> CHR '':'' \<notin> set (letters e) \<and> CHR 0x00 \<notin> set (letters e)"
  using entry_flags(3) [of e] by (auto simp: opts_ok_def split: option.splits)

lemma chunk_hd: "entry_ok e \<Longrightarrow> c_hd rest \<noteq> CHR '':'' \<Longrightarrow> c_hd (chunk e @ rest) \<noteq> CHR '':''"
  using letters_ok [of e] by (cases "letters e") (auto simp: chunk_def c_hd_def)

lemma shorts_hd:
  "n < length table \<Longrightarrow> \<forall>i < n. entry_ok (table ! i) \<Longrightarrow> terminator (table ! n) \<Longrightarrow> c_hd (shorts_from table) \<noteq> CHR '':''"
proof (induction table arbitrary: n)
  case (Cons e table)
  show ?case
  proof (cases n)
    case 0
    then show ?thesis using Cons.prems by (simp add: c_hd_def)
  next
    case (Suc n')
    then have e: "entry_ok e" using Cons.prems(2) by fastforce
    have "c_hd (shorts_from table) \<noteq> CHR '':''" using Cons.IH [of n'] Cons.prems Suc by (auto simp: All_less_Suc2)
    then show ?thesis using chunk_hd [OF e] entry_flags(1) [OF e] by (simp add: shorts_from_Cons del: shorts_from.simps)
  qed
qed simp

lemma valued_letters:
  assumes "c \<in> set s" and "CHR '':'' \<notin> set s" and "c_hd rest \<noteq> CHR '':''"
  shows "\<exists>r. dropWhile (\<lambda>x. x \<noteq> c) (concat (map (\<lambda>c. [c, CHR '':'']) s) @ rest) = c # CHR '':'' # r \<and> c_hd r \<noteq> CHR '':''"
  using assms
proof (induction s)
  case (Cons d s)
  show ?case
  proof (cases "d = c")
    case True
    then show ?thesis using Cons.prems by (cases s) (auto simp: c_hd_def)
  next
    case False
    then show ?thesis using Cons by auto
  qed
qed simp

lemma find_shortoption_ok:
  "n < length table \<Longrightarrow> \<forall>i < n. entry_ok (table ! i) \<Longrightarrow> terminator (table ! n) \<Longrightarrow> c \<noteq> CHR '':'' \<Longrightarrow> c \<noteq> CHR 0x00 \<Longrightarrow>
    find_shortoption table c k = Some None \<or>
    (\<exists>i < n. find_shortoption table c k = Some (Some (k + i)) \<and>
      (has_flag (entry_hdr (table ! i)) ARG_HASVALUE \<longrightarrow>
        (\<exists>r. dropWhile (\<lambda>x. x \<noteq> c) (shorts_from table) = c # CHR '':'' # r \<and> c_hd r \<noteq> CHR '':'')))"
proof (induction table arbitrary: n k)
  case (Cons e table)
  show ?case
  proof (cases n)
    case 0
    then show ?thesis using Cons.prems by simp
  next
    case (Suc n')
    then have e: "entry_ok e" using Cons.prems(2) by fastforce
    have rest: "n' < length table" "\<forall>i < n'. entry_ok (table ! i)" "terminator (table ! n')"
      using Cons.prems Suc by (auto simp: All_less_Suc2)
    show ?thesis
    proof (cases "c \<in> set (letters e)")
      case True
      have found: "find_shortoption (e # table) c k = Some (Some (k + 0))"
        using True entry_flags(1) [OF e] by (auto split: option.splits)
      have "\<exists>r. dropWhile (\<lambda>x. x \<noteq> c) (shorts_from (e # table)) = c # CHR '':'' # r \<and> c_hd r \<noteq> CHR '':''"
        if v: "has_flag (entry_hdr e) ARG_HASVALUE"
        using valued_letters [OF True conjunct1 [OF letters_ok [OF e]] shorts_hd [OF rest]] v entry_flags(1,2) [OF e]
        by (simp add: shorts_from_Cons chunk_def del: shorts_from.simps)
      then show ?thesis using found Suc by (intro disjI2 exI [of _ 0]) auto
    next
      case False
      have skip: "find_shortoption (e # table) c k = find_shortoption table c (k + 1)"
        using False entry_flags(1) [OF e] Cons.prems(5) by (auto split: option.splits)
      have "dropWhile (\<lambda>x. x \<noteq> c) (shorts_from (e # table)) = dropWhile (\<lambda>x. x \<noteq> c) (shorts_from table)"
        using False chunk_set [OF Cons.prems(4), of e] entry_flags(1) [OF e]
        by (subst shorts_from_Cons) (auto intro!: dropWhile_append2)
      then show ?thesis
        using Cons.IH [OF rest Cons.prems(4,5), of "k + 1"] skip Suc by fastforce
    qed
  qed
qed simp

lemma shorts_set:
  "c \<in> set (shorts_from table) \<Longrightarrow> \<forall>i < n. entry_ok (table ! i) \<Longrightarrow> n < length table \<Longrightarrow> terminator (table ! n) \<Longrightarrow> c \<noteq> CHR 0x00"
proof (induction table arbitrary: n)
  case (Cons e table)
  show ?case
  proof (cases n)
    case 0
    then show ?thesis using Cons.prems by (simp add: shorts_from_Cons del: shorts_from.simps)
  next
    case (Suc n')
    then have e: "entry_ok e" using Cons.prems(2) by fastforce
    have "c \<in> set (chunk e) \<or> c \<in> set (shorts_from table)"
      using Cons.prems(1) entry_flags(1) [OF e] by (simp add: shorts_from_Cons del: shorts_from.simps)
    then show ?thesis
      using Cons.IH [of n'] Cons.prems Suc letters_ok [OF e] chunk_set [of c e]
      by (cases "c = CHR '':''") (auto simp: All_less_Suc2)
  qed
qed simp

lemma char_code_mod: "char_of (nat (char_code c mod 256)) = c"
proof -
  define n :: nat where "n = of_char c"
  have "n < 256" by (simp add: n_def)
  have "char_code c = (if int n < 128 then int n else int n - 256)"
    by (simp only: char_code_def Let_def n_def of_nat_of_char)
  then have "char_code c mod 256 = int n" using \<open>n < 256\<close> by (auto simp: mod_diff_right_eq)
  then show ?thesis by (simp add: n_def del: of_nat_of_char)
qed

lemma char_code_0: "char_code c = 0 \<Longrightarrow> c = CHR 0x00"
  using char_code_mod [of c] by (simp add: char_of_def)

section \<open>Tagged arguments\<close>

text \<open>What the parser knows of the scanning state after a call.\<close>

definition scan_state :: "nat \<Rightarrow> string list \<Rightarrow> getopt \<Rightarrow> bool" where
  "scan_state argc argv g \<longleftrightarrow> mset (nargv g) = mset argv \<and> argc = length argv \<and> number_safe argv"

lemma previous_ok: "getopt_ok argc g \<Longrightarrow> previous_arg g \<noteq> None"
  by (auto simp: getopt_ok_def bounds_ok_def previous_arg_def arg_at_def)

lemma optarg_number: "optarg_ok g \<Longrightarrow> scan_state argc argv g \<Longrightarrow> optarg g = Some v \<Longrightarrow> scan_number v \<noteq> None"
  using number_safe_suffix number_safe_mset unfolding optarg_ok_def scan_state_def by blast

lemma tagged_long_ok:
  assumes wf: "wf_table n table" and g: "getopt_ok argc g" "optarg_ok g" "scan_state argc argv g"
    and r: "long_result (longs_from table' 0) g" and h: "headers table' = headers table" "wf_table n table'"
  shows "\<exists>t. tagged_long n g table = Some t \<and> wf_table n t \<and> headers t = headers table"
proof -
  obtain opt where opt: "opt \<in> set (longs_from table' 0)" "getoptval g = lo_val opt" "lo_has_arg opt = 1 \<longrightarrow> optarg g \<noteq> None"
    using r by (auto simp: long_result_def)
  obtain i where i: "i < length table'" "lo_val opt = int i" "\<forall>j \<le> i. \<not> terminator (table' ! j)"
      "lo_has_arg opt = (if has_flag (entry_hdr (table' ! i)) ARG_HASOPTVALUE then 2 else if has_flag (entry_hdr (table' ! i)) ARG_HASVALUE then 1 else 0)"
    using longs_from_mem [OF opt(1)] by auto
  have n: "i < n" by (rule before_end [OF h(2) i(3)])
  have len: "i < length table" "n < length table" using n wf by (auto simp: wf_table_def)
  have hd: "entry_hdr (table' ! i) = entry_hdr (table ! i)"
    using headers_nth [OF h(1) i(1)] by simp
  have "\<not> has_flag (entry_hdr (table ! i)) ARG_HASOPTVALUE"
    using table_entry [OF wf n] entry_flags(2) by blast
  then have v: "has_flag (entry_hdr (table ! i)) ARG_HASVALUE \<longrightarrow> optarg g \<noteq> None"
    using opt(3) i(4) hd by simp
  obtain w where w: "previous_arg g = Some w" using previous_ok [OF g(1)] by auto
  have scan: "\<exists>t'. scan_entry n t i (optarg g) = Some t' \<and> wf_table n t' \<and> headers t' = headers t"
    if "wf_table n t" "headers t = headers table" for t
  proof (rule scan_entry_ok [OF that(1) n])
    have "i < length t" using that(1) n by (simp add: wf_table_def)
    then have "entry_hdr (t ! i) = entry_hdr (table ! i)" using headers_nth [OF that(2)] by simp
    then show "has_flag (entry_hdr (t ! i)) ARG_HASVALUE \<longrightarrow> optarg g \<noteq> None" using v by simp
    show "\<forall>s. optarg g = Some s \<longrightarrow> scan_number s \<noteq> None" using optarg_number [OF g(2,3)] by blast
  qed
  obtain t1 where t1: "register n table n ARG_EMISSARG w = Some t1" "wf_table n t1" "headers t1 = headers table"
    using register_ok [OF wf order_refl, of ARG_EMISSARG w] by auto
  show ?thesis
    using scan [OF wf refl] scan [OF t1(2,3)] t1 w len opt(2) i(2)
    by (auto simp: tagged_long_def elem_def Let_def)
qed

lemma tagged_short_ok:
  assumes wf: "wf_table n table" and g: "getopt_ok argc g" "optarg_ok g" "scan_state argc argv g"
    and c: "c \<noteq> CHR '':''" "c \<noteq> CHR 0x00" "takes_arg (alloc_shortoptions table') c \<longrightarrow> optarg g \<noteq> None"
    and h: "headers table' = headers table" "wf_table n table'"
  shows "\<exists>t. tagged_short n (char_code c) g table = Some t \<and> wf_table n t \<and> headers t = headers table"
proof -
  have shorts: "shorts_from t1 = shorts_from t2" if "headers t1 = headers t2" for t1 t2
    using that
  proof (induction t1 arbitrary: t2)
    case (Cons a t1)
    then show ?case by (cases t2) (auto simp: terminator_def shape_def)
  qed simp
  note find = find_shortoption_ok [of n table c 0, OF _ _ table_end [OF wf] c(1,2)]
  have n: "n < length table" "\<forall>i < n. entry_ok (table ! i)" using wf by (auto simp: wf_table_def)
  obtain t0 where t0: "register n table n (char_code c) None = Some t0" "wf_table n t0" "headers t0 = headers table"
    using register_ok [OF wf order_refl, of "char_code c" None] by auto
  from find [OF n] consider "find_shortoption table c 0 = Some None"
    | i where "i < n" "find_shortoption table c 0 = Some (Some i)" "has_flag (entry_hdr (table ! i)) ARG_HASVALUE \<longrightarrow>
        (\<exists>r. dropWhile (\<lambda>x. x \<noteq> c) (shorts_from table) = c # CHR '':'' # r \<and> c_hd r \<noteq> CHR '':'')"
    by auto
  then show ?thesis
  proof cases
    case 1
    then show ?thesis using t0 by (simp add: tagged_short_def char_code_mod)
  next
    case 2
    have "has_flag (entry_hdr (table ! i)) ARG_HASVALUE \<longrightarrow> optarg g \<noteq> None"
    proof
      assume "has_flag (entry_hdr (table ! i)) ARG_HASVALUE"
      then obtain r where r: "dropWhile (\<lambda>x. x \<noteq> c) (shorts_from table) = c # CHR '':'' # r" "c_hd r \<noteq> CHR '':''" using 2(3) by blast
      then have "takes_arg (alloc_shortoptions table') c"
        using c(1) shorts [OF h(1)] by (simp add: takes_arg_def alloc_shortoptions_def c_hd_def Let_def)
      then show "optarg g \<noteq> None" using c(3) by blast
    qed
    then show ?thesis
      using scan_entry_ok [OF wf 2(1), of "optarg g"] optarg_number [OF g(2,3)] 2(2)
      by (auto simp: tagged_short_def char_code_mod)
  qed
qed

lemma tagged_step_ok:
  assumes wf: "wf_table n table" and g: "getopt_ok argc g" "optarg_ok g" "scan_state argc argv g"
    and r: "result_ok (alloc_shortoptions table') (longs_from table' 0) r g" "r \<noteq> -1"
    and h: "headers table' = headers table" "wf_table n table'"
  shows "\<exists>t. tagged_step n r g table = Some t \<and> wf_table n t \<and> headers t = headers table"
proof -
  obtain w where w: "previous_arg g = Some w" using previous_ok [OF g(1)] by auto
  have reg: "\<exists>t. register n table n e v = Some t \<and> wf_table n t \<and> headers t = headers table" for e v
    using register_ok [OF wf order_refl] by blast
  have errs: "\<exists>t. tagged_unknown n g table = Some t \<and> wf_table n t \<and> headers t = headers table"
    "\<exists>t. tagged_missing n g table = Some t \<and> wf_table n t \<and> headers t = headers table"
    using w reg by (simp_all add: tagged_unknown_def tagged_missing_def)
  from r consider "r = 63" | "r = 58" | "r = 0" "long_result (longs_from table' 0) g"
    | c where "c \<in> set (alloc_shortoptions table')" "c \<noteq> CHR '':''" "r = char_code c"
        "takes_arg (alloc_shortoptions table') c \<longrightarrow> optarg g \<noteq> None"
    by (auto simp: result_ok_def)
  then show ?thesis
  proof cases
    case 3
    then show ?thesis using tagged_long_ok [OF wf g _ h] by (simp add: tagged_step_def)
  next
    case 4
    have "c \<in> set (shorts_from table')" using 4(1,2) by (simp add: alloc_shortoptions_def)
    then have nul: "c \<noteq> CHR 0x00"
      using shorts_set [of c table' n] h(2) table_end [OF h(2)] by (auto simp: wf_table_def)
    then have "r \<noteq> 0" using char_code_0 [of c] 4(3) by auto
    then show ?thesis
      using tagged_short_ok [OF wf g 4(2) nul 4(4) h] errs 4(3) by (simp add: tagged_step_def)
  qed (use errs in \<open>simp_all add: tagged_step_def\<close>)
qed

text \<open>The loop: it never faults, and with enough fuel it ends when no group of options is malformed.\<close>

definition tagged_done :: "nat \<Rightarrow> nat \<Rightarrow> string list \<Rightarrow> arg_table \<Rightarrow> getopt \<times> arg_table \<Rightarrow> bool" where
  "tagged_done n argc argv table x \<longleftrightarrow> (case x of (g, t) \<Rightarrow>
     getopt_ok argc g \<and> mset (nargv g) = mset argv \<and> wf_table n t \<and> headers t = headers table)"

lemma tagged_loop_ok:
  assumes "call_ready argc g" and "scan_state argc argv g" and "wf_table n table"
    and h: "headers table' = headers table" "wf_table n table'"
  shows "(case tagged_loop fuel posix n argc (alloc_shortoptions table') (longs_from table' 0) g table of
      Inl f \<Rightarrow> f = Out_of_fuel \<and> ((\<forall>a \<in> set argv. \<not> malformed a) \<longrightarrow> fuel \<le> left (getopt_begin g))
    | Inr x \<Rightarrow> tagged_done n argc argv table' x)"
  using assms(1-3) h(1)
proof (induction fuel arbitrary: g table)
  case (Suc fuel)
  have flag: "\<forall>opt \<in> set (longs_from table' 0). lo_flag opt" using longs_from_mem by blast
  have colon: "c_hd (alloc_shortoptions table') = CHR '':''" by (simp add: alloc_shortoptions_def c_hd_def)
  obtain r s where s: "getopt_long posix argc (alloc_shortoptions table') (longs_from table' 0) g = Some (r, s)"
      "called argc (alloc_shortoptions table') (longs_from table' 0) (getopt_begin g) (r, s)"
    using getopt_long_ok [OF Suc.prems(1) flag colon] by blast
  have ok: "getopt_ok argc s" "optarg_ok s" "result_ok (alloc_shortoptions table') (longs_from table' 0) r s" "scan_state argc argv s"
    using s(2) begin_ready(4) [OF Suc.prems(1)] Suc.prems(2) by (auto simp: called_def scan_state_def)
  have less: "r = -1 \<or> left s < left (getopt_begin g) \<or> \<not> (\<forall>a \<in> set argv. \<not> malformed a)"
    using s(2) begin_ready(4) [OF Suc.prems(1)] Suc.prems(2) mset_eq_setD [of "nargv g" argv] by (auto simp: called_def scan_state_def)
  show ?case
  proof (cases "r = -1")
    case True
    then show ?thesis using s(1) ok Suc.prems by (simp add: tagged_done_def scan_state_def)
  next
    case False
    obtain t where t: "tagged_step n r s table = Some t" "wf_table n t" "headers t = headers table"
      using tagged_step_ok [OF Suc.prems(3) ok(1,2,4,3) False Suc.prems(4) h(2)] by blast
    have ready: "call_ready argc s" using ok(1) by (simp add: call_ready_def)
    have "left (getopt_begin s) = left s" by (rule begin_ready(5) [OF ready ok(1)])
    then show ?thesis
      using Suc.IH [OF ready ok(4) t(2)] t Suc.prems(4) s(1) False less by (auto split: sum.splits)
  qed
qed simp

section \<open>Untagged arguments\<close>

definition table_result :: "nat \<Rightarrow> arg_table \<Rightarrow> arg_table option \<Rightarrow> bool" where
  "table_result n table x \<longleftrightarrow> (\<exists>t. x = Some t \<and> wf_table n t \<and> headers t = headers table)"

lemma untagged_rest_ok:
  assumes "wf_table n table" and "\<forall>e v p. err = Some (e, v, p) \<longrightarrow> p \<le> n"
  shows "table_result n table (untagged_rest n argv table i err)"
proof (cases err)
  case None
  then show ?thesis
    using register_all_ok [OF assms(1)] by (fastforce simp: untagged_rest_def table_result_def)
next
  case (Some x)
  obtain e v p where x: "x = (e, v, p)" by (cases x)
  obtain t where t: "register n table p e (Some v) = Some t" "wf_table n t" "headers t = headers table"
    using register_ok [OF assms(1), of p e "Some v"] assms(2) Some x by auto
  then show ?thesis
    using register_all_ok [OF t(2), of "drop (i + 1) argv"] Some x by (auto simp: untagged_rest_def table_result_def)
qed

lemma untagged_loop_ok:
  "wf_table n table \<Longrightarrow> number_safe argv \<Longrightarrow> tabindex \<le> n \<Longrightarrow> \<forall>e v p. err = Some (e, v, p) \<longrightarrow> p \<le> n \<Longrightarrow>
    table_result n table (untagged_loop n argv table tabindex i err)"
proof (induction n argv table tabindex i err rule: untagged_loop.induct)
  case (1 n argv table tabindex i err)
  note wf = "1.prems"(1)
  let ?e = "table ! tabindex"
  have len: "\<not> length table \<le> tabindex" using "1.prems"(1,3) by (auto simp: wf_table_def)
  show ?case
  proof (cases "terminator ?e")
    case True
    then show ?thesis
      using len untagged_rest_ok [OF wf "1.prems"(4)] by (subst untagged_loop.simps) (simp add: Let_def)
  next
    case nt: False
    have "tabindex \<noteq> n" using nt table_end [OF wf] by auto
    then have ti: "tabindex < n" using "1.prems"(3) by simp
    have e: "entry_ok ?e" using table_entry [OF wf ti] by simp
    show ?thesis
    proof (cases "length argv \<le> i")
      case True
      then show ?thesis
        using len nt wf by (subst untagged_loop.simps) (simp add: Let_def table_result_def)
    next
      case more: False
      show ?thesis
      proof (cases "hdr_longopts (entry_hdr ?e) \<noteq> None \<or> hdr_shortopts (entry_hdr ?e) \<noteq> None")
        case True
        have "table_result n table (untagged_loop n argv table (tabindex + 1) i err)"
          by (rule "1.IH"(1) [OF len refl refl nt more True]) (use "1.prems" ti in auto)
        then show ?thesis
          using len nt more True by (subst untagged_loop.simps) (auto simp: Let_def)
      next
        case untagged: False
        have num: "\<forall>s. Some (argv ! i) = Some s \<longrightarrow> scan_number s \<noteq> None"
          using number_safe_suffix [OF "1.prems"(2) arg_suffix_nth [of i argv]] more by simp
        obtain scan e' code where s: "entry_scanfn ?e = Some scan" "scan (Some (argv ! i)) = Some (code, e')" "entry_ok e'"
            "shape e' = shape ?e"
          using entry_scan_ok [OF e _ num] by auto
        note t = update_entry_ok [OF wf ti s(3,4)]
        have "table_result n (table[tabindex := e']) (if code = 0 then untagged_loop n argv (table[tabindex := e']) tabindex (i + 1) None
            else untagged_loop n argv (table[tabindex := e']) (tabindex + 1) i (Some (code, argv ! i, tabindex)))"
        proof (cases "code = 0")
          case True
          have "table_result n (table[tabindex := e']) (untagged_loop n argv (table[tabindex := e']) tabindex (i + 1) None)"
            by (rule "1.IH"(3) [OF len refl refl nt more untagged s(1) s(2) refl True]) (use "1.prems" t ti in auto)
          then show ?thesis using True by simp
        next
          case False
          have "table_result n (table[tabindex := e']) (untagged_loop n argv (table[tabindex := e']) (tabindex + 1) i (Some (code, argv ! i, tabindex)))"
            by (rule "1.IH"(4) [OF len refl refl nt more untagged s(1) s(2) refl False]) (use "1.prems" t ti in auto)
          then show ?thesis using False by simp
        qed
        then show ?thesis
          using len nt more untagged s t by (subst untagged_loop.simps) (auto simp: Let_def table_result_def)
      qed
    qed
  qed
qed

section \<open>Checks and reset\<close>

lemma check_from_mono:
  "check_from n k es table = Some t \<Longrightarrow> wf_table n table \<Longrightarrow> 0 < end_errors n table \<Longrightarrow> k + length es \<le> Suc n \<Longrightarrow>
    0 < end_errors n t"
proof (induction es arbitrary: k table)
  case (Cons e es)
  show ?case
  proof (cases "entry_checkfn e = None \<or> entry_checkfn e = Some 0")
    case True
    then show ?thesis using Cons by auto
  next
    case False
    then obtain err where err: "entry_checkfn e = Some err" "err \<noteq> 0" by auto
    obtain t1 where t1: "register n table k err None = Some t1" "wf_table n t1" "0 < end_errors n t1"
      using register_ok [OF Cons.prems(2), of k err None] Cons.prems(4) by auto
    have "check_from n (k + 1) es t1 = Some t" using Cons.prems(1) err t1(1) by simp
    then show ?thesis by (rule Cons.IH) (use t1 Cons.prems(4) in simp_all)
  qed
qed simp

lemma check_from_ok:
  "wf_table n table \<Longrightarrow> i + length es \<le> Suc n \<Longrightarrow> \<exists>t. check_from n i es table = Some t \<and> wf_table n t \<and> headers t = headers table \<and>
    (\<forall>j < n. t ! j = table ! j) \<and> (end_errors n t = 0 \<longrightarrow> (\<forall>e \<in> set es. \<forall>err. entry_checkfn e = Some err \<longrightarrow> err = 0))"
proof (induction es arbitrary: i table)
  case (Cons e es)
  show ?case
  proof (cases "entry_checkfn e = None \<or> entry_checkfn e = Some 0")
    case True
    then show ?thesis using Cons.IH [OF Cons.prems(1), of "i + 1"] Cons.prems(2) by auto
  next
    case False
    then obtain err where err: "entry_checkfn e = Some err" "err \<noteq> 0" by auto
    obtain t where t: "register n table i err None = Some t" "wf_table n t" "headers t = headers table" "\<forall>j < n. t ! j = table ! j"
        "0 < end_errors n t"
      using register_ok [OF Cons.prems(1), of i err None] Cons.prems(2) by auto
    obtain t' where "check_from n (i + 1) es t = Some t'" "wf_table n t'" "headers t' = headers t" "\<forall>j < n. t' ! j = t ! j"
      using Cons.IH [OF t(2), of "i + 1"] Cons.prems(2) by auto
    moreover from this have "0 < end_errors n t'" using check_from_mono [of n "i + 1" es t t'] t Cons.prems(2) by simp
    ultimately show ?thesis using t err by auto
  qed
qed simp

definition satisfied :: "arg_entry \<Rightarrow> bool" where
  "satisfied e \<longleftrightarrow> hdr_mincount (entry_hdr e) \<le> entry_count e"

lemma check_satisfied: "entry_ok e \<Longrightarrow> (\<forall>err. entry_checkfn e = Some err \<longrightarrow> err = 0) \<longleftrightarrow> satisfied e"
  by (cases e) (auto simp: satisfied_def lit.check_law int.check_law str.check_law ARG_ERR_MINCOUNT_def)

lemma parse_check_ok:
  assumes "wf_table n table"
  shows "\<exists>t. arg_parse_check n table = Some t \<and> wf_table n t \<and> headers t = headers table \<and>
    (end_errors n t = 0 \<longrightarrow> (\<forall>i < n. satisfied (t ! i)))"
proof -
  obtain t where t: "arg_parse_check n table = Some t" "wf_table n t" "headers t = headers table" "\<forall>j < n. t ! j = table ! j"
      "end_errors n t = 0 \<longrightarrow> (\<forall>e \<in> set (take (Suc n) table). \<forall>err. entry_checkfn e = Some err \<longrightarrow> err = 0)"
    using check_from_ok [OF assms, of 0 "take (Suc n) table"] by (auto simp: arg_parse_check_def)
  have "satisfied (t ! i)" if "end_errors n t = 0" "i < n" for i
  proof -
    have "table ! i \<in> set (take (Suc n) table)"
      using that(2) assms by (auto simp: wf_table_def in_set_conv_nth intro!: exI [of _ i])
    then show ?thesis
      using t(4,5) that check_satisfied table_entry [OF assms that(2)] by metis
  qed
  then show ?thesis using t by blast
qed

lemma reset_ok:
  assumes "wf_table n table"
  shows "wf_table n (arg_reset n table)" "headers (arg_reset n table) = headers table"
proof -
  have r: "entry_ok (entry_resetfn e) \<and> shape (entry_resetfn e) = shape e" if "entry_ok e" for e
    using that lit.reset_law int.reset_law str.reset_law by (cases e) (auto simp: shape_def)
  have n: "n < length table" using assms by (simp add: wf_table_def)
  have at: "arg_reset n table ! i = entry_resetfn (table ! i)" if "i \<le> n" for i
    using that n by (auto simp: arg_reset_def nth_append)
  have len: "length (arg_reset n table) = length table" using n by (simp add: arg_reset_def)
  obtain e where e: "table ! n = E_end e" "wf_end n e" "hdr_flag (end_hdr e) = ARG_TERMINATOR" "hdr_longopts (end_hdr e) = None"
    using assms by (auto simp: wf_table_def)
  show "wf_table n (arg_reset n table)"
    using assms n at len r e by (auto simp: wf_table_def arg_end_resetfn_def wf_end_def)
  have "shape (arg_reset n table ! i) = shape (table ! i)" if "i < length table" for i
  proof (cases "i < n")
    case True
    then show ?thesis using at [of i] r table_entry [OF assms True] by simp
  next
    case False
    then show ?thesis
      using at [of n] e that n by (cases "i = n") (auto simp: arg_end_resetfn_def arg_reset_def nth_append shape_def)
  qed
  then show "headers (arg_reset n table) = headers table" by (intro nth_equalityI) (simp_all add: len)
qed

lemma finish_ok:
  assumes "wf_table n table"
  shows "\<exists>t. arg_finish n table = Some (end_errors n t, t) \<and> wf_table n t \<and> headers t = headers table \<and>
    (end_errors n t = 0 \<longrightarrow> (\<forall>i < n. satisfied (t ! i)))"
  using parse_check_ok [OF assms] assms by (auto simp: arg_finish_def)

section \<open>arg\_parse\<close>

definition parsed :: "nat \<Rightarrow> arg_table \<Rightarrow> nat \<times> arg_table \<Rightarrow> bool" where
  "parsed n table x \<longleftrightarrow> (case x of (errs, t) \<Rightarrow> wf_table n t \<and> headers t = headers table \<and> errs = end_errors n t \<and>
     (errs = 0 \<longrightarrow> (\<forall>i < n. satisfied (t ! i))))"

lemma arg_parse_ok:
  assumes wf: "wf_table n table" and num: "number_safe argv"
  shows "(case arg_parse fuel posix g argv table of
      Inl f \<Rightarrow> f = Out_of_fuel \<and> ((\<forall>a \<in> set argv. \<not> malformed a) \<longrightarrow> fuel \<le> weight argv)
    | Inr x \<Rightarrow> parsed n table x)"
proof (cases "argv = []")
  case True
  obtain t where "arg_parse_check n (arg_reset n table) = Some t" "wf_table n t" "headers t = headers (arg_reset n table)"
      "end_errors n t = 0 \<longrightarrow> (\<forall>i < n. satisfied (t ! i))"
    using parse_check_ok [OF reset_ok(1) [OF wf]] by auto
  then show ?thesis
    using True wf_endindex [OF wf] reset_ok(2) [OF wf] by (simp add: arg_parse_def Let_def lift_ub_def parsed_def)
next
  case False
  let ?t = "arg_reset n table" and ?g = "g\<lparr>nargv := argv, optind := 0, opterr := False, getoptval := 0\<rparr>"
  have wf0: "wf_table n ?t" and h0: "headers ?t = headers table" using reset_ok [OF wf] by auto
  have ready: "call_ready (length argv) ?g" using False by (simp add: call_ready_def Suc_le_eq)
  have "scan_state (length argv) argv ?g" using num by (simp add: scan_state_def)
  note loop = tagged_loop_ok [OF ready this wf0 refl wf0, of fuel posix]
  have left: "left (getopt_begin ?g) \<le> weight argv"
    using weight_mono [of 0 1 argv] by (simp add: getopt_begin_def Let_def left_def)
  have tagged: "arg_parse_tagged fuel posix n (g\<lparr>nargv := argv\<rparr>) ?t =
      tagged_loop fuel posix n (length argv) (alloc_shortoptions ?t) (longs_from ?t 0) ?g ?t"
    using alloc_longs_ok [OF wf0] by (simp add: arg_parse_tagged_def)
  show ?thesis
  proof (cases "tagged_loop fuel posix n (length argv) (alloc_shortoptions ?t) (longs_from ?t 0) ?g ?t")
    case (Inl f)
    then show ?thesis
      using loop left wf_endindex [OF wf] False tagged by (auto simp: arg_parse_def Let_def)
  next
    case (Inr x)
    obtain s t where x: "x = (s, t)" by (cases x)
    have t: "mset (nargv s) = mset argv" "wf_table n t" "headers t = headers table"
      using loop Inr x h0 by (auto simp: tagged_done_def)
    have "number_safe (nargv s)" using num number_safe_mset [OF t(1)] by simp
    then obtain t1 where t1: "arg_parse_untagged n s t = Some t1" "wf_table n t1" "headers t1 = headers t"
      using untagged_loop_ok [OF t(2), of "nargv s" 0 None "optind s"] by (auto simp: arg_parse_untagged_def table_result_def)
    obtain t2 where "arg_finish n t1 = Some (end_errors n t2, t2)" "wf_table n t2" "headers t2 = headers t1"
        "end_errors n t2 = 0 \<longrightarrow> (\<forall>i < n. satisfied (t2 ! i))"
      using finish_ok [OF t1(2)] by auto
    then show ?thesis
      using Inr x t1 t(3) wf_endindex [OF wf] False tagged by (auto simp: arg_parse_def Let_def lift_ub_def parsed_def)
  qed
qed

end
