(* ===== verification/Arg_Main.thy ===== *)
theory Arg_Main
  imports Arg_Safety Barco_Main
begin

text \<open>
  The argument table of \<open>main\<close> in \<open>src/barco.c\<close>, what \<open>main\<close> reads from it after \<open>arg_parse\<close>, and the
  behaviour of the command line of the program.
\<close>

section \<open>The table\<close>

definition main_table :: arg_table where
  "main_table =
    [E_lit (arg_litn None (Some ''help'') 0 1 (Some ''display help and exit'')),
     E_lit (arg_litn None (Some ''version'') 0 1 (Some ''display version and exit'')),
     E_int (arg_intn (Some ''u'') (Some ''uid'') (Some ''<n>'') 1 1 (Some ''UID/GID inside container'')),
     E_str (arg_strn (Some ''m'') (Some ''mnt'') (Some ''<path>'') 1 1 (Some ''rootfs directory'')),
     E_str (arg_strn (Some ''c'') (Some ''cmd'') (Some ''<cmd>'') 1 1 (Some ''command to execute'')),
     E_str (arg_strn (Some ''a'') (Some ''arg'') (Some ''<arg>'') 0 1 (Some ''argument for command'')),
     E_lit (arg_litn (Some ''v'') (Some ''verbosity'') 0 1 (Some ''verbose output'')),
     E_str (arg_strn None (Some ''veth'') (Some ''<name>'') 0 1 (Some ''veth name inside container (e.g., eth0)'')),
     E_str (arg_strn None (Some ''veth-peer'') (Some ''<name>'') 0 1 (Some ''veth peer name on host (auto-generated if omitted)'')),
     E_str (arg_strn None (Some ''container-ip'') (Some ''<ip/cidr>'') 0 1 (Some ''IP address for container (e.g., 10.0.0.2/24)'')),
     E_str (arg_strn None (Some ''host-ip'') (Some ''<ip/cidr>'') 0 1 (Some ''IP address for host veth (e.g., 10.0.0.1/24)'')),
     E_lit (arg_litn None (Some ''nat'') 0 1 (Some ''enable NAT/masquerade for container internet access'')),
     E_str (arg_strn None (Some ''dns'') (Some ''<ip>'') 0 1 (Some ''DNS server for container (default: 8.8.8.8)'')),
     E_end (arg_end 20)]"

lemma main_table_wf: "wf_table 13 main_table"
  unfolding wf_table_def
proof (intro conjI allI impI)
  show "13 < length main_table" by (simp add: main_table_def)
  have "\<forall>e \<in> set (take 13 main_table). entry_ok e"
    by (simp add: main_table_def constructors_wf opts_ok_def arg_litn_def arg_intn_def arg_strn_def wf_lit_def wf_int_def wf_str_def foolproof_def)
  then show "entry_ok (main_table ! i)" if "i < 13" for i
    using that by (metis \<open>13 < length main_table\<close> in_set_conv_nth length_take less_le min.absorb2 nth_take)
  show "\<exists>e. main_table ! 13 = E_end e \<and> wf_end 13 e \<and> hdr_flag (end_hdr e) = ARG_TERMINATOR \<and> hdr_longopts (end_hdr e) = None"
    using constructors_wf(4) [of 20 13] by (simp add: main_table_def arg_end_def)
qed

section \<open>Reading the values\<close>

definition lit_at :: "arg_table \<Rightarrow> nat \<Rightarrow> nat option" where
  "lit_at table i = do { e \<leftarrow> elem table i; case e of E_lit a \<Rightarrow> Some (lit_count a) | _ \<Rightarrow> None }"

text \<open>\<open>x->count ? x->sval[0] : NULL\<close>\<close>

definition str_at :: "arg_table \<Rightarrow> nat \<Rightarrow> string option option" where
  "str_at table i = do { e \<leftarrow> elem table i; case e of
       E_str a \<Rightarrow> if 0 < str_count a then map_option Some (elem (str_sval a) 0) else Some None
     | _ \<Rightarrow> None }"

text \<open>\<open>x->sval[0]\<close> and \<open>x->ival[0]\<close>; an uninitialised element cannot be read.\<close>

definition first_str :: "arg_table \<Rightarrow> nat \<Rightarrow> string option" where
  "first_str table i = do { e \<leftarrow> elem table i; case e of E_str a \<Rightarrow> elem (str_sval a) 0 | _ \<Rightarrow> None }"

definition first_int :: "arg_table \<Rightarrow> nat \<Rightarrow> int option" where
  "first_int table i = do { e \<leftarrow> elem table i; case e of E_int a \<Rightarrow> do { v \<leftarrow> elem (int_ival a) 0; v } | _ \<Rightarrow> None }"

text \<open>The values are only read without errors and without \<open>--help\<close>.  The texts are those that the
  library prints.\<close>

definition read_cmdline :: "string \<Rightarrow> string \<Rightarrow> string \<Rightarrow> nat \<Rightarrow> arg_table \<Rightarrow> cmdline option" where
  "read_cmdline errtext syntax glossary errs table = do {
     h \<leftarrow> lit_at table 0;
     let cl = \<lparr>cl_errors = int errs, cl_help = h, cl_verbose = 0, cl_nat = 0, cl_uid = 0, cl_mnt = [], cl_cmd = [],
       cl_arg = None, cl_veth = None, cl_veth_peer = None, cl_container_ip = None, cl_host_ip = None, cl_dns = None,
       cl_error_text = errtext, cl_syntax_text = syntax, cl_glossary_text = glossary\<rparr>;
     if 0 < errs \<or> 0 < h then Some cl
     else do {
       verbose \<leftarrow> lit_at table 6;
       uid \<leftarrow> first_int table 2;
       mnt \<leftarrow> first_str table 3;
       cmd \<leftarrow> first_str table 4;
       arg \<leftarrow> str_at table 5;
       dns \<leftarrow> str_at table 12;
       veth \<leftarrow> str_at table 7;
       container_ip \<leftarrow> str_at table 9;
       host_ip \<leftarrow> str_at table 10;
       nat \<leftarrow> lit_at table 11;
       veth_peer \<leftarrow> str_at table 8;
       Some (cl\<lparr>cl_verbose := verbose, cl_nat := nat, cl_uid := uid, cl_mnt := mnt, cl_cmd := cmd, cl_arg := arg,
         cl_veth := veth, cl_veth_peer := veth_peer, cl_container_ip := container_ip, cl_host_ip := host_ip, cl_dns := dns\<rparr>)}}"

section \<open>Evaluation\<close>

lemmas getopt_eval = getopt_long_def getopt_internal_def option_flags_def getopt_begin_def getopt_longs_def getopt_short_def
  parse_long_options_def long_found_def long_argument_def scan_end_def next_word_def c_hd_def arg_at_def before_equal_def
  after_equal_def BADCH_def BADARG_def char_code_def warnx_def Let_def getopt_scan.simps

lemmas parse_eval = arg_parse_def arg_parse_tagged_def alloc_longoptions_def alloc_shortoptions_def count_names_def names_of_def
  tagged_step_def tagged_long_def tagged_short_def tagged_unknown_def scan_entry_def previous_arg_def register_def get_end_def
  elem_def arg_parse_untagged_def arg_finish_def end_errors_def arg_parse_check_def lift_ub_def arg_reset_def untagged_rest_def
  untagged_loop.simps terminator_def has_flag_def ARG_TERMINATOR_def ARG_HASVALUE_def ARG_HASOPTVALUE_def

lemmas entry_eval = arg_litn_def arg_intn_def arg_strn_def arg_end_def arg_lit_resetfn_def arg_int_resetfn_def arg_str_resetfn_def
  arg_end_resetfn_def arg_lit_scanfn_def arg_str_scanfn_def arg_lit_checkfn_def arg_int_checkfn_def arg_str_checkfn_def
  checkfn_def arg_register_error_def foolproof_def wr_def splice_def arg_codes

lemma help_run:
  "\<exists>t. arg_parse (Suc (Suc fuel)) posix g [''barco'', ''--help''] main_table = Inr (3, t) \<and> lit_at t 0 = Some 1"
  by (simp add: parse_eval entry_eval main_table_def getopt_eval lit_at_def)

section \<open>Options in canonical form\<close>

text \<open>The scanning state at the start of the argument \<open>i\<close>.\<close>

definition at_arg :: "getopt \<Rightarrow> string list \<Rightarrow> nat \<Rightarrow> string option \<Rightarrow> getopt" where
  "at_arg g argv i v = g\<lparr>nargv := argv, optind := i, opterr := False, optreset := False, optarg := v, place := [],
     place_moved := True, nonopt_start := None, nonopt_end := None, getoptval := 0\<rparr>"

lemma value_option:
  assumes "i + 1 < length argv" and "argv ! i = [CHR ''-'', c]" and "c \<noteq> CHR ''-''" and "c \<noteq> CHR '':''"
    and "dropWhile (\<lambda>x. x \<noteq> c) options = c # CHR '':'' # r" and "c_hd r \<noteq> CHR '':''" and "c_hd options = CHR '':''"
  shows "0 < i \<Longrightarrow> getopt_long posix (length argv) options longs (at_arg g argv i v) =
      Some (char_code c, at_arg g argv (i + 2) (Some (argv ! (i + 1))))"
    and "i = 1 \<Longrightarrow> getopt_long posix (length argv) options longs (g\<lparr>nargv := argv, optind := 0, opterr := False, getoptval := 0\<rparr>) =
      Some (char_code c, at_arg g argv (i + 2) (Some (argv ! (i + 1))))"
proof -
  have o: "option_flags posix options True = (False, \<not> posix, options)"
    using assms(7) by (simp add: option_flags_def)
  have hd: "c_hd (CHR '':'' # r) = CHR '':''" "c_hd [CHR ''-'', c] = CHR ''-''" "c_hd [c] = c" by (simp_all add: c_hd_def)
  have "options \<noteq> []" using assms(5) by auto
  moreover have "c \<in> set options" using set_dropWhileD [of c "\<lambda>x. x \<noteq> c" options] assms(5) by simp
  ultimately show "getopt_long posix (length argv) options longs (at_arg g argv i v) =
      Some (char_code c, at_arg g argv (i + 2) (Some (argv ! (i + 1))))" if "0 < i"
    using assms that o
    by (auto simp: getopt_long_def getopt_internal_def getopt_begin_def at_arg_def getopt_scan.simps getopt_longs_def hd
        getopt_short_def next_word_def Let_def)
  show "getopt_long posix (length argv) options longs (g\<lparr>nargv := argv, optind := 0, opterr := False, getoptval := 0\<rparr>) =
      Some (char_code c, at_arg g argv (i + 2) (Some (argv ! (i + 1))))" if "i = 1"
    using assms that o \<open>c \<in> set options\<close>
    by (auto simp: getopt_long_def getopt_internal_def getopt_begin_def at_arg_def getopt_scan.simps getopt_longs_def hd
        getopt_short_def next_word_def Let_def)
qed

lemma last_option:
  assumes "c_hd options = CHR '':''" and "argv \<noteq> []"
  shows "getopt_long posix (length argv) options longs (at_arg g argv (length argv) v) = Some (-1, at_arg g argv (length argv) None)"
  using assms
  by (simp add: getopt_long_def getopt_internal_def option_flags_def getopt_begin_def at_arg_def getopt_scan.simps scan_end_def Let_def)

lemma main_shorts: "alloc_shortoptions main_table = '':u:m:c:a:v''"
  by (simp add: alloc_shortoptions_def main_table_def entry_eval terminator_def has_flag_def ARG_TERMINATOR_def ARG_HASVALUE_def
      ARG_HASOPTVALUE_def)

lemma letter_codes:
  "char_of (117 :: nat) = CHR ''u''" "char_of (109 :: nat) = CHR ''m''" "char_of (99 :: nat) = CHR ''c''" "char_of (118 :: nat) = CHR ''v''"
  by code_simp+

lemma required_run:
  fixes i :: int and m c :: string
  assumes "INT_MIN \<le> i" and "i \<le> INT_MAX"
  defines "argv \<equiv> [''barco'', ''-u'', show_int i, ''-m'', m, ''-c'', c]"
  shows "\<exists>t. arg_parse (Suc (Suc (Suc (Suc fuel)))) posix g argv main_table = Inr (0, t) \<and>
    read_cmdline e s y 0 t = Some \<lparr>cl_errors = 0, cl_help = 0, cl_verbose = 0, cl_nat = 0, cl_uid = i, cl_mnt = m, cl_cmd = c,
       cl_arg = None, cl_veth = None, cl_veth_peer = None, cl_container_ip = None, cl_host_ip = None, cl_dns = None,
       cl_error_text = e, cl_syntax_text = s, cl_glossary_text = y\<rparr>"
proof -
  have scan: "arg_int_scanfn \<lparr>int_hdr = h, int_count = 0, int_ival = [x]\<rparr> (Some (show_int i)) =
      Some (0, \<lparr>int_hdr = h, int_count = 1, int_ival = [Some i]\<rparr>)" if "hdr_maxcount h = 1" for h x
    using int_values_stored [of "\<lparr>int_hdr = h, int_count = 0, int_ival = [x]\<rparr>" "[]" 1 i] assms that
    by (simp add: wf_int_def int_suffixes_def)
  have len: "length argv = 7" and ne: "argv \<noteq> []" by (simp_all add: argv_def)
  have reset: "arg_reset 13 main_table = main_table"
    by (simp add: arg_reset_def main_table_def entry_eval)
  obtain longs where longs: "alloc_longoptions main_table = Some longs"
    using alloc_longs_ok [OF main_table_wf] by blast
  let ?g = "g\<lparr>nargv := argv, optind := 0, opterr := False, getoptval := 0\<rparr>" and ?o = "'':u:m:c:a:v''"
  note opt = value_option [where argv = argv and options = ?o and posix = posix and longs = longs and g = g, unfolded len]
  have u: "getopt_long posix 7 ?o longs ?g = Some (117, at_arg g argv 3 (Some (show_int i)))"
    using opt(2) [of 1 "CHR ''u''" "''m:c:a:v''"] by (simp add: argv_def c_hd_def char_code_def numeral_eq_Suc)
  have m: "getopt_long posix 7 ?o longs (at_arg g argv 3 v) = Some (109, at_arg g argv 5 (Some m))" for v
    using opt(1) [of 3 "CHR ''m''" "''c:a:v''"] by (simp add: argv_def c_hd_def char_code_def numeral_eq_Suc)
  have c: "getopt_long posix 7 ?o longs (at_arg g argv 5 v) = Some (99, at_arg g argv 7 (Some c))" for v
    using opt(1) [of 5 "CHR ''c''" "''a:v''"] by (simp add: argv_def c_hd_def char_code_def numeral_eq_Suc)
  have last: "getopt_long posix 7 ?o longs (at_arg g argv 7 v) = Some (-1, at_arg g argv 7 None)" for v
    using last_option [of ?o argv posix longs g v] by (simp add: len c_hd_def) (simp add: argv_def)
  have arg: "optarg (at_arg g argv k v) = v" for k v by (simp add: at_arg_def)
  define T1 where "T1 = main_table[2 := E_int ((arg_intn (Some ''u'') (Some ''uid'') (Some ''<n>'') 1 1 (Some ''UID/GID inside container''))
    \<lparr>int_count := 1, int_ival := [Some i]\<rparr>)]"
  define T2 where "T2 = T1[3 := E_str ((arg_strn (Some ''m'') (Some ''mnt'') (Some ''<path>'') 1 1 (Some ''rootfs directory''))
    \<lparr>str_count := 1, str_sval := [m]\<rparr>)]"
  define T3 where "T3 = T2[4 := E_str ((arg_strn (Some ''c'') (Some ''cmd'') (Some ''<cmd>'') 1 1 (Some ''command to execute''))
    \<lparr>str_count := 1, str_sval := [c]\<rparr>)]"
  note eval = tagged_step_def tagged_short_def scan_entry_def elem_def terminator_def has_flag_def ARG_TERMINATOR_def ARG_HASVALUE_def
    entry_eval arg main_table_def letter_codes
  have s1: "tagged_step 13 117 (at_arg g argv k (Some (show_int i))) main_table = Some T1" for k
    by (simp add: eval scan T1_def)
  have s2: "tagged_step 13 109 (at_arg g argv k (Some m)) T1 = Some T2" for k
    by (simp add: eval T1_def T2_def)
  have s3: "tagged_step 13 99 (at_arg g argv k (Some c)) T2 = Some T3" for k
    by (simp add: eval T1_def T2_def T3_def)
  have f: "arg_parse_untagged 13 (at_arg g argv 7 None) T3 = Some T3" "arg_finish 13 T3 = Some (0, T3)"
    by (simp_all add: parse_eval entry_eval T1_def T2_def T3_def main_table_def at_arg_def len)
  have "arg_parse (Suc (Suc (Suc (Suc fuel)))) posix g argv main_table = Inr (0, T3)"
    using longs main_shorts wf_endindex [OF main_table_wf] reset len ne u m c last s1 s2 s3 f
    by (simp add: arg_parse_def arg_parse_tagged_def lift_ub_def)
  moreover have "read_cmdline e s y 0 T3 = Some \<lparr>cl_errors = 0, cl_help = 0, cl_verbose = 0, cl_nat = 0, cl_uid = i, cl_mnt = m, cl_cmd = c,
       cl_arg = None, cl_veth = None, cl_veth_peer = None, cl_container_ip = None, cl_host_ip = None, cl_dns = None,
       cl_error_text = e, cl_syntax_text = s, cl_glossary_text = y\<rparr>"
    by (simp add: read_cmdline_def lit_at_def str_at_def first_str_def first_int_def elem_def T1_def T2_def T3_def main_table_def entry_eval)
  ultimately show ?thesis by blast
qed

section \<open>The entries after a parse\<close>

lemma main_entry:
  assumes "wf_table 13 t" and "headers t = headers main_table" and "i < 13"
  shows "elem t i = Some (t ! i)" "entry_ok (t ! i)" "kind (t ! i) = kind (main_table ! i)" "entry_hdr (t ! i) = entry_hdr (main_table ! i)"
  using table_entry [OF assms(1,3)] headers_nth [OF assms(2), of i] by (auto simp: elem_def)

lemma read_entries:
  assumes "wf_table 13 t" and "headers t = headers main_table" and "i < 13"
  shows "kind (main_table ! i) = 0 \<Longrightarrow> lit_at t i \<noteq> None"
    and "kind (main_table ! i) = 2 \<Longrightarrow> hdr_maxcount (entry_hdr (main_table ! i)) = 1 \<Longrightarrow> str_at t i \<noteq> None \<and> first_str t i \<noteq> None"
    and "kind (main_table ! i) = 1 \<Longrightarrow> 0 < entry_count (t ! i) \<Longrightarrow> first_int t i \<noteq> None"
proof -
  note e = main_entry [OF assms]
  show "kind (main_table ! i) = 0 \<Longrightarrow> lit_at t i \<noteq> None"
    using e by (cases "t ! i") (auto simp: lit_at_def)
  show "kind (main_table ! i) = 2 \<Longrightarrow> hdr_maxcount (entry_hdr (main_table ! i)) = 1 \<Longrightarrow> str_at t i \<noteq> None \<and> first_str t i \<noteq> None"
    using e by (cases "t ! i") (auto simp: str_at_def first_str_def elem_def [of "str_sval x" for x] wf_str_def)
  show "kind (main_table ! i) = 1 \<Longrightarrow> 0 < entry_count (t ! i) \<Longrightarrow> first_int t i \<noteq> None"
  proof (cases "t ! i")
    case (E_int a)
    assume "0 < entry_count (t ! i)"
    then have c: "0 < int_count a" "0 < length (int_ival a)" "None \<notin> set (take (int_count a) (int_ival a))"
      using e E_int by (auto simp: wf_int_def)
    then have "int_ival a ! 0 \<in> set (take (int_count a) (int_ival a))" by (auto simp: in_set_conv_nth intro!: exI [of _ 0])
    then have "int_ival a ! 0 \<noteq> None" using c(3) by metis
    then show ?thesis using e(1) E_int c(2) by (auto simp: first_int_def elem_def [of "int_ival a"])
  qed (use e in auto)
qed

section \<open>A command line that is never parsed\<close>

abbreviation hang_argv :: "string list" where
  "hang_argv \<equiv> [''barco'', ''-v-'']"

definition hanging :: "getopt \<Rightarrow> dash \<Rightarrow> string \<Rightarrow> getopt" where
  "hanging g d p = (at_arg g hang_argv 1 None)\<lparr>place := p, dash_prefix := d\<rparr>"

lemma hang_calls:
  "getopt_long posix 2 '':u:m:c:a:v'' longs (g\<lparr>nargv := hang_argv, optind := 0, opterr := False, getoptval := 0\<rparr>) =
     Some (118, hanging g (dash_prefix g) ''-'')"
  "getopt_long posix 2 '':u:m:c:a:v'' longs (hanging g d ''-'') = Some (58, hanging g D_PREFIX [])"
  "getopt_long posix 2 '':u:m:c:a:v'' longs (hanging g d []) = Some (118, hanging g d ''-'')"
  by (simp_all add: getopt_eval hanging_def at_arg_def)

lemma hanging_ok: "getopt_ok 2 (hanging g d ''-'')" "getopt_ok 2 (hanging g d [])" "optarg_ok (hanging g d p)"
  by (auto simp: getopt_ok_def bounds_ok_def nonopt_ok_def hanging_def at_arg_def inside_def is_opt_def c_hd_def optarg_ok_def
      intro!: exI [of _ "2 :: nat"])

lemma number_safe_simple:
  assumes "\<forall>a \<in> set argv. CHR ''0'' \<notin> set a \<or> CHR ''-'' \<notin> set a"
  shows "number_safe argv"
  unfolding number_safe_def
proof (intro ballI allI impI)
  fix a k assume a: "a \<in> set argv"
  let ?v = "drop k a"
  have v: "CHR ''0'' \<notin> set ?v \<or> CHR ''-'' \<notin> set ?v" using assms a by (auto dest: in_set_dropD)
  have total: "strtol0X ?v X b \<noteq> None" for X b
  proof (rule ccontr)
    assume n: "\<not> strtol0X ?v X b \<noteq> None"
    obtain s ptr where s: "scan_sign (dropWhile is_space ?v) = (s, ptr)" by fastforce
    then obtain x rest where ptr: "ptr = CHR ''0'' # x # rest" and big: "\<not> s * fst (strtol b rest) \<le> LONG_MAX"
      using n by (auto simp: strtol0X_def split: list.splits if_splits prod.splits)
    have long: "fst (strtol b rest) \<le> LONG_MAX" by (auto simp: strtol_def Let_def split: prod.splits)
    define w where "w = dropWhile is_space ?v"
    have w: "set w \<subseteq> set ?v" unfolding w_def by (auto dest: set_dropWhileD)
    have "set ptr \<subseteq> set w" "s = 1 \<or> s = -1 \<and> CHR ''-'' \<in> set w"
      using s [folded w_def] by (cases w; auto simp: scan_sign_def split: if_splits)+
    then have sub: "set ptr \<subseteq> set ?v" "s = 1 \<or> s = -1 \<and> CHR ''-'' \<in> set ?v" using w by auto
    have "CHR ''0'' \<in> set ?v" using sub(1) ptr by auto
    then show False using v sub(2) big long by auto
  qed
  show "scan_number ?v \<noteq> None"
    using total [of "CHR ''X''" 16] total [of "CHR ''O''" 8] total [of "CHR ''B''" 2] by (auto simp: scan_number_def)
qed

lemma hang_step:
  assumes "wf_table 13 table" and "headers table = headers main_table"
  shows "\<exists>t. tagged_step 13 118 (hanging g d ''-'') table = Some t \<and> wf_table 13 t \<and> headers t = headers main_table"
    and "\<exists>t. tagged_step 13 58 (hanging g d []) table = Some t \<and> wf_table 13 t \<and> headers t = headers main_table"
proof -
  have st: "scan_state 2 hang_argv (hanging g d p)" for p
    using number_safe_simple [of hang_argv] by (simp add: scan_state_def hanging_def at_arg_def)
  have v: "\<not> takes_arg (alloc_shortoptions main_table) (CHR ''v'')"
    by (simp add: main_shorts takes_arg_def c_hd_def Let_def)
  have code: "char_code (CHR ''v'') = 118" by (simp add: char_code_def)
  show "\<exists>t. tagged_step 13 118 (hanging g d ''-'') table = Some t \<and> wf_table 13 t \<and> headers t = headers main_table"
    using tagged_short_ok [OF assms(1) hanging_ok(1,3) st _ _ _ assms(2) [symmetric] main_table_wf, of "CHR ''v''"] v code assms(2)
    by (simp add: tagged_step_def)
  show "\<exists>t. tagged_step 13 58 (hanging g d []) table = Some t \<and> wf_table 13 t \<and> headers t = headers main_table"
    using register_ok [OF assms(1) order_refl, of ARG_EMISSARG "Some ''barco''"] assms(2)
    by (auto simp: tagged_step_def tagged_missing_def previous_arg_def arg_at_def hanging_def at_arg_def)
qed

lemma hang_loop:
  assumes "wf_table 13 table" and "headers table = headers main_table" and "p = ''-'' \<or> p = []"
  shows "tagged_loop fuel posix 13 2 '':u:m:c:a:v'' longs (hanging g d p) table = Inl Out_of_fuel"
  using assms
proof (induction fuel arbitrary: table d p)
  case (Suc fuel)
  from Suc.prems(3) show ?case
  proof
    assume "p = ''-''"
    then show ?thesis
      using hang_calls(2) [of posix longs g d] hang_step(2) [OF Suc.prems(1,2), of g D_PREFIX] Suc.IH by auto
  next
    assume "p = []"
    then show ?thesis
      using hang_calls(3) [of posix longs g d] hang_step(1) [OF Suc.prems(1,2), of g d] Suc.IH by auto
  qed
qed simp

section \<open>Properties\<close>

text \<open>C4: For every command line and whatever state getopt was left in, arg_parse on a well-typed table either
  runs on or returns a well-typed table: the kinds and headers of the entries are unchanged, no count
  exceeds its maximum, the counted values are initialised, and the errors are within their array.  It never
  accesses an array out of bounds.  When it reports no error, every option has been given at least as
  often as its minimum.  (An integer option must not contain a negated least long after a prefix.)\<close>

theorem arg_parse_typed:
  assumes "wf_table n table" and "number_safe argv"
  shows "(case arg_parse fuel posix g argv table of
      Inl f \<Rightarrow> f = Out_of_fuel
    | Inr (errs, t) \<Rightarrow> wf_table n t \<and> headers t = headers table \<and> errs = end_errors n t \<and>
        (errs = 0 \<longrightarrow> (\<forall>i < n. hdr_mincount (entry_hdr (t ! i)) \<le> entry_count (t ! i))))"
  using arg_parse_ok [OF assms, of fuel posix g] by (auto simp: parsed_def satisfied_def split: sum.splits)

theorem arg_parse_typed_witness:
  "\<exists>t. arg_parse 2 False (initial_getopt []) [''barco'', ''--help''] main_table = Inr (3, t) \<and> wf_table 13 t \<and> end_errors 13 t = 3"
proof -
  obtain t where "arg_parse 2 False (initial_getopt []) [''barco'', ''--help''] main_table = Inr (3, t)"
    using help_run [of 0 False "initial_getopt []"] by (auto simp: numeral_2_eq_2)
  then show ?thesis
    using arg_parse_typed [OF main_table_wf, of "[''barco'', ''--help'']" 2 False "initial_getopt []"]
      number_safe_simple [of "[''barco'', ''--help'']"] by simp
qed

text \<open>C5: After arg_parse, main reads only initialised values inside the arrays of the table, for every command line in which
  no argument holds a negated least long after a prefix, as -0x-8000000000000000 (number_safe); when no error was
  reported, the user id, the root directory and the command have been given exactly once.\<close>

theorem main_reads_initialised:
  assumes "number_safe argv" and "arg_parse fuel posix g argv main_table = Inr (errs, t)"
  shows "read_cmdline e s y errs t \<noteq> None \<and> (errs = 0 \<longrightarrow> map entry_count [t ! 2, t ! 3, t ! 4] = [1, 1, 1])"
proof -
  have t: "wf_table 13 t" "headers t = headers main_table" "errs = 0 \<Longrightarrow> \<forall>i < 13. satisfied (t ! i)"
    using arg_parse_ok [OF main_table_wf assms(1), of fuel posix g] assms(2) by (auto simp: parsed_def)
  note r = read_entries [OF t(1,2)]
  have lit: "lit_at t 0 \<noteq> None" "lit_at t 6 \<noteq> None" "lit_at t 11 \<noteq> None"
    by (rule r(1); simp add: main_table_def)+
  have "str_at t i \<noteq> None \<and> first_str t i \<noteq> None" if "i \<in> {3, 4, 5, 7, 8, 9, 10, 12}" for i
    by (rule r(2)) (use that in \<open>auto simp: main_table_def arg_strn_def foolproof_def\<close>)
  then have strs: "str_at t 5 \<noteq> None" "str_at t 7 \<noteq> None" "str_at t 8 \<noteq> None" "str_at t 9 \<noteq> None" "str_at t 10 \<noteq> None"
      "str_at t 12 \<noteq> None" "first_str t 3 \<noteq> None" "first_str t 4 \<noteq> None"
    by simp_all
  have once: "entry_count (t ! i) = 1" if "errs = 0" "i \<in> {2, 3, 4}" for i
  proof -
    have i: "i < 13" using that(2) by auto
    have "hdr_mincount (entry_hdr (main_table ! i)) = 1" "hdr_maxcount (entry_hdr (main_table ! i)) = 1"
      using that(2) by (auto simp: main_table_def arg_intn_def arg_strn_def foolproof_def)
    moreover have "entry_count (t ! i) \<le> hdr_maxcount (entry_hdr (t ! i))"
      using main_entry(2) [OF t(1,2) i] by (cases "t ! i") (auto simp: wf_lit_def wf_int_def wf_str_def)
    ultimately show ?thesis
      using t(3) [OF that(1)] i main_entry(4) [OF t(1,2) i] by (fastforce simp: satisfied_def)
  qed
  have "first_int t 2 \<noteq> None" if "errs = 0"
    by (rule r(3)) (use once [OF that, of 2] in \<open>simp_all add: main_table_def\<close>)
  then have "read_cmdline e s y errs t \<noteq> None"
    using lit strs by (cases "errs = 0") (auto simp: read_cmdline_def Let_def)
  then show ?thesis using once by simp
qed

theorem main_reads_initialised_witness:
  "\<exists>t. arg_parse 2 False (initial_getopt []) [''barco'', ''--help''] main_table = Inr (3, t) \<and> read_cmdline [] [] [] 3 t \<noteq> None"
proof -
  obtain t where t: "arg_parse 2 False (initial_getopt []) [''barco'', ''--help''] main_table = Inr (3, t)"
    using help_run [of 0 False "initial_getopt []"] by (auto simp: numeral_2_eq_2)
  then show ?thesis
    using main_reads_initialised [OF _ t, of "[]" "[]" "[]"] number_safe_simple [of "[''barco'', ''--help'']"] by simp
qed

text \<open>C6: arg_parse returns: with fuel for every character of the command line it ends on a well-typed table, unless an
  argument is a group of one-letter options that ends in a dash (malformed) or holds a negated least long after a
  prefix, as -0x-8000000000000000 (number_safe).\<close>

theorem arg_parse_returns:
  assumes "wf_table n table" and "number_safe argv" and "\<forall>a \<in> set argv. \<not> malformed a" and "weight argv < fuel"
  shows "\<exists>errs t. arg_parse fuel posix g argv table = Inr (errs, t)"
  using arg_parse_ok [OF assms(1,2), of fuel posix g] assms(3,4) by (auto split: sum.splits)

theorem arg_parse_returns_witness:
  "\<exists>errs t. arg_parse 100 True (initial_getopt []) [''barco'', ''-vx'', ''--veth'', ''stray''] main_table = Inr (errs, t)"
  by (rule arg_parse_returns [OF main_table_wf])
    (simp_all add: number_safe_simple malformed_def is_opt_def c_hd_def weight_def)

text \<open>C31: The command line barco -v- is never parsed: however much fuel is given, arg_parse does not return.
  The dash after the option v is taken for a long option without a name, and the scan starts over at
  the same argument.\<close>

theorem dash_after_option_hangs: "arg_parse fuel posix g [''barco'', ''-v-''] main_table = Inl Out_of_fuel"
proof -
  let ?t = "arg_reset 13 main_table"
  have t: "wf_table 13 ?t" "headers ?t = headers main_table" using reset_ok [OF main_table_wf] by auto
  have same: "?t = main_table" by (simp add: arg_reset_def main_table_def entry_eval)
  obtain longs where longs: "alloc_longoptions main_table = Some longs" using alloc_longs_ok [OF main_table_wf] by blast
  have "tagged_loop fuel posix 13 2 '':u:m:c:a:v'' longs (g\<lparr>nargv := hang_argv, optind := 0, opterr := False, getoptval := 0\<rparr>) main_table
      = Inl Out_of_fuel"
  proof (cases fuel)
    case (Suc n)
    then show ?thesis
      using hang_calls(1) [of posix longs g] hang_step(1) [OF main_table_wf refl, of g "dash_prefix g"] hang_loop by auto
  qed simp
  then show ?thesis
    using wf_endindex [OF main_table_wf] same longs main_shorts by (simp add: arg_parse_def arg_parse_tagged_def Let_def numeral_2_eq_2)
qed

text \<open>C30: The required options in their one-letter form are read as given: for every int, path and command, arg_parse
  reports no error and main reads exactly these values, with every other option absent.\<close>

theorem required_options_read:
  assumes "INT_MIN \<le> i" and "i \<le> INT_MAX"
  shows "\<exists>t. arg_parse (Suc (Suc (Suc (Suc fuel)))) posix g [''barco'', ''-u'', show_int i, ''-m'', m, ''-c'', c] main_table = Inr (0, t) \<and>
    read_cmdline e s y 0 t = Some \<lparr>cl_errors = 0, cl_help = 0, cl_verbose = 0, cl_nat = 0, cl_uid = i, cl_mnt = m, cl_cmd = c,
       cl_arg = None, cl_veth = None, cl_veth_peer = None, cl_container_ip = None, cl_host_ip = None, cl_dns = None,
       cl_error_text = e, cl_syntax_text = s, cl_glossary_text = y\<rparr>"
  using required_run [OF assms] .

theorem required_options_read_witness:
  "\<exists>t cl. arg_parse 4 False (initial_getopt []) [''barco'', ''-u'', show_int 0, ''-m'', ''-c'', ''-c'', ''sh''] main_table = Inr (0, t) \<and>
    read_cmdline [] [] [] 0 t = Some cl \<and> cl_mnt cl = ''-c''"
  using required_options_read [of 0 0 False "initial_getopt []" "''-c''" "''sh''" "[]" "[]" "[]"] by (fastforce simp: numeral_eq_Suc)

end
