(* ===== verification/Arg_Output.thy ===== *)
theory Arg_Output
  imports Arg_Print Arg_Main
begin

text \<open>
  The error messages of \<open>lib/argtable/argtable3.c\<close>, the texts that its printing functions produce, and what \<open>main\<close> of
  \<open>src/barco.c\<close> prints for a command line that asks for help or is wrong.
\<close>

section \<open>Error messages\<close>

definition null_safe :: "string option \<Rightarrow> string" where
  "null_safe s = (case s of Some x \<Rightarrow> x | None \<Rightarrow> [])"

definition arg_lit_errorfn :: "arg_hdr \<Rightarrow> int \<Rightarrow> string \<Rightarrow> dstr \<Rightarrow> dstr option" where
  "arg_lit_errorfn h errorcode progname ds =
     (if errorcode = ARG_ERR_MINCOUNT then do {
        ds \<leftarrow> arg_dstr_catf ''%s: missing option '' [F_str progname] ds;
        ds \<leftarrow> arg_print_option_ds (hdr_shortopts h) (hdr_longopts h) (hdr_datatype h) newline ds;
        arg_dstr_cat newline ds}
      else if errorcode = ARG_ERR_MAXCOUNT then do {
        ds \<leftarrow> arg_dstr_catf ''%s: extraneous option '' [F_str progname] ds;
        arg_print_option_ds (hdr_shortopts h) (hdr_longopts h) (hdr_datatype h) newline ds}
      else Some ds)"

definition arg_int_errorfn :: "arg_hdr \<Rightarrow> int \<Rightarrow> string option \<Rightarrow> string \<Rightarrow> dstr \<Rightarrow> dstr option" where
  "arg_int_errorfn h errorcode argval progname ds = (let argval = null_safe argval in do {
     ds \<leftarrow> arg_dstr_catf ''%s: '' [F_str progname] ds;
     if errorcode = ARG_ERR_MINCOUNT then do {
       ds \<leftarrow> arg_dstr_cat ''missing option '' ds;
       arg_print_option_ds (hdr_shortopts h) (hdr_longopts h) (hdr_datatype h) newline ds}
     else if errorcode = ARG_ERR_MAXCOUNT then do {
       ds \<leftarrow> arg_dstr_cat ''excess option '' ds;
       arg_print_option_ds (hdr_shortopts h) (hdr_longopts h) (Some argval) newline ds}
     else if errorcode = ARG_ERR_BADINT then do {
       ds \<leftarrow> arg_dstr_catf (''invalid argument '' @ [CHR 0x22] @ ''%s'' @ [CHR 0x22] @ '' to option '') [F_str argval] ds;
       arg_print_option_ds (hdr_shortopts h) (hdr_longopts h) (hdr_datatype h) newline ds}
     else if errorcode = ARG_ERR_OVERFLOW then do {
       ds \<leftarrow> arg_dstr_cat ''integer overflow at option '' ds;
       ds \<leftarrow> arg_print_option_ds (hdr_shortopts h) (hdr_longopts h) (hdr_datatype h) '' '' ds;
       arg_dstr_catf (''(%s is too large)'' @ newline) [F_str argval] ds}
     else Some ds})"

definition arg_str_errorfn :: "arg_hdr \<Rightarrow> int \<Rightarrow> string option \<Rightarrow> string \<Rightarrow> dstr \<Rightarrow> dstr option" where
  "arg_str_errorfn h errorcode argval progname ds = (let argval = null_safe argval in do {
     ds \<leftarrow> arg_dstr_catf ''%s: '' [F_str progname] ds;
     if errorcode = ARG_ERR_MINCOUNT then do {
       ds \<leftarrow> arg_dstr_cat ''missing option '' ds;
       arg_print_option_ds (hdr_shortopts h) (hdr_longopts h) (hdr_datatype h) newline ds}
     else if errorcode = ARG_ERR_MAXCOUNT then do {
       ds \<leftarrow> arg_dstr_cat ''excess option '' ds;
       arg_print_option_ds (hdr_shortopts h) (hdr_longopts h) (Some argval) newline ds}
     else Some ds})"

definition arg_end_errorfn :: "int \<Rightarrow> string option \<Rightarrow> string option \<Rightarrow> dstr \<Rightarrow> dstr option" where
  "arg_end_errorfn err argval progname ds = (let progname = null_safe progname; argval = null_safe argval in do {
     ds \<leftarrow> arg_dstr_catf ''%s: '' [F_str progname] ds;
     ds \<leftarrow> (if err = ARG_ELIMIT then arg_dstr_cat ''too many errors to display'' ds
       else if err = 2 then arg_dstr_cat ''insufficient memory'' ds
       else if err = ARG_ENOMATCH then arg_dstr_catf (''unexpected argument '' @ [CHR 0x22] @ ''%s'' @ [CHR 0x22]) [F_str argval] ds
       else if err = ARG_EMISSARG then
         arg_dstr_catf (''option '' @ [CHR 0x22] @ ''%s'' @ [CHR 0x22] @ '' requires an argument'') [F_str argval] ds
       else if err = ARG_ELONGOPT then arg_dstr_catf (''invalid option '' @ [CHR 0x22] @ ''%s'' @ [CHR 0x22]) [F_str argval] ds
       else arg_dstr_catf (''invalid option '' @ [CHR 0x22] @ ''-%c'' @ [CHR 0x22]) [F_char (char_of (nat (err mod 256)))] ds);
     arg_dstr_cat newline ds})"

primrec entry_errorfn :: "arg_entry \<Rightarrow> int \<Rightarrow> string option \<Rightarrow> string \<Rightarrow> dstr \<Rightarrow> dstr option" where
  "entry_errorfn (E_lit a) err argval progname ds = arg_lit_errorfn (lit_hdr a) err progname ds"
| "entry_errorfn (E_int a) err argval progname ds = arg_int_errorfn (int_hdr a) err argval progname ds"
| "entry_errorfn (E_str a) err argval progname ds = arg_str_errorfn (str_hdr a) err argval progname ds"
| "entry_errorfn (E_end a) err argval progname ds = arg_end_errorfn err argval (Some progname) ds"

text \<open>The errors in the order of the array.\<close>

fun print_error_list :: "arg_table \<Rightarrow> arg_error option list \<Rightarrow> string \<Rightarrow> dstr \<Rightarrow> dstr option" where
  "print_error_list table [] progname ds = Some ds"
| "print_error_list table (None # xs) progname ds = None"
| "print_error_list table (Some x # xs) progname ds = do {
     e \<leftarrow> elem table (err_parent x);
     ds \<leftarrow> entry_errorfn e (err_code x) (err_argval x) progname ds;
     print_error_list table xs progname ds}"

definition arg_print_errors_ds :: "nat \<Rightarrow> arg_table \<Rightarrow> string \<Rightarrow> dstr \<Rightarrow> dstr option" where
  "arg_print_errors_ds n table progname ds = do {
     e \<leftarrow> get_end n table;
     if length (end_error e) < end_count e then None
     else print_error_list table (take (end_count e) (end_error e)) progname ds}"

definition arg_print_errors :: "nat \<Rightarrow> arg_table \<Rightarrow> string \<Rightarrow> string option" where
  "arg_print_errors n table progname = printed (arg_print_errors_ds n table progname)"

section \<open>The texts\<close>

text \<open>The option as \<open>arg_print_option\<close> shows it.\<close>

definition shown_option :: "string option \<Rightarrow> string option \<Rightarrow> string option \<Rightarrow> string" where
  "shown_option so lo dt = the (do { st \<leftarrow> arg_cat_optionv so lo dt False ''|'' empty_syntax; cstr (cat_buf st) })"

definition end_message :: "int \<Rightarrow> string option \<Rightarrow> string" where
  "end_message err argval =
     (if err = ARG_ELIMIT then ''too many errors to display''
      else if err = 2 then ''insufficient memory''
      else if err = ARG_ENOMATCH then ''unexpected argument '' @ [CHR 0x22] @ null_safe argval @ [CHR 0x22]
      else if err = ARG_EMISSARG then ''option '' @ [CHR 0x22] @ null_safe argval @ [CHR 0x22] @ '' requires an argument''
      else if err = ARG_ELONGOPT then ''invalid option '' @ [CHR 0x22] @ null_safe argval @ [CHR 0x22]
      else takeWhile (\<lambda>c. c \<noteq> NUL) (''invalid option '' @ [CHR 0x22] @ ''-'' @ [char_of (nat (err mod 256))] @ [CHR 0x22])) @ newline"

definition value_message :: "bool \<Rightarrow> arg_hdr \<Rightarrow> int \<Rightarrow> string option \<Rightarrow> string" where
  "value_message is_int h err argval =
     (let opt = shown_option (hdr_shortopts h) (hdr_longopts h) (hdr_datatype h) in
      if err = ARG_ERR_MINCOUNT then ''missing option '' @ opt @ newline
      else if err = ARG_ERR_MAXCOUNT then
        ''excess option '' @ shown_option (hdr_shortopts h) (hdr_longopts h) (Some (null_safe argval)) @ newline
      else if is_int \<and> err = ARG_ERR_BADINT then
        ''invalid argument '' @ [CHR 0x22] @ null_safe argval @ [CHR 0x22] @ '' to option '' @ opt @ newline
      else if is_int \<and> err = ARG_ERR_OVERFLOW then
        ''integer overflow at option '' @ opt @ '' ('' @ null_safe argval @ '' is too large)'' @ newline
      else [])"

text \<open>What is printed for one error; the message of a missing literal ends in an empty line.\<close>

primrec error_text :: "arg_entry \<Rightarrow> int \<Rightarrow> string option \<Rightarrow> string \<Rightarrow> string" where
  "error_text (E_lit a) err argval progname =
     (let h = lit_hdr a; opt = shown_option (hdr_shortopts h) (hdr_longopts h) (hdr_datatype h) in
      if err = ARG_ERR_MINCOUNT then progname @ '': missing option '' @ opt @ newline @ newline
      else if err = ARG_ERR_MAXCOUNT then progname @ '': extraneous option '' @ opt @ newline else [])"
| "error_text (E_int a) err argval progname = progname @ '': '' @ value_message True (int_hdr a) err argval"
| "error_text (E_str a) err argval progname = progname @ '': '' @ value_message False (str_hdr a) err argval"
| "error_text (E_end a) err argval progname = progname @ '': '' @ end_message err argval"

definition table_end_errors :: "nat \<Rightarrow> arg_table \<Rightarrow> arg_error list" where
  "table_end_errors n table = (case get_end n table of Some e \<Rightarrow> map the (take (end_count e) (end_error e)) | None \<Rightarrow> [])"

definition errors_text :: "nat \<Rightarrow> arg_table \<Rightarrow> string \<Rightarrow> string" where
  "errors_text n table progname =
     concat (map (\<lambda>x. error_text (table ! err_parent x) (err_code x) (err_argval x) progname) (table_end_errors n table))"

section \<open>The functions print these texts\<close>

lemmas format_eval = c_format.simps convert_arg_def pad_field_def base_digit_def digit_val_def Let_def

lemma newline_nul_free [simp]: "nul_free newline"
  by (simp add: newline_def)

lemma takeWhile_id [simp]: "nul_free s \<Longrightarrow> takeWhile (\<lambda>c. c \<noteq> NUL) s = s"
  by (auto simp: nul_free_def takeWhile_eq_all_conv)

lemma writes_catf:
  assumes "c_format fmt args = Some t" and "s = takeWhile (\<lambda>c. c \<noteq> NUL) t"
  shows "dstr.writes (arg_dstr_catf fmt args) s"
proof -
  have "arg_dstr_catf fmt args = arg_dstr_cat s" using catf_is_cat [OF assms(1)] assms(2) by auto
  then show ?thesis using dstr.writes_put [OF takeWhile_nul_free, of t] assms(2) by simp
qed

lemma formats:
  "c_format ''%s: '' [F_str s] = Some (s @ '': '')"
  "c_format ''%s: missing option '' [F_str s] = Some (s @ '': missing option '')"
  "c_format ''%s: extraneous option '' [F_str s] = Some (s @ '': extraneous option '')"
  "c_format ''%s'' [F_str s] = Some s"
  by (simp_all add: format_eval)

lemma formats_quoted:
  "c_format (''invalid argument '' @ [CHR 0x22] @ ''%s'' @ [CHR 0x22] @ '' to option '') [F_str s] =
     Some (''invalid argument '' @ [CHR 0x22] @ s @ [CHR 0x22] @ '' to option '')"
  "c_format (''(%s is too large)'' @ newline) [F_str s] = Some (''('' @ s @ '' is too large)'' @ newline)"
  "c_format (''unexpected argument '' @ [CHR 0x22] @ ''%s'' @ [CHR 0x22]) [F_str s] =
     Some (''unexpected argument '' @ [CHR 0x22] @ s @ [CHR 0x22])"
  "c_format (''option '' @ [CHR 0x22] @ ''%s'' @ [CHR 0x22] @ '' requires an argument'') [F_str s] =
     Some (''option '' @ [CHR 0x22] @ s @ [CHR 0x22] @ '' requires an argument'')"
  "c_format (''invalid option '' @ [CHR 0x22] @ ''%s'' @ [CHR 0x22]) [F_str s] = Some (''invalid option '' @ [CHR 0x22] @ s @ [CHR 0x22])"
  "c_format (''invalid option '' @ [CHR 0x22] @ ''-%c'' @ [CHR 0x22]) [F_char c] =
     Some (''invalid option '' @ [CHR 0x22] @ ''-'' @ [c] @ [CHR 0x22])"
  by (simp_all add: format_eval newline_def)

lemma shown_option_ok:
  assumes "opt_nul_free so" and "opt_nul_free lo" and "opt_nul_free dt"
  shows "\<exists>st. arg_cat_optionv so lo dt False ''|'' empty_syntax = Some st \<and> cstr (cat_buf st) = Some (shown_option so lo dt)"
    "nul_free (shown_option so lo dt)"
proof -
  have "nul_free ''|''" by simp
  from appends_result [OF appends_optionv [OF assms this]] obtain st s
    where "arg_cat_optionv so lo dt False ''|'' empty_syntax = Some st" "cstr (cat_buf st) = Some s" by blast
  moreover from this have "shown_option so lo dt = s" by (simp add: shown_option_def)
  ultimately show "\<exists>st. arg_cat_optionv so lo dt False ''|'' empty_syntax = Some st \<and> cstr (cat_buf st) = Some (shown_option so lo dt)"
    "nul_free (shown_option so lo dt)" using cstr_nul_free by auto
qed

lemma writes_option:
  assumes "opt_nul_free so" and "opt_nul_free lo" and "opt_nul_free dt" and "nul_free sfx"
  shows "dstr.writes (arg_print_option_ds so lo dt sfx) (shown_option so lo dt @ sfx)"
proof -
  obtain st where "arg_cat_optionv so lo dt False ''|'' empty_syntax = Some st" "cstr (cat_buf st) = Some (shown_option so lo dt)"
    using shown_option_ok(1) [OF assms(1,2,3)] by blast
  then have "arg_print_option_ds so lo dt sfx = (\<lambda>ds. Option.bind (arg_dstr_cat (shown_option so lo dt) ds) (arg_dstr_cat sfx))"
    by (simp add: arg_print_option_ds_def [abs_def])
  then show ?thesis
    using dstr.writes_seq [OF dstr.writes_put dstr.writes_put] shown_option_ok(2) [OF assms(1,2,3)] assms(4) by simp
qed

lemma null_safe_nul_free: "opt_nul_free s \<Longrightarrow> nul_free (null_safe s)"
  by (simp add: opt_nul_free_def null_safe_def split: option.splits)

lemma writes_lit_error:
  assumes "hdr_ok (lit_hdr a)" and "nul_free progname"
  shows "dstr.writes (entry_errorfn (E_lit a) err v progname) (error_text (E_lit a) err v progname)"
proof -
  let ?o = "arg_print_option_ds (hdr_shortopts (lit_hdr a)) (hdr_longopts (lit_hdr a)) (hdr_datatype (lit_hdr a)) newline"
  let ?t = "shown_option (hdr_shortopts (lit_hdr a)) (hdr_longopts (lit_hdr a)) (hdr_datatype (lit_hdr a)) @ newline"
  have o: "dstr.writes ?o ?t" using assms(1) by (intro writes_option) (simp_all add: hdr_ok_def)
  have m: "dstr.writes (arg_dstr_catf ''%s: missing option '' [F_str progname]) (progname @ '': missing option '')"
    and x: "dstr.writes (arg_dstr_catf ''%s: extraneous option '' [F_str progname]) (progname @ '': extraneous option '')"
    by (rule writes_catf [OF formats(2)], use assms(2) in simp) (rule writes_catf [OF formats(3)], use assms(2) in simp)
  have e: "entry_errorfn (E_lit a) err v progname = arg_lit_errorfn (lit_hdr a) err progname" by (rule ext) simp
  show ?thesis
    unfolding e
    using dstr.writes_seq [OF m dstr.writes_seq [OF o dstr.writes_put [OF newline_nul_free]]] dstr.writes_seq [OF x o] dstr.writes_none
    by (simp add: arg_lit_errorfn_def [abs_def] Let_def)
qed

text \<open>The start of a message and one of its parts.\<close>

lemma writes_prefixed:
  assumes "nul_free progname" and "dstr.writes f t"
  shows "dstr.writes (\<lambda>ds. Option.bind (arg_dstr_catf ''%s: '' [F_str progname] ds) f) (progname @ '': '' @ t)"
proof -
  have "dstr.writes (arg_dstr_catf ''%s: '' [F_str progname]) (progname @ '': '')"
    by (rule writes_catf [OF formats(1)]) (use assms(1) in simp)
  from dstr.writes_seq [OF this assms(2)] show ?thesis by simp
qed

lemma writes_pair:
  assumes "nul_free s" and "dstr.writes f t"
  shows "dstr.writes (\<lambda>ds. Option.bind (arg_dstr_cat s ds) f) (s @ t)"
  by (rule dstr.writes_seq [OF dstr.writes_put [OF assms(1)] assms(2)])

lemma writes_format_pair:
  assumes "c_format fmt args = Some s" and "nul_free s" and "dstr.writes f t"
  shows "dstr.writes (\<lambda>ds. Option.bind (arg_dstr_catf fmt args ds) f) (s @ t)"
  by (rule dstr.writes_seq [OF writes_catf [OF assms(1)] assms(3)]) (use assms(2) in simp)

lemma writes_value_error:
  assumes h: "hdr_ok h" and v: "opt_nul_free v"
  shows "dstr.writes (\<lambda>ds.
      if err = ARG_ERR_MINCOUNT then do {
        ds \<leftarrow> arg_dstr_cat ''missing option '' ds;
        arg_print_option_ds (hdr_shortopts h) (hdr_longopts h) (hdr_datatype h) newline ds}
      else if err = ARG_ERR_MAXCOUNT then do {
        ds \<leftarrow> arg_dstr_cat ''excess option '' ds;
        arg_print_option_ds (hdr_shortopts h) (hdr_longopts h) (Some (null_safe v)) newline ds}
      else if is_int \<and> err = ARG_ERR_BADINT then do {
        ds \<leftarrow> arg_dstr_catf (''invalid argument '' @ [CHR 0x22] @ ''%s'' @ [CHR 0x22] @ '' to option '') [F_str (null_safe v)] ds;
        arg_print_option_ds (hdr_shortopts h) (hdr_longopts h) (hdr_datatype h) newline ds}
      else if is_int \<and> err = ARG_ERR_OVERFLOW then do {
        ds \<leftarrow> arg_dstr_cat ''integer overflow at option '' ds;
        ds \<leftarrow> arg_print_option_ds (hdr_shortopts h) (hdr_longopts h) (hdr_datatype h) '' '' ds;
        arg_dstr_catf (''(%s is too large)'' @ newline) [F_str (null_safe v)] ds}
      else Some ds) (value_message is_int h err v)"
proof -
  have n: "nul_free (null_safe v)" by (rule null_safe_nul_free [OF v])
  let ?t = "shown_option (hdr_shortopts h) (hdr_longopts h) (hdr_datatype h)"
  have o: "dstr.writes (arg_print_option_ds (hdr_shortopts h) (hdr_longopts h) (hdr_datatype h) sfx) (?t @ sfx)" if "nul_free sfx" for sfx
    using h that by (intro writes_option) (simp_all add: hdr_ok_def)
  have x: "dstr.writes (arg_print_option_ds (hdr_shortopts h) (hdr_longopts h) (Some (null_safe v)) newline)
      (shown_option (hdr_shortopts h) (hdr_longopts h) (Some (null_safe v)) @ newline)"
    using h n by (intro writes_option) (simp_all add: hdr_ok_def opt_nul_free_def)
  have l: "dstr.writes (arg_dstr_catf (''(%s is too large)'' @ newline) [F_str (null_safe v)]) (''('' @ null_safe v @ '' is too large)'' @ newline)"
    by (rule writes_catf [OF formats_quoted(2)]) (use n in simp)
  have m: "nul_free ''missing option ''" "nul_free ''excess option ''" "nul_free ''integer overflow at option ''" by simp_all
  have q: "nul_free (''invalid argument '' @ [CHR 0x22] @ null_safe v @ [CHR 0x22] @ '' to option '')" using n by simp
  have b: "nul_free '' ''" by simp
  have e: "value_message is_int h err v =
     (if err = ARG_ERR_MINCOUNT then ''missing option '' @ ?t @ newline
      else if err = ARG_ERR_MAXCOUNT then ''excess option '' @ shown_option (hdr_shortopts h) (hdr_longopts h) (Some (null_safe v)) @ newline
      else if is_int \<and> err = ARG_ERR_BADINT then
        (''invalid argument '' @ [CHR 0x22] @ null_safe v @ [CHR 0x22] @ '' to option '') @ ?t @ newline
      else if is_int \<and> err = ARG_ERR_OVERFLOW then
        ''integer overflow at option '' @ (?t @ '' '') @ ''('' @ null_safe v @ '' is too large)'' @ newline
      else [])"
    by (simp add: value_message_def Let_def)
  show ?thesis
    unfolding e
    by (intro dstr.writes_if dstr.writes_none writes_pair [OF m(1) o [OF newline_nul_free]] writes_pair [OF m(2) x]
        writes_format_pair [OF formats_quoted(1) q o [OF newline_nul_free]] writes_pair [OF m(3) dstr.writes_seq [OF o [OF b] l]])
qed

lemma writes_int_error:
  assumes "hdr_ok (int_hdr a)" and "opt_nul_free v" and "nul_free progname"
  shows "dstr.writes (entry_errorfn (E_int a) err v progname) (error_text (E_int a) err v progname)"
proof -
  have e: "entry_errorfn (E_int a) err v progname = arg_int_errorfn (int_hdr a) err v progname" by (rule ext) simp
  show ?thesis unfolding e
    using writes_prefixed [OF assms(3) writes_value_error [OF assms(1,2), where is_int = True and err = err]]
    by (simp add: arg_int_errorfn_def [abs_def] Let_def cong: if_cong)
qed

lemma writes_str_error:
  assumes "hdr_ok (str_hdr a)" and "opt_nul_free v" and "nul_free progname"
  shows "dstr.writes (entry_errorfn (E_str a) err v progname) (error_text (E_str a) err v progname)"
proof -
  have e: "entry_errorfn (E_str a) err v progname = arg_str_errorfn (str_hdr a) err v progname" by (rule ext) simp
  show ?thesis unfolding e
    using writes_prefixed [OF assms(3) writes_value_error [OF assms(1,2), where is_int = False and err = err]]
    by (simp add: arg_str_errorfn_def [abs_def] Let_def cong: if_cong)
qed

lemma writes_end_error:
  assumes "opt_nul_free v" and "nul_free progname"
  shows "dstr.writes (entry_errorfn (E_end a) err v progname) (error_text (E_end a) err v progname)"
proof -
  have n: "nul_free (null_safe v)" by (rule null_safe_nul_free [OF assms(1)])
  let ?c = "char_of (nat (err mod 256)) :: char"
  let ?m = "takeWhile (\<lambda>c. c \<noteq> NUL) (''invalid option '' @ [CHR 0x22] @ ''-'' @ [?c] @ [CHR 0x22])"
  have c: "dstr.writes (arg_dstr_catf (''invalid option '' @ [CHR 0x22] @ ''-%c'' @ [CHR 0x22]) [F_char ?c]) ?m"
    by (rule writes_catf [OF formats_quoted(6)]) simp
  have q: "dstr.writes (arg_dstr_catf (''unexpected argument '' @ [CHR 0x22] @ ''%s'' @ [CHR 0x22]) [F_str (null_safe v)])
      (''unexpected argument '' @ [CHR 0x22] @ null_safe v @ [CHR 0x22])"
    "dstr.writes (arg_dstr_catf (''option '' @ [CHR 0x22] @ ''%s'' @ [CHR 0x22] @ '' requires an argument'') [F_str (null_safe v)])
      (''option '' @ [CHR 0x22] @ null_safe v @ [CHR 0x22] @ '' requires an argument'')"
    "dstr.writes (arg_dstr_catf (''invalid option '' @ [CHR 0x22] @ ''%s'' @ [CHR 0x22]) [F_str (null_safe v)])
      (''invalid option '' @ [CHR 0x22] @ null_safe v @ [CHR 0x22])"
    by (rule writes_catf [OF formats_quoted(3)], use n in simp) (rule writes_catf [OF formats_quoted(4)], use n in simp,
      rule writes_catf [OF formats_quoted(5)], use n in simp)
  have p: "dstr.writes (arg_dstr_cat ''too many errors to display'') ''too many errors to display''"
    "dstr.writes (arg_dstr_cat ''insufficient memory'') ''insufficient memory''"
    by (rule dstr.writes_put, simp)+
  have e: "entry_errorfn (E_end a) err v progname = arg_end_errorfn err v (Some progname)" by (rule ext) simp
  let ?f = "\<lambda>ds. if err = ARG_ELIMIT then arg_dstr_cat ''too many errors to display'' ds
       else if err = 2 then arg_dstr_cat ''insufficient memory'' ds
       else if err = ARG_ENOMATCH then arg_dstr_catf (''unexpected argument '' @ [CHR 0x22] @ ''%s'' @ [CHR 0x22]) [F_str (null_safe v)] ds
       else if err = ARG_EMISSARG then
         arg_dstr_catf (''option '' @ [CHR 0x22] @ ''%s'' @ [CHR 0x22] @ '' requires an argument'') [F_str (null_safe v)] ds
       else if err = ARG_ELONGOPT then arg_dstr_catf (''invalid option '' @ [CHR 0x22] @ ''%s'' @ [CHR 0x22]) [F_str (null_safe v)] ds
       else arg_dstr_catf (''invalid option '' @ [CHR 0x22] @ ''-%c'' @ [CHR 0x22]) [F_char ?c] ds"
  define body where "body = (if err = ARG_ELIMIT then ''too many errors to display''
      else if err = 2 then ''insufficient memory''
      else if err = ARG_ENOMATCH then ''unexpected argument '' @ [CHR 0x22] @ null_safe v @ [CHR 0x22]
      else if err = ARG_EMISSARG then ''option '' @ [CHR 0x22] @ null_safe v @ [CHR 0x22] @ '' requires an argument''
      else if err = ARG_ELONGOPT then ''invalid option '' @ [CHR 0x22] @ null_safe v @ [CHR 0x22]
      else ?m)"
  have f: "dstr.writes ?f body"
    unfolding body_def by (intro dstr.writes_if p q c)
  have "dstr.writes (\<lambda>ds. Option.bind (arg_dstr_catf ''%s: '' [F_str progname] ds) (\<lambda>ds. Option.bind (?f ds) (arg_dstr_cat newline)))
      (progname @ '': '' @ body @ newline)"
    by (rule writes_prefixed [OF assms(2) dstr.writes_seq [OF f dstr.writes_put [OF newline_nul_free]]])
  moreover have "progname @ '': '' @ body @ newline = error_text (E_end a) err v progname"
    by (simp add: body_def end_message_def)
  ultimately show ?thesis unfolding e by (simp add: arg_end_errorfn_def [abs_def] null_safe_def [of "Some progname"] Let_def)
qed

lemma writes_entry_error:
  assumes "hdr_ok (entry_hdr e)" and "opt_nul_free v" and "nul_free progname"
  shows "dstr.writes (entry_errorfn e err v progname) (error_text e err v progname)"
  using assms writes_lit_error writes_int_error writes_str_error writes_end_error by (cases e) simp_all

lemma writes_error_list:
  assumes "\<forall>x \<in> set xs. err_parent x < length table \<and> hdr_ok (entry_hdr (table ! err_parent x)) \<and> opt_nul_free (err_argval x)"
    and "nul_free progname"
  shows "dstr.writes (print_error_list table (map Some xs) progname)
    (concat (map (\<lambda>x. error_text (table ! err_parent x) (err_code x) (err_argval x) progname) xs))"
  using assms(1)
proof (induction xs)
  case Nil
  then show ?case using dstr.writes_none by (simp add: dstr.writes_def)
next
  case (Cons x xs)
  then have x: "err_parent x < length table" "hdr_ok (entry_hdr (table ! err_parent x))" "opt_nul_free (err_argval x)" by simp_all
  from dstr.writes_seq [OF writes_entry_error [OF x(2,3) assms(2)] Cons.IH] Cons.prems
  show ?case using x(1) by (simp add: dstr.writes_def elem_def)
qed

lemma printed_writes: "dstr.writes f t \<Longrightarrow> printed f = Some t"
proof -
  assume "dstr.writes f t"
  then obtain d where "f arg_dstr_create = Some d" "dstr_ok d" "dstr_text d = t"
    using dstr_created by (fastforce simp: dstr.writes_def)
  then show ?thesis using cstr_total [of d] by (simp add: printed_def)
qed

text \<open>Every entry of the table has C strings for options, and every error a C string for its argument.\<close>

definition printable :: "nat \<Rightarrow> arg_table \<Rightarrow> bool" where
  "printable n table \<longleftrightarrow> wf_table n table \<and> (\<forall>i \<le> n. hdr_ok (entry_hdr (table ! i))) \<and>
     (\<forall>x \<in> set (table_end_errors n table). opt_nul_free (err_argval x))"

lemma writes_errors:
  assumes "printable n table" and "nul_free progname"
  shows "dstr.writes (arg_print_errors_ds n table progname) (errors_text n table progname)"
proof -
  have wf: "wf_table n table" using assms(1) by (simp add: printable_def)
  then obtain e where e: "table ! n = E_end e" "wf_end n e" "n < length table" by (auto simp: wf_table_def)
  then have g: "get_end n table = Some e" by (simp add: get_end_def elem_def)
  have len: "end_count e \<le> length (end_error e)" using e(2) by (simp add: wf_end_def)
  let ?xs = "table_end_errors n table"
  have take: "take (end_count e) (end_error e) = map Some ?xs"
    using e(2) by (auto simp: table_end_errors_def g wf_end_def intro!: map_idI [symmetric])
  have "\<forall>x \<in> set ?xs. err_parent x \<le> n" using e(2) by (auto simp: table_end_errors_def g wf_end_def)
  then have "\<forall>x \<in> set ?xs. err_parent x < length table \<and> hdr_ok (entry_hdr (table ! err_parent x)) \<and> opt_nul_free (err_argval x)"
    using assms(1) e(3) by (auto simp: printable_def)
  from writes_error_list [OF this assms(2)]
  show ?thesis using len by (simp add: arg_print_errors_ds_def [abs_def] g take errors_text_def)
qed

lemma errors_printed:
  assumes "printable n table" and "nul_free progname"
  shows "arg_print_errors n table progname = Some (errors_text n table progname)"
  using writes_errors [OF assms] by (simp add: arg_print_errors_def printed_writes)

section \<open>The usage line\<close>

text \<open>The entries before the end marker, and the letters of the switches among them that are mandatory, or not.\<close>

definition body :: "arg_hdr list \<Rightarrow> arg_hdr list" where
  "body table = takeWhile (\<lambda>h. \<not> has_flag h ARG_TERMINATOR) table"

definition switches :: "bool \<Rightarrow> arg_hdr list \<Rightarrow> string" where
  "switches mandatory table =
     map (\<lambda>h. c_hd (the (hdr_shortopts h)))
       (filter (\<lambda>h. (0 < hdr_mincount h) = mandatory \<and> hdr_shortopts h \<noteq> None \<and> \<not> has_flag h ARG_HASVALUE) (body table))"

definition switch_text :: "arg_hdr list \<Rightarrow> string" where
  "switch_text table =
     (let ms = switches True table; os = switches False table in
      (if ms = [] then [] else '' -'' @ ms) @ (if os = [] then [] else (if ms = [] then '' [-'' else ''['') @ os @ '']''))"

definition entry_usage :: "arg_hdr \<Rightarrow> string" where
  "entry_usage h =
     (if hdr_shortopts h \<noteq> None \<and> \<not> has_flag h ARG_HASVALUE then []
      else let s = the (option_syntax h) in if s = [] then [] else concat (instances h s))"

definition usage_text :: "arg_hdr list \<Rightarrow> string" where
  "usage_text table = switch_text table @ concat (map entry_usage (body table))"

definition table_printable :: "arg_hdr list \<Rightarrow> bool" where
  "table_printable table \<longleftrightarrow> (\<exists>h \<in> set table. has_flag h ARG_TERMINATOR) \<and> (\<forall>h \<in> set (body table). hdr_ok h \<and> hdr_shortopts h \<noteq> Some [])"

lemma body_Cons: "body (h # hs) = (if has_flag h ARG_TERMINATOR then [] else h # body hs)"
  by (simp add: body_def)

lemma table_printable_Cons:
  "table_printable (h # hs) \<longleftrightarrow> has_flag h ARG_TERMINATOR \<or> (hdr_ok h \<and> hdr_shortopts h \<noteq> Some [] \<and> table_printable hs)"
  by (auto simp: table_printable_def body_Cons)

lemma switches_Cons:
  "switches m (h # hs) = (if has_flag h ARG_TERMINATOR then []
    else (if (0 < hdr_mincount h) = m \<and> hdr_shortopts h \<noteq> None \<and> \<not> has_flag h ARG_HASVALUE then [c_hd (the (hdr_shortopts h))] else [])
      @ switches m hs)"
  by (simp add: switches_def body_Cons)

lemma switch_format: "CHR ''%'' \<notin> set p \<Longrightarrow> c_format (p @ ''%c'') [F_char c] = Some (p @ [c])"
  by (induction p) (auto simp: format_eval)

lemma switch_cat:
  assumes "CHR ''%'' \<notin> set p" and "nul_free p" and "hdr_ok h" and "hdr_shortopts h = Some s" and "s \<noteq> []"
  shows "dstr.writes (arg_dstr_catf (p @ ''%c'') [F_char (c_hd s)]) (p @ [c_hd s])"
proof (rule writes_catf [OF switch_format [OF assms(1)]])
  have "nul_free [c_hd s]" using assms(3,4,5) by (cases s) (auto simp: hdr_ok_def opt_nul_free_def c_hd_def)
  then show "p @ [c_hd s] = takeWhile (\<lambda>c. c \<noteq> NUL) (p @ [c_hd s])" using assms(2) by simp
qed

lemma gnu_mandatory_text:
  assumes "table_printable hs" and "CHR ''%'' \<notin> set p" and "nul_free p" and "dstr_ok d"
  shows "\<exists>d'. gnu_mandatory hs (p @ ''%c'') f2 d = Some (if switches True hs = [] then f2 else ''[%c'', d') \<and> dstr_ok d' \<and>
    dstr_text d' = dstr_text d @ (if switches True hs = [] then [] else p @ switches True hs)"
  using assms
proof (induction hs arbitrary: p f2 d)
  case Nil
  then show ?case by (simp add: table_printable_def)
next
  case (Cons h hs)
  show ?case
  proof (cases "has_flag h ARG_TERMINATOR")
    case True
    then show ?thesis using Cons.prems(4) by (simp add: switches_Cons)
  next
    case False
    then have hs: "table_printable hs" "hdr_ok h" "hdr_shortopts h \<noteq> Some []" using Cons.prems(1) by (simp_all add: table_printable_Cons)
    show ?thesis
    proof (cases "0 < hdr_mincount h \<and> hdr_shortopts h \<noteq> None \<and> \<not> has_flag h ARG_HASVALUE")
      case True
      then obtain s where s: "hdr_shortopts h = Some s" "s \<noteq> []" using hs(3) by auto
      obtain d1 where d1: "arg_dstr_catf (p @ ''%c'') [F_char (c_hd s)] d = Some d1" "dstr_ok d1" "dstr_text d1 = dstr_text d @ p @ [c_hd s]"
        using switch_cat [OF Cons.prems(2,3) hs(2) s] Cons.prems(4) by (auto simp: dstr.writes_def)
      from Cons.IH [OF hs(1), of "[]" d1 "''[%c''"] d1(2) obtain d' where
        "gnu_mandatory hs ''%c'' ''[%c'' d1 = Some (''[%c'', d')" "dstr_ok d'" "dstr_text d' = dstr_text d1 @ switches True hs"
        by auto
      then show ?thesis using d1 s True False by (simp add: switches_Cons)
    next
      case skip: False
      have "gnu_mandatory (h # hs) (p @ ''%c'') f2 d = gnu_mandatory hs (p @ ''%c'') f2 d"
        using skip False by (auto split: option.splits)
      moreover have "switches True (h # hs) = switches True hs" using skip False by (simp add: switches_Cons)
      ultimately show ?thesis using Cons.IH [OF hs(1) Cons.prems(2,3,4)] by (simp only:)
    qed
  qed
qed

lemma gnu_optional_text:
  assumes "table_printable hs" and "CHR ''%'' \<notin> set p" and "nul_free p" and "dstr_ok d"
  shows "\<exists>d'. gnu_optional hs (p @ ''%c'') sfx d = Some (if switches False hs = [] then sfx else '']'', d') \<and> dstr_ok d' \<and>
    dstr_text d' = dstr_text d @ (if switches False hs = [] then [] else p @ switches False hs)"
  using assms
proof (induction hs arbitrary: p sfx d)
  case Nil
  then show ?case by (simp add: table_printable_def)
next
  case (Cons h hs)
  show ?case
  proof (cases "has_flag h ARG_TERMINATOR")
    case True
    then show ?thesis using Cons.prems(4) by (simp add: switches_Cons)
  next
    case False
    then have hs: "table_printable hs" "hdr_ok h" "hdr_shortopts h \<noteq> Some []" using Cons.prems(1) by (simp_all add: table_printable_Cons)
    show ?thesis
    proof (cases "hdr_mincount h = 0 \<and> hdr_shortopts h \<noteq> None \<and> \<not> has_flag h ARG_HASVALUE")
      case True
      then obtain s where s: "hdr_shortopts h = Some s" "s \<noteq> []" using hs(3) by auto
      obtain d1 where d1: "arg_dstr_catf (p @ ''%c'') [F_char (c_hd s)] d = Some d1" "dstr_ok d1" "dstr_text d1 = dstr_text d @ p @ [c_hd s]"
        using switch_cat [OF Cons.prems(2,3) hs(2) s] Cons.prems(4) by (auto simp: dstr.writes_def)
      from Cons.IH [OF hs(1), of "[]" d1 "'']''"] d1(2) obtain d' where
        "gnu_optional hs ''%c'' '']'' d1 = Some ('']'', d')" "dstr_ok d'" "dstr_text d' = dstr_text d1 @ switches False hs"
        by auto
      then show ?thesis using d1 s True False by (simp add: switches_Cons)
    next
      case skip: False
      have "gnu_optional (h # hs) (p @ ''%c'') sfx d = gnu_optional hs (p @ ''%c'') sfx d"
        using skip False by (auto split: option.splits)
      moreover have "switches False (h # hs) = switches False hs" using skip False by (simp add: switches_Cons)
      ultimately show ?thesis using Cons.IH [OF hs(1) Cons.prems(2,3,4)] by (simp only:)
    qed
  qed
qed

lemma writes_gnuswitch:
  assumes "table_printable table"
  shows "dstr.writes (arg_print_gnuswitch_ds table) (switch_text table)"
  unfolding dstr.writes_def
proof (intro allI impI)
  fix d
  assume d: "dstr_ok d"
  let ?ms = "switches True table" and ?os = "switches False table"
  let ?q = "if ?ms = [] then '' [-'' else ''[''"
  obtain d1 where d1: "gnu_mandatory table '' -%c'' '' [-%c'' d = Some (if ?ms = [] then '' [-%c'' else ''[%c'', d1)" "dstr_ok d1"
    "dstr_text d1 = dstr_text d @ (if ?ms = [] then [] else '' -'' @ ?ms)"
    using gnu_mandatory_text [OF assms, of "'' -''" d "'' [-%c''"] d by auto
  have q: "(if ?ms = [] then '' [-%c'' else ''[%c'') = ?q @ ''%c''" by simp
  have qs: "CHR ''%'' \<notin> set ?q" "nul_free ?q" by simp_all
  obtain d2 where d2: "gnu_optional table (?q @ ''%c'') [] d1 = Some (if ?os = [] then [] else '']'', d2)" "dstr_ok d2"
    "dstr_text d2 = dstr_text d1 @ (if ?os = [] then [] else ?q @ ?os)"
    using gnu_optional_text [OF assms qs d1(2), of "[]"] by blast
  have "dstr.writes (arg_dstr_catf ''%s'' [F_str (if ?os = [] then [] else '']'')]) (if ?os = [] then [] else '']'')"
    by (rule writes_catf [OF formats(4)]) simp
  then obtain d3 where "arg_dstr_catf ''%s'' [F_str (if ?os = [] then [] else '']'')] d2 = Some d3" "dstr_ok d3"
    "dstr_text d3 = dstr_text d2 @ (if ?os = [] then [] else '']'')"
    using d2(2) by (auto simp: dstr.writes_def)
  then show "\<exists>d'. arg_print_gnuswitch_ds table d = Some d' \<and> dstr_ok d' \<and> dstr_text d' = dstr_text d @ switch_text table"
    using d1 d2 by (auto simp: arg_print_gnuswitch_ds_def switch_text_def q Let_def)
qed

lemma writes_cat_list: "\<forall>s \<in> set ss. nul_free s \<Longrightarrow> dstr.writes (cat_list ss) (concat ss)"
proof (induction ss)
  case Nil
  then show ?case using dstr.writes_none by (simp add: dstr.writes_def)
next
  case (Cons s ss)
  have "nul_free s" "dstr.writes (cat_list ss) (concat ss)" using Cons by simp_all
  from writes_pair [OF this] show ?case by (simp add: dstr.writes_def)
qed

lemma instances_nul_free: "nul_free s \<Longrightarrow> \<forall>x \<in> set (instances h s). nul_free x"
  by (auto simp: instances_def Let_def)

lemma writes_entries: "table_printable hs \<Longrightarrow> dstr.writes (syntax_entries hs) (concat (map entry_usage (body hs)))"
proof (induction hs)
  case Nil
  then show ?case by (simp add: table_printable_def)
next
  case (Cons h hs)
  show ?case
  proof (cases "has_flag h ARG_TERMINATOR")
    case True
    then show ?thesis using dstr.writes_none by (simp add: dstr.writes_def body_Cons)
  next
    case False
    then have hs: "table_printable hs" "hdr_ok h" using Cons.prems by (simp_all add: table_printable_Cons)
    note IH = Cons.IH [OF hs(1)]
    show ?thesis
    proof (cases "hdr_shortopts h \<noteq> None \<and> \<not> has_flag h ARG_HASVALUE")
      case True
      then show ?thesis using IH False by (simp add: dstr.writes_def body_Cons entry_usage_def)
    next
      case usage: False
      obtain s where s: "option_syntax h = Some s" using option_syntax_ok [OF hs(2)] by auto
      then have "nul_free s" by (auto simp: option_syntax_def bind_eq_Some_conv dest: cstr_nul_free)
      then have "dstr.writes (\<lambda>ds. if 0 < length s then cat_list (instances h s) ds else Some ds)
          (if 0 < length s then concat (instances h s) else [])"
        by (intro dstr.writes_if writes_cat_list instances_nul_free dstr.writes_none)
      from dstr.writes_seq [OF this IH]
      show ?thesis using False usage s by (auto simp: dstr.writes_def body_Cons entry_usage_def Let_def)
    qed
  qed
qed

lemma print_syntax_text:
  assumes "table_printable table" and "nul_free sfx"
  shows "arg_print_syntax table (Some sfx) = Some (usage_text table @ sfx)"
proof -
  have "dstr.writes (arg_print_syntax_ds table (Some sfx)) (usage_text table @ sfx)"
    using dstr.writes_seq [OF writes_gnuswitch [OF assms(1)] dstr.writes_seq [OF writes_entries [OF assms(1)] dstr.writes_put [OF assms(2)]]]
    by (simp add: arg_print_syntax_ds_def [abs_def] usage_text_def)
  then show ?thesis by (simp add: arg_print_syntax_def printed_writes)
qed

text \<open>The usage line of \<open>arg_print_syntaxv\<close>, which shows every option with all its names.\<close>

definition usagev_text :: "arg_hdr list \<Rightarrow> string" where
  "usagev_text table = concat (map (\<lambda>h. concat (instances h (the (optionv_syntax h ''|'')))) (body table))"

lemma writes_syntaxv: "table_printable hs \<Longrightarrow> dstr.writes (syntaxv_entries hs) (usagev_text hs)"
proof (induction hs)
  case Nil
  then show ?case by (simp add: table_printable_def)
next
  case (Cons h hs)
  show ?case
  proof (cases "has_flag h ARG_TERMINATOR")
    case True
    then show ?thesis using dstr.writes_none by (simp add: dstr.writes_def body_Cons usagev_text_def)
  next
    case False
    then have hs: "table_printable hs" "hdr_ok h" using Cons.prems by (simp_all add: table_printable_Cons)
    have "nul_free ''|''" by simp
    then obtain s where s: "optionv_syntax h ''|'' = Some s" using optionv_syntax_ok [OF hs(2)] by blast
    then have "nul_free s" by (auto simp: optionv_syntax_def bind_eq_Some_conv dest: cstr_nul_free)
    then have "dstr.writes (cat_list (instances h s)) (concat (instances h s))"
      by (intro writes_cat_list instances_nul_free)
    from dstr.writes_seq [OF this Cons.IH [OF hs(1)]]
    show ?thesis using False s by (simp add: dstr.writes_def body_Cons usagev_text_def)
  qed
qed

section \<open>The glossary\<close>

definition glossary_line :: "string \<Rightarrow> arg_hdr \<Rightarrow> string" where
  "glossary_line format h = (case hdr_glossary h of
       None \<Rightarrow> []
     | Some g \<Rightarrow> takeWhile (\<lambda>c. c \<noteq> NUL) (the (c_format format [F_str (the (optionv_syntax h '', '')), F_str g])))"

definition glossary_text :: "string \<Rightarrow> arg_hdr list \<Rightarrow> string" where
  "glossary_text format table = concat (map (glossary_line format) (body table))"

lemma writes_glossary:
  assumes fmt: "\<And>s g. c_format format [F_str s, F_str g] \<noteq> None"
  shows "table_printable hs \<Longrightarrow> dstr.writes (glossary_entries hs format) (glossary_text format hs)"
proof (induction hs)
  case Nil
  then show ?case by (simp add: table_printable_def)
next
  case (Cons h hs)
  show ?case
  proof (cases "has_flag h ARG_TERMINATOR")
    case True
    then show ?thesis using dstr.writes_none by (simp add: dstr.writes_def glossary_text_def body_Cons)
  next
    case False
    then have hs: "table_printable hs" "hdr_ok h" using Cons.prems by (simp_all add: table_printable_Cons)
    note IH = Cons.IH [OF hs(1)]
    show ?thesis
    proof (cases "hdr_glossary h")
      case None
      then show ?thesis using IH False by (simp add: dstr.writes_def glossary_text_def body_Cons glossary_line_def)
    next
      case (Some g)
      have "nul_free '', ''" by simp
      then obtain s where s: "optionv_syntax h '', '' = Some s" using optionv_syntax_ok [OF hs(2)] by blast
      obtain t where t: "c_format format [F_str s, F_str g] = Some t" using fmt [of s g] by auto
      have "dstr.writes (arg_dstr_catf format [F_str s, F_str g]) (glossary_line format h)"
        by (rule writes_catf [OF t]) (simp add: glossary_line_def Some s t)
      from dstr.writes_seq [OF this IH]
      show ?thesis using False Some s by (simp add: dstr.writes_def glossary_text_def body_Cons)
    qed
  qed
qed

lemma print_glossary_text:
  assumes "\<And>s g. c_format format [F_str s, F_str g] \<noteq> None" and "table_printable table"
  shows "arg_print_glossary table (Some format) = Some (glossary_text format table)"
  using writes_glossary [OF assms]
  by (simp add: arg_print_glossary_def arg_print_glossary_ds_def [abs_def] printed_writes)

section \<open>What main prints\<close>

definition glossary_format :: string where
  "glossary_format = ''  %-20s %s'' @ newline"

lemma glossary_format_ok: "c_format glossary_format [F_str s, F_str g] \<noteq> None"
  by (simp add: glossary_format_def newline_def format_eval)

text \<open>The texts that \<open>main\<close> has the library print, and the values that it reads.\<close>

definition main_cmdline :: "nat \<Rightarrow> bool \<Rightarrow> getopt \<Rightarrow> string list \<Rightarrow> fault + cmdline" where
  "main_cmdline fuel posix g argv = (case arg_parse fuel posix g argv main_table of
       Inl f \<Rightarrow> Inl f
     | Inr (errs, t) \<Rightarrow> lift_ub (do {
         h \<leftarrow> lit_at t 0;
         errors \<leftarrow> (if 0 < errs then arg_print_errors 13 t ''barco'' else Some []);
         syntax \<leftarrow> (if errs = 0 \<and> 0 < h then arg_print_syntax (map entry_hdr t) (Some newline) else Some []);
         glossary \<leftarrow> (if errs = 0 \<and> 0 < h then arg_print_glossary (map entry_hdr t) (Some glossary_format) else Some []);
         read_cmdline errors syntax glossary errs t}))"

text \<open>All that a run prints, in order: texts, and lines of the log with their level.\<close>

definition prints :: "trace \<Rightarrow> (int option \<times> string) list" where
  "prints t = concat (map (\<lambda>(c, r). case c of Print s \<Rightarrow> [(None, s)] | Log l s \<Rightarrow> [(Some l, s)] | _ \<Rightarrow> []) t)"

lemma prints_simps [simp]: "prints [] = []" "prints (t @ t') = prints t @ prints t'"
  "prints ((c, r) # t) = (case c of Print s \<Rightarrow> [(None, s)] | Log l s \<Rightarrow> [(Some l, s)] | _ \<Rightarrow> []) @ prints t"
  by (simp_all add: prints_def)

text \<open>Allocating and freeing the table print nothing while there is memory.\<close>

lemma run_alloc_table:
  assumes "\<forall>t n. rv (k t (Malloc n)) \<noteq> 0"
  shows "\<exists>ps t'. run k (alloc_table ns v f) t = run k (f (v\<lparr>mv_table := ps\<rparr>)) t' \<and> prints t' = prints t"
proof (induction ns arbitrary: v t)
  case Nil
  show ?case by (rule exI [of _ "mv_table v"]) auto
next
  case (Cons n ns)
  let ?r = "k t (Malloc n)"
  obtain ps t' where "run k (alloc_table ns (v\<lparr>mv_table := mv_table v @ [rv ?r]\<rparr>) f) (t @ [(Malloc n, ?r)]) =
      run k (f (v\<lparr>mv_table := mv_table v @ [rv ?r], mv_table := ps\<rparr>)) t'" "prints t' = prints (t @ [(Malloc n, ?r)])"
    using Cons.IH [of "v\<lparr>mv_table := mv_table v @ [rv ?r]\<rparr>" "t @ [(Malloc n, ?r)]"] by blast
  then show ?case using assms by auto
qed

lemma run_free_table: "\<exists>t'. run k (free_table ps) t = (Inr (), t') \<and> prints t' = prints t"
proof (induction ps arbitrary: t)
  case (Cons p ps)
  obtain t1 where "run k (free_table ps) (t @ [(Free p, k t (Free p))]) = (Inr (), t1)" "prints t1 = prints t"
    using Cons.IH [of "t @ [(Free p, k t (Free p))]"] by auto
  then show ?case using Cons.IH [of t] by simp
qed simp

lemma run_main_exit: "\<exists>t'. run k (main_exit v e) t = (Inr e, t') \<and> prints t' = prints t @ [(Some 2, farewell e)]"
proof -
  let ?t1 = "t @ [(Free (mv_peer_ptr v), k t (Free (mv_peer_ptr v)))]"
  let ?t2 = "?t1 @ [(Free (mv_tmp_ptr v), k ?t1 (Free (mv_tmp_ptr v)))]"
  let ?t3 = "?t2 @ [(Free (mv_config_ptr v), k ?t2 (Free (mv_config_ptr v)))]"
  obtain t' where "run k (free_table (mv_table v)) ?t3 = (Inr (), t')" "prints t' = prints ?t3"
    using run_free_table by blast
  then show ?thesis by (simp add: main_exit_def run_andthen)
qed

text \<open>The end of \<open>main\<close> after a command line that is not run.\<close>

lemma run_main_usage:
  assumes "rv (k [] (Calloc 1 96)) \<noteq> 0" and "\<forall>t n. rv (k t (Malloc n)) \<noteq> 0"
  shows "0 < cl_errors cl \<Longrightarrow> \<exists>t'. run k (main_program f junk cl) [] = (Inr 1, t') \<and>
      prints t' = [(None, cl_error_text cl), (None, ''Try 'barco --help' for more information.\<newline>''), (Some 2, farewell 1)]"
    and "cl_errors cl \<le> 0 \<Longrightarrow> 0 < cl_help cl \<Longrightarrow> \<exists>t'. run k (main_program f junk cl) [] = (Inr 0, t') \<and>
      prints t' = [(None, ''Usage: barco''), (None, cl_syntax_text cl), (None, cl_glossary_text cl), (Some 2, farewell 0)]"
proof -
  let ?body = "\<lambda>v. if 0 < cl_errors cl then
         perform (Print (cl_error_text cl))
           (perform (Print ''Try 'barco --help' for more information.\<newline>'') (main_exit v 1))
       else if 0 < cl_help cl then
         perform (Print ''Usage: barco'') (perform (Print (cl_syntax_text cl)) (perform (Print (cl_glossary_text cl))
           (main_exit v 0)))
       else perform (Log_set_level (if 0 < cl_verbose cl then 0 else 2))
         (main_config junk cl v (\<lambda>v. perform Geteuid (main_sockets f v)))"
  have m: "run k (main_program f junk cl) [] =
      run k (alloc_table table_sizes (initial_vars (rv (k [] (Calloc 1 96)))) ?body) [(Calloc 1 96, k [] (Calloc 1 96))]"
    unfolding main_program_def run.simps if_not_P [OF assms(1)] append_Nil ..
  obtain v t where r: "run k (main_program f junk cl) [] = run k (?body v) t" "prints t = []"
    using run_alloc_table [OF assms(2), of table_sizes "initial_vars (rv (k [] (Calloc 1 96)))" ?body "[(Calloc 1 96, k [] (Calloc 1 96))]"]
    unfolding m by auto
  note exit = run_main_exit [of k v]
  show "\<exists>t'. run k (main_program f junk cl) [] = (Inr 1, t') \<and>
      prints t' = [(None, cl_error_text cl), (None, ''Try 'barco --help' for more information.\<newline>''), (Some 2, farewell 1)]"
    if "0 < cl_errors cl"
    unfolding r(1) if_P [OF that] run.simps
    using exit [of 1 "(t @ [(Print (cl_error_text cl), k t (Print (cl_error_text cl)))]) @ [(Print ''Try 'barco --help' for more information.\<newline>'',
      k (t @ [(Print (cl_error_text cl), k t (Print (cl_error_text cl)))]) (Print ''Try 'barco --help' for more information.\<newline>''))]"] r(2)
    by simp
  let ?p = "\<lambda>t x. t @ [(Print x, k t (Print x))]"
  show "\<exists>t'. run k (main_program f junk cl) [] = (Inr 0, t') \<and>
      prints t' = [(None, ''Usage: barco''), (None, cl_syntax_text cl), (None, cl_glossary_text cl), (Some 2, farewell 0)]"
    if "cl_errors cl \<le> 0" "0 < cl_help cl"
    using exit [of 0 "?p (?p (?p t ''Usage: barco'') (cl_syntax_text cl)) (cl_glossary_text cl)"] r(2) that
    unfolding r(1) by simp
qed

definition main_usage :: string where
  "main_usage = '' [-v] [--help] [--version] -u <n> -m <path> -c <cmd> [-a <arg>] [--veth=<name>] [--veth-peer=<name>]'' @
     '' [--container-ip=<ip/cidr>] [--host-ip=<ip/cidr>] [--nat] [--dns=<ip>]''"

lemma farewell_value:
  "farewell 0 = ''so long and thanks for all the fish (exit code: 0)''"
  "farewell 1 = ''so long and thanks for all the fish (exit code: 1)''"
  by (simp_all add: farewell_def show_int_def show_nat.simps)

lemma entry_usage_short:
  assumes "hdr_ok h" and "length (hdr_text h) < 198"
  shows "entry_usage h = (if hdr_shortopts h \<noteq> None \<and> \<not> has_flag h ARG_HASVALUE then []
    else if hdr_text h = [] then [] else concat (instances h (hdr_text h)))"
  using option_syntax_ok [OF assms(1)] assms(2) by (auto simp: entry_usage_def Let_def)

lemmas header_eval = arg_litn_def arg_intn_def arg_strn_def arg_end_def foolproof_def

lemma main_printable: "table_printable (map entry_hdr main_table)"
  by (simp add: main_table_def header_eval table_printable_Cons hdr_ok_def opt_nul_free_def has_flag_def ARG_TERMINATOR_def)

lemma main_usage_text: "usage_text (map entry_hdr main_table) = main_usage"
  by (simp add: main_table_def header_eval usage_text_def switch_text_def switches_def body_Cons entry_usage_short hdr_ok_def
      opt_nul_free_def hdr_text_def option_text_def short_tag_def tag_of_def datatype_text_def c_hd_def instances_def
      has_flag_def ARG_TERMINATOR_def ARG_HASVALUE_def ARG_HASOPTVALUE_def main_usage_def Let_def)

lemma table_headers: "headers t = headers t' \<Longrightarrow> map entry_hdr t = map entry_hdr t'"
proof -
  assume "headers t = headers t'"
  then have "map snd (headers t) = map snd (headers t')" by simp
  then show ?thesis by (simp add: shape_def comp_def)
qed

text \<open>C10: When the required options are given and --help is among the arguments, arg_parse returns no error, no argument
holds a negated least long after a prefix (number_safe), and calloc and malloc give main memory for the configuration
and the argument table, main prints the usage line of its table, word for word, then the glossary line of every option,
and exits with 0.  The only other output is its closing log line, and no container is set up.\<close>

theorem main_prints_help:
  assumes "number_safe argv" and "arg_parse fuel posix g argv main_table = Inr (0, t)" and "lit_at t 0 = Some n" and "0 < n"
    and "rv (k [] (Calloc 1 96)) \<noteq> 0" and "\<forall>t n. rv (k t (Malloc n)) \<noteq> 0"
  shows "\<exists>cl. main_cmdline fuel posix g argv = Inr cl \<and> fst (run k (main_program f junk cl) []) = Inr 0 \<and>
    prints (snd (run k (main_program f junk cl) [])) =
      [(None, ''Usage: barco''), (None, main_usage @ newline),
       (None, glossary_text glossary_format (map entry_hdr main_table)),
       (Some 2, ''so long and thanks for all the fish (exit code: 0)'')]"
proof -
  have "headers t = headers main_table"
    using arg_parse_ok [OF main_table_wf assms(1), of fuel posix g] assms(2) by (simp add: parsed_def)
  then have h: "map entry_hdr t = map entry_hdr main_table" by (rule table_headers)
  have s: "arg_print_syntax (map entry_hdr t) (Some newline) = Some (main_usage @ newline)"
    using print_syntax_text [OF main_printable newline_nul_free] by (simp only: h main_usage_text)
  have y: "arg_print_glossary (map entry_hdr t) (Some glossary_format) = Some (glossary_text glossary_format (map entry_hdr main_table))"
    using print_glossary_text [OF glossary_format_ok main_printable] by (simp only: h)
  obtain cl where cl: "main_cmdline fuel posix g argv = Inr cl" "cl_errors cl = 0" "cl_help cl = n"
    "cl_syntax_text cl = main_usage @ newline" "cl_glossary_text cl = glossary_text glossary_format (map entry_hdr main_table)"
    using assms(2,3,4) s y by (simp add: main_cmdline_def read_cmdline_def lift_ub_def)
  then show ?thesis
    using run_main_usage(2) [OF assms(5,6), of cl f junk] assms(4) by (auto simp: farewell_value)
qed

lemma help_with_options:
  defines "argv \<equiv> [''barco'', ''-u'', show_int 0, ''-m'', ''r'', ''-c'', ''s'', ''--help'']"
  shows "\<exists>t. arg_parse 5 False (initial_getopt []) argv main_table = Inr (0, t) \<and> lit_at t 0 = Some 1"
proof -
  let ?start = "initial_getopt []"
  have scan: "arg_int_scanfn \<lparr>int_hdr = h, int_count = 0, int_ival = [x]\<rparr> (Some (show_int 0)) =
      Some (0, \<lparr>int_hdr = h, int_count = 1, int_ival = [Some 0]\<rparr>)" if "hdr_maxcount h = 1" for h x
    using int_values_stored [of "\<lparr>int_hdr = h, int_count = 0, int_ival = [x]\<rparr>" "[]" 1 0] that
    by (simp add: wf_int_def int_suffixes_def)
  have len: "length argv = 8" and ne: "argv \<noteq> []" by (simp_all add: argv_def)
  have reset: "arg_reset 13 main_table = main_table"
    by (simp add: arg_reset_def main_table_def entry_eval)
  obtain longs where longs: "alloc_longoptions main_table = Some longs" "hd longs = \<lparr>lo_name = ''help'', lo_has_arg = 0, lo_flag = True, lo_val = 0\<rparr>"
    "longs \<noteq> []"
    by (simp add: alloc_longoptions_def main_table_def entry_eval count_names_def names_of_def terminator_def has_flag_def ARG_TERMINATOR_def
        ARG_HASVALUE_def ARG_HASOPTVALUE_def)
  let ?g = "?start\<lparr>nargv := argv, optind := 0, opterr := False, getoptval := 0\<rparr>" and ?o = "'':u:m:c:a:v''"
  note opt = value_option [where argv = argv and options = ?o and posix = False and longs = longs and g = ?start, unfolded len]
  have u: "getopt_long False 8 ?o longs ?g = Some (117, at_arg ?start argv 3 (Some (show_int 0)))"
    using opt(2) [of 1 "CHR ''u''" "''m:c:a:v''"] by (simp add: argv_def c_hd_def char_code_def numeral_eq_Suc)
  have m: "getopt_long False 8 ?o longs (at_arg ?start argv 3 v) = Some (109, at_arg ?start argv 5 (Some ''r''))" for v
    using opt(1) [of 3 "CHR ''m''" "''c:a:v''"] by (simp add: argv_def c_hd_def char_code_def numeral_eq_Suc)
  have c: "getopt_long False 8 ?o longs (at_arg ?start argv 5 v) = Some (99, at_arg ?start argv 7 (Some ''s''))" for v
    using opt(1) [of 5 "CHR ''c''" "''a:v''"] by (simp add: argv_def c_hd_def char_code_def numeral_eq_Suc)
  let ?h = "(at_arg ?start argv 8 None)\<lparr>dash_prefix := DD_PREFIX\<rparr>"
  obtain r where r: "longs = \<lparr>lo_name = ''help'', lo_has_arg = 0, lo_flag = True, lo_val = 0\<rparr> # r"
    using longs(2,3) by (cases longs) auto
  have h: "getopt_long False 8 ?o longs (at_arg ?start argv 7 v) = Some (0, ?h)" for v
    by (simp add: getopt_eval at_arg_def argv_def r)
  have last: "getopt_long False 8 ?o longs ?h = Some (-1, ?h)"
    by (simp add: getopt_eval at_arg_def)
  have arg: "optarg (at_arg ?start argv k v) = v" for k v by (simp add: at_arg_def)
  define T1 where "T1 = main_table[2 := E_int ((arg_intn (Some ''u'') (Some ''uid'') (Some ''<n>'') 1 1 (Some ''UID/GID inside container''))
    \<lparr>int_count := 1, int_ival := [Some 0]\<rparr>)]"
  define T2 where "T2 = T1[3 := E_str ((arg_strn (Some ''m'') (Some ''mnt'') (Some ''<path>'') 1 1 (Some ''rootfs directory''))
    \<lparr>str_count := 1, str_sval := [''r'']\<rparr>)]"
  define T3 where "T3 = T2[4 := E_str ((arg_strn (Some ''c'') (Some ''cmd'') (Some ''<cmd>'') 1 1 (Some ''command to execute''))
    \<lparr>str_count := 1, str_sval := [''s'']\<rparr>)]"
  define T4 where "T4 = T3[0 := E_lit ((arg_litn None (Some ''help'') 0 1 (Some ''display help and exit''))\<lparr>lit_count := 1\<rparr>)]"
  note eval = tagged_step_def tagged_short_def scan_entry_def elem_def terminator_def has_flag_def ARG_TERMINATOR_def ARG_HASVALUE_def
    entry_eval arg main_table_def letter_codes
  have s1: "tagged_step 13 117 (at_arg ?start argv k (Some (show_int 0))) main_table = Some T1" for k
    by (simp add: eval scan T1_def)
  have s2: "tagged_step 13 109 (at_arg ?start argv k (Some ''r'')) T1 = Some T2" for k
    by (simp add: eval T1_def T2_def)
  have s3: "tagged_step 13 99 (at_arg ?start argv k (Some ''s'')) T2 = Some T3" for k
    by (simp add: eval T1_def T2_def T3_def)
  have s4: "tagged_step 13 0 ?h T3 = Some T4"
    by (simp add: eval tagged_long_def at_arg_def T1_def T2_def T3_def T4_def)
  have f: "arg_parse_untagged 13 ?h T4 = Some T4" "arg_finish 13 T4 = Some (0, T4)"
    by (simp_all add: parse_eval entry_eval T1_def T2_def T3_def T4_def main_table_def at_arg_def len)
  have "arg_parse (Suc (Suc (Suc (Suc (Suc 0))))) False ?start argv main_table = Inr (0, T4)"
    using longs(1) main_shorts wf_endindex [OF main_table_wf] reset len ne u m c h last s1 s2 s3 s4 f
    by (simp add: arg_parse_def arg_parse_tagged_def lift_ub_def)
  then have "arg_parse 5 False ?start argv main_table = Inr (0, T4)" by (simp add: eval_nat_numeral)
  moreover have "lit_at T4 0 = Some 1" by (simp add: lit_at_def elem_def T1_def T2_def T3_def T4_def main_table_def)
  ultimately show ?thesis by blast
qed

theorem main_prints_help_witness:
  "\<exists>cl. main_cmdline 5 False (initial_getopt []) [''barco'', ''-u'', show_int 0, ''-m'', ''r'', ''-c'', ''s'', ''--help''] = Inr cl \<and>
    prints (snd (run (\<lambda>t c. ret 1) (main_program 0 [] cl) [])) ! 1 = (None, main_usage @ newline)"
proof -
  have safe: "number_safe [''barco'', ''-u'', show_int 0, ''-m'', ''r'', ''-c'', ''s'', ''--help'']"
    by (rule number_safe_simple) (simp add: show_int_def show_nat.simps)
  obtain t where t: "arg_parse 5 False (initial_getopt []) [''barco'', ''-u'', show_int 0, ''-m'', ''r'', ''-c'', ''s'', ''--help''] main_table = Inr (0, t)"
    "lit_at t 0 = Some 1" using help_with_options by blast
  show ?thesis using main_prints_help [OF safe t, of "\<lambda>t c. ret 1" 0 "[]"] by (auto simp: ret_def)
qed

lemma main_errors_printed:
  assumes "number_safe argv" and "arg_parse fuel posix g argv main_table = Inr (errs, t)"
    and "\<forall>x \<in> set (table_end_errors 13 t). opt_nul_free (err_argval x)"
  shows "arg_print_errors 13 t ''barco'' = Some (errors_text 13 t ''barco'')"
proof -
  have t: "wf_table 13 t" "headers t = headers main_table"
    using arg_parse_ok [OF main_table_wf assms(1), of fuel posix g] assms(2) by (auto simp: parsed_def)
  have "\<forall>h \<in> set (map entry_hdr main_table). hdr_ok h"
    by (simp add: main_table_def header_eval hdr_ok_def opt_nul_free_def)
  then have "\<forall>h \<in> set (map entry_hdr t). hdr_ok h" by (simp only: table_headers [OF t(2)])
  moreover have "13 < length t" using t(1) by (simp add: wf_table_def)
  ultimately have "printable 13 t" using t(1) assms(3) by (simp add: printable_def)
  then show ?thesis by (rule errors_printed) simp
qed

text \<open>C9: When arg_parse finds errors, no argument holds a negated least long after a prefix (number_safe), the recorded
arguments are C strings, as the command line is, and calloc and malloc give main memory for the configuration and the
argument table, main prints one message for each error and the advice to try --help, and exits with 1.  The only other
output is its closing log line.\<close>

theorem main_prints_errors:
  assumes "number_safe argv" and "arg_parse fuel posix g argv main_table = Inr (errs, t)" and "0 < errs"
    and "\<forall>x \<in> set (table_end_errors 13 t). opt_nul_free (err_argval x)" and "rv (k [] (Calloc 1 96)) \<noteq> 0"
    and "\<forall>t n. rv (k t (Malloc n)) \<noteq> 0"
  shows "\<exists>cl. main_cmdline fuel posix g argv = Inr cl \<and> fst (run k (main_program f junk cl) []) = Inr 1 \<and>
    prints (snd (run k (main_program f junk cl) [])) =
      [(None, errors_text 13 t ''barco''), (None, ''Try 'barco --help' for more information.'' @ newline),
       (Some 2, ''so long and thanks for all the fish (exit code: 1)'')]"
proof -
  have t: "wf_table 13 t" "headers t = headers main_table"
    using arg_parse_ok [OF main_table_wf assms(1), of fuel posix g] assms(2) by (auto simp: parsed_def)
  note e = main_errors_printed [OF assms(1,2,4)]
  have "lit_at t 0 \<noteq> None" using read_entries(1) [OF t, of 0] by (simp add: main_table_def)
  then obtain cl where "main_cmdline fuel posix g argv = Inr cl" "cl_errors cl = int errs" "cl_error_text cl = errors_text 13 t ''barco''"
    using assms(2,3) e by (auto simp: main_cmdline_def read_cmdline_def lift_ub_def)
  then show ?thesis
    using run_main_usage(1) [OF assms(5,6), of cl f junk] assms(3) by (auto simp: farewell_value newline_def)
qed

lemma help_errors:
  "\<exists>t. arg_parse (Suc (Suc fuel)) posix g [''barco'', ''--help''] main_table = Inr (3, t) \<and> lit_at t 0 = Some 1 \<and>
    table_end_errors 13 t = map (\<lambda>i. \<lparr>err_code = 1, err_parent = i, err_argval = None\<rparr>) [2, 3, 4]"
  by (simp add: parse_eval entry_eval main_table_def getopt_eval table_end_errors_def lit_at_def)

lemma shown_option_short:
  assumes "opt_nul_free so" and "opt_nul_free lo" and "opt_nul_free dt" and "length (optionv_text so lo dt False ''|'') < 198"
  shows "shown_option so lo dt = optionv_text so lo dt False ''|''"
proof -
  have "nul_free ''|''" by simp
  from appends_result [OF appends_optionv [OF assms(1,2,3) this, of False]] show ?thesis
    using assms(4) by (auto simp: shown_option_def)
qed

theorem main_prints_errors_witness:
  "\<exists>cl. main_cmdline 2 False (initial_getopt []) [''barco'', ''--help''] = Inr cl \<and>
    fst (run (\<lambda>t c. ret 1) (main_program 0 [] cl) []) = Inr 1 \<and>
    length (prints (snd (run (\<lambda>t c. ret 1) (main_program 0 [] cl) []))) = 3"
proof -
  obtain t where t: "arg_parse 2 False (initial_getopt []) [''barco'', ''--help''] main_table = Inr (3, t)"
    "table_end_errors 13 t = map (\<lambda>i. \<lparr>err_code = 1, err_parent = i, err_argval = None\<rparr>) [2, 3, 4]"
    using help_errors [of 0 False "initial_getopt []"] by (auto simp: numeral_2_eq_2)
  have "number_safe [''barco'', ''--help'']" by (rule number_safe_simple) simp
  moreover have "\<forall>x \<in> set (table_end_errors 13 t). opt_nul_free (err_argval x)" by (simp add: t(2) opt_nul_free_def)
  ultimately show ?thesis
    using main_prints_errors [OF _ t(1), of "\<lambda>t c. ret 1" 0 "[]"] by (auto simp: ret_def)
qed

text \<open>The text for \<open>barco --help\<close> alone.\<close>

lemma help_alone_text:
  assumes "arg_parse (Suc (Suc fuel)) posix g [''barco'', ''--help''] main_table = Inr (3, t)"
  shows "errors_text 13 t ''barco'' =
    ''barco: missing option -u|--uid=<n>'' @ newline @ ''barco: missing option -m|--mnt=<path>'' @ newline @
    ''barco: missing option -c|--cmd=<cmd>'' @ newline"
proof -
  have e: "table_end_errors 13 t = map (\<lambda>i. \<lparr>err_code = 1, err_parent = i, err_argval = None\<rparr>) [2, 3, 4]"
    using help_errors [of fuel posix g] assms by auto
  have "number_safe [''barco'', ''--help'']" by (rule number_safe_simple) simp
  then have t: "wf_table 13 t" "headers t = headers main_table"
    using arg_parse_ok [OF main_table_wf, of "[''barco'', ''--help'']" "Suc (Suc fuel)" posix g] assms by (auto simp: parsed_def)
  have k: "kind (t ! i) = kind (main_table ! i)" "entry_hdr (t ! i) = entry_hdr (main_table ! i)" if "i < 13" for i
    using main_entry [OF t that] by simp_all
  have 2: "error_text (t ! 2) 1 None p = p @ '': missing option -u|--uid=<n>'' @ newline" for p
    using k [of 2] by (cases "t ! 2")
      (simp_all add: main_table_def header_eval value_message_def ARG_ERR_MINCOUNT_def shown_option_short opt_nul_free_def
        optionv_text_def longs_text.simps tag_of_def datatype_text_def Let_def)
  have 3: "error_text (t ! 3) 1 None p = p @ '': missing option -m|--mnt=<path>'' @ newline" for p
    using k [of 3] by (cases "t ! 3")
      (simp_all add: main_table_def header_eval value_message_def ARG_ERR_MINCOUNT_def shown_option_short opt_nul_free_def
        optionv_text_def longs_text.simps tag_of_def datatype_text_def Let_def)
  have 4: "error_text (t ! 4) 1 None p = p @ '': missing option -c|--cmd=<cmd>'' @ newline" for p
    using k [of 4] by (cases "t ! 4")
      (simp_all add: main_table_def header_eval value_message_def ARG_ERR_MINCOUNT_def shown_option_short opt_nul_free_def
        optionv_text_def longs_text.simps tag_of_def datatype_text_def Let_def)
  show ?thesis by (simp add: errors_text_def e 2 3 4)
qed

text \<open>barco --help without the required options prints errors and no help: arg_parse counts --help, but reports the three
missing options, and main prints exactly these three messages and, as long as it gets its memory, exits with 1.\<close>

theorem help_alone_fails:
  assumes "rv (k [] (Calloc 1 96)) \<noteq> 0" and "\<forall>t n. rv (k t (Malloc n)) \<noteq> 0"
  shows "\<exists>cl. main_cmdline (Suc (Suc fuel)) posix g [''barco'', ''--help''] = Inr cl \<and> cl_help cl = 1 \<and>
    cl_error_text cl = ''barco: missing option -u|--uid=<n>'' @ newline @ ''barco: missing option -m|--mnt=<path>'' @ newline @
      ''barco: missing option -c|--cmd=<cmd>'' @ newline \<and>
    fst (run k (main_program f junk cl) []) = Inr 1"
proof -
  obtain t where t: "arg_parse (Suc (Suc fuel)) posix g [''barco'', ''--help''] main_table = Inr (3, t)" "lit_at t 0 = Some 1"
    "table_end_errors 13 t = map (\<lambda>i. \<lparr>err_code = 1, err_parent = i, err_argval = None\<rparr>) [2, 3, 4]"
    using help_errors [of fuel posix g] by blast
  have "number_safe [''barco'', ''--help'']" by (rule number_safe_simple) simp
  moreover have "\<forall>x \<in> set (table_end_errors 13 t). opt_nul_free (err_argval x)" by (simp add: t(3) opt_nul_free_def)
  ultimately have e: "arg_print_errors 13 t ''barco'' = Some (errors_text 13 t ''barco'')"
    using main_errors_printed [OF _ t(1)] by simp
  then obtain cl where cl: "main_cmdline (Suc (Suc fuel)) posix g [''barco'', ''--help''] = Inr cl" "cl_help cl = 1"
    "cl_errors cl = 3" "cl_error_text cl = errors_text 13 t ''barco''"
    using t(2) by (simp add: main_cmdline_def t(1) read_cmdline_def lift_ub_def)
  then have "fst (run k (main_program f junk cl) []) = Inr 1"
    using run_main_usage(1) [OF assms, of cl f junk] by auto
  then show ?thesis using cl help_alone_text [OF t(1)] by auto
qed

end
