(* ===== verification/Arg_Wrap.thy ===== *)
theory Arg_Wrap
  imports Arg_Output
begin

text \<open>
  The glossary in GNU format of \<open>lib/argtable/argtable3.c\<close>, whose descriptions are wrapped into a column.  The
  index into the text is a natural: the code asserts that the text has fewer than \<open>UINT_MAX\<close> characters.
  Reading past the terminator of the text is \<open>None\<close>, and so is a loop that does not end.
\<close>

section \<open>Wrapping a text\<close>

abbreviation NEWLINE :: char where "NEWLINE \<equiv> CHR 0x0A"

definition char_at :: "string \<Rightarrow> nat \<Rightarrow> char option" where
  "char_at tx i = (if i < length tx then Some (tx ! i) else if i = length tx then Some NUL else None)"

text \<open>Leading blanks are skipped, but not newlines.\<close>

function skip_blanks :: "string \<Rightarrow> nat \<Rightarrow> nat option" where
  "skip_blanks tx line_start =
     (case char_at tx line_start of
        None \<Rightarrow> None
      | Some c \<Rightarrow> if is_space c \<and> c \<noteq> NEWLINE then skip_blanks tx (line_start + 1) else Some line_start)"
  by pat_completeness auto
termination by (relation "measure (\<lambda>(tx, i). length tx + 1 - i)") (auto simp: char_at_def split: if_splits)

declare skip_blanks.simps [simp del]

text \<open>Back to a blank, and back over blanks; the second loop looks for a newline at the start of the line.\<close>

fun back_to_blank :: "string \<Rightarrow> nat \<Rightarrow> nat \<Rightarrow> nat option" where
  "back_to_blank tx line_start line_end =
     (if line_start < line_end then do {
        c \<leftarrow> char_at tx line_end;
        if \<not> is_space c then back_to_blank tx line_start (line_end - 1) else Some line_end}
      else Some line_end)"

fun trim_blanks :: "string \<Rightarrow> nat \<Rightarrow> nat \<Rightarrow> nat option" where
  "trim_blanks tx line_start line_end =
     (if line_start < line_end then do {
        c \<leftarrow> char_at tx line_end;
        d \<leftarrow> char_at tx line_start;
        if is_space c \<and> d \<noteq> NEWLINE then trim_blanks tx line_start (line_end - 1) else Some line_end}
      else Some line_end)"

declare back_to_blank.simps [simp del] trim_blanks.simps [simp del]

definition wrap_end :: "string \<Rightarrow> nat \<Rightarrow> nat \<Rightarrow> nat \<Rightarrow> nat option" where
  "wrap_end tx colwidth line_start line_end =
     (if colwidth < line_end - line_start then do {
        e \<leftarrow> back_to_blank tx line_start (line_start + colwidth);
        if e = line_start then Some (line_start + colwidth)
        else do { e \<leftarrow> trim_blanks tx line_start e; Some (e + 1) }}
      else Some line_end)"

function put_line :: "string \<Rightarrow> nat \<Rightarrow> nat \<Rightarrow> dstr \<Rightarrow> (nat \<times> dstr) option" where
  "put_line tx line_start line_end ds =
     (if line_start < line_end then do {
        c \<leftarrow> char_at tx line_start;
        if c = NEWLINE then Some (line_start + 1, ds)
        else do { ds \<leftarrow> arg_dstr_catc c ds; put_line tx (line_start + 1) line_end ds }}
      else Some (line_start, ds))"
  by pat_completeness auto
termination by (relation "measure (\<lambda>(tx, i, e, ds). e - i)") auto

declare put_line.simps [simp del]

definition put_margin :: "nat \<Rightarrow> dstr \<Rightarrow> dstr option" where
  "put_margin lmargin = cat_list (replicate lmargin '' '')"

partial_function (option) format_lines :: "string \<Rightarrow> nat \<Rightarrow> nat \<Rightarrow> nat \<Rightarrow> nat \<Rightarrow> dstr \<Rightarrow> dstr option" where
  "format_lines tx lmargin colwidth line_start line_end ds =
     (if line_start < line_end then do {
        line_start \<leftarrow> skip_blanks tx line_start;
        line_end \<leftarrow> wrap_end tx colwidth line_start line_end;
        (line_start, ds) \<leftarrow> put_line tx line_start line_end ds;
        ds \<leftarrow> arg_dstr_cat newline ds;
        (if line_end < length tx then do {
           ds \<leftarrow> put_margin lmargin ds;
           format_lines tx lmargin colwidth line_start (length tx) ds}
         else format_lines tx lmargin colwidth line_start line_end ds)}
      else Some ds)"

text \<open>The column width is computed in \<open>unsigned int\<close>.\<close>

definition arg_print_formatted_ds :: "32 word \<Rightarrow> 32 word \<Rightarrow> string \<Rightarrow> dstr \<Rightarrow> dstr option" where
  "arg_print_formatted_ds lmargin rmargin tx ds =
     format_lines tx (unat lmargin) (unat ((rmargin - lmargin) + 1)) 0 (length tx) ds"

section \<open>The GNU glossary\<close>

text \<open>The option column starts with four blanks when there is no short option.\<close>

definition gnu_syntax :: "arg_hdr \<Rightarrow> string option" where
  "gnu_syntax h = do {
     let st = (if hdr_shortopts h = None \<and> hdr_longopts h \<noteq> None
       then empty_syntax\<lparr>cat_buf := ''    '' @ replicate 196 NUL\<rparr> else empty_syntax);
     st \<leftarrow> arg_cat_optionv (hdr_shortopts h) (hdr_longopts h) (hdr_datatype h) (has_flag h ARG_HASOPTVALUE) '', '' st;
     cstr (cat_buf st)}"

definition gnu_entry :: "arg_hdr \<Rightarrow> string \<Rightarrow> dstr \<Rightarrow> dstr option" where
  "gnu_entry h glossary ds = do {
     syntax \<leftarrow> gnu_syntax h;
     (syntax, ds) \<leftarrow> (if 25 < length syntax then do {
         ds \<leftarrow> arg_dstr_catf (''  %-25s %s'' @ newline) [F_str syntax, F_str []] ds;
         Some ([], ds)}
       else Some (syntax, ds));
     ds \<leftarrow> arg_dstr_catf ''  %-25s '' [F_str syntax] ds;
     arg_print_formatted_ds 28 79 glossary ds}"

fun gnu_entries :: "arg_hdr list \<Rightarrow> dstr \<Rightarrow> dstr option" where
  "gnu_entries [] ds = None"
| "gnu_entries (h # hs) ds =
     (if has_flag h ARG_TERMINATOR then Some ds
      else do {
        ds \<leftarrow> (case hdr_glossary h of None \<Rightarrow> Some ds | Some g \<Rightarrow> gnu_entry h g ds);
        gnu_entries hs ds})"

definition arg_print_glossary_gnu_ds :: "arg_hdr list \<Rightarrow> dstr \<Rightarrow> dstr option" where
  "arg_print_glossary_gnu_ds table ds = do { ds \<leftarrow> gnu_entries table ds; arg_dstr_cat newline ds }"

definition arg_print_glossary_gnu :: "arg_hdr list \<Rightarrow> string option" where
  "arg_print_glossary_gnu table = printed (arg_print_glossary_gnu_ds table)"

section \<open>The full width\<close>

text \<open>With the margins 0 and \<open>UINT_MAX\<close> the width wraps to 0: every round of the loop prints an empty line and none
moves on.\<close>

lemma format_lines_width_0: "format_lines tx lmargin colwidth i e ds \<noteq> Some y" if "tx = ''x''" "colwidth = 0" "i = 0" "e = 1"
proof
  assume "format_lines tx lmargin colwidth i e ds = Some y"
  then have "\<not> (tx = ''x'' \<and> colwidth = 0 \<and> i = 0 \<and> e = 1)"
  proof (rule format_lines.raw_induct [where P = "\<lambda>tx l c i e ds y. \<not> (tx = ''x'' \<and> c = 0 \<and> i = 0 \<and> e = 1)", rotated])
    fix format_lines and tx :: string and lmargin colwidth i e ds y
    assume IH: "\<And>tx lmargin colwidth i e ds y. format_lines tx lmargin colwidth i e ds = Some y \<Longrightarrow>
        \<not> (tx = ''x'' \<and> colwidth = 0 \<and> i = 0 \<and> e = 1)"
      and body: "(if i < e then do {
        line_start \<leftarrow> skip_blanks tx i;
        line_end \<leftarrow> wrap_end tx colwidth line_start e;
        (line_start, ds) \<leftarrow> put_line tx line_start line_end ds;
        ds \<leftarrow> arg_dstr_cat newline ds;
        (if line_end < length tx then do {
           ds \<leftarrow> put_margin lmargin ds;
           format_lines tx lmargin colwidth line_start (length tx) ds}
         else format_lines tx lmargin colwidth line_start line_end ds)}
      else Some ds) = Some y"
    show "\<not> (tx = ''x'' \<and> colwidth = 0 \<and> i = 0 \<and> e = 1)"
    proof
      assume *: "tx = ''x'' \<and> colwidth = 0 \<and> i = 0 \<and> e = 1"
      have c: "char_at ''x'' 0 = Some (CHR ''x'')" "\<not> is_space (CHR ''x'')" by (simp_all add: char_at_def is_space_def)
      have w: "skip_blanks ''x'' 0 = Some 0" "wrap_end ''x'' 0 0 1 = Some 0"
        using c by (simp_all add: skip_blanks.simps wrap_end_def back_to_blank.simps)
      have p: "put_line ''x'' 0 0 d = Some (0, d)" for d by (simp add: put_line.simps)
      have again: "format_lines ''x'' l 0 0 (Suc 0) d = Some z \<Longrightarrow> False" for l d z
        using IH [of "''x''" l 0 0 1 d z] by simp
      from body * w p show False by (auto simp: bind_eq_Some_conv dest: again)
    qed
  qed
  with that show False by blast
qed

lemma full_width_never_ends: "arg_print_formatted_ds 0 (-1) ''x'' ds = None"
  using format_lines_width_0 [of "''x''" 0 0 1 0 ds]
  by (cases "format_lines ''x'' 0 0 0 1 ds") (auto simp: arg_print_formatted_ds_def)

section \<open>The wrapped text\<close>

definition visible :: "string \<Rightarrow> string" where
  "visible s = filter (\<lambda>c. \<not> is_space c) s"

lemma visible_simps [simp]: "visible [] = []" "visible (s @ t) = visible s @ visible t"
  "visible (c # s) = (if is_space c then visible s else c # visible s)"
  by (simp_all add: visible_def)

lemma newline_space [simp]: "is_space NEWLINE" "visible newline = []" "is_space (CHR '' '')"
  by (simp_all add: is_space_def newline_def)

lemma visible_drop: "i < length tx \<Longrightarrow> visible (drop i tx) = visible [tx ! i] @ visible (drop (Suc i) tx)"
  by (simp add: Cons_nth_drop_Suc [symmetric])

lemma skip_blanks_ok:
  "i \<le> length tx \<Longrightarrow> \<exists>j. skip_blanks tx i = Some j \<and> i \<le> j \<and> j \<le> length tx \<and> visible (drop j tx) = visible (drop i tx)"
proof (induction tx i rule: skip_blanks.induct)
  case (1 tx i)
  show ?case
  proof (cases "i < length tx \<and> is_space (tx ! i) \<and> tx ! i \<noteq> NEWLINE")
    case True
    then have c: "char_at tx i = Some (tx ! i)" by (simp add: char_at_def)
    with True 1(1) [OF c] obtain j where "skip_blanks tx (i + 1) = Some j" "i + 1 \<le> j" "j \<le> length tx"
      "visible (drop j tx) = visible (drop (i + 1) tx)" by auto
    then show ?thesis using True c by (subst skip_blanks.simps) (auto simp: visible_drop)
  next
    case False
    then have "skip_blanks tx i = Some i" using 1(2) by (subst skip_blanks.simps) (auto simp: char_at_def is_space_def)
    then show ?thesis using 1(2) by simp
  qed
qed

lemma back_to_blank_ok:
  "i \<le> e \<Longrightarrow> e \<le> length tx \<Longrightarrow> \<exists>e'. back_to_blank tx i e = Some e' \<and> i \<le> e' \<and> e' \<le> e \<and> (i < e' \<longrightarrow> e' < length tx \<and> is_space (tx ! e'))"
proof (induction tx i e rule: back_to_blank.induct)
  case (1 tx i e)
  show ?case
  proof (cases "i < e")
    case True
    obtain c where c: "char_at tx e = Some c" using 1(3) by (cases "e < length tx") (auto simp: char_at_def)
    show ?thesis
    proof (cases "is_space c")
      case False
      have "i \<le> e - 1" "e - 1 \<le> length tx" using True 1(3) by auto
      from 1(1) [OF True c False this] obtain e' where "back_to_blank tx i (e - 1) = Some e'" "i \<le> e'" "e' \<le> e - 1"
        "i < e' \<longrightarrow> e' < length tx \<and> is_space (tx ! e')" by blast
      then show ?thesis using True False c by (subst back_to_blank.simps) auto
    next
      case sp: True
      then have "e < length tx" "tx ! e = c" using c by (auto simp: char_at_def is_space_def split: if_splits)
      then show ?thesis using True sp c by (subst back_to_blank.simps) auto
    qed
  next
    case False
    then show ?thesis using 1(2) by (subst back_to_blank.simps) auto
  qed
qed

lemma trim_blanks_ok:
  "i \<le> e \<Longrightarrow> e < length tx \<Longrightarrow> \<exists>e'. trim_blanks tx i e = Some e' \<and> i \<le> e' \<and> e' \<le> e \<and>
     (i < e \<and> is_space (tx ! e) \<and> tx ! i \<noteq> NEWLINE \<longrightarrow> e' < e)"
proof (induction tx i e rule: trim_blanks.induct)
  case (1 tx i e)
  show ?case
  proof (cases "i < e")
    case True
    have c: "char_at tx e = Some (tx ! e)" "char_at tx i = Some (tx ! i)" using True 1(3) by (auto simp: char_at_def)
    show ?thesis
    proof (cases "is_space (tx ! e) \<and> tx ! i \<noteq> NEWLINE")
      case sp: True
      obtain e' where "trim_blanks tx i (e - 1) = Some e'" "i \<le> e'" "e' \<le> e - 1"
      proof -
        have "i \<le> e - 1" "e - 1 < length tx" using True 1(3) by auto
        from 1(1) [OF True c sp this] show thesis using that by blast
      qed
      then show ?thesis using True c sp by (subst trim_blanks.simps) auto
    next
      case False
      then show ?thesis using True c by (subst trim_blanks.simps) auto
    qed
  next
    case False
    then show ?thesis using 1(2) by (subst trim_blanks.simps) auto
  qed
qed

lemma wrap_end_ok:
  assumes "i \<le> length tx" and "0 < cw"
  obtains e where "wrap_end tx cw i (length tx) = Some e" "i \<le> e" "e \<le> length tx" "i < length tx \<Longrightarrow> i < e"
    "i < length tx \<Longrightarrow> tx ! i \<noteq> NEWLINE \<Longrightarrow> e - i \<le> cw"
proof (cases "cw < length tx - i")
  case True
  then have b: "i \<le> i + cw" "i + cw \<le> length tx" by auto
  from back_to_blank_ok [OF b] obtain e where e: "back_to_blank tx i (i + cw) = Some e" "i \<le> e" "e \<le> i + cw"
    "i < e \<longrightarrow> e < length tx \<and> is_space (tx ! e)" by auto
  show thesis
  proof (cases "e = i")
    case eq: True
    show thesis by (rule that [of "i + cw"]) (use True e eq assms in \<open>auto simp: wrap_end_def\<close>)
  next
    case False
    then obtain e' where "trim_blanks tx i e = Some e'" "i \<le> e'" "e' \<le> e" "tx ! i \<noteq> NEWLINE \<longrightarrow> e' < e"
      using trim_blanks_ok [of i e tx] e by auto
    then show thesis using that [of "e' + 1"] True e False by (auto simp: wrap_end_def)
  qed
next
  case False
  then show thesis using that [of "length tx"] assms by (auto simp: wrap_end_def)
qed

text \<open>One line is printed, up to a newline or to its end.\<close>

lemma writes_chars: "nul_free s \<Longrightarrow> dstr.writes (dstr.each arg_dstr_catc s) s"
proof -
  assume "nul_free s"
  then have "dstr.writes (dstr.each arg_dstr_catc s) (concat (map (\<lambda>c. [c]) s))"
    by (intro dstr.writes_each) (auto simp: catc_is_cat [abs_def] nul_free_def intro!: dstr.writes_put)
  then show ?thesis by simp
qed

lemma put_line_ok:
  "i \<le> e \<Longrightarrow> e \<le> length tx \<Longrightarrow> \<exists>s j. (\<forall>ds. put_line tx i e ds = Option.bind (dstr.each arg_dstr_catc s ds) (\<lambda>ds. Some (j, ds))) \<and>
     i \<le> j \<and> j \<le> e \<and> (i < e \<longrightarrow> i < j) \<and> length s \<le> e - i \<and> NEWLINE \<notin> set s \<and> set s \<subseteq> set tx \<and>
     (i < e \<longrightarrow> tx ! i = NEWLINE \<longrightarrow> s = []) \<and> visible s @ visible (drop j tx) = visible (drop i tx)"
proof (induction "e - i" arbitrary: i)
  case 0
  then show ?case by (intro exI [of _ "[]"] exI [of _ i]) (auto simp: put_line.simps)
next
  case (Suc n)
  then have i: "i < e" "i < length tx" and c: "char_at tx i = Some (tx ! i)" by (auto simp: char_at_def)
  show ?case
  proof (cases "tx ! i = NEWLINE")
    case True
    then show ?thesis using i c by (intro exI [of _ "[]"] exI [of _ "i + 1"]) (auto simp: put_line.simps [of tx i] visible_drop)
  next
    case False
    obtain s j where s: "\<And>ds. put_line tx (i + 1) e ds = Option.bind (dstr.each arg_dstr_catc s ds) (\<lambda>ds. Some (j, ds))"
      "i + 1 \<le> j" "j \<le> e" "length s \<le> e - (i + 1)" "NEWLINE \<notin> set s" "set s \<subseteq> set tx"
      "visible s @ visible (drop j tx) = visible (drop (i + 1) tx)"
    proof -
      have "n = e - (i + 1)" "i + 1 \<le> e" using Suc.hyps(2) i by auto
      from Suc.hyps(1) [OF this Suc.prems(2)] show thesis using that by blast
    qed
    have "put_line tx i e ds = Option.bind (dstr.each arg_dstr_catc (tx ! i # s) ds) (\<lambda>ds. Some (j, ds))" for ds
      using i c False by (cases "arg_dstr_catc (tx ! i) ds") (simp_all add: put_line.simps [of tx i] s(1) [simplified])
    then show ?thesis using i s(2-) False
      by (intro exI [of _ "tx ! i # s"] exI [of _ j]) (auto simp: visible_drop)
  qed
qed

lemma writes_margin: "dstr.writes (put_margin n) (replicate n (CHR '' ''))"
proof -
  have "concat (replicate n '' '') = replicate n (CHR '' '')" by (induction n) simp_all
  then show ?thesis using writes_cat_list [of "replicate n '' ''"] by (simp add: put_margin_def)
qed

text \<open>The lines, and what they hold together.\<close>

definition lines_text :: "string list \<Rightarrow> string" where
  "lines_text lines = concat (map (\<lambda>l. l @ newline) lines)"

definition good_lines :: "nat \<Rightarrow> string \<Rightarrow> string list \<Rightarrow> bool" where
  "good_lines w tx lines \<longleftrightarrow> (\<forall>l \<in> set lines. NEWLINE \<notin> set l \<and> length l \<le> w) \<and> visible (concat lines) = visible tx"

lemma format_lines_ok:
  assumes cw: "0 < cw" and nul: "nul_free tx"
  shows "i \<le> length tx \<Longrightarrow> m \<le> lm \<Longrightarrow> m = 0 \<or> i < length tx \<Longrightarrow>
    \<exists>t lines. dstr.writes (format_lines tx lm cw i (length tx)) t \<and>
      replicate m (CHR '' '') @ t = lines_text lines \<and> good_lines (lm + cw) (drop i tx) lines"
proof (induction "length tx - i" arbitrary: i m rule: less_induct)
  case less
  show ?case
  proof (cases "i < length tx")
    case False
    then have "format_lines tx lm cw i (length tx) = Some" by (intro ext) (simp add: format_lines.simps)
    then show ?thesis using False less.prems dstr.writes_none
      by (intro exI [of _ "[]"]) (auto simp: lines_text_def good_lines_def)
  next
    case True
    obtain i0 where i0: "skip_blanks tx i = Some i0" "i \<le> i0" "i0 \<le> length tx" "visible (drop i0 tx) = visible (drop i tx)"
      using skip_blanks_ok [OF less.prems(1)] by auto
    obtain e where e: "wrap_end tx cw i0 (length tx) = Some e" "i0 \<le> e" "e \<le> length tx" "i0 < length tx \<Longrightarrow> i0 < e"
      "i0 < length tx \<Longrightarrow> tx ! i0 \<noteq> NEWLINE \<Longrightarrow> e - i0 \<le> cw"
      using wrap_end_ok [OF i0(3) cw] by blast
    obtain s j where s: "\<And>ds. put_line tx i0 e ds = Option.bind (dstr.each arg_dstr_catc s ds) (\<lambda>ds. Some (j, ds))"
      and j: "i0 \<le> j" "j \<le> e" "i0 < e \<longrightarrow> i0 < j" "length s \<le> e - i0" "NEWLINE \<notin> set s" "set s \<subseteq> set tx"
        "i0 < e \<longrightarrow> tx ! i0 = NEWLINE \<longrightarrow> s = []" "visible s @ visible (drop j tx) = visible (drop i0 tx)"
      using put_line_ok [OF e(2,3)] by auto
    have progress: "i < j" "j \<le> length tx" using True i0 e j by (cases "i0 < length tx", auto)
    have short: "length s \<le> cw"
    proof (cases "i0 < length tx \<and> tx ! i0 \<noteq> NEWLINE")
      case True
      then show ?thesis using e(5) j(4) by linarith
    next
      case False
      then have "s = []" using i0(3) e(3,4) j(4,7) by (cases "i0 < length tx") auto
      then show ?thesis by simp
    qed
    let ?m = "if e < length tx then lm else 0"
    have m: "?m = 0 \<or> j < length tx" using j(2) by auto
    obtain t lines where t: "dstr.writes (format_lines tx lm cw j (length tx)) t"
        "replicate ?m (CHR '' '') @ t = lines_text lines" "good_lines (lm + cw) (drop j tx) lines"
    proof -
      have "length tx - j < length tx - i" "?m \<le> lm" using progress by auto
      from less.hyps [OF this(1) progress(2) this(2) m] show thesis using that by blast
    qed
    have run: "format_lines tx lm cw i (length tx) = (\<lambda>ds. Option.bind (dstr.each arg_dstr_catc s ds) (\<lambda>ds.
        Option.bind (arg_dstr_cat newline ds) (\<lambda>ds. Option.bind (put_margin ?m ds) (format_lines tx lm cw j (length tx)))))"
    proof
      fix ds
      show "format_lines tx lm cw i (length tx) ds = Option.bind (dstr.each arg_dstr_catc s ds) (\<lambda>ds.
          Option.bind (arg_dstr_cat newline ds) (\<lambda>ds. Option.bind (put_margin ?m ds) (format_lines tx lm cw j (length tx))))"
        using True i0(1) e(1,3) s
        by (subst format_lines.simps, cases "dstr.each arg_dstr_catc s ds", auto simp: put_margin_def)
    qed
    have "nul_free s" using j(6) nul by (auto simp: nul_free_def)
    from dstr.writes_seq [OF writes_chars [OF this] dstr.writes_seq [OF dstr.writes_put [OF newline_nul_free] dstr.writes_seq [OF writes_margin [of ?m] t(1)]]]
    have w: "dstr.writes (format_lines tx lm cw i (length tx)) (s @ newline @ lines_text lines)"
      by (simp only: run t(2))
    have v: "visible (replicate n (CHR '' '')) = []" for n by (induction n) simp_all
    let ?l = "replicate m (CHR '' '') @ s"
    have "good_lines (lm + cw) (drop i tx) (?l # lines)"
      using t(3) short less.prems(2) j(5,8) i0(4) by (auto simp: good_lines_def v)
    moreover have "replicate m (CHR '' '') @ (s @ newline @ lines_text lines) = lines_text (?l # lines)" by (simp add: lines_text_def)
    ultimately show ?thesis using w by blast
  qed
qed

lemma writes_formatted:
  assumes "lmargin \<le> rmargin" and "rmargin < 2 ^ 32 - 1" and "nul_free tx"
  shows "\<exists>lines. dstr.writes (arg_print_formatted_ds (word_of_nat lmargin) (word_of_nat rmargin) tx) (lines_text lines) \<and>
    good_lines (rmargin + 1) tx lines"
proof -
  have w: "word_of_nat rmargin - word_of_nat lmargin + 1 = (word_of_nat (rmargin - lmargin + 1) :: 32 word)"
    using assms(1) by (simp add: of_nat_diff)
  have u: "unat (word_of_nat n :: 32 word) = n" if "n < 2 ^ 32" for n using that by (simp add: unat_of_nat)
  have cw: "unat ((word_of_nat rmargin - word_of_nat lmargin) + 1 :: 32 word) = rmargin - lmargin + 1"
    unfolding w by (rule u) (use assms in simp)
  have lm: "unat (word_of_nat lmargin :: 32 word) = lmargin" by (rule u) (use assms in simp)
  have "arg_print_formatted_ds (word_of_nat lmargin) (word_of_nat rmargin) tx =
      format_lines tx lmargin (rmargin - lmargin + 1) 0 (length tx)"
    by (intro ext) (simp only: arg_print_formatted_ds_def cw lm)
  moreover have "lmargin + (rmargin - lmargin + 1) = rmargin + 1" using assms(1) by simp
  ultimately show ?thesis
    using format_lines_ok [of "rmargin - lmargin + 1" tx 0 0 lmargin] assms(3) by fastforce
qed

text \<open>C17: Printing a text into a column ends for every C string and every pair of margins in order whose right one is below
UINT_MAX (4294967295), into a growing string whose size stays within an int: what is printed is a sequence of
lines, none wider than the right margin, which together hold the characters of the text that are not blank, all of them
and in their order.  The pair 0 and UINT_MAX is left out: there the width of the column wraps to 0 and the loop of the code
does not end.\<close>

theorem formatted_lines:
  assumes "lmargin \<le> rmargin" and "rmargin < 2 ^ 32 - 1" and "nul_free tx" and "dstr_ok ds"
  shows "\<exists>ds' lines. arg_print_formatted_ds (word_of_nat lmargin) (word_of_nat rmargin) tx ds = Some ds' \<and>
    arg_dstr_cstr ds' = Some (dstr_text ds @ concat (map (\<lambda>l. l @ newline) lines)) \<and>
    (\<forall>l \<in> set lines. NEWLINE \<notin> set l \<and> length l \<le> rmargin + 1) \<and>
    filter (\<lambda>c. \<not> is_space c) (concat lines) = filter (\<lambda>c. \<not> is_space c) tx"
proof -
  obtain lines where w: "dstr.writes (arg_print_formatted_ds (word_of_nat lmargin) (word_of_nat rmargin) tx) (lines_text lines)"
    and g: "good_lines (rmargin + 1) tx lines" using writes_formatted [OF assms(1-3)] by blast
  obtain ds' where ds': "arg_print_formatted_ds (word_of_nat lmargin) (word_of_nat rmargin) tx ds = Some ds'" "dstr_ok ds'"
    "dstr_text ds' = dstr_text ds @ lines_text lines" using w assms(4) unfolding dstr.writes_def by blast
  then show ?thesis using g cstr_total [OF ds'(2)] unfolding good_lines_def visible_def lines_text_def by auto
qed

theorem formatted_lines_witness:
  "\<exists>ds' lines. arg_print_formatted_ds 2 7 ''Some text that doesnt fit.'' arg_dstr_create = Some ds' \<and>
    (\<forall>l \<in> set lines. length l \<le> 8) \<and> filter (\<lambda>c. \<not> is_space c) (concat lines) = ''Sometextthatdoesntfit.''"
proof -
  have "nul_free ''Some text that doesnt fit.''" by simp
  from formatted_lines [OF _ _ this dstr_created(1), of 2 7] obtain ds' lines where
    r: "arg_print_formatted_ds 2 7 ''Some text that doesnt fit.'' arg_dstr_create = Some ds'"
      "\<forall>l \<in> set lines. NEWLINE \<notin> set l \<and> length l \<le> 8"
      "filter (\<lambda>c. \<not> is_space c) (concat lines) = filter (\<lambda>c. \<not> is_space c) ''Some text that doesnt fit.''" by auto
  have "filter (\<lambda>c. \<not> is_space c) ''Some text that doesnt fit.'' = ''Sometextthatdoesntfit.''" by (simp add: is_space_def)
  then show ?thesis using r by auto
qed

text \<open>A line that follows a newline of the text is not indented when the rest of the text fits.\<close>

lemma line_after_newline:
  "dstr.writes (arg_print_formatted_ds 2 9 (''a'' @ newline @ ''b'')) (''a'' @ newline @ ''b'' @ newline)"
proof -
  have steps: "skip_blanks [CHR ''a'', NEWLINE, CHR ''b''] 0 = Some 0" "skip_blanks [CHR ''a'', NEWLINE, CHR ''b''] 2 = Some 2"
    "wrap_end [CHR ''a'', NEWLINE, CHR ''b''] 8 0 3 = Some 3" "wrap_end [CHR ''a'', NEWLINE, CHR ''b''] 8 2 3 = Some 3"
    by (simp_all add: skip_blanks.simps char_at_def is_space_def wrap_end_def)
  have lines: "put_line [CHR ''a'', NEWLINE, CHR ''b''] 0 3 ds = Option.bind (arg_dstr_catc (CHR ''a'') ds) (\<lambda>ds. Some (2, ds))"
    "put_line [CHR ''a'', NEWLINE, CHR ''b''] 2 3 ds = Option.bind (arg_dstr_catc (CHR ''b'') ds) (\<lambda>ds. Some (3, ds))" for ds
    by (cases "arg_dstr_catc (CHR ''a'') ds"; cases "arg_dstr_catc (CHR ''b'') ds"; simp add: put_line.simps char_at_def)+
  have c: "dstr.writes (arg_dstr_catc x) [x]" if "x \<noteq> NUL" for x
    using dstr.writes_put [of "[x]"] that by (simp add: catc_is_cat [abs_def])
  have "arg_print_formatted_ds 2 9 [CHR ''a'', NEWLINE, CHR ''b''] = (\<lambda>ds. Option.bind (arg_dstr_catc (CHR ''a'') ds) (\<lambda>ds.
      Option.bind (arg_dstr_cat newline ds) (\<lambda>ds. Option.bind (arg_dstr_catc (CHR ''b'') ds) (arg_dstr_cat newline))))"
    by (intro ext) (simp add: arg_print_formatted_ds_def format_lines.simps steps lines flip: numeral_3_eq_3)
  then show ?thesis
    using dstr.writes_seq [OF c dstr.writes_seq [OF dstr.writes_put [OF newline_nul_free] dstr.writes_seq [OF c dstr.writes_put [OF newline_nul_free]]]]
    by (simp add: newline_def)
qed

section \<open>The glossary\<close>

lemma gnu_syntax_ok:
  assumes "hdr_ok h"
  obtains s where "gnu_syntax h = Some s" "nul_free s"
proof -
  let ?st = "if hdr_shortopts h = None \<and> hdr_longopts h \<noteq> None
    then empty_syntax\<lparr>cat_buf := ''    '' @ replicate 196 NUL\<rparr> else empty_syntax"
  have nul: "nul_free '', ''" by simp
  have "cat_ok ''    '' (empty_syntax\<lparr>cat_buf := ''    '' @ replicate 196 NUL\<rparr>)"
    by (simp add: cat_ok_def empty_syntax_def cstr_def)
  then obtain full where ok: "cat_ok full ?st" using empty_syntax_ok by (cases "hdr_shortopts h = None \<and> hdr_longopts h \<noteq> None") auto
  have "appends (arg_cat_optionv (hdr_shortopts h) (hdr_longopts h) (hdr_datatype h) (has_flag h ARG_HASOPTVALUE) '', '')
      (hdr_textv h '', '')"
    unfolding hdr_textv_def by (rule appends_optionv) (use assms nul in \<open>simp_all add: hdr_ok_def\<close>)
  with ok obtain st where st: "arg_cat_optionv (hdr_shortopts h) (hdr_longopts h) (hdr_datatype h) (has_flag h ARG_HASOPTVALUE) '', '' ?st = Some st"
    "cat_ok (full @ hdr_textv h '', '') st" unfolding appends_def by blast
  then obtain s where s: "cstr (cat_buf st) = Some s" by (auto simp: cat_ok_def)
  then show thesis using that [of s] st(1) cstr_nul_free [OF s] by (simp add: gnu_syntax_def Let_def)
qed

lemma gnu_formats:
  "c_format ''  %-25s '' [F_str s] = Some (''  '' @ s @ replicate (25 - length s) (CHR '' '') @ '' '')"
  "c_format (''  %-25s %s'' @ newline) [F_str s, F_str []] = Some (''  '' @ s @ replicate (25 - length s) (CHR '' '') @ '' '' @ newline)"
  by (simp_all add: format_eval newline_def)

lemma nul_free_replicate [simp]: "c \<noteq> NUL \<Longrightarrow> nul_free (replicate n c)"
  by (induction n) simp_all

text \<open>The first column of an entry: on a line of its own when it is too wide.\<close>

definition gnu_column :: "string \<Rightarrow> string" where
  "gnu_column s = (if 25 < length s then ''  '' @ s @ '' '' @ newline @ replicate 28 (CHR '' '')
     else ''  '' @ s @ replicate (25 - length s) (CHR '' '') @ '' '')"

lemma writes_gnu_entry:
  assumes "hdr_ok h" and "nul_free g"
  shows "\<exists>s lines. dstr.writes (gnu_entry h g) (gnu_column s @ lines_text lines) \<and> gnu_syntax h = Some s \<and> good_lines 80 g lines"
proof -
  obtain s where s: "gnu_syntax h = Some s" "nul_free s" by (rule gnu_syntax_ok [OF assms(1)])
  obtain lines where w: "dstr.writes (arg_print_formatted_ds 28 79 g) (lines_text lines)" and g: "good_lines 80 g lines"
    using writes_formatted [of 28 79 g] assms(2) by auto
  have col: "dstr.writes (arg_dstr_catf ''  %-25s '' [F_str t]) (''  '' @ t @ replicate (25 - length t) (CHR '' '') @ '' '')"
    if "nul_free t" for t by (rule writes_catf [OF gnu_formats(1)]) (use that in simp)
  have "dstr.writes (gnu_entry h g) (gnu_column s @ lines_text lines)"
  proof (cases "25 < length s")
    case True
    have line: "dstr.writes (arg_dstr_catf (''  %-25s %s'' @ newline) [F_str s, F_str []]) (''  '' @ s @ '' '' @ newline)"
      by (rule writes_catf [OF gnu_formats(2)]) (use True s(2) in simp)
    have "nul_free []" by simp
    from dstr.writes_seq [OF line dstr.writes_seq [OF col [OF this] w]]
    show ?thesis by (rule dstr.writes_cong) (use True s(1) in \<open>auto simp: gnu_column_def gnu_entry_def numeral_eq_Suc\<close>)
  next
    case False
    from dstr.writes_seq [OF col [OF s(2)] w]
    show ?thesis by (rule dstr.writes_cong) (use False s(1) in \<open>auto simp: gnu_column_def gnu_entry_def\<close>)
  qed
  then show ?thesis using s(1) g by blast
qed

text \<open>The glossary of every printable table: a column and the wrapped description for each entry that has one.\<close>

lemma writes_gnu_entries:
  "table_printable hs \<Longrightarrow> \<exists>ts. dstr.writes (gnu_entries hs) (concat ts) \<and> list_all2 (\<lambda>h t. case hdr_glossary h of None \<Rightarrow> t = []
     | Some g \<Rightarrow> \<exists>s lines. t = gnu_column s @ lines_text lines \<and> gnu_syntax h = Some s \<and> good_lines 80 g lines) (body hs) ts"
proof (induction hs)
  case Nil
  then show ?case by (simp add: table_printable_def)
next
  case (Cons h hs)
  show ?case
  proof (cases "has_flag h ARG_TERMINATOR")
    case True
    then show ?thesis using dstr.writes_none by (intro exI [of _ "[]"]) (simp add: dstr.writes_def body_Cons)
  next
    case False
    then have hs: "table_printable hs" "hdr_ok h" using Cons.prems by (simp_all add: table_printable_Cons)
    obtain ts where ts: "dstr.writes (gnu_entries hs) (concat ts)" "list_all2 (\<lambda>h t. case hdr_glossary h of None \<Rightarrow> t = []
       | Some g \<Rightarrow> \<exists>s lines. t = gnu_column s @ lines_text lines \<and> gnu_syntax h = Some s \<and> good_lines 80 g lines) (body hs) ts"
      using Cons.IH [OF hs(1)] by blast
    show ?thesis
    proof (cases "hdr_glossary h")
      case None
      then have "gnu_entries (h # hs) = gnu_entries hs" using False by (intro ext) simp
      then show ?thesis using ts None False by (intro exI [of _ "[] # ts"]) (simp add: body_Cons)
    next
      case (Some g)
      then have "nul_free g" using hs(2) by (simp add: hdr_ok_def opt_nul_free_def)
      from writes_gnu_entry [OF hs(2) this] obtain s lines
        where e: "dstr.writes (gnu_entry h g) (gnu_column s @ lines_text lines)" "gnu_syntax h = Some s" "good_lines 80 g lines" by blast
      have "gnu_entries (h # hs) = (\<lambda>ds. Option.bind (gnu_entry h g ds) (gnu_entries hs))" using False Some by (intro ext) simp
      then have "dstr.writes (gnu_entries (h # hs)) (concat ((gnu_column s @ lines_text lines) # ts))"
        using dstr.writes_seq [OF e(1) ts(1)] by simp
      then show ?thesis using ts(2) e(2,3) False Some
        by (intro exI [of _ "(gnu_column s @ lines_text lines) # ts"] conjI) (auto simp: body_Cons simp del: gnu_entries.simps)
    qed
  qed
qed

lemma print_glossary_gnu_total:
  assumes "table_printable table"
  shows "\<exists>ts. arg_print_glossary_gnu table = Some (concat ts @ newline) \<and> length ts = length (body table)"
proof -
  obtain ts where ts: "dstr.writes (gnu_entries table) (concat ts)" "length ts = length (body table)"
    using writes_gnu_entries [OF assms] by (auto dest: list_all2_lengthD)
  have "dstr.writes (arg_print_glossary_gnu_ds table) (concat ts @ newline)"
    using dstr.writes_seq [OF ts(1) dstr.writes_put [OF newline_nul_free]] by (simp add: arg_print_glossary_gnu_ds_def [abs_def])
  then show ?thesis using ts(2) by (auto simp: arg_print_glossary_gnu_def printed_writes)
qed

end
