(* ===== verification/Arg_Date.thy ===== *)
theory Arg_Date
  imports Arg_Output "HOL-Library.Signed_Division"
begin

text \<open>
  The date type of \<open>lib/argtable/argtable3.c\<close> and its \<open>arg_strptime\<close>.  The position in the text is what is left
  of it, and the broken-down time is an in-out parameter that keeps what was stored before a failure.
  \<open>strftime\<close> of the C library, which only the error message uses, is a parameter.
\<close>

unbundle bit_operations_syntax

section \<open>State\<close>

record tm =
  tm_sec :: int
  tm_min :: int
  tm_hour :: int
  tm_mday :: int
  tm_mon :: int
  tm_year :: int
  tm_wday :: int
  tm_yday :: int

definition zero_tm :: tm where
  "zero_tm = \<lparr>tm_sec = 0, tm_min = 0, tm_hour = 0, tm_mday = 0, tm_mon = 0, tm_year = 0, tm_wday = 0, tm_yday = 0\<rparr>"

definition day :: "string list" where
  "day = [''Sunday'', ''Monday'', ''Tuesday'', ''Wednesday'', ''Thursday'', ''Friday'', ''Saturday'']"

definition abday :: "string list" where
  "abday = [''Sun'', ''Mon'', ''Tue'', ''Wed'', ''Thu'', ''Fri'', ''Sat'']"

definition mon :: "string list" where
  "mon = [''January'', ''February'', ''March'', ''April'', ''May'', ''June'', ''July'', ''August'', ''September'', ''October'', ''November'', ''December'']"

definition abmon :: "string list" where
  "abmon = [''Jan'', ''Feb'', ''Mar'', ''Apr'', ''May'', ''Jun'', ''Jul'', ''Aug'', ''Sep'', ''Oct'', ''Nov'', ''Dec'']"

definition am_pm :: "string list" where
  "am_pm = [''AM'', ''PM'']"

definition ALT_E :: "8 word" where "ALT_E = 0x01"
definition ALT_O :: "8 word" where "ALT_O = 0x02"
definition TM_YEAR_BASE :: int where "TM_YEAR_BASE = 1900"

definition legal_alt :: "8 word \<Rightarrow> 8 word \<Rightarrow> bool" where
  "legal_alt alt_format x \<longleftrightarrow> alt_format AND NOT x = 0"

section \<open>Comparing and converting\<close>

definition to_lower :: "char \<Rightarrow> char" where
  "to_lower c = (let n = of_char c :: nat in if 65 \<le> n \<and> n \<le> 90 then char_of (n + 32) else c)"

fun arg_strcasecmp :: "string \<Rightarrow> string \<Rightarrow> int" where
  "arg_strcasecmp [] [] = 0"
| "arg_strcasecmp [] (y # ys) = - of_char (to_lower y)"
| "arg_strcasecmp (x # xs) [] = of_char (to_lower x)"
| "arg_strcasecmp (x # xs) (y # ys) =
     (if to_lower x = to_lower y then arg_strcasecmp xs ys else of_char (to_lower x) - of_char (to_lower y))"

fun arg_strncasecmp :: "string \<Rightarrow> string \<Rightarrow> nat \<Rightarrow> int" where
  "arg_strncasecmp s1 s2 0 = 0"
| "arg_strncasecmp [] [] (Suc n) = 0"
| "arg_strncasecmp [] (y # ys) (Suc n) = - of_char (to_lower y)"
| "arg_strncasecmp (x # xs) [] (Suc n) = of_char (to_lower x)"
| "arg_strncasecmp (x # xs) (y # ys) (Suc n) =
     (if to_lower x \<noteq> to_lower y then of_char (to_lower x) - of_char (to_lower y) else arg_strncasecmp xs ys n)"

text \<open>The loop over the names from index \<open>i\<close> on: the index that matches and the length of the name.\<close>

fun match_name :: "string list \<Rightarrow> string list \<Rightarrow> nat \<Rightarrow> string \<Rightarrow> (nat \<times> nat) option" where
  "match_name (f # fs) (a # as) i bp =
     (if arg_strncasecmp f bp (length f) = 0 then Some (i, length f)
      else if arg_strncasecmp a bp (length a) = 0 then Some (i, length a)
      else match_name fs as (i + 1) bp)"
| "match_name _ _ i bp = None"

definition is_digit :: "char \<Rightarrow> bool" where
  "is_digit c = (let n = of_char c :: nat in 48 \<le> n \<and> n \<le> 57)"

fun conv_loop :: "int \<Rightarrow> int \<Rightarrow> int \<Rightarrow> string \<Rightarrow> int \<times> string" where
  "conv_loop acc rulim ulim [] = (acc, [])"
| "conv_loop acc rulim ulim (c # cs) =
     (let acc = acc * 10 + (of_char c - 48); rulim = rulim div 10 in
      if acc * 10 \<le> ulim \<and> rulim \<noteq> 0 \<and> cs \<noteq> [] \<and> is_digit (hd cs) then conv_loop acc rulim ulim cs else (acc, cs))"

definition conv_num :: "string \<Rightarrow> int \<Rightarrow> int \<Rightarrow> (int \<times> string) option" where
  "conv_num buf llim ulim =
     (if buf = [] \<or> \<not> is_digit (hd buf) then None
      else case conv_loop 0 ulim ulim buf of (acc, buf) \<Rightarrow>
        if acc < llim \<or> ulim < acc then None else Some (acc, buf))"

section \<open>Conversions\<close>

definition require :: "bool \<Rightarrow> unit option" where
  "require b = (if b then Some () else None)"

text \<open>The modifiers \<open>E\<close> and \<open>O\<close>, then the conversion character, which is the terminator at the end of the format.\<close>

fun modifiers :: "8 word \<Rightarrow> string \<Rightarrow> (8 word \<times> char \<times> string) option" where
  "modifiers alt [] = Some (alt, NUL, [])"
| "modifiers alt (c # fmt) =
     (if c = CHR ''E'' then (if legal_alt alt 0 then modifiers (alt OR ALT_E) fmt else None)
      else if c = CHR ''O'' then (if legal_alt alt 0 then modifiers (alt OR ALT_O) fmt else None)
      else Some (alt, c, fmt))"

definition is_complex :: "char \<Rightarrow> bool" where
  "is_complex c \<longleftrightarrow> c \<in> set ''cDRrTXx''"

definition complex_legal :: "8 word \<Rightarrow> char \<Rightarrow> bool" where
  "complex_legal alt c = legal_alt alt (if c = CHR ''c'' \<or> c = CHR ''X'' \<or> c = CHR ''x'' then ALT_E else 0)"

definition complex_format :: "char \<Rightarrow> string" where
  "complex_format c =
     (if c = CHR ''c'' then ''%x %X''
      else if c = CHR ''D'' \<or> c = CHR ''x'' then ''%m/%d/%y''
      else if c = CHR ''R'' then ''%H:%M''
      else if c = CHR ''r'' then ''%I:%M:%S %p''
      else ''%H:%M:%S'')"

text \<open>The elementary conversions; \<open>split_year\<close> is set by the first of \<open>C\<close> and \<open>y\<close>.  Division and remainder
  are those of C.\<close>

definition convert_name :: "8 word \<Rightarrow> char \<Rightarrow> string \<Rightarrow> tm \<Rightarrow> (string \<times> tm) option" where
  "convert_name alt c bp tm =
     (if c = CHR ''A'' \<or> c = CHR ''a'' then do {
        _ \<leftarrow> require (legal_alt alt 0);
        (i, len) \<leftarrow> match_name day abday 0 bp;
        Some (drop len bp, tm\<lparr>tm_wday := int i\<rparr>)}
      else do {
        _ \<leftarrow> require (legal_alt alt 0);
        (i, len) \<leftarrow> match_name mon abmon 0 bp;
        Some (drop len bp, tm\<lparr>tm_mon := int i\<rparr>)})"

definition convert_century :: "8 word \<Rightarrow> bool \<Rightarrow> string \<Rightarrow> tm \<Rightarrow> (string \<times> bool \<times> tm) option" where
  "convert_century alt split_year bp tm = do {
     _ \<leftarrow> require (legal_alt alt ALT_E);
     (i, bp) \<leftarrow> conv_num bp 0 99;
     Some (if split_year then (bp, split_year, tm\<lparr>tm_year := (tm_year tm smod 100) + i * 100\<rparr>)
       else (bp, True, tm\<lparr>tm_year := i * 100\<rparr>))}"

definition convert_year :: "8 word \<Rightarrow> char \<Rightarrow> bool \<Rightarrow> string \<Rightarrow> tm \<Rightarrow> (string \<times> bool \<times> tm) option" where
  "convert_year alt c split_year bp tm =
     (if c = CHR ''Y'' then do {
        _ \<leftarrow> require (legal_alt alt ALT_E);
        (i, bp) \<leftarrow> conv_num bp 0 9999;
        Some (bp, split_year, tm\<lparr>tm_year := i - TM_YEAR_BASE\<rparr>)}
      else do {
        _ \<leftarrow> require (legal_alt alt (ALT_E OR ALT_O));
        (i, bp) \<leftarrow> conv_num bp 0 99;
        Some (if split_year then (bp, split_year, tm\<lparr>tm_year := (tm_year tm sdiv 100) * 100 + i\<rparr>)
          else (bp, True, tm\<lparr>tm_year := if i \<le> 68 then i + 2000 - TM_YEAR_BASE else i + 1900 - TM_YEAR_BASE\<rparr>))})"

definition convert_number :: "8 word \<Rightarrow> char \<Rightarrow> string \<Rightarrow> tm \<Rightarrow> (string \<times> tm) option" where
  "convert_number alt c bp tm =
     (if c = CHR ''d'' \<or> c = CHR ''e'' then do {
        _ \<leftarrow> require (legal_alt alt ALT_O);
        (i, bp) \<leftarrow> conv_num bp 1 31;
        Some (bp, tm\<lparr>tm_mday := i\<rparr>)}
      else if c = CHR ''k'' \<or> c = CHR ''H'' then do {
        _ \<leftarrow> require (c = CHR ''k'' \<longrightarrow> legal_alt alt 0);
        _ \<leftarrow> require (legal_alt alt ALT_O);
        (i, bp) \<leftarrow> conv_num bp 0 23;
        Some (bp, tm\<lparr>tm_hour := i\<rparr>)}
      else if c = CHR ''l'' \<or> c = CHR ''I'' then do {
        _ \<leftarrow> require (c = CHR ''l'' \<longrightarrow> legal_alt alt 0);
        _ \<leftarrow> require (legal_alt alt ALT_O);
        (i, bp) \<leftarrow> conv_num bp 1 12;
        Some (bp, tm\<lparr>tm_hour := if i = 12 then 0 else i\<rparr>)}
      else if c = CHR ''j'' then do {
        _ \<leftarrow> require (legal_alt alt 0);
        (i, bp) \<leftarrow> conv_num bp 1 366;
        Some (bp, tm\<lparr>tm_yday := i - 1\<rparr>)}
      else if c = CHR ''M'' then do {
        _ \<leftarrow> require (legal_alt alt ALT_O);
        (i, bp) \<leftarrow> conv_num bp 0 59;
        Some (bp, tm\<lparr>tm_min := i\<rparr>)}
      else if c = CHR ''m'' then do {
        _ \<leftarrow> require (legal_alt alt ALT_O);
        (i, bp) \<leftarrow> conv_num bp 1 12;
        Some (bp, tm\<lparr>tm_mon := i - 1\<rparr>)}
      else if c = CHR ''S'' then do {
        _ \<leftarrow> require (legal_alt alt ALT_O);
        (i, bp) \<leftarrow> conv_num bp 0 61;
        Some (bp, tm\<lparr>tm_sec := i\<rparr>)}
      else if c = CHR ''U'' \<or> c = CHR ''W'' then do {
        _ \<leftarrow> require (legal_alt alt ALT_O);
        (i, bp) \<leftarrow> conv_num bp 0 53;
        Some (bp, tm)}
      else do {
        _ \<leftarrow> require (legal_alt alt ALT_O);
        (i, bp) \<leftarrow> conv_num bp 0 6;
        Some (bp, tm\<lparr>tm_wday := i\<rparr>)})"

text \<open>\<open>p\<close>, which compares the whole rest of the text.\<close>

definition convert_am_pm :: "8 word \<Rightarrow> string \<Rightarrow> tm \<Rightarrow> (string \<times> tm) option" where
  "convert_am_pm alt bp tm = do {
     _ \<leftarrow> require (legal_alt alt 0);
     if arg_strcasecmp (am_pm ! 0) bp = 0 then do {
       _ \<leftarrow> require (tm_hour tm \<le> 11);
       Some (drop (length (am_pm ! 0)) bp, tm)}
     else if arg_strcasecmp (am_pm ! 1) bp = 0 then do {
       _ \<leftarrow> require (tm_hour tm \<le> 11);
       Some (drop (length (am_pm ! 1)) bp, tm\<lparr>tm_hour := tm_hour tm + 12\<rparr>)}
     else None}"

definition elementary :: "8 word \<Rightarrow> char \<Rightarrow> bool \<Rightarrow> string \<Rightarrow> tm \<Rightarrow> (string \<times> bool \<times> tm) option" where
  "elementary alt c split_year bp tm =
     (if c \<in> set ''AaBbh'' then map_option (\<lambda>(bp, tm). (bp, split_year, tm)) (convert_name alt c bp tm)
      else if c = CHR ''C'' then convert_century alt split_year bp tm
      else if c = CHR ''Y'' \<or> c = CHR ''y'' then convert_year alt c split_year bp tm
      else if c \<in> set ''dekHlIjMmSUWw'' then map_option (\<lambda>(bp, tm). (bp, split_year, tm)) (convert_number alt c bp tm)
      else if c = CHR ''p'' then map_option (\<lambda>(bp, tm). (bp, split_year, tm)) (convert_am_pm alt bp tm)
      else if c = CHR ''n'' \<or> c = CHR ''t'' then do {
        _ \<leftarrow> require (legal_alt alt 0);
        Some (dropWhile is_space bp, split_year, tm)}
      else None)"

section \<open>Parsing\<close>

text \<open>A measure of formats, for the conversions that are formats themselves.\<close>

definition format_weight :: "string \<Rightarrow> nat" where
  "format_weight fmt = sum_list (map (\<lambda>c. if c = CHR ''c'' then 40 else if is_complex c then 15 else 1) fmt)"

lemma format_weight_simps [simp]: "format_weight [] = 0"
  "format_weight (c # fmt) = (if c = CHR ''c'' then 40 else if is_complex c then 15 else 1) + format_weight fmt"
  by (simp_all add: format_weight_def)

lemma modifiers_weight: "modifiers alt fmt = Some (alt', c, fmt') \<Longrightarrow> format_weight fmt' \<le> format_weight fmt \<and>
  (c \<noteq> NUL \<longrightarrow> format_weight [c] + format_weight fmt' \<le> format_weight fmt)"
  by (induction alt fmt rule: modifiers.induct) (auto split: if_splits)

lemma modifiers_shrink:
  assumes "modifiers 0 fmt = Some (alt, c, fmt')"
  shows "format_weight fmt' < format_weight (CHR ''%'' # fmt)" and "is_complex c \<Longrightarrow> format_weight (complex_format c) < format_weight (CHR ''%'' # fmt)"
proof -
  show "format_weight fmt' < format_weight (CHR ''%'' # fmt)" using modifiers_weight [OF assms] by simp
  assume c: "is_complex c"
  then have "c \<noteq> NUL" by (auto simp: is_complex_def)
  moreover have "format_weight (complex_format c) < format_weight [c]" using c by (auto simp: is_complex_def complex_format_def)
  ultimately show "format_weight (complex_format c) < format_weight (CHR ''%'' # fmt)" using modifiers_weight [OF assms] by simp
qed

function (sequential) strptime_loop :: "string \<Rightarrow> string \<Rightarrow> bool \<Rightarrow> tm \<Rightarrow> string option \<times> tm" where
  "strptime_loop [] bp split_year tm = (Some bp, tm)"
| "strptime_loop (c # fmt) bp split_year tm =
     (if is_space c then strptime_loop fmt (dropWhile is_space bp) split_year tm
      else if c \<noteq> CHR ''%'' then
        (if bp \<noteq> [] \<and> hd bp = c then strptime_loop fmt (tl bp) split_year tm else (None, tm))
      else case modifiers 0 fmt of
        None \<Rightarrow> (None, tm)
      | Some (alt, c, fmt') \<Rightarrow>
          if c = CHR ''%'' then
            (if bp \<noteq> [] \<and> hd bp = c then strptime_loop fmt' (tl bp) split_year tm else (None, tm))
          else if is_complex c then
            (if complex_legal alt c then
               (case strptime_loop (complex_format c) bp False tm of
                  (None, tm) \<Rightarrow> (None, tm)
                | (Some bp, tm) \<Rightarrow> strptime_loop fmt' bp split_year tm)
             else (None, tm))
          else case elementary alt c split_year bp tm of
              None \<Rightarrow> (None, tm)
            | Some (bp, split_year, tm) \<Rightarrow> strptime_loop fmt' bp split_year tm)"
  by pat_completeness auto
termination
proof (relation "measure (\<lambda>(fmt, bp, split_year, tm). format_weight fmt)", goal_cases)
  case 1
  show ?case by simp
next
  case 2
  then show ?case by simp
next
  case 3
  then show ?case by simp
next
  case (4 c fmt bp split_year tm x alt y c' fmt')
  then show ?case using modifiers_shrink(1) [of fmt alt c' fmt'] by simp
next
  case (5 c fmt bp split_year tm x alt y c' fmt')
  then show ?case using modifiers_shrink(2) [of fmt alt c' fmt'] by simp
next
  case (6 c fmt bp split_year tm x alt y c' fmt')
  then show ?case using modifiers_shrink(1) [of fmt alt c' fmt'] by simp
next
  case (7 c fmt bp split_year tm x alt y c' fmt')
  then show ?case using modifiers_shrink(1) [of fmt alt c' fmt'] by simp
qed

definition arg_strptime :: "string \<Rightarrow> string \<Rightarrow> tm \<Rightarrow> string option \<times> tm" where
  "arg_strptime buf fmt tm = strptime_loop fmt buf False tm"

section \<open>Date arguments\<close>

definition ARG_ERR_BADDATE :: int where "ARG_ERR_BADDATE = 6"

record arg_date =
  date_hdr :: arg_hdr
  date_format :: string
  date_count :: nat
  date_tmval :: "tm list"

definition arg_date_resetfn :: "arg_date \<Rightarrow> arg_date" where
  "arg_date_resetfn a = a\<lparr>date_count := 0\<rparr>"

definition arg_date_scanfn :: "arg_date \<Rightarrow> string option \<Rightarrow> (int \<times> arg_date) option" where
  "arg_date_scanfn a argval =
     (if date_count a = hdr_maxcount (date_hdr a) then Some (ARG_ERR_MAXCOUNT, a)
      else case argval of
        None \<Rightarrow> Some (0, a\<lparr>date_count := date_count a + 1\<rparr>)
      | Some argval \<Rightarrow> do {
          tms \<leftarrow> rd (date_tmval a) (date_count a) 1;
          (case arg_strptime argval (date_format a) (hd tms) of (pend, tm) \<Rightarrow>
             if pend = Some [] then do {
               tmval \<leftarrow> wr (date_tmval a) (date_count a) [tm];
               Some (0, a\<lparr>date_tmval := tmval, date_count := date_count a + 1\<rparr>)}
             else Some (ARG_ERR_BADDATE, a))})"

definition arg_date_checkfn :: "arg_date \<Rightarrow> int" where
  "arg_date_checkfn a = checkfn (date_hdr a) (date_count a)"

text \<open>The time of the example in the error message.\<close>

definition example_tm :: tm where
  "example_tm = snd (arg_strptime ''1999-12-31 23:59:59'' ''%F %H:%M:%S'' zero_tm)"

definition arg_date_errorfn :: "(nat \<Rightarrow> string \<Rightarrow> tm \<Rightarrow> string) \<Rightarrow> arg_hdr \<Rightarrow> string \<Rightarrow> int \<Rightarrow> string option \<Rightarrow> string \<Rightarrow> dstr \<Rightarrow> dstr option" where
  "arg_date_errorfn strftime h format errorcode argval progname ds = (let argval = null_safe argval in do {
     ds \<leftarrow> arg_dstr_catf ''%s: '' [F_str progname] ds;
     if errorcode = ARG_ERR_MINCOUNT then do {
       ds \<leftarrow> arg_dstr_cat ''missing option '' ds;
       arg_print_option_ds (hdr_shortopts h) (hdr_longopts h) (hdr_datatype h) newline ds}
     else if errorcode = ARG_ERR_MAXCOUNT then do {
       ds \<leftarrow> arg_dstr_cat ''excess option '' ds;
       arg_print_option_ds (hdr_shortopts h) (hdr_longopts h) (Some argval) newline ds}
     else if errorcode = ARG_ERR_BADDATE then do {
       ds \<leftarrow> arg_dstr_catf (''illegal timestamp format '' @ [CHR 0x22] @ ''%s'' @ [CHR 0x22] @ newline) [F_str argval] ds;
       arg_dstr_catf (''correct format is '' @ [CHR 0x22] @ ''%s'' @ [CHR 0x22] @ newline) [F_str (strftime 200 format example_tm)] ds}
     else Some ds})"

definition arg_daten :: "string option \<Rightarrow> string option \<Rightarrow> string option \<Rightarrow> string option \<Rightarrow> nat \<Rightarrow> nat \<Rightarrow> string option \<Rightarrow> arg_date" where
  "arg_daten shortopts longopts format datatype mincount maxcount glossary =
     (let maxcount = foolproof mincount maxcount; format = (case format of Some f \<Rightarrow> f | None \<Rightarrow> ''%x'') in
      \<lparr>date_hdr = \<lparr>hdr_flag = ARG_HASVALUE, hdr_shortopts = shortopts, hdr_longopts = longopts,
         hdr_datatype = Some (case datatype of Some d \<Rightarrow> d | None \<Rightarrow> format),
         hdr_glossary = glossary, hdr_mincount = mincount, hdr_maxcount = maxcount\<rparr>,
       date_format = format, date_count = 0, date_tmval = replicate maxcount zero_tm\<rparr>)"

definition arg_date0 :: "string option \<Rightarrow> string option \<Rightarrow> string option \<Rightarrow> string option \<Rightarrow> string option \<Rightarrow> arg_date" where
  "arg_date0 shortopts longopts format datatype glossary = arg_daten shortopts longopts format datatype 0 1 glossary"

definition arg_date1 :: "string option \<Rightarrow> string option \<Rightarrow> string option \<Rightarrow> string option \<Rightarrow> string option \<Rightarrow> arg_date" where
  "arg_date1 shortopts longopts format datatype glossary = arg_daten shortopts longopts format datatype 1 1 glossary"

definition wf_date :: "arg_date \<Rightarrow> bool" where
  "wf_date a \<longleftrightarrow> date_count a \<le> hdr_maxcount (date_hdr a) \<and> length (date_tmval a) = hdr_maxcount (date_hdr a)"

lemma rd_one: "i < length xs \<Longrightarrow> rd xs i 1 = Some [xs ! i]"
  by (simp add: rd_def slice_def take_Suc hd_drop_conv_nth)

lemma date_scan_cases:
  assumes "arg_date_scanfn a (Some v) = Some (e, a')" and "wf_date a"
  obtains (failed) "e \<noteq> 0" "a' = a"
    | (stored) x where "e = 0" "date_count a < hdr_maxcount (date_hdr a)"
        "a' = a\<lparr>date_tmval := (date_tmval a)[date_count a := x], date_count := date_count a + 1\<rparr>"
proof (cases "date_count a = hdr_maxcount (date_hdr a)")
  case True
  then show thesis using assms that(1) by (simp add: arg_date_scanfn_def arg_codes)
next
  case False
  then have i: "date_count a < length (date_tmval a)" using assms(2) by (simp add: wf_date_def)
  obtain pend tm where p: "arg_strptime v (date_format a) (date_tmval a ! date_count a) = (pend, tm)" by fastforce
  have run: "arg_date_scanfn a (Some v) = (if pend = Some []
      then Some (0, a\<lparr>date_tmval := (date_tmval a)[date_count a := tm], date_count := date_count a + 1\<rparr>) else Some (ARG_ERR_BADDATE, a))"
    using False i p by (simp add: arg_date_scanfn_def rd_one [OF i, simplified] wr_one)
  show thesis
  proof (cases "pend = Some []")
    case True
    have "date_count a < hdr_maxcount (date_hdr a)" using False assms(2) by (simp add: wf_date_def)
    then show thesis using stored [of tm] run assms(1) True by simp
  next
    case False
    then show thesis using failed run assms(1) by (simp add: ARG_ERR_BADDATE_def)
  qed
qed

interpretation date: arg_type date_hdr date_count wf_date arg_date_resetfn arg_date_scanfn arg_date_checkfn
proof (unfold_locales, goal_cases)
  case (3 a v e a')
  from 3(2,1) show ?case by (cases rule: date_scan_cases) (use 3(1) in \<open>auto simp: wf_date_def\<close>)
qed (auto simp: wf_date_def arg_date_resetfn_def arg_date_scanfn_def arg_date_checkfn_def checkfn_def)

section \<open>Written dates are read back\<close>

definition two :: "nat \<Rightarrow> string" where
  "two v = [digit_char (v div 10), digit_char (v mod 10)]"

definition four :: "nat \<Rightarrow> string" where
  "four v = two (v div 100) @ two (v mod 100)"

lemma digit_int: "d < 10 \<Longrightarrow> (of_char (digit_char d) :: int) = 48 + int d"
proof -
  assume "d < 10"
  then have "(of_char (digit_char d) :: nat) = 48 + d" by (rule of_char_digit_char)
  then have "of_nat (of_char (digit_char d) :: nat) = int (48 + d)" by simp
  then show ?thesis by (simp only: of_nat_of_char of_nat_add of_nat_numeral)
qed

lemma is_digit_char: "d < 10 \<Longrightarrow> is_digit (digit_char d)"
  by (simp add: is_digit_def of_char_digit_char)

lemma conv_two:
  assumes "lo \<le> int v" and "int v \<le> hi" and "10 \<le> hi" and "hi \<le> 99"
  shows "conv_num (two v @ rest) lo hi = Some (int v, rest)"
proof -
  let ?a = "v div 10" and ?b = "v mod 10"
  have "v = ?a * 10 + ?b" by simp
  then have "int v = int ?a * 10 + int ?b" by (metis of_nat_add of_nat_mult of_nat_numeral)
  then have d: "?a < 10" "?b < 10" "int v = int ?a * 10 + int ?b" using assms by auto
  have "hi div 10 \<noteq> 0" "hi div 10 div 10 = 0" using assms by auto
  moreover have "int ?a * 10 \<le> hi" using d(3) assms(2) by linarith
  ultimately have "conv_loop 0 hi hi (two v @ rest) = (int v, rest)"
    using d by (simp add: two_def digit_int is_digit_char Let_def)
  then show ?thesis using assms d by (simp add: conv_num_def) (simp add: two_def is_digit_char)
qed

lemma conv_four:
  assumes "v \<le> 9999"
  shows "conv_num (four v @ rest) 0 9999 = Some (int v, rest)"
proof -
  define a b c d where "a = v div 100 div 10" and "b = v div 100 mod 10" and "c = v mod 100 div 10" and "d = v mod 100 mod 10"
  have lt: "a < 10" "b < 10" "c < 10" "d < 10" using assms by (auto simp: a_def b_def c_def d_def)
  have v: "v = ((a * 10 + b) * 10 + c) * 10 + d" by (simp add: a_def b_def c_def d_def)
  have "conv_loop 0 9999 9999 ([digit_char a, digit_char b, digit_char c, digit_char d] @ rest) = (int v, rest)"
    using lt by (simp add: digit_int is_digit_char Let_def v)
  moreover have "four v = [digit_char a, digit_char b, digit_char c, digit_char d]"
    by (simp add: four_def two_def a_def b_def c_def d_def)
  ultimately show ?thesis using assms lt by (simp add: conv_num_def is_digit_char)
qed

text \<open>A time in the usual notation.\<close>

definition show_time :: "tm \<Rightarrow> string" where
  "show_time t = four (nat (tm_year t + 1900)) @ ''-'' @ two (nat (tm_mon t + 1)) @ ''-'' @ two (nat (tm_mday t)) @ '' '' @
     two (nat (tm_hour t)) @ '':'' @ two (nat (tm_min t)) @ '':'' @ two (nat (tm_sec t))"

text \<open>C15: A time that is written as year, month, day, hours, minutes and seconds is read back by arg_strptime: all of the text
is used, the six fields get the values that were written and the others stay.\<close>

theorem time_roundtrip:
  assumes "- 1900 \<le> tm_year t" "tm_year t \<le> 8099" "0 \<le> tm_mon t" "tm_mon t \<le> 11" "1 \<le> tm_mday t" "tm_mday t \<le> 31"
    "0 \<le> tm_hour t" "tm_hour t \<le> 23" "0 \<le> tm_min t" "tm_min t \<le> 59" "0 \<le> tm_sec t" "tm_sec t \<le> 61"
  shows "arg_strptime (show_time t) ''%Y-%m-%d %H:%M:%S'' tm =
    (Some [], t\<lparr>tm_wday := tm_wday tm, tm_yday := tm_yday tm\<rparr>)"
proof -
  have y: "conv_num (four (nat (tm_year t + 1900)) @ r) 0 9999 = Some (tm_year t + 1900, r)" for r
    using conv_four [of "nat (tm_year t + 1900)" r] assms by simp
  have m: "conv_num (two (nat (tm_mon t + 1)) @ r) 1 12 = Some (tm_mon t + 1, r)"
    and d: "conv_num (two (nat (tm_mday t)) @ r) 1 31 = Some (tm_mday t, r)"
    and h: "conv_num (two (nat (tm_hour t)) @ r) 0 23 = Some (tm_hour t, r)"
    and i: "conv_num (two (nat (tm_min t)) @ r) 0 59 = Some (tm_min t, r)" for r
    using conv_two [of 1 "nat (tm_mon t + 1)" 12 r] conv_two [of 1 "nat (tm_mday t)" 31 r]
      conv_two [of 0 "nat (tm_hour t)" 23 r] conv_two [of 0 "nat (tm_min t)" 59 r] assms by simp_all
  have s: "conv_num (two (nat (tm_sec t))) 0 61 = Some (tm_sec t, [])"
    using conv_two [of 0 "nat (tm_sec t)" 61 "[]"] assms by simp
  have sp: "\<not> is_space (digit_char k)" if "k < 10" for k using that by (rule digit_char_not_space)
  have "dropWhile is_space (two (nat (tm_hour t)) @ r) = two (nat (tm_hour t)) @ r" for r
    using sp [of "nat (tm_hour t) div 10"] assms by (simp add: two_def)
  note eval = y m d h i s this
  show ?thesis
    by (simp add: arg_strptime_def show_time_def eval is_space_def is_complex_def elementary_def convert_year_def convert_number_def
        require_def legal_alt_def TM_YEAR_BASE_def)
qed

theorem time_roundtrip_witness:
  "show_time \<lparr>tm_sec = 9, tm_min = 5, tm_hour = 23, tm_mday = 1, tm_mon = 1, tm_year = 124, tm_wday = 4, tm_yday = 0\<rparr> = ''2024-02-01 23:05:09'' \<and>
   arg_strptime ''2024-02-01 23:05:09'' ''%Y-%m-%d %H:%M:%S'' zero_tm =
     (Some [], \<lparr>tm_sec = 9, tm_min = 5, tm_hour = 23, tm_mday = 1, tm_mon = 1, tm_year = 124, tm_wday = 0, tm_yday = 0\<rparr>)"
proof -
  let ?t = "\<lparr>tm_sec = 9, tm_min = 5, tm_hour = 23, tm_mday = 1, tm_mon = 1, tm_year = 124, tm_wday = 4, tm_yday = 0\<rparr>"
  have t: "show_time ?t = ''2024-02-01 23:05:09''" by code_simp
  show ?thesis using time_roundtrip [of ?t zero_tm] unfolding t by (simp add: zero_tm_def)
qed

section \<open>The fields stay in their ranges\<close>

definition tm_ok :: "tm \<Rightarrow> bool" where
  "tm_ok t \<longleftrightarrow> 0 \<le> tm_sec t \<and> tm_sec t \<le> 61 \<and> 0 \<le> tm_min t \<and> tm_min t \<le> 59 \<and> 0 \<le> tm_hour t \<and> tm_hour t \<le> 23 \<and>
     0 \<le> tm_mday t \<and> tm_mday t \<le> 31 \<and> 0 \<le> tm_mon t \<and> tm_mon t \<le> 11 \<and> 0 \<le> tm_wday t \<and> tm_wday t \<le> 6 \<and>
     0 \<le> tm_yday t \<and> tm_yday t \<le> 365"

lemma conv_num_range: "conv_num buf lo hi = Some (i, r) \<Longrightarrow> lo \<le> i \<and> i \<le> hi"
  by (auto simp: conv_num_def split: if_splits prod.splits)

lemma match_name_index: "match_name fs as i bp = Some (j, len) \<Longrightarrow> j < i + length fs"
  by (induction fs as i bp rule: match_name.induct) (auto split: if_splits)

lemma tm_ok_updates:
  "tm_ok t \<Longrightarrow> 0 \<le> i \<Longrightarrow> i \<le> 61 \<Longrightarrow> tm_ok (t\<lparr>tm_sec := i\<rparr>)"
  "tm_ok t \<Longrightarrow> 0 \<le> i \<Longrightarrow> i \<le> 59 \<Longrightarrow> tm_ok (t\<lparr>tm_min := i\<rparr>)"
  "tm_ok t \<Longrightarrow> 0 \<le> i \<Longrightarrow> i \<le> 23 \<Longrightarrow> tm_ok (t\<lparr>tm_hour := i\<rparr>)"
  "tm_ok t \<Longrightarrow> 0 \<le> i \<Longrightarrow> i \<le> 31 \<Longrightarrow> tm_ok (t\<lparr>tm_mday := i\<rparr>)"
  "tm_ok t \<Longrightarrow> 0 \<le> i \<Longrightarrow> i \<le> 11 \<Longrightarrow> tm_ok (t\<lparr>tm_mon := i\<rparr>)"
  "tm_ok t \<Longrightarrow> 0 \<le> i \<Longrightarrow> i \<le> 6 \<Longrightarrow> tm_ok (t\<lparr>tm_wday := i\<rparr>)"
  "tm_ok t \<Longrightarrow> 0 \<le> i \<Longrightarrow> i \<le> 365 \<Longrightarrow> tm_ok (t\<lparr>tm_yday := i\<rparr>)"
  "tm_ok t \<Longrightarrow> tm_ok (t\<lparr>tm_year := i\<rparr>)"
  by (simp_all add: tm_ok_def)

text \<open>The time of a conversion that succeeds is in range.\<close>

definition keeps :: "('a \<Rightarrow> tm) \<Rightarrow> 'a option \<Rightarrow> bool" where
  "keeps time r \<longleftrightarrow> (\<forall>x. r = Some x \<longrightarrow> tm_ok (time x))"

lemma keeps_rules:
  "keeps time None"
  "tm_ok (time x) \<Longrightarrow> keeps time (Some x)"
  "keeps time a \<Longrightarrow> keeps time b \<Longrightarrow> keeps time (if c then a else b)"
  "keeps time f \<Longrightarrow> keeps time (Option.bind (require c) (\<lambda>_. f))"
  by (auto simp: keeps_def require_def)

lemma keeps_num: "(\<And>i bp. lo \<le> i \<Longrightarrow> i \<le> hi \<Longrightarrow> tm_ok (time (f i bp))) \<Longrightarrow>
   keeps time (Option.bind (conv_num buf lo hi) (\<lambda>(i, bp). Some (f i bp)))"
  by (auto simp: keeps_def bind_eq_Some_conv dest: conv_num_range)

lemma keeps_name: "(\<And>i len. i < length fs \<Longrightarrow> tm_ok (time (f i len))) \<Longrightarrow>
   keeps time (Option.bind (match_name fs as 0 bp) (\<lambda>(i, len). Some (f i len)))"
  by (auto simp: keeps_def bind_eq_Some_conv dest!: match_name_index)

lemma keeps_map: "keeps (\<lambda>(bp, t). t) r \<Longrightarrow> keeps (\<lambda>(bp, sp, t). t) (map_option (\<lambda>(bp, t). (bp, sp, t)) r)"
  by (auto simp: keeps_def)

lemma elementary_keeps:
  assumes "tm_ok t"
  shows "keeps (\<lambda>(bp, t). t) (convert_name alt c bp t)" "keeps (\<lambda>(bp, sp, t). t) (convert_century alt sp bp t)"
    "keeps (\<lambda>(bp, sp, t). t) (convert_year alt c sp bp t)" "keeps (\<lambda>(bp, t). t) (convert_number alt c bp t)" "keeps (\<lambda>(bp, t). t) (convert_am_pm alt bp t)"
proof -
  show "keeps (\<lambda>(bp, t). t) (convert_name alt c bp t)"
    unfolding convert_name_def
    by (intro keeps_rules keeps_name) (use assms in \<open>simp_all add: tm_ok_updates day_def mon_def\<close>)
  show "keeps (\<lambda>(bp, sp, t). t) (convert_century alt sp bp t)"
    unfolding convert_century_def
    by (intro keeps_rules keeps_num) (use assms in \<open>simp_all add: tm_ok_updates\<close>)
  show "keeps (\<lambda>(bp, sp, t). t) (convert_year alt c sp bp t)"
    unfolding convert_year_def
    by (intro keeps_rules keeps_num) (use assms in \<open>simp_all add: tm_ok_updates\<close>)
  show "keeps (\<lambda>(bp, t). t) (convert_number alt c bp t)"
    unfolding convert_number_def
    by (intro keeps_rules keeps_num) (use assms in \<open>simp_all add: tm_ok_updates\<close>)
  show "keeps (\<lambda>(bp, t). t) (convert_am_pm alt bp t)"
    using assms by (auto simp: keeps_def convert_am_pm_def bind_eq_Some_conv require_def tm_ok_def split: if_splits)
qed

lemma elementary_ok: "tm_ok t \<Longrightarrow> elementary alt c sp bp t = Some (bp', sp', t') \<Longrightarrow> tm_ok t'"
proof -
  assume t: "tm_ok t"
  have "keeps (\<lambda>(bp, sp, t). t) (elementary alt c sp bp t)"
    unfolding elementary_def
    by (intro keeps_rules keeps_map elementary_keeps [OF t]) (simp add: t)
  then show "elementary alt c sp bp t = Some (bp', sp', t') \<Longrightarrow> tm_ok t'" by (simp add: keeps_def)
qed

lemma strptime_loop_ok: "tm_ok t \<Longrightarrow> tm_ok (snd (strptime_loop fmt bp sp t))"
proof (induction fmt bp sp t rule: strptime_loop.induct)
  case (2 c fmt bp sp t)
  show ?case
  proof (cases "is_space c \<or> c \<noteq> CHR ''%''")
    case True
    then show ?thesis using 2 by (auto simp: strptime_loop.simps)
  next
    case False
    then have pc: "c = CHR ''%''" "\<not> is_space (CHR ''%'')" by (auto simp: is_space_def)
    show ?thesis
    proof (cases "modifiers 0 fmt")
      case None
      then show ?thesis using pc 2(7) by (simp add: strptime_loop.simps)
    next
      case (Some m)
      obtain alt d fmt' where m: "modifiers 0 fmt = Some (alt, d, fmt')" using Some by (cases m) auto
      note IH = 2(3-6) [of "(alt, d, fmt')" alt "(d, fmt')" d fmt', OF _ _ m refl refl]
      show ?thesis
      proof (cases "d = CHR ''%''")
        case True
        then show ?thesis using pc m IH(1) 2(7) by (auto simp: strptime_loop.simps)
      next
        case np: False
        show ?thesis
        proof (cases "is_complex d")
          case True
          show ?thesis
          proof (cases "complex_legal alt d")
            case legal: True
            obtain r t' where r: "strptime_loop (complex_format d) bp False t = (r, t')" by fastforce
            have "tm_ok t'" using IH(2) [OF _ _ np True legal] pc 2(7) r by auto
            then show ?thesis
              using IH(3) [OF _ _ np True legal r [symmetric]] pc r m np True legal by (cases r) (auto simp: strptime_loop.simps)
          qed (use True pc m np 2(7) in \<open>simp add: strptime_loop.simps\<close>)
        next
          case False
          show ?thesis
          proof (cases "elementary alt d sp bp t")
            case None
            then show ?thesis using False pc m np 2(7) by (simp add: strptime_loop.simps)
          next
            case (Some x)
            obtain bp' sp' t' where x: "x = (bp', sp', t')" by (cases x)
            then have "tm_ok t'" using elementary_ok [OF 2(7)] Some by simp
            then show ?thesis using IH(4) [OF _ _ np False _ _ refl] Some x False pc m np by (auto simp: strptime_loop.simps)
          qed
        qed
      qed
    qed
  qed
qed simp

text \<open>C16: Whatever the format and the text are, arg_strptime ends and leaves every field of the time in its range, also
when it fails half way: the hour stays below 24 when PM adds 12 to it.\<close>

theorem strptime_in_range:
  assumes "tm_ok t"
  shows "tm_ok (snd (arg_strptime buf fmt t))"
  unfolding arg_strptime_def by (rule strptime_loop_ok [OF assms])

theorem strptime_in_range_witness: "tm_ok (snd (arg_strptime ''11 PM'' ''%I %p'' zero_tm)) \<and> tm_hour (snd (arg_strptime ''11 PM'' ''%I %p'' zero_tm)) = 23"
proof
  show "tm_ok (snd (arg_strptime ''11 PM'' ''%I %p'' zero_tm))" by (rule strptime_in_range) (simp add: tm_ok_def zero_tm_def)
  show "tm_hour (snd (arg_strptime ''11 PM'' ''%I %p'' zero_tm)) = 23" by code_simp
qed

section \<open>Conversions that do not do what they mean\<close>

text \<open>A century is stored as a year, not as the years since 1900.\<close>

lemma century_is_year: "arg_strptime ''1999'' ''%C%y'' zero_tm = (Some [], zero_tm\<lparr>tm_year := 1999\<rparr>)"
  "arg_strptime ''1999'' ''%Y'' zero_tm = (Some [], zero_tm\<lparr>tm_year := 99\<rparr>)"
  by code_simp+

text \<open>AM and PM are only found at the end of the text.\<close>

lemma am_pm_at_end: "arg_strptime ''11 PM x'' ''%I %p x'' zero_tm = (None, zero_tm\<lparr>tm_hour := 11\<rparr>)"
  by code_simp

text \<open>The example in the error message is the time of no conversion: \<open>%F\<close> is not supported.\<close>

lemma example_is_zero: "example_tm = zero_tm"
  by code_simp

lemma writes_date_error:
  assumes "hdr_ok h" and "opt_nul_free v" and "nul_free progname" and "nul_free (strftime 200 format zero_tm)"
  shows "dstr.writes (arg_date_errorfn strftime h format err v progname) (progname @ '': '' @
    (if err = ARG_ERR_BADDATE then
       (''illegal timestamp format '' @ [CHR 0x22] @ null_safe v @ [CHR 0x22] @ newline) @
       ''correct format is '' @ [CHR 0x22] @ strftime 200 format zero_tm @ [CHR 0x22] @ newline
     else value_message False h err v))"
proof (cases "err = ARG_ERR_BADDATE")
  case True
  have n: "nul_free (null_safe v)" by (rule null_safe_nul_free [OF assms(2)])
  have f: "c_format (''illegal timestamp format '' @ [CHR 0x22] @ ''%s'' @ [CHR 0x22] @ newline) [F_str s] =
      Some (''illegal timestamp format '' @ [CHR 0x22] @ s @ [CHR 0x22] @ newline)"
    "c_format (''correct format is '' @ [CHR 0x22] @ ''%s'' @ [CHR 0x22] @ newline) [F_str s] =
      Some (''correct format is '' @ [CHR 0x22] @ s @ [CHR 0x22] @ newline)" for s by (simp_all add: format_eval newline_def)
  have a: "dstr.writes (arg_dstr_catf (''illegal timestamp format '' @ [CHR 0x22] @ ''%s'' @ [CHR 0x22] @ newline) [F_str (null_safe v)])
      (''illegal timestamp format '' @ [CHR 0x22] @ null_safe v @ [CHR 0x22] @ newline)"
    by (rule writes_catf [OF f(1)]) (use n in simp)
  have b: "dstr.writes (arg_dstr_catf (''correct format is '' @ [CHR 0x22] @ ''%s'' @ [CHR 0x22] @ newline) [F_str (strftime 200 format zero_tm)])
      (''correct format is '' @ [CHR 0x22] @ strftime 200 format zero_tm @ [CHR 0x22] @ newline)"
    by (rule writes_catf [OF f(2)]) (use assms(4) in simp)
  from writes_prefixed [OF assms(3) dstr.writes_seq [OF a b]] show ?thesis
    by (simp add: arg_date_errorfn_def [abs_def] Let_def True ARG_ERR_BADDATE_def arg_codes example_is_zero)
next
  case False
  then show ?thesis
    using writes_prefixed [OF assms(3) writes_value_error [OF assms(1,2), where is_int = False and err = err]]
    by (simp add: arg_date_errorfn_def [abs_def] Let_def cong: if_cong)
qed

end
