(* ===== verification/Arg_Hash.thy ===== *)
theory Arg_Hash
  imports Prelude
begin

text \<open>
  The hash table of \<open>lib/argtable/argtable3.c\<close>.  A bucket is the list of its entries; the hash function
  and the equality test stored in the table are the parameters \<open>hashfn\<close> and \<open>eqfn\<close>.  The keys and values
  that the code frees are returned.  The count and the load limit are the unsigned 32-bit integers of the code,
  and the count wraps.
\<close>

unbundle bit_operations_syntax

section \<open>Structures\<close>

record ('k, 'v) hash_entry =
  he_hash :: "32 word"
  he_key :: 'k
  he_val :: 'v

record ('k, 'v) hashtable =
  ht_table :: "('k, 'v) hash_entry list list"
  ht_entrycount :: "32 word"
  ht_loadlimit :: "32 word"
  ht_primeindex :: nat

datatype ('k, 'v) freed = Free_key 'k | Free_value 'v

definition primes :: "nat list" where
  "primes = [53, 97, 193, 389, 769, 1543, 3079, 6151, 12289,
     24593, 49157, 98317, 196613, 393241, 786433, 1572869, 3145739, 6291469,
     12582917, 25165843, 50331653, 100663319, 201326611, 402653189, 805306457, 1610612741]"

text \<open>\<open>(unsigned int)ceil(size * (double)0.65f)\<close>: the float is 10905190 / 2 ^ 24, and for the primes of the table
  the rounding of the product does not change the result.\<close>

definition load_limit :: "nat \<Rightarrow> 32 word" where
  "load_limit n = word_of_nat ((n * 10905190 + 16777215) div 16777216)"

section \<open>Operations\<close>

definition enhanced_hash :: "('k \<Rightarrow> 32 word) \<Rightarrow> 'k \<Rightarrow> 32 word" where
  "enhanced_hash hashfn k =
     (let i = hashfn k;
          i = i + NOT (push_bit 9 i);
          i = i XOR (drop_bit 14 i OR push_bit 18 i);
          i = i + push_bit 4 i
      in i XOR (drop_bit 10 i OR push_bit 22 i))"

definition index_for :: "nat \<Rightarrow> 32 word \<Rightarrow> nat" where
  "index_for tablelength hashvalue = unat hashvalue mod tablelength"

text \<open>The index of the first prime above \<open>minsize\<close>, from index \<open>i\<close> on.\<close>

fun find_prime :: "nat list \<Rightarrow> nat \<Rightarrow> nat \<Rightarrow> nat \<times> nat" where
  "find_prime [] i minsize = (53, i)"
| "find_prime (p # ps) i minsize = (if minsize < p then (p, i) else find_prime ps (i + 1) minsize)"

definition arg_hashtable_create :: "nat \<Rightarrow> ('k, 'v) hashtable option" where
  "arg_hashtable_create minsize =
     (if 2 ^ 30 < minsize then None
      else case find_prime primes 0 minsize of (size', pindex) \<Rightarrow>
        Some \<lparr>ht_table = replicate size' [], ht_entrycount = 0, ht_loadlimit = load_limit size', ht_primeindex = pindex\<rparr>)"

definition push_entry :: "('k, 'v) hash_entry \<Rightarrow> ('k, 'v) hash_entry list list \<Rightarrow> ('k, 'v) hash_entry list list" where
  "push_entry e table = (let index = index_for (length table) (he_hash e) in table[index := e # table ! index])"

text \<open>The entries move to the new table in the order of the buckets, each one to the head of its new bucket.\<close>

definition arg_hashtable_expand :: "('k, 'v) hashtable \<Rightarrow> int \<times> ('k, 'v) hashtable" where
  "arg_hashtable_expand h =
     (if ht_primeindex h = length primes - 1 then (0, h)
      else let pindex = ht_primeindex h + 1; newsize = primes ! pindex in
        (-1, h\<lparr>ht_table := foldl (\<lambda>t e. push_entry e t) (replicate newsize []) (concat (ht_table h)),
           ht_primeindex := pindex, ht_loadlimit := load_limit newsize\<rparr>))"

definition arg_hashtable_count :: "('k, 'v) hashtable \<Rightarrow> 32 word" where
  "arg_hashtable_count h = ht_entrycount h"

definition arg_hashtable_insert :: "('k \<Rightarrow> 32 word) \<Rightarrow> 'k \<Rightarrow> 'v \<Rightarrow> ('k, 'v) hashtable \<Rightarrow> ('k, 'v) hashtable" where
  "arg_hashtable_insert hashfn k v h =
     (let h = (if ht_loadlimit h < ht_entrycount h + 1 then snd (arg_hashtable_expand h) else h);
          e = \<lparr>he_hash = enhanced_hash hashfn k, he_key = k, he_val = v\<rparr>
      in h\<lparr>ht_table := push_entry e (ht_table h), ht_entrycount := ht_entrycount h + 1\<rparr>)"

definition bucket :: "('k \<Rightarrow> 32 word) \<Rightarrow> ('k, 'v) hashtable \<Rightarrow> 'k \<Rightarrow> nat" where
  "bucket hashfn h k = index_for (length (ht_table h)) (enhanced_hash hashfn k)"

definition matches :: "('k \<Rightarrow> 32 word) \<Rightarrow> ('k \<Rightarrow> 'k \<Rightarrow> bool) \<Rightarrow> 'k \<Rightarrow> ('k, 'v) hash_entry \<Rightarrow> bool" where
  "matches hashfn eqfn k e \<longleftrightarrow> enhanced_hash hashfn k = he_hash e \<and> eqfn k (he_key e)"

fun search_chain :: "('k \<Rightarrow> 32 word) \<Rightarrow> ('k \<Rightarrow> 'k \<Rightarrow> bool) \<Rightarrow> 'k \<Rightarrow> ('k, 'v) hash_entry list \<Rightarrow> 'v option" where
  "search_chain hashfn eqfn k [] = None"
| "search_chain hashfn eqfn k (e # es) = (if matches hashfn eqfn k e then Some (he_val e) else search_chain hashfn eqfn k es)"

definition arg_hashtable_search :: "('k \<Rightarrow> 32 word) \<Rightarrow> ('k \<Rightarrow> 'k \<Rightarrow> bool) \<Rightarrow> ('k, 'v) hashtable \<Rightarrow> 'k \<Rightarrow> 'v option" where
  "arg_hashtable_search hashfn eqfn h k = search_chain hashfn eqfn k (ht_table h ! bucket hashfn h k)"

text \<open>The entry that is unlinked, if there is one, and the chain that remains.\<close>

fun remove_chain :: "('k \<Rightarrow> 32 word) \<Rightarrow> ('k \<Rightarrow> 'k \<Rightarrow> bool) \<Rightarrow> 'k \<Rightarrow> ('k, 'v) hash_entry list \<Rightarrow>
  ('k, 'v) hash_entry option \<times> ('k, 'v) hash_entry list" where
  "remove_chain hashfn eqfn k [] = (None, [])"
| "remove_chain hashfn eqfn k (e # es) =
     (if matches hashfn eqfn k e then (Some e, es)
      else case remove_chain hashfn eqfn k es of (x, es) \<Rightarrow> (x, e # es))"

definition arg_hashtable_remove :: "('k \<Rightarrow> 32 word) \<Rightarrow> ('k \<Rightarrow> 'k \<Rightarrow> bool) \<Rightarrow> 'k \<Rightarrow> ('k, 'v) hashtable \<Rightarrow>
  ('k, 'v) freed list \<times> ('k, 'v) hashtable" where
  "arg_hashtable_remove hashfn eqfn k h =
     (let index = bucket hashfn h k in
      case remove_chain hashfn eqfn k (ht_table h ! index) of
        (None, es) \<Rightarrow> ([], h)
      | (Some e, es) \<Rightarrow> ([Free_key (he_key e), Free_value (he_val e)],
          h\<lparr>ht_table := (ht_table h)[index := es], ht_entrycount := ht_entrycount h - 1\<rparr>))"

fun change_chain :: "('k \<Rightarrow> 32 word) \<Rightarrow> ('k \<Rightarrow> 'k \<Rightarrow> bool) \<Rightarrow> 'k \<Rightarrow> 'v \<Rightarrow> ('k, 'v) hash_entry list \<Rightarrow>
  'v option \<times> ('k, 'v) hash_entry list" where
  "change_chain hashfn eqfn k v [] = (None, [])"
| "change_chain hashfn eqfn k v (e # es) =
     (if matches hashfn eqfn k e then (Some (he_val e), e\<lparr>he_val := v\<rparr> # es)
      else case change_chain hashfn eqfn k v es of (x, es) \<Rightarrow> (x, e # es))"

definition arg_hashtable_change :: "('k \<Rightarrow> 32 word) \<Rightarrow> ('k \<Rightarrow> 'k \<Rightarrow> bool) \<Rightarrow> 'k \<Rightarrow> 'v \<Rightarrow> ('k, 'v) hashtable \<Rightarrow>
  int \<times> ('k, 'v) freed list \<times> ('k, 'v) hashtable" where
  "arg_hashtable_change hashfn eqfn k v h =
     (let index = bucket hashfn h k in
      case change_chain hashfn eqfn k v (ht_table h ! index) of
        (None, es) \<Rightarrow> (0, [], h)
      | (Some old, es) \<Rightarrow> (-1, [Free_value old], h\<lparr>ht_table := (ht_table h)[index := es]\<rparr>))"

definition arg_hashtable_destroy :: "('k, 'v) hashtable \<Rightarrow> bool \<Rightarrow> ('k, 'v) freed list" where
  "arg_hashtable_destroy h free_values =
     (if free_values then concat (map (\<lambda>e. [Free_key (he_key e), Free_value (he_val e)]) (concat (ht_table h)))
      else map (\<lambda>e. Free_key (he_key e)) (concat (ht_table h)))"

section \<open>Iterators\<close>

text \<open>The pointers \<open>e\<close> and \<open>parent\<close> are a position in the bucket \<open>index\<close>, with \<open>parent\<close> before it.\<close>

record hash_itr =
  it_index :: nat
  it_pos :: "nat option"

text \<open>The first bucket that is not empty, from index \<open>i\<close> on.\<close>

fun first_bucket :: "'a list list \<Rightarrow> nat \<Rightarrow> nat option" where
  "first_bucket [] i = None"
| "first_bucket (b # bs) i = (if b = [] then first_bucket bs (i + 1) else Some i)"

definition arg_hashtable_itr_create :: "('k, 'v) hashtable \<Rightarrow> hash_itr" where
  "arg_hashtable_itr_create h =
     (let none = \<lparr>it_index = length (ht_table h), it_pos = None\<rparr> in
      if ht_entrycount h = 0 then none
      else case first_bucket (ht_table h) 0 of None \<Rightarrow> none | Some i \<Rightarrow> \<lparr>it_index = i, it_pos = Some 0\<rparr>)"

definition itr_entry :: "('k, 'v) hashtable \<Rightarrow> hash_itr \<Rightarrow> ('k, 'v) hash_entry option" where
  "itr_entry h itr = (case it_pos itr of None \<Rightarrow> None | Some p \<Rightarrow>
     if it_index itr < length (ht_table h) \<and> p < length (ht_table h ! it_index itr) then Some (ht_table h ! it_index itr ! p) else None)"

definition arg_hashtable_itr_key :: "('k, 'v) hashtable \<Rightarrow> hash_itr \<Rightarrow> 'k option" where
  "arg_hashtable_itr_key h itr = map_option he_key (itr_entry h itr)"

definition arg_hashtable_itr_value :: "('k, 'v) hashtable \<Rightarrow> hash_itr \<Rightarrow> 'v option" where
  "arg_hashtable_itr_value h itr = map_option he_val (itr_entry h itr)"

text \<open>On to the next bucket, for \<open>advance\<close> and \<open>remove\<close>.\<close>

definition next_bucket :: "('k, 'v) hashtable \<Rightarrow> nat \<Rightarrow> int \<times> hash_itr" where
  "next_bucket h index =
     (case first_bucket (drop (index + 1) (ht_table h)) (index + 1) of
        None \<Rightarrow> (0, \<lparr>it_index = length (ht_table h), it_pos = None\<rparr>)
      | Some j \<Rightarrow> (-1, \<lparr>it_index = j, it_pos = Some 0\<rparr>))"

definition arg_hashtable_itr_advance :: "('k, 'v) hashtable \<Rightarrow> hash_itr \<Rightarrow> int \<times> hash_itr" where
  "arg_hashtable_itr_advance h itr = (case it_pos itr of
       None \<Rightarrow> (0, itr)
     | Some p \<Rightarrow>
         if p + 1 < length (ht_table h ! it_index itr) then (-1, itr\<lparr>it_pos := Some (p + 1)\<rparr>)
         else next_bucket h (it_index itr))"

definition remove_at :: "nat \<Rightarrow> 'a list \<Rightarrow> 'a list" where
  "remove_at p xs = take p xs @ drop (p + 1) xs"

text \<open>\<open>None\<close> when the iterator is at no entry, which the code does not check.\<close>

definition arg_hashtable_itr_remove :: "('k, 'v) hashtable \<Rightarrow> hash_itr \<Rightarrow>
  (int \<times> ('k, 'v) freed list \<times> ('k, 'v) hashtable \<times> hash_itr) option" where
  "arg_hashtable_itr_remove h itr = do {
     e \<leftarrow> itr_entry h itr;
     p \<leftarrow> it_pos itr;
     let chain = remove_at p (ht_table h ! it_index itr);
     let h = h\<lparr>ht_table := (ht_table h)[it_index itr := chain], ht_entrycount := ht_entrycount h - 1\<rparr>;
     let (ret, itr) = (if p < length chain then (-1, itr) else next_bucket h (it_index itr));
     Some (ret, [Free_key (he_key e), Free_value (he_val e)], h, itr)}"

fun find_pos :: "('a \<Rightarrow> bool) \<Rightarrow> 'a list \<Rightarrow> nat \<Rightarrow> nat option" where
  "find_pos P [] p = None"
| "find_pos P (x # xs) p = (if P x then Some p else find_pos P xs (p + 1))"

definition arg_hashtable_itr_search :: "('k \<Rightarrow> 32 word) \<Rightarrow> ('k \<Rightarrow> 'k \<Rightarrow> bool) \<Rightarrow> hash_itr \<Rightarrow> ('k, 'v) hashtable \<Rightarrow> 'k \<Rightarrow>
  int \<times> hash_itr" where
  "arg_hashtable_itr_search hashfn eqfn itr h k =
     (let index = bucket hashfn h k in
      case find_pos (matches hashfn eqfn k) (ht_table h ! index) 0 of
        None \<Rightarrow> (0, itr)
      | Some p \<Rightarrow> (-1, \<lparr>it_index = index, it_pos = Some p\<rparr>))"

section \<open>The interface of a map\<close>

datatype ('k, 'v) table_op = Insert 'k 'v | Remove 'k | Change 'k 'v

primrec map_step :: "('k, 'v) table_op \<Rightarrow> ('k \<rightharpoonup> 'v) \<Rightarrow> ('k \<rightharpoonup> 'v)" where
  "map_step (Insert k v) m = m(k \<mapsto> v)"
| "map_step (Remove k) m = m(k := None)"
| "map_step (Change k v) m = (if m k = None then m else m(k \<mapsto> v))"

text \<open>Only new keys are inserted.\<close>

fun fresh_inserts :: "('k, 'v) table_op list \<Rightarrow> ('k \<rightharpoonup> 'v) \<Rightarrow> bool" where
  "fresh_inserts [] m = True"
| "fresh_inserts (x # xs) m \<longleftrightarrow> (case x of Insert k v \<Rightarrow> m k = None | _ \<Rightarrow> True) \<and> fresh_inserts xs (map_step x m)"

locale map_table =
  fixes inv :: "'s \<Rightarrow> bool" and abs :: "'s \<Rightarrow> ('k \<rightharpoonup> 'v)"
    and add :: "'k \<Rightarrow> 'v \<Rightarrow> 's \<Rightarrow> 's" and find :: "'s \<Rightarrow> 'k \<Rightarrow> 'v option" and del :: "'k \<Rightarrow> 's \<Rightarrow> 's"
    and upd :: "'k \<Rightarrow> 'v \<Rightarrow> 's \<Rightarrow> 's" and cnt :: "'s \<Rightarrow> 32 word"
  assumes add_law: "inv s \<Longrightarrow> abs s k = None \<Longrightarrow> inv (add k v s) \<and> abs (add k v s) = (abs s)(k \<mapsto> v)"
    and find_law: "inv s \<Longrightarrow> find s k = abs s k"
    and del_law: "inv s \<Longrightarrow> inv (del k s) \<and> abs (del k s) = (abs s)(k := None)"
    and upd_law: "inv s \<Longrightarrow> inv (upd k v s) \<and> abs (upd k v s) = (if abs s k = None then abs s else (abs s)(k \<mapsto> v))"
    and cnt_law: "inv s \<Longrightarrow> cnt s = word_of_nat (card (dom (abs s)))"
begin

primrec table_step :: "('k, 'v) table_op \<Rightarrow> 's \<Rightarrow> 's" where
  "table_step (Insert k v) s = add k v s"
| "table_step (Remove k) s = del k s"
| "table_step (Change k v) s = upd k v s"

lemma steps_refine:
  "inv s \<Longrightarrow> fresh_inserts xs (abs s) \<Longrightarrow> inv (fold table_step xs s) \<and> abs (fold table_step xs s) = fold map_step xs (abs s)"
proof (induction xs arbitrary: s)
  case (Cons x xs)
  have "inv (table_step x s) \<and> abs (table_step x s) = map_step x (abs s)"
    using Cons.prems add_law del_law upd_law by (cases x) auto
  then show ?case using Cons.IH [of "table_step x s"] Cons.prems(2) by simp
qed simp

lemma observations:
  assumes "inv s" and "fresh_inserts xs (abs s)"
  shows "find (fold table_step xs s) k = fold map_step xs (abs s) k"
    and "cnt (fold table_step xs s) = word_of_nat (card (dom (fold map_step xs (abs s))))"
  using steps_refine [OF assms] find_law cnt_law by auto

end

section \<open>The invariant and the abstraction\<close>

definition placed :: "('k, 'v) hash_entry list list \<Rightarrow> bool" where
  "placed t \<longleftrightarrow> (\<forall>i < length t. \<forall>e \<in> set (t ! i). index_for (length t) (he_hash e) = i)"

definition ht_ok :: "('k \<Rightarrow> 32 word) \<Rightarrow> ('k, 'v) hashtable \<Rightarrow> bool" where
  "ht_ok hashfn h \<longleftrightarrow> placed (ht_table h) \<and> 0 < length (ht_table h) \<and>
     (\<forall>e \<in> set (concat (ht_table h)). he_hash e = enhanced_hash hashfn (he_key e)) \<and>
     distinct (map he_key (concat (ht_table h))) \<and> ht_entrycount h = word_of_nat (length (concat (ht_table h))) \<and>
     ht_primeindex h < length primes"

definition pairs :: "('k, 'v) hash_entry list \<Rightarrow> ('k \<times> 'v) list" where
  "pairs es = map (\<lambda>e. (he_key e, he_val e)) es"

definition ht_map :: "('k, 'v) hashtable \<Rightarrow> ('k \<rightharpoonup> 'v)" where
  "ht_map h = map_of (pairs (concat (ht_table h)))"

lemma keys_pairs: "map fst (pairs es) = map he_key es"
  by (simp add: pairs_def comp_def)

lemma index_less: "0 < n \<Longrightarrow> index_for n x < n"
  by (simp add: index_for_def)

lemma mset_concat_update:
  "i < length t \<Longrightarrow> mset (concat (t[i := xs])) + mset (t ! i) = mset (concat t) + mset xs"
proof (induction t arbitrary: i)
  case (Cons a t)
  then show ?case by (cases i) (simp_all add: ac_simps)
qed simp

lemma map_of_mset:
  assumes "mset es = mset es'" and "distinct (map he_key es)"
  shows "map_of (pairs es) = map_of (pairs es')" "distinct (map he_key es')"
proof -
  have "mset (map he_key es) = mset (map he_key es')" using assms(1) by simp
  then show d: "distinct (map he_key es')" using assms(2) by (metis mset_eq_imp_distinct_iff)
  have s: "set (pairs es) = set (pairs es')" using mset_eq_setD [OF assms(1)] by (auto simp: pairs_def)
  show "map_of (pairs es) = map_of (pairs es')"
  proof (rule map_of_inject_set [THEN iffD2])
    show "distinct (map fst (pairs es))" "distinct (map fst (pairs es'))" using assms(2) d by (simp_all add: keys_pairs)
    show "set (pairs es) = set (pairs es')" by (rule s)
  qed
qed

section \<open>Insertion\<close>

lemma push_facts:
  assumes "placed t" and "0 < length t"
  shows "placed (push_entry e t)" "length (push_entry e t) = length t" "mset (concat (push_entry e t)) = add_mset e (mset (concat t))"
proof -
  let ?i = "index_for (length t) (he_hash e)"
  have i: "?i < length t" using assms(2) by (rule index_less)
  show "length (push_entry e t) = length t" by (simp add: push_entry_def Let_def)
  show "placed (push_entry e t)"
    using assms i by (auto simp: placed_def push_entry_def Let_def nth_list_update)
  show "mset (concat (push_entry e t)) = add_mset e (mset (concat t))"
    using mset_concat_update [OF i, of "e # t ! ?i"] by (simp add: push_entry_def Let_def)
qed

lemma push_all:
  "placed t \<Longrightarrow> 0 < length t \<Longrightarrow> placed (foldl (\<lambda>t e. push_entry e t) t es) \<and> length (foldl (\<lambda>t e. push_entry e t) t es) = length t \<and>
    mset (concat (foldl (\<lambda>t e. push_entry e t) t es)) = mset (concat t) + mset es"
proof (induction es arbitrary: t)
  case (Cons e es)
  note f = push_facts [OF Cons.prems, of e]
  have "push_entry e t \<noteq> []" using f(2) Cons.prems(2) by (metis length_greater_0_conv)
  then show ?case using Cons.IH [of "push_entry e t"] f Cons.prems(2) by simp
qed simp

lemma primes_pos: "i < length primes \<Longrightarrow> 0 < primes ! i"
proof -
  have "\<forall>p \<in> set primes. 0 < p" by (simp add: primes_def)
  then show "i < length primes \<Longrightarrow> 0 < primes ! i" by simp
qed

lemma expand_ok:
  assumes "ht_ok hashfn h"
  shows "ht_ok hashfn (snd (arg_hashtable_expand h))"
    "mset (concat (ht_table (snd (arg_hashtable_expand h)))) = mset (concat (ht_table h))"
    "ht_entrycount (snd (arg_hashtable_expand h)) = ht_entrycount h"
proof -
  let ?h = "snd (arg_hashtable_expand h)"
  have p: "ht_primeindex h < length primes" using assms by (simp add: ht_ok_def)
  show c: "ht_entrycount ?h = ht_entrycount h" by (simp add: arg_hashtable_expand_def Let_def)
  have "mset (concat (ht_table ?h)) = mset (concat (ht_table h)) \<and> ht_ok hashfn ?h"
  proof (cases "ht_primeindex h = length primes - 1")
    case True
    then show ?thesis using assms by (simp add: arg_hashtable_expand_def)
  next
    case False
    then have n: "ht_primeindex h + 1 < length primes" using p by simp
    let ?new = "replicate (primes ! (ht_primeindex h + 1)) []"
    have new: "placed ?new" "0 < length ?new" using primes_pos [OF n] by (simp_all add: placed_def)
    have t: "ht_table ?h = foldl (\<lambda>t e. push_entry e t) ?new (concat (ht_table h))" "ht_primeindex ?h = ht_primeindex h + 1"
      using False by (simp_all add: arg_hashtable_expand_def Let_def)
    have m: "mset (concat (ht_table ?h)) = mset (concat (ht_table h))" "placed (ht_table ?h)" "0 < length (ht_table ?h)"
      using push_all [OF new, of "concat (ht_table h)"] new(2) by (simp_all add: t)
    have "set (concat (ht_table ?h)) = set (concat (ht_table h))" using m(1) by (rule mset_eq_setD)
    moreover have "length (concat (ht_table ?h)) = length (concat (ht_table h))" using m(1) by (metis size_mset)
    ultimately show ?thesis
      using assms m n map_of_mset(2) [OF m(1) [symmetric]] c t(2) unfolding ht_ok_def by simp
  qed
  then show "ht_ok hashfn ?h" "mset (concat (ht_table ?h)) = mset (concat (ht_table h))" by auto
qed

lemma ht_map_mset:
  assumes "ht_ok hashfn h" and "mset (concat (ht_table h')) = mset (concat (ht_table h))"
  shows "ht_map h' = ht_map h"
  using map_of_mset(1) [OF assms(2) [symmetric]] assms(1) by (simp add: ht_map_def ht_ok_def)

lemma insert_ok:
  assumes ok: "ht_ok hashfn h" and new: "ht_map h k = None"
  shows "ht_ok hashfn (arg_hashtable_insert hashfn k v h)" "ht_map (arg_hashtable_insert hashfn k v h) = (ht_map h)(k \<mapsto> v)"
proof -
  define h1 where "h1 = (if ht_loadlimit h < ht_entrycount h + 1 then snd (arg_hashtable_expand h) else h)"
  have h1: "ht_ok hashfn h1" "ht_map h1 k = None" "ht_map h1 = ht_map h" "ht_entrycount h1 = ht_entrycount h"
    using ok new expand_ok [OF ok] ht_map_mset [OF ok, of "snd (arg_hashtable_expand h)"] by (simp_all add: h1_def)
  let ?e = "\<lparr>he_hash = enhanced_hash hashfn k, he_key = k, he_val = v\<rparr>"
  let ?t = "push_entry ?e (ht_table h1)"
  let ?h = "h1\<lparr>ht_table := ?t, ht_entrycount := ht_entrycount h1 + 1\<rparr>"
  have ins: "arg_hashtable_insert hashfn k v h = ?h"
    by (simp add: arg_hashtable_insert_def h1_def Let_def)
  have t: "placed ?t" "length ?t = length (ht_table h1)" "mset (concat ?t) = mset (?e # concat (ht_table h1))"
    using push_facts [of "ht_table h1" ?e] h1(1) by (simp_all add: ht_ok_def)
  have fresh: "k \<notin> set (map he_key (concat (ht_table h1)))"
    using h1(2) by (auto simp: ht_map_def map_of_eq_None_iff pairs_def image_image)
  have d: "distinct (map he_key (?e # concat (ht_table h1)))"
    using h1(1) fresh by (simp add: ht_ok_def)
  note m = map_of_mset [OF t(3) [symmetric] d]
  have "set (concat ?t) = set (?e # concat (ht_table h1))" using t(3) by (rule mset_eq_setD)
  moreover have "length (concat ?t) = length (?e # concat (ht_table h1))" using t(3) by (metis size_mset)
  ultimately show "ht_ok hashfn (arg_hashtable_insert hashfn k v h)"
    using h1(1) t m(2) unfolding ins ht_ok_def by simp
  show "ht_map (arg_hashtable_insert hashfn k v h) = (ht_map h)(k \<mapsto> v)"
    using m(1) h1(3) by (simp add: ins ht_map_def pairs_def)
qed

section \<open>Search, removal and change\<close>

text \<open>The entries of a key are in its bucket: the rest of the table is a frame around it.\<close>

lemma bucket_frame:
  assumes ok: "ht_ok hashfn h"
  obtains A B where "bucket hashfn h k < length (ht_table h)"
    "concat (ht_table h) = A @ ht_table h ! bucket hashfn h k @ B"
    "\<And>xs. concat ((ht_table h)[bucket hashfn h k := xs]) = A @ xs @ B"
    "\<And>e. e \<in> set A \<union> set B \<Longrightarrow> he_key e \<noteq> k"
proof -
  let ?t = "ht_table h" and ?i = "bucket hashfn h k"
  let ?A = "concat (take ?i ?t)" and ?B = "concat (drop (Suc ?i) ?t)"
  have i: "?i < length ?t" using ok by (simp add: ht_ok_def bucket_def index_less)
  have up: "concat (?t[?i := xs]) = ?A @ xs @ ?B" for xs
    using i by (simp add: upd_conv_take_nth_drop)
  have whole: "concat ?t = ?A @ ?t ! ?i @ ?B"
    using up [of "?t ! ?i"] by simp
  have "he_key e \<noteq> k" if e: "e \<in> set ?A \<union> set ?B" for e
  proof
    assume k: "he_key e = k"
    have "\<exists>j < length ?t. j \<noteq> ?i \<and> e \<in> set (?t ! j)"
    proof (cases "e \<in> set ?A")
      case True
      then obtain xs where xs: "xs \<in> set (take ?i ?t)" "e \<in> set xs" by auto
      then obtain j where "j < ?i" "xs = ?t ! j" using i by (auto simp: in_set_conv_nth)
      then show ?thesis using xs(2) i by (intro exI [of _ j]) auto
    next
      case False
      then obtain xs where xs: "xs \<in> set (drop (Suc ?i) ?t)" "e \<in> set xs" using e by auto
      then obtain j where "j < length ?t - Suc ?i" "xs = ?t ! (Suc ?i + j)" by (auto simp: in_set_conv_nth)
      then show ?thesis using xs(2) by (intro exI [of _ "Suc ?i + j"]) auto
    qed
    then obtain j where j: "j < length ?t" "j \<noteq> ?i" "e \<in> set (?t ! j)" by auto
    then have "index_for (length ?t) (he_hash e) = j" using ok by (simp add: ht_ok_def placed_def)
    moreover have "e \<in> set (concat ?t)" using j by auto
    then have "he_hash e = enhanced_hash hashfn (he_key e)" using ok unfolding ht_ok_def by blast
    ultimately show False using j(2) k by (simp add: bucket_def)
  qed
  with i up whole show thesis by (intro that [of ?A ?B]) auto
qed

lemma pairs_append [simp]: "pairs (xs @ ys) = pairs xs @ pairs ys" "pairs [] = []" "pairs (e # xs) = (he_key e, he_val e) # pairs xs"
  by (simp_all add: pairs_def)

lemma pairs_none: "k \<notin> he_key ` set xs \<Longrightarrow> map_of (pairs xs) k = None"
  by (induction xs) auto

definition hashed :: "('k \<Rightarrow> 32 word) \<Rightarrow> ('k, 'v) hash_entry list \<Rightarrow> bool" where
  "hashed hashfn es \<longleftrightarrow> (\<forall>e \<in> set es. he_hash e = enhanced_hash hashfn (he_key e))"

lemma search_chain_map: "hashed hashfn es \<Longrightarrow> search_chain hashfn (=) k es = map_of (pairs es) k"
  by (induction es) (auto simp: hashed_def matches_def)

lemma search_ok:
  assumes ok: "ht_ok hashfn h"
  shows "arg_hashtable_search hashfn (=) h k = ht_map h k"
proof -
  obtain A B where f: "bucket hashfn h k < length (ht_table h)" "concat (ht_table h) = A @ ht_table h ! bucket hashfn h k @ B"
    "\<And>e. e \<in> set A \<union> set B \<Longrightarrow> he_key e \<noteq> k" using bucket_frame [OF ok, of k] by metis
  have "hashed hashfn (ht_table h ! bucket hashfn h k)" using ok f(2) by (simp add: ht_ok_def hashed_def)
  moreover have "map_of (pairs A) k = None" "map_of (pairs B) k = None" using f(3) by (auto intro!: pairs_none)
  ultimately show ?thesis
    by (simp add: arg_hashtable_search_def ht_map_def f(2) search_chain_map map_add_def split: option.splits)
qed

text \<open>A chain that is replaced within its bucket.\<close>

lemma replace_chain:
  assumes ok: "ht_ok hashfn h" and i: "i < length (ht_table h)"
    and sub: "he_hash ` set xs \<subseteq> he_hash ` set (ht_table h ! i)"
  shows "placed ((ht_table h)[i := xs])"
  unfolding placed_def
proof (intro allI ballI impI)
  fix j e
  assume j: "j < length ((ht_table h)[i := xs])" and e: "e \<in> set ((ht_table h)[i := xs] ! j)"
  show "index_for (length ((ht_table h)[i := xs])) (he_hash e) = j"
  proof (cases "j = i")
    case True
    then have "e \<in> set xs" using e i by simp
    then obtain e' where "e' \<in> set (ht_table h ! i)" "he_hash e = he_hash e'" using sub by blast
    then show ?thesis using ok i True by (simp add: ht_ok_def placed_def)
  next
    case False
    then show ?thesis using ok j e by (simp add: ht_ok_def placed_def)
  qed
qed

lemma remove_chain_map:
  assumes "hashed hashfn es" and "distinct (map he_key es)"
  shows "case remove_chain hashfn (=) k es of
      (None, es') \<Rightarrow> es' = es \<and> k \<notin> he_key ` set es
    | (Some e, es') \<Rightarrow> he_key e = k \<and> (\<exists>xs ys. es = xs @ e # ys \<and> es' = xs @ ys)"
  using assms
proof (induction es)
  case (Cons a es)
  show ?case
  proof (cases "matches hashfn (=) k a")
    case True
    then have c: "remove_chain hashfn (=) k (a # es) = (Some a, es)" "he_key a = k" by (auto simp: matches_def)
    have "\<exists>xs ys. a # es = xs @ a # ys \<and> es = xs @ ys" by (rule exI [of _ "[]"]) simp
    then show ?thesis unfolding c(1) by (simp add: c(2))
  next
    case False
    then have "he_key a \<noteq> k" using Cons.prems(1) by (auto simp: matches_def hashed_def)
    moreover have "hashed hashfn es" "distinct (map he_key es)" using Cons.prems by (simp_all add: hashed_def)
    note Cons.IH [OF this]
    ultimately show ?thesis using False
      by (auto split: prod.splits option.splits) (metis append_Cons)
  qed
qed simp

lemma change_chain_map:
  assumes "hashed hashfn es" and "distinct (map he_key es)"
  shows "case change_chain hashfn (=) k v es of
      (None, es') \<Rightarrow> es' = es \<and> k \<notin> he_key ` set es
    | (Some old, es') \<Rightarrow> \<exists>xs e ys. es = xs @ e # ys \<and> he_key e = k \<and> es' = xs @ e\<lparr>he_val := v\<rparr> # ys"
  using assms
proof (induction es)
  case (Cons a es)
  show ?case
  proof (cases "matches hashfn (=) k a")
    case True
    then have "he_key a = k" by (simp add: matches_def)
    then have "\<exists>xs e ys. a # es = xs @ e # ys \<and> he_key e = k \<and> a\<lparr>he_val := v\<rparr> # es = xs @ e\<lparr>he_val := v\<rparr> # ys"
      by (intro exI [of _ "[]"] exI [of _ a] exI [of _ es]) simp
    with True show ?thesis by simp
  next
    case False
    then have "he_key a \<noteq> k" using Cons.prems(1) by (auto simp: matches_def hashed_def)
    moreover have "hashed hashfn es" "distinct (map he_key es)" using Cons.prems by (simp_all add: hashed_def)
    note Cons.IH [OF this]
    ultimately show ?thesis using False
      by (auto split: prod.splits option.splits) (metis append_Cons)
  qed
qed simp

lemma map_of_del:
  assumes "distinct (map he_key (xs @ e # ys))"
  shows "map_of (pairs (xs @ ys)) = (map_of (pairs (xs @ e # ys)))(he_key e := None)"
proof
  fix x
  have "map_of (pairs xs) (he_key e) = None" "map_of (pairs ys) (he_key e) = None"
    using assms by (auto intro!: pairs_none)
  then show "map_of (pairs (xs @ ys)) x = ((map_of (pairs (xs @ e # ys)))(he_key e := None)) x"
    by (simp add: map_add_def split: option.splits)
qed

lemma map_of_upd:
  assumes "distinct (map he_key (xs @ e # ys))"
  shows "map_of (pairs (xs @ e\<lparr>he_val := v\<rparr> # ys)) = (map_of (pairs (xs @ e # ys)))(he_key e \<mapsto> v)"
proof
  fix x
  have "map_of (pairs xs) (he_key e) = None" using assms by (auto intro!: pairs_none)
  then show "map_of (pairs (xs @ e\<lparr>he_val := v\<rparr> # ys)) x = ((map_of (pairs (xs @ e # ys)))(he_key e \<mapsto> v)) x"
    by (auto simp: map_add_def split: option.splits)
qed

lemma map_none: "ht_map h k = None \<longleftrightarrow> k \<notin> he_key ` set (concat (ht_table h))"
  by (auto simp: ht_map_def map_of_eq_None_iff pairs_def image_image)

lemma remove_ok:
  assumes ok: "ht_ok hashfn h"
  shows "ht_ok hashfn (snd (arg_hashtable_remove hashfn (=) k h))"
    "ht_map (snd (arg_hashtable_remove hashfn (=) k h)) = (ht_map h)(k := None)"
proof -
  let ?i = "bucket hashfn h k" and ?h = "snd (arg_hashtable_remove hashfn (=) k h)"
  obtain A B where f: "?i < length (ht_table h)" "concat (ht_table h) = A @ ht_table h ! ?i @ B"
    "\<And>xs. concat ((ht_table h)[?i := xs]) = A @ xs @ B" "\<And>e. e \<in> set A \<union> set B \<Longrightarrow> he_key e \<noteq> k"
    using bucket_frame [OF ok, of k] by metis
  have "hashed hashfn (ht_table h ! ?i)" "distinct (map he_key (ht_table h ! ?i))"
    using ok by (simp_all add: ht_ok_def hashed_def f(2))
  note r = remove_chain_map [OF this, of k]
  have "ht_ok hashfn ?h \<and> ht_map ?h = (ht_map h)(k := None)"
  proof (cases "remove_chain hashfn (=) k (ht_table h ! ?i)")
    case (Pair x es)
    show ?thesis
    proof (cases x)
      case None
      then have h: "?h = h" and "k \<notin> he_key ` set (concat (ht_table h))"
        using Pair r f(2,4) by (auto simp: arg_hashtable_remove_def Let_def)
      then have "ht_map h k = None" by (simp only: map_none not_False_eq_True)
      then show ?thesis using ok by (auto simp: h)
    next
      case (Some e)
      then obtain xs ys where k: "he_key e = k" "ht_table h ! ?i = xs @ e # ys" "es = xs @ ys"
        using Pair r by auto
      have h: "?h = h\<lparr>ht_table := (ht_table h)[?i := es], ht_entrycount := ht_entrycount h - 1\<rparr>"
        using Pair Some by (simp add: arg_hashtable_remove_def Let_def)
      have c: "concat (ht_table h) = (A @ xs) @ e # (ys @ B)" "concat (ht_table ?h) = (A @ xs) @ (ys @ B)"
        using f(2,3) k by (simp_all add: h)
      have d: "distinct (map he_key ((A @ xs) @ e # (ys @ B)))" using ok c(1) by (simp only: ht_ok_def)
      have "placed (ht_table ?h)" using replace_chain [OF ok f(1), of es] k by (auto simp: h)
      moreover have "\<forall>e \<in> set (concat (ht_table ?h)). he_hash e = enhanced_hash hashfn (he_key e)"
        using ok unfolding ht_ok_def c by auto
      moreover have "ht_entrycount ?h = word_of_nat (length (concat (ht_table ?h)))" using ok unfolding ht_ok_def c by (simp add: h)
      moreover have "0 < length (ht_table ?h)" "ht_primeindex ?h < length primes" using ok by (simp_all add: ht_ok_def h)
      moreover have "distinct (map he_key (concat (ht_table ?h)))" using d unfolding c by auto
      ultimately have "ht_ok hashfn ?h" by (simp only: ht_ok_def conj_assoc)
      then show ?thesis using map_of_del [OF d] by (simp only: ht_map_def c k(1))
    qed
  qed
  then show "ht_ok hashfn ?h" "ht_map ?h = (ht_map h)(k := None)" by auto
qed

lemma change_ok:
  assumes ok: "ht_ok hashfn h"
  shows "ht_ok hashfn (snd (snd (arg_hashtable_change hashfn (=) k v h)))"
    "ht_map (snd (snd (arg_hashtable_change hashfn (=) k v h))) = (if ht_map h k = None then ht_map h else (ht_map h)(k \<mapsto> v))"
proof -
  let ?i = "bucket hashfn h k" and ?h = "snd (snd (arg_hashtable_change hashfn (=) k v h))"
  obtain A B where f: "?i < length (ht_table h)" "concat (ht_table h) = A @ ht_table h ! ?i @ B"
    "\<And>xs. concat ((ht_table h)[?i := xs]) = A @ xs @ B" "\<And>e. e \<in> set A \<union> set B \<Longrightarrow> he_key e \<noteq> k"
    using bucket_frame [OF ok, of k] by metis
  have "hashed hashfn (ht_table h ! ?i)" "distinct (map he_key (ht_table h ! ?i))"
    using ok by (simp_all add: ht_ok_def hashed_def f(2))
  note r = change_chain_map [OF this, of k v]
  have "ht_ok hashfn ?h \<and> ht_map ?h = (if ht_map h k = None then ht_map h else (ht_map h)(k \<mapsto> v))"
  proof (cases "change_chain hashfn (=) k v (ht_table h ! ?i)")
    case (Pair x es)
    show ?thesis
    proof (cases x)
      case None
      then have h: "?h = h" and "k \<notin> he_key ` set (concat (ht_table h))"
        using Pair r f(2,4) by (auto simp: arg_hashtable_change_def Let_def)
      then have "ht_map h k = None" by (simp only: map_none not_False_eq_True)
      then show ?thesis using ok by (simp add: h)
    next
      case (Some old)
      then obtain xs e ys where k: "he_key e = k" "ht_table h ! ?i = xs @ e # ys" "es = xs @ e\<lparr>he_val := v\<rparr> # ys"
        using Pair r by auto
      have h: "?h = h\<lparr>ht_table := (ht_table h)[?i := es]\<rparr>"
        using Pair Some by (simp add: arg_hashtable_change_def Let_def)
      have c: "concat (ht_table h) = (A @ xs) @ e # (ys @ B)" "concat (ht_table ?h) = (A @ xs) @ e\<lparr>he_val := v\<rparr> # (ys @ B)"
        using f(2,3) k by (simp_all add: h)
      have d: "distinct (map he_key ((A @ xs) @ e # (ys @ B)))" using ok c(1) by (simp only: ht_ok_def)
      have "placed (ht_table ?h)" using replace_chain [OF ok f(1), of es] k by (auto simp: h)
      moreover have "\<forall>e \<in> set (concat (ht_table ?h)). he_hash e = enhanced_hash hashfn (he_key e)"
        using ok unfolding ht_ok_def c by auto
      moreover have "ht_entrycount ?h = word_of_nat (length (concat (ht_table ?h)))" using ok unfolding ht_ok_def c by (simp add: h)
      moreover have "0 < length (ht_table ?h)" "ht_primeindex ?h < length primes" using ok by (simp_all add: ht_ok_def h)
      moreover have "distinct (map he_key (concat (ht_table ?h)))" using d unfolding c by auto
      ultimately have "ht_ok hashfn ?h" by (simp only: ht_ok_def conj_assoc)
      moreover have "k \<in> he_key ` set (concat (ht_table h))" unfolding c using k(1) by auto
      then have "ht_map h k \<noteq> None" by (simp only: map_none not_not)
      moreover have "ht_map ?h = (ht_map h)(k \<mapsto> v)" using map_of_upd [OF d] by (simp only: ht_map_def c k(1))
      ultimately show ?thesis by auto
    qed
  qed
  then show "ht_ok hashfn ?h" "ht_map ?h = (if ht_map h k = None then ht_map h else (ht_map h)(k \<mapsto> v))" by auto
qed

lemma count_ok: "ht_ok hashfn h \<Longrightarrow> arg_hashtable_count h = word_of_nat (card (dom (ht_map h)))"
proof -
  assume ok: "ht_ok hashfn h"
  have "dom (ht_map h) = set (map he_key (concat (ht_table h)))"
    by (auto simp: dom_def ht_map_def pairs_def map_of_eq_None_iff image_image)
  then show ?thesis using ok distinct_card [of "map he_key (concat (ht_table h))"]
    by (simp add: ht_ok_def arg_hashtable_count_def)
qed

section \<open>The table is a map\<close>

interpretation arg_hashtable: map_table "ht_ok hashfn" ht_map "arg_hashtable_insert hashfn" "arg_hashtable_search hashfn (=)"
  "\<lambda>k h. snd (arg_hashtable_remove hashfn (=) k h)" "\<lambda>k v h. snd (snd (arg_hashtable_change hashfn (=) k v h))" arg_hashtable_count
  for hashfn :: "'k \<Rightarrow> 32 word"
  by unfold_locales (simp_all add: insert_ok search_ok remove_ok change_ok count_ok)

lemma find_prime_found: "\<exists>p \<in> set ps. m < p \<Longrightarrow> \<exists>j < length ps. find_prime ps i m = (ps ! j, i + j)"
proof (induction ps arbitrary: i)
  case (Cons p ps)
  show ?case
  proof (cases "m < p")
    case True
    then show ?thesis by (intro exI [of _ 0]) simp
  next
    case False
    then obtain j where "j < length ps" "find_prime ps (i + 1) m = (ps ! j, i + 1 + j)" using Cons.IH [of "i + 1"] Cons.prems by auto
    then show ?thesis using False by (intro exI [of _ "Suc j"]) simp
  qed
qed simp

lemma create_ok:
  assumes "minsize \<le> 2 ^ 30"
  obtains h where "arg_hashtable_create minsize = Some h" "ht_ok hashfn h" "ht_map h = Map.empty"
proof -
  have "1610612741 \<in> set primes" by (simp add: primes_def)
  then have "\<exists>p \<in> set primes. minsize < p" using assms by (intro bexI [of _ 1610612741]) simp_all
  from find_prime_found [OF this, of 0] obtain j where j: "j < length primes" "find_prime primes 0 minsize = (primes ! j, j)" by auto
  let ?h = "\<lparr>ht_table = replicate (primes ! j) [], ht_entrycount = 0, ht_loadlimit = load_limit (primes ! j), ht_primeindex = j\<rparr>"
  have "ht_ok hashfn ?h" using j(1) primes_pos [OF j(1)] by (simp add: ht_ok_def placed_def)
  moreover have "ht_map ?h = Map.empty" by (simp add: ht_map_def)
  moreover have "arg_hashtable_create minsize = Some ?h" using assms j(2) by (simp add: arg_hashtable_create_def)
  ultimately show thesis by (intro that)
qed

text \<open>One operation of a client of the table.\<close>

primrec apply_op :: "('k \<Rightarrow> 32 word) \<Rightarrow> ('k, 'v) table_op \<Rightarrow> ('k, 'v) hashtable \<Rightarrow> ('k, 'v) hashtable" where
  "apply_op hashfn (Insert k v) h = arg_hashtable_insert hashfn k v h"
| "apply_op hashfn (Remove k) h = snd (arg_hashtable_remove hashfn (=) k h)"
| "apply_op hashfn (Change k v) h = snd (snd (arg_hashtable_change hashfn (=) k v h))"

lemma apply_op_step: "apply_op hashfn x h = arg_hashtable.table_step hashfn x h"
  by (cases x) simp_all

text \<open>C8: The hash table is a map: whatever the hash function, after any sequence of insertions of new keys,
removals and changes on a table that was created with a minimum size of at most 2 ^ 30, also past the insertions
that expand the table and past those at which the unsigned count wraps, a search returns what the map built by the
same operations holds for the key, and the count is the number of its keys modulo 2 ^ 32.\<close>

theorem hashtable_refines_map:
  fixes ops :: "('k, 'v) table_op list"
  assumes "minsize \<le> 2 ^ 30" and "fresh_inserts ops Map.empty"
  shows "\<exists>h. arg_hashtable_create minsize = Some h \<and>
    (\<forall>k. arg_hashtable_search hashfn (=) (fold (apply_op hashfn) ops h) k = fold map_step ops Map.empty k) \<and>
    arg_hashtable_count (fold (apply_op hashfn) ops h) = word_of_nat (card (dom (fold map_step ops Map.empty)))"
proof -
  obtain h :: "('k, 'v) hashtable" where h: "arg_hashtable_create minsize = Some h" "ht_ok hashfn h" "ht_map h = Map.empty"
    using create_ok [OF assms(1)] by metis
  have "fold (apply_op hashfn) ops h = fold (arg_hashtable.table_step hashfn) ops h"
    by (rule fold_cong) (auto simp: apply_op_step)
  then show ?thesis
    using h arg_hashtable.observations [OF h(2), of ops] assms(2) by (intro exI [of _ h]) simp
qed

theorem hashtable_refines_map_witness:
  "\<exists>h. arg_hashtable_create 0 = Some h \<and>
    arg_hashtable_search id (=) (fold (apply_op id) [Insert 7 True, Insert 60 False, Change 60 True, Remove 7] h) 60 = Some True"
  using hashtable_refines_map [of 0 "[Insert 7 True, Insert 60 False, Change 60 True, Remove 7]" id] by auto

end
