(* ===== verification/Arg_Registry.thy ===== *)
theory Arg_Registry
  imports Arg_Hash Arg_Dstr Getopt
begin

text \<open>
  The registry of sub-commands of \<open>lib/argtable/argtable3.c\<close>: a hash table from command names to their
  descriptions and procedures.  The names and the descriptions are kept in arrays of a fixed size.  The static
  pointer to the table is explicit: \<open>arg_cmd_uninit\<close> frees the table but leaves the pointer, so every later
  operation on it is undefined until the next \<open>arg_cmd_init\<close>.
\<close>

unbundle bit_operations_syntax

section \<open>State\<close>

definition ARG_CMD_NAME_LEN :: nat where "ARG_CMD_NAME_LEN = 100"
definition ARG_CMD_DESCRIPTION_LEN :: nat where "ARG_CMD_DESCRIPTION_LEN = 256"

record 'p cmd_info =
  ci_name :: string
  ci_description :: string
  ci_proc :: "'p option"

datatype 'p registry = Unset | Table "(string, 'p cmd_info) hashtable" | Dangling

definition the_table :: "'p registry \<Rightarrow> (string, 'p cmd_info) hashtable option" where
  "the_table reg = (case reg of Table h \<Rightarrow> Some h | _ \<Rightarrow> None)"

section \<open>Operations\<close>

definition hash_key :: "string \<Rightarrow> 32 word" where
  "hash_key str = fold (\<lambda>c hash. (push_bit 5 hash + hash) + word_of_int (char_code c)) str 5381"

definition equal_keys :: "string \<Rightarrow> string \<Rightarrow> bool" where
  "equal_keys k1 k2 \<longleftrightarrow> k1 = k2"

definition arg_cmd_init :: "'p registry" where
  "arg_cmd_init = (case arg_hashtable_create 32 of Some h \<Rightarrow> Table h | None \<Rightarrow> Unset)"

definition arg_cmd_uninit :: "'p registry \<Rightarrow> ((string, 'p cmd_info) freed list \<times> 'p registry) option" where
  "arg_cmd_uninit reg = map_option (\<lambda>h. (arg_hashtable_destroy h True, Dangling)) (the_table reg)"

definition arg_cmd_info :: "string \<Rightarrow> 'p registry \<Rightarrow> 'p cmd_info option option" where
  "arg_cmd_info name reg = map_option (\<lambda>h. arg_hashtable_search hash_key equal_keys h name) (the_table reg)"

definition new_cmd_info :: "string \<Rightarrow> 'p option \<Rightarrow> string \<Rightarrow> 'p cmd_info option" where
  "new_cmd_info name proc description = do {
     n \<leftarrow> wr (replicate ARG_CMD_NAME_LEN NUL) 0 name;
     d \<leftarrow> wr (replicate ARG_CMD_DESCRIPTION_LEN NUL) 0 description;
     Some \<lparr>ci_name = n, ci_description = d, ci_proc = proc\<rparr>}"

text \<open>\<open>None\<close> also for a failed assertion.\<close>

definition arg_cmd_register :: "string \<Rightarrow> 'p option \<Rightarrow> string \<Rightarrow> 'p registry \<Rightarrow> 'p registry option" where
  "arg_cmd_register name proc description reg = do {
     _ \<leftarrow> (if length name < ARG_CMD_NAME_LEN \<and> length description < ARG_CMD_DESCRIPTION_LEN then Some () else None);
     h \<leftarrow> the_table reg;
     let h = (case arg_hashtable_search hash_key equal_keys h name of
         Some _ \<Rightarrow> snd (arg_hashtable_remove hash_key equal_keys name h)
       | None \<Rightarrow> h);
     info \<leftarrow> new_cmd_info name proc description;
     Some (Table (arg_hashtable_insert hash_key name info h))}"

definition arg_cmd_unregister :: "string \<Rightarrow> 'p registry \<Rightarrow> 'p registry option" where
  "arg_cmd_unregister name reg = map_option (\<lambda>h. Table (snd (arg_hashtable_remove hash_key equal_keys name h))) (the_table reg)"

text \<open>\<open>call\<close> runs a procedure; \<open>None\<close> when the name or its procedure is missing, which the code asserts.\<close>

definition arg_cmd_dispatch :: "('p \<Rightarrow> string list \<Rightarrow> dstr \<Rightarrow> int \<times> dstr) \<Rightarrow> string \<Rightarrow> string list \<Rightarrow> dstr \<Rightarrow> 'p registry \<Rightarrow>
  (int \<times> dstr) option" where
  "arg_cmd_dispatch call name argv res reg = do {
     info \<leftarrow> arg_cmd_info name reg;
     i \<leftarrow> info;
     p \<leftarrow> ci_proc i;
     Some (call p argv res)}"

definition arg_cmd_count :: "'p registry \<Rightarrow> 32 word option" where
  "arg_cmd_count reg = map_option arg_hashtable_count (the_table reg)"

definition arg_cmd_itr_create :: "'p registry \<Rightarrow> hash_itr option" where
  "arg_cmd_itr_create reg = map_option arg_hashtable_itr_create (the_table reg)"

definition arg_cmd_itr_advance :: "'p registry \<Rightarrow> hash_itr \<Rightarrow> (int \<times> hash_itr) option" where
  "arg_cmd_itr_advance reg itr = map_option (\<lambda>h. arg_hashtable_itr_advance h itr) (the_table reg)"

definition arg_cmd_itr_key :: "'p registry \<Rightarrow> hash_itr \<Rightarrow> string option" where
  "arg_cmd_itr_key reg itr = do { h \<leftarrow> the_table reg; arg_hashtable_itr_key h itr }"

definition arg_cmd_itr_value :: "'p registry \<Rightarrow> hash_itr \<Rightarrow> 'p cmd_info option" where
  "arg_cmd_itr_value reg itr = do { h \<leftarrow> the_table reg; arg_hashtable_itr_value h itr }"

definition arg_cmd_itr_search :: "'p registry \<Rightarrow> hash_itr \<Rightarrow> string \<Rightarrow> (int \<times> hash_itr) option" where
  "arg_cmd_itr_search reg itr k = map_option (\<lambda>h. arg_hashtable_itr_search hash_key equal_keys itr h k) (the_table reg)"

section \<open>A map with replacement\<close>

context map_table
begin

definition replace :: "'k \<Rightarrow> 'v \<Rightarrow> 's \<Rightarrow> 's" where
  "replace k v s = add k v (case find s k of Some _ \<Rightarrow> del k s | None \<Rightarrow> s)"

lemma replace_law: "inv s \<Longrightarrow> inv (replace k v s) \<and> abs (replace k v s) = (abs s)(k \<mapsto> v)"
  using add_law [of "del k s" k v] add_law [of s k v] del_law [of s k] find_law [of s k]
  by (cases "abs s k") (auto simp: replace_def)

end

section \<open>The registry is a map\<close>

datatype 'p registry_op = Register string "'p option" string | Unregister string

primrec registry_step :: "'p registry_op \<Rightarrow> 'p registry \<Rightarrow> 'p registry option" where
  "registry_step (Register name proc description) reg = arg_cmd_register name proc description reg"
| "registry_step (Unregister name) reg = arg_cmd_unregister name reg"

fun registry_steps :: "'p registry_op list \<Rightarrow> 'p registry \<Rightarrow> 'p registry option" where
  "registry_steps [] reg = Some reg"
| "registry_steps (x # xs) reg = Option.bind (registry_step x reg) (registry_steps xs)"

text \<open>The specification: a map from names to descriptions and procedures.\<close>

primrec commands_step :: "'p registry_op \<Rightarrow> (string \<rightharpoonup> string \<times> 'p option) \<Rightarrow> (string \<rightharpoonup> string \<times> 'p option)" where
  "commands_step (Register name proc description) m = m(name \<mapsto> (description, proc))"
| "commands_step (Unregister name) m = m(name := None)"

text \<open>Only the registrations whose texts fit.\<close>

primrec op_fits :: "'p registry_op \<Rightarrow> bool" where
  "op_fits (Register name proc description) \<longleftrightarrow>
     length name < ARG_CMD_NAME_LEN \<and> length description < ARG_CMD_DESCRIPTION_LEN \<and> nul_free description"
| "op_fits (Unregister name) \<longleftrightarrow> True"

definition command_of :: "'p cmd_info \<Rightarrow> string \<times> 'p option" where
  "command_of i = (the (cstr (ci_description i)), ci_proc i)"

definition commands :: "'p registry \<Rightarrow> (string \<rightharpoonup> string \<times> 'p option)" where
  "commands reg = (case the_table reg of Some h \<Rightarrow> map_option command_of \<circ> ht_map h | None \<Rightarrow> Map.empty)"

text \<open>The table is a hash table, and every description in it is terminated.\<close>

definition registry_ok :: "'p registry \<Rightarrow> bool" where
  "registry_ok reg \<longleftrightarrow> (\<exists>h. reg = Table h \<and> ht_ok hash_key h \<and> (\<forall>name i. ht_map h name = Some i \<longrightarrow> NUL \<in> set (ci_description i)))"

lemma equal_keys_eq [simp]: "equal_keys = (=)"
  by (simp add: equal_keys_def fun_eq_iff)

lemma registry_ok_cases:
  assumes "registry_ok reg"
  obtains h where "reg = Table h" "ht_ok hash_key h" "the_table reg = Some h"
    "\<And>name i. ht_map h name = Some i \<Longrightarrow> NUL \<in> set (ci_description i)"
  using assms by (auto simp: registry_ok_def the_table_def)

lemma registry_table [simp]: "the_table (Table h) = Some h"
  "registry_ok (Table h) \<longleftrightarrow> ht_ok hash_key h \<and> (\<forall>name i. ht_map h name = Some i \<longrightarrow> NUL \<in> set (ci_description i))"
  by (simp_all add: the_table_def registry_ok_def)

lemma new_cmd_info_ok:
  assumes "length name < ARG_CMD_NAME_LEN" and "length d < ARG_CMD_DESCRIPTION_LEN" and "nul_free d"
  obtains i where "new_cmd_info name p d = Some i" "command_of i = (d, p)" "NUL \<in> set (ci_description i)"
proof -
  have n: "wr (replicate ARG_CMD_NAME_LEN NUL) 0 name = Some (name @ replicate (ARG_CMD_NAME_LEN - length name) NUL)"
    and dd: "wr (replicate ARG_CMD_DESCRIPTION_LEN NUL) 0 d = Some (d @ replicate (ARG_CMD_DESCRIPTION_LEN - length d) NUL)"
    using assms by (simp_all add: wr_def splice_def)
  then show thesis using that assms by (simp add: new_cmd_info_def command_of_def)
qed

lemma registry_init_ok: "registry_ok (arg_cmd_init :: 'p registry)" "commands (arg_cmd_init :: 'p registry) = Map.empty"
proof -
  obtain h :: "(string, 'p cmd_info) hashtable"
    where "arg_hashtable_create 32 = Some h" "ht_ok hash_key h" "ht_map h = Map.empty"
    by (rule create_ok [of 32 hash_key]) auto
  then show "registry_ok (arg_cmd_init :: 'p registry)" "commands (arg_cmd_init :: 'p registry) = Map.empty"
    by (auto simp: arg_cmd_init_def commands_def)
qed

lemma cmd_register_ok:
  assumes "registry_ok reg" and "op_fits (Register name p d)"
  obtains reg' where "arg_cmd_register name p d reg = Some reg'" "registry_ok reg'"
    "commands reg' = (commands reg)(name \<mapsto> (d, p))"
proof -
  obtain h where h: "reg = Table h" "ht_ok hash_key h" "\<And>name i. ht_map h name = Some i \<Longrightarrow> NUL \<in> set (ci_description i)"
    using assms(1) by (rule registry_ok_cases) blast
  have fits: "length name < ARG_CMD_NAME_LEN" "length d < ARG_CMD_DESCRIPTION_LEN" "nul_free d" using assms(2) by simp_all
  obtain i where i: "new_cmd_info name p d = Some i" "command_of i = (d, p)" "NUL \<in> set (ci_description i)"
    using new_cmd_info_ok [OF fits] .
  have "arg_cmd_register name p d reg = Some (Table (arg_hashtable.replace hash_key name i h))"
    using fits h i unfolding arg_cmd_register_def equal_keys_eq by (simp add: arg_hashtable.replace_def)
  then show thesis
    using that arg_hashtable.replace_law [OF h(2), of name i] h i by (auto simp: commands_def fun_eq_iff)
qed

lemma cmd_unregister_ok:
  assumes "registry_ok reg"
  obtains reg' where "arg_cmd_unregister name reg = Some reg'" "registry_ok reg'" "commands reg' = (commands reg)(name := None)"
proof -
  obtain h where h: "reg = Table h" "ht_ok hash_key h" "\<And>name i. ht_map h name = Some i \<Longrightarrow> NUL \<in> set (ci_description i)"
    using assms by (rule registry_ok_cases) blast
  show thesis
    by (rule that [of "Table (snd (arg_hashtable_remove hash_key (=) name h))"])
      (use h in \<open>auto simp: arg_cmd_unregister_def commands_def fun_eq_iff remove_ok\<close>)
qed

lemma registry_step_ok:
  assumes "registry_ok reg" and "op_fits x"
  obtains reg' where "registry_step x reg = Some reg'" "registry_ok reg'" "commands reg' = commands_step x (commands reg)"
  using assms by (cases x) (metis cmd_register_ok registry_step.simps(1) commands_step.simps(1),
    metis cmd_unregister_ok registry_step.simps(2) commands_step.simps(2))

lemma registry_steps_ok:
  "registry_ok reg \<Longrightarrow> list_all op_fits xs \<Longrightarrow>
   \<exists>reg'. registry_steps xs reg = Some reg' \<and> registry_ok reg' \<and> commands reg' = fold commands_step xs (commands reg)"
proof (induction xs arbitrary: reg)
  case (Cons x xs)
  then obtain reg' where "registry_step x reg = Some reg'" "registry_ok reg'" "commands reg' = commands_step x (commands reg)"
    using registry_step_ok by (metis list.pred_inject(2))
  then show ?case using Cons.IH [of reg'] Cons.prems(2) by auto
qed simp

lemma cmd_dispatch_ok:
  assumes "registry_ok reg"
  shows "arg_cmd_dispatch call name argv res reg =
    (case commands reg name of Some (d, Some p) \<Rightarrow> Some (call p argv res) | _ \<Rightarrow> None)"
  using assms
  by (elim registry_ok_cases)
    (auto simp: arg_cmd_dispatch_def arg_cmd_info_def commands_def command_of_def search_ok split: option.splits)

lemma cmd_count_ok:
  assumes "registry_ok reg"
  shows "arg_cmd_count reg = Some (word_of_nat (card (dom (commands reg))))"
proof -
  obtain h where h: "reg = Table h" "ht_ok hash_key h" using assms by (rule registry_ok_cases)
  have "dom (commands reg) = dom (ht_map h)" by (auto simp: commands_def h)
  then show ?thesis using h count_ok [OF h(2)] by (simp add: arg_cmd_count_def)
qed

text \<open>C13: The registry of sub-commands is a map: after any sequence of registrations, whose names and descriptions
fit, and removals on an initialised registry, also of names registered before, a dispatch runs the procedure that was
registered last for the name and fails its assertion exactly when there is none, and the count, an unsigned 32-bit
integer, is the number of registered names modulo 2 ^ 32.\<close>

theorem registry_refines_map:
  fixes ops :: "'p registry_op list"
  assumes "list_all op_fits ops"
  shows "\<exists>reg. registry_steps ops arg_cmd_init = Some reg \<and>
    (\<forall>call name argv res. arg_cmd_dispatch call name argv res reg =
       (case fold commands_step ops Map.empty name of Some (d, Some p) \<Rightarrow> Some (call p argv res) | _ \<Rightarrow> None)) \<and>
    arg_cmd_count reg = Some (word_of_nat (card (dom (fold commands_step ops Map.empty))))"
  using registry_steps_ok [OF registry_init_ok(1) assms] by (auto simp: registry_init_ok(2) cmd_dispatch_ok cmd_count_ok)

theorem registry_refines_map_witness:
  "\<exists>reg. registry_steps [Register ''run'' (Some 1) ''a'', Register ''stop'' (Some 2) ''b'', Register ''run'' (Some 3) ''c'',
      Unregister ''stop''] arg_cmd_init = Some reg \<and>
    arg_cmd_dispatch (\<lambda>p argv res. (p + int (length argv), res)) ''run'' [''run''] arg_dstr_create reg = Some (4, arg_dstr_create) \<and>
    arg_cmd_dispatch (\<lambda>p argv res. (p, res)) ''stop'' [''stop''] arg_dstr_create reg = None"
proof -
  have "list_all op_fits [Register ''run'' (Some 1) ''a'', Register ''stop'' (Some (2 :: int)) ''b'',
      Register ''run'' (Some 3) ''c'', Unregister ''stop'']"
    by (simp add: ARG_CMD_NAME_LEN_def ARG_CMD_DESCRIPTION_LEN_def nul_free_def)
  from registry_refines_map [OF this] show ?thesis by auto
qed

text \<open>After \<open>arg_cmd_uninit\<close> the pointer dangles: nothing but a new initialisation is defined.\<close>

lemma uninit_dangles:
  assumes "arg_cmd_uninit reg = Some (fr, reg')"
  shows "arg_cmd_register name p d reg' = None" and "arg_cmd_info name reg' = None" and "arg_cmd_uninit reg' = None"
  using assms by (auto simp: arg_cmd_uninit_def arg_cmd_register_def arg_cmd_info_def the_table_def bind_eq_None_conv)

end
