(* ===== verification/Arg_Messages.thy ===== *)
theory Arg_Messages
  imports Arg_Output Arg_Registry
begin

text \<open>
  The help and error messages of a program with sub-commands, in \<open>lib/argtable/argtable3.c\<close>: the name and the
  version of the module, which are static variables of the library, and the texts that are composed from them, the
  registry of sub-commands and an argument table.
\<close>

section \<open>The module\<close>

record arg_module =
  s_module_name :: "string option"
  s_mod_ver_major :: int
  s_mod_ver_minor :: int
  s_mod_ver_patch :: int
  s_mod_ver_tag :: "string option"
  s_mod_ver :: "string option"

definition initial_module :: arg_module where
  "initial_module = \<lparr>s_module_name = None, s_mod_ver_major = 0, s_mod_ver_minor = 0, s_mod_ver_patch = 0,
     s_mod_ver_tag = None, s_mod_ver = None\<rparr>"

definition arg_set_module_name :: "string \<Rightarrow> arg_module \<Rightarrow> arg_module" where
  "arg_set_module_name name m = m\<lparr>s_module_name := Some name\<rparr>"

definition arg_set_module_version :: "int \<Rightarrow> int \<Rightarrow> int \<Rightarrow> string \<Rightarrow> arg_module \<Rightarrow> arg_module option" where
  "arg_set_module_version major minor patch tag m = do {
     let m = m\<lparr>s_mod_ver_major := major, s_mod_ver_minor := minor, s_mod_ver_patch := patch, s_mod_ver_tag := Some tag\<rparr>;
     ds \<leftarrow> arg_dstr_catf ''%d.'' [F_int (s_mod_ver_major m)] arg_dstr_create;
     ds \<leftarrow> arg_dstr_catf ''%d.'' [F_int (s_mod_ver_minor m)] ds;
     ds \<leftarrow> arg_dstr_catf ''%d.'' [F_int (s_mod_ver_patch m)] ds;
     ds \<leftarrow> arg_dstr_cat tag ds;
     ver \<leftarrow> arg_dstr_cstr ds;
     Some (m\<lparr>s_mod_ver := Some ver\<rparr>)}"

definition shown_name :: "arg_module \<Rightarrow> string" where
  "shown_name m = (case s_module_name m of None \<Rightarrow> ''<name>'' | Some s \<Rightarrow> if length s = 0 then ''<name>'' else s)"

definition shown_version :: "arg_module \<Rightarrow> string" where
  "shown_version m = (case s_mod_ver m of None \<Rightarrow> ''0.0.0.0'' | Some s \<Rightarrow> if length s = 0 then ''0.0.0.0'' else s)"

section \<open>Messages\<close>

abbreviation QUOTE :: string where "QUOTE \<equiv> [CHR 0x27]"

definition arg_make_get_help_msg :: "arg_module \<Rightarrow> dstr \<Rightarrow> dstr option" where
  "arg_make_get_help_msg m ds = do {
     ds \<leftarrow> arg_dstr_catf (''%s v%s'' @ newline) [F_str (shown_name m), F_str (shown_version m)] ds;
     arg_dstr_catf (''Please type '' @ QUOTE @ ''%s help'' @ QUOTE @ '' to get more information.'' @ newline) [F_str (shown_name m)] ds}"

definition arg_make_help_msg :: "'p registry \<Rightarrow> arg_module \<Rightarrow> string \<Rightarrow> arg_hdr list \<Rightarrow> dstr \<Rightarrow> dstr option" where
  "arg_make_help_msg reg m cmd_name argtable ds = do {
     info \<leftarrow> arg_cmd_info cmd_name reg;
     ds \<leftarrow> (case info of
         Some i \<Rightarrow> do {
           d \<leftarrow> cstr (ci_description i);
           arg_dstr_catf (''%s: %s'' @ newline) [F_str cmd_name, F_str d] ds}
       | None \<Rightarrow> Some ds);
     ds \<leftarrow> arg_dstr_cat (''Usage:'' @ newline) ds;
     ds \<leftarrow> arg_dstr_catf ''  %s'' [F_str (shown_name m)] ds;
     ds \<leftarrow> arg_print_syntaxv_ds argtable (Some (newline @ '' '' @ newline @ ''Available options:'' @ newline)) ds;
     ds \<leftarrow> arg_print_glossary_ds argtable (Some (''  %-23s %s'' @ newline)) ds;
     arg_dstr_cat newline ds}"

definition arg_make_syntax_err_msg :: "arg_module \<Rightarrow> arg_table \<Rightarrow> nat \<Rightarrow> dstr \<Rightarrow> dstr option" where
  "arg_make_syntax_err_msg m argtable end_index ds = do {
     ds \<leftarrow> arg_print_errors_ds end_index argtable (shown_name m) ds;
     ds \<leftarrow> arg_dstr_cat (''Usage: '' @ newline) ds;
     ds \<leftarrow> arg_dstr_catf ''  %s'' [F_str (shown_name m)] ds;
     ds \<leftarrow> arg_print_syntaxv_ds (map entry_hdr argtable) (Some newline) ds;
     arg_dstr_cat newline ds}"

text \<open>The result and \<open>*exitcode\<close>, which is only set when the result is 1.\<close>

definition arg_make_syntax_err_help_msg :: "'p registry \<Rightarrow> arg_module \<Rightarrow> string \<Rightarrow> int \<Rightarrow> int \<Rightarrow> arg_table \<Rightarrow> nat \<Rightarrow> int \<Rightarrow> dstr \<Rightarrow>
  (int \<times> int \<times> dstr) option" where
  "arg_make_syntax_err_help_msg reg m name help nerrors argtable end_index exitcode ds =
     (if 0 < help then do {
        ds \<leftarrow> arg_make_help_msg reg m name (map entry_hdr argtable) ds;
        Some (1, 0, ds)}
      else if 0 < nerrors then do {
        ds \<leftarrow> arg_make_syntax_err_msg m argtable end_index ds;
        Some (1, 1, ds)}
      else Some (0, exitcode, ds))"

section \<open>The texts\<close>

definition command_line_text :: "'p registry \<Rightarrow> string \<Rightarrow> string" where
  "command_line_text reg name = (case commands reg name of Some (d, p) \<Rightarrow> name @ '': '' @ d @ newline | None \<Rightarrow> [])"

definition help_msg_text :: "'p registry \<Rightarrow> arg_module \<Rightarrow> string \<Rightarrow> arg_hdr list \<Rightarrow> string" where
  "help_msg_text reg m name argtable =
     command_line_text reg name @ (''Usage:'' @ newline) @ (''  '' @ shown_name m) @
     (usagev_text argtable @ (newline @ '' '' @ newline @ ''Available options:'' @ newline)) @
     glossary_text (''  %-23s %s'' @ newline) argtable @ newline"

definition err_msg_text :: "arg_module \<Rightarrow> arg_table \<Rightarrow> nat \<Rightarrow> string" where
  "err_msg_text m argtable end_index =
     errors_text end_index argtable (shown_name m) @ (''Usage: '' @ newline) @ (''  '' @ shown_name m) @
     (usagev_text (map entry_hdr argtable) @ newline) @ newline"

definition module_ok :: "arg_module \<Rightarrow> bool" where
  "module_ok m \<longleftrightarrow> opt_nul_free (s_module_name m) \<and> opt_nul_free (s_mod_ver m)"

lemma module_texts: "module_ok m \<Longrightarrow> nul_free (shown_name m) \<and> nul_free (shown_version m)"
  by (auto simp: module_ok_def shown_name_def shown_version_def opt_nul_free_def split: option.splits)

lemma message_formats:
  "c_format (''%s: %s'' @ newline) [F_str s, F_str t] = Some (s @ '': '' @ t @ newline)"
  "c_format ''  %s'' [F_str s] = Some (''  '' @ s)"
  "c_format (''%s v%s'' @ newline) [F_str s, F_str t] = Some (s @ '' v'' @ t @ newline)"
  "c_format (''Please type '' @ QUOTE @ ''%s help'' @ QUOTE @ '' to get more information.'' @ newline) [F_str s] =
     Some (''Please type '' @ QUOTE @ s @ '' help'' @ QUOTE @ '' to get more information.'' @ newline)"
  "c_format ''%d.'' [F_int i] = Some (show_int i @ ''.'')"
  by (simp_all add: format_eval newline_def)

lemma writes_syntaxv_ds:
  assumes "table_printable t" and "nul_free sfx"
  shows "dstr.writes (arg_print_syntaxv_ds t (Some sfx)) (usagev_text t @ sfx)"
  using dstr.writes_seq [OF writes_syntaxv [OF assms(1)] dstr.writes_put [OF assms(2)]]
  by (simp add: arg_print_syntaxv_ds_def [abs_def])

lemma writes_name: "nul_free s \<Longrightarrow> dstr.writes (arg_dstr_catf ''  %s'' [F_str s]) (''  '' @ s)"
  by (rule writes_catf [OF message_formats(2)]) simp

lemma writes_usage: "dstr.writes (arg_dstr_cat (''Usage:'' @ newline)) (''Usage:'' @ newline)"
  "dstr.writes (arg_dstr_cat (''Usage: '' @ newline)) (''Usage: '' @ newline)"
  "dstr.writes (arg_dstr_cat newline) newline"
  by (rule dstr.writes_put, simp)+

lemma writes_command_line:
  assumes "registry_ok reg" and "nul_free name"
  obtains info where "arg_cmd_info name reg = Some info"
    "dstr.writes (\<lambda>ds. case info of
         Some i \<Rightarrow> do { d \<leftarrow> cstr (ci_description i); arg_dstr_catf (''%s: %s'' @ newline) [F_str name, F_str d] ds }
       | None \<Rightarrow> Some ds) (command_line_text reg name)"
proof -
  obtain h where h: "reg = Table h" "ht_ok hash_key h" "\<And>name i. ht_map h name = Some i \<Longrightarrow> NUL \<in> set (ci_description i)"
    using assms(1) by (rule registry_ok_cases) blast
  have i: "arg_cmd_info name reg = Some (ht_map h name)"
    using search_ok [OF h(2)] by (simp add: arg_cmd_info_def h(1))
  show thesis
  proof (cases "ht_map h name")
    case None
    then show thesis using that [of None] i dstr.writes_none by (simp add: command_line_text_def commands_def h(1) dstr.writes_def)
  next
    case (Some x)
    then obtain d where d: "cstr (ci_description x) = Some d" using h(3) by (auto simp: cstr_def)
    have "dstr.writes (arg_dstr_catf (''%s: %s'' @ newline) [F_str name, F_str d]) (name @ '': '' @ d @ newline)"
      by (rule writes_catf [OF message_formats(1)]) (use assms(2) cstr_nul_free [OF d] in simp)
    then show thesis using that [of "Some x"] i Some d by (simp add: command_line_text_def commands_def h(1) command_of_def)
  qed
qed

lemma writes_help_msg:
  assumes "registry_ok reg" and "module_ok m" and "nul_free name" and "table_printable t"
  shows "dstr.writes (arg_make_help_msg reg m name t) (help_msg_text reg m name t)"
proof -
  obtain info where i: "arg_cmd_info name reg = Some info"
    "dstr.writes (\<lambda>ds. case info of
         Some i \<Rightarrow> do { d \<leftarrow> cstr (ci_description i); arg_dstr_catf (''%s: %s'' @ newline) [F_str name, F_str d] ds }
       | None \<Rightarrow> Some ds) (command_line_text reg name)" by (rule writes_command_line [OF assms(1,3)])
  have f: "c_format (''  %-23s %s'' @ newline) [F_str s, F_str g] \<noteq> None" for s g by (simp add: format_eval newline_def)
  have g: "dstr.writes (arg_print_glossary_ds t (Some (''  %-23s %s'' @ newline))) (glossary_text (''  %-23s %s'' @ newline) t)"
    using writes_glossary [OF f assms(4)] by (simp add: arg_print_glossary_ds_def [abs_def])
  have sfx: "nul_free (newline @ '' '' @ newline @ ''Available options:'' @ newline)" by simp
  have n: "nul_free (shown_name m)" using module_texts [OF assms(2)] by simp
  have "dstr.writes (\<lambda>ds. Option.bind (arg_dstr_cat (''Usage:'' @ newline) ds) (\<lambda>ds. Option.bind (arg_dstr_catf ''  %s'' [F_str (shown_name m)] ds)
      (\<lambda>ds. Option.bind (arg_print_syntaxv_ds t (Some (newline @ '' '' @ newline @ ''Available options:'' @ newline)) ds)
      (\<lambda>ds. Option.bind (arg_print_glossary_ds t (Some (''  %-23s %s'' @ newline)) ds) (arg_dstr_cat newline)))))
    ((''Usage:'' @ newline) @ (''  '' @ shown_name m) @ (usagev_text t @ (newline @ '' '' @ newline @ ''Available options:'' @ newline)) @
      glossary_text (''  %-23s %s'' @ newline) t @ newline)"
    by (rule dstr.writes_seq [OF writes_usage(1) dstr.writes_seq [OF writes_name [OF n]
      dstr.writes_seq [OF writes_syntaxv_ds [OF assms(4) sfx] dstr.writes_seq [OF g writes_usage(3)]]]])
  from dstr.writes_seq [OF i(2) this] show ?thesis
    by (rule dstr.writes_cong) (simp_all add: help_msg_text_def arg_make_help_msg_def [abs_def] i(1))
qed

lemma writes_err_msg:
  assumes "module_ok m" and "printable n t" and "table_printable (map entry_hdr t)"
  shows "dstr.writes (arg_make_syntax_err_msg m t n) (err_msg_text m t n)"
proof -
  have n: "nul_free (shown_name m)" using module_texts [OF assms(1)] by simp
  from dstr.writes_seq [OF writes_errors [OF assms(2) n] dstr.writes_seq [OF writes_usage(2) dstr.writes_seq [OF writes_name [OF n]
      dstr.writes_seq [OF writes_syntaxv_ds [OF assms(3) newline_nul_free] writes_usage(3)]]]]
  show ?thesis by (rule dstr.writes_cong) (simp_all add: err_msg_text_def arg_make_syntax_err_msg_def [abs_def])
qed

section \<open>Help comes before errors\<close>

text \<open>Both messages as texts appended to the growing string.\<close>

lemma writes_appends:
  "dstr.writes f t \<Longrightarrow> dstr_ok ds \<Longrightarrow> \<exists>ds'. f ds = Some ds' \<and> dstr_ok ds' \<and> arg_dstr_cstr ds' = Some (dstr_text ds @ t)"
  unfolding dstr.writes_def using cstr_total by metis

lemma get_help_msg:
  assumes "module_ok m"
  shows "dstr.writes (arg_make_get_help_msg m) ((shown_name m @ '' v'' @ shown_version m @ newline) @
    (''Please type '' @ QUOTE @ shown_name m @ '' help'' @ QUOTE @ '' to get more information.'' @ newline))"
proof -
  note n = module_texts [OF assms]
  have 1: "dstr.writes (arg_dstr_catf (''%s v%s'' @ newline) [F_str (shown_name m), F_str (shown_version m)])
      (shown_name m @ '' v'' @ shown_version m @ newline)"
    by (rule writes_catf [OF message_formats(3)]) (use n in simp)
  have 2: "dstr.writes (arg_dstr_catf (''Please type '' @ QUOTE @ ''%s help'' @ QUOTE @ '' to get more information.'' @ newline) [F_str (shown_name m)])
      (''Please type '' @ QUOTE @ shown_name m @ '' help'' @ QUOTE @ '' to get more information.'' @ newline)"
    by (rule writes_catf [OF message_formats(4)]) (use n in simp)
  from dstr.writes_seq [OF 1 2] show ?thesis by (simp only: arg_make_get_help_msg_def [abs_def])
qed

lemma show_int_nul_free: "nul_free (show_int i)"
proof -
  have "nul_free (show_nat n)" for n
  proof (unfold nul_free_def, rule notI)
    assume "NUL \<in> set (show_nat n)"
    then obtain d where d: "d < 10" "NUL = digit_char d" using show_nat_digits by blast
    have "digit_char d \<noteq> NUL" using digit_char_not [OF d(1), of NUL] by simp
    then show False using d(2) by metis
  qed
  then show ?thesis by (simp add: show_int_def)
qed

lemma set_version:
  assumes "nul_free tag"
  shows "\<exists>m'. arg_set_module_version major minor patch tag m = Some m' \<and> s_module_name m' = s_module_name m \<and>
    s_mod_ver m' = Some (show_int major @ ''.'' @ show_int minor @ ''.'' @ show_int patch @ ''.'' @ tag)"
proof -
  have c: "dstr.writes (arg_dstr_catf ''%d.'' [F_int i]) (show_int i @ ''.'')" for i
    by (rule writes_catf [OF message_formats(5)]) (simp add: show_int_nul_free)
  have "dstr.writes (\<lambda>ds. Option.bind (arg_dstr_catf ''%d.'' [F_int major] ds) (\<lambda>ds. Option.bind (arg_dstr_catf ''%d.'' [F_int minor] ds)
      (\<lambda>ds. Option.bind (arg_dstr_catf ''%d.'' [F_int patch] ds) (arg_dstr_cat tag))))
    ((show_int major @ ''.'') @ (show_int minor @ ''.'') @ (show_int patch @ ''.'') @ tag)"
    by (rule dstr.writes_seq [OF c dstr.writes_seq [OF c dstr.writes_seq [OF c dstr.writes_put [OF assms]]]])
  from writes_appends [OF this dstr_created(1)] show ?thesis
    by (auto simp: arg_set_module_version_def Let_def dstr_created(2) bind_eq_Some_conv)
qed

section \<open>Help comes before errors\<close>

text \<open>C18: When a sub-command asks for its help or error message, help comes before errors: with --help given, also among
errors, the help text of the command is appended and the exit code is that of success; with errors only, the errors and
the usage line are appended and the exit code is that of failure; otherwise nothing is appended and the exit code stays.\<close>

theorem help_before_errors:
  assumes "registry_ok reg" and "module_ok m" and "nul_free name" and "dstr_ok ds"
    and "table_printable (map entry_hdr argtable)" and "printable n argtable"
  shows "\<exists>ds'. arg_make_syntax_err_help_msg reg m name help nerrors argtable n exitcode ds =
      Some (if 0 < help \<or> 0 < nerrors then 1 else 0, if 0 < help then 0 else if 0 < nerrors then 1 else exitcode, ds') \<and>
    arg_dstr_cstr ds' = Some (dstr_text ds @ (if 0 < help then help_msg_text reg m name (map entry_hdr argtable)
      else if 0 < nerrors then err_msg_text m argtable n else []))"
  using writes_appends [OF writes_help_msg [OF assms(1,2,3,5)] assms(4)]
    writes_appends [OF writes_err_msg [OF assms(2,6,5)] assms(4)] cstr_total [OF assms(4)]
  by (cases "0 < help"; cases "0 < nerrors") (auto simp: arg_make_syntax_err_help_msg_def)

text \<open>A table with one error, for a program that has a sub-command.\<close>

definition one_error_table :: arg_table where
  "one_error_table = [E_str (arg_strn None (Some ''file'') (Some ''<path>'') 1 1 (Some ''the file'')),
     E_end ((arg_end 2)\<lparr>end_count := 1, end_error := [Some \<lparr>err_code = ARG_ERR_MINCOUNT, err_parent = 0, err_argval = None\<rparr>, None]\<rparr>)]"

lemma one_error_list:
  "table_end_errors 1 one_error_table = [\<lparr>err_code = ARG_ERR_MINCOUNT, err_parent = 0, err_argval = None\<rparr>]"
  by (simp add: table_end_errors_def get_end_def elem_def one_error_table_def)

lemma one_error_table_ok: "table_printable (map entry_hdr one_error_table)" "printable 1 one_error_table"
proof -
  have flags: "has_flag (entry_hdr (one_error_table ! 1)) ARG_TERMINATOR" "\<not> has_flag (entry_hdr (one_error_table ! 0)) ARG_TERMINATOR"
    by (simp_all add: one_error_table_def arg_end_def arg_strn_def has_flag_def ARG_TERMINATOR_def ARG_HASVALUE_def)
  have h: "hdr_ok (entry_hdr (one_error_table ! 0))" "hdr_ok (entry_hdr (one_error_table ! 1))"
    by (simp_all add: one_error_table_def hdr_ok_def opt_nul_free_def arg_strn_def arg_end_def)
  have hs: "map entry_hdr one_error_table = [entry_hdr (one_error_table ! 0), entry_hdr (one_error_table ! 1)]"
    by (simp add: one_error_table_def)
  have "hdr_shortopts (entry_hdr (one_error_table ! 0)) = None" by (simp add: one_error_table_def arg_strn_def)
  then show "table_printable (map entry_hdr one_error_table)"
    unfolding hs table_printable_def body_Cons using flags h by simp
  have "wf_table 1 one_error_table"
    by (simp add: wf_table_def one_error_table_def wf_end_def arg_end_def arg_strn_def
        wf_str_def opts_ok_def foolproof_def)
  moreover note one_error_list
  moreover have "hdr_ok (entry_hdr (one_error_table ! i))" if "i \<le> 1" for i
    using h that by (cases "i = 0") (simp_all add: le_Suc_eq)
  ultimately show "printable 1 one_error_table" by (simp add: printable_def opt_nul_free_def)
qed

text \<open>The message about it for \<open>prog\<close>.\<close>

lemma one_error_text:
  "err_msg_text (arg_set_module_name ''prog'' initial_module) one_error_table 1 =
    ''prog: missing option --file=<path>'' @ newline @ ''Usage: '' @ newline @ ''  prog --file=<path>'' @ newline @ newline"
proof -
  let ?h = "entry_hdr (one_error_table ! 0)"
  have tag: "tag_of ''file'' = ''file''" "dropWhile (\<lambda>c. c \<noteq> CHR '','') ''file'' = []" by (simp_all add: tag_of_def)
  have tv: "optionv_text None (Some ''file'') (Some ''<path>'') False ''|'' = ''--file=<path>''"
    by (simp add: optionv_text_def longs_text.simps tag datatype_text_def)
  have o: "shown_option None (Some ''file'') (Some ''<path>'') = ''--file=<path>''"
    unfolding tv [symmetric] by (rule shown_option_short) (simp_all add: opt_nul_free_def tv)
  have "hdr_textv ?h ''|'' = ''--file=<path>''"
    by (simp add: hdr_textv_def one_error_table_def arg_strn_def tv has_flag_def ARG_HASOPTVALUE_def ARG_HASVALUE_def)
  moreover have "nul_free ''|''" "hdr_ok ?h" by (simp_all add: one_error_table_def hdr_ok_def opt_nul_free_def arg_strn_def)
  ultimately have v: "optionv_syntax ?h ''|'' = Some ''--file=<path>''" using optionv_syntax_ok by fastforce
  have "body (map entry_hdr one_error_table) = [?h]"
    by (simp add: one_error_table_def body_Cons arg_end_def arg_strn_def has_flag_def ARG_TERMINATOR_def ARG_HASVALUE_def)
  moreover have "instances ?h s = ['' '', s]" for s
    by (simp add: instances_def one_error_table_def arg_strn_def foolproof_def)
  ultimately have u: "usagev_text (map entry_hdr one_error_table) = '' --file=<path>''" by (simp add: usagev_text_def v)
  have "errors_text 1 one_error_table p = p @ '': missing option --file=<path>'' @ newline" for p
  proof -
    have "errors_text 1 one_error_table p = error_text (one_error_table ! 0) ARG_ERR_MINCOUNT None p"
      unfolding errors_text_def one_error_list by simp
    also have "\<dots> = p @ '': missing option --file=<path>'' @ newline"
      by (simp add: one_error_table_def value_message_def arg_strn_def o)
    finally show ?thesis .
  qed
  then show ?thesis by (simp add: err_msg_text_def u shown_name_def arg_set_module_name_def)
qed

theorem help_before_errors_witness:
  "\<exists>reg ds'. registry_steps [Register ''run'' (Some (0 :: nat)) ''runs it''] arg_cmd_init = Some reg \<and>
    arg_make_syntax_err_help_msg reg (arg_set_module_name ''prog'' initial_module) ''run'' 0 1 one_error_table 1 7 arg_dstr_create = Some (1, 1, ds') \<and>
    arg_dstr_cstr ds' = Some (''prog: missing option --file=<path>'' @ newline @ ''Usage: '' @ newline @ ''  prog --file=<path>'' @ newline @ newline)"
proof -
  have "list_all op_fits [Register ''run'' (Some (0 :: nat)) ''runs it'']"
    by (simp add: ARG_CMD_NAME_LEN_def ARG_CMD_DESCRIPTION_LEN_def)
  from registry_steps_ok [OF registry_init_ok(1) this] obtain reg
    where reg: "registry_steps [Register ''run'' (Some (0 :: nat)) ''runs it''] arg_cmd_init = Some reg" "registry_ok reg" by blast
  have m: "module_ok (arg_set_module_name ''prog'' initial_module)"
    by (simp add: module_ok_def arg_set_module_name_def initial_module_def opt_nul_free_def)
  have "nul_free ''run''" by simp
  from help_before_errors [OF reg(2) m this dstr_created(1) one_error_table_ok, of 0 1 7]
  show ?thesis using reg(1) by (auto simp: one_error_text [simplified] dstr_created(2))
qed

end
