(* ===== verification/Arg_Sort.thy ===== *)
theory Arg_Sort
  imports Prelude
begin

text \<open>
  The merge sort of \<open>lib/argtable/argtable3.c\<close>.  An array of elements of \<open>esize\<close> bytes is a list of
  elements.  Indexes and offsets are of type \<open>int\<close>: every one that the code computes is checked by \<open>c_int\<close>, and an
  overflow is \<open>None\<close>, as is reading outside the array.
\<close>

section \<open>The code\<close>

definition c_int :: "int \<Rightarrow> int option" where
  "c_int n = (if - (2 ^ 31) \<le> n \<and> n < 2 ^ 31 then Some n else None)"

text \<open>Division by 2 rounds towards zero.\<close>

definition c_half :: "int \<Rightarrow> int" where
  "c_half n = (if 0 \<le> n then n div 2 else - (- n div 2))"

text \<open>\<open>a[i * esize]\<close>\<close>

definition element :: "int \<Rightarrow> 'a list \<Rightarrow> int \<Rightarrow> 'a option" where
  "element esize a i = do {
     _ \<leftarrow> c_int (i * esize);
     if 0 \<le> i \<and> i < int (length a) then Some (a ! nat i) else None}"

text \<open>\<open>memcpy(&m[mpos * esize], ..., esize)\<close> and \<open>mpos++\<close>, where \<open>mpos\<close> is the length of \<open>m\<close>.\<close>

definition append_element :: "int \<Rightarrow> 'a \<Rightarrow> 'a list \<Rightarrow> 'a list option" where
  "append_element esize x m = do {
     _ \<leftarrow> c_int (int (length m) * esize);
     _ \<leftarrow> c_int (int (length m) + 1);
     Some (m @ [x])}"

text \<open>The rest of one segment is copied.\<close>

function copy_run :: "int \<Rightarrow> 'a list \<Rightarrow> int \<Rightarrow> int \<Rightarrow> 'a list \<Rightarrow> 'a list option" where
  "copy_run esize a pos stop m =
     (if pos \<le> stop then do {
        x \<leftarrow> element esize a pos;
        m \<leftarrow> append_element esize x m;
        _ \<leftarrow> c_int (pos + 1);
        copy_run esize a (pos + 1) stop m}
      else Some m)"
  by pat_completeness auto
termination by (relation "measure (\<lambda>(esize, a, pos, stop, m). nat (stop + 1 - pos))") auto

declare copy_run.simps [simp del]

text \<open>The elements of the two runs that are left; after either inner loop both runs are used up.\<close>

function merge_loop :: "int \<Rightarrow> ('a \<Rightarrow> 'a \<Rightarrow> int) \<Rightarrow> 'a list \<Rightarrow> int \<Rightarrow> int \<Rightarrow> int \<Rightarrow> int \<Rightarrow> 'a list \<Rightarrow> 'a list option" where
  "merge_loop esize comparefn a ipos j jpos k m =
     (if ipos \<le> j \<or> jpos \<le> k then
        if j < ipos then copy_run esize a jpos k m
        else if k < jpos then copy_run esize a ipos j m
        else do {
          x \<leftarrow> element esize a ipos;
          y \<leftarrow> element esize a jpos;
          if comparefn x y < 0 then do {
            m \<leftarrow> append_element esize x m;
            _ \<leftarrow> c_int (ipos + 1);
            merge_loop esize comparefn a (ipos + 1) j jpos k m}
          else do {
            m \<leftarrow> append_element esize y m;
            _ \<leftarrow> c_int (jpos + 1);
            merge_loop esize comparefn a ipos j (jpos + 1) k m}}
      else Some m)"
  by pat_completeness auto
termination by (relation "measure (\<lambda>(esize, comparefn, a, ipos, j, jpos, k, m). nat (j + 1 - ipos) + nat (k + 1 - jpos))") auto

declare merge_loop.simps [simp del]

definition merge :: "int \<Rightarrow> 'a list \<Rightarrow> int \<Rightarrow> int \<Rightarrow> int \<Rightarrow> ('a \<Rightarrow> 'a \<Rightarrow> int) \<Rightarrow> 'a list option" where
  "merge esize a i j k comparefn = do {
     jpos \<leftarrow> c_int (j + 1);
     d \<leftarrow> c_int (k - i);
     n \<leftarrow> c_int (d + 1);
     _ \<leftarrow> c_int (esize * n);
     m \<leftarrow> merge_loop esize comparefn a i j jpos k [];
     _ \<leftarrow> c_int (i * esize);
     wr a (nat i) m}"

function arg_mgsort :: "int \<Rightarrow> 'a list \<Rightarrow> int \<Rightarrow> int \<Rightarrow> ('a \<Rightarrow> 'a \<Rightarrow> int) \<Rightarrow> 'a list option" where
  "arg_mgsort esize a i k comparefn =
     (if i < k then do {
        _ \<leftarrow> c_int (i + k);
        _ \<leftarrow> c_int (i + k - 1);
        let j = c_half (i + k - 1);
        a \<leftarrow> arg_mgsort esize a i j comparefn;
        _ \<leftarrow> c_int (j + 1);
        a \<leftarrow> arg_mgsort esize a (j + 1) k comparefn;
        merge esize a i j k comparefn}
      else Some a)"
  by pat_completeness auto
termination
  by (relation "measure (\<lambda>(esize, a, i, k, comparefn). nat (k - i))") (auto simp: c_half_def)

declare arg_mgsort.simps [simp del]

section \<open>Offsets within an int\<close>

definition sized :: "int \<Rightarrow> 'a list \<Rightarrow> bool" where
  "sized esize a \<longleftrightarrow> 0 < esize \<and> int (length a) * esize < 2 ^ 31"

lemma c_int_simps [simp]: "0 \<le> n \<Longrightarrow> n < 2147483648 \<Longrightarrow> c_int n = Some n"
  by (simp add: c_int_def)

lemma sized_offset:
  assumes "sized esize a" and "0 \<le> i" and "i \<le> int (length a)"
  shows "c_int (i * esize) = Some (i * esize)" "c_int (esize * i) = Some (esize * i)" "i < 2147483648"
proof -
  have e: "0 < esize" "int (length a) * esize < 2147483648" using assms(1) by (simp_all add: sized_def)
  have "i * esize \<le> int (length a) * esize" using assms(3) e(1) by (intro mult_right_mono) simp_all
  moreover have "0 \<le> i * esize" using assms(2) e(1) by simp
  ultimately show c: "c_int (i * esize) = Some (i * esize)" using e(2) by (intro c_int_simps) linarith+
  show "c_int (esize * i) = Some (esize * i)" using c by (simp add: mult.commute)
  have "i * 1 \<le> i * esize" using assms(2) e(1) by (intro mult_left_mono) simp_all
  then show "i < 2147483648" using \<open>i * esize \<le> int (length a) * esize\<close> e(2) by simp
qed

lemma append_element_ok: "sized esize a \<Longrightarrow> length m < length a \<Longrightarrow> append_element esize x m = Some (m @ [x])"
  using sized_offset [of esize a "int (length m)"] sized_offset(3) [of esize a "int (length m) + 1"]
  by (simp add: append_element_def)

section \<open>Merging two runs\<close>

text \<open>The same on lists; of two equal elements the one of the right segment is taken first.\<close>

fun merge_lists :: "('a \<Rightarrow> 'a \<Rightarrow> int) \<Rightarrow> 'a list \<Rightarrow> 'a list \<Rightarrow> 'a list" where
  "merge_lists cmp [] ys = ys"
| "merge_lists cmp xs [] = xs"
| "merge_lists cmp (x # xs) (y # ys) =
     (if cmp x y < 0 then x # merge_lists cmp xs (y # ys) else y # merge_lists cmp (x # xs) ys)"

lemma merge_lists_Nil [simp]: "merge_lists cmp xs [] = xs"
  by (cases xs) simp_all

text \<open>The elements from index \<open>i\<close> to index \<open>k\<close>.\<close>

definition segment :: "'a list \<Rightarrow> int \<Rightarrow> int \<Rightarrow> 'a list" where
  "segment a i k = slice (nat i) (nat (k + 1 - i)) a"

lemma segment_empty [simp]: "k < i \<Longrightarrow> segment a i k = []"
  by (simp add: segment_def slice_def)

lemma segment_Cons:
  assumes "0 \<le> i" and "i \<le> k" and "k < int (length a)"
  obtains x where "sized esize a \<Longrightarrow> element esize a i = Some x" "segment a i k = x # segment a (i + 1) k"
proof
  have i: "nat i < length a" "nat (k + 1 - i) = Suc (nat (k - i))" "nat (i + 1) = Suc (nat i)" using assms by auto
  show "sized esize a \<Longrightarrow> element esize a i = Some (a ! nat i)" using assms sized_offset(1) [of esize a i] by (simp add: element_def)
  show "segment a i k = (a ! nat i) # segment a (i + 1) k"
    using i by (simp add: segment_def slice_def Cons_nth_drop_Suc [symmetric])
qed

lemma copy_run_ok:
  "sized esize a \<Longrightarrow> 0 \<le> pos \<Longrightarrow> stop < int (length a) \<Longrightarrow> length m + nat (stop + 1 - pos) \<le> length a \<Longrightarrow>
   copy_run esize a pos stop m = Some (m @ segment a pos stop)"
proof (induction esize a pos stop m rule: copy_run.induct)
  case (1 esize a pos stop m)
  show ?case
  proof (cases "pos \<le> stop")
    case True
    obtain x where x: "element esize a pos = Some x" "segment a pos stop = x # segment a (pos + 1) stop"
      using segment_Cons [OF 1(3) True 1(4)] 1(2) by metis
    have m: "append_element esize x m = Some (m @ [x])" by (rule append_element_ok [OF 1(2)]) (use 1(5) True in simp)
    have p: "c_int (pos + 1) = Some (pos + 1)" using sized_offset(3) [OF 1(2), of "pos + 1"] 1(3,4) True by simp
    have "copy_run esize a (pos + 1) stop (m @ [x]) = Some ((m @ [x]) @ segment a (pos + 1) stop)"
      by (rule 1(1) [OF True x(1) m p]) (use 1 True in simp_all)
    then show ?thesis using x m p True by (subst copy_run.simps) simp
  qed (simp add: copy_run.simps)
qed

lemma merge_loop_ok:
  "sized esize a \<Longrightarrow> 0 \<le> ipos \<Longrightarrow> j < int (length a) \<Longrightarrow> 0 \<le> jpos \<Longrightarrow> k < int (length a) \<Longrightarrow>
   length m + nat (j + 1 - ipos) + nat (k + 1 - jpos) \<le> length a \<Longrightarrow>
   merge_loop esize cmp a ipos j jpos k m = Some (m @ merge_lists cmp (segment a ipos j) (segment a jpos k))"
proof (induction esize cmp a ipos j jpos k m rule: merge_loop.induct)
  case (1 esize cmp a ipos j jpos k m)
  note sz = 1(3) and b = 1(4-7) and room = 1(8)
  consider "j < ipos" | "k < jpos" "ipos \<le> j" | "ipos \<le> j" "jpos \<le> k" by linarith
  then show ?case
  proof cases
    case 1
    then show ?thesis using copy_run_ok [OF sz b(3,4)] room by (subst merge_loop.simps) simp
  next
    case 2
    then show ?thesis using copy_run_ok [OF sz b(1,2)] room by (subst merge_loop.simps) simp
  next
    case 3
    obtain x where x: "element esize a ipos = Some x" "segment a ipos j = x # segment a (ipos + 1) j"
      using segment_Cons [OF b(1) 3(1) b(2)] sz by metis
    obtain y where y: "element esize a jpos = Some y" "segment a jpos k = y # segment a (jpos + 1) k"
      using segment_Cons [OF b(3) 3(2) b(4)] sz by metis
    have m: "append_element esize z m = Some (m @ [z])" for z by (rule append_element_ok [OF sz]) (use room 3 in simp)
    have p: "c_int (ipos + 1) = Some (ipos + 1)" "c_int (jpos + 1) = Some (jpos + 1)"
      using sized_offset(3) [OF sz, of "ipos + 1"] sized_offset(3) [OF sz, of "jpos + 1"] b 3 by simp_all
    have IH: "cmp x y < 0 \<Longrightarrow> merge_loop esize cmp a (ipos + 1) j jpos k (m @ [x]) =
          Some ((m @ [x]) @ merge_lists cmp (segment a (ipos + 1) j) (segment a jpos k))"
        "\<not> cmp x y < 0 \<Longrightarrow> merge_loop esize cmp a ipos j (jpos + 1) k (m @ [y]) =
          Some ((m @ [y]) @ merge_lists cmp (segment a ipos j) (segment a (jpos + 1) k))"
      by (rule 1(1) [OF _ _ _ x(1) y(1) _ m p(1)]; use 3 b sz room in simp)
        (rule 1(2) [OF _ _ _ x(1) y(1) _ m p(2)]; use 3 b sz room in simp)
    then show ?thesis using 3 x y m p by (subst merge_loop.simps) simp
  qed
qed

lemma mset_merge_lists: "mset (merge_lists cmp xs ys) = mset xs + mset ys"
  by (induction cmp xs ys rule: merge_lists.induct) simp_all

text \<open>A three-way comparison of a total preorder.\<close>

definition comparator :: "('a \<Rightarrow> 'a \<Rightarrow> int) \<Rightarrow> bool" where
  "comparator cmp \<longleftrightarrow> (\<forall>x y. 0 \<le> cmp x y \<longrightarrow> cmp y x \<le> 0) \<and> (\<forall>x y z. cmp x y \<le> 0 \<longrightarrow> cmp y z \<le> 0 \<longrightarrow> cmp x z \<le> 0)"

definition ordered :: "('a \<Rightarrow> 'a \<Rightarrow> int) \<Rightarrow> 'a list \<Rightarrow> bool" where
  "ordered cmp xs \<longleftrightarrow> sorted_wrt (\<lambda>x y. cmp x y \<le> 0) xs"

lemma ordered_merge_lists:
  assumes "comparator cmp"
  shows "ordered cmp xs \<Longrightarrow> ordered cmp ys \<Longrightarrow> ordered cmp (merge_lists cmp xs ys)"
  using assms
proof (induction cmp xs ys rule: merge_lists.induct)
  case (3 cmp x xs y ys)
  have set: "set (merge_lists cmp us vs) = set us \<union> set vs" for us vs
    using arg_cong [OF mset_merge_lists [of cmp us vs], of set_mset] by simp
  have le: "cmp u w \<le> 0" if "cmp u v \<le> 0" "cmp v w \<le> 0" for u v w using 3(5) that by (auto simp: comparator_def)
  show ?case
  proof (cases "cmp x y < 0")
    case True
    then have "\<forall>z \<in> set (y # ys). cmp x z \<le> 0" using 3(4) le [of x y] by (auto simp: ordered_def)
    moreover have "ordered cmp (merge_lists cmp xs (y # ys))" using 3 True by (simp add: ordered_def)
    ultimately show ?thesis using True 3(3) by (auto simp: ordered_def set)
  next
    case False
    then have "cmp y x \<le> 0" using 3(5) by (auto simp: comparator_def)
    then have "\<forall>z \<in> set (x # xs). cmp y z \<le> 0" using 3(3) le [of y x] by (auto simp: ordered_def)
    moreover have "ordered cmp (merge_lists cmp (x # xs) ys)" using 3 False by (simp add: ordered_def)
    ultimately show ?thesis using False 3(4) by (auto simp: ordered_def set)
  qed
qed simp_all

section \<open>Sorting\<close>

text \<open>What is outside the segment stays; the segment becomes \<open>r\<close>.\<close>

lemma segment_split:
  assumes "0 \<le> i" and "i \<le> k + 1" and "k < int (length a)"
  shows "a = take (nat i) a @ segment a i k @ drop (nat (k + 1)) a"
proof -
  have e: "nat (k + 1) = nat i + nat (k + 1 - i)" using assms by simp
  show ?thesis unfolding segment_def slice_def e by (metis append_take_drop_id drop_drop add.commute)
qed

lemma merge_ok:
  assumes sz: "sized esize a" and "0 \<le> i" and "i \<le> j" and "j < k" and "k < int (length a)"
  shows "merge esize a i j k cmp = Some (take (nat i) a @ merge_lists cmp (segment a i j) (segment a (j + 1) k) @ drop (nat (k + 1)) a)"
proof -
  let ?m = "merge_lists cmp (segment a i j) (segment a (j + 1) k)"
  have "length ?m = size (mset ?m)" by simp
  also have "\<dots> = length (segment a i j) + length (segment a (j + 1) k)" by (simp only: mset_merge_lists) simp
  also have "\<dots> = nat (k + 1 - i)" using assms by (simp add: segment_def slice_def)
  finally have "nat i + length ?m = nat (k + 1)" using assms by simp
  moreover have "nat (k + 1) \<le> length a" using assms(5) by simp
  moreover have "c_int (j + 1) = Some (j + 1)" "c_int (k - i) = Some (k - i)" "c_int (k - i + 1) = Some (k - i + 1)"
    using sized_offset(3) [OF sz, of k] sized_offset(3) [OF sz, of "k - i + 1"] assms by simp_all
  moreover have "c_int (esize * (k - i + 1)) = Some (esize * (k - i + 1))" "c_int (i * esize) = Some (i * esize)"
    using sized_offset(2) [OF sz, of "k - i + 1"] sized_offset(1) [OF sz, of i] assms by simp_all
  ultimately show ?thesis using merge_loop_ok [of esize a i j "j + 1" k "[]" cmp] assms by (simp add: merge_def wr_def splice_def)
qed

text \<open>\<open>b\<close> is \<open>a\<close> with the segment from \<open>i\<close> to \<open>k\<close> sorted.\<close>

definition sorts :: "('a \<Rightarrow> 'a \<Rightarrow> int) \<Rightarrow> int \<Rightarrow> int \<Rightarrow> 'a list \<Rightarrow> 'a list \<Rightarrow> bool" where
  "sorts cmp i k a b \<longleftrightarrow> (\<exists>r. b = take (nat i) a @ r @ drop (nat (k + 1)) a \<and> mset r = mset (segment a i k) \<and> ordered cmp r)"

lemma sortsD:
  assumes "sorts cmp i k a b" and "0 \<le> i" and "i \<le> k + 1" and "k < int (length a)"
  shows "length b = length a" "ordered cmp (segment b i k)" "mset (segment b i k) = mset (segment a i k)"
    "take (nat i) b = take (nat i) a" "drop (nat (k + 1)) b = drop (nat (k + 1)) a"
proof -
  obtain r where r: "b = take (nat i) a @ r @ drop (nat (k + 1)) a" "mset r = mset (segment a i k)" "ordered cmp r"
    using assms(1) by (auto simp: sorts_def)
  have "length r = length (segment a i k)" using r(2) by (rule mset_eq_length)
  then have len: "length r = nat (k + 1 - i)" using assms by (simp add: segment_def slice_def)
  have i: "nat i \<le> length a" "nat (k + 1) = nat i + length r" "nat (k + 1) \<le> length a" using assms len by auto
  then show "length b = length a" by (simp add: r(1))
  have "segment b i k = r" using i len by (simp add: segment_def slice_def r(1))
  then show "ordered cmp (segment b i k)" "mset (segment b i k) = mset (segment a i k)" using r by simp_all
  show "take (nat i) b = take (nat i) a" using i by (simp add: r(1))
  show "drop (nat (k + 1)) b = drop (nat (k + 1)) a" using i by (simp add: r(1))
qed

lemma segment_alt: "0 \<le> i \<Longrightarrow> segment a i k = drop (nat i) (take (nat (k + 1)) a)"
proof (cases "i \<le> k + 1")
  case True
  moreover assume "0 \<le> i"
  ultimately have "nat (k + 1) = nat i + nat (k + 1 - i)" by simp
  then show ?thesis by (simp add: segment_def slice_def take_drop add.commute)
qed (simp add: segment_def slice_def)

lemma segment_agrees:
  assumes "0 \<le> i" and "length a = length b"
  shows "k < p \<Longrightarrow> take (nat p) a = take (nat p) b \<Longrightarrow> segment a i k = segment b i k"
    and "p \<le> i \<Longrightarrow> drop (nat p) a = drop (nat p) b \<Longrightarrow> segment a i k = segment b i k"
proof -
  show "segment a i k = segment b i k" if p: "k < p" "take (nat p) a = take (nat p) b"
  proof -
    have "min (nat (k + 1)) (nat p) = nat (k + 1)" using p(1) by simp
    then have "segment c i k = drop (nat i) (take (nat (k + 1)) (take (nat p) c))" for c :: "'a list"
      using assms(1) by (simp only: segment_alt take_take)
    then show ?thesis by (simp only: p(2))
  qed
  show "segment a i k = segment b i k" if p: "p \<le> i" "drop (nat p) a = drop (nat p) b"
  proof -
    have "segment c i k = take (nat (k + 1 - i)) (drop (nat i - nat p) (drop (nat p) c))" for c :: "'a list"
      using p(1) by (simp add: segment_def slice_def nat_mono)
    then show ?thesis by (simp only: p(2))
  qed
qed

lemma sorts_small: "0 \<le> i \<Longrightarrow> k \<le> i \<Longrightarrow> i \<le> k + 1 \<Longrightarrow> k < int (length a) \<Longrightarrow> sorts cmp i k a a"
proof -
  assume a: "0 \<le> i" "k \<le> i" "i \<le> k + 1" "k < int (length a)"
  have "ordered cmp (segment a i k)"
  proof (cases "i = k")
    case True
    then obtain x where "segment a i k = x # segment a (i + 1) k" using segment_Cons [of i k a] a by auto
    then show ?thesis using True by (simp add: ordered_def)
  next
    case False
    then show ?thesis using a by (simp add: ordered_def)
  qed
  then show ?thesis using segment_split [OF a(1,3,4)] by (auto simp: sorts_def intro!: exI [of _ "segment a i k"])
qed

lemma mgsort_sorts:
  assumes cmp: "comparator cmp"
  shows "sized esize a \<Longrightarrow> 2 * k < 2 ^ 31 \<Longrightarrow> 0 \<le> i \<Longrightarrow> i \<le> k + 1 \<Longrightarrow> k < int (length a) \<Longrightarrow> \<exists>b. arg_mgsort esize a i k cmp = Some b \<and> sorts cmp i k a b"
proof (induction "nat (k - i)" arbitrary: a i k rule: less_induct)
  case less
  show ?case
  proof (cases "i < k")
    case False
    then show ?thesis using sorts_small [of i k a cmp] less.prems by (subst arg_mgsort.simps) auto
  next
    case True
    define j where "j = c_half (i + k - 1)"
    have j: "i \<le> j" "j < k" using True by (auto simp: j_def c_half_def)
    have ints: "c_int (i + k) = Some (i + k)" "c_int (i + k - 1) = Some (i + k - 1)" "c_int (j + 1) = Some (j + 1)"
      using less.prems True j by simp_all
    obtain b where b: "arg_mgsort esize a i j cmp = Some b" "sorts cmp i j a b"
      using less.hyps [of j i a] less.prems j by auto
    have i: "0 \<le> i" "i \<le> j + 1" "j < int (length a)" using less.prems j by auto
    note B = sortsD [OF b(2) i]
    obtain c where c: "arg_mgsort esize b (j + 1) k cmp = Some c" "sorts cmp (j + 1) k b c"
      using less.hyps [of k "j + 1" b] less.prems j B(1) by (auto simp: sized_def)
    have i': "0 \<le> j + 1" "j + 1 \<le> k + 1" "k < int (length b)" using less.prems j B(1) by auto
    note C = sortsD [OF c(2) i']
    have left: "segment c i j = segment b i j"
      by (rule segment_agrees(1) [of _ _ _ _ "j + 1"]) (use C(1,4) less.prems in auto)
    have right: "segment b (j + 1) k = segment a (j + 1) k"
      by (rule segment_agrees(2) [of _ _ _ "j + 1"]) (use B(1,5) i' in auto)
    let ?r = "merge_lists cmp (segment c i j) (segment c (j + 1) k)"
    have "k < int (length c)" using B(1) C(1) less.prems(5) by simp
    moreover have "sized esize c" using less.prems(1) B(1) C(1) by (simp add: sized_def)
    ultimately have m: "merge esize c i j k cmp = Some (take (nat i) c @ ?r @ drop (nat (k + 1)) c)"
      using merge_ok [of esize c i j k cmp] less.prems(3) j by blast
    have segment: "arg_mgsort esize a i k cmp = Some (take (nat i) c @ ?r @ drop (nat (k + 1)) c)"
      using True b(1) c(1) m ints by (subst arg_mgsort.simps) (simp add: Let_def flip: j_def)
    have "take (nat i) c = take (nat i) (take (nat (j + 1)) c)" using j by (simp add: min_def)
    also have "\<dots> = take (nat i) b" using C(4) j by (simp add: min_def)
    finally have t: "take (nat i) c = take (nat i) a" using B(4) by simp
    have "drop (nat (k + 1)) b = drop (nat (k + 1) - nat (j + 1)) (drop (nat (j + 1)) b)" using j i' by (simp add: nat_mono)
    also have "\<dots> = drop (nat (k + 1)) a" unfolding B(5) using j i' by (simp add: nat_mono)
    finally have d: "drop (nat (k + 1)) c = drop (nat (k + 1)) a" using C(5) by simp
    have "segment a i k = segment a i j @ segment a (j + 1) k"
    proof -
      have e: "nat (k + 1 - i) = nat (j + 1 - i) + nat (k - j)" "nat (j + 1) = nat (j + 1 - i) + nat i" using i j by auto
      show ?thesis unfolding segment_def slice_def e(1) take_add drop_drop using e(2) by simp
    qed
    then have "mset ?r = mset (segment a i k)" using C(3) B(3) by (simp add: mset_merge_lists left right)
    moreover have "ordered cmp ?r" using C(2) B(2) by (intro ordered_merge_lists [OF cmp]) (simp_all add: left)
    ultimately show ?thesis using segment t d by (auto simp: sorts_def)
  qed
qed

text \<open>C14: For every comparison function of a total preorder, every array whose size in bytes is below 2 ^ 31 and every
range of indexes inside the array and below 2 ^ 30, the merge sort ends without reading or writing outside the array and
without overflowing an int, the elements of the range become an ordered permutation of themselves, and the elements
before and after it stay where they are.\<close>

theorem mgsort_correct:
  assumes "comparator cmp" and "0 < esize" and "int (length a) * esize < 2 ^ 31" and "k < 2 ^ 30"
    and "0 \<le> i" and "i \<le> k + 1" and "k < int (length a)"
  shows "\<exists>b. arg_mgsort esize a i k cmp = Some b \<and> length b = length a \<and>
    mset (segment b i k) = mset (segment a i k) \<and> sorted_wrt (\<lambda>x y. cmp x y \<le> 0) (segment b i k) \<and>
    take (nat i) b = take (nat i) a \<and> drop (nat (k + 1)) b = drop (nat (k + 1)) a"
proof -
  have "sized esize a" "2 * k < 2 ^ 31" using assms(2-4) by (simp_all add: sized_def)
  then obtain b where b: "arg_mgsort esize a i k cmp = Some b" "sorts cmp i k a b"
    using mgsort_sorts [OF assms(1) _ _ assms(5-)] by blast
  then show ?thesis using sortsD [OF b(2) assms(5-)] by (simp add: ordered_def)
qed

theorem mgsort_correct_witness:
  "\<exists>b. arg_mgsort 4 [9, 3, 1, 2, 0 :: int] 1 3 (\<lambda>x y. x - y) = Some b \<and> sorted_wrt (\<lambda>x y. x - y \<le> 0) (segment b 1 3) \<and> take 1 b = [9]"
proof -
  have "comparator (\<lambda>x y :: int. x - y)" by (simp add: comparator_def)
  from mgsort_correct [OF this, of 4 "[9, 3, 1, 2, 0]" 3 1] show ?thesis by auto
qed

text \<open>The bound on the indexes matters: an index above \<open>2 ^ 30\<close> makes the sum of the two ends overflow.\<close>

lemma mgsort_overflow: "2 ^ 30 < k \<Longrightarrow> k < 2 ^ 31 \<Longrightarrow> arg_mgsort esize a (k - 1) k cmp = None"
  by (subst arg_mgsort.simps) (simp add: c_int_def)

text \<open>The sort is not stable: two elements that compare equal change places.\<close>

lemma mgsort_unstable: "arg_mgsort 4 [(1, 0), (1, 1)] 0 1 (\<lambda>x y. fst x - fst y) = Some [(1, 1), (1, 0 :: int)]"
  by (simp add: arg_mgsort.simps merge_def merge_loop.simps copy_run.simps element_def append_element_def c_half_def wr_def splice_def)

end
