(* ===== verification/Arg_Free.thy ===== *)
theory Arg_Free
  imports Arg_Types
begin

text \<open>
  Checking and freeing argument tables, in \<open>lib/argtable/argtable3.c\<close>.  A table is an array of pointers
  that may be null; the heap maps the pointers to the headers of the structures that are allocated.  An operation is
  \<open>None\<close> when it reads past the array, reads a structure that is not allocated, or frees it twice.
\<close>

type_synonym arg_heap = "nat \<rightharpoonup> arg_hdr"

fun nullcheck_loop :: "arg_heap \<Rightarrow> nat option list \<Rightarrow> int option" where
  "nullcheck_loop heap [] = None"
| "nullcheck_loop heap (None # table) = Some 1"
| "nullcheck_loop heap (Some p # table) = do {
     h \<leftarrow> heap p;
     if has_flag h ARG_TERMINATOR then Some 0 else nullcheck_loop heap table}"

definition arg_nullcheck :: "arg_heap \<Rightarrow> nat option list option \<Rightarrow> int option" where
  "arg_nullcheck heap argtable = (case argtable of None \<Rightarrow> Some 1 | Some table \<Rightarrow> nullcheck_loop heap table)"

text \<open>\<open>arg_free\<close> takes a null entry for the end of the table.\<close>

fun arg_free :: "arg_heap \<Rightarrow> nat option list \<Rightarrow> (nat option list \<times> arg_heap) option" where
  "arg_free heap [] = None"
| "arg_free heap (None # table) = Some (None # table, heap)"
| "arg_free heap (Some p # table) = do {
     h \<leftarrow> heap p;
     let heap = heap(p := None);
     if has_flag h ARG_TERMINATOR then Some (None # table, heap)
     else do { (table, heap) \<leftarrow> arg_free heap table; Some (None # table, heap) }}"

fun arg_freetable :: "arg_heap \<Rightarrow> nat option list \<Rightarrow> nat \<Rightarrow> (nat option list \<times> arg_heap) option" where
  "arg_freetable heap table 0 = Some (table, heap)"
| "arg_freetable heap [] (Suc n) = None"
| "arg_freetable heap (None # table) (Suc n) = do { (table, heap) \<leftarrow> arg_freetable heap table n; Some (None # table, heap) }"
| "arg_freetable heap (Some p # table) (Suc n) = do {
     _ \<leftarrow> heap p;
     (table, heap) \<leftarrow> arg_freetable (heap(p := None)) table n;
     Some (None # table, heap)}"

section \<open>What is freed\<close>

definition pointers :: "nat option list \<Rightarrow> nat list" where
  "pointers table = map the (filter (\<lambda>p. p \<noteq> None) table)"

lemma pointers_simps [simp]: "pointers [] = []" "pointers (None # t) = pointers t" "pointers (Some p # t) = p # pointers t"
  "pointers (s @ t) = pointers s @ pointers t"
  by (simp_all add: pointers_def)

lemma heap_without: "(heap(p := None)) |` (- A) = heap |` (- insert p A)"
  by (auto simp: restrict_map_def fun_eq_iff)

lemma freetable_frees:
  "n \<le> length table \<Longrightarrow> distinct (pointers (take n table)) \<Longrightarrow> set (pointers (take n table)) \<subseteq> dom heap \<Longrightarrow>
   arg_freetable heap table n = Some (replicate n None @ drop n table, heap |` (- set (pointers (take n table))))"
proof (induction heap table n rule: arg_freetable.induct)
  case (4 heap p table n)
  then obtain h where h: "heap p = Some h" by auto
  have "arg_freetable (heap(p := None)) table n = Some (replicate n None @ drop n table, (heap(p := None)) |` (- set (pointers (take n table))))"
    by (rule 4(1) [OF h]) (use 4(2-4) in auto)
  then show ?case unfolding heap_without by (simp add: h)
qed (auto simp: restrict_map_def)

lemma nullcheck_passed:
  "nullcheck_loop heap table = Some 0 \<Longrightarrow>
   \<exists>ps p rest. table = map Some (ps @ [p]) @ rest \<and> (\<forall>q \<in> set ps. \<exists>h. heap q = Some h \<and> \<not> has_flag h ARG_TERMINATOR) \<and>
     (\<exists>h. heap p = Some h \<and> has_flag h ARG_TERMINATOR)"
proof (induction heap table rule: nullcheck_loop.induct)
  case (3 heap p table)
  then obtain h where h: "heap p = Some h" by (auto simp: bind_eq_Some_conv)
  show ?case
  proof (cases "has_flag h ARG_TERMINATOR")
    case True
    then show ?thesis using h by (intro exI [of _ "[]"] exI [of _ p] exI [of _ table]) simp
  next
    case False
    then obtain ps q rest where "table = map Some (ps @ [q]) @ rest"
      "\<forall>q \<in> set ps. \<exists>h. heap q = Some h \<and> \<not> has_flag h ARG_TERMINATOR" "\<exists>h. heap q = Some h \<and> has_flag h ARG_TERMINATOR"
      using 3 h by auto
    then show ?thesis using h False by (intro exI [of _ "p # ps"] exI [of _ q] exI [of _ rest]) simp
  qed
qed simp_all

lemma free_is_freetable:
  "\<forall>q \<in> set ps. \<exists>h. heap q = Some h \<and> \<not> has_flag h ARG_TERMINATOR \<Longrightarrow> \<exists>h. heap p = Some h \<and> has_flag h ARG_TERMINATOR \<Longrightarrow>
   distinct (ps @ [p]) \<Longrightarrow> arg_free heap (map Some (ps @ [p]) @ rest) = arg_freetable heap (map Some (ps @ [p]) @ rest) (Suc (length ps))"
proof (induction ps arbitrary: heap)
  case (Cons q ps)
  then obtain h where h: "heap q = Some h" "\<not> has_flag h ARG_TERMINATOR" by auto
  have "arg_free (heap(q := None)) (map Some (ps @ [p]) @ rest) = arg_freetable (heap(q := None)) (map Some (ps @ [p]) @ rest) (Suc (length ps))"
    by (rule Cons.IH) (use Cons.prems in auto)
  then show ?case using h by simp
qed auto

text \<open>On a table of distinct entries that passes the null check, the deprecated arg_free and arg_freetable on the
entries up to the end marker do the same: they free these entries and no others, each one once, and set their pointers
to null.\<close>

theorem free_agrees:
  assumes "arg_nullcheck heap (Some table) = Some 0" and "distinct (pointers table)"
  shows "\<exists>n. n \<le> length table \<and> None \<notin> set (take n table) \<and> arg_free heap table = arg_freetable heap table n \<and>
    arg_free heap table = Some (replicate n None @ drop n table, heap |` (- set (pointers (take n table))))"
proof -
  obtain ps p rest where t: "table = map Some (ps @ [p]) @ rest"
    and h: "\<forall>q \<in> set ps. \<exists>h. heap q = Some h \<and> \<not> has_flag h ARG_TERMINATOR" "\<exists>h. heap p = Some h \<and> has_flag h ARG_TERMINATOR"
    using nullcheck_passed [of heap table] assms(1) by (auto simp: arg_nullcheck_def)
  let ?n = "Suc (length ps)"
  have q: "pointers (map Some qs) = qs" for qs by (induction qs) simp_all
  have d: "distinct (ps @ [p])" using assms(2) t by (simp add: q)
  have n: "take ?n table = map Some (ps @ [p])" "?n \<le> length table" by (simp_all add: t)
  have "arg_freetable heap table ?n = Some (replicate ?n None @ drop ?n table, heap |` (- set (pointers (take ?n table))))"
    by (rule freetable_frees [OF n(2)]) (use d h n(1) q [of "ps @ [p]"] in auto)
  moreover have "arg_free heap table = arg_freetable heap table ?n" unfolding t by (rule free_is_freetable [OF h d])
  ultimately show ?thesis using n by (intro exI [of _ ?n]) auto
qed

theorem free_agrees_witness:
  "\<exists>n. arg_free [0 \<mapsto> lit_hdr (arg_litn None None 0 1 None), 1 \<mapsto> end_hdr (arg_end 2)] [Some 0, Some 1, Some 7] =
    arg_freetable [0 \<mapsto> lit_hdr (arg_litn None None 0 1 None), 1 \<mapsto> end_hdr (arg_end 2)] [Some 0, Some 1, Some 7] n"
proof -
  let ?heap = "[0 \<mapsto> lit_hdr (arg_litn None None 0 1 None), 1 \<mapsto> end_hdr (arg_end 2)]"
  have "arg_nullcheck ?heap (Some [Some 0, Some 1, Some 7]) = Some 0"
    by (simp add: arg_nullcheck_def arg_litn_def arg_end_def has_flag_def ARG_TERMINATOR_def)
  from free_agrees [OF this] show ?thesis by auto
qed

text \<open>A null entry before others: \<open>arg_free\<close> leaves them allocated, \<open>arg_freetable\<close> does not.\<close>

lemma free_leaks:
  assumes "heap p = Some h"
  shows "arg_free heap [None, Some p] = Some ([None, Some p], heap)"
    and "arg_freetable heap [None, Some p] 2 = Some ([None, None], heap(p := None))"
  using assms by (simp_all add: numeral_2_eq_2)

end
