(* ===== verification/Arg_Regex.thy ===== *)
theory Arg_Regex
  imports Arg_Output
begin

text \<open>
  The compiler of the T-Rex regular expressions of \<open>lib/argtable/argtable3.c\<close>: it turns a pattern into an array of
  nodes, which name each other by index, with -1 for none.  A \<open>char\<close> is signed.  The position in the pattern is the rest
  of the pattern, with the terminator read at its end; moving past the terminator is an access outside the
  pattern, as every function reads there next.  The calls of \<open>trex_error\<close>, which leave by \<open>longjmp\<close>, and the faults
  are values.  The pointer \<open>_eol\<close>, which is null while a pattern is compiled, does not end the loop of a class.
\<close>

unbundle bit_operations_syntax

section \<open>Characters\<close>

definition signed_char :: "char \<Rightarrow> int" where
  "signed_char c = (let n = of_char c in if n < 128 then n else n - 256)"

text \<open>The classes of \<open>ctype.h\<close> in the C locale, on the value of a character.\<close>

definition isdigit :: "int \<Rightarrow> bool" where "isdigit c \<longleftrightarrow> 48 \<le> c \<and> c \<le> 57"
definition isupper :: "int \<Rightarrow> bool" where "isupper c \<longleftrightarrow> 65 \<le> c \<and> c \<le> 90"
definition islower :: "int \<Rightarrow> bool" where "islower c \<longleftrightarrow> 97 \<le> c \<and> c \<le> 122"
definition isalpha :: "int \<Rightarrow> bool" where "isalpha c \<longleftrightarrow> isupper c \<or> islower c"
definition isalnum :: "int \<Rightarrow> bool" where "isalnum c \<longleftrightarrow> isalpha c \<or> isdigit c"
definition isxdigit :: "int \<Rightarrow> bool" where "isxdigit c \<longleftrightarrow> isdigit c \<or> 65 \<le> c \<and> c \<le> 70 \<or> 97 \<le> c \<and> c \<le> 102"
definition isspace :: "int \<Rightarrow> bool" where "isspace c \<longleftrightarrow> c = 32 \<or> 9 \<le> c \<and> c \<le> 13"
definition iscntrl :: "int \<Rightarrow> bool" where "iscntrl c \<longleftrightarrow> 0 \<le> c \<and> c < 32 \<or> c = 127"
definition isprint :: "int \<Rightarrow> bool" where "isprint c \<longleftrightarrow> 32 \<le> c \<and> c < 127"
definition ispunct :: "int \<Rightarrow> bool" where "ispunct c \<longleftrightarrow> isprint c \<and> c \<noteq> 32 \<and> \<not> isalnum c"
definition tolower :: "int \<Rightarrow> int" where "tolower c = (if isupper c then c + 32 else c)"
definition toupper :: "int \<Rightarrow> int" where "toupper c = (if islower c then c - 32 else c)"

section \<open>Nodes and programs\<close>

definition MAX_CHAR :: int where "MAX_CHAR = 0xFF"
definition OP_GREEDY :: int where "OP_GREEDY = MAX_CHAR + 1"
definition OP_OR :: int where "OP_OR = MAX_CHAR + 2"
definition OP_EXPR :: int where "OP_EXPR = MAX_CHAR + 3"
definition OP_NOCAPEXPR :: int where "OP_NOCAPEXPR = MAX_CHAR + 4"
definition OP_DOT :: int where "OP_DOT = MAX_CHAR + 5"
definition OP_CLASS :: int where "OP_CLASS = MAX_CHAR + 6"
definition OP_CCLASS :: int where "OP_CCLASS = MAX_CHAR + 7"
definition OP_NCLASS :: int where "OP_NCLASS = MAX_CHAR + 8"
definition OP_RANGE :: int where "OP_RANGE = MAX_CHAR + 9"
definition OP_EOL :: int where "OP_EOL = MAX_CHAR + 11"
definition OP_BOL :: int where "OP_BOL = MAX_CHAR + 12"
definition OP_WB :: int where "OP_WB = MAX_CHAR + 13"

lemmas op_codes = OP_GREEDY_def OP_OR_def OP_EXPR_def OP_NOCAPEXPR_def OP_DOT_def OP_CLASS_def OP_CCLASS_def OP_NCLASS_def
  OP_RANGE_def OP_EOL_def OP_BOL_def OP_WB_def MAX_CHAR_def

record trex_node =
  n_type :: int
  n_left :: int
  n_right :: int
  n_next :: int

record trex =
  tx_eol :: nat
  tx_bol :: nat
  tx_p :: string
  tx_first :: int
  tx_nodes :: "trex_node list"
  tx_nallocated :: nat
  tx_nsubexpr :: int
  tx_matches :: "(nat option \<times> int) list"
  tx_currsubexp :: int
  tx_flags :: int

text \<open>How a computation can stop: an error of the pattern, an access outside an array or an overflow, or the bound of
  the model.\<close>

datatype stop = Bad_pattern string | Bad_access | No_fuel

type_synonym 'a step = "stop + 'a \<times> trex"

definition followed :: "'a step \<Rightarrow> ('a \<Rightarrow> trex \<Rightarrow> 'b step) \<Rightarrow> 'b step" where
  "followed r f = (case r of Inl s \<Rightarrow> Inl s | Inr (x, exp) \<Rightarrow> f x exp)"

definition get_node :: "int \<Rightarrow> trex \<Rightarrow> trex_node step" where
  "get_node i exp =
     (if 0 \<le> i \<and> i < int (length (tx_nodes exp)) then Inr (tx_nodes exp ! nat i, exp) else Inl Bad_access)"

definition set_node :: "int \<Rightarrow> (trex_node \<Rightarrow> trex_node) \<Rightarrow> trex \<Rightarrow> unit step" where
  "set_node i f exp = followed (get_node i exp) (\<lambda>n exp. Inr ((), exp\<lparr>tx_nodes := (tx_nodes exp)[nat i := f n]\<rparr>))"

definition trex_newnode :: "trex \<Rightarrow> int \<Rightarrow> int step" where
  "trex_newnode exp type =
     (let n = \<lparr>n_type = type, n_left = -1, n_right = -1, n_next = -1\<rparr>;
          (n, exp) = (if type = OP_EXPR then (n\<lparr>n_right := tx_nsubexpr exp\<rparr>, exp\<lparr>tx_nsubexpr := tx_nsubexpr exp + 1\<rparr>)
            else (n, exp));
          exp = (if tx_nallocated exp < length (tx_nodes exp) + 1 then exp\<lparr>tx_nallocated := tx_nallocated exp * 2\<rparr> else exp)
      in if length (tx_nodes exp) < tx_nallocated exp
         then Inr (int (length (tx_nodes exp)), exp\<lparr>tx_nodes := tx_nodes exp @ [n]\<rparr>)
         else Inl Bad_access)"

section \<open>Reading the pattern\<close>

definition peek :: "trex \<Rightarrow> char" where
  "peek exp = (case tx_p exp of [] \<Rightarrow> NUL | c # _ \<Rightarrow> c)"

definition advance :: "trex \<Rightarrow> unit step" where
  "advance exp = (case tx_p exp of [] \<Rightarrow> Inl Bad_access | _ # p \<Rightarrow> Inr ((), exp\<lparr>tx_p := p\<rparr>))"

definition trex_error :: "string \<Rightarrow> 'a step" where
  "trex_error error = Inl (Bad_pattern error)"

definition trex_expect :: "trex \<Rightarrow> char \<Rightarrow> unit step" where
  "trex_expect exp n = (if peek exp \<noteq> n then trex_error ''expected paren'' else advance exp)"

definition escape :: "char \<Rightarrow> char" where
  "escape c =
     (if c = CHR ''v'' then CHR 0x0B else if c = CHR ''n'' then CHR 0x0A else if c = CHR ''t'' then CHR 0x09
      else if c = CHR ''r'' then CHR 0x0D else if c = CHR ''f'' then CHR 0x0C else c)"

definition trex_escapechar :: "trex \<Rightarrow> char step" where
  "trex_escapechar exp =
     (if peek exp = CHR 0x5C then followed (advance exp) (\<lambda>_ exp.
        let c = peek exp in followed (advance exp) (\<lambda>_ exp. Inr (escape c, exp)))
      else if \<not> isprint (signed_char (peek exp)) then trex_error ''letter expected''
      else let c = peek exp in followed (advance exp) (\<lambda>_ exp. Inr (c, exp)))"

definition trex_charclass :: "trex \<Rightarrow> int \<Rightarrow> int step" where
  "trex_charclass exp classid =
     followed (trex_newnode exp OP_CCLASS) (\<lambda>n exp.
     followed (set_node n (\<lambda>m. m\<lparr>n_left := classid\<rparr>) exp) (\<lambda>_ exp. Inr (n, exp)))"

definition trex_charnode :: "trex \<Rightarrow> bool \<Rightarrow> int step" where
  "trex_charnode exp isclass =
     (if peek exp = CHR 0x5C then followed (advance exp) (\<lambda>_ exp. let t = peek exp in
        if t \<in> set ''ntrfv'' then followed (advance exp) (\<lambda>_ exp. trex_newnode exp (signed_char (escape t)))
        else if t \<in> set ''aAwWsSdDxXcCpPlu'' then followed (advance exp) (\<lambda>_ exp. trex_charclass exp (signed_char t))
        else if (t = CHR ''b'' \<or> t = CHR ''B'') \<and> \<not> isclass then
          followed (trex_newnode exp OP_WB) (\<lambda>n exp.
          followed (set_node n (\<lambda>m. m\<lparr>n_left := signed_char t\<rparr>) exp) (\<lambda>_ exp.
          followed (advance exp) (\<lambda>_ exp. Inr (n, exp))))
        else followed (advance exp) (\<lambda>_ exp. trex_newnode exp (signed_char t)))
      else if \<not> isprint (signed_char (peek exp)) then trex_error ''letter expected''
      else let t = peek exp in followed (advance exp) (\<lambda>_ exp. trex_newnode exp (signed_char t)))"

lemma followed_cong [fundef_cong]:
  "r = r' \<Longrightarrow> (\<And>x exp. r' = Inr (x, exp) \<Longrightarrow> f x exp = g x exp) \<Longrightarrow> followed r f = followed r' g"
  by (auto simp: followed_def split: sum.splits)

lemma followed_Inr: "followed r f = Inr y \<longleftrightarrow> (\<exists>x exp. r = Inr (x, exp) \<and> f x exp = Inr y)"
  by (auto simp: followed_def split: sum.splits)

lemma followed_simps [simp]: "followed (Inl s) f = Inl s" "followed (Inr (x, exp)) f = f x exp"
  by (simp_all add: followed_def)

lemma set_node_rest: "set_node i f exp = Inr (u, exp') \<Longrightarrow> tx_p exp' = tx_p exp"
  by (auto simp: set_node_def get_node_def followed_Inr split: if_splits)

lemma newnode_rest: "trex_newnode exp t = Inr (i, exp') \<Longrightarrow> tx_p exp' = tx_p exp"
  by (auto simp: trex_newnode_def Let_def split: if_splits prod.splits)

lemma advance_rest: "advance exp = Inr (u, exp') \<Longrightarrow> length (tx_p exp) = Suc (length (tx_p exp'))"
  by (auto simp: advance_def split: list.splits)

lemma charnode_rest: "trex_charnode exp isclass = Inr (i, exp') \<Longrightarrow> length (tx_p exp') < length (tx_p exp)"
  by (auto simp: trex_charnode_def trex_charclass_def trex_error_def Let_def followed_Inr split: if_splits
      dest!: newnode_rest set_node_rest advance_rest)

lemma escapechar_rest: "trex_escapechar exp = Inr (i, exp') \<Longrightarrow> length (tx_p exp') < length (tx_p exp)"
  by (auto simp: trex_escapechar_def trex_error_def Let_def followed_Inr split: if_splits dest!: advance_rest)

section \<open>Classes\<close>

text \<open>The loop over the members of a class; \<open>first\<close> is the last member read and not yet in the chain.\<close>

function class_loop :: "int \<Rightarrow> int \<Rightarrow> trex \<Rightarrow> (int \<times> int) step" where
  "class_loop first chain exp =
     (if peek exp = CHR '']'' then Inr ((first, chain), exp)
      else if peek exp = CHR ''-'' \<and> first \<noteq> -1 then (let c = peek exp in
        followed (advance exp) (\<lambda>_ exp.
        if c = CHR '']'' then trex_error ''unfinished range'' else
        followed (trex_newnode exp OP_RANGE) (\<lambda>r exp.
        if first > signed_char (peek exp) then trex_error ''invalid range'' else
        followed (get_node first exp) (\<lambda>n exp.
        if n_type n = OP_CCLASS then trex_error ''cannot use character classes in ranges'' else
        followed (set_node r (\<lambda>m. m\<lparr>n_left := n_type n\<rparr>) exp) (\<lambda>_ exp.
        followed (trex_escapechar exp) (\<lambda>t exp.
        followed (set_node r (\<lambda>m. m\<lparr>n_right := signed_char t\<rparr>) exp) (\<lambda>_ exp.
        followed (set_node chain (\<lambda>m. m\<lparr>n_next := r\<rparr>) exp) (\<lambda>_ exp.
        class_loop (-1) r exp))))))))
      else
        followed (if first \<noteq> -1 then followed (set_node chain (\<lambda>m. m\<lparr>n_next := first\<rparr>) exp) (\<lambda>_ exp. Inr (first, exp))
          else Inr (chain, exp)) (\<lambda>chain exp.
        followed (trex_charnode exp True) (\<lambda>first exp.
        class_loop first chain exp)))"
  by pat_completeness auto
termination
  by (relation "measure (\<lambda>(first, chain, exp). length (tx_p exp))")
    (auto simp: get_node_def followed_Inr split: if_splits dest!: set_node_rest newnode_rest charnode_rest escapechar_rest advance_rest)

declare class_loop.simps [simp del]

definition trex_class :: "trex \<Rightarrow> int step" where
  "trex_class exp =
     followed (if peek exp = CHR ''^'' then
         followed (trex_newnode exp OP_NCLASS) (\<lambda>ret exp. followed (advance exp) (\<lambda>_ exp. Inr (ret, exp)))
       else trex_newnode exp OP_CLASS) (\<lambda>ret exp.
     if peek exp = CHR '']'' then trex_error ''empty class'' else
     followed (class_loop (-1) ret exp) (\<lambda>(first, chain) exp.
     followed (if first \<noteq> -1 then set_node chain (\<lambda>m. m\<lparr>n_next := first\<rparr>) exp else Inr ((), exp)) (\<lambda>_ exp.
     followed (set_node ret (\<lambda>m. m\<lparr>n_left := n_next m, n_next := -1\<rparr>) exp) (\<lambda>_ exp.
     Inr (ret, exp)))))"

section \<open>Repetitions\<close>

fun number_loop :: "int \<Rightarrow> int \<Rightarrow> string \<Rightarrow> stop + int \<times> string" where
  "number_loop num positions [] = Inr (num, [])"
| "number_loop num positions (c # p) =
     (if isdigit (signed_char c) then
        (let num = num * 10 + (signed_char c - 48) in
         if 2147483647 < num then Inl Bad_access
         else if positions = 1000000000 then Inl (Bad_pattern ''overflow in numeric constant'')
         else number_loop num (positions * 10) p)
      else Inr (num, c # p))"

definition trex_parsenumber :: "trex \<Rightarrow> int step" where
  "trex_parsenumber exp =
     (let ret = signed_char (peek exp) - 48 in
      followed (advance exp) (\<lambda>_ exp.
      case number_loop ret 10 (tx_p exp) of Inl s \<Rightarrow> Inl s | Inr (ret, p) \<Rightarrow> Inr (ret, exp\<lparr>tx_p := p\<rparr>)))"

text \<open>The bounds of a repetition, which are kept in 16 bits, and how a node holds them.\<close>

definition pack_counts :: "int \<Rightarrow> int \<Rightarrow> int" where
  "pack_counts p0 p1 = sint ((push_bit 16 (word_of_int p0) OR word_of_int p1) :: 32 word)"

definition trex_counts :: "trex \<Rightarrow> (int \<times> int) option step" where
  "trex_counts exp =
     (if peek exp = CHR ''*'' then followed (advance exp) (\<lambda>_ exp. Inr (Some (0, 0xFFFF), exp))
      else if peek exp = CHR ''+'' then followed (advance exp) (\<lambda>_ exp. Inr (Some (1, 0xFFFF), exp))
      else if peek exp = CHR ''?'' then followed (advance exp) (\<lambda>_ exp. Inr (Some (0, 1), exp))
      else if peek exp = CHR ''{'' then
        followed (advance exp) (\<lambda>_ exp.
        if \<not> isdigit (signed_char (peek exp)) then trex_error ''number expected'' else
        followed (trex_parsenumber exp) (\<lambda>n exp. let p0 = n mod 65536 in
        if peek exp = CHR ''}'' then followed (advance exp) (\<lambda>_ exp. Inr (Some (p0, p0), exp))
        else if peek exp = CHR '','' then
          followed (advance exp) (\<lambda>_ exp.
          followed (if isdigit (signed_char (peek exp)) then followed (trex_parsenumber exp) (\<lambda>n exp. Inr (n mod 65536, exp))
            else Inr (0xFFFF, exp)) (\<lambda>p1 exp.
          followed (trex_expect exp (CHR ''}'')) (\<lambda>_ exp. Inr (Some (p0, p1), exp))))
        else trex_error '', or } expected''))
      else Inr (None, exp))"

definition trex_greedy :: "int \<Rightarrow> trex \<Rightarrow> int step" where
  "trex_greedy atom exp =
     followed (trex_counts exp) (\<lambda>counts exp.
     case counts of None \<Rightarrow> Inr (atom, exp)
     | Some (p0, p1) \<Rightarrow>
         followed (trex_newnode exp OP_GREEDY) (\<lambda>nnode exp.
         followed (set_node nnode (\<lambda>m. m\<lparr>n_left := atom\<rparr>) exp) (\<lambda>_ exp.
         followed (set_node nnode (\<lambda>m. m\<lparr>n_right := pack_counts p0 p1\<rparr>) exp) (\<lambda>_ exp.
         Inr (nnode, exp)))))"

section \<open>Elements and lists\<close>

text \<open>A group, a class or a character, given the function that reads the list inside a group.\<close>

definition trex_group :: "(trex \<Rightarrow> int step) \<Rightarrow> trex \<Rightarrow> int step" where
  "trex_group read_list exp =
     followed (advance exp) (\<lambda>_ exp.
     followed (if peek exp = CHR ''?'' then
         followed (advance exp) (\<lambda>_ exp. followed (trex_expect exp (CHR '':'')) (\<lambda>_ exp. trex_newnode exp OP_NOCAPEXPR))
       else trex_newnode exp OP_EXPR) (\<lambda>expr exp.
     followed (read_list exp) (\<lambda>newn exp.
     followed (set_node expr (\<lambda>m. m\<lparr>n_left := newn\<rparr>) exp) (\<lambda>_ exp.
     followed (trex_expect exp (CHR '')'')) (\<lambda>_ exp. Inr (expr, exp))))))"

definition trex_atom :: "(trex \<Rightarrow> int step) \<Rightarrow> trex \<Rightarrow> int step" where
  "trex_atom read_list exp =
     (if peek exp = CHR ''('' then trex_group read_list exp
      else if peek exp = CHR ''['' then
        followed (advance exp) (\<lambda>_ exp.
        followed (trex_class exp) (\<lambda>ret exp.
        followed (trex_expect exp (CHR '']'')) (\<lambda>_ exp. Inr (ret, exp))))
      else if peek exp = CHR ''$'' then followed (advance exp) (\<lambda>_ exp. trex_newnode exp OP_EOL)
      else if peek exp = CHR ''.'' then followed (advance exp) (\<lambda>_ exp. trex_newnode exp OP_DOT)
      else trex_charnode exp False)"

definition ends_element :: "trex \<Rightarrow> bool" where
  "ends_element exp \<longleftrightarrow> peek exp = CHR ''|'' \<or> peek exp = CHR '')'' \<or> peek exp = CHR ''*'' \<or> peek exp = CHR ''+'' \<or> peek exp = NUL"

text \<open>An element and a list call each other, with a bound on the depth of the calls.\<close>

fun trex_element :: "nat \<Rightarrow> trex \<Rightarrow> int step" and trex_list :: "nat \<Rightarrow> trex \<Rightarrow> int step" where
  "trex_element 0 exp = Inl No_fuel"
| "trex_element (Suc fuel) exp =
     followed (trex_atom (\<lambda>exp. trex_list fuel exp) exp) (\<lambda>ret exp.
     followed (trex_greedy ret exp) (\<lambda>ret exp.
     if \<not> ends_element exp then
       followed (trex_element fuel exp) (\<lambda>nnode exp.
       followed (set_node ret (\<lambda>m. m\<lparr>n_next := nnode\<rparr>) exp) (\<lambda>_ exp. Inr (ret, exp)))
     else Inr (ret, exp)))"
| "trex_list 0 exp = Inl No_fuel"
| "trex_list (Suc fuel) exp =
     followed (if peek exp = CHR ''^'' then followed (advance exp) (\<lambda>_ exp. trex_newnode exp OP_BOL) else Inr (-1, exp)) (\<lambda>ret exp.
     followed (trex_element fuel exp) (\<lambda>e exp.
     followed (if ret \<noteq> -1 then followed (set_node ret (\<lambda>m. m\<lparr>n_next := e\<rparr>) exp) (\<lambda>_ exp. Inr (ret, exp))
       else Inr (e, exp)) (\<lambda>ret exp.
     if peek exp = CHR ''|'' then
       followed (advance exp) (\<lambda>_ exp.
       followed (trex_newnode exp OP_OR) (\<lambda>temp exp.
       followed (set_node temp (\<lambda>m. m\<lparr>n_left := ret\<rparr>) exp) (\<lambda>_ exp.
       followed (trex_list fuel exp) (\<lambda>tright exp.
       followed (set_node temp (\<lambda>m. m\<lparr>n_right := tright\<rparr>) exp) (\<lambda>_ exp. Inr (temp, exp))))))
     else Inr (ret, exp))))"

declare trex_element.simps [simp del] trex_list.simps [simp del]

text \<open>\<open>trex_compile\<close> returns the program, or null and the error message.\<close>

definition compile_bound :: "string \<Rightarrow> nat" where
  "compile_bound pattern = 2 * length pattern + 2"

definition empty_program :: "string \<Rightarrow> int \<Rightarrow> trex" where
  "empty_program pattern flags =
     \<lparr>tx_eol = 0, tx_bol = 0, tx_p = pattern, tx_first = -1, tx_nodes = [], tx_nallocated = length pattern, tx_nsubexpr = 0,
      tx_matches = [], tx_currsubexp = 0, tx_flags = flags\<rparr>"

definition compile_steps :: "string \<Rightarrow> int \<Rightarrow> unit step" where
  "compile_steps pattern flags =
     followed (trex_newnode (empty_program pattern flags) OP_EXPR) (\<lambda>first exp.
     followed (trex_list (compile_bound pattern) (exp\<lparr>tx_first := first\<rparr>)) (\<lambda>res exp.
     followed (set_node (tx_first exp) (\<lambda>m. m\<lparr>n_left := res\<rparr>) exp) (\<lambda>_ exp.
     if peek exp \<noteq> NUL then trex_error ''unexpected character''
     else Inr ((), exp\<lparr>tx_matches := replicate (nat (tx_nsubexpr exp)) (None, 0)\<rparr>))))"

definition trex_compile :: "string \<Rightarrow> int \<Rightarrow> stop + trex option \<times> string option" where
  "trex_compile pattern flags =
     (case compile_steps pattern flags of
        Inl (Bad_pattern error) \<Rightarrow> Inr (None, Some error)
      | Inl s \<Rightarrow> Inl s
      | Inr (_, exp) \<Rightarrow> Inr (Some exp, None))"

end
