(* ===== verification/Arg_Match.thy ===== *)
theory Arg_Match
  imports Arg_Regex
begin

text \<open>
  The matcher of the T-Rex regular expressions of \<open>lib/argtable/argtable3.c\<close>.  A pointer to a node is its index and the null
  pointer -1; a pointer into the text is a position, and reading after the terminator or moving past it is an access
  outside the text.  The recursion and the walks along the \<open>next\<close> indexes have a bound.
\<close>

section \<open>Characters and classes\<close>

definition trex_matchcclass :: "int \<Rightarrow> int \<Rightarrow> bool" where
  "trex_matchcclass cclass c =
     (if cclass = signed_char (CHR ''a'') then isalpha c
      else if cclass = signed_char (CHR ''A'') then \<not> isalpha c
      else if cclass = signed_char (CHR ''w'') then isalnum c \<or> c = signed_char (CHR ''_'')
      else if cclass = signed_char (CHR ''W'') then \<not> isalnum c \<and> c \<noteq> signed_char (CHR ''_'')
      else if cclass = signed_char (CHR ''s'') then isspace c
      else if cclass = signed_char (CHR ''S'') then \<not> isspace c
      else if cclass = signed_char (CHR ''d'') then isdigit c
      else if cclass = signed_char (CHR ''D'') then \<not> isdigit c
      else if cclass = signed_char (CHR ''x'') then isxdigit c
      else if cclass = signed_char (CHR ''X'') then \<not> isxdigit c
      else if cclass = signed_char (CHR ''c'') then iscntrl c
      else if cclass = signed_char (CHR ''C'') then \<not> iscntrl c
      else if cclass = signed_char (CHR ''p'') then ispunct c
      else if cclass = signed_char (CHR ''P'') then \<not> ispunct c
      else if cclass = signed_char (CHR ''l'') then islower c
      else if cclass = signed_char (CHR ''u'') then isupper c
      else False)"

definition icase :: "int \<Rightarrow> bool" where
  "icase flags \<longleftrightarrow> flags AND 1 \<noteq> 0"

definition char_matches :: "int \<Rightarrow> int \<Rightarrow> int \<Rightarrow> bool" where
  "char_matches flags type c = (if icase flags then c = tolower type \<or> c = toupper type else c = type)"

definition class_member :: "int \<Rightarrow> trex_node \<Rightarrow> int \<Rightarrow> bool" where
  "class_member flags n c =
     (if n_type n = OP_RANGE then
        (if icase flags then toupper (n_left n) \<le> c \<and> c \<le> toupper (n_right n) \<or> tolower (n_left n) \<le> c \<and> c \<le> tolower (n_right n)
         else n_left n \<le> c \<and> c \<le> n_right n)
      else if n_type n = OP_CCLASS then trex_matchcclass (n_left n) c
      else char_matches flags (n_type n) c)"

fun trex_matchclass :: "nat \<Rightarrow> trex \<Rightarrow> int \<Rightarrow> int \<Rightarrow> bool step" where
  "trex_matchclass 0 exp i c = Inl No_fuel"
| "trex_matchclass (Suc k) exp i c =
     followed (get_node i exp) (\<lambda>n exp.
     if class_member (tx_flags exp) n c then Inr (True, exp)
     else if n_next n \<noteq> -1 then trex_matchclass k exp (n_next n) c
     else Inr (False, exp))"

section \<open>The text\<close>

definition read_char :: "string \<Rightarrow> nat \<Rightarrow> trex \<Rightarrow> int step" where
  "read_char tx pos exp =
     (if pos < length tx then Inr (signed_char (tx ! pos), exp)
      else if pos = length tx then Inr (0, exp) else Inl Bad_access)"

definition next_char :: "string \<Rightarrow> nat \<Rightarrow> trex \<Rightarrow> nat option step" where
  "next_char tx pos exp = (if pos \<le> length tx then Inr (Some (pos + 1), exp) else Inl Bad_access)"

text \<open>The condition of a word boundary, each part of which is evaluated only if those before it are false.\<close>

definition space_at :: "string \<Rightarrow> nat \<Rightarrow> trex \<Rightarrow> bool step" where
  "space_at tx pos exp = followed (read_char tx pos exp) (\<lambda>c exp. Inr (isspace c, exp))"

definition or_else :: "bool step \<Rightarrow> (trex \<Rightarrow> bool step) \<Rightarrow> bool step" where
  "or_else a b = followed a (\<lambda>x exp. if x then Inr (True, exp) else b exp)"

definition at_boundary :: "string \<Rightarrow> nat \<Rightarrow> trex \<Rightarrow> bool step" where
  "at_boundary tx str exp =
     or_else (if str = tx_bol exp then followed (space_at tx str exp) (\<lambda>b exp. Inr (\<not> b, exp)) else Inr (False, exp)) (\<lambda>exp.
     or_else (if str = tx_eol exp then
         (if str = 0 then Inl Bad_access else followed (space_at tx (str - 1) exp) (\<lambda>b exp. Inr (\<not> b, exp)))
       else Inr (False, exp)) (\<lambda>exp.
     or_else (followed (space_at tx str exp) (\<lambda>b exp. if \<not> b then space_at tx (str + 1) exp else Inr (False, exp))) (\<lambda>exp.
     followed (space_at tx str exp) (\<lambda>b exp.
       if b then followed (space_at tx (str + 1) exp) (\<lambda>b exp. Inr (\<not> b, exp)) else Inr (False, exp)))))"

section \<open>Loops\<close>

text \<open>The counts of a repetition as a node holds them, and the three tests that the number of matches is enough.\<close>

definition count_from :: "int \<Rightarrow> int" where "count_from r = (drop_bit 16 r) AND 0x0000FFFF"
definition count_to :: "int \<Rightarrow> int" where "count_to r = r AND 0x0000FFFF"

definition enough :: "int \<Rightarrow> int \<Rightarrow> int \<Rightarrow> bool" where
  "enough p0 p1 nmaches \<longleftrightarrow> p0 = p1 \<and> p0 = nmaches \<or> p0 \<le> nmaches \<and> p1 = 0xFFFF \<or> p0 \<le> nmaches \<and> nmaches \<le> p1"

text \<open>The loop of a repetition, over the match of its element and the test that what follows it matches.\<close>

function greedy_loop :: "(nat \<Rightarrow> trex \<Rightarrow> nat option step) \<Rightarrow> (nat \<Rightarrow> trex \<Rightarrow> bool step) \<Rightarrow> int \<Rightarrow> int \<Rightarrow> int \<Rightarrow> nat \<Rightarrow> nat \<Rightarrow> trex \<Rightarrow>
    (int \<times> nat) step" where
  "greedy_loop elem_at stops p0 p1 nmaches s good exp =
     (if nmaches = 0xFFFF \<or> nmaches < p1 then
        followed (elem_at s exp) (\<lambda>r exp.
        case r of None \<Rightarrow> Inr ((nmaches, good), exp)
        | Some s \<Rightarrow>
            followed (stops s exp) (\<lambda>stop exp.
            if stop \<and> enough p0 p1 (nmaches + 1) then Inr ((nmaches + 1, s), exp)
            else if tx_eol exp \<le> s then Inr ((nmaches + 1, s), exp)
            else greedy_loop elem_at stops p0 p1 (nmaches + 1) s s exp))
      else Inr ((nmaches, good), exp))"
  by pat_completeness auto
termination
  by (relation "measure (\<lambda>(elem_at, stops, p0, p1, nmaches, s, good, exp). nat (max 0x10000 p1 - nmaches))") auto

declare greedy_loop.simps [simp del]

text \<open>The walk along a chain of nodes, each of which has to match where the one before it ended.  The match of
  a node gets the node that follows it, and the last one \<open>nx\<close>.\<close>

fun match_chain :: "nat \<Rightarrow> (int \<Rightarrow> nat \<Rightarrow> int \<Rightarrow> trex \<Rightarrow> nat option step) \<Rightarrow> int \<Rightarrow> int \<Rightarrow> nat \<Rightarrow> trex \<Rightarrow> nat option step" where
  "match_chain 0 match nx n cur exp = Inl No_fuel"
| "match_chain (Suc k) match nx n cur exp =
     followed (get_node n exp) (\<lambda>m exp.
     followed (match n cur (if n_next m \<noteq> -1 then n_next m else nx) exp) (\<lambda>r exp.
     case r of None \<Rightarrow> Inr (None, exp)
     | Some cur \<Rightarrow> if n_next m \<noteq> -1 then match_chain k match nx (n_next m) cur exp else Inr (Some cur, exp)))"

section \<open>Sub-expressions\<close>

definition set_match :: "int \<Rightarrow> (nat option \<times> int \<Rightarrow> nat option \<times> int) \<Rightarrow> trex \<Rightarrow> unit step" where
  "set_match i f exp =
     (if 0 \<le> i \<and> i < int (length (tx_matches exp))
      then Inr ((), exp\<lparr>tx_matches := (tx_matches exp)[nat i := f (tx_matches exp ! nat i)]\<rparr>) else Inl Bad_access)"

definition begin_capture :: "trex_node \<Rightarrow> nat \<Rightarrow> trex \<Rightarrow> int step" where
  "begin_capture node cur exp =
     (if n_type node \<noteq> OP_NOCAPEXPR \<and> n_right node = tx_currsubexp exp then
        followed (set_match (tx_currsubexp exp) (\<lambda>(b, l). (Some cur, l)) exp) (\<lambda>_ exp.
        Inr (n_right node, exp\<lparr>tx_currsubexp := tx_currsubexp exp + 1\<rparr>))
      else Inr (-1, exp))"

definition end_capture :: "int \<Rightarrow> nat option \<Rightarrow> trex \<Rightarrow> nat option step" where
  "end_capture capture r exp =
     (if capture = -1 then Inr (r, exp)
      else followed (set_match capture (\<lambda>(b, l). case r of None \<Rightarrow> (None, 0)
          | Some cur \<Rightarrow> (b, int cur - (case b of None \<Rightarrow> 0 | Some b \<Rightarrow> int b))) exp) (\<lambda>_ exp. Inr (r, exp)))"

section \<open>Matching a node\<close>

text \<open>The test in the loop of a repetition whether what follows it matches; a following repetition that may be empty is not asked.\<close>

definition greedy_stops :: "(int \<Rightarrow> nat \<Rightarrow> int \<Rightarrow> trex \<Rightarrow> nat option step) \<Rightarrow> int \<Rightarrow> int \<Rightarrow> nat \<Rightarrow> trex \<Rightarrow> bool step" where
  "greedy_stops match greedystop nx s exp =
     (if greedystop = -1 then Inr (False, exp) else
      followed (get_node greedystop exp) (\<lambda>g exp.
      if n_type g \<noteq> OP_GREEDY \<or> n_type g = OP_GREEDY \<and> count_from (n_right g) \<noteq> 0 then
        followed (if n_next g \<noteq> -1 then Inr (n_next g, exp)
          else if nx \<noteq> -1 then followed (get_node nx exp) (\<lambda>n exp. Inr (n_next n, exp))
          else Inr (-1, exp)) (\<lambda>gnext exp.
        followed (match greedystop s gnext exp) (\<lambda>stop exp. Inr (stop \<noteq> None, exp)))
      else Inr (False, exp)))"

definition match_greedy :: "(int \<Rightarrow> nat \<Rightarrow> int \<Rightarrow> trex \<Rightarrow> nat option step) \<Rightarrow> trex_node \<Rightarrow> nat \<Rightarrow> int \<Rightarrow> trex \<Rightarrow> nat option step" where
  "match_greedy match node str nx exp =
     (let p0 = count_from (n_right node); p1 = count_to (n_right node);
          greedystop = (if n_next node \<noteq> -1 then n_next node else nx) in
      followed (greedy_loop (\<lambda>s exp. match (n_left node) s greedystop exp) (greedy_stops match greedystop nx) p0 p1 0 str str exp)
        (\<lambda>(nmaches, good) exp. Inr (if enough p0 p1 nmaches then Some good else None, exp)))"

definition match_or :: "(int \<Rightarrow> nat \<Rightarrow> int \<Rightarrow> trex \<Rightarrow> nat option step) \<Rightarrow> trex_node \<Rightarrow> nat \<Rightarrow> trex \<Rightarrow> nat option step" where
  "match_or match node str exp =
     (let k = length (tx_nodes exp) in
      followed (match_chain k (\<lambda>n s _. match n s (-1)) (-1) (n_left node) str exp) (\<lambda>asd exp.
      case asd of Some asd \<Rightarrow> Inr (Some asd, exp)
      | None \<Rightarrow> match_chain k (\<lambda>n s _. match n s (-1)) (-1) (n_right node) str exp))"

definition match_expr :: "(int \<Rightarrow> nat \<Rightarrow> int \<Rightarrow> trex \<Rightarrow> nat option step) \<Rightarrow> trex_node \<Rightarrow> nat \<Rightarrow> int \<Rightarrow> trex \<Rightarrow> nat option step" where
  "match_expr match node str nx exp =
     followed (begin_capture node str exp) (\<lambda>capture exp.
     followed (match_chain (length (tx_nodes exp)) match nx (n_left node) str exp) (\<lambda>r exp.
     end_capture capture r exp))"

definition match_atom :: "string \<Rightarrow> trex_node \<Rightarrow> nat \<Rightarrow> trex \<Rightarrow> nat option step" where
  "match_atom tx node str exp =
     (if n_type node = OP_WB then
        followed (at_boundary tx str exp) (\<lambda>b exp.
        Inr (if b then (if n_left node = signed_char (CHR ''b'') then Some str else None)
          else if n_left node = signed_char (CHR ''b'') then None else Some str, exp))
      else if n_type node = OP_BOL then Inr (if str = tx_bol exp then Some str else None, exp)
      else if n_type node = OP_EOL then Inr (if str = tx_eol exp then Some str else None, exp)
      else if n_type node = OP_DOT then next_char tx str exp
      else if n_type node = OP_NCLASS \<or> n_type node = OP_CLASS then
        followed (read_char tx str exp) (\<lambda>c exp.
        followed (trex_matchclass (length (tx_nodes exp)) exp (n_left node) c) (\<lambda>b exp.
        if b = (n_type node = OP_CLASS) then next_char tx str exp else Inr (None, exp)))
      else followed (read_char tx str exp) (\<lambda>c exp.
        if (if n_type node = OP_CCLASS then trex_matchcclass (n_left node) c else char_matches (tx_flags exp) (n_type node) c)
        then next_char tx str exp else Inr (None, exp)))"

primrec trex_matchnode :: "nat \<Rightarrow> string \<Rightarrow> int \<Rightarrow> nat \<Rightarrow> int \<Rightarrow> trex \<Rightarrow> nat option step" where
  "trex_matchnode 0 tx i str nx exp = Inl No_fuel"
| "trex_matchnode (Suc fuel) tx i str nx exp =
     followed (get_node i exp) (\<lambda>node exp.
     if n_type node = OP_GREEDY then match_greedy (trex_matchnode fuel tx) node str nx exp
     else if n_type node = OP_OR then match_or (trex_matchnode fuel tx) node str exp
     else if n_type node = OP_EXPR \<or> n_type node = OP_NOCAPEXPR then match_expr (trex_matchnode fuel tx) node str nx exp
     else match_atom tx node str exp)"

section \<open>Matching and searching\<close>

definition match_bound :: "trex \<Rightarrow> nat" where
  "match_bound exp = Suc (length (tx_nodes exp))"

text \<open>The program is a pointer, which is null when the pattern was refused.\<close>

definition trex_match :: "trex option \<Rightarrow> string \<Rightarrow> bool step" where
  "trex_match exp tx =
     (case exp of None \<Rightarrow> Inl Bad_access
      | Some exp \<Rightarrow>
         followed (trex_matchnode (match_bound exp) tx 0 0 (-1) (exp\<lparr>tx_bol := 0, tx_eol := length tx, tx_currsubexp := 0\<rparr>))
           (\<lambda>res exp. Inr (res = Some (tx_eol exp), exp)))"

fun search_nodes :: "nat \<Rightarrow> string \<Rightarrow> int \<Rightarrow> nat \<Rightarrow> trex \<Rightarrow> (nat option \<times> int) step" where
  "search_nodes 0 tx node cur exp = Inl No_fuel"
| "search_nodes (Suc k) tx node cur exp =
     (if node = -1 then Inr ((Some cur, node), exp)
      else followed (trex_matchnode (match_bound exp) tx node cur (-1) (exp\<lparr>tx_currsubexp := 0\<rparr>)) (\<lambda>r exp.
        case r of None \<Rightarrow> Inr ((None, node), exp)
        | Some cur \<Rightarrow> followed (get_node node exp) (\<lambda>n exp. search_nodes k tx (n_next n) cur exp)))"

text \<open>The first start from which the program matches, and the end of the match.\<close>

fun search_loop :: "nat \<Rightarrow> string \<Rightarrow> int \<Rightarrow> nat \<Rightarrow> trex \<Rightarrow> (nat \<times> nat) option step" where
  "search_loop 0 tx node text_begin exp = Inr (None, exp)"
| "search_loop (Suc n) tx node text_begin exp =
     followed (search_nodes (Suc (length (tx_nodes exp))) tx node text_begin exp) (\<lambda>(cur, node) exp.
     case cur of Some cur \<Rightarrow> Inr (Some (text_begin, cur), exp)
     | None \<Rightarrow> search_loop n tx node (text_begin + 1) exp)"

definition trex_searchrange :: "trex \<Rightarrow> string \<Rightarrow> nat \<Rightarrow> nat \<Rightarrow> (nat \<times> nat) option step" where
  "trex_searchrange exp tx text_begin text_end =
     (if text_end \<le> text_begin then Inr (None, exp)
      else search_loop (text_end - text_begin) tx (tx_first exp) text_begin (exp\<lparr>tx_bol := text_begin, tx_eol := text_end\<rparr>))"

definition trex_search :: "trex \<Rightarrow> string \<Rightarrow> (nat \<times> nat) option step" where
  "trex_search exp tx = trex_searchrange exp tx 0 (length tx)"

definition trex_getsubexpcount :: "trex \<Rightarrow> int" where
  "trex_getsubexpcount exp = tx_nsubexpr exp"

definition trex_getsubexp :: "trex \<Rightarrow> int \<Rightarrow> (nat option \<times> int) option" where
  "trex_getsubexp exp n = (if n < 0 \<or> tx_nsubexpr exp \<le> n then None else Some (tx_matches exp ! nat n))"

text \<open>Compiling and matching, as the scanning of a value does it one after the other.\<close>

definition compile_and_match :: "string \<Rightarrow> int \<Rightarrow> string \<Rightarrow> stop + bool" where
  "compile_and_match pattern flags argval =
     (case trex_compile pattern flags of Inl s \<Rightarrow> Inl s
      | Inr (rex, error) \<Rightarrow> (case trex_match rex argval of Inl s \<Rightarrow> Inl s | Inr (is_match, rex) \<Rightarrow> Inr is_match))"

lemma compile_and_match_Inr:
  "compile_and_match pattern flags argval = Inr b \<longleftrightarrow>
     (\<exists>exp exp'. trex_compile pattern flags = Inr (Some exp, None) \<and> trex_match (Some exp) argval = Inr (b, exp'))"
  by (auto simp: compile_and_match_def trex_compile_def trex_match_def split: sum.splits option.splits stop.splits)

end
