(* ===== verification/Arg_Nodes.thy ===== *)
theory Arg_Nodes
  imports Arg_Match
begin

text \<open>
  The steps of the compiler of regular expressions, and the expressions that arrays of nodes hold: a node or a chain of
  nodes holds one expression, which stays when the array grows.  The reading of characters and of classes.
\<close>

section \<open>Steps that do not fault\<close>

text \<open>A step yields when it reports an error of the pattern, or ends with a result and a state as stated.\<close>

definition yields :: "'a step \<Rightarrow> ('a \<Rightarrow> trex \<Rightarrow> bool) \<Rightarrow> bool" where
  "yields r Q = (case r of Inr (x, exp) \<Rightarrow> Q x exp | Inl (Bad_pattern _) \<Rightarrow> True | Inl _ \<Rightarrow> False)"

lemma yields_simps [simp]: "yields (Inr (x, exp)) Q = Q x exp" "yields (trex_error m) Q" "yields (Inl (Bad_pattern m)) Q"
  "\<not> yields (Inl Bad_access) Q" "\<not> yields (Inl No_fuel) Q"
  by (simp_all add: yields_def trex_error_def)

lemma yields_followed: "yields r P \<Longrightarrow> (\<And>x exp. P x exp \<Longrightarrow> yields (f x exp) Q) \<Longrightarrow> yields (followed r f) Q"
proof (cases r)
  case (Inl s)
  then show "yields r P \<Longrightarrow> (\<And>x exp. P x exp \<Longrightarrow> yields (f x exp) Q) \<Longrightarrow> ?thesis" by (cases s) auto
next
  case (Inr y)
  then show "yields r P \<Longrightarrow> (\<And>x exp. P x exp \<Longrightarrow> yields (f x exp) Q) \<Longrightarrow> ?thesis" by (cases y) auto
qed

lemma yields_mono: "yields r P \<Longrightarrow> (\<And>x exp. P x exp \<Longrightarrow> Q x exp) \<Longrightarrow> yields r Q"
  by (auto simp: yields_def split: sum.splits stop.splits)

lemma yields_if: "(b \<Longrightarrow> yields r Q) \<Longrightarrow> (\<not> b \<Longrightarrow> yields r' Q) \<Longrightarrow> yields (if b then r else r') Q"
  by simp

lemma followed_error [simp]: "followed (trex_error m) f = trex_error m"
  by (simp add: trex_error_def)

section \<open>Patterns\<close>

text \<open>The last escape is complete, and no number has more than nine digits.\<close>

fun escapes_closed :: "string \<Rightarrow> bool" where
  "escapes_closed [] \<longleftrightarrow> True"
| "escapes_closed [c] \<longleftrightarrow> c \<noteq> CHR 0x5C"
| "escapes_closed (c # d # p) \<longleftrightarrow> (if c = CHR 0x5C then escapes_closed p else escapes_closed (d # p))"

definition digit_of :: "char \<Rightarrow> bool" where
  "digit_of c = isdigit (signed_char c)"

fun short_numbers :: "string \<Rightarrow> bool" where
  "short_numbers [] \<longleftrightarrow> True"
| "short_numbers (c # p) \<longleftrightarrow> length (takeWhile digit_of (c # p)) \<le> 9 \<and> short_numbers p"

lemma escapes_closed_tail: "escapes_closed (c # p) \<Longrightarrow> c \<noteq> CHR 0x5C \<Longrightarrow> escapes_closed p"
  by (cases p) auto

lemma escape_complete: "escapes_closed (CHR 0x5C # p) \<Longrightarrow> \<exists>d p'. p = d # p' \<and> escapes_closed p'"
  by (cases p) auto

lemma escapes_closed_digits: "escapes_closed p \<Longrightarrow> escapes_closed (dropWhile digit_of p)"
proof (induction p)
  case (Cons c p)
  have "\<not> digit_of (CHR 0x5C)" by (simp add: digit_of_def isdigit_def signed_char_def)
  then show ?case using Cons escapes_closed_tail [of c p] by (cases "digit_of c") auto
qed simp

lemma short_numbers_digits: "short_numbers p \<Longrightarrow> short_numbers (dropWhile digit_of p)"
  by (induction p) (auto split: if_splits)

section \<open>Growing arrays\<close>

definition roomy :: "trex \<Rightarrow> bool" where
  "roomy exp \<longleftrightarrow> 1 \<le> tx_nallocated exp \<and> length (tx_nodes exp) \<le> tx_nallocated exp"

definition fresh :: "trex \<Rightarrow> int \<Rightarrow> trex_node" where
  "fresh exp t = \<lparr>n_type = t, n_left = -1, n_right = (if t = OP_EXPR then tx_nsubexpr exp else -1), n_next = -1\<rparr>"

definition grown :: "trex \<Rightarrow> int \<Rightarrow> trex" where
  "grown exp t = exp\<lparr>tx_nodes := tx_nodes exp @ [fresh exp t],
     tx_nsubexpr := (if t = OP_EXPR then tx_nsubexpr exp + 1 else tx_nsubexpr exp),
     tx_nallocated := (if tx_nallocated exp < length (tx_nodes exp) + 1 then tx_nallocated exp * 2 else tx_nallocated exp)\<rparr>"

abbreviation size_of :: "trex \<Rightarrow> int" where "size_of exp \<equiv> int (length (tx_nodes exp))"

lemma newnode_roomy: "roomy exp \<Longrightarrow> trex_newnode exp t = Inr (size_of exp, grown exp t)"
  by (auto simp: trex_newnode_def Let_def roomy_def grown_def fresh_def)

lemma roomy_grown [simp]: "roomy exp \<Longrightarrow> roomy (grown exp t)"
  by (auto simp: roomy_def grown_def)

lemma grown_simps [simp]: "tx_nodes (grown exp t) = tx_nodes exp @ [fresh exp t]" "tx_p (grown exp t) = tx_p exp"
  "tx_nsubexpr (grown exp t) = (if t = OP_EXPR then tx_nsubexpr exp + 1 else tx_nsubexpr exp)"
  "tx_flags (grown exp t) = tx_flags exp" "tx_first (grown exp t) = tx_first exp"
  by (simp_all add: grown_def)

lemma fresh_simps [simp]: "n_type (fresh exp t) = t" "n_next (fresh exp t) = -1" "n_left (fresh exp t) = -1"
  "n_right (fresh exp t) = (if t = OP_EXPR then tx_nsubexpr exp else -1)"
  by (simp_all add: fresh_def)

lemma set_node_eq: "0 \<le> i \<Longrightarrow> i < size_of exp \<Longrightarrow>
   set_node i f exp = Inr ((), exp\<lparr>tx_nodes := (tx_nodes exp)[nat i := f (tx_nodes exp ! nat i)]\<rparr>)"
  by (simp add: set_node_def get_node_def)

lemma get_node_eq: "0 \<le> i \<Longrightarrow> i < size_of exp \<Longrightarrow> get_node i exp = Inr (tx_nodes exp ! nat i, exp)"
  by (simp add: get_node_def)

lemma fresh_pattern [simp]: "fresh (exp\<lparr>tx_p := p\<rparr>) t = fresh exp t"
  by (simp add: fresh_def)

text \<open>A state that the compiler can go on from, and how it grows.\<close>

definition ready :: "trex \<Rightarrow> bool" where
  "ready exp \<longleftrightarrow> roomy exp \<and> 0 \<le> tx_nsubexpr exp \<and> escapes_closed (tx_p exp) \<and> short_numbers (tx_p exp)"

definition extends :: "trex \<Rightarrow> trex \<Rightarrow> bool" where
  "extends exp exp' \<longleftrightarrow> ready exp' \<and> size_of exp \<le> size_of exp' \<and> (\<forall>k < length (tx_nodes exp). tx_nodes exp' ! k = tx_nodes exp ! k) \<and>
     tx_nsubexpr exp \<le> tx_nsubexpr exp' \<and> length (tx_p exp') \<le> length (tx_p exp) \<and> tx_flags exp' = tx_flags exp \<and> tx_first exp' = tx_first exp"

lemma extends_trans: "extends a b \<Longrightarrow> extends b c \<Longrightarrow> extends a c"
  unfolding extends_def by auto

lemma extends_refl: "ready exp \<Longrightarrow> extends exp exp"
  by (simp add: extends_def)

lemma extends_ready: "extends a b \<Longrightarrow> ready b"
  by (simp add: extends_def)

lemma extends_grown: "ready exp \<Longrightarrow> extends exp (grown exp t)"
  by (auto simp: extends_def ready_def nth_append)

lemma peek_cons: "peek exp = c \<Longrightarrow> c \<noteq> NUL \<Longrightarrow> \<exists>p. tx_p exp = c # p"
  by (auto simp: peek_def split: list.splits)

text \<open>Reading one character that is not a backslash.\<close>

lemma advance_ready:
  assumes "ready exp" "peek exp \<noteq> NUL" "peek exp \<noteq> CHR 0x5C"
  shows "\<exists>p. tx_p exp = peek exp # p \<and> advance exp = Inr ((), exp\<lparr>tx_p := p\<rparr>) \<and> extends exp (exp\<lparr>tx_p := p\<rparr>)"
proof -
  obtain p where p: "tx_p exp = peek exp # p" using peek_cons [OF refl assms(2)] by auto
  then have "escapes_closed p" "short_numbers p" using assms escapes_closed_tail [of "peek exp" p] by (auto simp: ready_def)
  moreover have "advance exp = Inr ((), exp\<lparr>tx_p := p\<rparr>)" using p by (simp add: advance_def)
  ultimately show ?thesis using p assms by (auto simp: extends_def ready_def roomy_def)
qed
text \<open>Reading an escape: the backslash and the character after it.\<close>

lemma escape_ready:
  assumes "ready exp" "peek exp = CHR 0x5C"
  shows "\<exists>d p. tx_p exp = CHR 0x5C # d # p \<and> advance exp = Inr ((), exp\<lparr>tx_p := d # p\<rparr>) \<and>
    advance (exp\<lparr>tx_p := d # p\<rparr>) = Inr ((), exp\<lparr>tx_p := p\<rparr>) \<and> peek (exp\<lparr>tx_p := d # p\<rparr>) = d \<and> extends exp (exp\<lparr>tx_p := p\<rparr>)"
proof -
  obtain q where q: "tx_p exp = CHR 0x5C # q" using peek_cons [OF assms(2)] by auto
  then obtain d p where p: "q = d # p" "escapes_closed p" using assms escape_complete [of q] by (auto simp: ready_def)
  have "short_numbers p" using assms(1) q p(1) by (simp add: ready_def)
  then show ?thesis using q p assms by (auto simp: advance_def peek_def extends_def ready_def roomy_def)
qed

lemma extends_new: "extends exp a \<Longrightarrow> extends exp (grown a t)"
  using extends_trans extends_grown extends_ready by blast

lemma not_print_NUL: "isprint (signed_char c) \<Longrightarrow> c \<noteq> NUL"
  by (auto simp: isprint_def signed_char_def)

lemma escapechar_yields:
  assumes "ready exp"
  shows "yields (trex_escapechar exp) (\<lambda>c exp'. extends exp exp' \<and> tx_nodes exp' = tx_nodes exp \<and> length (tx_p exp') < length (tx_p exp))"
proof (cases "peek exp = CHR 0x5C")
  case True
  from escape_ready [OF assms True] show ?thesis by (auto simp: trex_escapechar_def True Let_def)
next
  case False
  show ?thesis
  proof (cases "isprint (signed_char (peek exp))")
    case True
    from advance_ready [OF assms not_print_NUL [OF True] False] False True show ?thesis by (auto simp: trex_escapechar_def Let_def)
  qed (simp add: trex_escapechar_def False)
qed

text \<open>A character node is one node, of one of three kinds.\<close>

definition atom_type :: "bool \<Rightarrow> int \<Rightarrow> bool" where
  "atom_type isclass t \<longleftrightarrow> t < 256 \<or> t = OP_CCLASS \<or> \<not> isclass \<and> t = OP_WB"

lemma signed_char_small [simp]: "signed_char c < 256"
proof -
  have "(of_char c :: int) < 256" using of_char_of [of "of_char c :: nat"] by (metis of_char_mod_256 mod_less_divisor of_nat_of_char of_nat_less_numeral_iff zero_less_numeral)
  then show ?thesis by (auto simp: signed_char_def Let_def)
qed

definition adds_atom :: "bool \<Rightarrow> trex \<Rightarrow> int \<Rightarrow> trex \<Rightarrow> bool" where
  "adds_atom isclass exp i exp' \<longleftrightarrow> i = size_of exp \<and> extends exp exp' \<and> length (tx_p exp') < length (tx_p exp) \<and>
     (\<exists>n. tx_nodes exp' = tx_nodes exp @ [n] \<and> n_next n = -1 \<and> atom_type isclass (n_type n))"

lemma adds_new: "extends exp a \<Longrightarrow> tx_nodes a = tx_nodes exp \<Longrightarrow> length (tx_p a) < length (tx_p exp) \<Longrightarrow> t < 256 \<Longrightarrow>
   yields (trex_newnode a t) (adds_atom isclass exp)"
  by (auto simp: newnode_roomy extends_def ready_def adds_atom_def atom_type_def nth_append)

lemma adds_left:
  assumes "extends exp a" "tx_nodes a = tx_nodes exp" "length (tx_p a) < length (tx_p exp)" "atom_type isclass t" "t \<noteq> OP_EXPR"
    and "tx_nodes exp' = tx_nodes exp @ [(fresh a t)\<lparr>n_left := v\<rparr>]" "tx_p exp' = tx_p a" "roomy exp'"
    "tx_nsubexpr exp' = tx_nsubexpr a" "tx_flags exp' = tx_flags a" "tx_first exp' = tx_first a"
  shows "adds_atom isclass exp (size_of exp) exp'"
  using assms by (auto simp: extends_def ready_def adds_atom_def nth_append)

lemma charnode_yields:
  assumes "ready exp"
  shows "yields (trex_charnode exp isclass) (adds_atom isclass exp)"
proof (cases "peek exp = CHR 0x5C")
  case True
  then obtain d p where p: "tx_p exp = CHR 0x5C # d # p" "advance exp = Inr ((), exp\<lparr>tx_p := d # p\<rparr>)"
    "advance (exp\<lparr>tx_p := d # p\<rparr>) = Inr ((), exp\<lparr>tx_p := p\<rparr>)" "peek (exp\<lparr>tx_p := d # p\<rparr>) = d" "extends exp (exp\<lparr>tx_p := p\<rparr>)"
    using escape_ready [OF assms] by blast
  have r: "roomy (exp\<lparr>tx_p := q\<rparr>)" for q using assms by (simp add: ready_def roomy_def)
  have simple: "yields (trex_newnode (exp\<lparr>tx_p := p\<rparr>) (signed_char c)) (adds_atom isclass exp)" for c
    by (rule adds_new) (use p in auto)
  have cls: "yields (trex_charclass (exp\<lparr>tx_p := p\<rparr>) c) (adds_atom isclass exp)" for c
    unfolding trex_charclass_def newnode_roomy [OF r]
    by (auto simp: set_node_eq nth_append op_codes atom_type_def p(1) list_update_append roomy_grown [OF r, unfolded roomy_def, simplified] roomy_def
        intro!: adds_left [OF p(5), of _ OP_CCLASS])
  have wb: "yields (followed (trex_newnode (exp\<lparr>tx_p := d # p\<rparr>) OP_WB) (\<lambda>n exp.
      followed (set_node n (\<lambda>m. m\<lparr>n_left := c\<rparr>) exp) (\<lambda>_ exp. followed (advance exp) (\<lambda>_ exp. Inr (n, exp))))) (adds_atom isclass exp)"
    if "\<not> isclass" for c
    using that unfolding newnode_roomy [OF r]
    by (auto simp: set_node_eq nth_append op_codes atom_type_def p(1) list_update_append advance_def roomy_grown [OF r, unfolded roomy_def, simplified] roomy_def
        intro!: adds_left [OF p(5), of _ OP_WB])
  show ?thesis
    unfolding trex_charnode_def using simple cls wb by (simp add: True p Let_def)
next
  case False
  show ?thesis
  proof (cases "isprint (signed_char (peek exp))")
    case True
    from advance_ready [OF assms not_print_NUL [OF True] False] False True show ?thesis
      by (auto simp: trex_charnode_def Let_def intro!: adds_new)
  qed (simp add: trex_charnode_def False)
qed
section \<open>Expressions in arrays of nodes\<close>

datatype member = One int | Range int int | Named int

datatype rx = R_char int | R_dot | R_bol | R_eol | R_boundary bool | R_class int | R_set bool "member list"
  | R_group "rx list" | R_alt "rx list" "rx list" | R_repeat rx int int

definition member_of :: "trex_node \<Rightarrow> member" where
  "member_of n = (if n_type n = OP_RANGE then Range (n_left n) (n_right n) else if n_type n = OP_CCLASS then Named (n_left n)
     else One (n_type n))"

text \<open>The members of a class are nodes with growing indexes from \<open>lo\<close> up to \<open>hi\<close>.\<close>

inductive members_at :: "trex_node list \<Rightarrow> int \<Rightarrow> int \<Rightarrow> int \<Rightarrow> member list \<Rightarrow> bool" for ns where
  last_member: "lo \<le> i \<Longrightarrow> i < hi \<Longrightarrow> n_next (ns ! nat i) = -1 \<Longrightarrow> members_at ns lo hi i [member_of (ns ! nat i)]"
| more_members: "lo \<le> i \<Longrightarrow> i < hi \<Longrightarrow> n_next (ns ! nat i) = j \<Longrightarrow> j \<noteq> -1 \<Longrightarrow> members_at ns (i + 1) hi j ms \<Longrightarrow>
    members_at ns lo hi i (member_of (ns ! nat i) # ms)"

lemma members_bounds: "members_at ns lo hi i ms \<Longrightarrow> lo \<le> i \<and> i < hi"
  by (induction rule: members_at.induct) auto

lemma members_frame: "members_at ns lo hi i ms \<Longrightarrow> 0 \<le> lo \<Longrightarrow> lo' \<le> lo \<Longrightarrow> hi \<le> hi' \<Longrightarrow> (\<forall>k. lo \<le> k \<and> k < hi \<longrightarrow> ns' ! nat k = ns ! nat k) \<Longrightarrow>
   members_at ns' lo' hi' i ms"
proof (induction arbitrary: lo' rule: members_at.induct)
  case (last_member lo i hi)
  then show ?case using members_at.last_member [of lo' i hi' ns'] by auto
next
  case (more_members lo i hi j ms)
  then have "members_at ns' (i + 1) hi' j ms" by auto
  then show ?case using more_members members_at.more_members [of lo' i hi' ns' j ms] by auto
qed

text \<open>An expression at a node, and a sequence of expressions at a chain of nodes, between two indexes.  A node comes after
  the node that it repeats and after its left branch, and before the sequence of its group.  The sub-expressions
  have numbers below \<open>K\<close>.\<close>

inductive node_at :: "trex_node list \<Rightarrow> int \<Rightarrow> int \<Rightarrow> int \<Rightarrow> int \<Rightarrow> rx \<Rightarrow> bool"
  and seq_at :: "trex_node list \<Rightarrow> int \<Rightarrow> int \<Rightarrow> int \<Rightarrow> int \<Rightarrow> rx list \<Rightarrow> bool" for ns K where
  char_node: "lo \<le> i \<Longrightarrow> i < hi \<Longrightarrow> n_type (ns ! nat i) < 256 \<Longrightarrow> node_at ns K lo hi i (R_char (n_type (ns ! nat i)))"
| dot_node: "lo \<le> i \<Longrightarrow> i < hi \<Longrightarrow> n_type (ns ! nat i) = OP_DOT \<Longrightarrow> node_at ns K lo hi i R_dot"
| bol_node: "lo \<le> i \<Longrightarrow> i < hi \<Longrightarrow> n_type (ns ! nat i) = OP_BOL \<Longrightarrow> node_at ns K lo hi i R_bol"
| eol_node: "lo \<le> i \<Longrightarrow> i < hi \<Longrightarrow> n_type (ns ! nat i) = OP_EOL \<Longrightarrow> node_at ns K lo hi i R_eol"
| boundary_node: "lo \<le> i \<Longrightarrow> i < hi \<Longrightarrow> n_type (ns ! nat i) = OP_WB \<Longrightarrow>
    node_at ns K lo hi i (R_boundary (n_left (ns ! nat i) = signed_char (CHR ''b'')))"
| class_node: "lo \<le> i \<Longrightarrow> i < hi \<Longrightarrow> n_type (ns ! nat i) = OP_CCLASS \<Longrightarrow> node_at ns K lo hi i (R_class (n_left (ns ! nat i)))"
| set_node: "lo \<le> i \<Longrightarrow> i < hi \<Longrightarrow> n_type (ns ! nat i) = OP_CLASS \<or> n_type (ns ! nat i) = OP_NCLASS \<Longrightarrow>
    members_at ns (i + 1) hi (n_left (ns ! nat i)) ms \<Longrightarrow> node_at ns K lo hi i (R_set (n_type (ns ! nat i) = OP_NCLASS) ms)"
| group_node: "lo \<le> i \<Longrightarrow> i < hi \<Longrightarrow> n_type (ns ! nat i) = OP_NOCAPEXPR \<or> n_type (ns ! nat i) = OP_EXPR \<and> 0 \<le> n_right (ns ! nat i) \<and> n_right (ns ! nat i) < K \<Longrightarrow>
    seq_at ns K (i + 1) hi (n_left (ns ! nat i)) es \<Longrightarrow> node_at ns K lo hi i (R_group es)"
| alt_node: "lo \<le> i \<Longrightarrow> i < hi \<Longrightarrow> n_type (ns ! nat i) = OP_OR \<Longrightarrow> seq_at ns K lo i (n_left (ns ! nat i)) es \<Longrightarrow>
    seq_at ns K (i + 1) hi (n_right (ns ! nat i)) fs \<Longrightarrow> node_at ns K lo hi i (R_alt es fs)"
| repeat_node: "lo \<le> i \<Longrightarrow> i < hi \<Longrightarrow> n_type (ns ! nat i) = OP_GREEDY \<Longrightarrow> node_at ns K lo i (n_left (ns ! nat i)) e \<Longrightarrow>
    n_next (ns ! nat (n_left (ns ! nat i))) = -1 \<Longrightarrow>
    node_at ns K lo hi i (R_repeat e (count_from (n_right (ns ! nat i))) (count_to (n_right (ns ! nat i))))"
| last_node: "node_at ns K lo hi i e \<Longrightarrow> n_next (ns ! nat i) = -1 \<Longrightarrow> seq_at ns K lo hi i [e]"
| more_nodes: "node_at ns K lo m i e \<Longrightarrow> m \<le> hi \<Longrightarrow> n_next (ns ! nat i) = j \<Longrightarrow> j \<noteq> -1 \<Longrightarrow> seq_at ns K m hi j es \<Longrightarrow> seq_at ns K lo hi i (e # es)"

lemma node_at_bounds: "node_at ns K lo hi i e \<Longrightarrow> lo \<le> i \<and> i < hi" and seq_at_bounds: "seq_at ns K lo hi i es \<Longrightarrow> lo \<le> i \<and> i < hi \<and> es \<noteq> []"
  by (induction rule: node_at_seq_at.inducts) auto

text \<open>The expression stays when nodes outside the two indexes change, and the \<open>next\<close> of its own node.\<close>

definition same_but_next :: "trex_node \<Rightarrow> trex_node \<Rightarrow> bool" where
  "same_but_next n m \<longleftrightarrow> n_type m = n_type n \<and> n_left m = n_left n \<and> n_right m = n_right n"

lemma same_but_next_refl [simp]: "same_but_next n n" "same_but_next n (n\<lparr>n_next := j\<rparr>)"
  by (simp_all add: same_but_next_def)

lemma member_of_same: "same_but_next n m \<Longrightarrow> member_of m = member_of n"
  by (simp add: same_but_next_def member_of_def)

lemma node_at_frame: "node_at ns K lo hi i e \<Longrightarrow> 0 \<le> lo \<Longrightarrow> lo' \<le> lo \<Longrightarrow> hi \<le> hi' \<Longrightarrow> K \<le> K' \<Longrightarrow>
    (\<forall>k. lo \<le> k \<and> k < hi \<longrightarrow> (if k = i then same_but_next (ns ! nat k) (ns' ! nat k) else ns' ! nat k = ns ! nat k)) \<Longrightarrow> node_at ns' K' lo' hi' i e"
  and seq_at_frame: "seq_at ns K lo hi i es \<Longrightarrow> 0 \<le> lo \<Longrightarrow> lo' \<le> lo \<Longrightarrow> hi \<le> hi' \<Longrightarrow> K \<le> K' \<Longrightarrow>
    (\<forall>k. lo \<le> k \<and> k < hi \<longrightarrow> ns' ! nat k = ns ! nat k) \<Longrightarrow> seq_at ns' K' lo' hi' i es"
proof (induction arbitrary: lo' hi' and lo' hi' rule: node_at_seq_at.inducts)
  case (char_node lo i hi)
  then show ?case using node_at_seq_at.char_node [of lo' i hi' ns' K'] by (auto simp: same_but_next_def split: if_splits)
next
  case (dot_node lo i hi)
  then show ?case using node_at_seq_at.dot_node [of lo' i hi' ns' K'] by (auto simp: same_but_next_def split: if_splits)
next
  case (bol_node lo i hi)
  then show ?case using node_at_seq_at.bol_node [of lo' i hi' ns' K'] by (auto simp: same_but_next_def split: if_splits)
next
  case (eol_node lo i hi)
  then show ?case using node_at_seq_at.eol_node [of lo' i hi' ns' K'] by (auto simp: same_but_next_def split: if_splits)
next
  case (boundary_node lo i hi)
  then show ?case using node_at_seq_at.boundary_node [of lo' i hi' ns' K'] by (auto simp: same_but_next_def split: if_splits)
next
  case (class_node lo i hi)
  then show ?case using node_at_seq_at.class_node [of lo' i hi' ns' K'] by (auto simp: same_but_next_def split: if_splits)
next
  case (set_node lo i hi ms)
  have "same_but_next (ns ! nat i) (ns' ! nat i)" using set_node by auto
  moreover have "members_at ns' (i + 1) hi' (n_left (ns ! nat i)) ms"
    by (rule members_frame [OF set_node(4)]) (use set_node in auto)
  ultimately show ?case using node_at_seq_at.set_node [of lo' i hi' ns' ms K'] set_node by (auto simp: same_but_next_def)
next
  case (group_node lo i hi es)
  have "same_but_next (ns ! nat i) (ns' ! nat i)" using group_node by auto
  moreover have "seq_at ns' K' (i + 1) hi' (n_left (ns ! nat i)) es" using group_node by auto
  ultimately show ?case using node_at_seq_at.group_node [of lo' i hi' ns' K' es] group_node by (auto simp: same_but_next_def)
next
  case (alt_node lo i hi es fs)
  have "same_but_next (ns ! nat i) (ns' ! nat i)" using alt_node by auto
  moreover have "seq_at ns' K' lo' i (n_left (ns ! nat i)) es" "seq_at ns' K' (i + 1) hi' (n_right (ns ! nat i)) fs" using alt_node by auto
  ultimately show ?case using node_at_seq_at.alt_node [of lo' i hi' ns' K' es fs] alt_node by (auto simp: same_but_next_def)
next
  case (repeat_node lo i hi e)
  let ?l = "n_left (ns ! nat i)"
  have s: "same_but_next (ns ! nat i) (ns' ! nat i)" using repeat_node by auto
  have b: "lo \<le> ?l" "?l < i" using node_at_bounds [OF repeat_node(4)] by auto
  have e: "ns' ! nat k = ns ! nat k" if "lo \<le> k" "k < i" for k using repeat_node.prems(5) repeat_node.hyps(2) that by auto
  have "node_at ns' K' lo' i ?l e" by (rule repeat_node.IH) (use repeat_node e in \<open>auto simp: same_but_next_def\<close>)
  moreover have "n_next (ns' ! nat ?l) = -1" using e [OF b] repeat_node by simp
  ultimately show ?case using node_at_seq_at.repeat_node [of lo' i hi' ns' K' e] s repeat_node by (auto simp: same_but_next_def)
next
  case (last_node lo hi i e)
  then have "node_at ns' K' lo' hi' i e" using node_at_bounds by (auto simp: same_but_next_def)
  then show ?case using last_node node_at_bounds [OF last_node(1)] node_at_seq_at.last_node by auto
next
  case (more_nodes lo m i e hi j es)
  have b: "lo \<le> i" "i < m" using node_at_bounds [OF more_nodes(1)] by auto
  have "node_at ns' K' lo' m i e" using more_nodes b by (auto simp: same_but_next_def)
  moreover have "seq_at ns' K' m hi' j es" using more_nodes b by auto
  moreover have "n_next (ns' ! nat i) = j" using more_nodes b by auto
  ultimately show ?case using node_at_seq_at.more_nodes [of ns' K' lo' m i e hi' j es] more_nodes by auto
qed

text \<open>The expression of an array of nodes is unique.\<close>

lemma members_unique: "members_at ns lo hi i ms \<Longrightarrow> members_at ns lo' hi' i ms' \<Longrightarrow> ms' = ms"
proof (induction arbitrary: lo' ms' rule: members_at.induct)
  case (last_member lo i hi)
  then show ?case by (auto elim: members_at.cases)
next
  case (more_members lo i hi j ms)
  from more_members.prems show ?case
    by (cases rule: members_at.cases) (use more_members in auto)
qed

lemma node_unique: "node_at ns K lo hi i e \<Longrightarrow> node_at ns K' lo' hi' i e' \<Longrightarrow> e' = e"
  and seq_unique: "seq_at ns K lo hi i es \<Longrightarrow> seq_at ns K' lo' hi' i es' \<Longrightarrow> es' = es"
proof (induction arbitrary: lo' hi' e' and lo' hi' es' rule: node_at_seq_at.inducts)
  case (set_node lo i hi ms)
  from set_node.prems show ?case
    by (cases rule: node_at.cases) (use set_node members_unique in \<open>auto simp: op_codes\<close>)
next
  case (group_node lo i hi es)
  from group_node.prems show ?case
    by (cases rule: node_at.cases) (use group_node in \<open>auto simp: op_codes\<close>)
next
  case (alt_node lo i hi es fs)
  from alt_node.prems show ?case
    by (cases rule: node_at.cases) (use alt_node in \<open>auto simp: op_codes\<close>)
next
  case (repeat_node lo i hi e)
  from repeat_node.prems show ?case
    by (cases rule: node_at.cases) (use repeat_node in \<open>auto simp: op_codes\<close>)
next
  case (last_node lo hi i e)
  from last_node.prems show ?case
    by (cases rule: seq_at.cases) (use last_node in auto)
next
  case (more_nodes lo m i e hi j es)
  from more_nodes.prems show ?case
    by (cases rule: seq_at.cases) (use more_nodes in auto)
qed (erule node_at.cases; simp add: op_codes)+

section \<open>Classes\<close>

lemma followed_assoc: "followed (followed r f) g = followed r (\<lambda>x exp. followed (f x exp) g)"
  by (auto simp: followed_def split: sum.splits)

lemma followed_if: "followed (if b then r else r') f = (if b then followed r f else followed r' f)"
  by simp

text \<open>The loop of a class and the link of the last member after it.\<close>

definition class_members :: "int \<Rightarrow> int \<Rightarrow> trex \<Rightarrow> unit step" where
  "class_members first chain exp = followed (class_loop first chain exp) (\<lambda>(first, chain) exp.
     if first \<noteq> -1 then set_node chain (\<lambda>m. m\<lparr>n_next := first\<rparr>) exp else Inr ((), exp))"

lemma class_members_simps:
  "class_members first chain exp =
     (if peek exp = CHR '']'' then (if first \<noteq> -1 then set_node chain (\<lambda>m. m\<lparr>n_next := first\<rparr>) exp else Inr ((), exp))
      else if peek exp = CHR ''-'' \<and> first \<noteq> -1 then
        followed (advance exp) (\<lambda>_ exp.
        followed (trex_newnode exp OP_RANGE) (\<lambda>r exp.
        if first > signed_char (peek exp) then trex_error ''invalid range'' else
        followed (get_node first exp) (\<lambda>n exp.
        if n_type n = OP_CCLASS then trex_error ''cannot use character classes in ranges'' else
        followed (set_node r (\<lambda>m. m\<lparr>n_left := n_type n\<rparr>) exp) (\<lambda>_ exp.
        followed (trex_escapechar exp) (\<lambda>t exp.
        followed (set_node r (\<lambda>m. m\<lparr>n_right := signed_char t\<rparr>) exp) (\<lambda>_ exp.
        followed (set_node chain (\<lambda>m. m\<lparr>n_next := r\<rparr>) exp) (\<lambda>_ exp.
        class_members (-1) r exp)))))))
      else
        followed (if first \<noteq> -1 then followed (set_node chain (\<lambda>m. m\<lparr>n_next := first\<rparr>) exp) (\<lambda>_ exp. Inr (first, exp))
          else Inr (chain, exp)) (\<lambda>chain exp.
        followed (trex_charnode exp True) (\<lambda>first exp.
        class_members first chain exp)))"
  by (subst class_members_def, subst class_loop.simps)
    (auto simp: followed_assoc class_members_def [abs_def] Let_def followed_if if_distrib [of "\<lambda>r. followed r _"] cong: if_cong)

text \<open>A state that grew while the \<open>next\<close> of the nodes in \<open>S\<close> was set.\<close>

definition relinked :: "int set \<Rightarrow> trex \<Rightarrow> trex \<Rightarrow> bool" where
  "relinked S exp exp' \<longleftrightarrow> ready exp' \<and> size_of exp \<le> size_of exp' \<and> tx_nsubexpr exp \<le> tx_nsubexpr exp' \<and>
     length (tx_p exp') \<le> length (tx_p exp) \<and> tx_flags exp' = tx_flags exp \<and> tx_first exp' = tx_first exp \<and>
     (\<forall>k. 0 \<le> k \<and> k < size_of exp \<longrightarrow> (if k \<in> S then same_but_next (tx_nodes exp ! nat k) (tx_nodes exp' ! nat k)
        else tx_nodes exp' ! nat k = tx_nodes exp ! nat k))"

lemma same_but_next_trans: "same_but_next a b \<Longrightarrow> same_but_next b c \<Longrightarrow> same_but_next a c"
  by (simp add: same_but_next_def)

lemma relinked_extends: "relinked S a b \<Longrightarrow> extends b c \<Longrightarrow> relinked S a c"
  by (auto simp: relinked_def extends_def)

lemma relinked_refl: "ready exp \<Longrightarrow> relinked S exp exp"
  by (auto simp: relinked_def)

lemma relinked_trans:
  assumes "relinked S a b" "relinked T b c" "\<And>k. k \<in> T \<Longrightarrow> k < size_of a \<Longrightarrow> k \<in> S \<or> k < 0"
  shows "relinked S a c"
proof -
  have "if k \<in> S then same_but_next (tx_nodes a ! nat k) (tx_nodes c ! nat k) else tx_nodes c ! nat k = tx_nodes a ! nat k"
    if k: "0 \<le> k" "k < size_of a" for k
  proof -
    have "k < size_of b" using k assms(1) by (simp add: relinked_def)
    then have "if k \<in> T then same_but_next (tx_nodes b ! nat k) (tx_nodes c ! nat k) else tx_nodes c ! nat k = tx_nodes b ! nat k"
      using k(1) assms(2) by (simp add: relinked_def)
    moreover have "if k \<in> S then same_but_next (tx_nodes a ! nat k) (tx_nodes b ! nat k) else tx_nodes b ! nat k = tx_nodes a ! nat k"
      using k assms(1) by (simp add: relinked_def)
    ultimately show ?thesis
      using assms(3) [of k] k same_but_next_trans [of "tx_nodes a ! nat k" "tx_nodes b ! nat k" "tx_nodes c ! nat k"]
      by (auto split: if_splits)
  qed
  then show ?thesis using assms(1,2) unfolding relinked_def by auto
qed

lemma ready_nodes [simp]: "length ns = length (tx_nodes exp) \<Longrightarrow> ready (exp\<lparr>tx_nodes := ns\<rparr>) = ready exp"
  by (simp add: ready_def roomy_def)

lemma relinked_set:
  assumes "relinked S a b" "0 \<le> i" "i < size_of b" "i < size_of a \<Longrightarrow> i \<in> S \<and> same_but_next (tx_nodes b ! nat i) n"
  shows "relinked S a (b\<lparr>tx_nodes := (tx_nodes b)[nat i := n]\<rparr>)"
  using assms unfolding relinked_def
  by (auto simp: nth_list_update eq_nat_nat_iff intro: same_but_next_trans split: if_splits)

lemma relinked_ready: "relinked S a b \<Longrightarrow> ready b"
  by (simp add: relinked_def)

lemma relinked_nth: "relinked S a b \<Longrightarrow> 0 \<le> k \<Longrightarrow> k < size_of a \<Longrightarrow> k \<notin> S \<Longrightarrow> tx_nodes b ! nat k = tx_nodes a ! nat k"
  and relinked_size: "relinked S a b \<Longrightarrow> size_of a \<le> size_of b"
  by (auto simp: relinked_def)

definition links :: "int \<Rightarrow> member list \<Rightarrow> trex \<Rightarrow> bool" where
  "links chain ms exp \<longleftrightarrow> (if ms = [] then n_next (tx_nodes exp ! nat chain) = -1
     else members_at (tx_nodes exp) (chain + 1) (size_of exp) (n_next (tx_nodes exp ! nat chain)) ms)"

lemma links_through:
  assumes "links i ms exp" "n_next (tx_nodes exp ! nat chain) = i" "0 \<le> chain" "chain < i" "i < size_of exp" "member_of (tx_nodes exp ! nat i) = m"
  shows "links chain (m # ms) exp"
proof (cases "ms = []")
  case True
  then show ?thesis using assms members_at.last_member [of "chain + 1" i "size_of exp" "tx_nodes exp"] by (auto simp: links_def)
next
  case False
  then have "members_at (tx_nodes exp) (i + 1) (size_of exp) (n_next (tx_nodes exp ! nat i)) ms" using assms(1) by (simp add: links_def)
  moreover have "n_next (tx_nodes exp ! nat i) \<noteq> -1" using members_bounds [OF calculation] assms by linarith
  ultimately show ?thesis using assms members_at.more_members [of "chain + 1" i "size_of exp" "tx_nodes exp"] by (auto simp: links_def)
qed

lemma relinked_same: "relinked S a b \<Longrightarrow> 0 \<le> k \<Longrightarrow> k < size_of a \<Longrightarrow> k \<in> S \<Longrightarrow> same_but_next (tx_nodes a ! nat k) (tx_nodes b ! nat k)"
  by (auto simp: relinked_def)

definition class_state :: "int \<Rightarrow> int \<Rightarrow> trex \<Rightarrow> bool" where
  "class_state first chain exp \<longleftrightarrow> ready exp \<and> 0 \<le> chain \<and> chain < size_of exp \<and> n_next (tx_nodes exp ! nat chain) = -1 \<and>
     (first = -1 \<or> chain < first \<and> first < size_of exp \<and> n_next (tx_nodes exp ! nat first) = -1)"

text \<open>The member that was read last and is not in the chain yet, and the state after it is linked.\<close>

definition pending :: "int \<Rightarrow> trex \<Rightarrow> member list" where
  "pending first exp = (if first = -1 then [] else [member_of (tx_nodes exp ! nat first)])"

definition linked :: "int \<Rightarrow> int \<Rightarrow> trex \<Rightarrow> trex" where
  "linked first chain exp = (if first \<noteq> -1 then exp\<lparr>tx_nodes := (tx_nodes exp)[nat chain := (tx_nodes exp ! nat chain)\<lparr>n_next := first\<rparr>]\<rparr> else exp)"

definition last_linked :: "int \<Rightarrow> int \<Rightarrow> int" where
  "last_linked first chain = (if first \<noteq> -1 then first else chain)"

lemma linked_props:
  assumes "class_state first chain exp"
  shows "relinked {chain, first} exp (linked first chain exp)" "size_of (linked first chain exp) = size_of exp"
    "tx_p (linked first chain exp) = tx_p exp" "ready (linked first chain exp)"
proof -
  show r: "relinked {chain, first} exp (linked first chain exp)"
    using assms unfolding linked_def class_state_def by (auto simp: relinked_refl intro!: relinked_set)
  show "ready (linked first chain exp)" by (rule relinked_ready [OF r])
qed (simp_all add: linked_def)

lemma class_close:
  assumes "class_state first chain exp" "peek exp = CHR '']''"
  shows "class_members first chain exp = Inr ((), linked first chain exp)" "links chain (pending first exp) (linked first chain exp)"
proof -
  show "class_members first chain exp = Inr ((), linked first chain exp)"
    using assms by (subst class_members_simps) (auto simp: class_state_def linked_def set_node_eq)
  show "links chain (pending first exp) (linked first chain exp)"
  proof (cases "first = -1")
    case False
    have "links chain [member_of (tx_nodes exp ! nat first)] (linked first chain exp)"
      by (rule links_through [of first]) (use assms False in \<open>auto simp: class_state_def linked_def links_def\<close>)
    then show ?thesis using False by (simp add: pending_def)
  qed (use assms in \<open>simp add: class_state_def linked_def pending_def links_def\<close>)
qed

text \<open>Reading one more member.\<close>

lemma class_more:
  assumes "class_state first chain exp" "peek exp \<noteq> CHR '']''" "\<not> (peek exp = CHR ''-'' \<and> first \<noteq> -1)"
  shows "class_members first chain exp = followed (trex_charnode (linked first chain exp) True) (\<lambda>i exp. class_members i (last_linked first chain) exp)"
  using assms by (subst class_members_simps) (auto simp: class_state_def set_node_eq linked_def last_linked_def)

lemma class_member:
  assumes "class_state first chain exp" "adds_atom True (linked first chain exp) i exp2"
  shows "class_state i (last_linked first chain) exp2"
    and "relinked {last_linked first chain, i} exp2 exp' \<Longrightarrow> relinked {chain, first} exp exp'"
    and "relinked {last_linked first chain, i} exp2 exp' \<Longrightarrow> links (last_linked first chain) ms exp' \<Longrightarrow> links chain (pending first exp @ ms) exp'"
proof -
  let ?c = "last_linked first chain" let ?e = "linked first chain exp"
  note e1 = linked_props [OF assms(1)]
  have st: "0 \<le> chain" "chain < size_of exp" "n_next (tx_nodes exp ! nat chain) = -1"
    "first = -1 \<or> chain < first \<and> first < size_of exp \<and> n_next (tx_nodes exp ! nat first) = -1"
    using assms(1) by (auto simp: class_state_def)
  have c: "0 \<le> ?c" "?c < size_of ?e" "?c \<in> {chain, first}" "n_next (tx_nodes ?e ! nat ?c) = -1"
    using st by (auto simp: last_linked_def linked_def)
  obtain n where n: "i = size_of ?e" "extends ?e exp2" "tx_nodes exp2 = tx_nodes ?e @ [n]" "n_next n = -1"
    using assms(2) by (auto simp: adds_atom_def)
  have e2: "relinked {chain, first} exp exp2" by (rule relinked_extends [OF e1(1) n(2)])
  have ni: "n_next (tx_nodes exp2 ! nat i) = -1" using n by simp
  have nc: "tx_nodes exp2 ! nat ?c = tx_nodes ?e ! nat ?c" using c n(3) by (auto simp: nth_append)
  show "class_state i ?c exp2" using relinked_ready [OF e2] c n ni nc by (auto simp: class_state_def)
  assume x: "relinked {?c, i} exp2 exp'"
  show r: "relinked {chain, first} exp exp'" by (rule relinked_trans [OF e2 x]) (use c n e1(2) in auto)
  assume l: "links ?c ms exp'"
  show "links chain (pending first exp @ ms) exp'"
  proof (cases "first = -1")
    case False
    then have l': "links first ms exp'" using l by (simp add: last_linked_def)
    have "tx_nodes exp' ! nat chain = tx_nodes exp2 ! nat chain" by (rule relinked_nth [OF x]) (use st False n e1(2) in \<open>auto simp: last_linked_def\<close>)
    also have "\<dots> = tx_nodes ?e ! nat chain" using st n e1(2) by (simp add: nth_append)
    finally have nx: "n_next (tx_nodes exp' ! nat chain) = first" using False st by (simp add: linked_def)
    have "same_but_next (tx_nodes exp ! nat first) (tx_nodes exp' ! nat first)" by (rule relinked_same [OF r]) (use st False in auto)
    then have m: "member_of (tx_nodes exp' ! nat first) = member_of (tx_nodes exp ! nat first)" by (rule member_of_same)
    have "links chain (member_of (tx_nodes exp ! nat first) # ms) exp'"
      by (rule links_through [OF l' nx]) (use st False relinked_size [OF r] m in auto)
    then show ?thesis using False by (simp add: pending_def)
  qed (use l in \<open>simp add: last_linked_def pending_def\<close>)
qed

lemma class_range:
  assumes "class_state first chain exp" "peek exp = CHR ''-''" "first \<noteq> -1"
    and IH: "\<And>e. class_state (-1) (size_of exp) e \<Longrightarrow> length (tx_p e) < length (tx_p exp) \<Longrightarrow>
      yields (class_members (-1) (size_of exp) e) (\<lambda>_ exp'. relinked {size_of exp, -1} e exp' \<and> (\<exists>ms. links (size_of exp) ms exp'))"
  shows "yields (class_members first chain exp) (\<lambda>_ exp'. relinked {chain, first} exp exp' \<and> (\<exists>ms. ms \<noteq> [] \<and> links chain ms exp'))"
proof -
  let ?Q = "\<lambda>_ exp'. relinked {chain, first} exp exp' \<and> (\<exists>ms. ms \<noteq> [] \<and> links chain ms exp')"
  have st: "ready exp" "0 \<le> chain" "chain < first" "first < size_of exp" "nat first < length (tx_nodes exp)" using assms by (auto simp: class_state_def)
  obtain p where p: "tx_p exp = CHR ''-'' # p" "advance exp = Inr ((), exp\<lparr>tx_p := p\<rparr>)" "extends exp (exp\<lparr>tx_p := p\<rparr>)"
    using advance_ready [OF st(1)] assms(2) by auto
  let ?b = "exp\<lparr>tx_p := p\<rparr>" let ?r = "size_of exp" let ?c = "grown ?b OP_RANGE" let ?t = "n_type (tx_nodes exp ! nat first)"
  let ?d = "?c\<lparr>tx_nodes := (tx_nodes ?c)[nat ?r := (tx_nodes ?c ! nat ?r)\<lparr>n_left := ?t\<rparr>]\<rparr>"
  have b: "ready ?b" "roomy ?b" using p(3) by (auto simp: extends_def ready_def)
  have c: "relinked {chain, first} exp ?c" using relinked_extends [OF relinked_refl extends_new [OF p(3)]] st(1) by blast
  have d: "relinked {chain, first} exp ?d" by (rule relinked_set [OF c]) (use st in auto)
  have rest: "yields (followed (set_node ?r (\<lambda>m. m\<lparr>n_right := signed_char t\<rparr>) e) (\<lambda>_ exp. followed (set_node chain (\<lambda>m. m\<lparr>n_next := ?r\<rparr>) exp) (\<lambda>_ exp. class_members (-1) ?r exp))) ?Q"
    if e: "extends ?d e" "tx_nodes e = tx_nodes ?d" "length (tx_p e) < length (tx_p ?d)" for e t
  proof -
    have e': "relinked {chain, first} exp e" by (rule relinked_extends [OF d e(1)])
    let ?f = "e\<lparr>tx_nodes := (tx_nodes e)[nat ?r := (tx_nodes e ! nat ?r)\<lparr>n_right := signed_char t\<rparr>]\<rparr>"
    let ?g = "?f\<lparr>tx_nodes := (tx_nodes ?f)[nat chain := (tx_nodes ?f ! nat chain)\<lparr>n_next := ?r\<rparr>]\<rparr>"
    have f': "relinked {chain, first} exp ?f" by (rule relinked_set [OF e']) (use e st in auto)
    have g: "relinked {chain, first} exp ?g" by (rule relinked_set [OF f']) (use e st in auto)
    have "class_state (-1) ?r ?g" using relinked_ready [OF g] st e by (simp add: class_state_def nth_append)
    moreover have "length (tx_p ?g) < length (tx_p exp)" using e p(1) by simp
    ultimately have "yields (class_members (-1) ?r ?g) (\<lambda>_ exp'. relinked {?r, -1} ?g exp' \<and> (\<exists>ms. links ?r ms exp'))" by (rule IH)
    then have "yields (class_members (-1) ?r ?g) ?Q"
    proof (rule yields_mono, elim conjE exE)
      fix u exp' ms
      assume x: "relinked {?r, -1} ?g exp'" and l: "links ?r ms exp'"
      have "tx_nodes exp' ! nat chain = tx_nodes ?g ! nat chain" using relinked_nth [OF x, of chain] st e by auto
      then have "n_next (tx_nodes exp' ! nat chain) = ?r" using st e by (simp add: nth_append)
      then have "links chain (member_of (tx_nodes exp' ! nat ?r) # ms) exp'"
        by (rule links_through [OF l]) (use st relinked_size [OF x] e in auto)
      moreover have "relinked {chain, first} exp exp'" by (rule relinked_trans [OF g x]) auto
      ultimately show "?Q u exp'" by blast
    qed
    then show ?thesis using st e by (simp add: set_node_eq)
  qed
  have "yields (followed (trex_escapechar ?d) (\<lambda>t exp. followed (set_node ?r (\<lambda>m. m\<lparr>n_right := signed_char t\<rparr>) exp)
      (\<lambda>_ exp. followed (set_node chain (\<lambda>m. m\<lparr>n_next := ?r\<rparr>) exp) (\<lambda>_ exp. class_members (-1) ?r exp)))) ?Q"
    by (rule yields_followed [OF escapechar_yields [OF relinked_ready [OF d]]]) (use rest in blast)
  then show ?thesis using assms(2,3) p(2) st b
    by (subst class_members_simps) (simp add: newnode_roomy get_node_eq set_node_eq nth_append)
qed

lemma class_members_yields:
  assumes "class_state first chain exp"
  shows "yields (class_members first chain exp) (\<lambda>_ exp'. relinked {chain, first} exp exp' \<and>
    (\<exists>ms. links chain ms exp' \<and> (first \<noteq> -1 \<or> peek exp \<noteq> CHR '']'' \<longrightarrow> ms \<noteq> [])))"
  using assms
proof (induction "length (tx_p exp)" arbitrary: first chain exp rule: less_induct)
  case less
  consider (close) "peek exp = CHR '']''" | (range) "peek exp = CHR ''-''" "first \<noteq> -1"
    | (member) "peek exp \<noteq> CHR '']''" "\<not> (peek exp = CHR ''-'' \<and> first \<noteq> -1)" by blast
  then show ?case
  proof cases
    case close
    have "first \<noteq> -1 \<longrightarrow> pending first exp \<noteq> []" by (simp add: pending_def)
    then show ?thesis using class_close [OF less.prems close] linked_props(1) [OF less.prems] close by auto
  next
    case range
    have "yields (class_members first chain exp) (\<lambda>_ exp'. relinked {chain, first} exp exp' \<and> (\<exists>ms. ms \<noteq> [] \<and> links chain ms exp'))"
      by (rule class_range [OF less.prems range], rule yields_mono [OF less.hyps]) auto
    then show ?thesis by (rule yields_mono) auto
  next
    case member
    note e1 = linked_props [OF less.prems]
    show ?thesis unfolding class_more [OF less.prems member]
    proof (rule yields_followed [OF charnode_yields [OF e1(4)]])
      fix i exp2
      assume a: "adds_atom True (linked first chain exp) i exp2"
      note m = class_member [OF less.prems a]
      have "i \<noteq> -1" "length (tx_p exp2) < length (tx_p exp)" using a e1(3) by (auto simp: adds_atom_def)
      then have "yields (class_members i (last_linked first chain) exp2) (\<lambda>_ exp'. relinked {last_linked first chain, i} exp2 exp' \<and>
          (\<exists>ms. links (last_linked first chain) ms exp' \<and> ms \<noteq> []))"
        by (intro yields_mono [OF less.hyps [OF _ m(1)]]) auto
      then show "yields (class_members i (last_linked first chain) exp2) (\<lambda>_ exp'. relinked {chain, first} exp exp' \<and>
          (\<exists>ms. links chain ms exp' \<and> (first \<noteq> -1 \<or> peek exp \<noteq> CHR '']'' \<longrightarrow> ms \<noteq> [])))"
      proof (rule yields_mono, elim conjE exE)
        fix u exp' ms
        assume "relinked {last_linked first chain, i} exp2 exp'" "links (last_linked first chain) ms exp'" "ms \<noteq> []"
        then show "relinked {chain, first} exp exp' \<and> (\<exists>ms. links chain ms exp' \<and> (first \<noteq> -1 \<or> peek exp \<noteq> CHR '']'' \<longrightarrow> ms \<noteq> []))"
          using m(2,3) by blast
      qed
    qed
  qed
qed

lemma trex_class_eq: "trex_class exp =
     followed (if peek exp = CHR ''^'' then
         followed (trex_newnode exp OP_NCLASS) (\<lambda>ret exp. followed (advance exp) (\<lambda>_ exp. Inr (ret, exp)))
       else trex_newnode exp OP_CLASS) (\<lambda>ret exp.
     if peek exp = CHR '']'' then trex_error ''empty class'' else
     followed (class_members (-1) ret exp) (\<lambda>_ exp.
     followed (set_node ret (\<lambda>m. m\<lparr>n_left := n_next m, n_next := -1\<rparr>) exp) (\<lambda>_ exp. Inr (ret, exp))))"
  unfolding trex_class_def class_members_def
  by (intro arg_cong2 [where f = followed] refl ext) (auto simp: followed_def split: sum.splits)

end
