(* ===== verification/Arg_Compile.thy ===== *)
theory Arg_Compile
  imports Arg_Nodes
begin

text \<open>
  What the compiler of regular expressions builds: a pattern is compiled without an access outside the arrays,
  within the bound of the recursion, into nodes that hold an expression.
\<close>

section \<open>Elements and lists\<close>

text \<open>What a function that reads one element, or a sequence, has added.\<close>

definition moves :: "trex \<Rightarrow> trex \<Rightarrow> bool" where
  "moves exp exp' \<longleftrightarrow> extends exp exp' \<and> tx_nodes exp' = tx_nodes exp"

definition adds_node :: "trex \<Rightarrow> rx \<Rightarrow> int \<Rightarrow> trex \<Rightarrow> bool" where
  "adds_node exp e i exp' \<longleftrightarrow> extends exp exp' \<and> n_next (tx_nodes exp' ! nat i) = -1 \<and>
     node_at (tx_nodes exp') (tx_nsubexpr exp') (size_of exp) (size_of exp') i e"

definition adds_seq :: "trex \<Rightarrow> rx list \<Rightarrow> int \<Rightarrow> trex \<Rightarrow> bool" where
  "adds_seq exp es i exp' \<longleftrightarrow> extends exp exp' \<and> seq_at (tx_nodes exp') (tx_nsubexpr exp') (size_of exp) (size_of exp') i es"

lemma advance_yields: "ready exp \<Longrightarrow> peek exp \<noteq> NUL \<Longrightarrow> peek exp \<noteq> CHR 0x5C \<Longrightarrow>
   yields (advance exp) (\<lambda>_ exp'. moves exp exp' \<and> length (tx_p exp') < length (tx_p exp))"
  using advance_ready [of exp] by (auto simp: moves_def)

lemma expect_yields: "ready exp \<Longrightarrow> n \<noteq> NUL \<Longrightarrow> n \<noteq> CHR 0x5C \<Longrightarrow> yields (trex_expect exp n) (\<lambda>_ exp'. moves exp exp')"
  using advance_yields [of exp] by (auto simp: trex_expect_def elim: yields_mono)

lemma moves_ready: "moves a b \<Longrightarrow> ready b" and moves_trans: "moves a b \<Longrightarrow> moves b c \<Longrightarrow> moves a c"
  and moves_refl: "ready a \<Longrightarrow> moves a a" and moves_extends: "extends a b \<Longrightarrow> moves b c \<Longrightarrow> extends a c"
  and moves_shorter: "moves a b \<Longrightarrow> length (tx_p b) \<le> length (tx_p a)" and moves_nodes: "moves a b \<Longrightarrow> tx_nodes b = tx_nodes a"
  by (auto simp: moves_def extends_def)

lemma number_loop_short: "0 \<le> num \<Longrightarrow> num < 10 ^ k \<Longrightarrow> 1 \<le> k \<Longrightarrow> length (takeWhile digit_of p) + k \<le> 9 \<Longrightarrow>
   \<exists>n. number_loop num (10 ^ k) p = Inr (n, dropWhile digit_of p)"
proof (induction p arbitrary: num k)
  case (Cons c p)
  show ?case
  proof (cases "digit_of c")
    case True
    let ?d = "signed_char c - 48"
    have d: "0 \<le> ?d" "?d \<le> 9" "isdigit (signed_char c)" using True by (auto simp: digit_of_def isdigit_def)
    have k: "k \<le> 8" "length (takeWhile digit_of p) + Suc k \<le> 9" using Cons.prems True by auto
    then have "(10 :: int) ^ Suc k \<le> 10 ^ 9" by (intro power_increasing) auto
    then have n: "num * 10 + ?d < 10 ^ Suc k" "num * 10 + ?d \<le> 2147483647" using Cons.prems d by auto
    have "(10 :: int) ^ k \<noteq> 10 ^ 9" using k by (subst power_inject_exp) auto
    then have "(10 :: int) ^ k \<noteq> 1000000000" by simp
    then show ?thesis using Cons.IH [of "num * 10 + ?d" "Suc k"] Cons.prems d n k True by (simp add: mult.commute)
  qed (simp add: digit_of_def)
qed simp

lemma digit_char: "isdigit (signed_char c) \<Longrightarrow> c \<noteq> NUL \<and> c \<noteq> CHR 0x5C"
  by (auto simp: isdigit_def signed_char_def)

lemma parsenumber_moves:
  assumes "ready exp" "isdigit (signed_char (peek exp))"
  shows "\<exists>n a. trex_parsenumber exp = Inr (n, a) \<and> moves exp a"
proof -
  obtain p where p: "tx_p exp = peek exp # p" "advance exp = Inr ((), exp\<lparr>tx_p := p\<rparr>)" "extends exp (exp\<lparr>tx_p := p\<rparr>)"
    using advance_ready [of exp] digit_char [of "peek exp"] assms by auto
  have "short_numbers (peek exp # p)" using assms(1) p(1) by (simp add: ready_def)
  then have "length (takeWhile digit_of p) + 1 \<le> 9" using assms(2) by (simp add: digit_of_def)
  moreover have "0 \<le> signed_char (peek exp) - 48" "signed_char (peek exp) - 48 < 10 ^ 1" using assms(2) by (auto simp: isdigit_def)
  ultimately obtain n where "number_loop (signed_char (peek exp) - 48) (10 ^ 1) p = Inr (n, dropWhile digit_of p)"
    using number_loop_short [of "signed_char (peek exp) - 48" 1 p] by auto
  moreover have "moves exp (exp\<lparr>tx_p := dropWhile digit_of p\<rparr>)" using p
    by (auto simp: moves_def extends_def ready_def roomy_def escapes_closed_digits short_numbers_digits intro: le_SucI length_dropWhile_le)
  ultimately show ?thesis using p by (simp add: trex_parsenumber_def)
qed

lemma parsenumber_yields: "ready exp \<Longrightarrow> isdigit (signed_char (peek exp)) \<Longrightarrow> yields (trex_parsenumber exp) (\<lambda>n exp'. moves exp exp')"
  using parsenumber_moves [of exp] by auto

lemma counts_yields:
  assumes "ready exp"
  shows "yields (trex_counts exp) (\<lambda>cs exp'. moves exp exp')"
proof -
  have adv: "yields (followed (advance e) (\<lambda>_ exp. Inr (x, exp))) (\<lambda>_ exp'. moves exp exp')"
    if "moves exp e" "peek e \<noteq> NUL" "peek e \<noteq> CHR 0x5C" for e and x :: "(int \<times> int) option"
    by (rule yields_followed [OF advance_yields]) (use that moves_ready moves_trans in auto)
  have upto: "yields (if isdigit (signed_char (peek e)) then followed (trex_parsenumber e) (\<lambda>n exp. Inr (n mod 65536, exp)) else Inr (0xFFFF, e))
      (\<lambda>_ e'. moves exp e')" if "moves exp e" for e
    using that moves_ready [OF that] by (auto intro!: yields_followed [OF parsenumber_yields] intro: moves_trans)
  have comma: "yields (followed (advance e) (\<lambda>_ exp.
          followed (if isdigit (signed_char (peek exp)) then followed (trex_parsenumber exp) (\<lambda>n exp. Inr (n mod 65536, exp))
            else Inr (0xFFFF, exp)) (\<lambda>p1 exp.
          followed (trex_expect exp (CHR ''}'')) (\<lambda>_ exp. Inr (Some (p0, p1), exp))))) (\<lambda>_ exp'. moves exp exp')"
    if e: "moves exp e" "peek e = CHR '',''" for e and p0 :: int
  proof (rule yields_followed [OF advance_yields], goal_cases)
    case (4 u e1)
    then have e1: "moves exp e1" using e moves_trans by blast
    show ?case
      by (rule yields_followed [OF upto [OF e1]], rule yields_followed [OF expect_yields]) (auto dest: moves_ready moves_trans intro: moves_trans)
  qed (use e moves_ready in auto)
  show ?thesis
    unfolding trex_counts_def Let_def using assms
    by (auto simp: moves_refl intro!: adv yields_followed [OF advance_yields] yields_followed [OF parsenumber_yields] comma)
      (blast intro: moves_ready moves_trans)+
qed


text \<open>An expression that was added stays when the array grows.\<close>

lemma extends_seq: "extends b c \<Longrightarrow> seq_at (tx_nodes b) (tx_nsubexpr b) lo hi i es \<Longrightarrow> 0 \<le> lo \<Longrightarrow> hi \<le> size_of b \<Longrightarrow> lo' \<le> lo \<Longrightarrow> hi \<le> hi' \<Longrightarrow>
   seq_at (tx_nodes c) (tx_nsubexpr c) lo' hi' i es"
  by (rule seq_at_frame) (auto simp: extends_def)

lemma extends_node: "extends b c \<Longrightarrow> node_at (tx_nodes b) (tx_nsubexpr b) lo hi i e \<Longrightarrow> 0 \<le> lo \<Longrightarrow> hi \<le> size_of b \<Longrightarrow> lo' \<le> lo \<Longrightarrow> hi \<le> hi' \<Longrightarrow>
   node_at (tx_nodes c) (tx_nsubexpr c) lo' hi' i e"
  by (rule node_at_frame) (auto simp: extends_def)

lemma relinked_empty: "relinked {} a b = extends a b"
proof -
  have "(\<forall>k. 0 \<le> k \<and> k < size_of a \<longrightarrow> tx_nodes b ! nat k = tx_nodes a ! nat k) \<longleftrightarrow> (\<forall>k < length (tx_nodes a). tx_nodes b ! k = tx_nodes a ! k)"
    by (auto dest: spec [of _ "int _"] simp: nat_less_iff)
  then show ?thesis by (auto simp: relinked_def extends_def)
qed

lemma adds_node_ready: "adds_node a e i b \<Longrightarrow> ready b" and adds_node_extends: "adds_node a e i b \<Longrightarrow> extends a b"
  and adds_seq_extends: "adds_seq a es i b \<Longrightarrow> extends a b" and adds_seq_ready: "adds_seq a es i b \<Longrightarrow> ready b"
  by (auto simp: adds_node_def adds_seq_def extends_def)

lemma adds_node_index: "adds_node exp e i a \<Longrightarrow> 0 \<le> i"
  using node_at_bounds by (fastforce simp: adds_node_def)

lemma adds_node_seq: "adds_node exp e i a \<Longrightarrow> adds_seq exp [e] i a"
  by (auto simp: adds_node_def adds_seq_def intro: node_at_seq_at.last_node)

lemma adds_node_trans: "adds_node exp e i b \<Longrightarrow> moves b c \<Longrightarrow> adds_node exp e i c"
proof -
  assume "adds_node exp e i b" and "moves b c"
  then have b: "extends exp b" "n_next (tx_nodes b ! nat i) = -1" "node_at (tx_nodes b) (tx_nsubexpr b) (size_of exp) (size_of b) i e"
    "extends b c" "tx_nodes c = tx_nodes b" by (simp_all add: adds_node_def moves_def)
  have "node_at (tx_nodes c) (tx_nsubexpr c) (size_of exp) (size_of c) i e"
    by (rule extends_node [OF b(4,3)]) (use b(5) in simp_all)
  then show ?thesis using b extends_trans [OF b(1,4)] by (simp add: adds_node_def)
qed

lemma adds_node_moves:
  assumes "moves exp a" "adds_node a e i b"
  shows "adds_node exp e i b"
proof -
  have x: "extends exp a" "tx_nodes a = tx_nodes exp" using assms(1) by (simp_all add: moves_def)
  then show ?thesis using assms(2) extends_trans [OF x(1)] by (simp add: adds_node_def)
qed

text \<open>One node that was added at the end.\<close>

definition atom_of :: "trex_node \<Rightarrow> rx" where
  "atom_of n = (if n_type n = OP_CCLASS then R_class (n_left n) else if n_type n = OP_WB then R_boundary (n_left n = signed_char (CHR ''b''))
     else if n_type n = OP_DOT then R_dot else if n_type n = OP_EOL then R_eol else if n_type n = OP_BOL then R_bol else R_char (n_type n))"

lemma adds_last:
  assumes "extends exp a" "tx_nodes a = tx_nodes exp @ [n]" "n_next n = -1"
    "n_type n < 256 \<or> n_type n \<in> {OP_CCLASS, OP_WB, OP_DOT, OP_EOL, OP_BOL}"
  shows "adds_node exp (atom_of n) (size_of exp) a"
proof -
  let ?i = "size_of exp" let ?ns = "tx_nodes a"
  have "node_at ?ns (tx_nsubexpr a) ?i (size_of a) ?i (atom_of n)"
    using assms node_at_seq_at.char_node [of ?i ?i "size_of a" ?ns] node_at_seq_at.class_node [of ?i ?i "size_of a" ?ns]
      node_at_seq_at.boundary_node [of ?i ?i "size_of a" ?ns] node_at_seq_at.dot_node [of ?i ?i "size_of a" ?ns]
      node_at_seq_at.eol_node [of ?i ?i "size_of a" ?ns] node_at_seq_at.bol_node [of ?i ?i "size_of a" ?ns]
    by (auto simp: atom_of_def op_codes)
  then show ?thesis using assms by (simp add: adds_node_def)
qed

lemma adds_atom_node: "adds_atom isclass exp i a \<Longrightarrow> \<exists>e. adds_node exp e i a"
  using adds_last by (fastforce simp: adds_atom_def atom_type_def)

lemma newnode_adds:
  assumes "moves exp a" "t \<in> {OP_DOT, OP_EOL, OP_BOL}"
  shows "\<exists>b. trex_newnode a t = Inr (size_of exp, b) \<and> tx_p b = tx_p a \<and>
    adds_node exp (if t = OP_DOT then R_dot else if t = OP_EOL then R_eol else R_bol) (size_of exp) b"
proof -
  have a: "roomy a" "tx_nodes a = tx_nodes exp" "extends exp a" using assms(1) moves_ready by (auto simp: ready_def moves_def)
  have "adds_node exp (atom_of (fresh a t)) (size_of exp) (grown a t)"
    by (rule adds_last) (use assms(2) a extends_new in auto)
  then show ?thesis using a assms(2) by (auto simp: newnode_roomy atom_of_def op_codes)
qed

section \<open>Building expressions\<close>

text \<open>The \<open>next\<close> of an expression is set to a sequence that was added after it.\<close>

lemma join_adds:
  assumes "adds_node exp e i a" "adds_seq a es j b"
  shows "\<exists>c. set_node i (\<lambda>m. m\<lparr>n_next := j\<rparr>) b = Inr ((), c) \<and> tx_p c = tx_p b \<and> adds_seq exp (e # es) i c"
proof -
  have e: "node_at (tx_nodes a) (tx_nsubexpr a) (size_of exp) (size_of a) i e" "extends exp a" using assms(1) by (auto simp: adds_node_def)
  have es: "seq_at (tx_nodes b) (tx_nsubexpr b) (size_of a) (size_of b) j es" "extends a b" using assms(2) by (auto simp: adds_seq_def)
  have b: "size_of exp \<le> i" "i < size_of a" "size_of a \<le> j" "j < size_of b" "size_of a \<le> size_of b"
    using node_at_bounds [OF e(1)] seq_at_bounds [OF es(1)] by auto
  let ?c = "b\<lparr>tx_nodes := (tx_nodes b)[nat i := (tx_nodes b ! nat i)\<lparr>n_next := j\<rparr>]\<rparr>"
  have "relinked {} exp b" using extends_trans [OF e(2) es(2)] by (simp add: relinked_empty)
  then have "relinked {} exp ?c" by (rule relinked_set) (use b in auto)
  then have ext: "extends exp ?c" by (simp only: relinked_empty)
  have "node_at (tx_nodes b) (tx_nsubexpr b) (size_of exp) (size_of a) i e" by (rule extends_node [OF es(2) e(1)]) auto
  then have nc: "node_at (tx_nodes ?c) (tx_nsubexpr ?c) (size_of exp) (size_of a) i e"
    by (rule node_at_frame) (use b in \<open>auto simp: nth_list_update\<close>)
  have sc: "seq_at (tx_nodes ?c) (tx_nsubexpr ?c) (size_of a) (size_of ?c) j es"
    by (rule seq_at_frame [OF es(1)]) (use b in \<open>auto simp: nth_list_update\<close>)
  have "seq_at (tx_nodes ?c) (tx_nsubexpr ?c) (size_of exp) (size_of ?c) i (e # es)"
    by (rule node_at_seq_at.more_nodes [OF nc _ _ _ sc]) (use b in auto)
  then show ?thesis using ext b by (auto simp: set_node_eq adds_seq_def)
qed

text \<open>The node of a group gets the sequence that was added after it.\<close>

lemma group_adds:
  assumes "moves exp e" "t = OP_EXPR \<or> t = OP_NOCAPEXPR" "i = size_of exp" "a = grown e t" "adds_seq a es j b"
  shows "\<exists>c. set_node i (\<lambda>m. m\<lparr>n_left := j\<rparr>) b = Inr ((), c) \<and> tx_p c = tx_p b \<and> adds_node exp (R_group es) i c"
proof -
  have es: "seq_at (tx_nodes b) (tx_nsubexpr b) (size_of a) (size_of b) j es" "extends a b" using assms(5) by (auto simp: adds_seq_def)
  have e: "extends exp e" "tx_nodes e = tx_nodes exp" "ready e" using assms(1) by (auto simp: moves_def extends_def)
  have a: "size_of a = size_of exp + 1" "tx_nodes a = tx_nodes exp @ [fresh e t]" "extends exp a"
    using assms(4) e extends_new by auto
  have b: "size_of a \<le> size_of b" using es(2) by (simp add: extends_def)
  let ?c = "b\<lparr>tx_nodes := (tx_nodes b)[nat i := (tx_nodes b ! nat i)\<lparr>n_left := j\<rparr>]\<rparr>"
  have bi: "tx_nodes b ! nat i = fresh e t" using es(2) a assms(3) by (auto simp: extends_def nth_append)
  have "relinked {} exp b" using extends_trans [OF a(3) es(2)] by (simp add: relinked_empty)
  then have "relinked {} exp ?c" by (rule relinked_set) (use assms(3) a b in auto)
  then have ext: "extends exp ?c" by (simp only: relinked_empty)
  have "seq_at (tx_nodes ?c) (tx_nsubexpr ?c) (i + 1) (size_of ?c) j es"
    by (rule seq_at_frame [OF es(1)]) (use a b assms(3) in \<open>auto simp: nth_list_update\<close>)
  moreover have "0 \<le> tx_nsubexpr e" "t = OP_EXPR \<longrightarrow> tx_nsubexpr e < tx_nsubexpr b"
    using es(2) e(3) assms(4) by (auto simp: extends_def ready_def)
  ultimately have "node_at (tx_nodes ?c) (tx_nsubexpr ?c) (size_of exp) (size_of ?c) i (R_group es)"
    using assms(2,3) a b bi by (intro node_at_seq_at.group_node) (auto simp: op_codes)
  then show ?thesis using ext a b bi assms(3) by (auto simp: set_node_eq adds_node_def)
qed

text \<open>The node of an alternative comes between its branches.\<close>

lemma alt_adds:
  assumes "adds_seq exp es i a" "moves a e" "t = size_of e" "c = (grown e OP_OR)\<lparr>tx_nodes := tx_nodes e @ [(fresh e OP_OR)\<lparr>n_left := i\<rparr>]\<rparr>"
    "adds_seq c fs j b"
  shows "\<exists>d. set_node t (\<lambda>m. m\<lparr>n_right := j\<rparr>) b = Inr ((), d) \<and> tx_p d = tx_p b \<and> adds_seq exp [R_alt es fs] t d"
proof -
  have es: "seq_at (tx_nodes a) (tx_nsubexpr a) (size_of exp) (size_of a) i es" "extends exp a" using assms(1) by (auto simp: adds_seq_def)
  have fs: "seq_at (tx_nodes b) (tx_nsubexpr b) (size_of c) (size_of b) j fs" "extends c b" using assms(5) by (auto simp: adds_seq_def)
  have e: "extends exp e" "tx_nodes e = tx_nodes a" "extends a e"
    using assms(2) extends_trans [OF es(2)] by (simp_all add: moves_def)
  have "extends e (grown e OP_OR)" using extends_ready [OF e(1)] by (rule extends_grown)
  then have ec: "extends e c" using assms(4) by (auto simp: extends_def nth_append)
  have c: "tx_nodes c = tx_nodes a @ [(fresh e OP_OR)\<lparr>n_left := i\<rparr>]" "t = size_of a" using assms(3,4) e by auto
  have ab: "extends a b" using extends_trans [OF extends_trans [OF e(3) ec] fs(2)] .
  have b: "size_of c \<le> size_of b" "tx_nodes b ! nat t = (fresh e OP_OR)\<lparr>n_left := i\<rparr>"
    using fs(2) c by (auto simp: extends_def nth_append)
  have sizes: "size_of exp \<le> size_of a" "size_of c = size_of a + 1" using es(2) c by (auto simp: extends_def)
  let ?d = "b\<lparr>tx_nodes := (tx_nodes b)[nat t := (tx_nodes b ! nat t)\<lparr>n_right := j\<rparr>]\<rparr>"
  have "relinked {} exp b" using extends_trans [OF es(2) ab] by (simp add: relinked_empty)
  then have "relinked {} exp ?d" by (rule relinked_set) (use c b sizes in auto)
  then have ext: "extends exp ?d" by (simp only: relinked_empty)
  have l0: "seq_at (tx_nodes b) (tx_nsubexpr b) (size_of exp) (size_of a) i es" by (rule extends_seq [OF ab es(1)]) auto
  have left: "seq_at (tx_nodes ?d) (tx_nsubexpr ?d) (size_of exp) t i es"
    by (rule seq_at_frame [OF l0]) (use c b sizes in \<open>auto simp: nth_list_update\<close>)
  have right: "seq_at (tx_nodes ?d) (tx_nsubexpr ?d) (t + 1) (size_of ?d) j fs"
    by (rule seq_at_frame [OF fs(1)]) (use c b sizes in \<open>auto simp: nth_list_update\<close>)
  have "node_at (tx_nodes ?d) (tx_nsubexpr ?d) (size_of exp) (size_of ?d) t (R_alt es fs)"
    using left right c b sizes by (intro node_at_seq_at.alt_node) auto
  then have "seq_at (tx_nodes ?d) (tx_nsubexpr ?d) (size_of exp) (size_of ?d) t [R_alt es fs]"
    by (rule node_at_seq_at.last_node) (use c b sizes in auto)
  then show ?thesis using ext c b sizes by (simp add: set_node_eq adds_seq_def)
qed

text \<open>The node of a class gets the chain of its members.\<close>

definition opens_class :: "trex \<Rightarrow> bool \<Rightarrow> int \<Rightarrow> trex \<Rightarrow> bool" where
  "opens_class exp negated i a \<longleftrightarrow> i = size_of exp \<and> extends exp a \<and>
     (\<exists>n. tx_nodes a = tx_nodes exp @ [n] \<and> n_next n = -1 \<and> n_type n = (if negated then OP_NCLASS else OP_CLASS))"

lemma class_start:
  assumes "ready exp"
  shows "\<exists>a. (if peek exp = CHR ''^'' then
         followed (trex_newnode exp OP_NCLASS) (\<lambda>ret exp. followed (advance exp) (\<lambda>_ exp. Inr (ret, exp)))
       else trex_newnode exp OP_CLASS) = Inr (size_of exp, a) \<and> opens_class exp (peek exp = CHR ''^'') (size_of exp) a \<and>
       tx_p a = (if peek exp = CHR ''^'' then tl (tx_p exp) else tx_p exp)"
proof (cases "peek exp = CHR ''^''")
  case True
  have g: "ready (grown exp OP_NCLASS)" "peek (grown exp OP_NCLASS) = CHR ''^''"
    using extends_grown [OF assms] True by (auto simp: extends_def peek_def)
  then show ?thesis
    using assms advance_ready [OF g(1)] True
    by (auto simp: newnode_roomy ready_def opens_class_def intro: extends_trans [OF extends_grown [OF assms]])
next
  case False
  then show ?thesis using assms extends_grown [OF assms] by (auto simp: newnode_roomy ready_def opens_class_def)
qed

lemma opened_state: "opens_class exp negated i a \<Longrightarrow> class_state (-1) i a"
  by (auto simp: opens_class_def class_state_def extends_def)

lemma class_adds:
  assumes "ready exp" "opens_class exp negated i a" "relinked {i, -1} a b" "links i ms b" "ms \<noteq> []"
  shows "\<exists>c. set_node i (\<lambda>m. m\<lparr>n_left := n_next m, n_next := -1\<rparr>) b = Inr ((), c) \<and> tx_p c = tx_p b \<and> adds_node exp (R_set negated ms) i c"
proof -
  obtain n where n: "i = size_of exp" "extends exp a" "tx_nodes a = tx_nodes exp @ [n]" "n_next n = -1"
    "n_type n = (if negated then OP_NCLASS else OP_CLASS)" using assms(2) by (auto simp: opens_class_def)
  have ms: "members_at (tx_nodes b) (i + 1) (size_of b) (n_next (tx_nodes b ! nat i)) ms" using assms(4,5) by (auto simp: links_def)
  have s: "same_but_next n (tx_nodes b ! nat i)" "i < size_of b"
    using relinked_same [OF assms(3), of i] relinked_size [OF assms(3)] n by auto
  let ?m = "(tx_nodes b ! nat i)\<lparr>n_left := n_next (tx_nodes b ! nat i), n_next := -1\<rparr>"
  let ?c = "b\<lparr>tx_nodes := (tx_nodes b)[nat i := ?m]\<rparr>"
  have "relinked {} exp b"
    by (rule relinked_trans [OF relinked_extends [OF relinked_refl [OF assms(1)] n(2)] assms(3), of "{}"]) (use n in auto)
  then have "relinked {} exp ?c" by (rule relinked_set) (use n s in auto)
  then have e: "extends exp ?c" by (simp only: relinked_empty)
  have "members_at (tx_nodes ?c) (i + 1) (size_of ?c) (n_left ?m) ms"
    by (rule members_frame [OF _ _ _ _ _, of "tx_nodes b" "i + 1" "size_of b"]) (use n(1) ms in \<open>auto simp: nth_list_update\<close>)
  then have "node_at (tx_nodes ?c) (tx_nsubexpr ?c) (size_of exp) (size_of ?c) i (R_set (n_type (tx_nodes ?c ! nat i) = OP_NCLASS) ms)"
    using n s by (intro node_at_seq_at.set_node) (auto simp: same_but_next_def)
  moreover have "(n_type (tx_nodes ?c ! nat i) = OP_NCLASS) = negated" using n s by (auto simp: same_but_next_def op_codes)
  ultimately have "adds_node exp (R_set negated ms) i ?c" using e s n(1) unfolding adds_node_def by auto
  then show ?thesis using s n(1) by (simp add: set_node_eq)
qed

text \<open>The node of a repetition comes after its element.\<close>

lemma repeat_adds:
  assumes "adds_node exp e i b" "moves b a"
  shows "\<exists>g. followed (trex_newnode a OP_GREEDY) (\<lambda>nnode exp.
         followed (set_node nnode (\<lambda>m. m\<lparr>n_left := i\<rparr>) exp) (\<lambda>_ exp.
         followed (set_node nnode (\<lambda>m. m\<lparr>n_right := pack_counts p0 p1\<rparr>) exp) (\<lambda>_ exp. Inr (nnode, exp)))) = Inr (size_of a, g) \<and>
     tx_p g = tx_p a \<and> adds_node exp (R_repeat e (count_from (pack_counts p0 p1)) (count_to (pack_counts p0 p1))) (size_of a) g"
proof -
  have ea: "extends exp a" "tx_nodes a = tx_nodes b" "ready a"
    using extends_trans [OF adds_node_extends [OF assms(1)], of a] assms(2) moves_ready [OF assms(2)] by (simp_all add: moves_def)
  have x: "node_at (tx_nodes b) (tx_nsubexpr b) (size_of exp) (size_of b) i e" "n_next (tx_nodes b ! nat i) = -1"
    using assms(1) by (auto simp: adds_node_def)
  have xa: "node_at (tx_nodes a) (tx_nsubexpr a) (size_of exp) (size_of a) i e"
    by (rule extends_node [OF _ x(1)]) (use assms(2) ea in \<open>auto simp: moves_def\<close>)
  let ?n = "(fresh a OP_GREEDY)\<lparr>n_left := i, n_right := pack_counts p0 p1\<rparr>"
  let ?g = "(grown a OP_GREEDY)\<lparr>tx_nodes := tx_nodes a @ [?n]\<rparr>"
  have r: "roomy a" using ea by (simp add: ready_def)
  have "extends a (grown a OP_GREEDY)" by (rule extends_grown [OF ea(3)])
  then have ag: "extends a ?g" by (auto simp: extends_def nth_append)
  have b: "size_of exp \<le> i" "i < size_of a" using node_at_bounds [OF xa] by auto
  have "node_at (tx_nodes ?g) (tx_nsubexpr ?g) (size_of exp) (size_of a) i e" by (rule extends_node [OF ag xa]) auto
  then have "node_at (tx_nodes ?g) (tx_nsubexpr ?g) (size_of exp) (size_of ?g) (size_of a)
      (R_repeat e (count_from (n_right (tx_nodes ?g ! nat (size_of a)))) (count_to (n_right (tx_nodes ?g ! nat (size_of a)))))"
    using b x(2) ea(2) by (intro node_at_seq_at.repeat_node) (auto simp: nth_append)
  then have "adds_node exp (R_repeat e (count_from (pack_counts p0 p1)) (count_to (pack_counts p0 p1))) (size_of a) ?g"
    using extends_trans [OF ea(1) ag] unfolding adds_node_def by auto
  then show ?thesis using r by (simp add: newnode_roomy set_node_eq nth_append)
qed

section \<open>No pattern faults\<close>

definition reads :: "trex \<Rightarrow> int step \<Rightarrow> bool" where
  "reads exp r \<longleftrightarrow> yields r (\<lambda>i a. length (tx_p a) < length (tx_p exp) \<and> (\<exists>e. adds_node exp e i a))"

definition reads_seq :: "trex \<Rightarrow> int step \<Rightarrow> bool" where
  "reads_seq exp r \<longleftrightarrow> yields r (\<lambda>i a. length (tx_p a) < length (tx_p exp) \<and> (\<exists>es. adds_seq exp es i a))"

lemma class_yields:
  assumes "ready exp"
  shows "yields (trex_class exp) (\<lambda>i a. \<exists>e. adds_node exp e i a)"
proof -
  obtain a where a: "(if peek exp = CHR ''^'' then
         followed (trex_newnode exp OP_NCLASS) (\<lambda>ret exp. followed (advance exp) (\<lambda>_ exp. Inr (ret, exp)))
       else trex_newnode exp OP_CLASS) = Inr (size_of exp, a)" "opens_class exp (peek exp = CHR ''^'') (size_of exp) a"
    using class_start [OF assms] by blast
  have "yields (followed (class_members (-1) (size_of exp) a) (\<lambda>_ b.
      followed (set_node (size_of exp) (\<lambda>m. m\<lparr>n_left := n_next m, n_next := -1\<rparr>) b) (\<lambda>_ c. Inr (size_of exp, c)))) (\<lambda>i a. \<exists>e. adds_node exp e i a)"
    if "peek a \<noteq> CHR '']''"
    by (rule yields_followed [OF class_members_yields [OF opened_state [OF a(2)]]])
      (use that class_adds [OF assms a(2)] in fastforce)
  then show ?thesis unfolding trex_class_eq a(1) by simp
qed

lemma greedy_yields:
  assumes "adds_node exp e i b"
  shows "yields (trex_greedy i b) (\<lambda>j a. length (tx_p a) \<le> length (tx_p b) \<and> (\<exists>e. adds_node exp e j a))"
  unfolding trex_greedy_def
proof (rule yields_followed [OF counts_yields [OF adds_node_ready [OF assms]]])
  fix cs a
  assume m: "moves b a"
  show "yields (case cs of None \<Rightarrow> Inr (i, a) | Some (p0, p1) \<Rightarrow>
         followed (trex_newnode a OP_GREEDY) (\<lambda>nnode exp.
         followed (set_node nnode (\<lambda>m. m\<lparr>n_left := i\<rparr>) exp) (\<lambda>_ exp.
         followed (set_node nnode (\<lambda>m. m\<lparr>n_right := pack_counts p0 p1\<rparr>) exp) (\<lambda>_ exp. Inr (nnode, exp)))))
    (\<lambda>j a. length (tx_p a) \<le> length (tx_p b) \<and> (\<exists>e. adds_node exp e j a))"
  proof (cases cs)
    case None
    then show ?thesis using moves_shorter [OF m] adds_node_trans [OF assms m] by auto
  next
    case (Some c)
    obtain p0 p1 where "c = (p0, p1)" by (cases c)
    then show ?thesis using Some repeat_adds [OF assms m, of p0 p1] moves_shorter [OF m] by auto
  qed
qed

lemma group_reads:
  assumes "ready exp" "peek exp = CHR ''(''"
    and list: "\<And>e. ready e \<Longrightarrow> length (tx_p e) < length (tx_p exp) \<Longrightarrow> reads_seq e (read_list e)"
  shows "reads exp (trex_group read_list exp)"
proof -
  define opens where "opens i a \<longleftrightarrow> (\<exists>e t. moves exp e \<and> length (tx_p e) < length (tx_p exp) \<and> (t = OP_EXPR \<or> t = OP_NOCAPEXPR) \<and>
    i = size_of exp \<and> a = grown e t)" for i a
  have new: "yields (trex_newnode e' t) opens" if "moves exp e'" "length (tx_p e') < length (tx_p exp)" "t = OP_EXPR \<or> t = OP_NOCAPEXPR" for e' t
    using that moves_ready [OF that(1)] moves_nodes [OF that(1)] by (auto simp: newnode_roomy ready_def opens_def)
  have start: "yields (if peek e = CHR ''?'' then
         followed (advance e) (\<lambda>_ exp. followed (trex_expect exp (CHR '':'')) (\<lambda>_ exp. trex_newnode exp OP_NOCAPEXPR))
       else trex_newnode e OP_EXPR) opens" if e: "moves exp e" "length (tx_p e) < length (tx_p exp)" for e
  proof (rule yields_if)
    assume "peek e = CHR ''?''"
    then show "yields (followed (advance e) (\<lambda>_ exp. followed (trex_expect exp (CHR '':'')) (\<lambda>_ exp. trex_newnode exp OP_NOCAPEXPR))) opens"
    proof (intro yields_followed [OF advance_yields [OF moves_ready [OF e(1)]]] yields_followed [OF expect_yields], goal_cases)
      case (3 v e1)
      then show ?case using moves_ready by auto
    next
      case (6 v e1 w e2)
      then have "moves exp e2" using moves_trans [OF e(1)] moves_trans by blast
      moreover have "length (tx_p e2) < length (tx_p exp)" using 6 e(2) moves_shorter [of e1 e2] by simp
      ultimately show ?case by (intro new) auto
    qed auto
  qed (use new e in auto)
  have "yields (followed (read_list a) (\<lambda>newn exp. followed (set_node i (\<lambda>m. m\<lparr>n_left := newn\<rparr>) exp) (\<lambda>_ exp.
      followed (trex_expect exp (CHR '')'')) (\<lambda>_ exp. Inr (i, exp))))) (\<lambda>i a. length (tx_p a) < length (tx_p exp) \<and> (\<exists>e. adds_node exp e i a))"
    if o: "opens i a" for i a
  proof -
    obtain e t where o: "moves exp e" "length (tx_p e) < length (tx_p exp)" "t = OP_EXPR \<or> t = OP_NOCAPEXPR" "i = size_of exp" "a = grown e t"
      using o by (auto simp: opens_def)
    have "ready a" using extends_ready [OF extends_grown [OF moves_ready [OF o(1)]]] o(5) by simp
    then have "reads_seq a (read_list a)" using list o by simp
    then show ?thesis unfolding reads_seq_def
    proof (rule yields_followed, elim conjE exE)
      fix j b es
      assume b: "length (tx_p b) < length (tx_p a)" "adds_seq a es j b"
      obtain c where c: "set_node i (\<lambda>m. m\<lparr>n_left := j\<rparr>) b = Inr ((), c)" "tx_p c = tx_p b" "adds_node exp (R_group es) i c"
        using group_adds [OF o(1,3-5) b(2)] by blast
      have "yields (trex_expect c (CHR '')'')) (\<lambda>_ d. moves c d)" by (rule expect_yields [OF adds_node_ready [OF c(3)]]) auto
      then have "yields (followed (trex_expect c (CHR '')'')) (\<lambda>_ exp. Inr (i, exp)))
          (\<lambda>i a. length (tx_p a) < length (tx_p exp) \<and> (\<exists>e. adds_node exp e i a))"
        by (rule yields_followed) (use adds_node_trans [OF c(3)] moves_shorter c(2) b(1) o in fastforce)
      then show "yields (followed (set_node i (\<lambda>m. m\<lparr>n_left := j\<rparr>) b) (\<lambda>_ exp. followed (trex_expect exp (CHR '')'')) (\<lambda>_ exp. Inr (i, exp))))
          (\<lambda>i a. length (tx_p a) < length (tx_p exp) \<and> (\<exists>e. adds_node exp e i a))" using c(1) by simp
    qed
  qed
  then show ?thesis unfolding reads_def trex_group_def
    by (intro yields_followed [OF advance_yields [OF assms(1)]] yields_followed [OF start]) (use assms(2) in auto)
qed

lemma bracket_reads:
  assumes "ready exp" "peek exp = CHR ''[''"
  shows "reads exp (followed (advance exp) (\<lambda>_ exp. followed (trex_class exp) (\<lambda>ret exp.
     followed (trex_expect exp (CHR '']'')) (\<lambda>_ exp. Inr (ret, exp)))))"
  unfolding reads_def
proof (rule yields_followed [OF advance_yields [OF assms(1)]], goal_cases)
  case (3 u e)
  show ?case
  proof (rule yields_followed [OF class_yields])
    fix i a
    assume "\<exists>x. adds_node e x i a"
    then obtain x where "adds_node e x i a" by blast
    then have a: "adds_node exp x i a" "length (tx_p a) \<le> length (tx_p e)"
      using 3 adds_node_moves [of exp e x i a] adds_node_extends [of e x i a] by (simp_all add: extends_def)
    show "yields (followed (trex_expect a (CHR '']'')) (\<lambda>_ exp. Inr (i, exp))) (\<lambda>i a. length (tx_p a) < length (tx_p exp) \<and> (\<exists>e. adds_node exp e i a))"
    proof (rule yields_followed [OF expect_yields [OF adds_node_ready [OF a(1)]]])
      fix v d
      assume d: "moves a d"
      show "yields (Inr (i, d)) (\<lambda>i a. length (tx_p a) < length (tx_p exp) \<and> (\<exists>e. adds_node exp e i a))"
        using adds_node_trans [OF a(1) d] moves_shorter [OF d] a(2) 3 by auto
    qed auto
  qed (use 3 moves_ready in auto)
qed (use assms(2) in auto)

lemma newnode_reads:
  assumes "ready exp" "peek exp \<noteq> NUL" "peek exp \<noteq> CHR 0x5C" "t \<in> {OP_DOT, OP_EOL, OP_BOL}"
  shows "reads exp (followed (advance exp) (\<lambda>_ exp. trex_newnode exp t))"
  unfolding reads_def by (rule yields_followed [OF advance_yields [OF assms(1-3)]]) (use newnode_adds [of exp _ t] assms(4) in fastforce)

lemma atom_reads:
  assumes "ready exp" "\<And>e. ready e \<Longrightarrow> length (tx_p e) < length (tx_p exp) \<Longrightarrow> reads_seq e (read_list e)"
  shows "reads exp (trex_atom read_list exp)"
proof -
  have "reads exp (trex_charnode exp False)"
    unfolding reads_def by (rule yields_mono [OF charnode_yields [OF assms(1)]]) (use adds_atom_node in \<open>auto simp: adds_atom_def\<close>)
  then show ?thesis
    unfolding trex_atom_def using assms group_reads bracket_reads newnode_reads by auto
qed

lemma element_reads:
  assumes "ready exp" "\<And>e. ready e \<Longrightarrow> length (tx_p e) < length (tx_p exp) \<Longrightarrow> reads_seq e (trex_list fuel e)"
    "\<And>e. ready e \<Longrightarrow> length (tx_p e) < length (tx_p exp) \<Longrightarrow> reads_seq e (trex_element fuel e)"
  shows "reads_seq exp (trex_element (Suc fuel) exp)"
proof -
  have "yields (followed (trex_greedy i e) (\<lambda>ret exp. if \<not> ends_element exp then
          followed (trex_element fuel exp) (\<lambda>nnode exp. followed (set_node ret (\<lambda>m. m\<lparr>n_next := nnode\<rparr>) exp) (\<lambda>_ exp. Inr (ret, exp)))
        else Inr (ret, exp))) (\<lambda>i a. length (tx_p a) < length (tx_p exp) \<and> (\<exists>es. adds_seq exp es i a))"
    if a: "length (tx_p e) < length (tx_p exp)" "adds_node exp x i e" for i e x
  proof (rule yields_followed [OF greedy_yields [OF a(2)]], rule yields_if)
    fix j b
    assume b: "length (tx_p b) \<le> length (tx_p e) \<and> (\<exists>y. adds_node exp y j b)"
    then obtain y where y: "adds_node exp y j b" by blast
    have "reads_seq b (trex_element fuel b)" by (rule assms(3) [OF adds_node_ready [OF y]]) (use a b in simp)
    then show "yields (followed (trex_element fuel b) (\<lambda>nnode exp. followed (set_node j (\<lambda>m. m\<lparr>n_next := nnode\<rparr>) exp) (\<lambda>_ exp. Inr (j, exp))))
        (\<lambda>i a. length (tx_p a) < length (tx_p exp) \<and> (\<exists>es. adds_seq exp es i a))"
      unfolding reads_seq_def by (rule yields_followed) (use join_adds [OF y] a b in fastforce)
  next
    fix j b
    assume "length (tx_p b) \<le> length (tx_p e) \<and> (\<exists>y. adds_node exp y j b)"
    then show "yields (Inr (j, b)) (\<lambda>i a. length (tx_p a) < length (tx_p exp) \<and> (\<exists>es. adds_seq exp es i a))" using a by (auto intro: adds_node_seq)
  qed
  then show ?thesis
    unfolding reads_seq_def trex_element.simps
    by (rule_tac yields_followed [OF atom_reads [OF assms(1,2), unfolded reads_def]]) auto
qed

lemma branch_reads:
  assumes "adds_seq exp es i a" "length (tx_p a) < length (tx_p exp)" "peek a = CHR ''|''"
    "\<And>e. ready e \<Longrightarrow> length (tx_p e) < length (tx_p exp) \<Longrightarrow> reads_seq e (trex_list fuel e)"
  shows "reads_seq exp (followed (advance a) (\<lambda>_ exp.
       followed (trex_newnode exp OP_OR) (\<lambda>temp exp.
       followed (set_node temp (\<lambda>m. m\<lparr>n_left := i\<rparr>) exp) (\<lambda>_ exp.
       followed (trex_list fuel exp) (\<lambda>tright exp.
       followed (set_node temp (\<lambda>m. m\<lparr>n_right := tright\<rparr>) exp) (\<lambda>_ exp. Inr (temp, exp)))))))"
  unfolding reads_seq_def
proof (rule yields_followed [OF advance_yields [OF adds_seq_ready [OF assms(1)]]], goal_cases)
  case (3 u b)
  then have b: "moves a b" "ready b" "roomy b" "length (tx_p b) < length (tx_p exp)" using moves_ready assms(2) by (auto simp: ready_def)
  let ?c = "(grown b OP_OR)\<lparr>tx_nodes := tx_nodes b @ [(fresh b OP_OR)\<lparr>n_left := i\<rparr>]\<rparr>"
  have "ready (grown b OP_OR)" using extends_ready [OF extends_grown [OF b(2)]] .
  then have "ready ?c" by simp
  then have "reads_seq ?c (trex_list fuel ?c)" by (rule assms(4)) (use b in simp)
  then have "yields (followed (trex_list fuel ?c) (\<lambda>tright exp.
      followed (set_node (size_of b) (\<lambda>m. m\<lparr>n_right := tright\<rparr>) exp) (\<lambda>_ exp. Inr (size_of b, exp))))
      (\<lambda>i a. length (tx_p a) < length (tx_p exp) \<and> (\<exists>es. adds_seq exp es i a))"
    unfolding reads_seq_def by (rule yields_followed) (use alt_adds [OF assms(1) b(1) refl refl] b in fastforce)
  then show ?case using b(3) by (simp add: newnode_roomy set_node_eq nth_append)
qed (use assms(3) in auto)

lemma list_reads:
  assumes "ready exp" "\<And>e. ready e \<Longrightarrow> length (tx_p e) < length (tx_p exp) \<Longrightarrow> reads_seq e (trex_list fuel e)"
    "\<And>e. ready e \<Longrightarrow> length (tx_p e) \<le> length (tx_p exp) \<Longrightarrow> reads_seq e (trex_element fuel e)"
  shows "reads_seq exp (trex_list (Suc fuel) exp)"
proof -
  let ?R = "\<lambda>i a. length (tx_p a) < length (tx_p exp) \<and> (\<exists>es. adds_seq exp es i a)"
  let ?B = "\<lambda>ret e. if ret \<noteq> -1 then length (tx_p e) < length (tx_p exp) \<and> (\<exists>x. adds_node exp x ret e) else e = exp"
  have start: "yields (if peek exp = CHR ''^'' then followed (advance exp) (\<lambda>_ exp. trex_newnode exp OP_BOL) else Inr (-1, exp)) ?B"
  proof (rule yields_if)
    assume "peek exp = CHR ''^''"
    then have "reads exp (followed (advance exp) (\<lambda>_ exp. trex_newnode exp OP_BOL))" by (intro newnode_reads [OF assms(1)]) auto
    then show "yields (followed (advance exp) (\<lambda>_ exp. trex_newnode exp OP_BOL)) ?B"
      unfolding reads_def by (rule yields_mono) (use adds_node_index in fastforce)
  qed simp
  show ?thesis
    unfolding reads_seq_def trex_list.simps
  proof (rule yields_followed [OF start])
    fix ret e
    assume b: "?B ret e"
    have re: "ready e" "length (tx_p e) \<le> length (tx_p exp)" using b assms(1) adds_node_ready by (auto split: if_splits)
    have el: "yields (trex_element fuel e) (\<lambda>i a. length (tx_p a) < length (tx_p e) \<and> (\<exists>es. adds_seq e es i a))"
      using assms(3) [OF re] by (simp add: reads_seq_def)
    show "yields (followed (trex_element fuel e) (\<lambda>e exp.
       followed (if ret \<noteq> -1 then followed (set_node ret (\<lambda>m. m\<lparr>n_next := e\<rparr>) exp) (\<lambda>_ exp. Inr (ret, exp))
         else Inr (e, exp)) (\<lambda>ret exp.
       if peek exp = CHR ''|'' then
         followed (advance exp) (\<lambda>_ exp.
         followed (trex_newnode exp OP_OR) (\<lambda>temp exp.
         followed (set_node temp (\<lambda>m. m\<lparr>n_left := ret\<rparr>) exp) (\<lambda>_ exp.
         followed (trex_list fuel exp) (\<lambda>tright exp.
         followed (set_node temp (\<lambda>m. m\<lparr>n_right := tright\<rparr>) exp) (\<lambda>_ exp. Inr (temp, exp))))))
       else Inr (ret, exp)))) ?R"
    proof (rule yields_followed [OF el], rule yields_followed [where P = ?R], rule yields_if, goal_cases)
      case (1 j d)
      then obtain x where x: "adds_node exp x ret e" using b by auto
      show ?case using 1 join_adds [OF x] re by fastforce
    next
      case (2 j d)
      then show ?case using b by auto
    next
      case (3 j d i a)
      then obtain es where "adds_seq exp es i a" "length (tx_p a) < length (tx_p exp)" by blast
      then show ?case using branch_reads [of exp es i a fuel] assms(2) unfolding reads_seq_def by auto
    qed
  qed
qed

lemma compiler_reads:
  "ready exp \<Longrightarrow> 2 * length (tx_p exp) + 1 \<le> fuel \<Longrightarrow> reads_seq exp (trex_element fuel exp)"
  "ready exp \<Longrightarrow> 2 * length (tx_p exp) + 2 \<le> fuel \<Longrightarrow> reads_seq exp (trex_list fuel exp)"
proof (induction fuel arbitrary: exp)
  case (Suc fuel)
  {
    case 1
    show ?case by (rule element_reads) (use 1 Suc.IH in auto)
  next
    case 2
    show ?case by (rule list_reads) (use 2 Suc.IH in auto)
  }
qed simp_all

section \<open>The compiler\<close>

definition good_pattern :: "string \<Rightarrow> bool" where
  "good_pattern p \<longleftrightarrow> p \<noteq> [] \<and> escapes_closed p \<and> short_numbers p"

text \<open>A program that holds a sequence of expressions, in the group of its first node.\<close>

definition program :: "trex \<Rightarrow> rx list \<Rightarrow> bool" where
  "program exp es \<longleftrightarrow> tx_first exp = 0 \<and> int (length (tx_matches exp)) = tx_nsubexpr exp \<and> n_next (tx_nodes exp ! 0) = -1 \<and>
     node_at (tx_nodes exp) (tx_nsubexpr exp) 0 (size_of exp) 0 (R_group es)"

lemma program_unique: "program exp es \<Longrightarrow> program exp fs \<Longrightarrow> fs = es"
  using node_unique by (fastforce simp: program_def)

definition opened :: "string \<Rightarrow> int \<Rightarrow> trex" where
  "opened p flags = (grown (empty_program p flags) OP_EXPR)\<lparr>tx_first := 0\<rparr>"

lemma opened_parts [simp]: "tx_p (opened p flags) = p" "tx_nodes (opened p flags) = [fresh (empty_program p flags) OP_EXPR]"
  "tx_nsubexpr (opened p flags) = 1" "tx_flags (opened p flags) = flags" "tx_first (opened p flags) = 0"
  by (simp_all add: opened_def empty_program_def)

lemma opened_ready: "good_pattern p \<Longrightarrow> ready (opened p flags)"
  by (auto simp: good_pattern_def ready_def roomy_def opened_def grown_def empty_program_def fresh_def Suc_le_eq)

lemma compile_steps_opened: "good_pattern p \<Longrightarrow> compile_steps p flags = followed (trex_list (compile_bound p) (opened p flags)) (\<lambda>res exp.
     followed (set_node (tx_first exp) (\<lambda>m. m\<lparr>n_left := res\<rparr>) exp) (\<lambda>_ exp.
     if peek exp \<noteq> NUL then trex_error ''unexpected character''
     else Inr ((), exp\<lparr>tx_matches := replicate (nat (tx_nsubexpr exp)) (None, 0)\<rparr>)))"
proof -
  assume "good_pattern p"
  then have "roomy (empty_program p flags)" by (auto simp: good_pattern_def roomy_def empty_program_def Suc_le_eq)
  moreover have "size_of (empty_program p flags) = 0" by (simp add: empty_program_def)
  ultimately show ?thesis by (simp add: compile_steps_def opened_def newnode_roomy)
qed

lemma program_made:
  assumes "adds_seq (opened p flags) es j b"
  shows "\<exists>c. set_node (tx_first b) (\<lambda>m. m\<lparr>n_left := j\<rparr>) b = Inr ((), c) \<and> tx_p c = tx_p b \<and> tx_flags c = flags \<and>
    program (c\<lparr>tx_matches := replicate (nat (tx_nsubexpr c)) (None, 0)\<rparr>) es"
proof -
  let ?a = "opened p flags" let ?e = "empty_program p flags"
  have es: "seq_at (tx_nodes b) (tx_nsubexpr b) (size_of ?a) (size_of b) j es" "extends ?a b" using assms by (auto simp: adds_seq_def)
  have b: "0 < size_of b" "tx_nodes b ! 0 = fresh ?e OP_EXPR" "1 \<le> tx_nsubexpr b" "tx_flags b = flags" "tx_first b = 0"
    using es(2) by (auto simp: extends_def)
  let ?c = "b\<lparr>tx_nodes := (tx_nodes b)[0 := (tx_nodes b ! 0)\<lparr>n_left := j\<rparr>]\<rparr>"
  have f: "n_right (fresh ?e OP_EXPR) = 0" by (simp add: empty_program_def)
  have c: "tx_nodes ?c ! 0 = (fresh ?e OP_EXPR)\<lparr>n_left := j\<rparr>" using b by (cases "tx_nodes b") auto
  have "seq_at (tx_nodes ?c) (tx_nsubexpr b) (0 + 1) (size_of ?c) j es"
    by (rule seq_at_frame [OF es(1)]) (auto simp: nth_list_update)
  then have "node_at (tx_nodes ?c) (tx_nsubexpr b) 0 (size_of ?c) 0 (R_group es)"
    using b f c by (intro node_at_seq_at.group_node) auto
  then have "program (?c\<lparr>tx_matches := replicate (nat (tx_nsubexpr b)) (None, 0)\<rparr>) es" using b c by (auto simp: program_def)
  then show ?thesis using b by (auto simp: set_node_eq)
qed

lemma compile_steps_yields:
  assumes "good_pattern p"
  shows "yields (compile_steps p flags) (\<lambda>_ exp. tx_flags exp = flags \<and> (\<exists>es. program exp es))"
proof -
  have "reads_seq (opened p flags) (trex_list (compile_bound p) (opened p flags))"
    by (rule compiler_reads(2) [OF opened_ready [OF assms]]) (simp add: compile_bound_def)
  then show ?thesis unfolding compile_steps_opened [OF assms] reads_seq_def
    by (rule yields_followed) (use program_made in fastforce)
qed

lemma compile_returns:
  assumes "good_pattern p"
  shows "(\<exists>error. trex_compile p flags = Inr (None, Some error)) \<or>
    (\<exists>exp. trex_compile p flags = Inr (Some exp, None) \<and> tx_flags exp = flags \<and> (\<exists>es. program exp es))"
proof (cases "compile_steps p flags")
  case (Inl s)
  then show ?thesis using compile_steps_yields [OF assms, of flags] by (cases s) (auto simp: trex_compile_def)
next
  case (Inr x)
  then show ?thesis using compile_steps_yields [OF assms, of flags] by (cases x) (auto simp: trex_compile_def)
qed

text \<open>C19: Every pattern that is not empty, does not end inside an escape and has no number of ten digits is compiled without an
access outside the pattern or the array of nodes and within the bound of the recursion: the result is null with a message,
or a program whose nodes hold one expression.\<close>

theorem compile_returns_expression:
  assumes "good_pattern p"
  shows "(\<exists>error. trex_compile p flags = Inr (None, Some error)) \<or>
    (\<exists>exp. trex_compile p flags = Inr (Some exp, None) \<and> tx_flags exp = flags \<and> (\<exists>!es. program exp es))"
  using compile_returns [OF assms] program_unique by blast

theorem compile_returns_expression_witness:
  "(\<exists>exp. trex_compile ''a(b|[c-x_])*'' 0 = Inr (Some exp, None) \<and> (\<exists>!es. program exp es)) \<and>
   trex_compile ''(a'' 0 = Inr (None, Some ''expected paren'')"
proof -
  have "good_pattern ''a(b|[c-x_])*''" "\<And>error. trex_compile ''a(b|[c-x_])*'' 0 \<noteq> Inr (None, Some error)"
    "trex_compile ''(a'' 0 = Inr (None, Some ''expected paren'')" by code_simp+
  then show ?thesis using compile_returns_expression [of "''a(b|[c-x_])*''" 0] by auto
qed

end
