(* ===== verification/Arg_Accept.thy ===== *)
theory Arg_Accept
  imports Arg_Compile
begin

text \<open>
  What the matcher of regular expressions promises: when it runs on the nodes of an expression it returns within its
  bound, it reads past the end of the text at most for expressions that match the terminator, and what it accepts is
  matched by the expression in the sense of a relation on positions.
\<close>

section \<open>The meaning of an expression\<close>

definition member_matches :: "int \<Rightarrow> member \<Rightarrow> int \<Rightarrow> bool" where
  "member_matches flags m c =
     (case m of Range l r \<Rightarrow>
        if icase flags then toupper l \<le> c \<and> c \<le> toupper r \<or> tolower l \<le> c \<and> c \<le> tolower r else l \<le> c \<and> c \<le> r
      | Named k \<Rightarrow> trex_matchcclass k c
      | One k \<Rightarrow> char_matches flags k c)"

definition set_matches :: "int \<Rightarrow> bool \<Rightarrow> member list \<Rightarrow> int \<Rightarrow> bool" where
  "set_matches flags negated ms c \<longleftrightarrow> (\<exists>m \<in> set ms. member_matches flags m c) \<noteq> negated"

text \<open>The character at a position, with the terminator at the end, and the test of the code for a word boundary.\<close>

definition char_code :: "string \<Rightarrow> nat \<Rightarrow> int" where
  "char_code tx p = (if p < length tx then signed_char (tx ! p) else 0)"

definition boundary :: "string \<Rightarrow> nat \<Rightarrow> nat \<Rightarrow> nat \<Rightarrow> bool" where
  "boundary tx bol eol p \<longleftrightarrow> p = bol \<and> \<not> isspace (char_code tx p) \<or> p = eol \<and> \<not> isspace (char_code tx (p - 1)) \<or>
     isspace (char_code tx p) \<noteq> isspace (char_code tx (p + 1))"

inductive matches :: "int \<Rightarrow> string \<Rightarrow> nat \<Rightarrow> nat \<Rightarrow> rx \<Rightarrow> nat \<Rightarrow> nat \<Rightarrow> bool"
  and matches_seq :: "int \<Rightarrow> string \<Rightarrow> nat \<Rightarrow> nat \<Rightarrow> rx list \<Rightarrow> nat \<Rightarrow> nat \<Rightarrow> bool"
  and repeats :: "int \<Rightarrow> string \<Rightarrow> nat \<Rightarrow> nat \<Rightarrow> rx \<Rightarrow> nat \<Rightarrow> nat \<Rightarrow> nat \<Rightarrow> bool" for flags tx bol eol where
  m_char: "p < length tx \<Longrightarrow> char_matches flags c (signed_char (tx ! p)) \<Longrightarrow> matches flags tx bol eol (R_char c) p (p + 1)"
| m_dot: "p < length tx \<Longrightarrow> matches flags tx bol eol R_dot p (p + 1)"
| m_bol: "matches flags tx bol eol R_bol bol bol"
| m_eol: "matches flags tx bol eol R_eol eol eol"
| m_boundary: "boundary tx bol eol p = x \<Longrightarrow> matches flags tx bol eol (R_boundary x) p p"
| m_class: "p < length tx \<Longrightarrow> trex_matchcclass k (signed_char (tx ! p)) \<Longrightarrow> matches flags tx bol eol (R_class k) p (p + 1)"
| m_set: "p < length tx \<Longrightarrow> set_matches flags negated ms (signed_char (tx ! p)) \<Longrightarrow> matches flags tx bol eol (R_set negated ms) p (p + 1)"
| m_group: "matches_seq flags tx bol eol es p q \<Longrightarrow> matches flags tx bol eol (R_group es) p q"
| m_left: "matches_seq flags tx bol eol es p q \<Longrightarrow> matches flags tx bol eol (R_alt es fs) p q"
| m_right: "matches_seq flags tx bol eol fs p q \<Longrightarrow> matches flags tx bol eol (R_alt es fs) p q"
| m_repeat: "repeats flags tx bol eol e k p q \<Longrightarrow> from \<le> int k \<Longrightarrow> to = 0xFFFF \<or> int k \<le> to \<Longrightarrow> matches flags tx bol eol (R_repeat e from to) p q"
| m_nil: "matches_seq flags tx bol eol [] p p"
| m_cons: "matches flags tx bol eol e p q \<Longrightarrow> matches_seq flags tx bol eol es q r \<Longrightarrow> matches_seq flags tx bol eol (e # es) p r"
| m_zero: "repeats flags tx bol eol e 0 p p"
| m_more: "matches flags tx bol eol e p q \<Longrightarrow> repeats flags tx bol eol e k q r \<Longrightarrow> repeats flags tx bol eol e (Suc k) p r"

text \<open>An expression whose characters are never the terminator.\<close>

fun plain :: "int \<Rightarrow> rx \<Rightarrow> bool" where
  "plain flags (R_char c) \<longleftrightarrow> \<not> char_matches flags c 0"
| "plain flags R_dot \<longleftrightarrow> False"
| "plain flags R_bol \<longleftrightarrow> True"
| "plain flags R_eol \<longleftrightarrow> True"
| "plain flags (R_boundary x) \<longleftrightarrow> False"
| "plain flags (R_class k) \<longleftrightarrow> \<not> trex_matchcclass k 0"
| "plain flags (R_set negated ms) \<longleftrightarrow> \<not> set_matches flags negated ms 0"
| "plain flags (R_group es) \<longleftrightarrow> (\<forall>e \<in> set es. plain flags e)"
| "plain flags (R_alt es fs) \<longleftrightarrow> (\<forall>e \<in> set es. plain flags e) \<and> (\<forall>e \<in> set fs. plain flags e)"
| "plain flags (R_repeat e from to) \<longleftrightarrow> plain flags e"

section \<open>Steps that stop only as allowed\<close>

definition gives :: "stop set \<Rightarrow> 'a step \<Rightarrow> ('a \<Rightarrow> trex \<Rightarrow> bool) \<Rightarrow> bool" where
  "gives S r Q = (case r of Inl s \<Rightarrow> s \<in> S | Inr (x, exp) \<Rightarrow> Q x exp)"

lemma gives_simps [simp]: "gives S (Inr (x, exp)) Q = Q x exp" "gives S (Inl s) Q \<longleftrightarrow> s \<in> S"
  by (simp_all add: gives_def)

lemma gives_followed: "gives S r P \<Longrightarrow> (\<And>x exp. P x exp \<Longrightarrow> gives S (f x exp) Q) \<Longrightarrow> gives S (followed r f) Q"
  by (cases r) (auto simp: followed_def gives_def)

lemma gives_mono: "gives S r P \<Longrightarrow> (\<And>x exp. P x exp \<Longrightarrow> Q x exp) \<Longrightarrow> gives S r Q"
  by (auto simp: gives_def split: sum.splits)

lemma gives_if: "(b \<Longrightarrow> gives S r Q) \<Longrightarrow> (\<not> b \<Longrightarrow> gives S r' Q) \<Longrightarrow> gives S (if b then r else r') Q"
  by simp

text \<open>What stays the same while a program runs.\<close>

definition runs_on :: "trex \<Rightarrow> trex \<Rightarrow> bool" where
  "runs_on prog exp \<longleftrightarrow> tx_nodes exp = tx_nodes prog \<and> tx_flags exp = tx_flags prog \<and> tx_bol exp = tx_bol prog \<and> tx_eol exp = tx_eol prog \<and>
     length (tx_matches exp) = length (tx_matches prog)"

text \<open>What a match may return.  Without allowed faults it stays inside the text.\<close>

definition ends_at :: "stop set \<Rightarrow> trex \<Rightarrow> string \<Rightarrow> (nat \<Rightarrow> bool) \<Rightarrow> nat \<Rightarrow> nat option \<Rightarrow> trex \<Rightarrow> bool" where
  "ends_at S prog tx P str r exp \<longleftrightarrow> runs_on prog exp \<and>
     (\<forall>q. r = Some q \<longrightarrow> str \<le> q \<and> (Bad_access \<notin> S \<longrightarrow> q \<le> length tx) \<and> (q \<le> length tx \<longrightarrow> P q))"

text \<open>Which faults are allowed where.\<close>

definition allowed :: "stop set \<Rightarrow> int \<Rightarrow> rx \<Rightarrow> bool" where
  "allowed S flags e \<longleftrightarrow> Bad_access \<in> S \<or> plain flags e"

definition starts :: "stop set \<Rightarrow> string \<Rightarrow> nat \<Rightarrow> bool" where
  "starts S tx str \<longleftrightarrow> Bad_access \<in> S \<or> str \<le> length tx"

lemma ends_starts: "ends_at S prog tx P str (Some q) exp \<Longrightarrow> starts S tx q"
  by (auto simp: ends_at_def starts_def)

section \<open>Atoms\<close>

lemma read_gives: "starts S tx str \<Longrightarrow> gives S (read_char tx str exp) (\<lambda>c exp'. exp' = exp \<and> str \<le> length tx \<and> c = char_code tx str)"
  by (auto simp: read_char_def starts_def char_code_def)

lemma followed_read: "(\<And>c. f c exp = g c exp) \<Longrightarrow> followed (read_char tx str exp) f = followed (read_char tx str exp) g"
  by (simp add: read_char_def)

lemma class_member_member: "class_member flags n c = member_matches flags (member_of n) c"
  by (simp add: class_member_def member_matches_def member_of_def)

lemma matchclass_gives:
  "members_at (tx_nodes exp) lo hi i ms \<Longrightarrow> 0 \<le> lo \<Longrightarrow> hi \<le> size_of exp \<Longrightarrow> hi - lo \<le> int k \<Longrightarrow>
   trex_matchclass k exp i c = Inr (\<exists>m \<in> set ms. member_matches (tx_flags exp) m c, exp)"
proof (induction arbitrary: k rule: members_at.induct)
  case (last_member lo i hi)
  then show ?case by (cases k) (auto simp: get_node_eq class_member_member)
next
  case (more_members lo i hi j ms)
  obtain k' where k: "k = Suc k'" using more_members by (cases k) auto
  have "trex_matchclass k' exp j c = Inr (\<exists>m \<in> set ms. member_matches (tx_flags exp) m c, exp)"
    by (rule more_members.IH) (use more_members k in auto)
  then show ?case using more_members k by (auto simp: get_node_eq class_member_member)
qed

abbreviation answers :: "stop set \<Rightarrow> trex \<Rightarrow> bool step \<Rightarrow> bool \<Rightarrow> bool" where
  "answers S exp r b \<equiv> gives S r (\<lambda>x exp'. exp' = exp \<and> x = b)"

lemma space_answers: "Bad_access \<in> S \<Longrightarrow> answers S exp (space_at tx pos exp) (isspace (char_code tx pos))"
  unfolding space_at_def by (rule gives_followed [OF read_gives]) (auto simp: starts_def)

lemma not_answers: "answers S exp r b \<Longrightarrow> answers S exp (followed r (\<lambda>b exp. Inr (\<not> b, exp))) (\<not> b)"
  by (rule gives_followed) auto

lemma or_answers: "answers S exp a x \<Longrightarrow> answers S exp (b exp) y \<Longrightarrow> answers S exp (or_else a b) (x \<or> y)"
  unfolding or_else_def by (rule gives_followed, assumption) auto

lemma if_answers: "answers S exp a x \<Longrightarrow> answers S exp b y \<Longrightarrow> answers S exp (if c then a else b) (if c then x else y)"
  by simp

lemma boundary_gives:
  assumes "Bad_access \<in> S"
  shows "answers S exp (at_boundary tx str exp) (boundary tx (tx_bol exp) (tx_eol exp) str)"
proof -
  let ?sp = "\<lambda>p. isspace (char_code tx p)"
  have no: "answers S exp (Inr (False, exp)) False" by simp
  note sp = space_answers [OF assms]
  have "answers S exp (followed (space_at tx str exp) (\<lambda>b exp. if \<not> b then space_at tx (str + 1) exp else Inr (False, exp)))
      (\<not> ?sp str \<and> ?sp (str + 1))"
    by (rule gives_followed [OF sp]) (use sp [of tx "str + 1" exp] in auto)
  moreover have "answers S exp (followed (space_at tx str exp) (\<lambda>b exp.
      if b then followed (space_at tx (str + 1) exp) (\<lambda>b exp. Inr (\<not> b, exp)) else Inr (False, exp))) (?sp str \<and> \<not> ?sp (str + 1))"
    by (rule gives_followed [OF sp]) (use not_answers [OF sp] in auto)
  moreover have "answers S exp (if str = tx_eol exp then if str = 0 then Inl Bad_access
      else followed (space_at tx (str - 1) exp) (\<lambda>b exp. Inr (\<not> b, exp)) else Inr (False, exp))
      (str = tx_eol exp \<and> \<not> ?sp (str - 1))"
    using not_answers [OF sp, of tx "str - 1" exp] assms by auto
  moreover have "answers S exp (if str = tx_bol exp then followed (space_at tx str exp) (\<lambda>b exp. Inr (\<not> b, exp)) else Inr (False, exp))
      (str = tx_bol exp \<and> \<not> ?sp str)"
    using not_answers [OF sp, of tx str exp] by auto
  ultimately have "answers S exp (at_boundary tx str exp) ((str = tx_bol exp \<and> \<not> ?sp str) \<or> (str = tx_eol exp \<and> \<not> ?sp (str - 1)) \<or>
      (\<not> ?sp str \<and> ?sp (str + 1)) \<or> (?sp str \<and> \<not> ?sp (str + 1)))"
    unfolding at_boundary_def by (intro or_answers)
  then show ?thesis by (rule gives_mono) (auto simp: boundary_def)
qed

text \<open>Nodes without sub-expressions.\<close>

lemma step_gives:
  assumes "starts S tx str" "Bad_access \<in> S \<or> \<not> good exp 0"
    "\<And>c. str < length tx \<Longrightarrow> good exp (signed_char (tx ! str)) \<Longrightarrow> P (str + 1)"
  shows "gives S (followed (read_char tx str exp) (\<lambda>c exp. if good exp c then next_char tx str exp else Inr (None, exp)))
    (\<lambda>r exp'. exp' = exp \<and> (\<forall>q. r = Some q \<longrightarrow> str \<le> q \<and> (Bad_access \<notin> S \<longrightarrow> q \<le> length tx) \<and> (q \<le> length tx \<longrightarrow> P q)))"
  by (rule gives_followed [OF read_gives [OF assms(1)]]) (use assms in \<open>auto simp: next_char_def char_code_def split: if_splits\<close>)

abbreviation means :: "trex \<Rightarrow> string \<Rightarrow> rx \<Rightarrow> nat \<Rightarrow> nat \<Rightarrow> bool" where
  "means prog tx \<equiv> matches (tx_flags prog) tx (tx_bol prog) (tx_eol prog)"

abbreviation means_seq :: "trex \<Rightarrow> string \<Rightarrow> rx list \<Rightarrow> nat \<Rightarrow> nat \<Rightarrow> bool" where
  "means_seq prog tx \<equiv> matches_seq (tx_flags prog) tx (tx_bol prog) (tx_eol prog)"

abbreviation node_in :: "trex \<Rightarrow> int \<Rightarrow> int \<Rightarrow> int \<Rightarrow> rx \<Rightarrow> bool" where
  "node_in prog lo hi i e \<equiv> node_at (tx_nodes prog) (int (length (tx_matches prog))) lo hi i e \<and> 0 \<le> lo \<and> hi \<le> size_of prog"

abbreviation seq_in :: "trex \<Rightarrow> int \<Rightarrow> int \<Rightarrow> int \<Rightarrow> rx list \<Rightarrow> bool" where
  "seq_in prog lo hi i es \<equiv> seq_at (tx_nodes prog) (int (length (tx_matches prog))) lo hi i es \<and> 0 \<le> lo \<and> hi \<le> size_of prog"

text \<open>A class, by its members.\<close>

lemma set_atom_eq:
  assumes "members_at (tx_nodes exp) lo hi (n_left n) ms" "0 \<le> lo" "hi \<le> size_of exp" "n_type n = OP_CLASS \<or> n_type n = OP_NCLASS"
  shows "match_atom tx n str exp = followed (read_char tx str exp) (\<lambda>c exp'.
    if set_matches (tx_flags exp) (n_type n = OP_NCLASS) ms c then next_char tx str exp' else Inr (None, exp'))"
proof -
  have "trex_matchclass (length (tx_nodes exp)) exp (n_left n) c = Inr (\<exists>m \<in> set ms. member_matches (tx_flags exp) m c, exp)" for c
    using matchclass_gives [OF assms(1-3), of "length (tx_nodes exp)" c] assms(2,3) by auto
  moreover have "((\<exists>m \<in> set ms. member_matches (tx_flags exp) m c) = (n_type n = OP_CLASS)) = set_matches (tx_flags exp) (n_type n = OP_NCLASS) ms c" for c
    using assms(4) by (auto simp: set_matches_def op_codes)
  ultimately have "followed (read_char tx str exp) (\<lambda>c exp. followed (trex_matchclass (length (tx_nodes exp)) exp (n_left n) c) (\<lambda>b exp.
        if b = (n_type n = OP_CLASS) then next_char tx str exp else Inr (None, exp)))
      = followed (read_char tx str exp) (\<lambda>c exp'. if set_matches (tx_flags exp) (n_type n = OP_NCLASS) ms c then next_char tx str exp' else Inr (None, exp'))"
    by (intro followed_read) simp
  moreover have "match_atom tx n str exp = followed (read_char tx str exp) (\<lambda>c exp. followed (trex_matchclass (length (tx_nodes exp)) exp (n_left n) c) (\<lambda>b exp.
        if b = (n_type n = OP_CLASS) then next_char tx str exp else Inr (None, exp)))"
    unfolding match_atom_def using assms(4) by (elim disjE) (simp_all only: op_codes, simp_all)
  ultimately show ?thesis by simp
qed

lemma atom_gives:
  assumes "node_in prog lo hi i e" "runs_on prog exp" "starts S tx str" "allowed S (tx_flags prog) e"
    and "n_type (tx_nodes prog ! nat i) \<notin> {OP_GREEDY, OP_OR, OP_EXPR, OP_NOCAPEXPR}"
  shows "gives S (match_atom tx (tx_nodes prog ! nat i) str exp) (ends_at S prog tx (means prog tx e str) str)"
proof -
  let ?n = "tx_nodes prog ! nat i" let ?fl = "tx_flags prog"
  have fl: "tx_flags exp = ?fl" "tx_bol exp = tx_bol prog" "tx_eol exp = tx_eol prog" "tx_nodes exp = tx_nodes prog" using assms(2) by (auto simp: runs_on_def)
  have node: "node_at (tx_nodes prog) (int (length (tx_matches prog))) lo hi i e" using assms(1) by blast
  have step: "gives S (followed (read_char tx str exp) (\<lambda>c exp. if good exp c then next_char tx str exp else Inr (None, exp))) (ends_at S prog tx P str)"
    if "Bad_access \<in> S \<or> \<not> good exp 0" "\<And>c. str < length tx \<Longrightarrow> good exp (signed_char (tx ! str)) \<Longrightarrow> P (str + 1)" for good P
    by (rule gives_mono [OF step_gives [OF assms(3)]]) (use that assms(2) in \<open>auto simp: ends_at_def\<close>)
  show ?thesis
    using node
  proof (cases rule: node_at.cases)
    case char_node
    have "gives S (followed (read_char tx str exp) (\<lambda>c exp. if char_matches (tx_flags exp) (n_type ?n) c then next_char tx str exp else Inr (None, exp)))
        (ends_at S prog tx (means prog tx e str) str)"
      by (rule step) (use char_node assms(4) m_char [of str tx ?fl "n_type ?n"] in \<open>simp_all add: allowed_def fl\<close>)
    then show ?thesis using char_node by (simp add: match_atom_def op_codes)
  next
    case dot_node
    then show ?thesis using assms(2-4) m_dot [of str tx ?fl] by (auto simp: match_atom_def op_codes next_char_def allowed_def ends_at_def)
  next
    case bol_node
    then show ?thesis using assms(2,3) fl m_bol [of ?fl tx "tx_bol prog"] by (auto simp: match_atom_def op_codes ends_at_def starts_def)
  next
    case eol_node
    then show ?thesis using assms(2,3) fl m_eol [of ?fl tx _ "tx_eol prog"] by (auto simp: match_atom_def op_codes ends_at_def starts_def)
  next
    case boundary_node
    then have "answers S exp (at_boundary tx str exp) (boundary tx (tx_bol prog) (tx_eol prog) str)"
      using boundary_gives [of S tx str exp] assms(4) fl by (simp add: allowed_def)
    then have "gives S (followed (at_boundary tx str exp) (\<lambda>b exp.
        Inr (if b then (if n_left ?n = signed_char (CHR ''b'') then Some str else None)
          else if n_left ?n = signed_char (CHR ''b'') then None else Some str, exp))) (ends_at S prog tx (means prog tx e str) str)"
      by (rule gives_followed) (use boundary_node assms(2,3) in \<open>auto simp: ends_at_def starts_def m_boundary\<close>)
    then show ?thesis using boundary_node by (simp add: match_atom_def op_codes)
  next
    case class_node
    have "gives S (followed (read_char tx str exp) (\<lambda>c exp. if trex_matchcclass (n_left ?n) c then next_char tx str exp else Inr (None, exp)))
        (ends_at S prog tx (means prog tx e str) str)"
      by (rule step) (use class_node assms(4) m_class [of str tx "n_left ?n"] in \<open>simp_all add: allowed_def\<close>)
    then show ?thesis using class_node by (simp add: match_atom_def op_codes)
  next
    case (set_node ms)
    then have "match_atom tx ?n str exp = followed (read_char tx str exp) (\<lambda>c exp'.
        if set_matches ?fl (n_type ?n = OP_NCLASS) ms c then next_char tx str exp' else Inr (None, exp'))"
      using set_atom_eq [of exp "i + 1" hi ?n ms tx str] assms(1) fl by auto
    moreover have "gives S (followed (read_char tx str exp) (\<lambda>c exp. if set_matches ?fl (n_type ?n = OP_NCLASS) ms c then next_char tx str exp else Inr (None, exp)))
        (ends_at S prog tx (means prog tx e str) str)"
      by (rule step) (use set_node assms(4) m_set [of str tx ?fl "n_type ?n = OP_NCLASS" ms] in \<open>simp_all add: allowed_def\<close>)
    ultimately show ?thesis by simp
  qed (use assms(5) in \<open>auto\<close>)
qed

lemma chain_gives:
  assumes "seq_in prog lo hi n es" "hi - lo \<le> int k" "runs_on prog exp" "starts S tx cur"
    and "\<And>n e rest lo' cur exp. seq_in prog lo' hi n (e # rest) \<Longrightarrow> lo \<le> lo' \<Longrightarrow> set (e # rest) \<subseteq> set es \<Longrightarrow> runs_on prog exp \<Longrightarrow> starts S tx cur \<Longrightarrow>
      gives S (M n cur (if n_next (tx_nodes prog ! nat n) \<noteq> -1 then n_next (tx_nodes prog ! nat n) else nx) exp)
        (ends_at S prog tx (means prog tx e cur) cur)"
  shows "gives S (match_chain k M nx n cur exp) (ends_at S prog tx (means_seq prog tx es cur) cur)"
  using assms
proof (induction es arbitrary: lo n k cur exp)
  case Nil
  then show ?case using seq_at_bounds by blast
next
  case (Cons e es)
  let ?m = "tx_nodes prog ! nat n"
  have n: "lo \<le> n" "n < hi" using Cons.prems(1) seq_at_bounds by blast+
  have g: "get_node n exp = Inr (?m, exp)" using n Cons.prems(1,3) by (auto simp: get_node_def runs_on_def)
  obtain k' where k: "k = Suc k'" using Cons.prems(2) n by (cases k) auto
  have "gives S (M n cur (if n_next ?m \<noteq> -1 then n_next ?m else nx) exp) (ends_at S prog tx (means prog tx e cur) cur)"
    by (rule Cons.prems(5) [OF Cons.prems(1) order_refl _ Cons.prems(3,4)]) simp
  then have "gives S (followed (M n cur (if n_next ?m \<noteq> -1 then n_next ?m else nx) exp) (\<lambda>r exp.
     case r of None \<Rightarrow> Inr (None, exp)
     | Some cur \<Rightarrow> if n_next ?m \<noteq> -1 then match_chain k' M nx (n_next ?m) cur exp else Inr (Some cur, exp)))
     (ends_at S prog tx (means_seq prog tx (e # es) cur) cur)"
  proof (rule gives_followed)
    fix r exp'
    assume r: "ends_at S prog tx (means prog tx e cur) cur r exp'"
    show "gives S (case r of None \<Rightarrow> Inr (None, exp')
      | Some cur \<Rightarrow> if n_next ?m \<noteq> -1 then match_chain k' M nx (n_next ?m) cur exp' else Inr (Some cur, exp'))
      (ends_at S prog tx (means_seq prog tx (e # es) cur) cur)"
    proof (cases r)
      case None
      then show ?thesis using r by (simp add: ends_at_def)
    next
      case (Some q)
      have q: "runs_on prog exp'" "starts S tx q" "cur \<le> q" "q \<le> length tx \<Longrightarrow> means prog tx e cur q" "Bad_access \<notin> S \<Longrightarrow> q \<le> length tx"
        using r Some by (auto simp: ends_at_def starts_def)
      have seq: "seq_at (tx_nodes prog) (int (length (tx_matches prog))) lo hi n (e # es)" using Cons.prems(1) by blast
      then show ?thesis
      proof (cases rule: seq_at.cases)
        case last_node
        then show ?thesis using Some q by (auto simp: ends_at_def intro!: m_cons m_nil)
      next
        case (more_nodes m j)
        have b: "lo < m" using node_at_bounds [OF more_nodes(1)] by simp
        have "gives S (match_chain k' M nx j q exp') (ends_at S prog tx (means_seq prog tx es q) q)"
        proof (rule Cons.IH [OF _ _ q(1,2)])
          show "seq_in prog m hi j es" "hi - m \<le> int k'" using more_nodes Cons.prems(1,2) b k node_at_bounds [OF more_nodes(1)] by auto
        next
          fix i e' rest lo' cur exp
          assume s: "seq_in prog lo' hi i (e' # rest)" "m \<le> lo'" "set (e' # rest) \<subseteq> set es" "runs_on prog exp" "starts S tx cur"
          show "gives S (M i cur (if n_next (tx_nodes prog ! nat i) \<noteq> -1 then n_next (tx_nodes prog ! nat i) else nx) exp)
              (ends_at S prog tx (means prog tx e' cur) cur)"
            by (rule Cons.prems(5) [OF s(1) _ _ s(4,5)]) (use s(2,3) b in auto)
        qed
        then show ?thesis
          using Some more_nodes q by (auto elim!: gives_mono simp: ends_at_def) (rule m_cons)
      qed
    qed
  qed
  then show ?case using g k by simp
qed

lemma greedy_gives:
  assumes "\<And>s exp. runs_on prog exp \<Longrightarrow> starts S tx s \<Longrightarrow> gives S (B s exp) (ends_at S prog tx (means prog tx e s) s)"
    and "\<And>s exp. runs_on prog exp \<Longrightarrow> starts S tx s \<Longrightarrow> gives S (St s exp) (\<lambda>_ exp'. runs_on prog exp')"
    and "runs_on prog exp" "starts S tx s"
  shows "gives S (greedy_loop B St p0 p1 nm s s exp) (\<lambda>(nm', g) exp'. runs_on prog exp' \<and> nm \<le> nm' \<and> s \<le> g \<and>
    (Bad_access \<notin> S \<longrightarrow> g \<le> length tx) \<and> (g \<le> length tx \<longrightarrow> repeats (tx_flags prog) tx (tx_bol prog) (tx_eol prog) e (nat (nm' - nm)) s g))"
  using assms(3,4)
proof (induction "nat (max 0x10000 p1 - nm)" arbitrary: nm s exp rule: less_induct)
  case less
  let ?R = "\<lambda>nm s (nm', g) exp'. runs_on prog exp' \<and> nm \<le> nm' \<and> s \<le> g \<and>
    (Bad_access \<notin> S \<longrightarrow> g \<le> length tx) \<and> (g \<le> length tx \<longrightarrow> repeats (tx_flags prog) tx (tx_bol prog) (tx_eol prog) e (nat (nm' - nm)) s g)"
  have stop: "?R nm s (nm, s) exp'" if "runs_on prog exp'" for exp' using that less.prems by (auto simp: starts_def m_zero)
  have join: "?R nm s x exp'" if x: "?R (nm + 1) q x exp'" and q: "s \<le> q" "q \<le> length tx \<Longrightarrow> means prog tx e s q" for q x exp'
  proof -
    obtain nm' g where xg: "x = (nm', g)" by (cases x)
    have "nm + 1 \<le> nm'" using x xg by simp
    then have "nat (nm' - nm) = Suc (nat (nm' - (nm + 1)))" by linarith
    then show ?thesis using x q xg by (auto intro: m_more)
  qed
  show ?case
  proof (cases "nm = 0xFFFF \<or> nm < p1")
    case False
    then show ?thesis using stop [OF less.prems(1)] by (subst greedy_loop.simps) auto
  next
    case True
    have "gives S (followed (B s exp) (\<lambda>r exp. case r of None \<Rightarrow> Inr ((nm, s), exp)
        | Some s \<Rightarrow> followed (St s exp) (\<lambda>stop exp. if stop \<and> enough p0 p1 (nm + 1) then Inr ((nm + 1, s), exp)
            else if tx_eol exp \<le> s then Inr ((nm + 1, s), exp) else greedy_loop B St p0 p1 (nm + 1) s s exp))) (?R nm s)"
    proof (rule gives_followed [OF assms(1) [OF less.prems]])
      fix r exp1
      assume r: "ends_at S prog tx (means prog tx e s) s r exp1"
      show "gives S (case r of None \<Rightarrow> Inr ((nm, s), exp1)
        | Some s \<Rightarrow> followed (St s exp1) (\<lambda>stop exp. if stop \<and> enough p0 p1 (nm + 1) then Inr ((nm + 1, s), exp)
            else if tx_eol exp \<le> s then Inr ((nm + 1, s), exp) else greedy_loop B St p0 p1 (nm + 1) s s exp)) (?R nm s)"
      proof (cases r)
        case None
        then show ?thesis using r stop by (simp add: ends_at_def)
      next
        case (Some q)
        have q: "runs_on prog exp1" "starts S tx q" "s \<le> q" "q \<le> length tx \<Longrightarrow> means prog tx e s q"
          using r Some by (auto simp: ends_at_def starts_def)
        have "gives S (followed (St q exp1) (\<lambda>stop exp. if stop \<and> enough p0 p1 (nm + 1) then Inr ((nm + 1, q), exp)
            else if tx_eol exp \<le> q then Inr ((nm + 1, q), exp) else greedy_loop B St p0 p1 (nm + 1) q q exp)) (?R nm s)"
        proof (rule gives_followed [OF assms(2) [OF q(1,2)]])
          fix stop exp2
          assume e2: "runs_on prog exp2"
          have one: "?R nm s (nm + 1, q) exp2" by (rule join) (use e2 q in \<open>auto simp: starts_def m_zero\<close>)
          have "gives S (greedy_loop B St p0 p1 (nm + 1) q q exp2) (?R (nm + 1) q)"
            by (rule less.hyps) (use True e2 q in auto)
          then have "gives S (greedy_loop B St p0 p1 (nm + 1) q q exp2) (?R nm s)" by (rule gives_mono) (rule join [OF _ q(3,4)])
          then show "gives S (if stop \<and> enough p0 p1 (nm + 1) then Inr ((nm + 1, q), exp2)
            else if tx_eol exp2 \<le> q then Inr ((nm + 1, q), exp2) else greedy_loop B St p0 p1 (nm + 1) q q exp2) (?R nm s)"
            using one by auto
        qed
        then show ?thesis using Some by simp
      qed
    qed
    then show ?thesis using True by (subst greedy_loop.simps) simp
  qed
qed

section \<open>The matcher\<close>

text \<open>The node that follows a node, its own or the one it is given, and the size of the nodes from there on.\<close>

definition after :: "trex \<Rightarrow> int \<Rightarrow> int \<Rightarrow> int" where
  "after prog i nx = (if n_next (tx_nodes prog ! nat i) \<noteq> -1 then n_next (tx_nodes prog ! nat i) else nx)"

definition tail_fits :: "stop set \<Rightarrow> trex \<Rightarrow> int \<Rightarrow> int \<Rightarrow> bool" where
  "tail_fits S prog w i \<longleftrightarrow> 0 \<le> w \<and> (i = -1 \<or> (\<exists>lo hi es. seq_in prog lo hi i es \<and> hi - lo \<le> w \<and> (\<forall>e \<in> set es. allowed S (tx_flags prog) e)))"

text \<open>A call of \<open>trex_matchnode\<close> that its bound is enough for: the recursion only visits the nodes of the expression, and
  those of the sequence after it.\<close>

definition call_fits :: "stop set \<Rightarrow> trex \<Rightarrow> nat \<Rightarrow> int \<Rightarrow> int \<Rightarrow> rx \<Rightarrow> bool" where
  "call_fits S prog fuel i nx e \<longleftrightarrow> (\<exists>lo m w. node_in prog lo m i e \<and> allowed S (tx_flags prog) e \<and> tail_fits S prog w (after prog i nx) \<and>
     (n_next (tx_nodes prog ! nat i) = -1 \<or> nx = -1 \<or> nx = n_next (tx_nodes prog ! nat i)) \<and> m - lo + w \<le> int fuel)"

lemma tail_fits_seq:
  assumes "seq_in prog lo hi i es" "hi - lo \<le> w" "\<forall>e \<in> set es. allowed S (tx_flags prog) e"
  shows "tail_fits S prog w i"
proof -
  have "lo \<le> i \<and> i < hi" using seq_at_bounds assms(1) by blast
  then show ?thesis using assms unfolding tail_fits_def by auto
qed

lemma tail_fits_next:
  assumes "tail_fits S prog w i" "i \<noteq> -1"
  shows "\<exists>e es lo hi. seq_in prog lo hi i (e # es) \<and> call_fits S prog (nat w) i (n_next (tx_nodes prog ! nat i)) e"
proof -
  obtain lo hi es where es: "seq_in prog lo hi i es" "hi - lo \<le> w" "\<forall>e \<in> set es. allowed S (tx_flags prog) e" using assms by (auto simp: tail_fits_def)
  have "seq_at (tx_nodes prog) (int (length (tx_matches prog))) lo hi i es" using es(1) by blast
  then show ?thesis
  proof (cases rule: seq_at.cases)
    case (last_node e)
    then have "call_fits S prog (nat w) i (n_next (tx_nodes prog ! nat i)) e"
      unfolding call_fits_def
      by (intro exI [of _ lo] exI [of _ hi] exI [of _ 0]) (use es last_node node_at_bounds [OF last_node(2)] in \<open>auto simp: after_def tail_fits_def\<close>)
    then show ?thesis using es(1) last_node by blast
  next
    case (more_nodes m e j fs)
    have b: "lo \<le> i" "i < m" "m \<le> j" "j < hi" using node_at_bounds [OF more_nodes(2)] seq_at_bounds [OF more_nodes(6)] by auto
    have t: "tail_fits S prog (hi - m) j" by (rule tail_fits_seq) (use more_nodes es b in auto)
    then have "call_fits S prog (nat w) i (n_next (tx_nodes prog ! nat i)) e"
      unfolding call_fits_def after_def
      by (intro exI [of _ lo] exI [of _ m] exI [of _ "hi - m"]) (use more_nodes es b in auto)
    then show ?thesis using es(1) more_nodes by blast
  qed
qed

text \<open>The nodes of a chain, when the recursion is bounded by its size and that of the sequence after it.\<close>

lemma chain_calls:
  assumes "seq_in prog lo' hi n (e # rest)" "lo \<le> lo'" "allowed S (tx_flags prog) e" "\<forall>e \<in> set rest. allowed S (tx_flags prog) e"
    "tail_fits S prog w nx" "hi - lo + w \<le> int fuel" "nx' = (if n_next (tx_nodes prog ! nat n) \<noteq> -1 then n_next (tx_nodes prog ! nat n) else nx)"
  shows "call_fits S prog fuel n nx' e"
proof -
  have w: "0 \<le> w" using assms(5) by (simp add: tail_fits_def)
  have "seq_at (tx_nodes prog) (int (length (tx_matches prog))) lo' hi n (e # rest)" using assms(1) by blast
  then show ?thesis
  proof (cases rule: seq_at.cases)
    case last_node
    then show ?thesis unfolding call_fits_def after_def
      by (intro exI [of _ lo'] exI [of _ hi] exI [of _ w]) (use assms in auto)
  next
    case (more_nodes m j)
    have b: "lo' \<le> n" "n < m" "m \<le> j" "j < hi" using node_at_bounds [OF more_nodes(1)] seq_at_bounds [OF more_nodes(5)] by auto
    have t: "tail_fits S prog (hi - m) j" by (rule tail_fits_seq) (use more_nodes assms(1,4) b in auto)
    then show ?thesis unfolding call_fits_def after_def
      by (intro exI [of _ lo'] exI [of _ m] exI [of _ "hi - m"]) (use more_nodes assms b w in auto)
  qed
qed

lemma call_fits_mono: "call_fits S prog f i nx e \<Longrightarrow> f \<le> g \<Longrightarrow> call_fits S prog g i nx e"
  unfolding call_fits_def by force

lemma call_fits_null: "call_fits S prog f i (if n_next (tx_nodes prog ! nat i) \<noteq> -1 then n_next (tx_nodes prog ! nat i) else -1) e \<Longrightarrow>
   call_fits S prog f i (-1) e"
proof -
  assume "call_fits S prog f i (if n_next (tx_nodes prog ! nat i) \<noteq> -1 then n_next (tx_nodes prog ! nat i) else -1) e"
  then obtain lo m w where "node_in prog lo m i e" "allowed S (tx_flags prog) e" "m - lo + w \<le> int f"
    "tail_fits S prog w (after prog i (if n_next (tx_nodes prog ! nat i) \<noteq> -1 then n_next (tx_nodes prog ! nat i) else -1))"
    unfolding call_fits_def by blast
  then show ?thesis unfolding call_fits_def
    by (intro exI [of _ lo] exI [of _ m] exI [of _ w]) (auto simp: after_def split: if_splits)
qed

lemma begin_gives:
  assumes "runs_on prog exp" "n_type n = OP_NOCAPEXPR \<or> 0 \<le> n_right n \<and> n_right n < int (length (tx_matches prog))"
  shows "gives S (begin_capture n str exp) (\<lambda>c exp'. runs_on prog exp' \<and> (c = -1 \<or> 0 \<le> c \<and> c < int (length (tx_matches prog))))"
  using assms by (auto simp: begin_capture_def set_match_def runs_on_def)

lemma end_gives:
  assumes "ends_at S prog tx P str r exp" "c = -1 \<or> 0 \<le> c \<and> c < int (length (tx_matches prog))"
  shows "gives S (end_capture c r exp) (ends_at S prog tx P str)"
  using assms by (auto simp: end_capture_def set_match_def runs_on_def ends_at_def)

definition calls_well :: "stop set \<Rightarrow> trex \<Rightarrow> string \<Rightarrow> nat \<Rightarrow> (int \<Rightarrow> nat \<Rightarrow> int \<Rightarrow> trex \<Rightarrow> nat option step) \<Rightarrow> bool" where
  "calls_well S prog tx fuel M \<longleftrightarrow> (\<forall>i nx e exp str. call_fits S prog fuel i nx e \<longrightarrow> runs_on prog exp \<longrightarrow> starts S tx str \<longrightarrow>
     gives S (M i str nx exp) (ends_at S prog tx (means prog tx e str) str))"

text \<open>The three kinds of nodes with sub-expressions, when the calls on these are as they should be.\<close>

lemma branch_gives:
  assumes "calls_well S prog tx fuel M" "seq_in prog lo hi i es" "hi - lo \<le> int fuel" "\<forall>e \<in> set es. allowed S (tx_flags prog) e"
    "runs_on prog exp" "starts S tx str"
  shows "gives S (match_chain (length (tx_nodes exp)) (\<lambda>n s _. M n s (-1)) (-1) i str exp) (ends_at S prog tx (means_seq prog tx es str) str)"
proof (rule chain_gives [OF assms(2) _ assms(5,6)])
  show "hi - lo \<le> int (length (tx_nodes exp))" using assms(2,5) by (auto simp: runs_on_def)
next
  fix n e rest lo' cur exp
  assume s: "seq_in prog lo' hi n (e # rest)" "lo \<le> lo'" "set (e # rest) \<subseteq> set es" "runs_on prog exp" "starts S tx cur"
  have "call_fits S prog fuel n (-1) e"
    by (rule call_fits_null, rule chain_calls [OF s(1,2), where w = 0]) (use assms(3,4) s in \<open>auto simp: tail_fits_def\<close>)
  then show "gives S (M n cur (-1) exp) (ends_at S prog tx (means prog tx e cur) cur)" using assms(1) s(4,5) by (simp add: calls_well_def)
qed

lemma group_gives:
  assumes "calls_well S prog tx fuel M" "seq_in prog lo hi (n_left n) es" "hi - lo + w \<le> int fuel" "\<forall>e \<in> set es. allowed S (tx_flags prog) e"
    "tail_fits S prog w nx" "n_type n = OP_NOCAPEXPR \<or> 0 \<le> n_right n \<and> n_right n < int (length (tx_matches prog))"
    "runs_on prog exp" "starts S tx str"
  shows "gives S (match_expr M n str nx exp) (ends_at S prog tx (means prog tx (R_group es) str) str)"
  unfolding match_expr_def
proof (rule gives_followed [OF begin_gives [OF assms(7,6)]], elim conjE, rule gives_followed)
  fix c exp1
  assume e1: "runs_on prog exp1"
  show "gives S (match_chain (length (tx_nodes exp1)) M nx (n_left n) str exp1) (ends_at S prog tx (means_seq prog tx es str) str)"
  proof (rule chain_gives [OF assms(2) _ e1 assms(8)])
    show "hi - lo \<le> int (length (tx_nodes exp1))" using assms(2) e1 by (auto simp: runs_on_def)
  next
    fix m e rest lo' cur exp
    assume s: "seq_in prog lo' hi m (e # rest)" "lo \<le> lo'" "set (e # rest) \<subseteq> set es" "runs_on prog exp" "starts S tx cur"
    have "call_fits S prog fuel m (if n_next (tx_nodes prog ! nat m) \<noteq> -1 then n_next (tx_nodes prog ! nat m) else nx) e"
      by (rule chain_calls [OF s(1,2) _ _ assms(5,3) refl]) (use assms(4) s(3) in auto)
    then show "gives S (M m cur (if n_next (tx_nodes prog ! nat m) \<noteq> -1 then n_next (tx_nodes prog ! nat m) else nx) exp)
        (ends_at S prog tx (means prog tx e cur) cur)"
      using assms(1) s(4,5) by (simp add: calls_well_def)
  qed
next
  fix c exp1 r exp2
  assume c: "c = -1 \<or> 0 \<le> c \<and> c < int (length (tx_matches prog))"
    and r: "ends_at S prog tx (means_seq prog tx es str) str r exp2"
  have "ends_at S prog tx (means prog tx (R_group es) str) str r exp2" using r by (auto simp: ends_at_def intro: m_group)
  then show "gives S (end_capture c r exp2) (ends_at S prog tx (means prog tx (R_group es) str) str)" by (rule end_gives [OF _ c])
qed

lemma alt_gives:
  assumes "calls_well S prog tx fuel M" "seq_in prog lo i (n_left n) es" "seq_in prog (i + 1) hi (n_right n) fs"
    "i - lo \<le> int fuel" "hi - (i + 1) \<le> int fuel" "allowed S (tx_flags prog) (R_alt es fs)" "runs_on prog exp" "starts S tx str"
  shows "gives S (match_or M n str exp) (ends_at S prog tx (means prog tx (R_alt es fs) str) str)"
  unfolding match_or_def Let_def
proof (rule gives_followed)
  show "gives S (match_chain (length (tx_nodes exp)) (\<lambda>n s _. M n s (-1)) (-1) (n_left n) str exp) (ends_at S prog tx (means_seq prog tx es str) str)"
    by (rule branch_gives [OF assms(1,2,4) _ assms(7,8)]) (use assms(6) in \<open>auto simp: allowed_def\<close>)
next
  fix r exp1
  assume r: "ends_at S prog tx (means_seq prog tx es str) str r exp1"
  have e1: "runs_on prog exp1" "length (tx_nodes exp) = length (tx_nodes exp1)" using r assms(7) by (auto simp: ends_at_def runs_on_def)
  show "gives S (case r of Some asd \<Rightarrow> Inr (Some asd, exp1)
      | None \<Rightarrow> match_chain (length (tx_nodes exp)) (\<lambda>n s _. M n s (-1)) (-1) (n_right n) str exp1)
      (ends_at S prog tx (means prog tx (R_alt es fs) str) str)"
  proof (cases r)
    case None
    have "gives S (match_chain (length (tx_nodes exp)) (\<lambda>n s _. M n s (-1)) (-1) (n_right n) str exp1) (ends_at S prog tx (means_seq prog tx fs str) str)"
      unfolding e1(2) by (rule branch_gives [OF assms(1,3,5) _ e1(1) assms(8)]) (use assms(6) in \<open>auto simp: allowed_def\<close>)
    then show ?thesis using None by (auto elim!: gives_mono simp: ends_at_def) (rule m_right)
  qed (use r in \<open>auto simp: ends_at_def intro: m_left\<close>)
qed

lemma stops_gives:
  assumes "calls_well S prog tx fuel M" "tail_fits S prog w gs" "w \<le> int fuel" "gs = -1 \<or> nx = -1 \<or> nx = gs"
    "runs_on prog exp" "starts S tx s"
  shows "gives S (greedy_stops M gs nx s exp) (\<lambda>_ exp'. runs_on prog exp')"
proof (cases "gs = -1")
  case False
  obtain e es lo hi where t: "seq_in prog lo hi gs (e # es)" "call_fits S prog (nat w) gs (n_next (tx_nodes prog ! nat gs)) e"
    using tail_fits_next [OF assms(2) False] by blast
  have "lo \<le> gs \<and> gs < hi" using t(1) seq_at_bounds by blast
  then have g: "get_node gs exp = Inr (tx_nodes prog ! nat gs, exp)" using t(1) assms(5) by (auto simp: get_node_def runs_on_def)
  have c: "call_fits S prog fuel gs (n_next (tx_nodes prog ! nat gs)) e" by (rule call_fits_mono [OF t(2)]) (use assms(3) in simp)
  have "gives S (M gs s (n_next (tx_nodes prog ! nat gs)) exp) (ends_at S prog tx (means prog tx e s) s)"
    using assms(1,5,6) c by (simp add: calls_well_def)
  then have "gives S (followed (M gs s (n_next (tx_nodes prog ! nat gs)) exp) (\<lambda>stop exp. Inr (stop \<noteq> None, exp))) (\<lambda>_ exp'. runs_on prog exp')"
    by (rule gives_followed) (auto simp: ends_at_def)
  then show ?thesis using g assms(4,5) False by (auto simp: greedy_stops_def)
qed (use assms in \<open>simp add: greedy_stops_def\<close>)

lemma repeat_gives:
  assumes "calls_well S prog tx fuel M" "node_in prog lo i (n_left n) e" "n_next (tx_nodes prog ! nat (n_left n)) = -1" "allowed S (tx_flags prog) e"
    "gs = (if n_next n \<noteq> -1 then n_next n else nx)" "tail_fits S prog w gs" "n_next n = -1 \<or> nx = -1 \<or> nx = n_next n" "i - lo + w \<le> int fuel"
    "runs_on prog exp" "starts S tx str"
  shows "gives S (match_greedy M n str nx exp) (ends_at S prog tx (means prog tx (R_repeat e (count_from (n_right n)) (count_to (n_right n))) str) str)"
  unfolding match_greedy_def Let_def
proof (rule gives_followed [OF greedy_gives [where e = e, OF _ _ assms(9,10)]], goal_cases)
  case (1 s exp)
  have "call_fits S prog fuel (n_left n) gs e"
    unfolding call_fits_def by (intro exI [of _ lo] exI [of _ i] exI [of _ w]) (use assms in \<open>auto simp: after_def\<close>)
  then show ?case using assms(1,5) 1 by (simp add: calls_well_def)
next
  case (2 s exp)
  have "w \<le> int fuel" using assms(8) assms(2) node_at_bounds by fastforce
  then show ?case using stops_gives [OF assms(1,6) _ _ 2] assms(5,7) by auto
next
  case (3 x exp')
  obtain nm g where x: "x = (nm, g)" by (cases x)
  have "means prog tx (R_repeat e (count_from (n_right n)) (count_to (n_right n))) str g"
    if "repeats (tx_flags prog) tx (tx_bol prog) (tx_eol prog) e (nat nm) str g" "0 \<le> nm" "enough (count_from (n_right n)) (count_to (n_right n)) nm"
    by (rule m_repeat [OF that(1)]) (use that(2,3) in \<open>auto simp: enough_def\<close>)
  then show ?case using 3 x by (auto simp: ends_at_def)
qed

lemma matchnode_gives: "calls_well S prog tx fuel (trex_matchnode fuel tx)"
proof (induction fuel)
  case 0
  have False if "call_fits S prog 0 i nx e" for i nx e
    using that node_at_bounds unfolding call_fits_def tail_fits_def by fastforce
  then show ?case by (auto simp: calls_well_def)
next
  case (Suc fuel)
  have "gives S (trex_matchnode (Suc fuel) tx i str nx exp) (ends_at S prog tx (means prog tx e str) str)"
    if fits: "call_fits S prog (Suc fuel) i nx e" and run: "runs_on prog exp" and start: "starts S tx str" for i nx e exp str
  proof -
    let ?n = "tx_nodes prog ! nat i"
    obtain lo m w where c: "node_in prog lo m i e" "allowed S (tx_flags prog) e" "tail_fits S prog w (after prog i nx)"
      "n_next ?n = -1 \<or> nx = -1 \<or> nx = n_next ?n" "m - lo + w \<le> int (Suc fuel)"
      using fits unfolding call_fits_def by blast
    have node: "node_at (tx_nodes prog) (int (length (tx_matches prog))) lo m i e" using c(1) by blast
    have b: "lo \<le> i" "i < m" "0 \<le> w" using node_at_bounds [OF node] c(3) by (auto simp: tail_fits_def)
    have g: "get_node i exp = Inr (?n, exp)" using b c(1) run by (auto simp: get_node_def runs_on_def)
    have nx: "tail_fits S prog w nx" using c(3,4) b(3) by (auto simp: after_def tail_fits_def split: if_splits)
    show ?thesis
    proof (cases "n_type ?n \<in> {OP_GREEDY, OP_OR, OP_EXPR, OP_NOCAPEXPR}")
      case False
      then show ?thesis using atom_gives [OF c(1) run start c(2)] g by simp
    next
      case True
      from node show ?thesis
      proof (cases rule: node_at.cases)
        case (group_node es)
        have "gives S (match_expr (trex_matchnode fuel tx) ?n str nx exp) (ends_at S prog tx (means prog tx (R_group es) str) str)"
          by (rule group_gives [OF Suc.IH _ _ _ nx _ run start, of "i + 1" m]) (use group_node c b in \<open>auto simp: allowed_def\<close>)
        then show ?thesis using group_node g by (auto simp: op_codes)
      next
        case (alt_node es fs)
        have "gives S (match_or (trex_matchnode fuel tx) ?n str exp) (ends_at S prog tx (means prog tx (R_alt es fs) str) str)"
          by (rule alt_gives [OF Suc.IH _ _ _ _ _ run start, of lo i _ es m]) (use alt_node c b in auto)
        then show ?thesis using alt_node g by (auto simp: op_codes)
      next
        case (repeat_node x)
        have "gives S (match_greedy (trex_matchnode fuel tx) ?n str nx exp) (ends_at S prog tx (means prog tx e str) str)"
          unfolding repeat_node(1)
          by (rule repeat_gives [OF Suc.IH _ _ _ refl _ c(4) _ run start, of lo i _ w]) (use repeat_node c b in \<open>auto simp: allowed_def after_def\<close>)
        then show ?thesis using repeat_node g by (auto simp: op_codes)
      qed (use True in \<open>auto simp: op_codes\<close>)
    qed
  qed
  then show ?case by (simp add: calls_well_def)
qed

section \<open>Compiled patterns\<close>

lemma program_calls:
  assumes "program exp es" "\<forall>e \<in> set es. allowed S (tx_flags exp) e"
  shows "gives S (trex_match (Some exp) tx) (\<lambda>b _. b \<longrightarrow> matches_seq (tx_flags exp) tx 0 (length tx) es 0 (length tx))"
proof -
  let ?prog = "exp\<lparr>tx_bol := 0, tx_eol := length tx, tx_currsubexp := 0\<rparr>"
  have fits: "call_fits S ?prog (match_bound exp) 0 (-1) (R_group es)"
    unfolding call_fits_def
    by (intro exI [of _ 0] exI [of _ "size_of exp"])
      (use assms in \<open>auto simp: program_def after_def tail_fits_def allowed_def match_bound_def\<close>)
  have "gives S (trex_matchnode (match_bound exp) tx 0 0 (-1) ?prog) (ends_at S ?prog tx (means ?prog tx (R_group es) 0) 0)"
    using matchnode_gives [of S ?prog tx "match_bound exp"] fits by (simp add: calls_well_def runs_on_def starts_def)
  then have "gives S (followed (trex_matchnode (match_bound exp) tx 0 0 (-1) ?prog) (\<lambda>res exp. Inr (res = Some (tx_eol exp), exp)))
      (\<lambda>b _. b \<longrightarrow> matches_seq (tx_flags exp) tx 0 (length tx) es 0 (length tx))"
    by (rule gives_followed) (auto simp: ends_at_def runs_on_def elim: matches.cases)
  then show ?thesis by (simp add: trex_match_def)
qed

lemma compiled_program:
  assumes "good_pattern p" "trex_compile p flags = Inr (Some exp, error)"
  shows "tx_flags exp = flags \<and> (\<exists>es. program exp es)"
  using compile_returns [OF assms(1), of flags] assms(2) by auto

text \<open>C21: Matching a compiled pattern ends for every text, within the bound of the recursion and of every loop; it stops at an
access outside the text at most when the pattern has a dot, a word boundary or a class to which the terminator belongs,
such as the negated class of other characters.\<close>

theorem matching_ends:
  assumes "good_pattern p" "trex_compile p flags = Inr (Some exp, error)"
  shows "\<exists>es. program exp es \<and> (case trex_match (Some exp) tx of
      Inr (accepted, exp') \<Rightarrow> True
    | Inl s \<Rightarrow> s = Bad_access \<and> (\<exists>e \<in> set es. \<not> plain flags e))"
proof -
  obtain es where es: "program exp es" "tx_flags exp = flags" using compiled_program [OF assms] by blast
  have "gives {Bad_access} (trex_match (Some exp) tx) (\<lambda>_ _. True)"
    by (rule gives_mono [OF program_calls [OF es(1)]]) (auto simp: allowed_def)
  moreover have "gives {} (trex_match (Some exp) tx) (\<lambda>_ _. True)" if "\<forall>e \<in> set es. plain flags e"
    by (rule gives_mono [OF program_calls [OF es(1)]]) (use that es(2) in \<open>auto simp: allowed_def\<close>)
  ultimately show ?thesis using es(1) by (auto simp: gives_def split: sum.splits)
qed

theorem matching_ends_witness:
  "(\<exists>exp es. trex_compile ''(a|b)*c'' 0 = Inr (Some exp, None) \<and> program exp es \<and>
     (case trex_match (Some exp) ''abac'' of Inr (accepted, exp') \<Rightarrow> True | Inl s \<Rightarrow> s = Bad_access \<and> (\<exists>e \<in> set es. \<not> plain 0 e)))"
proof -
  have "case trex_compile ''(a|b)*c'' 0 of Inr (Some exp, None) \<Rightarrow> True | _ \<Rightarrow> False" by code_simp
  then obtain exp where "trex_compile ''(a|b)*c'' 0 = Inr (Some exp, None)" by (auto split: sum.splits option.splits)
  moreover have "good_pattern ''(a|b)*c''" by code_simp
  ultimately show ?thesis using matching_ends [of "''(a|b)*c''" 0 exp None "''abac''"] by blast
qed

text \<open>C22: A text that the matcher accepts for a compiled pattern is matched by the expression that the nodes of the program hold,
from its start to its end.\<close>

theorem accepted_texts_match:
  assumes "good_pattern p" "trex_compile p flags = Inr (Some exp, error)" "trex_match (Some exp) tx = Inr (True, exp')"
  shows "\<exists>es. program exp es \<and> matches_seq flags tx 0 (length tx) es 0 (length tx)"
proof -
  obtain es where es: "program exp es" "tx_flags exp = flags" using compiled_program [OF assms(1,2)] by blast
  have "gives {Bad_access} (trex_match (Some exp) tx) (\<lambda>b _. b \<longrightarrow> matches_seq flags tx 0 (length tx) es 0 (length tx))"
    using program_calls [OF es(1), of "{Bad_access}" tx] es(2) by (simp add: allowed_def)
  then show ?thesis using es(1) assms(3) by auto
qed

theorem accepted_texts_match_witness:
  "\<exists>exp es. trex_compile ''(a|b)*c'' 0 = Inr (Some exp, None) \<and> program exp es \<and> matches_seq 0 ''abac'' 0 4 es 0 4"
proof -
  have "compile_and_match ''(a|b)*c'' 0 ''abac'' = Inr True" by code_simp
  then obtain exp exp' where "trex_compile ''(a|b)*c'' 0 = Inr (Some exp, None)" "trex_match (Some exp) ''abac'' = Inr (True, exp')"
    unfolding compile_and_match_Inr by blast
  moreover have "good_pattern ''(a|b)*c''" by code_simp
  moreover have "length ''abac'' = 4" by simp
  ultimately show ?thesis using accepted_texts_match [of "''(a|b)*c''" 0 exp None "''abac''" exp'] by metis
qed

end
