(* ===== verification/Arg_Grammar.thy ===== *)
theory Arg_Grammar
  imports Arg_Compile
begin

text \<open>
  A grammar of the patterns of T-Rex, which gives each of its texts an expression, and the proof that the compiler
  builds that expression.  The grammar leaves out what the code accepts by accident, such as a bar at the start of a
  list, and ranges, whose check compares an index with a character.
\<close>

section \<open>Characters\<close>

datatype symbol = Sym_char int | Sym_class int | Sym_boundary bool

definition control_letters :: string where "control_letters = ''ntrfv''"
definition class_letters :: string where "class_letters = ''aAwWsSdDxXcCpPlu''"

inductive symbol_text :: "bool \<Rightarrow> string \<Rightarrow> symbol \<Rightarrow> bool" for isclass where
  plain_symbol: "isprint (signed_char c) \<Longrightarrow> c \<noteq> CHR 0x5C \<Longrightarrow> symbol_text isclass [c] (Sym_char (signed_char c))"
| control_symbol: "c \<in> set control_letters \<Longrightarrow> symbol_text isclass [CHR 0x5C, c] (Sym_char (signed_char (escape c)))"
| class_symbol: "c \<in> set class_letters \<Longrightarrow> symbol_text isclass [CHR 0x5C, c] (Sym_class (signed_char c))"
| boundary_symbol: "\<not> isclass \<Longrightarrow> c = CHR ''b'' \<or> c = CHR ''B'' \<Longrightarrow> symbol_text isclass [CHR 0x5C, c] (Sym_boundary (c = CHR ''b''))"
| other_symbol: "c \<notin> set control_letters \<Longrightarrow> c \<notin> set class_letters \<Longrightarrow> isclass \<or> c \<noteq> CHR ''b'' \<and> c \<noteq> CHR ''B'' \<Longrightarrow>
    symbol_text isclass [CHR 0x5C, c] (Sym_char (signed_char c))"

fun symbol_node :: "symbol \<Rightarrow> trex_node" where
  "symbol_node (Sym_char k) = \<lparr>n_type = k, n_left = -1, n_right = -1, n_next = -1\<rparr>"
| "symbol_node (Sym_class k) = \<lparr>n_type = OP_CCLASS, n_left = k, n_right = -1, n_next = -1\<rparr>"
| "symbol_node (Sym_boundary b) = \<lparr>n_type = OP_WB, n_left = signed_char (if b then CHR ''b'' else CHR ''B''), n_right = -1, n_next = -1\<rparr>"

fun symbol_rx :: "symbol \<Rightarrow> rx" where
  "symbol_rx (Sym_char k) = R_char k"
| "symbol_rx (Sym_class k) = R_class k"
| "symbol_rx (Sym_boundary b) = R_boundary b"

fun symbol_member :: "symbol \<Rightarrow> member" where
  "symbol_member (Sym_class k) = Named k"
| "symbol_member (Sym_char k) = One k"
| "symbol_member (Sym_boundary b) = One 0"

section \<open>The grammar\<close>

inductive set_text :: "string \<Rightarrow> member list \<Rightarrow> bool" where
  no_members: "set_text [] []"
| one_member: "symbol_text True s y \<Longrightarrow> hd s \<notin> set '']-^'' \<Longrightarrow> set_text t ms \<Longrightarrow> set_text (s @ t) (symbol_member y # ms)"

definition decimal :: "string \<Rightarrow> int" where
  "decimal ds = foldl (\<lambda>n c. n * 10 + (signed_char c - 48)) 0 ds"

definition numeral_text :: "string \<Rightarrow> bool" where
  "numeral_text ds \<longleftrightarrow> ds \<noteq> [] \<and> (\<forall>c \<in> set ds. digit_of c)"

inductive counts_text :: "string \<Rightarrow> int \<Rightarrow> int \<Rightarrow> bool" where
  star_counts: "counts_text ''*'' 0 0xFFFF"
| plus_counts: "counts_text ''+'' 1 0xFFFF"
| query_counts: "counts_text ''?'' 0 1"
| exact_counts: "numeral_text ds \<Longrightarrow> n = decimal ds mod 65536 \<Longrightarrow> counts_text (''{'' @ ds @ ''}'') n n"
| least_counts: "numeral_text ds \<Longrightarrow> counts_text (''{'' @ ds @ '',}'') (decimal ds mod 65536) 0xFFFF"
| both_counts: "numeral_text ds \<Longrightarrow> numeral_text es \<Longrightarrow> counts_text (''{'' @ ds @ '','' @ es @ ''}'') (decimal ds mod 65536) (decimal es mod 65536)"

inductive atom_text :: "string \<Rightarrow> rx \<Rightarrow> bool" and item_text :: "string \<Rightarrow> rx \<Rightarrow> bool" and seq_text :: "string \<Rightarrow> rx list \<Rightarrow> bool"
  and branch_text :: "string \<Rightarrow> rx list \<Rightarrow> bool" and list_text :: "string \<Rightarrow> rx list \<Rightarrow> bool" where
  symbol_atom: "symbol_text False s y \<Longrightarrow> hd s \<notin> set ''([$.*+?{|)^'' \<Longrightarrow> atom_text s (symbol_rx y)"
| dot_atom: "atom_text ''.'' R_dot"
| eol_atom: "atom_text ''$'' R_eol"
| set_atom: "set_text s ms \<Longrightarrow> ms \<noteq> [] \<Longrightarrow> atom_text (''['' @ s @ '']'') (R_set False ms)"
| negated_atom: "set_text s ms \<Longrightarrow> ms \<noteq> [] \<Longrightarrow> atom_text (''[^'' @ s @ '']'') (R_set True ms)"
| group_atom: "list_text s es \<Longrightarrow> atom_text (''('' @ s @ '')'') (R_group es)"
| nocapture_atom: "list_text s es \<Longrightarrow> atom_text (''(?:'' @ s @ '')'') (R_group es)"
| one_item: "atom_text s e \<Longrightarrow> item_text s e"
| repeat_item: "atom_text s e \<Longrightarrow> counts_text c p0 p1 \<Longrightarrow> item_text (s @ c) (R_repeat e p0 p1)"
| one_seq: "item_text s e \<Longrightarrow> seq_text s [e]"
| more_seq: "item_text s e \<Longrightarrow> seq_text t es \<Longrightarrow> seq_text (s @ t) (e # es)"
| plain_branch: "seq_text s es \<Longrightarrow> branch_text s es"
| bol_branch: "seq_text s es \<Longrightarrow> branch_text (''^'' @ s) (R_bol # es)"
| one_list: "branch_text s es \<Longrightarrow> list_text s es"
| more_list: "branch_text s es \<Longrightarrow> list_text t fs \<Longrightarrow> list_text (s @ ''|'' @ t) [R_alt es fs]"

text \<open>No text of the grammar starts with a character that ends or repeats an element.\<close>

lemma symbol_start: "symbol_text isclass s y \<Longrightarrow> s \<noteq> [] \<and> hd s \<noteq> NUL"
  by (auto elim!: symbol_text.cases dest: not_print_NUL)

lemma item_start: "atom_text s e \<Longrightarrow> s \<noteq> [] \<and> hd s \<noteq> NUL \<and> hd s \<notin> set ''*+?{|)^''"
  "item_text s e \<Longrightarrow> s \<noteq> [] \<and> hd s \<noteq> NUL \<and> hd s \<notin> set ''*+?{|)^''"
  "seq_text s es \<Longrightarrow> s \<noteq> [] \<and> hd s \<noteq> NUL \<and> hd s \<notin> set ''*+?{|)^''"
  "branch_text s es \<Longrightarrow> s \<noteq> [] \<and> hd s \<noteq> NUL \<and> hd s \<notin> set ''*+?{|)''"
  "list_text s es \<Longrightarrow> s \<noteq> [] \<and> hd s \<noteq> NUL \<and> hd s \<notin> set ''*+?{|)''"
proof (induction rule: atom_text_item_text_seq_text_branch_text_list_text.inducts)
  case (symbol_atom s y)
  then show ?case using symbol_start by auto
qed auto

section \<open>Reading characters and classes\<close>

text \<open>The result of a step is an expression that was added, and what is left of the pattern.\<close>

definition reads_as :: "trex \<Rightarrow> int step \<Rightarrow> rx \<Rightarrow> string \<Rightarrow> bool" where
  "reads_as exp r e q \<longleftrightarrow> (\<exists>i a. r = Inr (i, a) \<and> tx_p a = q \<and> adds_node exp e i a)"

definition reads_seq_as :: "trex \<Rightarrow> int step \<Rightarrow> rx list \<Rightarrow> string \<Rightarrow> bool" where
  "reads_seq_as exp r es q \<longleftrightarrow> (\<exists>i a. r = Inr (i, a) \<and> tx_p a = q \<and> adds_seq exp es i a)"

lemma advance_exact:
  assumes "ready exp" "tx_p exp = c # q" "c \<noteq> CHR 0x5C" "c \<noteq> NUL"
  shows "\<exists>a. advance exp = Inr ((), a) \<and> tx_p a = q \<and> moves exp a"
  using advance_ready [OF assms(1)] assms(2-4) by (auto simp: peek_def moves_def)

lemma expect_exact:
  assumes "ready exp" "tx_p exp = c # q" "c \<noteq> CHR 0x5C" "c \<noteq> NUL"
  shows "\<exists>a. trex_expect exp c = Inr ((), a) \<and> tx_p a = q \<and> moves exp a"
  using advance_exact [OF assms] assms(2) by (simp add: trex_expect_def peek_def)

text \<open>The node of a symbol is the one that the compiler adds.\<close>

lemma fresh_symbol: "fresh exp (signed_char c) = symbol_node (Sym_char (signed_char c))"
  "(fresh exp OP_CCLASS)\<lparr>n_left := k\<rparr> = symbol_node (Sym_class k)"
proof -
  have "signed_char c \<noteq> OP_EXPR" using signed_char_small [of c] unfolding op_codes by linarith
  then show "fresh exp (signed_char c) = symbol_node (Sym_char (signed_char c))" by (simp add: fresh_def)
qed (simp add: fresh_def op_codes)

lemma roomy_pattern: "ready exp \<Longrightarrow> roomy (exp\<lparr>tx_p := q\<rparr>)"
  by (simp add: ready_def roomy_def)

lemma symbol_exact:
  assumes "ready exp" "symbol_text isclass s y" "tx_p exp = s @ q"
  shows "\<exists>a. trex_charnode exp isclass = Inr (size_of exp, a) \<and> tx_p a = q \<and> adds_atom isclass exp (size_of exp) a \<and>
    tx_nodes a = tx_nodes exp @ [symbol_node y]"
proof -
  have "\<exists>a. trex_charnode exp isclass = Inr (size_of exp, a) \<and> tx_p a = q \<and> tx_nodes a = tx_nodes exp @ [symbol_node y]"
    using assms(2)
  proof cases
    case (plain_symbol c)
    then have "peek exp = c" "advance exp = Inr ((), exp\<lparr>tx_p := q\<rparr>)" using assms(3) by (simp_all add: peek_def advance_def)
    then show ?thesis using plain_symbol
      by (simp add: trex_charnode_def newnode_roomy [OF roomy_pattern [OF assms(1)]] fresh_symbol)
  next
    case (control_symbol c)
    then have p: "peek exp = CHR 0x5C" "advance exp = Inr ((), exp\<lparr>tx_p := c # q\<rparr>)"
      "peek (exp\<lparr>tx_p := c # q\<rparr>) = c" "advance (exp\<lparr>tx_p := c # q\<rparr>) = Inr ((), exp\<lparr>tx_p := q\<rparr>)" using assms(3) by (simp_all add: peek_def advance_def)
    then show ?thesis using control_symbol
      by (simp add: trex_charnode_def newnode_roomy [OF roomy_pattern [OF assms(1)]] fresh_symbol control_letters_def)
  next
    case (class_symbol c)
    then have p: "peek exp = CHR 0x5C" "advance exp = Inr ((), exp\<lparr>tx_p := c # q\<rparr>)"
      "peek (exp\<lparr>tx_p := c # q\<rparr>) = c" "advance (exp\<lparr>tx_p := c # q\<rparr>) = Inr ((), exp\<lparr>tx_p := q\<rparr>)" using assms(3) by (simp_all add: peek_def advance_def)
    have "c \<notin> set ''ntrfv''" using class_symbol by (auto simp: class_letters_def)
    then show ?thesis using class_symbol p
      by (simp add: trex_charnode_def trex_charclass_def newnode_roomy [OF roomy_pattern [OF assms(1)]] fresh_symbol class_letters_def set_node_eq)
  next
    case (boundary_symbol c)
    then have p: "peek exp = CHR 0x5C" "advance exp = Inr ((), exp\<lparr>tx_p := c # q\<rparr>)"
      "peek (exp\<lparr>tx_p := c # q\<rparr>) = c" using assms(3) by (simp_all add: peek_def advance_def)
    have y: "symbol_node y = (fresh exp OP_WB)\<lparr>n_left := signed_char c\<rparr>" using boundary_symbol by (auto simp: fresh_def op_codes)
    have c: "c \<notin> set ''ntrfv''" "c \<notin> set ''aAwWsSdDxXcCpPlu''" "(c = CHR ''b'' \<or> c = CHR ''B'') \<and> \<not> isclass" using boundary_symbol by auto
    have "trex_charnode exp isclass = followed (trex_newnode (exp\<lparr>tx_p := c # q\<rparr>) OP_WB) (\<lambda>n exp.
          followed (set_node n (\<lambda>m. m\<lparr>n_left := signed_char c\<rparr>) exp) (\<lambda>_ exp. followed (advance exp) (\<lambda>_ exp. Inr (n, exp))))"
      unfolding trex_charnode_def using p c by (simp only: followed_simps if_True if_False Let_def simp_thms)
    then show ?thesis unfolding y by (simp add: newnode_roomy [OF roomy_pattern [OF assms(1)]] set_node_eq nth_append advance_def)
  next
    case (other_symbol c)
    then have p: "peek exp = CHR 0x5C" "advance exp = Inr ((), exp\<lparr>tx_p := c # q\<rparr>)"
      "peek (exp\<lparr>tx_p := c # q\<rparr>) = c" "advance (exp\<lparr>tx_p := c # q\<rparr>) = Inr ((), exp\<lparr>tx_p := q\<rparr>)" using assms(3) by (simp_all add: peek_def advance_def)
    then show ?thesis using other_symbol
      by (auto simp: trex_charnode_def newnode_roomy [OF roomy_pattern [OF assms(1)]] fresh_symbol control_letters_def class_letters_def)
  qed
  then show ?thesis using charnode_yields [OF assms(1), of isclass] by (auto simp: adds_atom_def)
qed

lemma symbol_small: "symbol_text isclass s y \<Longrightarrow> (case y of Sym_char k \<Rightarrow> k < 256 | _ \<Rightarrow> True)"
  by (erule symbol_text.cases) auto

lemma symbol_member_of: "symbol_text True s y \<Longrightarrow> member_of (symbol_node y) = symbol_member y"
  using symbol_small [of True s y] by (cases y) (auto simp: member_of_def op_codes elim: symbol_text.cases)

lemma symbol_atom_of: "symbol_text False s y \<Longrightarrow> atom_of (symbol_node y) = symbol_rx y"
  using symbol_small [of False s y] by (cases y) (auto simp: atom_of_def op_codes signed_char_def elim: symbol_text.cases)

lemma class_members_exact:
  assumes "set_text s ms" "class_state first chain exp" "tx_p exp = s @ CHR '']'' # q"
  shows "\<exists>b. class_members first chain exp = Inr ((), b) \<and> tx_p b = CHR '']'' # q \<and> relinked {chain, first} exp b \<and>
    links chain (pending first exp @ ms) b"
  using assms
proof (induction arbitrary: first chain exp rule: set_text.induct)
  case no_members
  then have "peek exp = CHR '']''" by (simp add: peek_def)
  then show ?case using class_close [OF no_members(1)] linked_props [OF no_members(1)] no_members(2) by auto
next
  case (one_member s y t ms)
  let ?e = "linked first chain exp"
  note e = linked_props [OF one_member.prems(1)]
  have "peek exp = hd s" using symbol_start [OF one_member.hyps(1)] one_member.prems(2) by (cases s) (auto simp: peek_def)
  then have peek: "peek exp \<noteq> CHR '']''" "\<not> (peek exp = CHR ''-'' \<and> first \<noteq> -1)" using one_member.hyps(2) by auto
  obtain a where a: "trex_charnode ?e True = Inr (size_of ?e, a)" "tx_p a = t @ CHR '']'' # q" "adds_atom True ?e (size_of ?e) a"
    "tx_nodes a = tx_nodes ?e @ [symbol_node y]"
    using symbol_exact [OF e(4) one_member.hyps(1), of "t @ CHR '']'' # q"] e(3) one_member.prems(2) by auto
  note m = class_member [OF one_member.prems(1) a(3)]
  obtain b where b: "class_members (size_of ?e) (last_linked first chain) a = Inr ((), b)" "tx_p b = CHR '']'' # q"
    "relinked {last_linked first chain, size_of ?e} a b" "links (last_linked first chain) (pending (size_of ?e) a @ ms) b"
    using one_member.IH [OF m(1) a(2)] by blast
  have "pending (size_of ?e) a = [symbol_member y]" using a(4) symbol_member_of [OF one_member.hyps(1)] by (simp add: pending_def)
  then show ?case using class_more [OF one_member.prems(1) peek] a(1) b m(2,3) [OF b(3)] by auto
qed

lemma set_start: "set_text s ms \<Longrightarrow> ms \<noteq> [] \<Longrightarrow> s \<noteq> [] \<and> hd s \<notin> set '']-^''"
  by (erule set_text.cases) (use symbol_start in auto)

lemma class_exact:
  assumes "ready exp" "set_text s ms" "ms \<noteq> []" "tx_p exp = (if negated then ''^'' else []) @ s @ CHR '']'' # q"
  shows "\<exists>b. trex_class exp = Inr (size_of exp, b) \<and> tx_p b = CHR '']'' # q \<and> adds_node exp (R_set negated ms) (size_of exp) b"
proof -
  have s: "s \<noteq> []" "hd s \<notin> set '']-^''" using set_start [OF assms(2,3)] by auto
  then have neg: "(peek exp = CHR ''^'') = negated" using assms(4) by (cases s) (auto simp: peek_def)
  obtain a where a: "(if peek exp = CHR ''^'' then
         followed (trex_newnode exp OP_NCLASS) (\<lambda>ret exp. followed (advance exp) (\<lambda>_ exp. Inr (ret, exp)))
       else trex_newnode exp OP_CLASS) = Inr (size_of exp, a)" "opens_class exp negated (size_of exp) a" "tx_p a = s @ CHR '']'' # q"
    using class_start [OF assms(1)] neg assms(4) by (auto split: if_splits)
  have p: "peek a \<noteq> CHR '']''" using a(3) s by (cases s) (auto simp: peek_def)
  obtain b where b: "class_members (-1) (size_of exp) a = Inr ((), b)" "tx_p b = CHR '']'' # q" "relinked {size_of exp, -1} a b"
    "links (size_of exp) (pending (-1) a @ ms) b"
    using class_members_exact [OF assms(2) opened_state [OF a(2)] a(3)] by blast
  have "links (size_of exp) ms b" using b(4) by (simp add: pending_def)
  then show ?thesis using class_adds [OF assms(1) a(2) b(3) _ assms(3)] b(1,2) p unfolding trex_class_eq a(1) by auto
qed

section \<open>Reading repetitions\<close>

lemma number_loop_value: "number_loop num positions p = Inr (n, r) \<Longrightarrow>
   n = foldl (\<lambda>n c. n * 10 + (signed_char c - 48)) num (takeWhile digit_of p) \<and> r = dropWhile digit_of p"
  by (induction num positions p rule: number_loop.induct) (auto simp: Let_def digit_of_def split: if_splits)

lemma parsenumber_exact:
  assumes "ready exp" "numeral_text ds" "tx_p exp = ds @ c # q" "\<not> digit_of c"
  shows "\<exists>a. trex_parsenumber exp = Inr (decimal ds, a) \<and> tx_p a = c # q \<and> moves exp a"
proof -
  obtain d es where ds: "ds = d # es" "digit_of d" "\<forall>c \<in> set es. digit_of c" using assms(2) by (cases ds) (auto simp: numeral_text_def)
  obtain e where e: "advance exp = Inr ((), e)" "tx_p e = es @ c # q"
    using advance_exact [OF assms(1), of d "es @ c # q"] assms(3) ds digit_char [of d] by (auto simp: digit_of_def)
  have w: "takeWhile digit_of (es @ c # q) = es" "dropWhile digit_of (es @ c # q) = c # q" using ds(3) assms(4) by (simp_all add: takeWhile_append2)
  have p: "peek exp = d" using assms(3) ds by (simp add: peek_def)
  obtain n a where a: "trex_parsenumber exp = Inr (n, a)" "moves exp a"
    using parsenumber_moves [OF assms(1)] p ds by (auto simp: digit_of_def)
  then obtain r where r: "number_loop (signed_char d - 48) 10 (es @ c # q) = Inr (n, r)" "a = e\<lparr>tx_p := r\<rparr>"
    using e p by (auto simp: trex_parsenumber_def Let_def split: sum.splits)
  then show ?thesis using number_loop_value [OF r(1)] a w ds by (simp add: decimal_def)
qed

text \<open>A node holds its two counts in 16 bits each.\<close>

lemma small_bits: "0 \<le> p \<Longrightarrow> p < 65536 \<Longrightarrow> bit (p :: int) n \<Longrightarrow> n < 16"
  using bit_take_bit_iff [of 16 p n] take_bit_int_eq_self [of p 16] by simp

lemma bit_pack_counts: "n < 32 \<Longrightarrow> 0 \<le> p1 \<Longrightarrow> p1 < 65536 \<Longrightarrow> bit (pack_counts p0 p1) n = (if n < 16 then bit p1 n else bit p0 (n - 16))"
  by (auto simp: pack_counts_def bit_sint_iff bit_or_iff bit_push_bit_iff bit_word_of_int_iff dest: small_bits)

lemma counts_packed:
  assumes "0 \<le> p0" "p0 < 65536" "0 \<le> p1" "p1 < 65536"
  shows "count_from (pack_counts p0 p1) = p0" "count_to (pack_counts p0 p1) = p1"
proof -
  have m: "x AND 65535 = take_bit 16 x" for x :: int by (simp add: take_bit_eq_mask mask_eq_exp_minus_1)
  note small = small_bits [OF assms(1,2)] small_bits [OF assms(3,4)]
  have "bit p1 n \<Longrightarrow> n < 32" for n using small(2) [of n] by simp
  note small = small this
  show "count_to (pack_counts p0 p1) = p1"
    unfolding count_to_def by (rule bit_eqI) (use assms small in \<open>auto simp: m bit_take_bit_iff bit_pack_counts\<close>)
  show "count_from (pack_counts p0 p1) = p0"
    unfolding count_from_def by (rule bit_eqI) (use assms small in \<open>auto simp: m bit_take_bit_iff bit_drop_bit_eq bit_pack_counts\<close>)
qed

lemma counts_range: "counts_text c p0 p1 \<Longrightarrow> 0 \<le> p0 \<and> p0 < 65536 \<and> 0 \<le> p1 \<and> p1 < 65536"
  by (erule counts_text.cases) auto

lemma counts_start: "counts_text c p0 p1 \<Longrightarrow> c \<noteq> []"
  by (erule counts_text.cases) auto

lemma numeral_start: "numeral_text ds \<Longrightarrow> tx_p exp = ds @ q \<Longrightarrow> isdigit (signed_char (peek exp))"
  by (cases ds) (auto simp: numeral_text_def digit_of_def peek_def)

lemma not_digits: "\<not> digit_of (CHR ''}'')" "\<not> digit_of (CHR '','')"
  by (simp_all add: digit_of_def isdigit_def signed_char_def)

text \<open>The opening brace and the first number.\<close>

lemma first_count:
  assumes "ready exp" "numeral_text ds" "tx_p exp = CHR ''{'' # ds @ c # q" "\<not> digit_of c"
  shows "\<exists>b. tx_p b = c # q \<and> moves exp b \<and> trex_counts exp =
     (if c = CHR ''}'' then followed (advance b) (\<lambda>_ exp. Inr (Some (decimal ds mod 65536, decimal ds mod 65536), exp))
        else if c = CHR '','' then
          followed (advance b) (\<lambda>_ exp.
          followed (if isdigit (signed_char (peek exp)) then followed (trex_parsenumber exp) (\<lambda>n exp. Inr (n mod 65536, exp))
            else Inr (0xFFFF, exp)) (\<lambda>p1 exp.
          followed (trex_expect exp (CHR ''}'')) (\<lambda>_ exp. Inr (Some (decimal ds mod 65536, p1), exp))))
        else trex_error '', or } expected'')"
proof -
  obtain a where a: "advance exp = Inr ((), a)" "tx_p a = ds @ c # q" "moves exp a"
    using advance_exact [OF assms(1,3)] by auto
  obtain b where b: "trex_parsenumber a = Inr (decimal ds, b)" "tx_p b = c # q" "moves a b"
    using parsenumber_exact [OF moves_ready [OF a(3)] assms(2) a(2) assms(4)] by blast
  have p: "peek exp = CHR ''{''" "peek b = c" using assms(3) b(2) by (simp_all add: peek_def)
  show ?thesis
    by (rule exI [of _ b]) (use a b p numeral_start [OF assms(2) a(2)] moves_trans in \<open>auto simp: trex_counts_def Let_def\<close>)
qed

lemma counts_exact:
  assumes "ready exp" "counts_text c p0 p1" "tx_p exp = c @ q"
  shows "\<exists>a. trex_counts exp = Inr (Some (p0, p1), a) \<and> tx_p a = q \<and> moves exp a"
  using assms(2)
proof cases
  case star_counts
  then show ?thesis using advance_exact [OF assms(1), of "CHR ''*''" q] assms(3) by (auto simp: trex_counts_def peek_def)
next
  case plus_counts
  then show ?thesis using advance_exact [OF assms(1), of "CHR ''+''" q] assms(3) by (auto simp: trex_counts_def peek_def)
next
  case query_counts
  then show ?thesis using advance_exact [OF assms(1), of "CHR ''?''" q] assms(3) by (auto simp: trex_counts_def peek_def)
next
  case (exact_counts ds)
  then obtain b where b: "tx_p b = CHR ''}'' # q" "moves exp b"
    "trex_counts exp = followed (advance b) (\<lambda>_ exp. Inr (Some (p0, p1), exp))"
    using first_count [OF assms(1), of ds "CHR ''}''" q] not_digits assms(3) by auto
  then show ?thesis using advance_exact [OF moves_ready [OF b(2)] b(1)] moves_trans [OF b(2)] by auto
next
  case (least_counts ds)
  then obtain b where b: "tx_p b = CHR '','' # CHR ''}'' # q" "moves exp b"
    "trex_counts exp = followed (advance b) (\<lambda>_ exp.
          followed (if isdigit (signed_char (peek exp)) then followed (trex_parsenumber exp) (\<lambda>n exp. Inr (n mod 65536, exp))
            else Inr (0xFFFF, exp)) (\<lambda>p1 exp.
          followed (trex_expect exp (CHR ''}'')) (\<lambda>_ exp. Inr (Some (p0, p1), exp))))"
    using first_count [OF assms(1), of ds "CHR '',''" "CHR ''}'' # q"] not_digits assms(3) by auto
  obtain d where d: "advance b = Inr ((), d)" "tx_p d = CHR ''}'' # q" "moves exp d"
    using advance_exact [OF moves_ready [OF b(2)] b(1)] moves_trans [OF b(2)] by auto
  then have "\<not> isdigit (signed_char (peek d))" using not_digits by (simp add: peek_def digit_of_def)
  then show ?thesis using expect_exact [OF moves_ready [OF d(3)] d(2)] moves_trans [OF d(3)] b(3) d(1) least_counts by auto
next
  case (both_counts ds es)
  then obtain b where b: "tx_p b = CHR '','' # es @ CHR ''}'' # q" "moves exp b"
    "trex_counts exp = followed (advance b) (\<lambda>_ exp.
          followed (if isdigit (signed_char (peek exp)) then followed (trex_parsenumber exp) (\<lambda>n exp. Inr (n mod 65536, exp))
            else Inr (0xFFFF, exp)) (\<lambda>p1 exp.
          followed (trex_expect exp (CHR ''}'')) (\<lambda>_ exp. Inr (Some (p0, p1), exp))))"
    using first_count [OF assms(1), of ds "CHR '',''" "es @ CHR ''}'' # q"] not_digits assms(3) by auto
  obtain d where d: "advance b = Inr ((), d)" "tx_p d = es @ CHR ''}'' # q" "moves exp d"
    using advance_exact [OF moves_ready [OF b(2)] b(1)] moves_trans [OF b(2)] by auto
  obtain f where f: "trex_parsenumber d = Inr (decimal es, f)" "tx_p f = CHR ''}'' # q" "moves exp f"
    using parsenumber_exact [OF moves_ready [OF d(3)] both_counts(5) d(2)] not_digits moves_trans [OF d(3)] by auto
  show ?thesis using expect_exact [OF moves_ready [OF f(3)] f(2)] moves_trans [OF f(3)] b(3) d(1) f(1) both_counts
    numeral_start [OF both_counts(5) d(2)] by auto
qed

lemma no_counts: "ready exp \<Longrightarrow> tx_p exp = q \<Longrightarrow> q = [] \<or> hd q \<notin> set ''*+?{'' \<Longrightarrow> trex_counts exp = Inr (None, exp)"
  by (cases q) (auto simp: trex_counts_def peek_def)

section \<open>Reading elements and lists\<close>

lemma atom_exact:
  assumes "ready exp" "tx_p exp = s @ q"
  shows "symbol_text False s y \<Longrightarrow> hd s \<notin> set ''([$.*+?{|)^'' \<Longrightarrow> reads_as exp (trex_atom f exp) (symbol_rx y) q"
    and "s = ''.'' \<Longrightarrow> reads_as exp (trex_atom f exp) R_dot q"
    and "s = ''$'' \<Longrightarrow> reads_as exp (trex_atom f exp) R_eol q"
    and "set_text t ms \<Longrightarrow> ms \<noteq> [] \<Longrightarrow> s = ''['' @ (if negated then ''^'' else []) @ t @ '']'' \<Longrightarrow> reads_as exp (trex_atom f exp) (R_set negated ms) q"
proof -
  assume y: "symbol_text False s y" and h: "hd s \<notin> set ''([$.*+?{|)^''"
  obtain a where a: "trex_charnode exp False = Inr (size_of exp, a)" "tx_p a = q" "adds_atom False exp (size_of exp) a"
    "tx_nodes a = tx_nodes exp @ [symbol_node y]" using symbol_exact [OF assms(1) y assms(2)] by blast
  obtain c s' where s: "s = c # s'" using symbol_start [OF y] by (cases s) auto
  then have "trex_atom f exp = trex_charnode exp False" using h assms(2) by (auto simp: trex_atom_def peek_def)
  moreover have "adds_node exp (atom_of (symbol_node y)) (size_of exp) a"
    by (rule adds_last) (use a in \<open>auto simp: adds_atom_def atom_type_def\<close>)
  ultimately show "reads_as exp (trex_atom f exp) (symbol_rx y) q" using a symbol_atom_of [OF y] by (auto simp: reads_as_def)
next
  assume "s = ''.''"
  then show "reads_as exp (trex_atom f exp) R_dot q"
    using advance_exact [OF assms(1), of "CHR ''.''" q] newnode_adds [of exp _ OP_DOT] assms(2)
    by (fastforce simp: trex_atom_def peek_def reads_as_def)
next
  assume "s = ''$''"
  then show "reads_as exp (trex_atom f exp) R_eol q"
    using advance_exact [OF assms(1), of "CHR ''$''" q] newnode_adds [of exp _ OP_EOL] assms(2)
    by (fastforce simp: trex_atom_def peek_def reads_as_def op_codes)
next
  assume t: "set_text t ms" "ms \<noteq> []" and s: "s = ''['' @ (if negated then ''^'' else []) @ t @ '']''"
  obtain a where a: "advance exp = Inr ((), a)" "tx_p a = (if negated then ''^'' else []) @ t @ CHR '']'' # q" "moves exp a"
    using advance_exact [OF assms(1), of "CHR ''[''"] assms(2) s by auto
  obtain b where b: "trex_class a = Inr (size_of a, b)" "tx_p b = CHR '']'' # q" "adds_node a (R_set negated ms) (size_of a) b"
    using class_exact [OF moves_ready [OF a(3)] t a(2)] by blast
  obtain c where c: "trex_expect b (CHR '']'') = Inr ((), c)" "tx_p c = q" "moves b c"
    using expect_exact [OF adds_node_ready [OF b(3)] b(2)] by auto
  have "adds_node exp (R_set negated ms) (size_of a) c" using adds_node_trans [OF adds_node_moves [OF a(3) b(3)] c(3)] .
  moreover have "peek exp = CHR ''[''" using assms(2) s by (simp add: peek_def)
  ultimately show "reads_as exp (trex_atom f exp) (R_set negated ms) q" using a b c by (auto simp: trex_atom_def reads_as_def)
qed

text \<open>A group: the list between its parentheses.\<close>

lemma group_exact:
  assumes "ready exp" "tx_p exp = CHR ''('' # (if captures then [] else ''?:'') @ s @ CHR '')'' # q" "list_text s es"
    and list: "\<And>exp. ready exp \<Longrightarrow> tx_p exp = s @ CHR '')'' # q \<Longrightarrow> reads_seq_as exp (f exp) es (CHR '')'' # q)"
  shows "reads_as exp (trex_atom f exp) (R_group es) q"
proof -
  obtain a where a: "advance exp = Inr ((), a)" "tx_p a = (if captures then [] else ''?:'') @ s @ CHR '')'' # q" "moves exp a"
    using advance_exact [OF assms(1,2)] by auto
  define t where "t = (if captures then OP_EXPR else OP_NOCAPEXPR)"
  then have t: "t = OP_EXPR \<or> t = OP_NOCAPEXPR" by simp
  have s: "s \<noteq> []" "hd s \<noteq> CHR ''?''" using item_start(5) [OF assms(3)] by auto
  have "\<exists>e. moves exp e \<and> tx_p e = s @ CHR '')'' # q \<and> (if peek a = CHR ''?'' then
         followed (advance a) (\<lambda>_ exp. followed (trex_expect exp (CHR '':'')) (\<lambda>_ exp. trex_newnode exp OP_NOCAPEXPR))
       else trex_newnode a OP_EXPR) = trex_newnode e t"
  proof (cases captures)
    case True
    then have "peek a \<noteq> CHR ''?''" using a(2) s by (cases s) (auto simp: peek_def)
    then show ?thesis using a True by (auto simp: t_def)
  next
    case False
    then obtain b where b: "advance a = Inr ((), b)" "tx_p b = '':'' @ s @ CHR '')'' # q" "moves exp b"
      using advance_exact [OF moves_ready [OF a(3)], of "CHR ''?''"] a(2) moves_trans [OF a(3)] by auto
    obtain c where c: "trex_expect b (CHR '':'') = Inr ((), c)" "tx_p c = s @ CHR '')'' # q" "moves exp c"
      using expect_exact [OF moves_ready [OF b(3)], of "CHR '':''"] b(2) moves_trans [OF b(3)] by auto
    have "peek a = CHR ''?''" using a(2) False by (simp add: peek_def)
    then show ?thesis using b c False by (auto simp: t_def)
  qed
  then obtain e where e: "moves exp e" "tx_p e = s @ CHR '')'' # q" "(if peek a = CHR ''?'' then
         followed (advance a) (\<lambda>_ exp. followed (trex_expect exp (CHR '':'')) (\<lambda>_ exp. trex_newnode exp OP_NOCAPEXPR))
       else trex_newnode a OP_EXPR) = trex_newnode e t" by blast
  have new: "trex_newnode e t = Inr (size_of exp, grown e t)"
    using newnode_roomy [of e t] moves_ready [OF e(1)] moves_nodes [OF e(1)] by (simp add: ready_def)
  have "ready (grown e t)" using extends_ready [OF extends_grown [OF moves_ready [OF e(1)]]] .
  then obtain j b where b: "f (grown e t) = Inr (j, b)" "tx_p b = CHR '')'' # q" "adds_seq (grown e t) es j b"
    using list [of "grown e t"] e(2) by (auto simp: reads_seq_as_def)
  obtain c where c: "set_node (size_of exp) (\<lambda>m. m\<lparr>n_left := j\<rparr>) b = Inr ((), c)" "tx_p c = tx_p b" "adds_node exp (R_group es) (size_of exp) c"
    using group_adds [OF e(1) t refl refl b(3)] by blast
  obtain d where d: "trex_expect c (CHR '')'') = Inr ((), d)" "tx_p d = q" "moves c d"
    using expect_exact [OF adds_node_ready [OF c(3)], of "CHR '')''" q] b(2) c(2) by auto
  have "peek exp = CHR ''(''" using assms(2) by (simp add: peek_def)
  then have "trex_atom f exp = Inr (size_of exp, d)"
    unfolding trex_atom_def trex_group_def using a(1) e(3) new b(1) c(1) d(1) by simp
  then show ?thesis using d(2) adds_node_trans [OF c(3) d(3)] by (auto simp: reads_as_def)
qed

text \<open>What may follow an element and a list.\<close>

definition closes :: "string \<Rightarrow> bool" where "closes q \<longleftrightarrow> q = [] \<or> hd q = CHR '')''"
definition follows :: "string \<Rightarrow> bool" where "follows q \<longleftrightarrow> closes q \<or> hd q = CHR ''|''"
definition no_repeat :: "string \<Rightarrow> bool" where "no_repeat q \<longleftrightarrow> q = [] \<or> hd q \<notin> set ''*+?{''"

lemma follows_end: "follows q \<Longrightarrow> tx_p exp = q \<Longrightarrow> ends_element exp"
  by (cases q) (auto simp: follows_def closes_def ends_element_def peek_def)

lemma follows_repeat: "follows q \<Longrightarrow> no_repeat q"
  by (cases q) (auto simp: follows_def closes_def no_repeat_def)

lemma item_next: "seq_text t es \<Longrightarrow> no_repeat (t @ q) \<and> (tx_p exp = t @ q \<longrightarrow> \<not> ends_element exp)"
  using item_start(3) [of t es] by (cases t) (auto simp: no_repeat_def ends_element_def peek_def)

definition item_step :: "nat \<Rightarrow> trex \<Rightarrow> int step" where
  "item_step fuel exp = followed (trex_atom (\<lambda>exp. trex_list fuel exp) exp) (\<lambda>ret exp. trex_greedy ret exp)"

definition branch_step :: "nat \<Rightarrow> trex \<Rightarrow> int step" where
  "branch_step fuel exp =
     followed (if peek exp = CHR ''^'' then followed (advance exp) (\<lambda>_ exp. trex_newnode exp OP_BOL) else Inr (-1, exp)) (\<lambda>ret exp.
     followed (trex_element fuel exp) (\<lambda>e exp.
     if ret \<noteq> -1 then followed (set_node ret (\<lambda>m. m\<lparr>n_next := e\<rparr>) exp) (\<lambda>_ exp. Inr (ret, exp)) else Inr (e, exp)))"

lemma element_item: "trex_element (Suc fuel) exp = followed (item_step fuel exp) (\<lambda>ret exp.
     if \<not> ends_element exp then
       followed (trex_element fuel exp) (\<lambda>nnode exp.
       followed (set_node ret (\<lambda>m. m\<lparr>n_next := nnode\<rparr>) exp) (\<lambda>_ exp. Inr (ret, exp)))
     else Inr (ret, exp))"
  by (simp add: trex_element.simps item_step_def followed_assoc)

lemma list_branch: "trex_list (Suc fuel) exp = followed (branch_step fuel exp) (\<lambda>ret exp.
     if peek exp = CHR ''|'' then
       followed (advance exp) (\<lambda>_ exp.
       followed (trex_newnode exp OP_OR) (\<lambda>temp exp.
       followed (set_node temp (\<lambda>m. m\<lparr>n_left := ret\<rparr>) exp) (\<lambda>_ exp.
       followed (trex_list fuel exp) (\<lambda>tright exp.
       followed (set_node temp (\<lambda>m. m\<lparr>n_right := tright\<rparr>) exp) (\<lambda>_ exp. Inr (temp, exp))))))
     else Inr (ret, exp))"
  by (simp add: trex_list.simps branch_step_def followed_assoc)

lemma repeat_exact:
  assumes "adds_node exp e i a" "tx_p a = c @ q" "counts_text c p0 p1"
  shows "reads_as exp (trex_greedy i a) (R_repeat e p0 p1) q"
proof -
  obtain b where b: "trex_counts a = Inr (Some (p0, p1), b)" "tx_p b = q" "moves a b"
    using counts_exact [OF adds_node_ready [OF assms(1)] assms(3,2)] by blast
  show ?thesis using repeat_adds [OF assms(1) b(3), of p0 p1] counts_packed [of p0 p1] counts_range [OF assms(3)] b
    by (auto simp: trex_greedy_def reads_as_def)
qed

lemma alternative_exact:
  assumes "adds_seq exp es i a" "tx_p a = ''|'' @ t @ q" "\<And>exp. ready exp \<Longrightarrow> tx_p exp = t @ q \<Longrightarrow> reads_seq_as exp (trex_list fuel exp) fs q"
  shows "reads_seq_as exp (followed (advance a) (\<lambda>_ exp.
       followed (trex_newnode exp OP_OR) (\<lambda>temp exp.
       followed (set_node temp (\<lambda>m. m\<lparr>n_left := i\<rparr>) exp) (\<lambda>_ exp.
       followed (trex_list fuel exp) (\<lambda>tright exp.
       followed (set_node temp (\<lambda>m. m\<lparr>n_right := tright\<rparr>) exp) (\<lambda>_ exp. Inr (temp, exp))))))) [R_alt es fs] q"
proof -
  obtain b where b: "advance a = Inr ((), b)" "tx_p b = t @ q" "moves a b"
    using advance_exact [OF adds_seq_ready [OF assms(1)], of "CHR ''|''"] assms(2) by auto
  have r: "ready b" "roomy b" using moves_ready [OF b(3)] by (auto simp: ready_def)
  let ?c = "(grown b OP_OR)\<lparr>tx_nodes := tx_nodes b @ [(fresh b OP_OR)\<lparr>n_left := i\<rparr>]\<rparr>"
  have "ready (grown b OP_OR)" using extends_ready [OF extends_grown [OF r(1)]] .
  then have "ready ?c" by simp
  then obtain j d where d: "trex_list fuel ?c = Inr (j, d)" "tx_p d = q" "adds_seq ?c fs j d"
    using assms(3) [of ?c] b(2) by (auto simp: reads_seq_as_def)
  show ?thesis using alt_adds [OF assms(1) b(3) refl refl d(3)] b(1) d(1,2) r(2)
    by (auto simp: reads_seq_as_def newnode_roomy set_node_eq nth_append)
qed

lemma grammar_reads:
  "atom_text s e \<Longrightarrow> ready exp \<Longrightarrow> tx_p exp = s @ q \<Longrightarrow> 2 * length s \<le> fuel \<Longrightarrow> reads_as exp (trex_atom (\<lambda>exp. trex_list fuel exp) exp) e q"
  "item_text s e \<Longrightarrow> ready exp \<Longrightarrow> tx_p exp = s @ q \<Longrightarrow> no_repeat q \<Longrightarrow> 2 * length s \<le> fuel \<Longrightarrow> reads_as exp (item_step fuel exp) e q"
  "seq_text s es \<Longrightarrow> ready exp \<Longrightarrow> tx_p exp = s @ q \<Longrightarrow> follows q \<Longrightarrow> 2 * length s + 1 \<le> fuel \<Longrightarrow> reads_seq_as exp (trex_element fuel exp) es q"
  "branch_text s es \<Longrightarrow> ready exp \<Longrightarrow> tx_p exp = s @ q \<Longrightarrow> follows q \<Longrightarrow> 2 * length s + 1 \<le> fuel \<Longrightarrow> reads_seq_as exp (branch_step fuel exp) es q"
  "list_text s es \<Longrightarrow> ready exp \<Longrightarrow> tx_p exp = s @ q \<Longrightarrow> closes q \<Longrightarrow> 2 * length s + 2 \<le> fuel \<Longrightarrow> reads_seq_as exp (trex_list fuel exp) es q"
proof (induction arbitrary: exp q fuel and exp q fuel and exp q fuel and exp q fuel and exp q fuel
    rule: atom_text_item_text_seq_text_branch_text_list_text.inducts)
  case (symbol_atom s y)
  show ?case by (rule atom_exact(1) [OF symbol_atom.prems(1,2) symbol_atom.hyps])
next
  case dot_atom
  show ?case by (rule atom_exact(2) [OF dot_atom.prems(1,2)]) simp
next
  case eol_atom
  show ?case by (rule atom_exact(3) [OF eol_atom.prems(1,2)]) simp
next
  case (set_atom s ms)
  show ?case by (rule atom_exact(4) [OF set_atom.prems(1,2) set_atom.hyps]) simp
next
  case (negated_atom s ms)
  show ?case by (rule atom_exact(4) [OF negated_atom.prems(1,2) negated_atom.hyps]) simp
next
  case (group_atom s es)
  show ?case
    by (rule group_exact [where captures = True and s = s]) (use group_atom in \<open>auto simp: closes_def\<close>)
next
  case (nocapture_atom s es)
  show ?case
    by (rule group_exact [where captures = False and s = s]) (use nocapture_atom in \<open>auto simp: closes_def\<close>)
next
  case (one_item s e)
  obtain i a where a: "trex_atom (\<lambda>exp. trex_list fuel exp) exp = Inr (i, a)" "tx_p a = q" "adds_node exp e i a"
    using one_item.IH [OF one_item.prems(1,2,4)] by (auto simp: reads_as_def)
  have "trex_counts a = Inr (None, a)" using no_counts [OF adds_node_ready [OF a(3)] a(2)] one_item.prems(3) by (simp add: no_repeat_def)
  then show ?case using a by (simp add: item_step_def trex_greedy_def reads_as_def)
next
  case (repeat_item s e c p0 p1)
  obtain i a where a: "trex_atom (\<lambda>exp. trex_list fuel exp) exp = Inr (i, a)" "tx_p a = c @ q" "adds_node exp e i a"
    using repeat_item.IH [OF repeat_item.prems(1), of "c @ q" fuel] repeat_item.prems by (auto simp: reads_as_def)
  then show ?case using repeat_exact [OF a(3,2) repeat_item.hyps(2)] by (simp add: item_step_def)
next
  case (one_seq s e)
  obtain f where f: "fuel = Suc f" using one_seq.prems(4) by (cases fuel) auto
  obtain i a where a: "item_step f exp = Inr (i, a)" "tx_p a = q" "adds_node exp e i a"
    using one_seq.IH [OF one_seq.prems(1,2) follows_repeat [OF one_seq.prems(3)], of f] one_seq.prems(4) f by (auto simp: reads_as_def)
  show ?case using a f follows_end [OF one_seq.prems(3) a(2)] adds_node_seq [OF a(3)] by (simp add: element_item reads_seq_as_def)
next
  case (more_seq s e t es)
  obtain f where f: "fuel = Suc f" using more_seq.prems(4) by (cases fuel) auto
  have n: "no_repeat (t @ q)" "\<And>a. tx_p a = t @ q \<Longrightarrow> \<not> ends_element a" using item_next [OF more_seq.hyps(2)] by blast+
  have s: "s \<noteq> []" using item_start(2) [OF more_seq.hyps(1)] by simp
  then have len: "1 \<le> length s" by (cases s) auto
  obtain i a where a: "item_step f exp = Inr (i, a)" "tx_p a = t @ q" "adds_node exp e i a"
    using more_seq.IH(1) [OF more_seq.prems(1) _ n(1), of f] more_seq.prems f by (auto simp: reads_as_def)
  obtain j b where b: "trex_element f a = Inr (j, b)" "tx_p b = q" "adds_seq a es j b"
    using more_seq.IH(2) [OF adds_node_ready [OF a(3)] a(2) more_seq.prems(3), of f] more_seq.prems(4) f len by (auto simp: reads_seq_as_def)
  show ?case using a b f n(2) [OF a(2)] join_adds [OF a(3) b(3)] by (auto simp: element_item reads_seq_as_def)
next
  case (plain_branch s es)
  have "peek exp \<noteq> CHR ''^''" using item_start(3) [OF plain_branch.hyps] plain_branch.prems(2) by (cases s) (auto simp: peek_def)
  then show ?case using plain_branch.IH [OF plain_branch.prems] by (auto simp: branch_step_def reads_seq_as_def)
next
  case (bol_branch s es)
  obtain a where a: "advance exp = Inr ((), a)" "tx_p a = s @ q" "moves exp a"
    using advance_exact [OF bol_branch.prems(1), of "CHR ''^''"] bol_branch.prems(2) by auto
  obtain b where b: "trex_newnode a OP_BOL = Inr (size_of exp, b)" "tx_p b = s @ q" "adds_node exp R_bol (size_of exp) b"
    using newnode_adds [OF a(3), of OP_BOL] a(2) by (auto simp: op_codes)
  obtain j c where c: "trex_element fuel b = Inr (j, c)" "tx_p c = q" "adds_seq b es j c"
    using bol_branch.IH [OF adds_node_ready [OF b(3)] b(2) bol_branch.prems(3), of fuel] bol_branch.prems(4) by (auto simp: reads_seq_as_def)
  have "peek exp = CHR ''^''" using bol_branch.prems(2) by (simp add: peek_def)
  then show ?case using a(1) b(1) c(1,2) join_adds [OF b(3) c(3)] by (auto simp: branch_step_def reads_seq_as_def)
next
  case (one_list s es)
  obtain f where f: "fuel = Suc f" using one_list.prems(4) by (cases fuel) auto
  obtain i a where a: "branch_step f exp = Inr (i, a)" "tx_p a = q" "adds_seq exp es i a"
    using one_list.IH [OF one_list.prems(1,2), of f] one_list.prems(3,4) f by (auto simp: reads_seq_as_def follows_def)
  have "peek a \<noteq> CHR ''|''" using one_list.prems(3) a(2) by (cases q) (auto simp: peek_def closes_def)
  then show ?case using a f by (simp add: list_branch reads_seq_as_def)
next
  case (more_list s es t fs)
  obtain f where f: "fuel = Suc f" using more_list.prems(4) by (cases fuel) auto
  obtain i a where a: "branch_step f exp = Inr (i, a)" "tx_p a = ''|'' @ t @ q" "adds_seq exp es i a"
    using more_list.IH(1) [OF more_list.prems(1), of "''|'' @ t @ q" f] more_list.prems f by (auto simp: reads_seq_as_def follows_def)
  have "reads_seq_as e (trex_list f e) fs q" if "ready e" "tx_p e = t @ q" for e
    by (rule more_list.IH(2) [OF that more_list.prems(3)]) (use more_list.prems(4) f in simp)
  note alt = alternative_exact [OF a(3,2) this]
  have "peek a = CHR ''|''" using a(2) by (simp add: peek_def)
  then show ?case using alt a(1) f by (simp add: list_branch)
qed

section \<open>The compiler and the grammar\<close>

lemma grammar_program:
  assumes "list_text p es" "good_pattern p"
  shows "\<exists>exp. trex_compile p flags = Inr (Some exp, None) \<and> tx_flags exp = flags \<and> program exp es"
proof -
  obtain j b where b: "trex_list (compile_bound p) (opened p flags) = Inr (j, b)" "tx_p b = []" "adds_seq (opened p flags) es j b"
    using grammar_reads(5) [OF assms(1) opened_ready [OF assms(2)], of flags "[]" "compile_bound p"]
    by (auto simp: reads_seq_as_def closes_def compile_bound_def)
  obtain c where c: "set_node (tx_first b) (\<lambda>m. m\<lparr>n_left := j\<rparr>) b = Inr ((), c)" "tx_p c = tx_p b" "tx_flags c = flags"
    "program (c\<lparr>tx_matches := replicate (nat (tx_nsubexpr c)) (None, 0)\<rparr>) es"
    using program_made [OF b(3)] by blast
  then have "compile_steps p flags = Inr ((), c\<lparr>tx_matches := replicate (nat (tx_nsubexpr c)) (None, 0)\<rparr>)"
    using b unfolding compile_steps_opened [OF assms(2)] by (simp add: peek_def)
  then show ?thesis using c by (simp add: trex_compile_def)
qed

text \<open>C20: A pattern of the grammar, without a number of ten digits, is compiled into a program that holds the expression which
the grammar gives the pattern.\<close>

theorem grammar_compiles:
  assumes "list_text p es" "good_pattern p"
  shows "\<exists>exp. trex_compile p flags = Inr (Some exp, None) \<and> tx_flags exp = flags \<and> program exp es"
  by (rule grammar_program [OF assms])

theorem grammar_compiles_witness:
  "\<exists>exp. trex_compile ''^a{2}|[x_]'' 0 = Inr (Some exp, None) \<and>
     program exp [R_alt [R_bol, R_repeat (R_char 97) 2 2] [R_set False [One 120, One 95]]]"
proof -
  have s: "symbol_text b ''a'' (Sym_char 97)" "symbol_text b ''x'' (Sym_char 120)" "symbol_text b ''_'' (Sym_char 95)" for b
    using plain_symbol [of "CHR ''a''" b] plain_symbol [of "CHR ''x''" b] plain_symbol [of "CHR ''_''" b] by (simp_all add: isprint_def signed_char_def)
  have "atom_text ''a'' (R_char 97)" using symbol_atom [OF s(1)] by simp
  moreover have "numeral_text ''2''" "2 = decimal ''2'' mod 65536" by code_simp+
  then have "counts_text ''{2}'' 2 2" using exact_counts [of "''2''" 2] by simp
  ultimately have "item_text ''a{2}'' (R_repeat (R_char 97) 2 2)" using repeat_item [of "''a''" "R_char 97" "''{2}''"] by simp
  then have a: "branch_text ''^a{2}'' [R_bol, R_repeat (R_char 97) 2 2]" using bol_branch [OF one_seq, of "''a{2}''"] by simp
  have "set_text ''x_'' [One 120, One 95]"
    using one_member [OF s(2) _ one_member [OF s(3) _ no_members]] by simp
  then have "atom_text ''[x_]'' (R_set False [One 120, One 95])" using set_atom [of "''x_''" "[One 120, One 95]"] by simp
  then have b: "list_text ''[x_]'' [R_set False [One 120, One 95]]" by (intro one_list plain_branch one_seq one_item)
  have "list_text ''^a{2}|[x_]'' [R_alt [R_bol, R_repeat (R_char 97) 2 2] [R_set False [One 120, One 95]]]"
    using more_list [OF a b] by simp
  moreover have "good_pattern ''^a{2}|[x_]''" by code_simp
  ultimately show ?thesis using grammar_compiles [of "''^a{2}|[x_]''"] by blast
qed

end
