(* ===== verification/Arg_Exact.thy ===== *)
theory Arg_Exact
  imports Arg_Accept Arg_Grammar
begin

text \<open>
  Expressions without alternatives and repetitions, which match a text from a position in at most one way: on these the
  matcher of \<open>lib/argtable/argtable3.c\<close> computes a function that follows the expression, and accepts exactly the texts
  that the expression matches.
\<close>

fun straight :: "rx \<Rightarrow> bool" where
  "straight (R_group es) \<longleftrightarrow> (\<forall>e \<in> set es. straight e)"
| "straight (R_alt es fs) \<longleftrightarrow> False"
| "straight (R_repeat e from to) \<longleftrightarrow> False"
| "straight _ \<longleftrightarrow> True"

section \<open>The end of a match\<close>

definition one_char :: "string \<Rightarrow> nat \<Rightarrow> (int \<Rightarrow> bool) \<Rightarrow> nat option" where
  "one_char tx p good = (if p < length tx \<and> good (signed_char (tx ! p)) then Some (p + 1) else None)"

fun exact_end :: "int \<Rightarrow> string \<Rightarrow> nat \<Rightarrow> nat \<Rightarrow> rx \<Rightarrow> nat \<Rightarrow> nat option"
  and exact_seq :: "int \<Rightarrow> string \<Rightarrow> nat \<Rightarrow> nat \<Rightarrow> rx list \<Rightarrow> nat \<Rightarrow> nat option" where
  "exact_end flags tx bol eol (R_char c) p = one_char tx p (char_matches flags c)"
| "exact_end flags tx bol eol (R_class k) p = one_char tx p (trex_matchcclass k)"
| "exact_end flags tx bol eol (R_set negated ms) p = one_char tx p (set_matches flags negated ms)"
| "exact_end flags tx bol eol R_dot p = one_char tx p (\<lambda>_. True)"
| "exact_end flags tx bol eol R_bol p = (if p = bol then Some p else None)"
| "exact_end flags tx bol eol R_eol p = (if p = eol then Some p else None)"
| "exact_end flags tx bol eol (R_boundary x) p = (if boundary tx bol eol p = x then Some p else None)"
| "exact_end flags tx bol eol (R_group es) p = exact_seq flags tx bol eol es p"
| "exact_end flags tx bol eol _ p = None"
| "exact_seq flags tx bol eol [] p = Some p"
| "exact_seq flags tx bol eol (e # es) p = (case exact_end flags tx bol eol e p of None \<Rightarrow> None | Some q \<Rightarrow> exact_seq flags tx bol eol es q)"

inductive_simps matches_char: "matches flags tx bol eol (R_char c) p q"
inductive_simps matches_class: "matches flags tx bol eol (R_class k) p q"
inductive_simps matches_set: "matches flags tx bol eol (R_set negated ms) p q"
inductive_simps matches_dot: "matches flags tx bol eol R_dot p q"
inductive_simps matches_bol: "matches flags tx bol eol R_bol p q"
inductive_simps matches_eol: "matches flags tx bol eol R_eol p q"
inductive_simps matches_boundary: "matches flags tx bol eol (R_boundary x) p q"
inductive_simps matches_group: "matches flags tx bol eol (R_group es) p q"
inductive_simps matches_nil: "matches_seq flags tx bol eol [] p q"
inductive_simps matches_cons: "matches_seq flags tx bol eol (e # es) p q"

lemmas matches_simps = matches_char matches_class matches_set matches_dot matches_bol matches_eol matches_boundary matches_group
  matches_nil matches_cons

lemma exact_matches: "straight e \<Longrightarrow> matches flags tx bol eol e p q \<longleftrightarrow> exact_end flags tx bol eol e p = Some q"
  and exact_matches_seq: "\<forall>e \<in> set es. straight e \<Longrightarrow> matches_seq flags tx bol eol es p q \<longleftrightarrow> exact_seq flags tx bol eol es p = Some q"
  by (induction flags tx bol eol e p and flags tx bol eol es p arbitrary: q and q rule: exact_end_exact_seq.induct)
    (auto simp: matches_simps one_char_def split: option.splits)

section \<open>The matcher\<close>

abbreviation exact_of :: "trex \<Rightarrow> string \<Rightarrow> rx \<Rightarrow> nat \<Rightarrow> nat option" where
  "exact_of prog tx \<equiv> exact_end (tx_flags prog) tx (tx_bol prog) (tx_eol prog)"

abbreviation exact_seq_of :: "trex \<Rightarrow> string \<Rightarrow> rx list \<Rightarrow> nat \<Rightarrow> nat option" where
  "exact_seq_of prog tx \<equiv> exact_seq (tx_flags prog) tx (tx_bol prog) (tx_eol prog)"

definition gives_exact :: "trex \<Rightarrow> string \<Rightarrow> nat option step \<Rightarrow> nat option \<Rightarrow> bool" where
  "gives_exact prog tx r x \<longleftrightarrow> gives {} r (\<lambda>y exp. y = x \<and> runs_on prog exp \<and> (\<forall>q. y = Some q \<longrightarrow> q \<le> length tx))"

lemma char_exact:
  assumes "runs_on prog exp" "str \<le> length tx" "\<not> good 0"
  shows "gives_exact prog tx (followed (read_char tx str exp) (\<lambda>c exp. if good c then next_char tx str exp else Inr (None, exp)))
    (one_char tx str good)"
  using assms by (auto simp: gives_exact_def read_char_def next_char_def one_char_def)

lemma atom_ends:
  assumes "node_in prog lo hi i e" "runs_on prog exp" "str \<le> length tx" "plain (tx_flags prog) e"
    and "n_type (tx_nodes prog ! nat i) \<notin> {OP_GREEDY, OP_OR, OP_EXPR, OP_NOCAPEXPR}"
  shows "gives_exact prog tx (match_atom tx (tx_nodes prog ! nat i) str exp) (exact_of prog tx e str)"
proof -
  let ?n = "tx_nodes prog ! nat i" let ?fl = "tx_flags prog"
  have fl: "tx_flags exp = ?fl" "tx_bol exp = tx_bol prog" "tx_eol exp = tx_eol prog" "tx_nodes exp = tx_nodes prog" using assms(2) by (auto simp: runs_on_def)
  have node: "node_at (tx_nodes prog) (int (length (tx_matches prog))) lo hi i e" using assms(1) by blast
  note step = char_exact [OF assms(2,3)]
  have flags: "followed (read_char tx str exp) (\<lambda>c exp. if char_matches (tx_flags exp) k c then next_char tx str exp else Inr (None, exp)) =
      followed (read_char tx str exp) (\<lambda>c exp. if char_matches ?fl k c then next_char tx str exp else Inr (None, exp))" for k
    using assms(2) by (simp add: read_char_def runs_on_def)
  show ?thesis
    using node
  proof (cases rule: node_at.cases)
    case char_node
    then show ?thesis using step [of "char_matches ?fl (n_type ?n)"] assms(4) by (simp add: match_atom_def op_codes flags)
  next
    case bol_node
    then show ?thesis using assms(2,3) fl by (auto simp: match_atom_def op_codes gives_exact_def)
  next
    case eol_node
    then show ?thesis using assms(2,3) fl by (auto simp: match_atom_def op_codes gives_exact_def)
  next
    case class_node
    then show ?thesis using step [of "trex_matchcclass (n_left ?n)"] assms(4) by (simp add: match_atom_def op_codes)
  next
    case (set_node ms)
    then have "match_atom tx ?n str exp = followed (read_char tx str exp) (\<lambda>c exp'.
        if set_matches ?fl (n_type ?n = OP_NCLASS) ms c then next_char tx str exp' else Inr (None, exp'))"
      using set_atom_eq [of exp "i + 1" hi ?n ms tx str] assms(1) fl by auto
    then show ?thesis using step [of "set_matches ?fl (n_type ?n = OP_NCLASS) ms"] set_node assms(4) by simp
  qed (use assms(4,5) in \<open>auto\<close>)
qed

text \<open>A chain of nodes, each of which matches as it should.\<close>

lemma chain_ends:
  assumes "seq_in prog lo hi n es" "hi - lo \<le> int k" "runs_on prog exp" "cur \<le> length tx"
    and "\<And>n e rest lo' cur exp. seq_in prog lo' hi n (e # rest) \<Longrightarrow> lo \<le> lo' \<Longrightarrow> set (e # rest) \<subseteq> set es \<Longrightarrow> runs_on prog exp \<Longrightarrow> cur \<le> length tx \<Longrightarrow>
      gives_exact prog tx (M n cur (if n_next (tx_nodes prog ! nat n) \<noteq> -1 then n_next (tx_nodes prog ! nat n) else nx) exp) (exact_of prog tx e cur)"
  shows "gives_exact prog tx (match_chain k M nx n cur exp) (exact_seq_of prog tx es cur)"
  using assms
proof (induction es arbitrary: lo n k cur exp)
  case Nil
  then show ?case using seq_at_bounds by blast
next
  case (Cons e es)
  let ?m = "tx_nodes prog ! nat n"
  have n: "lo \<le> n" "n < hi" using Cons.prems(1) seq_at_bounds by blast+
  have g: "get_node n exp = Inr (?m, exp)" using n Cons.prems(1,3) by (auto simp: get_node_def runs_on_def)
  obtain k' where k: "k = Suc k'" using Cons.prems(2) n by (cases k) auto
  have "gives_exact prog tx (M n cur (if n_next ?m \<noteq> -1 then n_next ?m else nx) exp) (exact_of prog tx e cur)"
    by (rule Cons.prems(5) [OF Cons.prems(1) order_refl _ Cons.prems(3,4)]) simp
  then have "gives_exact prog tx (followed (M n cur (if n_next ?m \<noteq> -1 then n_next ?m else nx) exp) (\<lambda>r exp.
     case r of None \<Rightarrow> Inr (None, exp)
     | Some cur \<Rightarrow> if n_next ?m \<noteq> -1 then match_chain k' M nx (n_next ?m) cur exp else Inr (Some cur, exp)))
     (exact_seq_of prog tx (e # es) cur)"
    unfolding gives_exact_def
  proof (rule gives_followed, elim conjE)
    fix r exp'
    assume r: "r = exact_of prog tx e cur" and e': "runs_on prog exp'" and inside: "\<forall>q. r = Some q \<longrightarrow> q \<le> length tx"
    show "gives {} (case r of None \<Rightarrow> Inr (None, exp')
      | Some cur \<Rightarrow> if n_next ?m \<noteq> -1 then match_chain k' M nx (n_next ?m) cur exp' else Inr (Some cur, exp'))
      (\<lambda>y exp. y = exact_seq_of prog tx (e # es) cur \<and> runs_on prog exp \<and> (\<forall>q. y = Some q \<longrightarrow> q \<le> length tx))"
    proof (cases r)
      case None
      then show ?thesis using r e' by simp
    next
      case (Some q)
      have q: "exact_of prog tx e cur = Some q" "q \<le> length tx" using r Some inside by auto
      have seq: "seq_at (tx_nodes prog) (int (length (tx_matches prog))) lo hi n (e # es)" using Cons.prems(1) by blast
      then show ?thesis
      proof (cases rule: seq_at.cases)
        case last_node
        then show ?thesis using Some q e' by simp
      next
        case (more_nodes m j)
        have b: "lo < m" using node_at_bounds [OF more_nodes(1)] by simp
        have "gives_exact prog tx (match_chain k' M nx j q exp') (exact_seq_of prog tx es q)"
        proof (rule Cons.IH [OF _ _ e' q(2)])
          show "seq_in prog m hi j es" "hi - m \<le> int k'" using more_nodes Cons.prems(1,2) b k node_at_bounds [OF more_nodes(1)] by auto
        next
          fix i e' rest lo' cur exp
          assume s: "seq_in prog lo' hi i (e' # rest)" "m \<le> lo'" "set (e' # rest) \<subseteq> set es" "runs_on prog exp" "cur \<le> length tx"
          show "gives_exact prog tx (M i cur (if n_next (tx_nodes prog ! nat i) \<noteq> -1 then n_next (tx_nodes prog ! nat i) else nx) exp) (exact_of prog tx e' cur)"
            by (rule Cons.prems(5) [OF s(1) _ _ s(4,5)]) (use s(2,3) b in auto)
        qed
        then show ?thesis using Some more_nodes q by (simp add: gives_exact_def)
      qed
    qed
  qed
  then show ?case using g k by simp
qed

definition calls_exact :: "trex \<Rightarrow> string \<Rightarrow> nat \<Rightarrow> (int \<Rightarrow> nat \<Rightarrow> int \<Rightarrow> trex \<Rightarrow> nat option step) \<Rightarrow> bool" where
  "calls_exact prog tx fuel M \<longleftrightarrow> (\<forall>i nx e exp str. call_fits {} prog fuel i nx e \<longrightarrow> straight e \<longrightarrow> runs_on prog exp \<longrightarrow> str \<le> length tx \<longrightarrow>
     gives_exact prog tx (M i str nx exp) (exact_of prog tx e str))"

lemma group_ends:
  assumes "calls_exact prog tx fuel M" "seq_in prog lo hi (n_left n) es" "hi - lo + w \<le> int fuel" "\<forall>e \<in> set es. plain (tx_flags prog) e \<and> straight e"
    "tail_fits {} prog w nx" "n_type n = OP_NOCAPEXPR \<or> 0 \<le> n_right n \<and> n_right n < int (length (tx_matches prog))"
    "runs_on prog exp" "str \<le> length tx"
  shows "gives_exact prog tx (match_expr M n str nx exp) (exact_seq_of prog tx es str)"
  unfolding match_expr_def gives_exact_def
proof (rule gives_followed [OF begin_gives [OF assms(7,6)]], elim conjE, rule gives_followed)
  fix c exp1
  assume e1: "runs_on prog exp1"
  have "gives_exact prog tx (match_chain (length (tx_nodes exp1)) M nx (n_left n) str exp1) (exact_seq_of prog tx es str)"
  proof (rule chain_ends [OF assms(2) _ e1 assms(8)])
    show "hi - lo \<le> int (length (tx_nodes exp1))" using assms(2) e1 by (auto simp: runs_on_def)
  next
    fix m e rest lo' cur exp
    assume s: "seq_in prog lo' hi m (e # rest)" "lo \<le> lo'" "set (e # rest) \<subseteq> set es" "runs_on prog exp" "cur \<le> length tx"
    have "call_fits {} prog fuel m (if n_next (tx_nodes prog ! nat m) \<noteq> -1 then n_next (tx_nodes prog ! nat m) else nx) e"
      by (rule chain_calls [OF s(1,2) _ _ assms(5,3) refl]) (use assms(4) s(3) in \<open>auto simp: allowed_def\<close>)
    then show "gives_exact prog tx (M m cur (if n_next (tx_nodes prog ! nat m) \<noteq> -1 then n_next (tx_nodes prog ! nat m) else nx) exp) (exact_of prog tx e cur)"
      using assms(1,4) s(3-5) by (simp add: calls_exact_def)
  qed
  then show "gives {} (match_chain (length (tx_nodes exp1)) M nx (n_left n) str exp1)
    (\<lambda>y exp. y = exact_seq_of prog tx es str \<and> runs_on prog exp \<and> (\<forall>q. y = Some q \<longrightarrow> q \<le> length tx))" by (simp add: gives_exact_def)
next
  fix c exp1 r exp2
  assume c: "c = -1 \<or> 0 \<le> c \<and> c < int (length (tx_matches prog))"
    and r: "r = exact_seq_of prog tx es str \<and> runs_on prog exp2 \<and> (\<forall>q. r = Some q \<longrightarrow> q \<le> length tx)"
  then show "gives {} (end_capture c r exp2) (\<lambda>y exp. y = exact_seq_of prog tx es str \<and> runs_on prog exp \<and> (\<forall>q. y = Some q \<longrightarrow> q \<le> length tx))"
    by (auto simp: end_capture_def set_match_def runs_on_def)
qed

lemma matchnode_exact: "calls_exact prog tx fuel (trex_matchnode fuel tx)"
proof (induction fuel)
  case 0
  have False if "call_fits {} prog 0 i nx e" for i nx e
    using that node_at_bounds unfolding call_fits_def tail_fits_def by fastforce
  then show ?case by (auto simp: calls_exact_def)
next
  case (Suc fuel)
  have "gives_exact prog tx (trex_matchnode (Suc fuel) tx i str nx exp) (exact_of prog tx e str)"
    if fits: "call_fits {} prog (Suc fuel) i nx e" and straight: "straight e" and run: "runs_on prog exp" and start: "str \<le> length tx" for i nx e exp str
  proof -
    let ?n = "tx_nodes prog ! nat i"
    obtain lo m w where c: "node_in prog lo m i e" "plain (tx_flags prog) e" "tail_fits {} prog w (after prog i nx)"
      "n_next ?n = -1 \<or> nx = -1 \<or> nx = n_next ?n" "m - lo + w \<le> int (Suc fuel)"
      using fits unfolding call_fits_def allowed_def by blast
    have node: "node_at (tx_nodes prog) (int (length (tx_matches prog))) lo m i e" using c(1) by blast
    have b: "lo \<le> i" "i < m" "0 \<le> w" using node_at_bounds [OF node] c(3) by (auto simp: tail_fits_def)
    have g: "get_node i exp = Inr (?n, exp)" using b c(1) run by (auto simp: get_node_def runs_on_def)
    have nx: "tail_fits {} prog w nx" using c(3,4) b(3) by (auto simp: after_def tail_fits_def split: if_splits)
    show ?thesis
    proof (cases "n_type ?n \<in> {OP_GREEDY, OP_OR, OP_EXPR, OP_NOCAPEXPR}")
      case False
      then show ?thesis using atom_ends [OF c(1) run start c(2)] g by simp
    next
      case True
      from node show ?thesis
      proof (cases rule: node_at.cases)
        case (group_node es)
        have "gives_exact prog tx (match_expr (trex_matchnode fuel tx) ?n str nx exp) (exact_seq_of prog tx es str)"
          by (rule group_ends [OF Suc.IH _ _ _ nx _ run start, of "i + 1" m]) (use group_node c b straight in auto)
        then show ?thesis using group_node g by (auto simp: op_codes)
      qed (use True straight in \<open>auto simp: op_codes\<close>)
    qed
  qed
  then show ?case by (simp add: calls_exact_def)
qed

text \<open>On the program of such expressions the matcher returns the end of the only match, from any position.\<close>

lemma program_runs:
  assumes "program exp es" "\<forall>e \<in> set es. plain (tx_flags exp) e \<and> straight e"
    "runs_on (exp\<lparr>tx_bol := bol, tx_eol := eol\<rparr>) st" "str \<le> length tx"
  shows "\<exists>st'. trex_matchnode (match_bound st) tx 0 str (-1) st = Inr (exact_seq (tx_flags exp) tx bol eol es str, st') \<and>
    runs_on (exp\<lparr>tx_bol := bol, tx_eol := eol\<rparr>) st'"
proof -
  let ?prog = "exp\<lparr>tx_bol := bol, tx_eol := eol\<rparr>"
  have n: "tx_nodes st = tx_nodes exp" using assms(3) by (simp add: runs_on_def)
  have fits: "call_fits {} ?prog (match_bound st) 0 (-1) (R_group es)"
    unfolding call_fits_def
    by (intro exI [of _ 0] exI [of _ "size_of exp"])
      (use assms(1,2) n in \<open>auto simp: program_def after_def tail_fits_def allowed_def match_bound_def\<close>)
  have "gives_exact ?prog tx (trex_matchnode (match_bound st) tx 0 str (-1) st) (exact_of ?prog tx (R_group es) str)"
    by (rule matchnode_exact [unfolded calls_exact_def, rule_format, OF fits _ assms(3,4)]) (use assms(2) in auto)
  then show ?thesis by (auto simp: gives_exact_def gives_def split: sum.splits)
qed

lemma program_accepts:
  assumes "program exp es" "\<forall>e \<in> set es. plain (tx_flags exp) e \<and> straight e"
  shows "\<exists>exp'. trex_match (Some exp) tx = Inr (matches_seq (tx_flags exp) tx 0 (length tx) es 0 (length tx), exp')"
proof -
  let ?st = "exp\<lparr>tx_bol := 0, tx_eol := length tx, tx_currsubexp := 0\<rparr>"
  have "runs_on (exp\<lparr>tx_bol := 0, tx_eol := length tx\<rparr>) ?st" "match_bound ?st = match_bound exp" by (auto simp: runs_on_def match_bound_def)
  then obtain st' where "trex_matchnode (match_bound exp) tx 0 0 (-1) ?st = Inr (exact_seq (tx_flags exp) tx 0 (length tx) es 0, st')" "tx_eol st' = length tx"
    using program_runs [OF assms, where bol = 0 and eol = "length tx" and st = ?st and str = 0 and tx = tx] by (auto simp: runs_on_def)
  moreover have "matches_seq (tx_flags exp) tx 0 (length tx) es 0 (length tx) \<longleftrightarrow> exact_seq (tx_flags exp) tx 0 (length tx) es 0 = Some (length tx)"
    using exact_matches_seq [of es "tx_flags exp" tx 0 "length tx" 0 "length tx"] assms(2) by simp
  ultimately show ?thesis by (simp add: trex_match_def)
qed

section \<open>Searching\<close>

text \<open>The search tries the starts in order and stops at the first one that matches.\<close>

definition first_match :: "(nat \<Rightarrow> nat option) \<Rightarrow> nat \<Rightarrow> nat \<Rightarrow> (nat \<times> nat) option \<Rightarrow> bool" where
  "first_match end_of lo hi r = (case r of
     Some (s, e) \<Rightarrow> lo \<le> s \<and> s < hi \<and> end_of s = Some e \<and> (\<forall>k. lo \<le> k \<and> k < s \<longrightarrow> end_of k = None)
   | None \<Rightarrow> \<forall>k. lo \<le> k \<and> k < hi \<longrightarrow> end_of k = None)"

lemma first_match_later: "first_match f (lo + 1) hi r \<Longrightarrow> f lo = None \<Longrightarrow> first_match f lo hi r"
  unfolding first_match_def by (auto split: option.splits) (metis Suc_leI le_neq_implies_less)+

lemma search_loop_first:
  assumes "program exp es" "\<forall>e \<in> set es. plain (tx_flags exp) e \<and> straight e"
  shows "runs_on (exp\<lparr>tx_bol := bol, tx_eol := eol\<rparr>) st \<Longrightarrow> lo + n \<le> length tx \<Longrightarrow>
    \<exists>r st'. search_loop n tx 0 lo st = Inr (r, st') \<and> first_match (exact_seq (tx_flags exp) tx bol eol es) lo (lo + n) r"
proof (induction n arbitrary: lo st)
  case 0
  then show ?case by (auto simp: first_match_def)
next
  case (Suc n)
  let ?prog = "exp\<lparr>tx_bol := bol, tx_eol := eol\<rparr>" let ?f = "exact_seq (tx_flags exp) tx bol eol es"
  have st: "tx_nodes st = tx_nodes exp" using Suc.prems(1) by (simp add: runs_on_def)
  have "match_bound (st\<lparr>tx_currsubexp := 0\<rparr>) = match_bound st" by (simp add: match_bound_def)
  moreover have "runs_on ?prog (st\<lparr>tx_currsubexp := 0\<rparr>)" using Suc.prems(1) by (simp add: runs_on_def)
  ultimately obtain st' where run: "trex_matchnode (match_bound st) tx 0 lo (-1) (st\<lparr>tx_currsubexp := 0\<rparr>) = Inr (?f lo, st')" "runs_on ?prog st'"
    using program_runs [OF assms, where bol = bol and eol = eol and st = "st\<lparr>tx_currsubexp := 0\<rparr>" and str = lo and tx = tx] Suc.prems(2) by auto
  show ?case
  proof (cases "?f lo")
    case None
    then have "search_nodes (Suc (length (tx_nodes st))) tx 0 lo st = Inr ((None, 0), st')" using run(1) by simp
    moreover obtain r st'' where "search_loop n tx 0 (lo + 1) st' = Inr (r, st'')" "first_match ?f (lo + 1) (lo + 1 + n) r"
      using Suc.IH [OF run(2), of "lo + 1"] Suc.prems(2) by auto
    ultimately show ?thesis using first_match_later [of ?f lo "lo + 1 + n" r] None by auto
  next
    case (Some e)
    have node: "node_at (tx_nodes exp) (tx_nsubexpr exp) 0 (size_of exp) 0 (R_group es)" "n_next (tx_nodes exp ! 0) = -1" using assms(1) by (simp_all add: program_def)
    have len: "0 < length (tx_nodes exp)" using node_at_bounds [OF node(1)] by simp
    then obtain k where k: "length (tx_nodes exp) = Suc k" by (cases "length (tx_nodes exp)") auto
    have "get_node 0 st' = Inr (tx_nodes exp ! 0, st')" using run(2) len by (auto simp: get_node_def runs_on_def)
    then have "search_nodes (Suc (length (tx_nodes st))) tx 0 lo st = Inr ((Some e, -1), st')" using run(1) Some node(2) st k by simp
    then show ?thesis using Some by (auto simp: first_match_def)
  qed
qed

lemma search_first:
  assumes "program exp es" "\<forall>e \<in> set es. plain (tx_flags exp) e \<and> straight e"
  shows "\<exists>r exp'. trex_search exp tx = Inr (r, exp') \<and> first_match (exact_seq (tx_flags exp) tx 0 (length tx) es) 0 (length tx) r"
proof (cases "tx = []")
  case True
  then show ?thesis by (simp add: trex_search_def trex_searchrange_def first_match_def)
next
  case False
  have "runs_on (exp\<lparr>tx_bol := 0, tx_eol := length tx\<rparr>) (exp\<lparr>tx_bol := 0, tx_eol := length tx\<rparr>)" by (simp add: runs_on_def)
  then show ?thesis using search_loop_first [OF assms, where bol = 0 and eol = "length tx" and lo = 0 and n = "length tx" and tx = tx] assms(1) False
    by (simp add: trex_search_def trex_searchrange_def program_def)
qed

text \<open>A pattern of this kind.\<close>

lemma sample_pattern: "list_text ''a[xy]'' [R_char 97, R_set False [One 120, One 121]]"
proof -
  have s: "symbol_text b ''a'' (Sym_char 97)" "symbol_text b ''x'' (Sym_char 120)" "symbol_text b ''y'' (Sym_char 121)" for b
    using plain_symbol [of "CHR ''a''" b] plain_symbol [of "CHR ''x''" b] plain_symbol [of "CHR ''y''" b] by (simp_all add: isprint_def signed_char_def)
  have "set_text ''xy'' [One 120, One 121]" using one_member [OF s(2) _ one_member [OF s(3) _ no_members]] by simp
  then have "atom_text ''[xy]'' (R_set False [One 120, One 121])" using set_atom [of "''xy''" "[One 120, One 121]"] by simp
  then have b: "seq_text ''[xy]'' [R_set False [One 120, One 121]]" by (intro one_seq one_item)
  have "item_text ''a'' (R_char 97)" using symbol_atom [OF s(1)] one_item by simp
  then show "list_text ''a[xy]'' [R_char 97, R_set False [One 120, One 121]]"
    using one_list [OF plain_branch [OF more_seq [OF _ b]]] by fastforce
qed

text \<open>For a pattern of characters, classes, anchors and groups, without alternatives, repetitions and members to which the
terminator belongs, compiling and matching accepts a text if and only if the expression that the grammar gives the pattern
matches the text from its start to its end.\<close>

theorem straight_patterns_exact:
  assumes "list_text p es" "good_pattern p" "\<forall>e \<in> set es. plain flags e \<and> straight e"
  shows "\<exists>exp exp'. trex_compile p flags = Inr (Some exp, None) \<and>
    trex_match (Some exp) tx = Inr (matches_seq flags tx 0 (length tx) es 0 (length tx), exp')"
  using grammar_program [OF assms(1,2), of flags] program_accepts assms(3) by blast

theorem straight_patterns_exact_witness:
  "\<exists>exp exp' es. list_text ''a[xy]'' es \<and> trex_compile ''a[xy]'' 1 = Inr (Some exp, None) \<and>
     trex_match (Some exp) ''AY'' = Inr (matches_seq 1 ''AY'' 0 2 es 0 2, exp') \<and> matches_seq 1 ''AY'' 0 2 es 0 2"
proof -
  have "good_pattern ''a[xy]''" by code_simp
  moreover have "\<forall>e \<in> set [R_char 97, R_set False [One 120, One 121]]. plain 1 e \<and> straight e" by code_simp
  ultimately obtain exp exp' where e: "trex_compile ''a[xy]'' 1 = Inr (Some exp, None)"
    "trex_match (Some exp) ''AY'' = Inr (matches_seq 1 ''AY'' 0 (length ''AY'') [R_char 97, R_set False [One 120, One 121]] 0 (length ''AY''), exp')"
    using straight_patterns_exact [OF sample_pattern] by blast
  have "compile_and_match ''a[xy]'' 1 ''AY'' = Inr True" by code_simp
  moreover have "length ''AY'' = 2" by simp
  ultimately show ?thesis using e sample_pattern unfolding compile_and_match_Inr by (metis Inr_inject Pair_inject option.inject)
qed

text \<open>For such a pattern, searching a text returns the first position inside the text from which the expression matches, with the end of
the match there, and null only if it matches from none.\<close>

theorem search_finds_first:
  assumes "list_text p es" "good_pattern p" "\<forall>e \<in> set es. plain flags e \<and> straight e"
  shows "\<exists>exp r exp'. trex_compile p flags = Inr (Some exp, None) \<and> trex_search exp tx = Inr (r, exp') \<and>
    (case r of
       Some (b, e) \<Rightarrow> b < length tx \<and> matches_seq flags tx 0 (length tx) es b e \<and> (\<forall>k < b. \<forall>q. \<not> matches_seq flags tx 0 (length tx) es k q)
     | None \<Rightarrow> \<forall>k < length tx. \<forall>q. \<not> matches_seq flags tx 0 (length tx) es k q)"
proof -
  obtain exp where exp: "trex_compile p flags = Inr (Some exp, None)" "tx_flags exp = flags" "program exp es"
    using grammar_program [OF assms(1,2)] by blast
  have "matches_seq flags tx 0 (length tx) es k q \<longleftrightarrow> exact_seq flags tx 0 (length tx) es k = Some q" for k q
    using exact_matches_seq [of es] assms(3) by blast
  then show ?thesis using search_first [OF exp(3), of tx] assms(3) exp(1,2)
    by (fastforce simp: first_match_def split: option.splits)
qed

theorem search_finds_first_witness:
  "\<exists>exp exp' q es. trex_compile ''a[xy]'' 0 = Inr (Some exp, None) \<and> trex_search exp ''baay'' = Inr (Some (2, q), exp') \<and>
     matches_seq 0 ''baay'' 0 4 es 2 q \<and> (\<forall>k < 2. \<forall>q. \<not> matches_seq 0 ''baay'' 0 4 es k q)"
proof -
  have good: "good_pattern ''a[xy]''" by code_simp
  have "\<forall>e \<in> set [R_char 97, R_set False [One 120, One 121]]. plain 0 e \<and> straight e" by code_simp
  note found = search_finds_first [OF sample_pattern good this, of "''baay''"]
  have len: "length ''baay'' = 4" by simp
  have "case trex_compile ''a[xy]'' 0 of Inr (Some exp, error) \<Rightarrow>
      (case trex_search exp ''baay'' of Inr (Some (b, q), exp') \<Rightarrow> b = 2 | _ \<Rightarrow> False) | _ \<Rightarrow> False" by code_simp
  then show ?thesis using found unfolding len by (auto split: sum.splits option.splits)
qed

end
