(* ===== verification/Arg_Values.thy ===== *)
theory Arg_Values
  imports Arg_Output
begin

text \<open>
  The argument types of \<open>lib/argtable/argtable3.c\<close> for files, doubles and remarks, which the program does not
  use.  A pointer into a file name is the rest of the name from there.  The conversion \<open>strtod\<close> of the C library is
  a parameter, with the doubles as an abstract type; its second result is the string at \<open>*end\<close>.
\<close>

section \<open>File names\<close>

definition FILESEPARATOR1 :: char where "FILESEPARATOR1 = CHR ''/''"
definition FILESEPARATOR2 :: char where "FILESEPARATOR2 = CHR ''/''"

fun strrchr :: "string \<Rightarrow> char \<Rightarrow> string option" where
  "strrchr [] c = None"
| "strrchr (x # xs) c = (case strrchr xs c of Some r \<Rightarrow> Some r | None \<Rightarrow> if x = c then Some (x # xs) else None)"

definition arg_basename :: "string option \<Rightarrow> string option" where
  "arg_basename filename =
     (let result1 = Option.bind filename (\<lambda>f. strrchr f FILESEPARATOR1);
          result2 = Option.bind filename (\<lambda>f. strrchr f FILESEPARATOR2);
          result = (case result2 of Some r \<Rightarrow> Some (tl r) | None \<Rightarrow> None);
          result = (case result1 of Some r \<Rightarrow> Some (tl r) | None \<Rightarrow> result);
          result = (if result = None then filename else result)
      in if result = Some ''.'' \<or> result = Some ''..'' then Some [] else result)"

definition arg_extension :: "string option \<Rightarrow> string option" where
  "arg_extension base_name =
     (let result = Option.bind base_name (\<lambda>b. strrchr b (CHR ''.''));
          result = (if base_name \<noteq> None \<and> result = None then Some [] else result);
          result = (if base_name \<noteq> None \<and> result = base_name then Some [] else result)
      in if base_name \<noteq> None \<and> map_option length result = Some 1 then Some [] else result)"

section \<open>File arguments\<close>

record arg_file =
  file_hdr :: arg_hdr
  file_count :: nat
  file_filename :: "string list"
  file_basename :: "string list"
  file_extension :: "string list"

definition arg_file_resetfn :: "arg_file \<Rightarrow> arg_file" where
  "arg_file_resetfn a = a\<lparr>file_count := 0\<rparr>"

definition arg_file_scanfn :: "arg_file \<Rightarrow> string option \<Rightarrow> (int \<times> arg_file) option" where
  "arg_file_scanfn a argval =
     (if file_count a = hdr_maxcount (file_hdr a) then Some (ARG_ERR_MAXCOUNT, a)
      else case argval of
        None \<Rightarrow> Some (0, a\<lparr>file_count := file_count a + 1\<rparr>)
      | Some v \<Rightarrow> do {
          b \<leftarrow> arg_basename (Some v);
          e \<leftarrow> arg_extension (Some b);
          fs \<leftarrow> wr (file_filename a) (file_count a) [v];
          bs \<leftarrow> wr (file_basename a) (file_count a) [b];
          es \<leftarrow> wr (file_extension a) (file_count a) [e];
          Some (0, a\<lparr>file_filename := fs, file_basename := bs, file_extension := es, file_count := file_count a + 1\<rparr>)})"

definition arg_file_checkfn :: "arg_file \<Rightarrow> int" where
  "arg_file_checkfn a = checkfn (file_hdr a) (file_count a)"

definition arg_file_errorfn :: "arg_hdr \<Rightarrow> int \<Rightarrow> string option \<Rightarrow> string \<Rightarrow> dstr \<Rightarrow> dstr option" where
  "arg_file_errorfn h errorcode argval progname ds = (let argval = null_safe argval in do {
     ds \<leftarrow> arg_dstr_catf ''%s: '' [F_str progname] ds;
     if errorcode = ARG_ERR_MINCOUNT then do {
       ds \<leftarrow> arg_dstr_cat ''missing option '' ds;
       arg_print_option_ds (hdr_shortopts h) (hdr_longopts h) (hdr_datatype h) newline ds}
     else if errorcode = ARG_ERR_MAXCOUNT then do {
       ds \<leftarrow> arg_dstr_cat ''excess option '' ds;
       arg_print_option_ds (hdr_shortopts h) (hdr_longopts h) (Some argval) newline ds}
     else arg_dstr_catf (''unknown error at '' @ [CHR 0x22] @ ''%s'' @ [CHR 0x22] @ newline) [F_str argval] ds})"

definition arg_filen :: "string option \<Rightarrow> string option \<Rightarrow> string option \<Rightarrow> nat \<Rightarrow> nat \<Rightarrow> string option \<Rightarrow> arg_file" where
  "arg_filen shortopts longopts datatype mincount maxcount glossary =
     (let maxcount = foolproof mincount maxcount in
      \<lparr>file_hdr = \<lparr>hdr_flag = ARG_HASVALUE, hdr_shortopts = shortopts, hdr_longopts = longopts,
         hdr_datatype = Some (case datatype of Some d \<Rightarrow> d | None \<Rightarrow> ''<file>''),
         hdr_glossary = glossary, hdr_mincount = mincount, hdr_maxcount = maxcount\<rparr>,
       file_count = 0, file_filename = replicate maxcount [], file_basename = replicate maxcount [],
       file_extension = replicate maxcount []\<rparr>)"

definition arg_file0 :: "string option \<Rightarrow> string option \<Rightarrow> string option \<Rightarrow> string option \<Rightarrow> arg_file" where
  "arg_file0 shortopts longopts datatype glossary = arg_filen shortopts longopts datatype 0 1 glossary"

definition arg_file1 :: "string option \<Rightarrow> string option \<Rightarrow> string option \<Rightarrow> string option \<Rightarrow> arg_file" where
  "arg_file1 shortopts longopts datatype glossary = arg_filen shortopts longopts datatype 1 1 glossary"

section \<open>Doubles\<close>

definition ARG_ERR_BADDOUBLE :: int where "ARG_ERR_BADDOUBLE = 5"

record 'd arg_dbl =
  dbl_hdr :: arg_hdr
  dbl_count :: nat
  dbl_dval :: "'d option list"

definition arg_dbl_resetfn :: "'d arg_dbl \<Rightarrow> 'd arg_dbl" where
  "arg_dbl_resetfn a = a\<lparr>dbl_count := 0\<rparr>"

definition arg_dbl_scanfn :: "(string \<Rightarrow> 'd \<times> string) \<Rightarrow> 'd arg_dbl \<Rightarrow> string option \<Rightarrow> (int \<times> 'd arg_dbl) option" where
  "arg_dbl_scanfn strtod a argval =
     (if dbl_count a = hdr_maxcount (dbl_hdr a) then Some (ARG_ERR_MAXCOUNT, a)
      else case argval of
        None \<Rightarrow> Some (0, a\<lparr>dbl_count := dbl_count a + 1\<rparr>)
      | Some argval \<Rightarrow> (case strtod argval of (v, end_) \<Rightarrow>
          if end_ = [] then do {
            dval \<leftarrow> wr (dbl_dval a) (dbl_count a) [Some v];
            Some (0, a\<lparr>dbl_dval := dval, dbl_count := dbl_count a + 1\<rparr>)}
          else Some (ARG_ERR_BADDOUBLE, a)))"

definition arg_dbl_checkfn :: "'d arg_dbl \<Rightarrow> int" where
  "arg_dbl_checkfn a = checkfn (dbl_hdr a) (dbl_count a)"

definition arg_dbl_errorfn :: "arg_hdr \<Rightarrow> int \<Rightarrow> string option \<Rightarrow> string \<Rightarrow> dstr \<Rightarrow> dstr option" where
  "arg_dbl_errorfn h errorcode argval progname ds = (let argval = null_safe argval in do {
     ds \<leftarrow> arg_dstr_catf ''%s: '' [F_str progname] ds;
     if errorcode = ARG_ERR_MINCOUNT then do {
       ds \<leftarrow> arg_dstr_cat ''missing option '' ds;
       arg_print_option_ds (hdr_shortopts h) (hdr_longopts h) (hdr_datatype h) newline ds}
     else if errorcode = ARG_ERR_MAXCOUNT then do {
       ds \<leftarrow> arg_dstr_cat ''excess option '' ds;
       arg_print_option_ds (hdr_shortopts h) (hdr_longopts h) (Some argval) newline ds}
     else if errorcode = ARG_ERR_BADDOUBLE then do {
       ds \<leftarrow> arg_dstr_catf (''invalid argument '' @ [CHR 0x22] @ ''%s'' @ [CHR 0x22] @ '' to option '') [F_str argval] ds;
       arg_print_option_ds (hdr_shortopts h) (hdr_longopts h) (hdr_datatype h) newline ds}
     else Some ds})"

text \<open>The array of doubles starts at the first boundary after the structure, which ends at \<open>addr\<close>.\<close>

definition dval_address :: "nat \<Rightarrow> nat" where
  "dval_address addr = (let rem = addr mod 8 in addr + 8 - rem)"

definition dval_storage :: "nat \<Rightarrow> nat" where
  "dval_storage maxcount = (maxcount + 1) * 8"

definition arg_dbln :: "string option \<Rightarrow> string option \<Rightarrow> string option \<Rightarrow> nat \<Rightarrow> nat \<Rightarrow> string option \<Rightarrow> 'd arg_dbl" where
  "arg_dbln shortopts longopts datatype mincount maxcount glossary =
     (let maxcount = foolproof mincount maxcount in
      \<lparr>dbl_hdr = \<lparr>hdr_flag = ARG_HASVALUE, hdr_shortopts = shortopts, hdr_longopts = longopts,
         hdr_datatype = Some (case datatype of Some d \<Rightarrow> d | None \<Rightarrow> ''<double>''),
         hdr_glossary = glossary, hdr_mincount = mincount, hdr_maxcount = maxcount\<rparr>,
       dbl_count = 0, dbl_dval = replicate maxcount None\<rparr>)"

definition arg_dbl0 :: "string option \<Rightarrow> string option \<Rightarrow> string option \<Rightarrow> string option \<Rightarrow> 'd arg_dbl" where
  "arg_dbl0 shortopts longopts datatype glossary = arg_dbln shortopts longopts datatype 0 1 glossary"

definition arg_dbl1 :: "string option \<Rightarrow> string option \<Rightarrow> string option \<Rightarrow> string option \<Rightarrow> 'd arg_dbl" where
  "arg_dbl1 shortopts longopts datatype glossary = arg_dbln shortopts longopts datatype 1 1 glossary"

section \<open>Remarks\<close>

text \<open>A remark has no functions: it is only printed.\<close>

definition arg_rem :: "string option \<Rightarrow> string option \<Rightarrow> arg_hdr" where
  "arg_rem datatype glossary =
     \<lparr>hdr_flag = 0, hdr_shortopts = None, hdr_longopts = None, hdr_datatype = datatype,
      hdr_glossary = glossary, hdr_mincount = 1, hdr_maxcount = 1\<rparr>"

section \<open>The contract of an argument type\<close>

definition wf_file :: "arg_file \<Rightarrow> bool" where
  "wf_file a \<longleftrightarrow> file_count a \<le> hdr_maxcount (file_hdr a) \<and> length (file_filename a) = hdr_maxcount (file_hdr a) \<and>
     length (file_basename a) = hdr_maxcount (file_hdr a) \<and> length (file_extension a) = hdr_maxcount (file_hdr a)"

definition wf_dbl :: "'d arg_dbl \<Rightarrow> bool" where
  "wf_dbl a \<longleftrightarrow> dbl_count a \<le> hdr_maxcount (dbl_hdr a) \<and> length (dbl_dval a) = hdr_maxcount (dbl_hdr a)"

interpretation file_arg: arg_type file_hdr file_count wf_file arg_file_resetfn arg_file_scanfn arg_file_checkfn
  by unfold_locales
    (auto simp: wf_file_def arg_file_resetfn_def arg_file_scanfn_def arg_file_checkfn_def checkfn_def wr_one arg_codes
      bind_eq_Some_conv split: if_splits)

interpretation dbl: arg_type dbl_hdr dbl_count wf_dbl arg_dbl_resetfn "arg_dbl_scanfn strtod" arg_dbl_checkfn
  for strtod :: "string \<Rightarrow> 'd \<times> string"
  by unfold_locales
    (auto simp: wf_dbl_def arg_dbl_resetfn_def arg_dbl_scanfn_def arg_dbl_checkfn_def checkfn_def wr_one arg_codes
      ARG_ERR_BADDOUBLE_def bind_eq_Some_conv split: if_splits prod.splits)

lemma value_constructors_wf: "wf_file (arg_filen s l d lo hi g)" "wf_dbl (arg_dbln s l d lo hi g)"
  by (simp_all add: wf_file_def arg_filen_def wf_dbl_def arg_dbln_def Let_def)

text \<open>The doubles are aligned and inside the block, wherever the block is.\<close>

lemma dval_fits: "dval_address addr mod 8 = 0" "addr \<le> dval_address addr"
  "dval_address addr + 8 * maxcount \<le> addr + dval_storage maxcount"
  by (auto simp: dval_address_def dval_storage_def Let_def) presburger+

section \<open>The parts of a file name\<close>

lemma strrchr_None: "strrchr s c = None \<longleftrightarrow> c \<notin> set s"
  by (induction s) (auto split: option.splits)

lemma strrchr_Some: "strrchr s c = Some r \<Longrightarrow> \<exists>p t. s = p @ r \<and> r = c # t \<and> c \<notin> set t"
proof (induction s)
  case (Cons x s)
  show ?case
  proof (cases "strrchr s c")
    case None
    then have r: "x = c" "r = c # s" using Cons.prems by (auto split: if_splits)
    have "c \<notin> set s" using None strrchr_None by metis
    then show ?thesis using r by (intro exI [of _ "[]"] exI [of _ s]) simp
  next
    case (Some r')
    then obtain p t where "s = p @ r" "r = c # t" "c \<notin> set t" using Cons by auto
    then show ?thesis by (intro exI [of _ "x # p"] exI [of _ t]) simp
  qed
qed simp

lemma basename_parts:
  obtains d b where "arg_basename (Some f) = Some b" "f = d @ b" "CHR ''/'' \<notin> set b" "b \<noteq> ''.''" "b \<noteq> ''..''"
    "d = [] \<or> last d = CHR ''/'' \<or> b = []"
proof -
  let ?b = "case strrchr f (CHR ''/'') of Some r \<Rightarrow> tl r | None \<Rightarrow> f"
  have e: "arg_basename (Some f) = Some (if ?b = ''.'' \<or> ?b = ''..'' then [] else ?b)"
    by (auto simp: arg_basename_def FILESEPARATOR1_def FILESEPARATOR2_def Let_def split: option.splits)
  obtain d where d: "f = d @ ?b" "CHR ''/'' \<notin> set ?b" "d = [] \<or> last d = CHR ''/''"
  proof (cases "strrchr f (CHR ''/'')")
    case None
    have "CHR ''/'' \<notin> set f" using None strrchr_None by metis
    then show ?thesis by (intro that [of "[]"]) (simp_all add: None)
  next
    case (Some r)
    then obtain p t where "f = p @ r" "r = CHR ''/'' # t" "CHR ''/'' \<notin> set t" using strrchr_Some by blast
    then show ?thesis using that [of "p @ ''/''"] Some by simp
  qed
  show thesis
  proof (cases "?b = ''.'' \<or> ?b = ''..''")
    case True
    then show thesis using that [of "[]" f] e by simp
  next
    case False
    then have "arg_basename (Some f) = Some ?b" using e by simp
    then show thesis using that [OF _ d(1,2)] False d(3) by blast
  qed
qed

lemma extension_parts:
  obtains stem e where "arg_extension (Some b) = Some e" "b = stem @ e"
    "e = [] \<or> (\<exists>x. e = CHR ''.'' # x \<and> x \<noteq> [] \<and> CHR ''.'' \<notin> set x \<and> stem \<noteq> [])"
proof (cases "strrchr b (CHR ''.'')")
  case None
  then show thesis using that [of "[]" b] by (simp add: arg_extension_def Let_def)
next
  case (Some r)
  then obtain p t where r: "b = p @ r" "r = CHR ''.'' # t" "CHR ''.'' \<notin> set t" using strrchr_Some by blast
  show thesis
  proof (cases "p = [] \<or> t = []")
    case True
    then have "arg_extension (Some b) = Some []" using Some r by (auto simp: arg_extension_def Let_def)
    then show thesis using that [of "[]" b] by simp
  next
    case False
    then have "arg_extension (Some b) = Some r" using Some r by (auto simp: arg_extension_def Let_def)
    then show thesis using that [of r p] r False by simp
  qed
qed

text \<open>A file argument keeps its name and splits it: the name is a directory part followed by the base name, which
has no slash and is neither . nor .., and the base name is a stem followed by the extension, which is empty or a dot
and at least one character without dots after a stem that is not empty.\<close>

theorem file_name_parts:
  assumes "wf_file a" and "file_count a < hdr_maxcount (file_hdr a)"
  shows "\<exists>a' d stem ext. arg_file_scanfn a (Some f) = Some (0, a') \<and> file_count a' = file_count a + 1 \<and>
    file_filename a' ! file_count a = f \<and> f = d @ stem @ ext \<and>
    file_basename a' ! file_count a = stem @ ext \<and> file_extension a' ! file_count a = ext \<and>
    CHR ''/'' \<notin> set (stem @ ext) \<and> stem @ ext \<noteq> ''.'' \<and> stem @ ext \<noteq> ''..'' \<and> (d = [] \<or> last d = CHR ''/'' \<or> stem @ ext = []) \<and>
    (ext = [] \<or> (\<exists>x. ext = CHR ''.'' # x \<and> x \<noteq> [] \<and> CHR ''.'' \<notin> set x \<and> stem \<noteq> []))"
proof -
  obtain d b where b: "arg_basename (Some f) = Some b" "f = d @ b" "CHR ''/'' \<notin> set b" "b \<noteq> ''.''" "b \<noteq> ''..''"
    "d = [] \<or> last d = CHR ''/'' \<or> b = []" by (rule basename_parts)
  obtain stem e where e: "arg_extension (Some b) = Some e" "b = stem @ e"
    "e = [] \<or> (\<exists>x. e = CHR ''.'' # x \<and> x \<noteq> [] \<and> CHR ''.'' \<notin> set x \<and> stem \<noteq> [])" by (rule extension_parts)
  let ?a = "a\<lparr>file_filename := (file_filename a)[file_count a := f], file_basename := (file_basename a)[file_count a := b],
    file_extension := (file_extension a)[file_count a := e], file_count := file_count a + 1\<rparr>"
  have "arg_file_scanfn a (Some f) = Some (0, ?a)"
    using assms b(1) e(1) by (simp add: arg_file_scanfn_def wf_file_def wr_one)
  then show ?thesis using assms b e(2,3)
    by (intro exI [of _ ?a] exI [of _ d] exI [of _ stem] exI [of _ e]) (simp add: wf_file_def)
qed

theorem file_name_parts_witness:
  "\<exists>a'. arg_file_scanfn (arg_filen (Some ''f'') None None 1 2 None) (Some ''/etc/a.conf'') = Some (0, a') \<and> file_count a' = 1 \<and>
    file_filename a' ! 0 = ''/etc/a.conf'' \<and> file_basename a' ! 0 = ''a.conf'' \<and> file_extension a' ! 0 = ''.conf''"
proof -
  have "file_count (arg_filen (Some ''f'') None None 1 2 None) < hdr_maxcount (file_hdr (arg_filen (Some ''f'') None None 1 2 None))"
    by (simp add: arg_filen_def foolproof_def Let_def)
  from file_name_parts [OF value_constructors_wf(1) this, of "''/etc/a.conf''"]
  show ?thesis by (auto simp: arg_filen_def arg_file_scanfn_def arg_basename_def arg_extension_def FILESEPARATOR1_def FILESEPARATOR2_def
    foolproof_def wr_def splice_def Let_def)
qed

section \<open>The messages\<close>

lemma writes_dbl_error:
  assumes "hdr_ok h" and "opt_nul_free v" and "nul_free progname"
  shows "dstr.writes (arg_dbl_errorfn h err v progname) (progname @ '': '' @
    (if err = ARG_ERR_BADDOUBLE then value_message True h ARG_ERR_BADINT v else value_message False h err v))"
proof -
  show ?thesis
  proof (cases "err = ARG_ERR_BADDOUBLE")
    case True
    show ?thesis
      using writes_prefixed [OF assms(3) writes_value_error [OF assms(1,2), where is_int = True and err = ARG_ERR_BADINT]]
      by (simp add: arg_dbl_errorfn_def [abs_def] Let_def arg_codes ARG_ERR_BADDOUBLE_def True)
  next
    case False
    then show ?thesis
      using writes_prefixed [OF assms(3) writes_value_error [OF assms(1,2), where is_int = False and err = err]]
      by (simp add: arg_dbl_errorfn_def [abs_def] Let_def cong: if_cong)
  qed
qed

lemma writes_file_error:
  assumes "hdr_ok h" and "opt_nul_free v" and "nul_free progname"
  shows "dstr.writes (arg_file_errorfn h err v progname) (progname @ '': '' @
    (if err = ARG_ERR_MINCOUNT \<or> err = ARG_ERR_MAXCOUNT then value_message False h err v
     else ''unknown error at '' @ [CHR 0x22] @ null_safe v @ [CHR 0x22] @ newline))"
proof -
  have n: "nul_free (null_safe v)" by (rule null_safe_nul_free [OF assms(2)])
  have f: "c_format (''unknown error at '' @ [CHR 0x22] @ ''%s'' @ [CHR 0x22] @ newline) [F_str (null_safe v)] =
      Some (''unknown error at '' @ [CHR 0x22] @ null_safe v @ [CHR 0x22] @ newline)" by (simp add: format_eval newline_def)
  have u: "dstr.writes (arg_dstr_catf (''unknown error at '' @ [CHR 0x22] @ ''%s'' @ [CHR 0x22] @ newline) [F_str (null_safe v)])
      (''unknown error at '' @ [CHR 0x22] @ null_safe v @ [CHR 0x22] @ newline)" by (rule writes_catf [OF f]) (use n in simp)
  show ?thesis
  proof (cases "err = ARG_ERR_MINCOUNT \<or> err = ARG_ERR_MAXCOUNT")
    case True
    then show ?thesis
      using writes_prefixed [OF assms(3) writes_value_error [OF assms(1,2), where is_int = False and err = err]]
      by (auto simp: arg_file_errorfn_def [abs_def] Let_def cong: if_cong)
  next
    case False
    then show ?thesis using writes_prefixed [OF assms(3) u] by (simp add: arg_file_errorfn_def [abs_def] Let_def)
  qed
qed

end
