(* ===== verification/Arg_Rex.thy ===== *)
theory Arg_Rex
  imports Arg_Exact Arg_Values
begin

text \<open>
  The regular expression arguments of \<open>lib/argtable/argtable3.c\<close>.  The constructor and every scan of a value
  compile the pattern; a compiler or matcher that accesses memory outside its arrays is a fault of the whole.  The messages
  of the constructor are its first result.  Then what patterns outside the hypotheses of the theorems do.
\<close>

section \<open>The argument type\<close>

definition ARG_ERR_REGNOMATCH :: int where "ARG_ERR_REGNOMATCH = 7"

text \<open>The private structure after the argument is part of the record.\<close>

record arg_rex =
  rex_hdr :: arg_hdr
  rex_count :: nat
  rex_sval :: "string list"
  rex_pattern :: string
  rex_flags :: int

definition arg_rex_resetfn :: "arg_rex \<Rightarrow> arg_rex" where
  "arg_rex_resetfn a = a\<lparr>rex_count := 0\<rparr>"

definition arg_rex_scanfn :: "arg_rex \<Rightarrow> string option \<Rightarrow> (int \<times> arg_rex) option" where
  "arg_rex_scanfn a argval =
     (if rex_count a = hdr_maxcount (rex_hdr a) then Some (ARG_ERR_MAXCOUNT, a)
      else case argval of
        None \<Rightarrow> Some (0, a\<lparr>rex_count := rex_count a + 1\<rparr>)
      | Some argval \<Rightarrow>
          (case compile_and_match (rex_pattern a) (rex_flags a) argval of
             Inl s \<Rightarrow> None
           | Inr is_match \<Rightarrow>
               if \<not> is_match then Some (ARG_ERR_REGNOMATCH, a)
               else do {
                 sval \<leftarrow> wr (rex_sval a) (rex_count a) [argval];
                 Some (0, a\<lparr>rex_sval := sval, rex_count := rex_count a + 1\<rparr>)}))"

definition arg_rex_checkfn :: "arg_rex \<Rightarrow> int" where
  "arg_rex_checkfn a = checkfn (rex_hdr a) (rex_count a)"

definition arg_rex_errorfn :: "arg_hdr \<Rightarrow> int \<Rightarrow> string option \<Rightarrow> string \<Rightarrow> dstr \<Rightarrow> dstr option" where
  "arg_rex_errorfn h errorcode argval progname ds = (let argval = null_safe argval in do {
     ds \<leftarrow> arg_dstr_catf ''%s: '' [F_str progname] ds;
     if errorcode = ARG_ERR_MINCOUNT then do {
       ds \<leftarrow> arg_dstr_cat ''missing option '' ds;
       arg_print_option_ds (hdr_shortopts h) (hdr_longopts h) (hdr_datatype h) newline ds}
     else if errorcode = ARG_ERR_MAXCOUNT then do {
       ds \<leftarrow> arg_dstr_cat ''excess option '' ds;
       arg_print_option_ds (hdr_shortopts h) (hdr_longopts h) (Some argval) newline ds}
     else if errorcode = ARG_ERR_REGNOMATCH then do {
       ds \<leftarrow> arg_dstr_cat ''illegal value  '' ds;
       arg_print_option_ds (hdr_shortopts h) (hdr_longopts h) (Some argval) newline ds}
     else Some ds})"

definition quoted :: "string \<Rightarrow> string" where
  "quoted s = CHR 0x22 # s @ [CHR 0x22]"

definition arg_rexn :: "string option \<Rightarrow> string option \<Rightarrow> string option \<Rightarrow> string option \<Rightarrow> nat \<Rightarrow> nat \<Rightarrow> int \<Rightarrow> string option \<Rightarrow>
    stop + string list \<times> arg_rex option" where
  "arg_rexn shortopts longopts pattern datatype mincount maxcount flags glossary =
     (case pattern of
        None \<Rightarrow> Inr ([''argtable: ERROR - illegal regular expression pattern '' @ quoted ''(NULL)'' @ newline,
          ''argtable: Bad argument table.'' @ newline], None)
      | Some pattern \<Rightarrow>
          (let maxcount = foolproof mincount maxcount;
               result = \<lparr>rex_hdr = \<lparr>hdr_flag = ARG_HASVALUE, hdr_shortopts = shortopts, hdr_longopts = longopts,
                   hdr_datatype = Some (case datatype of Some d \<Rightarrow> d | None \<Rightarrow> pattern),
                   hdr_glossary = glossary, hdr_mincount = mincount, hdr_maxcount = maxcount\<rparr>,
                 rex_count = 0, rex_sval = replicate maxcount [], rex_pattern = pattern, rex_flags = flags\<rparr> in
           case trex_compile pattern flags of
             Inl s \<Rightarrow> Inl s
           | Inr (None, error) \<Rightarrow>
               Inr ([''argtable: '' @ (case error of Some e \<Rightarrow> e | None \<Rightarrow> ''undefined'') @ '' '' @ quoted pattern @ newline,
                 ''argtable: Bad argument table.'' @ newline], Some result)
           | Inr (Some rex, error) \<Rightarrow> Inr ([], Some result)))"

definition arg_rex0 :: "string option \<Rightarrow> string option \<Rightarrow> string option \<Rightarrow> string option \<Rightarrow> int \<Rightarrow> string option \<Rightarrow> stop + string list \<times> arg_rex option" where
  "arg_rex0 shortopts longopts pattern datatype flags glossary = arg_rexn shortopts longopts pattern datatype 0 1 flags glossary"

definition arg_rex1 :: "string option \<Rightarrow> string option \<Rightarrow> string option \<Rightarrow> string option \<Rightarrow> int \<Rightarrow> string option \<Rightarrow> stop + string list \<times> arg_rex option" where
  "arg_rex1 shortopts longopts pattern datatype flags glossary = arg_rexn shortopts longopts pattern datatype 1 1 flags glossary"

section \<open>The contract of an argument type\<close>

definition wf_rex :: "arg_rex \<Rightarrow> bool" where
  "wf_rex a \<longleftrightarrow> rex_count a \<le> hdr_maxcount (rex_hdr a) \<and> length (rex_sval a) = hdr_maxcount (rex_hdr a)"

interpretation rex: arg_type rex_hdr rex_count wf_rex arg_rex_resetfn arg_rex_scanfn arg_rex_checkfn
  by unfold_locales
    (auto simp: wf_rex_def arg_rex_resetfn_def arg_rex_scanfn_def arg_rex_checkfn_def checkfn_def wr_one arg_codes
      ARG_ERR_REGNOMATCH_def bind_eq_Some_conv split: if_splits sum.splits)

lemma rexn_wf: "arg_rexn s l p d lo hi fl g = Inr (out, Some a) \<Longrightarrow>
   wf_rex a \<and> rex_count a = 0 \<and> hdr_maxcount (rex_hdr a) = foolproof lo hi \<and> hdr_mincount (rex_hdr a) = lo \<and> p = Some (rex_pattern a) \<and> rex_flags a = fl"
  by (auto simp: arg_rexn_def wf_rex_def Let_def split: option.splits sum.splits)

text \<open>The message of a refused value has two spaces before the option.\<close>

lemma writes_rex_error:
  assumes "hdr_ok h" and "opt_nul_free v" and "nul_free progname"
  shows "dstr.writes (arg_rex_errorfn h err v progname) (progname @ '': '' @
    (if err = ARG_ERR_REGNOMATCH then ''illegal value  '' @ shown_option (hdr_shortopts h) (hdr_longopts h) (Some (null_safe v)) @ newline
     else value_message False h err v))"
proof (cases "err = ARG_ERR_REGNOMATCH")
  case True
  have n: "nul_free (null_safe v)" by (rule null_safe_nul_free [OF assms(2)])
  have "dstr.writes (arg_print_option_ds (hdr_shortopts h) (hdr_longopts h) (Some (null_safe v)) newline)
      (shown_option (hdr_shortopts h) (hdr_longopts h) (Some (null_safe v)) @ newline)"
    using assms(1) n by (intro writes_option) (simp_all add: hdr_ok_def opt_nul_free_def)
  then have "dstr.writes (\<lambda>ds. do { ds \<leftarrow> arg_dstr_cat ''illegal value  '' ds;
       arg_print_option_ds (hdr_shortopts h) (hdr_longopts h) (Some (null_safe v)) newline ds})
      (''illegal value  '' @ shown_option (hdr_shortopts h) (hdr_longopts h) (Some (null_safe v)) @ newline)"
    by (intro dstr.writes_seq dstr.writes_put) simp_all
  from writes_prefixed [OF assms(3) this] show ?thesis
    by (simp add: arg_rex_errorfn_def [abs_def] Let_def arg_codes ARG_ERR_REGNOMATCH_def True)
next
  case False
  then show ?thesis
    using writes_prefixed [OF assms(3) writes_value_error [OF assms(1,2), where is_int = False and err = err]]
    by (simp add: arg_rex_errorfn_def [abs_def] Let_def cong: if_cong)
qed

text \<open>The constructor of a pattern of the grammar reports nothing.\<close>

lemma grammar_constructs:
  assumes "list_text p es" "good_pattern p"
  shows "\<exists>a. arg_rexn s l (Some p) d lo hi flags g = Inr ([], Some a) \<and> wf_rex a \<and> rex_count a = 0 \<and>
    hdr_maxcount (rex_hdr a) = foolproof lo hi \<and> rex_pattern a = p \<and> rex_flags a = flags"
  using grammar_program [OF assms, of flags] by (auto simp: arg_rexn_def wf_rex_def Let_def)

text \<open>C23: A value that is scanned for a pattern of the grammar, without dots, word boundaries and members to which the
terminator belongs, is stored and counted or refused with the argument unchanged; it is stored only if the expression of
the pattern matches the whole value, and if the pattern has no alternatives and repetitions, exactly then.\<close>

theorem rex_values_match:
  assumes "wf_rex a" "rex_count a < hdr_maxcount (rex_hdr a)" "list_text (rex_pattern a) es" "good_pattern (rex_pattern a)"
    "\<forall>e \<in> set es. plain (rex_flags a) e"
  shows "\<exists>stored. arg_rex_scanfn a (Some v) = Some (if stored
      then (0, a\<lparr>rex_sval := (rex_sval a)[rex_count a := v], rex_count := rex_count a + 1\<rparr>) else (ARG_ERR_REGNOMATCH, a)) \<and>
    (stored \<longrightarrow> matches_seq (rex_flags a) v 0 (length v) es 0 (length v)) \<and>
    ((\<forall>e \<in> set es. straight e) \<longrightarrow> stored = matches_seq (rex_flags a) v 0 (length v) es 0 (length v))"
proof -
  obtain exp where exp: "trex_compile (rex_pattern a) (rex_flags a) = Inr (Some exp, None)" "tx_flags exp = rex_flags a" "program exp es"
    using grammar_program [OF assms(3,4)] by blast
  obtain b exp' where b: "trex_match (Some exp) v = Inr (b, exp')" "b \<longrightarrow> matches_seq (rex_flags a) v 0 (length v) es 0 (length v)"
    using program_calls [OF exp(3), of "{}" v] assms(5) exp(2) by (auto simp: allowed_def gives_def split: sum.splits)
  have exact: "b = matches_seq (rex_flags a) v 0 (length v) es 0 (length v)" if "\<forall>e \<in> set es. straight e"
    using program_accepts [OF exp(3), of v] assms(5) that exp(2) b(1) by auto
  have "compile_and_match (rex_pattern a) (rex_flags a) v = Inr b" using exp(1) b(1) by (auto simp: compile_and_match_Inr)
  then show ?thesis using assms(1,2) b(2) exact
    by (intro exI [of _ b]) (auto simp: arg_rex_scanfn_def wf_rex_def wr_one)
qed

theorem rex_values_match_witness:
  "\<exists>a b. arg_rexn (Some ''r'') None (Some ''a[xy]'') None 0 1 1 None = Inr ([], Some a) \<and>
     arg_rex_scanfn a (Some ''AY'') = Some (0, b) \<and> rex_sval b = [''AY''] \<and> arg_rex_scanfn a (Some ''AZ'') = Some (ARG_ERR_REGNOMATCH, a)"
proof -
  have good: "good_pattern ''a[xy]''" by code_simp
  obtain a where a: "arg_rexn (Some ''r'') None (Some ''a[xy]'') None 0 1 1 None = Inr ([], Some a)" "wf_rex a" "rex_count a = 0"
    "hdr_maxcount (rex_hdr a) = 1" "rex_pattern a = ''a[xy]''" "rex_flags a = 1"
    using grammar_constructs [OF sample_pattern good, of "Some ''r''" None None 0 1 1 None] by (auto simp: foolproof_def)
  have room: "rex_count a < hdr_maxcount (rex_hdr a)" using a by simp
  have pat: "list_text (rex_pattern a) [R_char 97, R_set False [One 120, One 121]]" "good_pattern (rex_pattern a)"
    using a(5) sample_pattern good by simp_all
  have plain: "\<forall>e \<in> set [R_char 97, R_set False [One 120, One 121]]. plain (rex_flags a) e" unfolding a(6) by code_simp
  note scan = rex_values_match [OF a(2) room pat plain]
  have len: "length (rex_sval a) = 1" using a(2,4) by (simp add: wf_rex_def)
  have exact: "compile_and_match (rex_pattern a) (rex_flags a) ''AY'' = Inr True" "compile_and_match (rex_pattern a) (rex_flags a) ''AZ'' = Inr False"
    unfolding a(5,6) by code_simp+
  obtain y where y: "arg_rex_scanfn a (Some ''AY'') = Some (if y
      then (0, a\<lparr>rex_sval := (rex_sval a)[rex_count a := ''AY''], rex_count := rex_count a + 1\<rparr>) else (ARG_ERR_REGNOMATCH, a))"
    using scan [of "''AY''"] by blast
  obtain z where z: "arg_rex_scanfn a (Some ''AZ'') = Some (if z
      then (0, a\<lparr>rex_sval := (rex_sval a)[rex_count a := ''AZ''], rex_count := rex_count a + 1\<rparr>) else (ARG_ERR_REGNOMATCH, a))"
    using scan [of "''AZ''"] by blast
  have "y" using y room exact(1) by (auto simp: arg_rex_scanfn_def ARG_ERR_REGNOMATCH_def bind_eq_Some_conv split: if_splits)
  moreover have "\<not> z" using z room exact(2) by (auto simp: arg_rex_scanfn_def ARG_ERR_REGNOMATCH_def)
  moreover have "(rex_sval a)[0 := ''AY''] = [''AY'']" using len by (cases "rex_sval a") auto
  ultimately show ?thesis using a y z by auto
qed

section \<open>Refused patterns\<close>

text \<open>C24: A pattern that the compiler refuses is reported by the constructor, which returns the argument all the same; scanning any
value then matches with the null pointer that the compiler returns.\<close>

theorem refused_pattern_faults:
  assumes "trex_compile p flags = Inr (None, Some error)" "0 < hi"
  shows "\<exists>out a. arg_rexn s l (Some p) d lo hi flags g = Inr (out, Some a) \<and>
    out = [''argtable: '' @ error @ '' '' @ quoted p @ newline, ''argtable: Bad argument table.'' @ newline] \<and>
    (\<forall>v. arg_rex_scanfn a (Some v) = None)"
  using assms by (auto simp: arg_rexn_def arg_rex_scanfn_def compile_and_match_def trex_match_def foolproof_def Let_def)

theorem refused_pattern_faults_witness:
  "\<exists>out a. arg_rexn (Some ''r'') None (Some ''(a'') None 0 1 0 None = Inr (out, Some a) \<and>
     hd out = ''argtable: expected paren '' @ quoted ''(a'' @ newline \<and> arg_rex_scanfn a (Some ''a'') = None"
proof -
  have "trex_compile ''(a'' 0 = Inr (None, Some ''expected paren'')" by code_simp
  from refused_pattern_faults [OF this, of 1 "Some ''r''" None None 0 None] show ?thesis by auto
qed

text \<open>Patterns outside the hypotheses: the empty one, for which the array of nodes has no room; one that ends inside an escape; a
number of ten digits.\<close>

lemma bad_patterns_fault:
  "compile_and_match [] 0 ''a'' = Inl Bad_access"
  "compile_and_match (''a'' @ [CHR 0x5C]) 0 ''a'' = Inl Bad_access"
  "compile_and_match ''a{2147483648}'' 0 ''a'' = Inl Bad_access"
  by code_simp+

text \<open>Reading past the end of the text, with a dot, a word boundary and a negated class.\<close>

lemma texts_overrun:
  "compile_and_match ''a.b'' 0 ''a'' = Inl Bad_access"
  "compile_and_match (''a '' @ [CHR 0x5C] @ ''b'') 0 ''a '' = Inl Bad_access"
  "compile_and_match ''[^a]b'' 0 '''' = Inl Bad_access"
  by code_simp+

text \<open>The matcher does not go back to the other alternative: it refuses a text that the expression matches.\<close>

lemma alternative_not_retried:
  "list_text ''(a|ab)c'' [R_group [R_alt [R_char 97] [R_char 97, R_char 98]], R_char 99] \<and>
   matches_seq 0 ''abc'' 0 3 [R_group [R_alt [R_char 97] [R_char 97, R_char 98]], R_char 99] 0 3 \<and>
   compile_and_match ''(a|ab)c'' 0 ''abc'' = Inr False"
proof (intro conjI)
  have s: "symbol_text False ''a'' (Sym_char 97)" "symbol_text False ''b'' (Sym_char 98)" "symbol_text False ''c'' (Sym_char 99)"
    using plain_symbol [of "CHR ''a''"] plain_symbol [of "CHR ''b''"] plain_symbol [of "CHR ''c''"] by (simp_all add: isprint_def signed_char_def)
  have i: "item_text ''a'' (R_char 97)" "item_text ''b'' (R_char 98)" "item_text ''c'' (R_char 99)"
    using symbol_atom [OF s(1)] symbol_atom [OF s(2)] symbol_atom [OF s(3)] by (simp_all add: one_item)
  have "list_text ''ab'' [R_char 97, R_char 98]" using one_list [OF plain_branch [OF more_seq [OF i(1) one_seq [OF i(2)]]]] by simp
  then have "list_text ''a|ab'' [R_alt [R_char 97] [R_char 97, R_char 98]]"
    using more_list [OF plain_branch [OF one_seq [OF i(1)]]] by fastforce
  then have "item_text ''(a|ab)'' (R_group [R_alt [R_char 97] [R_char 97, R_char 98]])"
    using group_atom [of "''a|ab''"] one_item by fastforce
  then show "list_text ''(a|ab)c'' [R_group [R_alt [R_char 97] [R_char 97, R_char 98]], R_char 99]"
    using one_list [OF plain_branch [OF more_seq [OF _ one_seq [OF i(3)]]]] by fastforce
next
  have c: "matches 0 ''abc'' 0 3 (R_char 97) 0 1" "matches 0 ''abc'' 0 3 (R_char 98) 1 2" "matches 0 ''abc'' 0 3 (R_char 99) 2 3"
    by (simp_all add: matches_char char_matches_def icase_def signed_char_def)
  have "matches 0 ''abc'' 0 3 (R_group [R_alt [R_char 97] [R_char 97, R_char 98]]) 0 2"
    by (intro m_group m_cons [OF m_right m_nil] m_cons [OF c(1)] m_cons [OF c(2)] m_nil)
  then show "matches_seq 0 ''abc'' 0 3 [R_group [R_alt [R_char 97] [R_char 97, R_char 98]], R_char 99] 0 3"
    by (rule m_cons [OF _ m_cons [OF c(3) m_nil]])
qed code_simp

text \<open>A repetition whose count is cut to 16 bits; a range that is accepted with its ends in the wrong order; a word boundary inside
  a word, before its last letter.\<close>

lemma odd_patterns:
  "compile_and_match ''a{65536}'' 0 '''' = Inr True"
  "compile_and_match ''[z-a]'' 0 ''m'' = Inr False"
  "compile_and_match (''a'' @ [CHR 0x5C] @ ''bb c'') 0 ''ab c'' = Inr True"
  by code_simp+

end
