(* ===== verification/Arg_Alloc.thy ===== *)
theory Arg_Alloc
  imports Prelude
begin

text \<open>
  The wrappers of the allocator in \<open>lib/argtable/argtable3.c\<close> and their panic handler.  The functions of the C
  library are parameters: \<open>malloc\<close>, \<open>calloc\<close> and \<open>realloc\<close> answer with an address or null, \<open>getenv\<close> with the value of a variable.  A
  call returns or ends the process, and its second result is what it wrote to standard error.
\<close>

datatype 'a ending = Returns 'a | Aborts | Exits int

type_synonym panicfn = "string \<Rightarrow> unit ending \<times> string"

definition panic :: "(string \<Rightarrow> string option) \<Rightarrow> panicfn" where
  "panic getenv message =
     (case getenv ''EF_DUMPCORE'' of
        Some s \<Rightarrow> if s \<noteq> [] then (Aborts, message) else (Exits 1, message)
      | None \<Rightarrow> (Exits 1, message))"

text \<open>The handler is a global pointer, first to \<open>panic\<close>.\<close>

definition arg_set_panic :: "panicfn \<Rightarrow> panicfn \<Rightarrow> panicfn" where
  "arg_set_panic proc s_panic = proc"

definition out_of_memory :: string where
  "out_of_memory = ''Out of memory!'' @ [CHR 0x0A]"

definition or_panic :: "panicfn \<Rightarrow> nat option \<Rightarrow> nat option ending \<times> string" where
  "or_panic s_panic r =
     (if r = None then
        (case s_panic out_of_memory of
           (Returns _, err) \<Rightarrow> (Returns r, err)
         | (Aborts, err) \<Rightarrow> (Aborts, err)
         | (Exits n, err) \<Rightarrow> (Exits n, err))
      else (Returns r, []))"

definition xmalloc :: "(nat \<Rightarrow> nat option) \<Rightarrow> panicfn \<Rightarrow> nat \<Rightarrow> nat option ending \<times> string" where
  "xmalloc malloc s_panic nbytes = or_panic s_panic (malloc nbytes)"

definition xcalloc :: "(nat \<Rightarrow> nat \<Rightarrow> nat option) \<Rightarrow> panicfn \<Rightarrow> nat \<Rightarrow> nat \<Rightarrow> nat option ending \<times> string" where
  "xcalloc calloc s_panic n nbytes =
     (let allocated_count = (if n \<noteq> 0 \<and> nbytes \<noteq> 0 then n else 1);
          allocated_size = (if n \<noteq> 0 \<and> nbytes \<noteq> 0 then nbytes else 1)
      in or_panic s_panic (calloc allocated_count allocated_size))"

definition xrealloc :: "(nat option \<Rightarrow> nat \<Rightarrow> nat option) \<Rightarrow> panicfn \<Rightarrow> nat option \<Rightarrow> nat \<Rightarrow> nat option ending \<times> string" where
  "xrealloc realloc s_panic ptr nbytes =
     (let allocated_size = (if nbytes \<noteq> 0 then nbytes else 1) in or_panic s_panic (realloc ptr allocated_size))"

text \<open>With the default handler no wrapper returns null, whatever the library answers; when the library has no memory the
  process ends with a message.\<close>

lemma or_panic_default: "or_panic (panic getenv) r =
   (case r of Some p \<Rightarrow> (Returns (Some p), [])
    | None \<Rightarrow> (if getenv ''EF_DUMPCORE'' \<in> {None, Some []} then Exits 1 else Aborts, out_of_memory))"
  by (auto simp: or_panic_def panic_def split: option.splits)

lemma wrappers_never_null:
  "fst (xmalloc malloc (panic getenv) n) \<noteq> Returns None"
  "fst (xcalloc calloc (panic getenv) m n) \<noteq> Returns None"
  "fst (xrealloc realloc (panic getenv) ptr n) \<noteq> Returns None"
  by (auto simp: xmalloc_def xcalloc_def xrealloc_def or_panic_default Let_def split: option.splits)

text \<open>A library that answers a request for no bytes with null, as the standard allows: two of the wrappers ask for one byte
  then, \<open>xmalloc\<close> takes the answer for a lack of memory.\<close>

lemma empty_requests:
  assumes "\<And>n. malloc n = (if n = 0 then None else Some (addr n))"
  shows "xcalloc (\<lambda>m n. malloc (m * n)) (panic getenv) 0 n = (Returns (Some (addr 1)), [])"
    and "xrealloc (\<lambda>_. malloc) (panic getenv) ptr 0 = (Returns (Some (addr 1)), [])"
    and "snd (xmalloc malloc (panic getenv) 0) = out_of_memory"
  using assms by (simp_all add: xcalloc_def xrealloc_def xmalloc_def or_panic_default)

text \<open>A handler that returns hands the null pointer on.\<close>

lemma returning_handler: "xmalloc (\<lambda>_. None) (arg_set_panic (\<lambda>m. (Returns (), m)) (panic getenv)) n = (Returns None, out_of_memory)"
  by (simp add: xmalloc_def or_panic_def arg_set_panic_def)

end
