(* ===== verification/Spec2Isabelle.thy ===== *)
theory Spec2Isabelle
  imports Logging Handshake Barco_Safety Arg_Output Arg_Wrap Arg_Date Arg_Messages Arg_Sort Arg_Free Arg_Rex Arg_Alloc
begin

text \<open>
  A model of barco, a small container runtime in C, and the theorems about it.

  \<^bold>\<open>The program.\<close>  \<open>src/barco.c\<close> is the parent: it parses the command line with the embedded argtable
  library, opens a socket pair, sets up a veth pair, NAT rules and cgroups, clones the container process,
  writes its id maps, waits for it and cleans up.  \<open>src/container.c\<close> is the child: it renames and
  configures its end of the veth pair (\<open>src/netlink.c\<close>), mounts the new root (\<open>src/mount.c\<close>), takes part in
  the id-map handshake (\<open>src/user.c\<close>), drops capabilities, loads a seccomp filter (\<open>src/sec.c\<close>) and calls
  \<open>execve\<close>.  \<open>lib/log/log.c\<close> is the logging library, \<open>lib/argtable/argtable3.c\<close> the command-line library with its
  own \<open>getopt\<close> and hash table.

  \<^bold>\<open>The kernel.\<close>  Every call that leaves the program is an action (theory \<open>Syscalls\<close>); a function of the
  program is a \<open>prog\<close>, a tree that performs an action and goes on with the reply.  \<open>run\<close> executes a \<open>prog\<close> against a
  kernel, a function from the trace so far and the action to the reply, and yields the result and the trace.  The kernel is
  a parameter: theorems hold for every one, or for those whose replies satisfy the stated premises (\<open>nl_law\<close>, \<open>posix_law\<close>,
  \<open>mkdtemp_law\<close>, \<open>env_law\<close>, \<open>id_law\<close>: documented behaviour of the kernel and of libc).  Calls of
  libcap, libseccomp, \<open>system\<close>, \<open>popen\<close> and the allocator are actions too.  Faults are values: access outside an array or an undefined operation is
  \<open>Undefined_behaviour\<close>, a loop that used up its bound \<open>Out_of_fuel\<close>.

  \<^bold>\<open>Theories.\<close>
  \<^item> \<open>Prelude\<close>, \<open>Cstring\<close>: bytes, little-endian words, arrays with bounds, C strings, number conversion
    (\<open>strtol\<close>, \<open>atoi\<close>, \<open>snprintf\<close>).
  \<^item> \<open>Syscalls\<close>: actions, \<open>prog\<close>, \<open>run\<close> and the lemmas on traces.
  \<^item> \<open>Logging\<close>: \<open>lib/log/log.c\<close>; the callback table and what a log call delivers.
  \<^item> \<open>Netlink_Wire\<close>, \<open>Netlink_Ops\<close>: \<open>src/netlink.c\<close>; the bytes of every request with their buffer bounds, the
    parser that reads them back, the response loop as a search, every operation against the kernel.
  \<^item> \<open>User_Namespace\<close>, \<open>Handshake\<close>: \<open>src/user.c\<close>; the two halves alone, with the replies that the set-up needs
    (\<open>setup_done\<close>), and interleaved over the socket pair as a step relation with its reachable states; the id maps that barco
    wrote, read back from the history, and the ids that a switch may then take.
  \<^item> \<open>Cgroups\<close>, \<open>Mounts\<close>, \<open>Security\<close>: \<open>src/cgroups.c\<close>, \<open>src/mount.c\<close>, \<open>src/sec.c\<close>; verdicts, order of the calls,
    the meaning of the loaded filter as the action that each system call gets.
  \<^item> \<open>Container\<close>: \<open>src/container.c\<close>; \<open>container_start\<close> in its stages, \<open>clone\<close>, \<open>wait\<close> and \<open>stop\<close>.
  \<^item> \<open>Barco_Helpers\<close>, \<open>Barco_Main\<close>, \<open>Barco_Safety\<close>: the helper functions and \<open>main\<close> of \<open>src/barco.c\<close>, from its first
    allocation to the exit code, with the blocks of the argument table (\<open>alloc_table\<close>, \<open>free_table\<close>) and the closing log
    line, and the safety of its cleanup.
  \<^item> \<open>Arg_Types\<close>: the argument types of argtable that \<open>main\<close> uses, with the locale \<open>arg_type\<close> of their contract.
  \<^item> \<open>Getopt\<close>, \<open>Permute_Args\<close>, \<open>Getopt_Safety\<close>: \<open>getopt_long\<close>, its block exchange, its invariant and the measure that a call
    lowers.
  \<^item> \<open>Arg_Parse\<close>, \<open>Arg_Safety\<close>, \<open>Arg_Main\<close>: \<open>arg_parse\<close>, the typing of its tables, and the table and command line of \<open>main\<close>.
  \<^item> \<open>Arg_Dstr\<close>: the growing strings of argtable as texts, with the locale \<open>text_sink\<close> that every printing function uses.
  \<^item> \<open>Arg_Print\<close>, \<open>Arg_Output\<close>: the option strings in their buffer of 200 characters; usage line, glossary and error messages,
    and what \<open>main\<close> prints.
  \<^item> \<open>Arg_Wrap\<close>: the glossary in GNU format, whose descriptions are wrapped into a column.
  \<^item> \<open>Arg_Values\<close>, \<open>Arg_Date\<close>: the types for files, doubles, remarks and dates with \<open>arg_strptime\<close>, as
    further instances of \<open>arg_type\<close>.
  \<^item> \<open>Arg_Regex\<close>, \<open>Arg_Match\<close>: the compiler of T-Rex regular expressions, whose program is an array of nodes that name each other by
    index, and the matcher and the search on it.
  \<^item> \<open>Arg_Nodes\<close>, \<open>Arg_Compile\<close>, \<open>Arg_Grammar\<close>: the expression that an array of nodes holds; no pattern makes the compiler access memory
    outside its arrays; a grammar of patterns and the proof that the compiler builds the expression of the grammar.
  \<^item> \<open>Arg_Accept\<close>, \<open>Arg_Exact\<close>: the texts that an expression matches, as a relation on positions; the matcher returns and is sound
    for it, and exact without alternatives and repetitions.
  \<^item> \<open>Arg_Rex\<close>: the regular expression arguments, as one more instance of \<open>arg_type\<close>, and the patterns that the theorems exclude.
  \<^item> \<open>Arg_Hash\<close>, \<open>Arg_Registry\<close>, \<open>Arg_Messages\<close>: the hash table of argtable as an implementation of a map, with the locale
    \<open>map_table\<close>; the registry of sub-commands on top of it; the help and error messages of sub-commands.
  \<^item> \<open>Arg_Sort\<close>, \<open>Arg_Free\<close>, \<open>Arg_Alloc\<close>: the merge sort; the null check and the release of an argument table; the wrappers of the
    allocator with their panic handler.

  \<^bold>\<open>What the theorems show.\<close>  The container runs its command only after every stage that checks its result has
  succeeded; which failures of the security stage go unnoticed; that \<open>main\<close> releases what it
  acquired on every path, but for a failing \<open>asprintf\<close> and for the panic handler of argtable.  The handshake neither deadlocks nor switches ids before the maps are written without an error, and it succeeds for the
  user id 0 only (or for -1, which switches nothing).
  The netlink requests carry what they should within their buffers, or exactly when they do not.  The command
  line: parsing is memory safe and type preserving for every argument vector, it returns except on one class of
  words, and \<open>main\<close> reads only initialised values; the texts that are printed are given as functions of
  the table and the errors, and the option strings stay inside their buffer.  The containers of argtable refine what they stand
  for: growing strings a text, the hash table and the registry a map, the sort an ordered permutation.  A regular expression is compiled
  into what the grammar says, matching it ends and accepts only what the expression matches.  Several theorems pin down behaviour that the program does not intend.

  \<^bold>\<open>Integers.\<close>  Sizes and indexes of type \<open>int\<close> are checked where the code computes them in \<open>Arg_Dstr\<close> and \<open>Arg_Sort\<close>, and an
  overflow is a fault; the counters of the hash table are 32-bit words.  The printing theories use the growing strings
  without that check (\<open>any_size\<close>): the two agree while the texts have at most \<open>TEXT_MAX\<close> characters (\<open>cat32_any\<close>).

  \<^bold>\<open>Bounds and fuel.\<close>  The retry loops of the program have constant bounds, so their definitions
  recurse on the wait or the remaining responses.  \<open>run\<close> has the fuel of the \<open>prog\<close> tree itself.  \<open>getopt_scan\<close> runs at most \<open>nargc + 1\<close>
  rounds, as each one takes an argument, and reports an access outside the array if it did not suffice, which \<open>Getopt_Safety\<close> excludes.
  The loop around \<open>getopt_long\<close> has fuel; the total length of the arguments is enough (\<open>arg_parse_returns\<close>) except
  for the words that make it run for ever (\<open>dash_after_option_hangs\<close>).  The recursion of the regular expressions is bounded by
  \<open>compile_bound\<close>, twice the length of the pattern, as each call but one in a row reads a character, and by \<open>match_bound\<close>, the number of nodes,
  as each call goes to a smaller part of the array; both are proved to be enough (\<open>compile_returns_expression\<close>, \<open>matching_ends\<close>).

  \<^bold>\<open>Not modelled.\<close>  The log messages inside the other components, except the closing line of \<open>main\<close>; the temporary blocks of
  \<open>arg_parse\<close> and of the printing functions as calls of \<open>main\<close>; of argtable the release of a compiled regular expression and of a growing
  string; the other components take their memory without going through \<open>Arg_Alloc\<close>, as for the default handler a lack of memory
  ends the process; \<open>strtod\<close>, \<open>strftime\<close> and the time of a log line are parameters; assembly-level matters such as the
  stack given to \<open>clone\<close>; the build files and tests.
\<close>

end
